(* ===== verification/ZPrelude.thy ===== *)
theory ZPrelude
  imports Main "HOL-Library.Word" "HOL-Library.Monad_Syntax" "HOL-Library.Code_Target_Nat"
begin

text \<open>
  Prelude of the ZAKOS development: the kernel's error codes, the truncations of the Z180's
  8 and 16 bit unsigned integers, the outcome convention shared by all components, and the
  generic lemmas on lists, options and NULL-terminated lists in a store.

  Outcome convention. A C function that can only run to completion is a plain HOL function.
  A C function that can leave the defined behaviour of C, fail an \<open>assert\<close>, halt in
  \<open>panic\<close>, or block for ever returns an \<open>option\<close>: \<open>None\<close> stands for each of these,
  \<open>Some\<close> for a normal return, with the new state. A C pointer is an \<open>option\<close> as well,
  \<open>None\<close> being \<open>NULL\<close>; a NULL dereference is \<open>None\<close> of the whole computation.
  Error codes are the negative \<open>int\<close> values the code returns.
\<close>

section \<open>Error codes (kernel/lib/errno.h)\<close>

named_theorems errno_defs \<open>numeric values of the error codes\<close>

definition EPERM :: int where [errno_defs]: "EPERM = 1"
definition ENOENT :: int where [errno_defs]: "ENOENT = 2"
definition EIO :: int where [errno_defs]: "EIO = 5"
definition ENOEXEC :: int where [errno_defs]: "ENOEXEC = 6"
definition EBADF :: int where [errno_defs]: "EBADF = 7"
definition ECHILD :: int where [errno_defs]: "ECHILD = 8"
definition EAGAIN :: int where [errno_defs]: "EAGAIN = 9"
definition ENOMEM :: int where [errno_defs]: "ENOMEM = 10"
definition EBUSY :: int where [errno_defs]: "EBUSY = 12"
definition EEXIST :: int where [errno_defs]: "EEXIST = 13"
definition ENOTDIR :: int where [errno_defs]: "ENOTDIR = 14"
definition EISDIR :: int where [errno_defs]: "EISDIR = 15"
definition EINVAL :: int where [errno_defs]: "EINVAL = 16"
definition ENFILE :: int where [errno_defs]: "ENFILE = 17"
definition EMFILE :: int where [errno_defs]: "EMFILE = 18"
definition ENOSPC :: int where [errno_defs]: "ENOSPC = 21"
definition ENOSYS :: int where [errno_defs]: "ENOSYS = 24"
definition ENAMETOOLONG :: int where [errno_defs]: "ENAMETOOLONG = 25"
definition ETIME :: int where [errno_defs]: "ETIME = 26"

section \<open>Unsigned machine integers\<close>

text \<open>
  \<open>uint8_t\<close> and \<open>uint16_t\<close> (also \<open>size_t\<close> and \<open>uintptr_t\<close>: SDCC's Z180 target is a
  16 bit machine) as naturals, with the truncation a store into such a variable performs.
\<close>

definition u8 :: "nat \<Rightarrow> nat" where "u8 n = n mod 256"
definition u16 :: "nat \<Rightarrow> nat" where "u16 n = n mod 65536"

text \<open>Subtraction of 16 bit unsigned values wraps around.\<close>

definition sub16 :: "nat \<Rightarrow> nat \<Rightarrow> nat" where
  "sub16 a b = u16 (a + 65536 - u16 b)"

definition sub8 :: "nat \<Rightarrow> nat \<Rightarrow> nat" where
  "sub8 a b = u8 (a + 256 - u8 b)"

text \<open>The two's complement value a signed 8 or 16 bit variable holds after storing \<open>x\<close>.\<close>

definition s8 :: "int \<Rightarrow> int" where "s8 x = (x + 128) mod 256 - 128"
definition s16 :: "int \<Rightarrow> int" where "s16 x = (x + 32768) mod 65536 - 32768"

lemma s8_id [simp]: "-128 \<le> x \<Longrightarrow> x < 128 \<Longrightarrow> s8 x = x"
  by (simp add: s8_def)

lemma s16_id [simp]: "-32768 \<le> x \<Longrightarrow> x < 32768 \<Longrightarrow> s16 x = x"
  by (simp add: s16_def)

lemma u8_less [simp]: "u8 n < 256"
  by (simp add: u8_def)

lemma u16_less [simp]: "u16 n < 65536"
  by (simp add: u16_def)

lemma u8_id [simp]: "n < 256 \<Longrightarrow> u8 n = n"
  by (simp add: u8_def)

lemma u16_id [simp]: "n < 65536 \<Longrightarrow> u16 n = n"
  by (simp add: u16_def)

lemma sub16_id [simp]: "b \<le> a \<Longrightarrow> a < 65536 \<Longrightarrow> sub16 a b = a - b"
  by (simp add: sub16_def u16_def) (metis Nat.diff_add_assoc2 less_imp_diff_less mod_add_self2 mod_less)

lemma sub8_id [simp]: "b \<le> a \<Longrightarrow> a < 256 \<Longrightarrow> sub8 a b = a - b"
  by (simp add: sub8_def u8_def) (metis Nat.diff_add_assoc2 less_imp_diff_less mod_add_self2 mod_less)

section \<open>Outcomes\<close>

text \<open>A run-time check: \<open>assert\<close> of the source, or the condition under which a
  construct of C is defined.\<close>

definition check :: "bool \<Rightarrow> unit option" where
  "check b = (if b then Some () else None)"

lemma check_Some [simp]: "check b = Some u \<longleftrightarrow> b"
  by (simp add: check_def)

lemma check_True [simp]: "check True = Some ()"
  by (simp add: check_def)

lemma check_False [simp]: "check False = None"
  by (simp add: check_def)

section \<open>Lists and options\<close>

lemma bind_case_prod_Some:
  "(case_prod f p = Some r) \<longleftrightarrow> (\<exists>a b. p = (a, b) \<and> f a b = Some r)"
  by (cases p) auto

lemma remove1_split:
  "x \<notin> set as \<Longrightarrow> remove1 x (as @ x # bs) = as @ bs"
  by (simp add: remove1_append)

lemma distinct_split_unique:
  assumes "distinct (as @ x # bs)" and "as @ x # bs = cs @ x # ds"
  shows "as = cs \<and> bs = ds"
proof -
  have "x \<notin> set as" and "x \<notin> set bs"
    using assms(1) by auto
  moreover have "x \<notin> set cs" and "x \<notin> set ds"
    using assms by auto
  ultimately show ?thesis
    using assms(2) by (metis append_Cons_eq_iff)
qed

section \<open>NULL-terminated lists in a store\<close>

text \<open>
  \<open>slist nx p xs\<close>: following the \<open>next\<close> fields \<open>nx\<close> from pointer \<open>p\<close> visits
  exactly the objects \<open>xs\<close> and ends in \<open>NULL\<close>. Used for the singly linked lists of
  \<open>mem/page.c\<close>, \<open>mem/kmalloc.c\<close> and \<open>lib/id.c\<close>.
\<close>

primrec slist :: "('p \<Rightarrow> 'p option) \<Rightarrow> 'p option \<Rightarrow> 'p list \<Rightarrow> bool" where
  "slist nx p [] \<longleftrightarrow> p = None"
| "slist nx p (x # xs) \<longleftrightarrow> p = Some x \<and> slist nx (nx x) xs"

text \<open>\<open>sseg nx p xs q\<close>: a segment of such a list, from \<open>p\<close> up to but excluding \<open>q\<close>.\<close>

primrec sseg :: "('p \<Rightarrow> 'p option) \<Rightarrow> 'p option \<Rightarrow> 'p list \<Rightarrow> 'p option \<Rightarrow> bool" where
  "sseg nx p [] q \<longleftrightarrow> p = q"
| "sseg nx p (x # xs) q \<longleftrightarrow> p = Some x \<and> sseg nx (nx x) xs q"

lemma slist_None [simp]: "slist nx None xs \<longleftrightarrow> xs = []"
  by (cases xs) auto

lemma slist_Some: "slist nx (Some x) xs \<longleftrightarrow> (\<exists>ys. xs = x # ys \<and> slist nx (nx x) ys)"
  by (cases xs) auto

lemma slist_sseg: "slist nx p xs \<longleftrightarrow> sseg nx p xs None"
  by (induction xs arbitrary: p) auto

lemma slist_append: "slist nx p (xs @ ys) \<longleftrightarrow> (\<exists>q. sseg nx p xs q \<and> slist nx q ys)"
  by (induction xs arbitrary: p) auto

lemma sseg_append: "sseg nx p (xs @ ys) r \<longleftrightarrow> (\<exists>q. sseg nx p xs q \<and> sseg nx q ys r)"
  by (induction xs arbitrary: p) auto

lemma slist_cong:
  "(\<And>x. x \<in> set xs \<Longrightarrow> nx' x = nx x) \<Longrightarrow> slist nx' p xs = slist nx p xs"
  by (induction xs arbitrary: p) auto

lemma sseg_cong:
  "(\<And>x. x \<in> set xs \<Longrightarrow> nx' x = nx x) \<Longrightarrow> sseg nx' p xs q = sseg nx p xs q"
  by (induction xs arbitrary: p) auto

lemma slist_upd [simp]: "u \<notin> set xs \<Longrightarrow> slist (nx(u := v)) p xs = slist nx p xs"
  by (induction xs arbitrary: p) auto

lemma sseg_upd [simp]: "u \<notin> set xs \<Longrightarrow> sseg (nx(u := v)) p xs q = sseg nx p xs q"
  by (induction xs arbitrary: p) auto

lemma slist_unique: "slist nx p xs \<Longrightarrow> slist nx p ys \<Longrightarrow> xs = ys"
proof (induction xs arbitrary: p ys)
  case Nil
  then show ?case by simp
next
  case (Cons x xs)
  then show ?case by (cases ys) auto
qed

lemma slist_tail: "slist nx p (xs @ y # ys) \<Longrightarrow> slist nx (Some y) (y # ys)"
  by (auto simp: slist_append)

lemma slist_distinct: "slist nx p xs \<Longrightarrow> distinct xs"
proof (induction xs arbitrary: p)
  case Nil
  then show ?case by simp
next
  case (Cons x xs)
  have "x \<notin> set xs"
  proof
    assume "x \<in> set xs"
    then obtain as bs where xs: "xs = as @ x # bs" by (meson split_list)
    with Cons.prems have "slist nx (Some x) (x # bs)" and "slist nx (Some x) (x # xs)"
      by (auto simp: slist_append)
    then have "bs = xs" using slist_unique by fastforce
    with xs show False by simp
  qed
  with Cons show ?case by auto
qed

end
