(* ===== verification/CList.thy ===== *)
theory CList
  imports ZPrelude
begin

text \<open>
  The cyclic doubly linked lists of \<open>kernel/lib/list.c\<close>. The \<open>next\<close> and \<open>prev\<close>
  members embedded in the objects are two stores indexed by the object; the C macros
  \<open>LIST_ADD\<close> and \<open>LIST_REMOVE\<close> become \<open>list_add\<close> and \<open>list_remove\<close>, writes in the
  order of the source. \<open>cyc s q xs\<close> says that the queue pointer \<open>q\<close> heads a well-formed
  ring visiting the objects \<open>xs\<close>; the two operations implement appending at the tail and
  removing a member, and leave every other ring alone. The locale \<open>cyclic_queue\<close> is that
  contract, for the wait queues, ready lists and process lists built on it.
\<close>

record 'p links =
  next_of :: "'p \<Rightarrow> 'p option"
  prev_of :: "'p \<Rightarrow> 'p option"

definition list_add :: "'p option \<Rightarrow> 'p \<Rightarrow> 'p links \<Rightarrow> ('p option \<times> 'p links) option" where
  "list_add queue m s = (case queue of
     None \<Rightarrow> Some (Some m, s\<lparr>next_of := (next_of s)(m := Some m),
                             prev_of := (prev_of s)(m := Some m)\<rparr>)
   | Some q \<Rightarrow>
      (let s1 = s\<lparr>next_of := (next_of s)(m := Some q)\<rparr>;
           s2 = s1\<lparr>prev_of := (prev_of s1)(m := prev_of s1 q)\<rparr>
       in case prev_of s2 q of
            None \<Rightarrow> None
          | Some t \<Rightarrow>
             (let s3 = s2\<lparr>next_of := (next_of s2)(t := Some m)\<rparr>
              in Some (Some q, s3\<lparr>prev_of := (prev_of s3)(q := Some m)\<rparr>))))"

definition list_remove :: "'p option \<Rightarrow> 'p \<Rightarrow> 'p links \<Rightarrow> ('p option \<times> 'p links) option" where
  "list_remove queue m s =
     do {
       (queue', s') \<leftarrow>
         (if next_of s m = Some m then Some (None, s)
          else do {
            let q' = (if queue = Some m then next_of s m else queue);
            p \<leftarrow> prev_of s m;
            let s1 = s\<lparr>next_of := (next_of s)(p := next_of s m)\<rparr>;
            n \<leftarrow> next_of s1 m;
            Some (q', s1\<lparr>prev_of := (prev_of s1)(n := prev_of s1 m)\<rparr>)
          });
       Some (queue', s'\<lparr>next_of := (next_of s')(m := None), prev_of := (prev_of s')(m := None)\<rparr>)
     }"

section \<open>The ring abstraction\<close>

text \<open>Consecutive objects point at each other.\<close>

fun chained :: "'p links \<Rightarrow> 'p list \<Rightarrow> bool" where
  "chained s (x # y # zs) \<longleftrightarrow> next_of s x = Some y \<and> prev_of s y = Some x \<and> chained s (y # zs)"
| "chained s xs \<longleftrightarrow> True"

definition cyc :: "'p links \<Rightarrow> 'p option \<Rightarrow> 'p list \<Rightarrow> bool" where
  "cyc s q xs \<longleftrightarrow> (if xs = [] then q = None
     else q = Some (hd xs) \<and> distinct xs \<and> chained s (xs @ [hd xs]))"

lemma cyc_Nil [simp]: "cyc s q [] \<longleftrightarrow> q = None"
  by (simp add: cyc_def)

lemma cyc_None [simp]: "cyc s None xs \<longleftrightarrow> xs = []"
  by (simp add: cyc_def)

lemma cyc_Some: "cyc s (Some h) xs \<Longrightarrow> \<exists>t. xs = h # t"
  by (cases xs) (auto simp: cyc_def)

lemma cyc_distinct: "cyc s q xs \<Longrightarrow> distinct xs"
  by (cases "xs = []") (auto simp: cyc_def)

lemma chained_append:
  "chained s (xs @ y # ys) \<longleftrightarrow> chained s (xs @ [y]) \<and> chained s (y # ys)"
proof (induction xs)
  case Nil
  then show ?case by simp
next
  case (Cons x xs)
  then show ?case by (cases xs) auto
qed

lemma chained_snoc2 [simp]:
  "chained s (xs @ [x, y]) \<longleftrightarrow> chained s (xs @ [x]) \<and> next_of s x = Some y \<and> prev_of s y = Some x"
  using chained_append[of s xs x "[y]"] by simp

lemma chained_cong:
  assumes "\<And>x. x \<in> set (butlast xs) \<Longrightarrow> next_of s' x = next_of s x"
    and "\<And>x. x \<in> set (tl xs) \<Longrightarrow> prev_of s' x = prev_of s x"
  shows "chained s' xs = chained s xs"
  using assms
proof (induction s xs rule: chained.induct)
  case (1 s x y zs)
  have "chained s' (y # zs) = chained s (y # zs)"
    by (rule "1.IH") (use "1.prems" in \<open>auto split: if_splits\<close>)
  then show ?case using "1.prems" by simp
qed auto

lemma cyc_cong:
  assumes "\<And>x. x \<in> set xs \<Longrightarrow> next_of s' x = next_of s x \<and> prev_of s' x = prev_of s x"
  shows "cyc s' q xs = cyc s q xs"
proof (cases xs)
  case Nil
  then show ?thesis by simp
next
  case (Cons h t)
  have "chained s' (xs @ [hd xs]) = chained s (xs @ [hd xs])"
    by (rule chained_cong) (use assms Cons in auto)
  then show ?thesis by (simp add: cyc_def)
qed

text \<open>The last object of a ring precedes the head.\<close>

lemma cyc_last:
  assumes "cyc s q xs" and "xs \<noteq> []"
  shows "prev_of s (hd xs) = Some (last xs) \<and> next_of s (last xs) = Some (hd xs)"
proof -
  obtain ys z where "xs = ys @ [z]" using assms(2) by (metis rev_exhaust)
  with assms show ?thesis by (simp add: cyc_def)
qed

section \<open>Functional correctness\<close>

lemma list_add_cyc:
  assumes "cyc s q xs" and m: "m \<notin> set xs"
  shows "\<exists>q' s'. list_add q m s = Some (q', s') \<and> cyc s' q' (xs @ [m]) \<and>
    (\<forall>x. x \<notin> set xs \<and> x \<noteq> m \<longrightarrow> next_of s' x = next_of s x \<and> prev_of s' x = prev_of s x)"
proof (cases xs)
  case Nil
  with assms show ?thesis by (auto simp: list_add_def cyc_def)
next
  case (Cons h t)
  define l where "l = last xs"
  have q: "q = Some h" and dist: "distinct xs" and ch: "chained s (xs @ [h])"
    using assms Cons by (auto simp: cyc_def)
  have prevh: "prev_of s h = Some l" using cyc_last[OF assms(1)] Cons by (simp add: l_def)
  have hm: "h \<noteq> m" and lm: "l \<noteq> m" using m Cons by (auto simp: l_def)
  define s' where "s' = s\<lparr>next_of := (next_of s)(m := Some h, l := Some m),
    prev_of := (prev_of s)(m := Some l, h := Some m)\<rparr>"
  have run: "list_add q m s = Some (Some h, s')"
    using q prevh hm lm by (simp add: list_add_def Let_def s'_def)
  obtain ys where xs: "xs = ys @ [l]" using Cons by (metis append_butlast_last_id l_def list.discI)
  have lys: "l \<notin> set ys" using dist xs by auto
  have "chained s xs" using ch xs chained_append[of s ys l "[h]"] by simp
  moreover have "chained s' xs = chained s xs"
  proof (rule chained_cong)
    fix x assume "x \<in> set (butlast xs)"
    then have "x \<in> set ys" by (simp add: xs)
    then have "x \<noteq> l" "x \<noteq> m" using lys m xs by auto
    then show "next_of s' x = next_of s x" by (simp add: s'_def)
  next
    fix x assume "x \<in> set (tl xs)"
    then have "x \<noteq> h" "x \<noteq> m" using dist m Cons by auto
    then show "prev_of s' x = prev_of s x" by (simp add: s'_def)
  qed
  ultimately have "chained s' (xs @ [m, h])"
    using lm hm chained_append[of s' ys l "[m, h]"] by (simp add: xs s'_def)
  then have "cyc s' (Some h) (xs @ [m])"
    using dist m hm Cons by (simp add: cyc_def)
  moreover have "next_of s' x = next_of s x \<and> prev_of s' x = prev_of s x"
    if "x \<notin> set xs" "x \<noteq> m" for x
    using that Cons by (auto simp: s'_def l_def)
  ultimately show ?thesis using run by blast
qed

text \<open>Rings without their head pointer, which may be turned: removal is easiest to see
  from the member that leaves.\<close>

definition ring :: "'p links \<Rightarrow> 'p list \<Rightarrow> bool" where
  "ring s xs \<longleftrightarrow> distinct xs \<and> (xs \<noteq> [] \<longrightarrow> chained s (xs @ [hd xs]))"

lemma cyc_ring: "xs \<noteq> [] \<Longrightarrow> cyc s q xs \<longleftrightarrow> q = Some (hd xs) \<and> ring s xs"
  by (simp add: cyc_def ring_def)

lemma ring_rotate: "ring s (as @ bs) \<Longrightarrow> ring s (bs @ as)"
proof (cases "as = [] \<or> bs = []")
  case True
  then show "ring s (as @ bs) \<Longrightarrow> ring s (bs @ as)" by auto
next
  case False
  then obtain a as' b bs' where ab: "as = a # as'" "bs = b # bs'"
    by (meson neq_Nil_conv)
  assume "ring s (as @ bs)"
  then show "ring s (bs @ as)"
    using chained_append[of s as b "bs' @ [a]"] chained_append[of s bs a "as' @ [b]"]
    by (auto simp: ring_def ab)
qed

text \<open>The state after \<open>LIST_REMOVE\<close> of \<open>m\<close> standing between \<open>p\<close> and \<open>n\<close>.\<close>

definition unlinked :: "'p \<Rightarrow> 'p \<Rightarrow> 'p \<Rightarrow> 'p links \<Rightarrow> 'p links" where
  "unlinked p m n s = s\<lparr>next_of := (next_of s)(p := Some n, m := None),
                        prev_of := (prev_of s)(n := Some p, m := None)\<rparr>"

lemma list_remove_run:
  assumes "next_of s m = Some n" and "prev_of s m = Some p" and "n \<noteq> m" and "p \<noteq> m"
  shows "list_remove q m s = Some (if q = Some m then Some n else q, unlinked p m n s)"
  using assms by (simp add: list_remove_def unlinked_def)

lemma ring_unlink:
  assumes r: "ring s (m # t)" and t: "t \<noteq> []"
  shows "next_of s m = Some (hd t)" and "prev_of s m = Some (last t)"
    and "ring (unlinked (last t) m (hd t) s) t"
proof -
  obtain h u where hu: "t = h # u" using t by (meson neq_Nil_conv)
  obtain ys l where yl: "t = ys @ [l]" using t by (metis rev_exhaust)
  have l: "l = last t" by (simp add: yl)
  have mem: "hd t \<in> set t" "last t \<in> set t"
    using t hd_in_set last_in_set by blast+
  have dist: "distinct (m # t)" and ch: "chained s (m # t @ [m])"
    using r by (auto simp: ring_def)
  show "next_of s m = Some (hd t)" using ch by (simp add: hu)
  have ch2: "chained s (t @ [m])" using ch hu by simp
  then show "prev_of s m = Some (last t)" by (simp add: yl)
  let ?s = "unlinked (last t) m (hd t) s"
  have "chained s t" using ch2 chained_append[of s ys l "[m]"] by (simp add: yl)
  moreover have "chained ?s t = chained s t"
  proof (rule chained_cong)
    fix x assume "x \<in> set (butlast t)"
    then have "x \<in> set ys" by (simp add: yl)
    then have "x \<noteq> last t" "x \<noteq> m" using dist by (auto simp: yl)
    then show "next_of ?s x = next_of s x" by (simp add: unlinked_def)
  next
    fix x assume "x \<in> set (tl t)"
    then have "x \<noteq> hd t" "x \<noteq> m" using dist by (auto simp: hu)
    then show "prev_of ?s x = prev_of s x" by (simp add: unlinked_def)
  qed
  ultimately have "chained ?s (ys @ [l])" by (simp add: yl)
  moreover have "next_of ?s l = Some (hd t)" "prev_of ?s (hd t) = Some l"
    using dist mem by (auto simp: unlinked_def l)
  ultimately have "chained ?s ((ys @ [l]) @ [hd t])" by simp
  then have "chained ?s (t @ [hd t])" by (simp only: yl)
  then show "ring ?s t" using dist by (simp add: ring_def)
qed

lemma list_remove_cyc:
  assumes c: "cyc s q xs" and m: "m \<in> set xs"
  shows "\<exists>q' s'. list_remove q m s = Some (q', s') \<and> cyc s' q' (remove1 m xs) \<and>
    (\<forall>x. x \<notin> set xs \<longrightarrow> next_of s' x = next_of s x \<and> prev_of s' x = prev_of s x)"
proof -
  have ne: "xs \<noteq> []" using m by auto
  have q: "q = Some (hd xs)" and rg: "ring s xs" using c ne by (auto simp: cyc_ring)
  obtain as bs where xs: "xs = as @ m # bs" using m by (meson split_list)
  have ma: "m \<notin> set as" "m \<notin> set bs" using rg by (auto simp: ring_def xs)
  have rot: "ring s (m # bs @ as)" using rg ring_rotate[of s as "m # bs"] by (simp add: xs)
  show ?thesis
  proof (cases "bs @ as = []")
    case True
    then have "next_of s m = Some m" using rot by (simp add: ring_def)
    with True show ?thesis by (simp add: list_remove_def xs)
  next
    case False
    let ?s = "unlinked (last (bs @ as)) m (hd (bs @ as)) s"
    note un = ring_unlink[OF rot False]
    have mem: "hd (bs @ as) \<in> set (bs @ as)" "last (bs @ as) \<in> set (bs @ as)"
      using False hd_in_set last_in_set by blast+
    then have neq: "hd (bs @ as) \<noteq> m" "last (bs @ as) \<noteq> m" using ma by auto
    have run: "list_remove q m s = Some (if q = Some m then Some (hd (bs @ as)) else q, ?s)"
      by (rule list_remove_run[OF un(1,2) neq])
    have rem: "remove1 m xs = as @ bs" using ma by (simp add: xs remove1_append)
    have "ring ?s (as @ bs)" using un(3) by (rule ring_rotate)
    moreover have "(if q = Some m then Some (hd (bs @ as)) else q) = Some (hd (as @ bs))"
      using q ma False by (cases as) (auto simp: xs)
    ultimately have "cyc ?s (if q = Some m then Some (hd (bs @ as)) else q) (remove1 m xs)"
      using False cyc_ring[of "as @ bs"] by (auto simp: rem)
    moreover have "next_of ?s x = next_of s x \<and> prev_of ?s x = prev_of s x" if "x \<notin> set xs" for x
    proof -
      have "x \<noteq> hd (bs @ as)" "x \<noteq> last (bs @ as)" "x \<noteq> m" using that mem by (auto simp: xs)
      then show ?thesis by (simp add: unlinked_def)
    qed
    ultimately show ?thesis using run by blast
  qed
qed

section \<open>The queue contract\<close>

text \<open>
  What the users of \<open>list.c\<close> rely on, over any representation \<open>repr s q xs\<close> of "the queue
  pointer \<open>q\<close> holds the objects \<open>xs\<close>, oldest first": adding appends, removing takes out the
  one object, and a queue of other objects in the same store is not touched.
\<close>

locale cyclic_queue =
  fixes add :: "'q \<Rightarrow> 'p \<Rightarrow> 's \<Rightarrow> ('q \<times> 's) option"
    and remove :: "'q \<Rightarrow> 'p \<Rightarrow> 's \<Rightarrow> ('q \<times> 's) option"
    and repr :: "'s \<Rightarrow> 'q \<Rightarrow> 'p list \<Rightarrow> bool"
  assumes repr_distinct: "repr s q xs \<Longrightarrow> distinct xs"
    and add_repr: "repr s q xs \<Longrightarrow> m \<notin> set xs \<Longrightarrow>
      \<exists>q' s'. add q m s = Some (q', s') \<and> repr s' q' (xs @ [m]) \<and>
        (\<forall>r ys. m \<notin> set ys \<longrightarrow> set ys \<inter> set xs = {} \<longrightarrow> repr s r ys \<longrightarrow> repr s' r ys)"
    and remove_repr: "repr s q xs \<Longrightarrow> m \<in> set xs \<Longrightarrow>
      \<exists>q' s'. remove q m s = Some (q', s') \<and> repr s' q' (remove1 m xs) \<and>
        (\<forall>r ys. set ys \<inter> set xs = {} \<longrightarrow> repr s r ys \<longrightarrow> repr s' r ys)"
begin

text \<open>Moving the oldest object of one queue to the tail of another.\<close>

lemma move_repr:
  assumes src: "repr s q (m # xs)" and dst: "repr s r ys" and dis: "set (m # xs) \<inter> set ys = {}"
  shows "\<exists>q' s1 r' s2. remove q m s = Some (q', s1) \<and> add r m s1 = Some (r', s2) \<and>
    repr s2 q' xs \<and> repr s2 r' (ys @ [m])"
proof -
  obtain q' s1 where rm: "remove q m s = Some (q', s1)" "repr s1 q' xs"
      and fr: "\<And>r ys. set ys \<inter> set (m # xs) = {} \<Longrightarrow> repr s r ys \<Longrightarrow> repr s1 r ys"
    using remove_repr[OF src, of m] by auto
  have dst1: "repr s1 r ys" using fr[OF _ dst] dis by auto
  obtain r' s2 where ad: "add r m s1 = Some (r', s2)" "repr s2 r' (ys @ [m])"
      and fr2: "\<And>q xs. m \<notin> set xs \<Longrightarrow> set xs \<inter> set ys = {} \<Longrightarrow> repr s1 q xs \<Longrightarrow> repr s2 q xs"
    using add_repr[OF dst1, of m] dis by (auto 0 3)
  have "m \<notin> set xs" using repr_distinct[OF src] by simp
  then have "repr s2 q' xs" using fr2 rm(2) dis by auto
  with rm(1) ad show ?thesis by blast
qed

end

interpretation rq: cyclic_queue list_add list_remove cyc
proof
  fix s :: "'a links" and q xs assume "cyc s q xs"
  then show "distinct xs" by (rule cyc_distinct)
next
  fix s :: "'a links" and q xs m assume "cyc s q xs" "m \<notin> set xs"
  from list_add_cyc[OF this] obtain q' s' where "list_add q m s = Some (q', s')"
      "cyc s' q' (xs @ [m])"
      and fr: "\<And>x. x \<notin> set xs \<Longrightarrow> x \<noteq> m \<Longrightarrow> next_of s' x = next_of s x \<and> prev_of s' x = prev_of s x"
    by blast
  moreover have "cyc s' r ys" if "m \<notin> set ys" "set ys \<inter> set xs = {}" "cyc s r ys" for r ys
    using that fr cyc_cong[of ys s' s r] by (metis disjoint_iff)
  ultimately show "\<exists>q' s'. list_add q m s = Some (q', s') \<and> cyc s' q' (xs @ [m]) \<and>
        (\<forall>r ys. m \<notin> set ys \<longrightarrow> set ys \<inter> set xs = {} \<longrightarrow> cyc s r ys \<longrightarrow> cyc s' r ys)" by blast
next
  fix s :: "'a links" and q xs m assume "cyc s q xs" "m \<in> set xs"
  from list_remove_cyc[OF this] obtain q' s' where "list_remove q m s = Some (q', s')"
      "cyc s' q' (remove1 m xs)"
      and fr: "\<And>x. x \<notin> set xs \<Longrightarrow> next_of s' x = next_of s x \<and> prev_of s' x = prev_of s x"
    by blast
  moreover have "cyc s' r ys" if "set ys \<inter> set xs = {}" "cyc s r ys" for r ys
    using that fr cyc_cong[of ys s' s r] by (metis disjoint_iff)
  ultimately show "\<exists>q' s'. list_remove q m s = Some (q', s') \<and> cyc s' q' (remove1 m xs) \<and>
        (\<forall>r ys. set ys \<inter> set xs = {} \<longrightarrow> cyc s r ys \<longrightarrow> cyc s' r ys)" by blast
qed

text \<open>
  The transplanting loop \<open>while (*src != NULL) { m = *src; LIST_REMOVE(src, m);
  LIST_ADD(dst, m); }\<close> of \<open>_process_zombify\<close> (children and zombies handed to init).
\<close>

partial_function (option) list_drain ::
  "'p option \<Rightarrow> 'p option \<Rightarrow> 'p links \<Rightarrow> ('p option \<times> 'p option \<times> 'p links) option" where
  "list_drain src dst s = (case src of
     None \<Rightarrow> Some (src, dst, s)
   | Some m \<Rightarrow> Option.bind (list_remove src m s) (\<lambda>(src', s1).
       Option.bind (list_add dst m s1) (\<lambda>(dst', s2). list_drain src' dst' s2)))"

declare list_drain.simps [code]

lemma list_drain_repr:
  "cyc s src xs \<Longrightarrow> cyc s dst ys \<Longrightarrow> set xs \<inter> set ys = {} \<Longrightarrow>
   \<exists>dst' s'. list_drain src dst s = Some (None, dst', s') \<and> cyc s' dst' (ys @ xs) \<and>
     (\<forall>r zs. set zs \<inter> (set xs \<union> set ys) = {} \<longrightarrow> cyc s r zs \<longrightarrow> cyc s' r zs)"
proof (induction xs arbitrary: src dst s ys)
  case Nil
  then show ?case by (simp add: list_drain.simps)
next
  case (Cons m xs)
  have src: "src = Some m" using Cons.prems(1) by (simp add: cyc_def)
  have dis: "m \<notin> set xs" "m \<notin> set ys" "set xs \<inter> set ys = {}"
    using Cons.prems cyc_distinct[OF Cons.prems(1)] by auto
  obtain q' s1 where rm: "list_remove src m s = Some (q', s1)" "cyc s1 q' xs"
      and fr1: "\<And>r zs. set zs \<inter> set (m # xs) = {} \<Longrightarrow> cyc s r zs \<Longrightarrow> cyc s1 r zs"
    using rq.remove_repr[OF Cons.prems(1), of m] by auto
  have dst1: "cyc s1 dst ys" using fr1[OF _ Cons.prems(2)] dis by auto
  obtain r' s2 where ad: "list_add dst m s1 = Some (r', s2)" "cyc s2 r' (ys @ [m])"
      and fr2: "\<And>r zs. m \<notin> set zs \<Longrightarrow> set zs \<inter> set ys = {} \<Longrightarrow> cyc s1 r zs \<Longrightarrow> cyc s2 r zs"
    using rq.add_repr[OF dst1 dis(2)] by blast
  have "cyc s2 q' xs" using fr2[OF dis(1,3) rm(2)] .
  moreover have "set xs \<inter> set (ys @ [m]) = {}" using dis by auto
  ultimately obtain dst' s' where r: "list_drain q' r' s2 = Some (None, dst', s')" "cyc s' dst' ((ys @ [m]) @ xs)"
      and fr3: "\<And>r zs. set zs \<inter> (set xs \<union> set (ys @ [m])) = {} \<Longrightarrow> cyc s2 r zs \<Longrightarrow> cyc s' r zs"
    using Cons.IH ad(2) by blast
  have "list_drain src dst s = Some (None, dst', s')"
    using rm(1) ad(1) src r(1) by (subst list_drain.simps) simp
  moreover have "cyc s' r zs" if "set zs \<inter> (set (m # xs) \<union> set ys) = {}" "cyc s r zs" for r zs
    using fr3[OF _ fr2[OF _ _ fr1]] that by auto
  ultimately show ?case using r(2) by auto
qed

section \<open>Properties\<close>

text \<open>\<open>LIST_ADD\<close> on a ring holding \<open>xs\<close> never faults, puts the new member behind all
  others, and leaves every ring of other objects in the same store as it was.
\<close>

theorem list_add_appends:
  assumes "cyc s q xs" and "m \<notin> set xs"
  shows "\<exists>q' s'. list_add q m s = Some (q', s') \<and> cyc s' q' (xs @ [m]) \<and>
    (\<forall>r ys. m \<notin> set ys \<longrightarrow> set ys \<inter> set xs = {} \<longrightarrow> cyc s r ys \<longrightarrow> cyc s' r ys)"
  by (rule rq.add_repr[OF assms])

definition ring12 :: "nat links" where
  "ring12 = \<lparr>next_of = Map.empty(1 \<mapsto> 2, 2 \<mapsto> 1), prev_of = Map.empty(1 \<mapsto> 2, 2 \<mapsto> 1)\<rparr>"

theorem list_add_appends_witness:
  "cyc ring12 (Some 1) [1, 2] \<and> (3::nat) \<notin> set [1, 2] \<and>
   (\<exists>q' s'. list_add (Some 1) 3 ring12 = Some (q', s') \<and> cyc s' q' [1, 2, 3])"
proof -
  have c: "cyc ring12 (Some 1) [1, 2]" by (simp add: cyc_def ring12_def)
  have m: "(3::nat) \<notin> set [1, 2]" by simp
  show ?thesis using c m list_add_appends[OF c m] by auto
qed

text \<open>\<open>LIST_REMOVE\<close> of any member (head included, when the queue pointer moves to the next
  object) never faults and leaves exactly the other members, in their order; other rings
  are untouched.
\<close>

theorem list_remove_removes:
  assumes "cyc s q xs" and "m \<in> set xs"
  shows "\<exists>q' s'. list_remove q m s = Some (q', s') \<and> cyc s' q' (remove1 m xs) \<and>
    (\<forall>r ys. set ys \<inter> set xs = {} \<longrightarrow> cyc s r ys \<longrightarrow> cyc s' r ys)"
  by (rule rq.remove_repr[OF assms])

theorem list_remove_removes_witness:
  "cyc ring12 (Some 1) [1, 2] \<and> (1::nat) \<in> set [1, 2] \<and>
   (\<exists>q' s'. list_remove (Some 1) 1 ring12 = Some (q', s') \<and> cyc s' q' [2])"
proof -
  have c: "cyc ring12 (Some 1) [1, 2]" by (simp add: cyc_def ring12_def)
  have m: "(1::nat) \<in> set [1, 2]" by simp
  show ?thesis using c m list_remove_removes[OF c m] by auto
qed

end
