(* ===== verification/IdStorage.thy ===== *)
theory IdStorage
  imports ZPrelude
begin

text \<open>
  The unique id allocator of \<open>kernel/lib/id.c\<close>, which numbers processes and threads.
  A storage is its NULL-terminated list of linkages, each a pair of the object it is embedded
  in and the id it carries, and the rotating counter. The list is kept strictly sorted by id
  (\<open>ids_ok\<close>), which every operation preserves; insertion gives an unused id.
\<close>

definition ID_MIN :: int where "ID_MIN = 1"
definition ID_MAX :: int where "ID_MAX = 32767"

record 'p id_storage =
  id_list :: "('p \<times> int) list"
  id_counter :: int

definition id_init :: "'p id_storage" where
  "id_init = \<lparr>id_list = [], id_counter = ID_MIN\<rparr>"

fun id_find :: "('p \<times> int) list \<Rightarrow> int \<Rightarrow> 'p option" where
  "id_find [] k = None"
| "id_find (c # cs) k = (if snd c = k then Some (fst c) else id_find cs k)"

definition id_get :: "'p id_storage \<Rightarrow> int \<Rightarrow> 'p option" where
  "id_get st k = id_find (id_list st) k"

definition id_get_first :: "'p id_storage \<Rightarrow> 'p option" where
  "id_get_first st = (case id_list st of [] \<Rightarrow> None | c # _ \<Rightarrow> Some (fst c))"

fun id_succ :: "('p \<times> int) list \<Rightarrow> 'p \<Rightarrow> 'p option" where
  "id_succ (c # d # cs) it = (if fst c = it then Some (fst d) else id_succ (d # cs) it)"
| "id_succ cs it = None"

definition id_get_next :: "'p id_storage \<Rightarrow> 'p \<Rightarrow> 'p option" where
  "id_get_next st it = id_succ (id_list st) it"

text \<open>
  The search loop of \<open>__id_insert\<close>: \<open>cur\<close> walks the list, \<open>id\<close> is bumped on every hit,
  the loop ends at a gap or at the last linkage. Result: the linkages passed, \<open>cur\<close>, the
  ones behind it, and \<open>id\<close>.
\<close>

fun id_walk :: "int \<Rightarrow> 'p \<times> int \<Rightarrow> ('p \<times> int) list \<Rightarrow>
    ('p \<times> int) list \<times> ('p \<times> int) \<times> ('p \<times> int) list \<times> int" where
  "id_walk k cur [] = ([], cur, [], k)"
| "id_walk k cur (n # ns) =
     (if snd cur < k \<and> k < snd n then ([], cur, n # ns, k)
      else (let k' = (if snd cur = k then s16 (k + 1) else k);
                (pre, c, post, i) = id_walk k' n ns
            in (cur # pre, c, post, i)))"

text \<open>The common tail: store the id in the linkage and advance the counter.\<close>

definition id_settle :: "('p \<times> int) list \<Rightarrow> int \<Rightarrow> 'p id_storage \<Rightarrow> int \<times> 'p id_storage" where
  "id_settle l k st =
     (0, st\<lparr>id_list := l, id_counter := (if k = ID_MAX then ID_MIN else s16 (k + 1))\<rparr>)"

function id_insert_depth :: "bool \<Rightarrow> 'p id_storage \<Rightarrow> 'p \<Rightarrow> int \<times> 'p id_storage" where
  "id_insert_depth depth st p =
     (let k = id_counter st in
      case id_list st of
        [] \<Rightarrow> id_settle [(p, k)] k st
      | c # cs \<Rightarrow>
          if snd c \<le> k then
            (case id_walk k c cs of (pre, cur, post, id1) \<Rightarrow>
               if post = [] \<and> id1 \<le> snd cur then
                 if snd cur = ID_MAX then
                   if depth then (- ENOMEM, st)
                   else id_insert_depth True (st\<lparr>id_counter := ID_MIN\<rparr>) p
                 else (let id2 = s16 (snd cur + 1)
                       in id_settle (pre @ cur # (p, id2) # post) id2 st)
               else id_settle (pre @ cur # (p, id1) # post) id1 st)
          else id_settle ((p, k) # c # cs) k st)"
  by pat_completeness auto
termination
  by (relation "measure (\<lambda>(depth, _, _). if depth then 0 else 1)") auto

declare id_insert_depth.simps [simp del]

definition id_insert :: "'p id_storage \<Rightarrow> 'p \<Rightarrow> int \<times> 'p id_storage" where
  "id_insert st p = id_insert_depth False st p"

fun id_unlink :: "('p \<times> int) list \<Rightarrow> 'p \<Rightarrow> ('p \<times> int) list" where
  "id_unlink [] p = []"
| "id_unlink (c # cs) p = (if fst c = p then cs else c # id_unlink cs p)"

definition id_remove :: "'p id_storage \<Rightarrow> 'p \<Rightarrow> 'p id_storage" where
  "id_remove st p = st\<lparr>id_list := id_unlink (id_list st) p\<rparr>"

section \<open>The invariant and the search loop\<close>

definition ids_sorted :: "('p \<times> int) list \<Rightarrow> bool" where
  "ids_sorted l \<longleftrightarrow> sorted_wrt (<) (map snd l) \<and> (\<forall>c \<in> set l. ID_MIN \<le> snd c \<and> snd c \<le> ID_MAX)"

definition ids_ok :: "'p id_storage \<Rightarrow> bool" where
  "ids_ok st \<longleftrightarrow> ids_sorted (id_list st) \<and> ID_MIN \<le> id_counter st \<and> id_counter st \<le> ID_MAX"

lemmas id_bounds = ID_MIN_def ID_MAX_def

lemma ids_sorted_Cons:
  "ids_sorted (c # cs) \<longleftrightarrow> ID_MIN \<le> snd c \<and> snd c \<le> ID_MAX \<and> (\<forall>d \<in> set cs. snd c < snd d) \<and> ids_sorted cs"
  by (auto simp: ids_sorted_def)

lemma ids_sorted_append:
  "ids_sorted (as @ bs) \<longleftrightarrow> ids_sorted as \<and> ids_sorted bs \<and> (\<forall>a \<in> set as. \<forall>b \<in> set bs. snd a < snd b)"
  by (auto simp: ids_sorted_def sorted_wrt_append)

lemma id_walk_spec:
  assumes "id_walk k c cs = (pre, cur, post, i)" and "ids_sorted (c # cs)"
    and "ID_MIN \<le> k" and "k \<le> ID_MAX"
  shows "c # cs = pre @ cur # post \<and> ID_MIN \<le> i \<and> i \<le> ID_MAX \<and>
    (post \<noteq> [] \<longrightarrow> snd cur < i \<and> i < snd (hd post))"
  using assms
proof (induction k c cs arbitrary: pre rule: id_walk.induct)
  case (1 k cur)
  then show ?case by simp
next
  case (2 k c n ns)
  show ?case
  proof (cases "snd c < k \<and> k < snd n")
    case True
    with 2 show ?thesis by auto
  next
    case False
    define k' where "k' = (if snd c = k then s16 (k + 1) else k)"
    obtain pre' where w: "id_walk k' n ns = (pre', cur, post, i)" and pre: "pre = c # pre'"
      using "2.prems"(1) False by (auto simp: k'_def Let_def split: prod.splits)
    have srt: "ids_sorted (n # ns)" "snd c < snd n" "snd n \<le> ID_MAX"
      using "2.prems"(2) by (auto simp: ids_sorted_Cons)
    have b: "ID_MIN \<le> k'" "k' \<le> ID_MAX"
      using "2.prems"(3,4) srt by (auto simp: k'_def id_bounds)
    show ?thesis
      using "2.IH"[OF False k'_def w srt(1) b] pre by simp
  qed
qed

text \<open>Inserting an id strictly between its neighbours keeps the list sorted.\<close>

lemma ids_sorted_insert:
  assumes "ids_sorted (pre @ cur # post)" and "snd cur < i" and "ID_MIN \<le> i" and "i \<le> ID_MAX"
    and "post \<noteq> [] \<longrightarrow> i < snd (hd post)"
  shows "ids_sorted (pre @ cur # (p, i) # post)"
proof -
  have "\<forall>d \<in> set post. i < snd d"
    using assms(1,5) by (cases post) (auto simp: ids_sorted_append ids_sorted_Cons)
  moreover have "\<forall>d \<in> set pre. snd d < i"
    using assms(1,2) by (auto simp: ids_sorted_append ids_sorted_Cons)
  ultimately show ?thesis
    using assms(1-4) by (auto simp: ids_sorted_append ids_sorted_Cons)
qed

section \<open>Insertion\<close>

text \<open>What a successful insertion does: one new linkage, with an id nobody had.\<close>

definition id_inserted :: "'p id_storage \<Rightarrow> 'p \<Rightarrow> 'p id_storage \<Rightarrow> bool" where
  "id_inserted st p st' \<longleftrightarrow> (\<exists>pre post i. id_list st = pre @ post \<and>
     id_list st' = pre @ (p, i) # post \<and> ID_MIN \<le> i \<and> i \<le> ID_MAX \<and> i \<notin> snd ` set (id_list st))"

lemma ids_sorted_fresh:
  assumes "ids_sorted (pre @ (p, i) # post)"
  shows "i \<notin> snd ` set (pre @ post)"
  using assms by (auto simp: ids_sorted_append ids_sorted_Cons)

lemma id_settle_ok:
  assumes "ids_sorted (pre @ (p, i) # post)" and "id_list st = pre @ post"
    and "id_settle (pre @ (p, i) # post) i st = (r, st')"
  shows "r = 0 \<and> ids_ok st' \<and> id_inserted st p st'"
proof -
  have i: "ID_MIN \<le> i" "i \<le> ID_MAX" using assms(1) by (auto simp: ids_sorted_append ids_sorted_Cons)
  then have "ids_ok st'" and "r = 0" and "id_list st' = pre @ (p, i) # post"
    using assms(1,3) by (auto simp: id_settle_def ids_ok_def id_bounds)
  then show ?thesis
    using ids_sorted_fresh[OF assms(1)] assms(2) i unfolding id_inserted_def by (metis (no_types))
qed

lemma id_insert_depth_spec:
  assumes "ids_ok st" and "id_insert_depth depth st p = (r, st')"
  shows "ids_ok st' \<and>
    (r = 0 \<and> id_inserted st p st' \<or>
     r = - ENOMEM \<and> id_list st' = id_list st \<and> id_list st \<noteq> [] \<and> snd (last (id_list st)) = ID_MAX)"
  using assms
proof (induction depth st p rule: id_insert_depth.induct)
  case (1 depth st p)
  let ?k = "id_counter st"
  have k: "ID_MIN \<le> ?k" "?k \<le> ID_MAX" and srt: "ids_sorted (id_list st)"
    using "1.prems"(1) by (auto simp: ids_ok_def)
  show ?case
  proof (cases "id_list st")
    case Nil
    then have "id_settle ([] @ (p, ?k) # []) ?k st = (r, st')"
      using "1.prems"(2) by (simp add: id_insert_depth.simps[of depth st p] Let_def)
    moreover have "ids_sorted ([] @ (p, ?k) # [])" using k by (simp add: ids_sorted_def)
    ultimately show ?thesis using id_settle_ok[of "[]" p ?k "[]" st] Nil by simp
  next
    case (Cons c cs)
    show ?thesis
    proof (cases "snd c \<le> ?k")
      case False
      then have "id_settle ([] @ (p, ?k) # c # cs) ?k st = (r, st')"
        using "1.prems"(2) Cons by (simp add: id_insert_depth.simps[of depth st p] Let_def)
      moreover have "ids_sorted ([] @ (p, ?k) # c # cs)"
        using k srt Cons False by (auto simp: ids_sorted_Cons)
      ultimately show ?thesis using id_settle_ok[of "[]" p ?k "c # cs" st] Cons by simp
    next
      case True
      note True' = this
      obtain pre cur post i where w: "id_walk ?k c cs = (pre, cur, post, i)"
        by (cases "id_walk ?k c cs") auto
      have ws: "c # cs = pre @ cur # post" "ID_MIN \<le> i" "i \<le> ID_MAX"
        "post \<noteq> [] \<longrightarrow> snd cur < i \<and> i < snd (hd post)"
        using id_walk_spec[OF w _ k] srt Cons by auto
      have srt': "ids_sorted (pre @ cur # post)" using srt Cons ws(1) by simp
      have step: "(if post = [] \<and> i \<le> snd cur then
                 if snd cur = ID_MAX then
                   if depth then (- ENOMEM, st)
                   else id_insert_depth True (st\<lparr>id_counter := ID_MIN\<rparr>) p
                 else id_settle (pre @ cur # (p, s16 (snd cur + 1)) # post) (s16 (snd cur + 1)) st
               else id_settle (pre @ cur # (p, i) # post) i st) = (r, st')"
        using "1.prems"(2) Cons True w
        by (simp add: id_insert_depth.simps[of depth st p] Let_def cong: if_cong)
      consider (gap) "\<not> (post = [] \<and> i \<le> snd cur)"
        | (full) "post = []" "i \<le> snd cur" "snd cur = ID_MAX"
        | (last) "post = []" "i \<le> snd cur" "snd cur \<noteq> ID_MAX" by argo
      then show ?thesis
      proof cases
        case gap
        then have "ids_sorted (pre @ cur # (p, i) # post)"
          using ws(4) by (intro ids_sorted_insert[OF srt' _ ws(2,3)]) auto
        then show ?thesis
          using id_settle_ok[of "pre @ [cur]" p i post st] step gap Cons ws(1) by auto
      next
        case full
        show ?thesis
        proof (cases depth)
          case True
          then show ?thesis using step full "1.prems"(1) Cons ws(1) by auto
        next
          case False
          have "ids_ok (st\<lparr>id_counter := ID_MIN\<rparr>)"
            using "1.prems"(1) by (simp add: ids_ok_def id_bounds)
          moreover have "id_insert_depth True (st\<lparr>id_counter := ID_MIN\<rparr>) p = (r, st')"
            using step full False by simp
          ultimately show ?thesis
            using "1.IH"[OF refl Cons True' w[symmetric] refl refl conjI[OF full(1,2)] full(3) False]
            by (simp add: id_inserted_def)
        qed
      next
        case last
        let ?n = "s16 (snd cur + 1)"
        have "ID_MIN \<le> snd cur" "snd cur < ID_MAX"
          using srt' last by (auto simp: ids_sorted_append ids_sorted_Cons)
        then have n: "?n = snd cur + 1" by (simp add: id_bounds)
        then have "ids_sorted (pre @ cur # (p, ?n) # post)"
          using last \<open>ID_MIN \<le> snd cur\<close> \<open>snd cur < ID_MAX\<close>
          by (intro ids_sorted_insert[OF srt']) (auto simp: id_bounds)
        then show ?thesis
          using id_settle_ok[of "pre @ [cur]" p ?n post st] step last Cons ws(1) by auto
      qed
    qed
  qed
qed

section \<open>Lookup, removal and iteration\<close>

lemma id_find_None: "id_find l i = None \<longleftrightarrow> i \<notin> snd ` set l"
  by (induction l) auto

lemma id_find_append:
  "id_find (as @ bs) i = (case id_find as i of None \<Rightarrow> id_find bs i | Some p \<Rightarrow> Some p)"
  by (induction as) auto

lemma id_unlink_append:
  "p \<notin> fst ` set as \<Longrightarrow> id_unlink (as @ bs) p = as @ id_unlink bs p"
  by (induction as) auto

lemma set_id_unlink: "set (id_unlink l p) \<subseteq> set l"
  by (induction l) auto

lemma ids_sorted_unlink: "ids_sorted l \<Longrightarrow> ids_sorted (id_unlink l p)"
proof (induction l)
  case Nil
  then show ?case by simp
next
  case (Cons c cs)
  then show ?case using set_id_unlink[of cs p] by (auto simp: ids_sorted_Cons)
qed

lemma id_find_unlink:
  assumes "ids_sorted l" and "distinct (map fst l)"
  shows "id_find (id_unlink l p) i = (if id_find l i = Some p then None else id_find l i)"
  using assms
proof (induction l)
  case Nil
  then show ?case by simp
next
  case (Cons c cs)
  have "fst c \<notin> fst ` set cs" and gt: "\<forall>d \<in> set cs. snd c < snd d"
    using Cons.prems by (auto simp: ids_sorted_Cons)
  then have "id_find cs (snd c) = None" by (auto simp: id_find_None)
  moreover have "id_find cs i \<noteq> Some (fst c)"
  proof
    assume "id_find cs i = Some (fst c)"
    then have "fst c \<in> fst ` set cs" by (induction cs) (auto split: if_splits)
    with \<open>fst c \<notin> fst ` set cs\<close> show False ..
  qed
  ultimately show ?case using Cons by (auto simp: ids_sorted_Cons)
qed

lemma id_succ_nth:
  "distinct (map fst l) \<Longrightarrow> Suc i < length l \<Longrightarrow> id_succ l (fst (l ! i)) = Some (fst (l ! Suc i))"
proof (induction l arbitrary: i)
  case Nil
  then show ?case by simp
next
  case (Cons c cs)
  then obtain d ds where cs: "cs = d # ds" by (cases cs) auto
  show ?case
  proof (cases i)
    case 0
    then show ?thesis by (simp add: cs)
  next
    case (Suc j)
    then have "cs ! j \<in> set cs" using Cons.prems(2) by simp
    then have "fst c \<noteq> fst (cs ! j)" using Cons.prems(1) by auto
    then show ?thesis using Cons Suc cs by auto
  qed
qed

lemma id_succ_last: "distinct (map fst l) \<Longrightarrow> l \<noteq> [] \<Longrightarrow> id_succ l (fst (last l)) = None"
proof (induction l)
  case Nil
  then show ?case by simp
next
  case (Cons c cs)
  show ?case
  proof (cases cs)
    case Nil
    then show ?thesis by simp
  next
    case (Cons d ds)
    have "last cs \<in> set cs" using Cons by simp
    then have "fst c \<noteq> fst (last cs)" using Cons.prems(1) by auto
    then show ?thesis using Cons.IH Cons.prems Cons by auto
  qed
qed

section \<open>Properties\<close>

text \<open>
  C28. \<open>id_insert\<close> on a well-formed storage keeps it well-formed (strictly sorted ids within
  \<open>ID_MIN .. ID_MAX\<close>, so no increment wraps). It either links the object in with an id no
  other linkage carries, or returns \<open>-ENOMEM\<close> with the list unchanged, and then the highest
  id is in use.
\<close>

theorem id_insert_unique:
  assumes "ids_ok st" and "id_insert st p = (r, st')"
  shows "ids_ok st' \<and>
    (r = 0 \<and> id_inserted st p st' \<or>
     r = - ENOMEM \<and> id_list st' = id_list st \<and> id_list st \<noteq> [] \<and> snd (last (id_list st)) = ID_MAX)"
  using id_insert_depth_spec[OF assms(1), of False p r st'] assms(2) by (simp add: id_insert_def)

definition ids_example :: "char id_storage" where
  "ids_example = \<lparr>id_list = [(CHR ''a'', 1), (CHR ''b'', 3), (CHR ''c'', ID_MAX)], id_counter = 1\<rparr>"

lemma ids_example_ok: "ids_ok ids_example"
  by (simp add: ids_ok_def ids_example_def ids_sorted_def id_bounds)

lemma ids_example_insert:
  "id_insert (ids_example\<lparr>id_counter := 2\<rparr>) CHR ''d'' =
     (0, \<lparr>id_list = [(CHR ''a'', 1), (CHR ''d'', 2), (CHR ''b'', 3), (CHR ''c'', ID_MAX)], id_counter = 3\<rparr>)"
  by (simp add: id_insert_def id_insert_depth.simps ids_example_def id_bounds id_settle_def)

theorem id_insert_unique_witness:
  "ids_ok (ids_example\<lparr>id_counter := 2\<rparr>) \<and>
   (let r = id_insert (ids_example\<lparr>id_counter := 2\<rparr>) CHR ''d'' in ids_ok (snd r) \<and> fst r = 0)"
proof -
  have ok: "ids_ok (ids_example\<lparr>id_counter := 2\<rparr>)"
    by (simp add: ids_ok_def ids_example_def ids_sorted_def id_bounds)
  show ?thesis using ok id_insert_unique[OF ok ids_example_insert] ids_example_insert by simp
qed

text \<open>Round trip: after a successful insertion of a new object there is an id under which
  \<open>id_get\<close> finds it, every other id resolves as before, and \<open>id_remove\<close> restores the list.
\<close>

theorem id_insert_get_remove:
  assumes "ids_ok st" and "p \<notin> fst ` set (id_list st)" and "id_insert st p = (0, st')"
  shows "\<exists>i. id_get st i = None \<and> id_get st' i = Some p \<and>
    (\<forall>j. j \<noteq> i \<longrightarrow> id_get st' j = id_get st j) \<and> id_list (id_remove st' p) = id_list st"
proof -
  have "id_inserted st p st'"
    using id_insert_depth_spec[OF assms(1)] assms(3) unfolding id_insert_def
    by (fastforce simp: errno_defs)
  then obtain pre post i where l: "id_list st = pre @ post" "id_list st' = pre @ (p, i) # post"
      and fresh: "i \<notin> snd ` set (id_list st)"
    unfolding id_inserted_def by blast
  have "id_find pre i = None" and "id_find post i = None"
    using fresh by (auto simp: id_find_None l)
  moreover have "p \<notin> fst ` set pre" using assms(2) l by auto
  ultimately show ?thesis
    by (intro exI[of _ i])
      (auto simp: id_get_def id_remove_def l id_find_append id_unlink_append split: option.splits)
qed

theorem id_insert_get_remove_witness:
  "\<exists>i. id_get (ids_example\<lparr>id_counter := 2\<rparr>) i = None \<and>
     id_get (snd (id_insert (ids_example\<lparr>id_counter := 2\<rparr>) CHR ''d'')) i = Some CHR ''d''"
proof -
  have ok: "ids_ok (ids_example\<lparr>id_counter := 2\<rparr>)"
    by (simp add: ids_ok_def ids_example_def ids_sorted_def id_bounds)
  have new: "CHR ''d'' \<notin> fst ` set (id_list (ids_example\<lparr>id_counter := 2\<rparr>))"
    by (simp add: ids_example_def)
  show ?thesis
    using id_insert_get_remove[OF ok new ids_example_insert] ids_example_insert by auto
qed

text \<open>The allocator can refuse although almost every id is free: with ids 1, 3 and
  \<open>ID_MAX\<close> in use and the counter at 1, insertion returns \<open>-ENOMEM\<close> (and does so again on
  every retry, as the storage is unchanged), while id 2 is unused. The search bumps past the
  gap, reaches the end of the list, and the only retry starts from the same place.
\<close>

theorem id_insert_spurious_failure:
  "ids_ok ids_example \<and> id_get ids_example 2 = None \<and>
   id_insert ids_example CHR ''d'' = (- ENOMEM, ids_example)"
  using ids_example_ok
  by (simp add: id_insert_def id_insert_depth.simps ids_example_def id_bounds id_get_def)

end
