(* ===== verification/BHeap.thy ===== *)
theory BHeap
  imports ZPrelude "HOL-Library.Multiset"
begin

text \<open>
  The binary heap of \<open>kernel/lib/bheap.c\<close>, the kernel's queue of sleeping threads. The array
  of pointers is a list of \<open>bh_capacity\<close> slots of which the first \<open>bh_size\<close> are in use; the
  comparison callback is a field, as in the source. Index arithmetic is \<open>uint8_t\<close> arithmetic:
  the child indices are truncated to 8 bits, which is why the order lemmas ask for a size of at
  most 127. The locale \<open>heap_order\<close> is what the heap relies on in its comparison callback.
\<close>

record 'a bheap =
  bh_array :: "'a list"
  bh_capacity :: nat
  bh_size :: nat
  bh_compare :: "'a \<Rightarrow> 'a \<Rightarrow> int"

definition bheap_init :: "'a list \<Rightarrow> nat \<Rightarrow> ('a \<Rightarrow> 'a \<Rightarrow> int) \<Rightarrow> 'a bheap" where
  "bheap_init array capacity cmp =
     \<lparr>bh_array = array, bh_capacity = capacity, bh_size = 0, bh_compare = cmp\<rparr>"

definition bheap_swap :: "'a list \<Rightarrow> nat \<Rightarrow> nat \<Rightarrow> 'a list" where
  "bheap_swap arr a b = (let t = arr ! a in (arr[a := arr ! b])[b := t])"

function bheap_heapify :: "('a \<Rightarrow> 'a \<Rightarrow> int) \<Rightarrow> 'a list \<Rightarrow> nat \<Rightarrow> 'a list" where
  "bheap_heapify cmp arr idx =
     (let p = (idx - 1) div 2
      in if idx \<noteq> 0 \<and> cmp (arr ! p) (arr ! idx) > 0
         then bheap_heapify cmp (bheap_swap arr idx p) p
         else arr)"
  by pat_completeness auto
termination
  by (relation "measure (\<lambda>(_, _, idx). idx)") auto

declare bheap_heapify.simps [simp del]

text \<open>One turn of the loop of \<open>bheap_rev_heapify\<close>: the index of the smallest among the node
  and its children, with the child indices in \<open>uint8_t\<close> variables.\<close>

definition bheap_select :: "('a \<Rightarrow> 'a \<Rightarrow> int) \<Rightarrow> 'a list \<Rightarrow> nat \<Rightarrow> nat \<Rightarrow> nat" where
  "bheap_select cmp arr sz idx =
     (let l = u8 (2 * idx + 1);
          r = u8 (l + 1);
          sel = (if r < sz \<and> cmp (arr ! r) (arr ! idx) < 0 then r else idx)
      in if l < sz \<and> cmp (arr ! l) (arr ! sel) < 0 then l else sel)"

partial_function (option) bheap_rev_heapify ::
  "('a \<Rightarrow> 'a \<Rightarrow> int) \<Rightarrow> nat \<Rightarrow> 'a list \<Rightarrow> nat \<Rightarrow> 'a list option" where
  "bheap_rev_heapify cmp sz arr idx =
     (if bheap_select cmp arr sz idx = idx then Some arr
      else bheap_rev_heapify cmp sz (bheap_swap arr idx (bheap_select cmp arr sz idx))
             (bheap_select cmp arr sz idx))"

declare bheap_rev_heapify.simps [code]

definition bheap_insert :: "'a bheap \<Rightarrow> 'a \<Rightarrow> int \<times> 'a bheap" where
  "bheap_insert h elem =
     (if bh_capacity h = bh_size h then (- ENOMEM, h)
      else (let idx = bh_size h; arr = (bh_array h)[idx := elem]
            in (0, h\<lparr>bh_size := u8 (idx + 1), bh_array := bheap_heapify (bh_compare h) arr idx\<rparr>)))"

definition bheap_remove :: "'a bheap \<Rightarrow> nat \<Rightarrow> 'a bheap option" where
  "bheap_remove h idx =
     (let sz = sub8 (bh_size h) 1;
          up = bh_compare h (bh_array h ! idx) (bh_array h ! sz);
          arr = bheap_swap (bh_array h) idx sz
      in if up > 0 then Some (h\<lparr>bh_size := sz, bh_array := bheap_heapify (bh_compare h) arr idx\<rparr>)
         else do {
           arr' \<leftarrow> bheap_rev_heapify (bh_compare h) sz arr idx;
           Some (h\<lparr>bh_size := sz, bh_array := arr'\<rparr>)
         })"

text \<open>The result of \<open>pop\<close> and \<open>peek\<close>: the return code and what is stored through \<open>elem\<close>.\<close>

definition bheap_pop :: "'a bheap \<Rightarrow> (int \<times> 'a option \<times> 'a bheap) option" where
  "bheap_pop h =
     (if bh_size h = 0 then Some (- ENOENT, None, h)
      else do {
        let elem = bh_array h ! 0;
        h' \<leftarrow> bheap_remove h 0;
        Some (0, Some elem, h')
      })"

definition bheap_peek :: "'a bheap \<Rightarrow> int \<times> 'a option" where
  "bheap_peek h = (if bh_size h = 0 then (- ENOENT, None) else (0, Some (bh_array h ! 0)))"

text \<open>The scan of \<open>bheap_extract\<close> for the first slot holding \<open>elem\<close>.\<close>

definition bheap_index :: "'a list \<Rightarrow> nat \<Rightarrow> 'a \<Rightarrow> nat option" where
  "bheap_index arr sz elem = find (\<lambda>idx. arr ! idx = elem) [0..<sz]"

definition bheap_extract :: "'a bheap \<Rightarrow> 'a \<Rightarrow> (int \<times> 'a bheap) option" where
  "bheap_extract h elem =
     (case bheap_index (bh_array h) (bh_size h) elem of
        None \<Rightarrow> Some (- ENOENT, h)
      | Some idx \<Rightarrow> do { h' \<leftarrow> bheap_remove h idx; Some (0, h') })"

section \<open>The heap order\<close>

definition is_heap :: "('a \<Rightarrow> 'a \<Rightarrow> int) \<Rightarrow> 'a list \<Rightarrow> nat \<Rightarrow> bool" where
  "is_heap cmp arr n \<longleftrightarrow> (\<forall>i<n. 0 < i \<longrightarrow> cmp (arr ! ((i - 1) div 2)) (arr ! i) \<le> 0)"

text \<open>A heap but for the node \<open>k\<close>, which may be too small (to be moved up) \<dots>\<close>

definition heap_up :: "('a \<Rightarrow> 'a \<Rightarrow> int) \<Rightarrow> 'a list \<Rightarrow> nat \<Rightarrow> nat \<Rightarrow> bool" where
  "heap_up cmp arr n k \<longleftrightarrow> (\<forall>i<n. 0 < i \<longrightarrow>
     (i \<noteq> k \<longrightarrow> cmp (arr ! ((i - 1) div 2)) (arr ! i) \<le> 0) \<and>
     ((i - 1) div 2 = k \<longrightarrow> 0 < k \<longrightarrow> cmp (arr ! ((k - 1) div 2)) (arr ! i) \<le> 0))"

text \<open>\<dots> or too large (to be moved down).\<close>

definition heap_down :: "('a \<Rightarrow> 'a \<Rightarrow> int) \<Rightarrow> 'a list \<Rightarrow> nat \<Rightarrow> nat \<Rightarrow> bool" where
  "heap_down cmp arr n k \<longleftrightarrow> (\<forall>i<n. 0 < i \<longrightarrow>
     ((i - 1) div 2 \<noteq> k \<longrightarrow> cmp (arr ! ((i - 1) div 2)) (arr ! i) \<le> 0) \<and>
     ((i - 1) div 2 = k \<longrightarrow> 0 < k \<longrightarrow> cmp (arr ! ((k - 1) div 2)) (arr ! i) \<le> 0))"

definition bheap_ok :: "'a bheap \<Rightarrow> bool" where
  "bheap_ok h \<longleftrightarrow> length (bh_array h) = bh_capacity h \<and> bh_size h \<le> bh_capacity h \<and>
     bh_capacity h \<le> 127 \<and> is_heap (bh_compare h) (bh_array h) (bh_size h)"

text \<open>The elements held, as a multiset: the abstraction of the heap.\<close>

definition bheap_elems :: "'a bheap \<Rightarrow> 'a multiset" where
  "bheap_elems h = mset (take (bh_size h) (bh_array h))"

section \<open>Swapping, and what does not depend on the order\<close>

lemma length_swap [simp]: "length (bheap_swap arr a b) = length arr"
  by (simp add: bheap_swap_def)

lemma nth_swap:
  "a < length arr \<Longrightarrow> b < length arr \<Longrightarrow>
   bheap_swap arr a b ! i = (if i = a then arr ! b else if i = b then arr ! a else arr ! i)"
  by (auto simp: bheap_swap_def nth_list_update)

lemma take_swap:
  "a < n \<Longrightarrow> b < n \<Longrightarrow> n \<le> length arr \<Longrightarrow> take n (bheap_swap arr a b) = bheap_swap (take n arr) a b"
  by (simp add: bheap_swap_def take_update_swap)

lemma mset_bheap_swap: "a < length arr \<Longrightarrow> b < length arr \<Longrightarrow> mset (bheap_swap arr a b) = mset arr"
  unfolding bheap_swap_def Let_def by (rule mset_swap)

lemma mset_take_swap:
  "a < n \<Longrightarrow> b < n \<Longrightarrow> n \<le> length arr \<Longrightarrow> mset (take n (bheap_swap arr a b)) = mset (take n arr)"
  by (simp add: take_swap mset_bheap_swap)

lemma heapify_frame:
  "idx < n \<Longrightarrow> n \<le> length arr \<Longrightarrow>
   length (bheap_heapify cmp arr idx) = length arr \<and>
   mset (take n (bheap_heapify cmp arr idx)) = mset (take n arr)"
proof (induction cmp arr idx rule: bheap_heapify.induct)
  case (1 cmp arr idx)
  show ?case
    using 1 by (subst (1 2) bheap_heapify.simps) (auto simp: Let_def mset_take_swap)
qed

lemma select_bounds: "bheap_select cmp arr n idx = idx \<or> bheap_select cmp arr n idx < n"
  by (auto simp: bheap_select_def Let_def)

text \<open>Within 127 elements the child indices do not wrap, so a move goes strictly down.\<close>

lemma select_child:
  assumes "idx < 127" and "bheap_select cmp arr n idx \<noteq> idx"
  shows "(bheap_select cmp arr n idx - 1) div 2 = idx" and "idx < bheap_select cmp arr n idx"
  using assms by (auto simp: bheap_select_def Let_def split: if_splits)

lemma rev_heapify_total:
  "idx < 127 \<Longrightarrow> idx < n \<Longrightarrow> n \<le> 127 \<Longrightarrow> n \<le> length arr \<Longrightarrow>
   \<exists>arr'. bheap_rev_heapify cmp n arr idx = Some arr' \<and> length arr' = length arr \<and>
     mset (take n arr') = mset (take n arr)"
proof (induction "127 - idx" arbitrary: idx arr rule: less_induct)
  case less
  let ?s = "bheap_select cmp arr n idx"
  show ?case
  proof (cases "?s = idx")
    case True
    then show ?thesis by (subst bheap_rev_heapify.simps) simp
  next
    case False
    then have s: "idx < ?s" "?s < n"
      using select_child(2)[of idx cmp arr n] select_bounds[of cmp arr n idx] less.prems by auto
    have dec: "127 - ?s < 127 - idx" using s less.prems by arith
    obtain arr' where "bheap_rev_heapify cmp n (bheap_swap arr idx ?s) ?s = Some arr'"
        "length arr' = length (bheap_swap arr idx ?s)"
        "mset (take n arr') = mset (take n (bheap_swap arr idx ?s))"
      using less.hyps[OF dec, of "bheap_swap arr idx ?s"] s less.prems by auto
    then show ?thesis
      using False s less.prems by (subst bheap_rev_heapify.simps) (simp add: mset_take_swap)
  qed
qed

section \<open>The contract of the comparison callback\<close>

text \<open>
  The callback must order the elements: swapping the arguments turns the sign, and \<open>\<le> 0\<close>
  is transitive. Inside the locale the heap lemmas are proved once for every such callback.
\<close>

locale heap_order =
  fixes cmp :: "'a \<Rightarrow> 'a \<Rightarrow> int"
  assumes cmp_flip: "cmp x y > 0 \<longleftrightarrow> cmp y x < 0"
    and cmp_trans: "cmp x y \<le> 0 \<Longrightarrow> cmp y z \<le> 0 \<Longrightarrow> cmp x z \<le> 0"
begin

lemma cmp_total: "\<not> cmp x y \<le> 0 \<Longrightarrow> cmp y x \<le> 0"
  using cmp_flip[of x y] by linarith

lemma cmp_not_less: "\<not> cmp x y < 0 \<Longrightarrow> cmp y x \<le> 0"
  using cmp_flip[of y x] by linarith

lemma cmp_refl: "cmp x x \<le> 0"
  using cmp_total by blast

lemma cmp_lt_le: "cmp x y < 0 \<Longrightarrow> cmp x y \<le> 0"
  by simp

lemma heapify_heap:
  "heap_up cmp arr n idx \<Longrightarrow> idx < n \<Longrightarrow> n \<le> length arr \<Longrightarrow>
   is_heap cmp (bheap_heapify cmp arr idx) n"
proof (induction idx arbitrary: arr rule: less_induct)
  case (less k)
  define p where "p = (k - 1) div 2"
  show ?case
  proof (cases "k \<noteq> 0 \<and> cmp (arr ! p) (arr ! k) > 0")
    case False
    then have "is_heap cmp arr n"
      using less.prems(1) unfolding is_heap_def heap_up_def p_def by fastforce
    with False show ?thesis by (subst bheap_heapify.simps) (auto simp: Let_def p_def)
  next
    case True
    let ?a = "bheap_swap arr k p"
    have pk: "p < k" and len: "k < length arr" "p < length arr" using True less.prems by (auto simp: p_def)
    note nth = nth_swap[OF len]
    have kp: "cmp (arr ! k) (arr ! p) \<le> 0" using True cmp_total by simp
    have "heap_up cmp ?a n p"
      unfolding heap_up_def
    proof (intro allI impI conjI)
      fix i assume i: "i < n" "0 < i" "i \<noteq> p"
      have H: "i \<noteq> k \<Longrightarrow> cmp (arr ! ((i - 1) div 2)) (arr ! i) \<le> 0"
        "(i - 1) div 2 = k \<Longrightarrow> cmp (arr ! p) (arr ! i) \<le> 0"
        using less.prems(1) i True unfolding heap_up_def p_def by auto
      show "cmp (?a ! ((i - 1) div 2)) (?a ! i) \<le> 0"
      proof (cases "i = k")
        case True
        moreover have "(k - Suc 0) div 2 = p" by (simp add: p_def)
        ultimately show ?thesis using kp pk by (simp add: nth)
      next
        case False
        then show ?thesis using H i(3) cmp_trans[OF kp] by (auto simp: nth)
      qed
    next
      fix i assume i: "i < n" "0 < i" "(i - 1) div 2 = p" "0 < p"
      have up: "cmp (arr ! ((p - 1) div 2)) (arr ! p) \<le> 0"
        using less.prems(1,2) pk i(4) unfolding heap_up_def by auto
      have pp: "(p - 1) div 2 < p" using i(4) by simp
      have H: "i \<noteq> k \<Longrightarrow> cmp (arr ! p) (arr ! i) \<le> 0"
        using less.prems(1) i unfolding heap_up_def by metis
      have ip: "i \<noteq> p" using i by simp
      show "cmp (?a ! ((p - 1) div 2)) (?a ! i) \<le> 0"
        using up H cmp_trans[OF up] pp pk ip by (cases "i = k") (auto simp: nth)
    qed
    then have "is_heap cmp (bheap_heapify cmp ?a p) n"
      using less.IH[OF pk, of ?a] pk less.prems by simp
    with True show ?thesis by (subst bheap_heapify.simps) (simp add: Let_def p_def)
  qed
qed

text \<open>The selected child is at most the node and its children.\<close>

lemma select_min:
  assumes "idx < 127" and "n \<le> 127" and "i < n" and "0 < i" and "(i - 1) div 2 = idx"
  shows "cmp (arr ! bheap_select cmp arr n idx) (arr ! i) \<le> 0"
proof -
  have i: "i = 2 * idx + 1 \<or> i = 2 * idx + 2" using assms(4,5) by presburger
  have w: "u8 (2 * idx + 1) = 2 * idx + 1" and w2: "i = 2 * idx + 2 \<Longrightarrow> u8 (2 * idx + 2) = 2 * idx + 2"
    using assms by auto
  show ?thesis
    using i
  proof
    assume "i = 2 * idx + 1"
    then show ?thesis
      using assms(3) w cmp_refl cmp_not_less by (auto simp: bheap_select_def Let_def)
  next
    assume i2: "i = 2 * idx + 2"
    show ?thesis
      using assms(3) w w2[OF i2] cmp_refl cmp_not_less cmp_trans[OF cmp_lt_le]
      by (auto simp: bheap_select_def Let_def i2)
  qed
qed

lemma select_less: "bheap_select cmp arr n idx \<noteq> idx \<Longrightarrow> cmp (arr ! bheap_select cmp arr n idx) (arr ! idx) \<le> 0"
  using cmp_trans[OF cmp_lt_le cmp_lt_le] by (auto simp: bheap_select_def Let_def split: if_splits)

lemma rev_heapify_heap:
  "heap_down cmp arr n idx \<Longrightarrow> idx < n \<Longrightarrow> n \<le> 127 \<Longrightarrow> n \<le> length arr \<Longrightarrow>
   bheap_rev_heapify cmp n arr idx = Some arr' \<Longrightarrow> is_heap cmp arr' n"
proof (induction "127 - idx" arbitrary: idx arr rule: less_induct)
  case less
  let ?s = "bheap_select cmp arr n idx"
  have idx: "idx < 127" using less.prems by simp
  show ?case
  proof (cases "?s = idx")
    case True
    then have "arr' = arr" using less.prems(5) by (subst (asm) bheap_rev_heapify.simps) simp
    moreover have "is_heap cmp arr n"
      using less.prems(1,3) select_min[OF idx, of n _ arr] True
      unfolding is_heap_def heap_down_def by metis
    ultimately show ?thesis by simp
  next
    case False
    note s = select_child[OF idx False]
    have sn: "?s < n" using select_bounds[of cmp arr n idx] False by simp
    have len: "idx < length arr" "?s < length arr" using less.prems sn by auto
    let ?a = "bheap_swap arr idx ?s"
    note nth = nth_swap[OF len]
    have run: "bheap_rev_heapify cmp n ?a ?s = Some arr'"
      using less.prems(5) False by (subst (asm) bheap_rev_heapify.simps) simp
    have si: "cmp (arr ! ?s) (arr ! idx) \<le> 0" using select_less[OF False] .
    have "heap_down cmp ?a n ?s"
      unfolding heap_down_def
    proof (intro allI impI conjI)
      fix i assume i: "i < n" "0 < i" "(i - 1) div 2 \<noteq> ?s"
      show "cmp (?a ! ((i - 1) div 2)) (?a ! i) \<le> 0"
      proof (cases "(i - 1) div 2 = idx")
        case True
        then have "i \<noteq> idx" using i(2) by auto
        with True show ?thesis
          using select_min[OF idx less.prems(3) i(1,2) True] si s by (auto simp: nth)
      next
        case False
        have H: "cmp (arr ! ((i - 1) div 2)) (arr ! i) \<le> 0"
          using less.prems(1) i(1,2) False unfolding heap_down_def by blast
        have "i \<noteq> ?s" using False s(1) by auto
        moreover have "i = idx \<Longrightarrow> cmp (arr ! ((i - 1) div 2)) (arr ! ?s) \<le> 0"
          using less.prems(1) sn s i(2) unfolding heap_down_def by auto
        ultimately show ?thesis using H False i(3) by (auto simp: nth)
      qed
    next
      fix i assume i: "i < n" "0 < i" "(i - 1) div 2 = ?s"
      then have "?s \<noteq> idx" "i \<noteq> ?s" "i \<noteq> idx" using s by auto
      moreover have "cmp (arr ! ?s) (arr ! i) \<le> 0"
        using less.prems(1) i \<open>?s \<noteq> idx\<close> unfolding heap_down_def by metis
      ultimately show "cmp (?a ! ((?s - 1) div 2)) (?a ! i) \<le> 0"
        using s by (simp add: nth)
    qed
    moreover have "127 - ?s < 127 - idx" using s(2) sn less.prems(3) by arith
    ultimately show ?thesis using less.hyps[of ?s ?a] run sn less.prems by simp
  qed
qed

lemma heap_root_min:
  assumes "is_heap cmp arr n" and "i < n"
  shows "cmp (arr ! 0) (arr ! i) \<le> 0"
  using assms(2)
proof (induction i rule: less_induct)
  case (less i)
  show ?case
  proof (cases "i = 0")
    case True
    then show ?thesis by (simp add: cmp_refl)
  next
    case False
    then have "cmp (arr ! 0) (arr ! ((i - 1) div 2)) \<le> 0" using less by simp
    moreover have "cmp (arr ! ((i - 1) div 2)) (arr ! i) \<le> 0"
      using assms(1) less.prems False by (simp add: is_heap_def)
    ultimately show ?thesis by (rule cmp_trans)
  qed
qed

text \<open>Replacing node \<open>k\<close> by another element leaves a defect in one direction only.\<close>

lemma replace_up:
  assumes "is_heap cmp arr n" and "cmp (arr ! k) x > 0" and "k < n" and "n \<le> length arr"
    and "\<And>i. i < n \<Longrightarrow> arr' ! i = (if i = k then x else arr ! i)"
  shows "heap_up cmp arr' n k"
  unfolding heap_up_def
proof (intro allI impI conjI)
  have xk: "cmp x (arr ! k) \<le> 0" using assms(2) cmp_total by simp
  fix i assume i: "i < n" "0 < i" "i \<noteq> k"
  then have "cmp (arr ! ((i - 1) div 2)) (arr ! i) \<le> 0" "(i - 1) div 2 < n"
    using assms(1) by (auto simp: is_heap_def)
  then show "cmp (arr' ! ((i - 1) div 2)) (arr' ! i) \<le> 0"
    using i assms(5) cmp_trans[OF xk] by auto
next
  fix i assume i: "i < n" "0 < i" "(i - 1) div 2 = k" "0 < k"
  have "cmp (arr ! ((k - 1) div 2)) (arr ! k) \<le> 0" "cmp (arr ! k) (arr ! i) \<le> 0"
    using assms(1,3) i by (auto simp: is_heap_def)
  then have "cmp (arr ! ((k - 1) div 2)) (arr ! i) \<le> 0" by (rule cmp_trans)
  moreover have "i \<noteq> k" "(k - 1) div 2 \<noteq> k" "(k - 1) div 2 < n" using i assms(3) by auto
  ultimately show "cmp (arr' ! ((k - 1) div 2)) (arr' ! i) \<le> 0"
    using i(1) assms(5) by simp
qed

lemma replace_down:
  assumes "is_heap cmp arr n" and "cmp (arr ! k) x \<le> 0" and "k < n" and "n \<le> length arr"
    and "\<And>i. i < n \<Longrightarrow> arr' ! i = (if i = k then x else arr ! i)"
  shows "heap_down cmp arr' n k"
  unfolding heap_down_def
proof (intro allI impI conjI)
  fix i assume i: "i < n" "0 < i" "(i - 1) div 2 \<noteq> k"
  then have "cmp (arr ! ((i - 1) div 2)) (arr ! i) \<le> 0" "(i - 1) div 2 < n"
    using assms(1) by (auto simp: is_heap_def)
  then show "cmp (arr' ! ((i - 1) div 2)) (arr' ! i) \<le> 0"
    using i assms(2,5) cmp_trans by auto
next
  fix i assume i: "i < n" "0 < i" "(i - 1) div 2 = k" "0 < k"
  have "cmp (arr ! ((k - 1) div 2)) (arr ! k) \<le> 0" "cmp (arr ! k) (arr ! i) \<le> 0"
    using assms(1,3) i by (auto simp: is_heap_def)
  then have "cmp (arr ! ((k - 1) div 2)) (arr ! i) \<le> 0" by (rule cmp_trans)
  moreover have "i \<noteq> k" "(k - 1) div 2 \<noteq> k" "(k - 1) div 2 < n" using i assms(3) by auto
  ultimately show "cmp (arr' ! ((k - 1) div 2)) (arr' ! i) \<le> 0"
    using i(1) assms(5) by simp
qed

section \<open>The operations\<close>

lemma bheap_insert_correct:
  assumes "bheap_ok h" and "bh_compare h = cmp" and "bh_size h < bh_capacity h"
  shows "\<exists>h'. bheap_insert h x = (0, h') \<and> bheap_ok h' \<and> bh_compare h' = cmp \<and>
    bh_capacity h' = bh_capacity h \<and> bheap_elems h' = add_mset x (bheap_elems h)"
proof -
  let ?n = "bh_size h" and ?arr = "(bh_array h)[bh_size h := x]"
  let ?a = "bheap_heapify cmp ?arr ?n"
  have ok: "length (bh_array h) = bh_capacity h" "bh_capacity h \<le> 127"
      "is_heap cmp (bh_array h) ?n"
    using assms by (auto simp: bheap_ok_def)
  have fr: "length ?a = bh_capacity h \<and> mset (take (Suc ?n) ?a) = mset (take (Suc ?n) ?arr)"
    using heapify_frame[of ?n "Suc ?n" ?arr cmp] ok assms(3) by simp
  have "heap_up cmp ?arr (Suc ?n) ?n"
    using ok(3) by (auto simp: heap_up_def is_heap_def nth_list_update less_Suc_eq)
  then have "is_heap cmp ?a (Suc ?n)"
    by (rule heapify_heap) (use ok assms(3) in auto)
  moreover have "mset (take (Suc ?n) ?arr) = add_mset x (mset (take ?n (bh_array h)))"
    using ok assms(3) by (simp add: take_Suc_conv_app_nth)
  moreover have "u8 (?n + 1) = Suc ?n" using ok assms(3) by simp
  ultimately show ?thesis
    using fr ok assms by (auto simp: bheap_insert_def Let_def bheap_ok_def bheap_elems_def)
qed

lemma is_heap_shrink: "is_heap cmp arr n \<Longrightarrow> m \<le> n \<Longrightarrow> is_heap cmp arr m"
  by (simp add: is_heap_def)

lemma take_swap_last:
  assumes "idx \<le> m" and "m < length arr"
  shows "mset (take m (bheap_swap arr idx m)) = mset (take (Suc m) arr) - {#arr ! idx#}"
proof -
  have "mset (take (Suc m) (bheap_swap arr idx m)) = mset (take (Suc m) arr)"
    using assms by (intro mset_take_swap) auto
  moreover have "bheap_swap arr idx m ! m = arr ! idx" using assms by (simp add: nth_swap)
  ultimately show ?thesis
    using assms by (simp add: take_Suc_conv_app_nth) (metis add_mset_remove_trivial)
qed

lemma bheap_remove_correct:
  assumes "bheap_ok h" and "bh_compare h = cmp" and "idx < bh_size h"
  shows "\<exists>h'. bheap_remove h idx = Some h' \<and> bheap_ok h' \<and> bh_compare h' = cmp \<and>
    bh_capacity h' = bh_capacity h \<and>
    bheap_elems h' = bheap_elems h - {#bh_array h ! idx#}"
proof -
  let ?m = "bh_size h - 1" and ?arr = "bh_array h"
  let ?a = "bheap_swap ?arr idx ?m"
  have ok: "length ?arr = bh_capacity h" "bh_capacity h \<le> 127" "bh_size h \<le> bh_capacity h"
      "is_heap cmp ?arr (bh_size h)"
    using assms by (auto simp: bheap_ok_def)
  have m: "sub8 (bh_size h) 1 = ?m" "Suc ?m = bh_size h" using ok assms(3) by auto
  have ml: "?m < length ?arr" "idx \<le> ?m" using ok assms(3) by auto
  have hm: "is_heap cmp ?arr ?m" using ok(4) by (rule is_heap_shrink) simp
  have el: "mset (take ?m ?a) = bheap_elems h - {#?arr ! idx#}"
    using take_swap_last[OF ml(2,1)] m by (simp add: bheap_elems_def)
  have nth: "?a ! i = (if i = idx then ?arr ! ?m else ?arr ! i)" if "i < ?m" for i
    using that ml by (simp add: nth_swap)
  show ?thesis
  proof (cases "cmp (?arr ! idx) (?arr ! ?m) > 0")
    case True
    have im: "idx < ?m" using True cmp_refl[of "?arr ! idx"] ml(2) by (cases "idx = ?m") auto
    have "heap_up cmp ?a ?m idx"
      by (rule replace_up[OF hm True im _ nth]) (use ml in auto)
    then have "is_heap cmp (bheap_heapify cmp ?a idx) ?m"
      by (rule heapify_heap) (use im ml in auto)
    moreover have "length (bheap_heapify cmp ?a idx) = length ?arr \<and>
        mset (take ?m (bheap_heapify cmp ?a idx)) = mset (take ?m ?a)"
      using heapify_frame[of idx ?m ?a cmp] im ml by simp
    ultimately show ?thesis
      using True assms(2) ok el m
      by (auto simp: bheap_remove_def Let_def bheap_ok_def bheap_elems_def)
  next
    case False
    have run: "\<exists>a'. bheap_rev_heapify cmp ?m ?a idx = Some a' \<and> length a' = length ?arr \<and>
        mset (take ?m a') = mset (take ?m ?a) \<and> is_heap cmp a' ?m"
    proof (cases "idx = ?m")
      case True
      have "?a = ?arr" using True by (simp add: bheap_swap_def)
      moreover have "bheap_select cmp ?arr ?m idx = idx"
        using True ok ml by (auto simp: bheap_select_def Let_def)
      ultimately have "bheap_rev_heapify cmp ?m ?a idx = Some ?arr"
        by (subst bheap_rev_heapify.simps) simp
      with \<open>?a = ?arr\<close> hm show ?thesis by simp
    next
      case ne: False
      then have im: "idx < ?m" using ml(2) by simp
      have dn: "heap_down cmp ?a ?m idx"
        by (rule replace_down[OF hm _ im _ nth]) (use False ml in auto)
      have "idx < 127" "?m \<le> 127" "?m \<le> length ?a" using im ok ml by auto
      then obtain a' where "bheap_rev_heapify cmp ?m ?a idx = Some a'" "length a' = length ?a"
          "mset (take ?m a') = mset (take ?m ?a)"
        using rev_heapify_total[of idx ?m ?a cmp] im by auto
      with rev_heapify_heap[OF dn im] ok ml show ?thesis by auto
    qed
    then show ?thesis
      using False assms(2) ok el m
      by (auto simp: bheap_remove_def Let_def bheap_ok_def bheap_elems_def)
  qed
qed

lemma bheap_min:
  assumes "bheap_ok h" and "bh_compare h = cmp" and "y \<in># bheap_elems h"
  shows "cmp (bh_array h ! 0) y \<le> 0"
proof -
  obtain i where "i < bh_size h" "y = bh_array h ! i"
    using assms(1,3) by (auto simp: bheap_elems_def bheap_ok_def in_set_conv_nth)
  then show ?thesis using heap_root_min assms(1,2) by (auto simp: bheap_ok_def)
qed

end

lemma bheap_elems_nth:
  "bheap_ok h \<Longrightarrow> idx < bh_size h \<Longrightarrow> bh_array h ! idx \<in># bheap_elems h"
  by (auto simp: bheap_elems_def bheap_ok_def in_set_conv_nth)

lemma bheap_index_Some:
  "bheap_index arr n x = Some i \<Longrightarrow> i < n \<and> arr ! i = x"
  by (auto simp: bheap_index_def find_Some_iff)

lemma bheap_index_None:
  "bheap_index arr n x = None \<Longrightarrow> n \<le> length arr \<Longrightarrow> x \<notin> set (take n arr)"
  by (auto simp: bheap_index_def find_None_iff in_set_conv_nth)

lemma bheap_init_ok: "length arr = n \<Longrightarrow> n \<le> 127 \<Longrightarrow> bheap_ok (bheap_init arr n cmp)"
  by (simp add: bheap_ok_def bheap_init_def is_heap_def)

section \<open>Properties\<close>

text \<open>\<open>bheap_insert\<close> on a heap with a free slot returns 0 and adds exactly the new element,
  keeping the heap order; on a full heap it returns \<open>-ENOMEM\<close> and changes nothing.
\<close>

theorem bheap_insert_adds:
  assumes "heap_order (bh_compare h)" and "bheap_ok h"
  shows "case bheap_insert h x of (r, h') \<Rightarrow> bheap_ok h' \<and>
    (if bh_size h < bh_capacity h then r = 0 \<and> bheap_elems h' = add_mset x (bheap_elems h)
     else r = - ENOMEM \<and> h' = h)"
proof (cases "bh_size h < bh_capacity h")
  case True
  then obtain h' where "bheap_insert h x = (0, h')" "bheap_ok h'"
      "bheap_elems h' = add_mset x (bheap_elems h)"
    using heap_order.bheap_insert_correct[OF assms(1,2) refl] by blast
  with True show ?thesis by simp
next
  case False
  then have "bh_capacity h = bh_size h" using assms(2) by (simp add: bheap_ok_def)
  then show ?thesis using assms(2) by (simp add: bheap_insert_def)
qed

definition int_compare :: "int \<Rightarrow> int \<Rightarrow> int" where
  "int_compare x y = sgn (x - y)"

lemma heap_order_int: "heap_order int_compare"
  by unfold_locales (auto simp: int_compare_def sgn_if split: if_splits)

definition heap_example :: "int bheap" where
  "heap_example = \<lparr>bh_array = [2, 7, 4, 0], bh_capacity = 4, bh_size = 3, bh_compare = int_compare\<rparr>"

lemma heap_example_ok: "heap_order (bh_compare heap_example)" "bheap_ok heap_example"
  using heap_order_int
  by (auto simp: heap_example_def bheap_ok_def is_heap_def int_compare_def less_Suc_eq numeral_eq_Suc)

theorem bheap_insert_adds_witness:
  "bheap_ok heap_example \<and> bheap_ok (snd (bheap_insert heap_example 1)) \<and>
   bheap_elems (snd (bheap_insert heap_example 1)) = add_mset 1 (bheap_elems heap_example)"
  using bheap_insert_adds[OF heap_example_ok, of 1] heap_example_ok(2)
  by (auto simp: heap_example_def split: prod.splits)

text \<open>
  C27. \<open>bheap_pop\<close> on a non-empty heap terminates, returns 0 and stores an element that is
  least in the callback's order; exactly that element is gone, and the heap order is kept.
  On an empty heap it returns \<open>-ENOENT\<close>.
\<close>

theorem bheap_pop_least:
  assumes "heap_order (bh_compare h)" and "bheap_ok h"
  shows "if bh_size h = 0 then bheap_pop h = Some (- ENOENT, None, h)
    else (\<exists>x h'. bheap_pop h = Some (0, Some x, h') \<and> bheap_ok h' \<and> x \<in># bheap_elems h \<and>
      (\<forall>y \<in># bheap_elems h. bh_compare h x y \<le> 0) \<and> bheap_elems h' = bheap_elems h - {#x#})"
proof (cases "bh_size h = 0")
  case True
  then show ?thesis by (simp add: bheap_pop_def)
next
  case False
  obtain h' where "bheap_remove h 0 = Some h'" "bheap_ok h'"
      "bheap_elems h' = bheap_elems h - {#bh_array h ! 0#}"
    using heap_order.bheap_remove_correct[OF assms(1,2) refl, of 0] False by auto
  moreover have "bh_array h ! 0 \<in># bheap_elems h"
    using bheap_elems_nth[OF assms(2), of 0] False by simp
  moreover have "\<forall>y \<in># bheap_elems h. bh_compare h (bh_array h ! 0) y \<le> 0"
    using heap_order.bheap_min[OF assms(1,2) refl] by blast
  ultimately show ?thesis using False by (simp add: bheap_pop_def)
qed

theorem bheap_pop_least_witness:
  "bheap_ok heap_example \<and> (\<exists>x h'. bheap_pop heap_example = Some (0, Some x, h') \<and> x = 2 \<and>
     bheap_elems h' = bheap_elems heap_example - {#2#})"
proof -
  have "\<not> bh_size heap_example = 0" by (simp add: heap_example_def)
  then obtain x h' where r: "bheap_pop heap_example = Some (0, Some x, h')"
      "bheap_elems h' = bheap_elems heap_example - {#x#}"
    using bheap_pop_least[OF heap_example_ok] by auto
  moreover have "x = 2"
    using r(1) by (auto simp: bheap_pop_def heap_example_def Let_def split: option.splits bind_splits)
  ultimately show ?thesis using heap_example_ok(2) by auto
qed

text \<open>\<open>bheap_extract\<close> removes one occurrence of the given element wherever it stands and
  keeps the heap order (the moved element may have to go up or down); it returns
  \<open>-ENOENT\<close> with the heap unchanged exactly when the element is not held.
\<close>

theorem bheap_extract_removes:
  assumes "heap_order (bh_compare h)" and "bheap_ok h"
  shows "if x \<in># bheap_elems h
    then (\<exists>h'. bheap_extract h x = Some (0, h') \<and> bheap_ok h' \<and> bheap_elems h' = bheap_elems h - {#x#})
    else bheap_extract h x = Some (- ENOENT, h)"
proof (cases "bheap_index (bh_array h) (bh_size h) x")
  case None
  moreover have "x \<notin># bheap_elems h"
    using bheap_index_None[OF None] assms(2) by (simp add: bheap_elems_def bheap_ok_def)
  ultimately show ?thesis by (simp add: bheap_extract_def)
next
  case (Some i)
  have i: "i < bh_size h" "bh_array h ! i = x" using bheap_index_Some[OF Some] by auto
  then have "x \<in># bheap_elems h" using bheap_elems_nth[OF assms(2)] by blast
  moreover obtain h' where "bheap_remove h i = Some h'" "bheap_ok h'"
      "bheap_elems h' = bheap_elems h - {#x#}"
    using heap_order.bheap_remove_correct[OF assms(1,2) refl i(1)] i(2) by auto
  ultimately show ?thesis using Some by (simp add: bheap_extract_def)
qed

theorem bheap_extract_removes_witness:
  "7 \<in># bheap_elems heap_example \<and> (\<exists>h'. bheap_extract heap_example 7 = Some (0, h') \<and> bheap_ok h')"
proof -
  have "7 \<in># bheap_elems heap_example" by (simp add: bheap_elems_def heap_example_def)
  then show ?thesis using bheap_extract_removes[OF heap_example_ok, of 7] by auto
qed

end
