(* ===== verification/PageAlloc.thy ===== *)
theory PageAlloc
  imports ZPrelude "HOL-Library.Disjoint_Sets"
begin

text \<open>
  The physical page allocator of \<open>kernel/mem/page.c\<close>. Ranges of pages are described by
  elements of a pool of 32 (indices instead of pointers), a bit mask records which elements are
  in use, and the free and the allocated elements form two NULL-terminated lists in that pool.
  \<open>page_ok\<close> is the representation invariant; \<open>free_pages\<close> and \<open>alloc_pages\<close> are the sets of
  pages the two lists stand for.

  The mask is updated with \<open>1 << i\<close>, an \<open>int\<close> shift, and \<open>int\<close> has 16 bits on the Z180: the
  shift is undefined from \<open>i = 15\<close> on (\<open>c_shl1\<close>), so only the first 15 elements are usable.
\<close>

unbundle bit_operations_syntax

record page_element =
  pe_next :: "nat option"
  pe_owner :: "nat option"
  pe_callback :: "nat option"
  pe_start :: nat
  pe_length :: nat

record page_common =
  pc_pool :: "nat \<Rightarrow> page_element"
  pc_used :: "32 word"
  pc_free :: "nat option"
  pc_alloc :: "nat option"
  pc_cache :: "nat option"
  pc_locked :: bool

definition PAGE_OWNER_CACHE :: "nat option" where "PAGE_OWNER_CACHE = Some 65535"

text \<open>The list a function works on, its \<open>struct page_element **list\<close> argument.\<close>

datatype page_list = FreeL | AllocL

fun list_head :: "page_list \<Rightarrow> page_common \<Rightarrow> nat option" where
  "list_head FreeL s = pc_free s"
| "list_head AllocL s = pc_alloc s"

fun set_list_head :: "page_list \<Rightarrow> nat option \<Rightarrow> page_common \<Rightarrow> page_common" where
  "set_list_head FreeL p s = s\<lparr>pc_free := p\<rparr>"
| "set_list_head AllocL p s = s\<lparr>pc_alloc := p\<rparr>"

definition upd_elem :: "nat \<Rightarrow> (page_element \<Rightarrow> page_element) \<Rightarrow> page_common \<Rightarrow> page_common" where
  "upd_elem i f s = s\<lparr>pc_pool := (pc_pool s)(i := f (pc_pool s i))\<rparr>"

text \<open>\<open>lock_lock\<close> and \<open>lock_unlock\<close> of the allocator's lock; taking it twice blocks for ever.\<close>

definition page_lock :: "page_common \<Rightarrow> page_common option" where
  "page_lock s = (if pc_locked s then None else Some (s\<lparr>pc_locked := True\<rparr>))"

definition page_unlock :: "page_common \<Rightarrow> page_common" where
  "page_unlock s = s\<lparr>pc_locked := False\<rparr>"

definition c_shl1 :: "nat \<Rightarrow> 32 word option" where
  "c_shl1 i = (if i < 15 then Some (push_bit i 1) else None)"

section \<open>The element pool\<close>

function page_element_scan :: "32 word \<Rightarrow> nat \<Rightarrow> nat option option" where
  "page_element_scan used i =
     (if i < 32 then
        (case c_shl1 i of None \<Rightarrow> None
         | Some m \<Rightarrow> if used AND m = 0 then Some (Some i) else page_element_scan used (i + 1))
      else Some None)"
  by pat_completeness auto
termination
  by (relation "measure (\<lambda>(_, i). 32 - i)") auto

declare page_element_scan.simps [simp del]

definition page_element_alloc :: "page_common \<Rightarrow> (nat option \<times> page_common) option" where
  "page_element_alloc s =
     do {
       found \<leftarrow> page_element_scan (pc_used s) 0;
       (case found of
          None \<Rightarrow> Some (None, s)
        | Some i \<Rightarrow> do { m \<leftarrow> c_shl1 i; Some (Some i, s\<lparr>pc_used := pc_used s OR m\<rparr>) })
     }"

definition page_element_free :: "nat \<Rightarrow> page_common \<Rightarrow> page_common option" where
  "page_element_free e s =
     (if e < 32 then do { m \<leftarrow> c_shl1 e; Some (s\<lparr>pc_used := pc_used s AND NOT m\<rparr>) } else Some s)"

section \<open>The lists\<close>

definition page_element_merge ::
  "nat option \<Rightarrow> nat option \<Rightarrow> page_common \<Rightarrow> (int \<times> page_common) option" where
  "page_element_merge dest victim s =
     (case (dest, victim) of
        (Some d, Some v) \<Rightarrow>
          if pe_start (pc_pool s d) + pe_length (pc_pool s d) = pe_start (pc_pool s v)
             \<and> pe_owner (pc_pool s d) = pe_owner (pc_pool s v)
          then do {
            let s1 = upd_elem d (\<lambda>p. p\<lparr>pe_length := u8 (pe_length p + pe_length (pc_pool s v))\<rparr>) s;
            let s2 = upd_elem d (\<lambda>p. p\<lparr>pe_next := pe_next (pc_pool s1 v)\<rparr>) s1;
            s3 \<leftarrow> page_element_free v s2;
            Some (0, s3)
          }
          else Some (-1, s)
      | _ \<Rightarrow> Some (-1, s))"

partial_function (option) page_attach_pos ::
  "(nat \<Rightarrow> page_element) \<Rightarrow> nat \<Rightarrow> nat option \<Rightarrow> nat option option" where
  "page_attach_pos pool e it =
     (case it of
        None \<Rightarrow> Some None
      | Some i \<Rightarrow> if pe_start (pool e) < pe_start (pool i)
                  then page_attach_pos pool e (pe_next (pool i))
                  else Some (Some i))"

declare page_attach_pos.simps [code]

definition page_element_attach :: "page_list \<Rightarrow> nat \<Rightarrow> page_common \<Rightarrow> page_common option" where
  "page_element_attach L e s =
     do {
       it \<leftarrow> page_attach_pos (pc_pool s) e (list_head L s);
       let s1 = (case it of
           Some i \<Rightarrow> (let t = upd_elem e (\<lambda>p. p\<lparr>pe_next := pe_next (pc_pool s i)\<rparr>) s
                      in upd_elem i (\<lambda>p. p\<lparr>pe_next := Some e\<rparr>) t)
         | None \<Rightarrow> set_list_head L (Some e)
                     (upd_elem e (\<lambda>p. p\<lparr>pe_next := list_head L s\<rparr>) s));
       (r, s2) \<leftarrow> page_element_merge it (Some e) s1;
       (if r = 0 then do {
          i \<leftarrow> it;
          (_, s3) \<leftarrow> page_element_merge it (pe_next (pc_pool s2 i)) s2;
          Some s3
        } else do {
          (_, s3) \<leftarrow> page_element_merge (Some e) (pe_next (pc_pool s2 e)) s2;
          Some s3
        })
     }"

text \<open>The walk of \<open>page_element_detach\<close>: the element found (if any) and its predecessor.\<close>

partial_function (option) page_detach_pos ::
  "(nat \<Rightarrow> page_element) \<Rightarrow> nat \<Rightarrow> nat option \<Rightarrow> nat option \<Rightarrow> (nat option \<times> nat option) option" where
  "page_detach_pos pool e it prev =
     (case it of
        None \<Rightarrow> Some (None, prev)
      | Some i \<Rightarrow> if i \<noteq> e then page_detach_pos pool e (pe_next (pool i)) (Some i)
                  else Some (Some i, prev))"

declare page_detach_pos.simps [code]

definition page_element_detach :: "page_list \<Rightarrow> nat \<Rightarrow> page_common \<Rightarrow> page_common option" where
  "page_element_detach L e s =
     do {
       (it, prev) \<leftarrow> page_detach_pos (pc_pool s) e (list_head L s) None;
       Some (case it of
          None \<Rightarrow> s
        | Some i \<Rightarrow>
            (case prev of
               Some p \<Rightarrow> upd_elem p (\<lambda>q. q\<lparr>pe_next := pe_next (pc_pool s i)\<rparr>) s
             | None \<Rightarrow> set_list_head L (pe_next (pc_pool s i)) s))
     }"

definition page_element_split :: "nat \<Rightarrow> nat \<Rightarrow> page_common \<Rightarrow> (nat option \<times> page_common) option" where
  "page_element_split v pages s =
     do {
       (newborn, s1) \<leftarrow> page_element_alloc s;
       (case newborn of
          None \<Rightarrow> Some (None, s1)
        | Some n \<Rightarrow>
            if pe_length (pc_pool s1 v) \<le> pages then Some (None, s1)
            else (let s2 = upd_elem n (\<lambda>p. p\<lparr>pe_start := pe_start (pc_pool s1 v), pe_length := u8 pages\<rparr>) s1;
                      s3 = upd_elem v (\<lambda>p. p\<lparr>pe_start := u8 (pe_start p + pages),
                                            pe_length := sub8 (pe_length p) pages\<rparr>) s2
                  in Some (Some n, s3)))
     }"

section \<open>The interface\<close>

text \<open>First fit: the first element of the list at least \<open>pages\<close> long.\<close>

partial_function (option) page_first_fit ::
  "(nat \<Rightarrow> page_element) \<Rightarrow> nat \<Rightarrow> nat option \<Rightarrow> nat option option" where
  "page_first_fit pool pages cu =
     (case cu of
        None \<Rightarrow> Some None
      | Some c \<Rightarrow> if pe_length (pool c) < pages then page_first_fit pool pages (pe_next (pool c))
                  else Some (Some c))"

declare page_first_fit.simps [code]

definition page_alloc_callback ::
  "nat option \<Rightarrow> nat \<Rightarrow> nat option \<Rightarrow> page_common \<Rightarrow> (nat \<times> page_common) option" where
  "page_alloc_callback owner pages callback s0 =
     do {
       s \<leftarrow> page_lock s0;
       cu \<leftarrow> page_first_fit (pc_pool s) pages (pc_free s);
       (page, s') \<leftarrow> (case cu of
          None \<Rightarrow> Some (0, s)
        | Some c \<Rightarrow> do {
            (c', s1) \<leftarrow> (if pe_length (pc_pool s c) = pages
                          then do { s1 \<leftarrow> page_element_detach FreeL c s; Some (Some c, s1) }
                          else page_element_split c pages s);
            e \<leftarrow> c';
            let s2 = upd_elem e (\<lambda>p. p\<lparr>pe_callback := callback, pe_owner := owner\<rparr>) s1;
            s3 \<leftarrow> page_element_attach AllocL e s2;
            Some (pe_start (pc_pool s2 e), s3)
          });
       Some (page, page_unlock s')
     }"

definition page_alloc :: "nat option \<Rightarrow> nat \<Rightarrow> page_common \<Rightarrow> (nat \<times> page_common) option" where
  "page_alloc owner pages s = page_alloc_callback owner pages None s"

definition page_cache_alloc :: "nat option \<Rightarrow> page_common \<Rightarrow> (nat \<times> page_common) option" where
  "page_cache_alloc release_callback s = page_alloc_callback PAGE_OWNER_CACHE 1 release_callback s"

partial_function (option) page_containing ::
  "(nat \<Rightarrow> page_element) \<Rightarrow> nat \<Rightarrow> nat option \<Rightarrow> nat option option" where
  "page_containing pool page cu =
     (case cu of
        None \<Rightarrow> Some None
      | Some c \<Rightarrow> if pe_start (pool c) \<le> page \<and> page < pe_start (pool c) + pe_length (pool c)
                  then Some (Some c)
                  else page_containing pool page (pe_next (pool c)))"

declare page_containing.simps [code]

text \<open>The body of the loop of \<open>page_free\<close>, up to the element that goes to the free list.\<close>

definition page_free_take :: "nat \<Rightarrow> nat \<Rightarrow> nat \<Rightarrow> page_common \<Rightarrow> (nat \<times> page_common) option" where
  "page_free_take c page pages s =
     (if pe_start (pc_pool s c) = page then
        if pages < pe_length (pc_pool s c) then do {
          (t, s1) \<leftarrow> page_element_split c pages s;
          e \<leftarrow> t;
          Some (e, s1)
        } else do {
          s1 \<leftarrow> page_element_detach AllocL c s;
          Some (c, s1)
        }
      else do {
        (t, s1) \<leftarrow> page_element_split c (page - pe_start (pc_pool s c)) s;
        s2 \<leftarrow> page_element_detach AllocL c s1;
        te \<leftarrow> t;
        s3 \<leftarrow> page_element_attach AllocL te s2;
        (if pages < pe_length (pc_pool s3 c) then do {
           (t', s4) \<leftarrow> page_element_split c (pe_length (pc_pool s3 c) - pages) s3;
           s5 \<leftarrow> page_element_attach AllocL c s4;
           e \<leftarrow> t';
           Some (e, s5)
         } else Some (c, s3))
      })"

partial_function (option) page_free_loop ::
  "nat \<Rightarrow> nat \<Rightarrow> nat option \<Rightarrow> page_common \<Rightarrow> page_common option" where
  "page_free_loop page pages cu s =
     (if pages = 0 then Some s
      else Option.bind (page_containing (pc_pool s) page cu) (\<lambda>found.
        (case found of
           None \<Rightarrow> Some s
         | Some c \<Rightarrow> Option.bind (page_free_take c page pages s) (\<lambda>(e, s1).
             Option.bind (page_element_attach FreeL e s1) (\<lambda>s2.
               page_free_loop (u8 (page + pe_length (pc_pool s1 e)))
                 (sub8 pages (pe_length (pc_pool s1 e))) (Some e) s2)))))"

declare page_free_loop.simps [code]

definition page_free :: "nat \<Rightarrow> nat \<Rightarrow> page_common \<Rightarrow> page_common option" where
  "page_free page pages s0 =
     do {
       s \<leftarrow> page_lock s0;
       s' \<leftarrow> page_free_loop page pages (pc_alloc s) s;
       Some (page_unlock s')
     }"

text \<open>\<open>page_init\<close> on the zeroed static state; its \<open>assert\<close> fails when the pool is exhausted.\<close>

definition page_zero :: page_common where
  "page_zero = \<lparr>pc_pool = (\<lambda>_. \<lparr>pe_next = None, pe_owner = None, pe_callback = None, pe_start = 0, pe_length = 0\<rparr>),
     pc_used = 0, pc_free = None, pc_alloc = None, pc_cache = None, pc_locked = False\<rparr>"

definition page_init :: "nat \<Rightarrow> nat \<Rightarrow> page_common \<Rightarrow> page_common option" where
  "page_init start pages s =
     do {
       (element, s1) \<leftarrow> page_element_alloc s;
       e \<leftarrow> element;
       let s2 = upd_elem e (\<lambda>p. p\<lparr>pe_start := start, pe_length := pages, pe_owner := None\<rparr>) s1;
       s3 \<leftarrow> page_element_attach FreeL e s2;
       Some (s3\<lparr>pc_locked := False\<rparr>)
     }"

section \<open>The representation\<close>

definition rng :: "page_common \<Rightarrow> nat \<Rightarrow> nat set" where
  "rng s i = {pe_start (pc_pool s i) ..< pe_start (pc_pool s i) + pe_length (pc_pool s i)}"

definition pages_of :: "page_common \<Rightarrow> nat list \<Rightarrow> nat set" where
  "pages_of s xs = (\<Union>i \<in> set xs. rng s i)"

definition linked :: "page_common \<Rightarrow> nat option \<Rightarrow> nat list \<Rightarrow> bool" where
  "linked s p xs \<longleftrightarrow> slist (\<lambda>i. pe_next (pc_pool s i)) p xs"

text \<open>Elements that are in use, describe non-empty ranges of real pages, and do not overlap.\<close>

definition elems_ok :: "page_common \<Rightarrow> nat list \<Rightarrow> bool" where
  "elems_ok s xs \<longleftrightarrow> distinct xs \<and>
     (\<forall>i \<in> set xs. i < 15 \<and> bit (pc_used s) i \<and> 0 < pe_start (pc_pool s i) \<and>
        0 < pe_length (pc_pool s i) \<and> pe_start (pc_pool s i) + pe_length (pc_pool s i) \<le> 256) \<and>
     (\<forall>i \<in> set xs. \<forall>j \<in> set xs. i \<noteq> j \<longrightarrow> rng s i \<inter> rng s j = {})"

lemma pages_of_simps [simp]:
  "pages_of s [] = {}" "pages_of s (x # xs) = rng s x \<union> pages_of s xs"
  "pages_of s (xs @ ys) = pages_of s xs \<union> pages_of s ys"
  by (auto simp: pages_of_def)

lemma linked_simps [simp]:
  "linked s p [] \<longleftrightarrow> p = None"
  "linked s p (x # xs) \<longleftrightarrow> p = Some x \<and> linked s (pe_next (pc_pool s x)) xs"
  by (auto simp: linked_def)

lemma elems_ok_append:
  "elems_ok s (xs @ ys) \<longleftrightarrow> elems_ok s xs \<and> elems_ok s ys \<and> set xs \<inter> set ys = {} \<and>
     pages_of s xs \<inter> pages_of s ys = {}"
proof
  assume *: "elems_ok s (xs @ ys)"
  then have "rng s i \<inter> rng s j = {}" if "i \<in> set xs" "j \<in> set ys" for i j
    using that unfolding elems_ok_def by (metis UnCI disjoint_iff distinct_append set_append)
  then have "pages_of s xs \<inter> pages_of s ys = {}" unfolding pages_of_def by blast
  with * show "elems_ok s xs \<and> elems_ok s ys \<and> set xs \<inter> set ys = {} \<and> pages_of s xs \<inter> pages_of s ys = {}"
    unfolding elems_ok_def by simp
next
  assume *: "elems_ok s xs \<and> elems_ok s ys \<and> set xs \<inter> set ys = {} \<and> pages_of s xs \<inter> pages_of s ys = {}"
  then have 1: "\<forall>i \<in> set xs. \<forall>j \<in> set ys. rng s i \<inter> rng s j = {}"
    unfolding pages_of_def by blast
  then have 2: "\<forall>i \<in> set ys. \<forall>j \<in> set xs. rng s i \<inter> rng s j = {}" by blast
  show "elems_ok s (xs @ ys)"
    using * 1 2 unfolding elems_ok_def set_append ball_Un by (simp add: elems_ok_def)
qed

lemma elems_ok_Cons:
  "elems_ok s (x # xs) \<longleftrightarrow> elems_ok s [x] \<and> elems_ok s xs \<and> x \<notin> set xs \<and> rng s x \<inter> pages_of s xs = {}"
  using elems_ok_append[of s "[x]" xs] by simp

lemma elems_ok_single:
  "elems_ok s [x] \<longleftrightarrow> x < 15 \<and> bit (pc_used s) x \<and> 0 < pe_start (pc_pool s x) \<and>
     0 < pe_length (pc_pool s x) \<and> pe_start (pc_pool s x) + pe_length (pc_pool s x) \<le> 256"
  by (auto simp: elems_ok_def)

lemma elems_ok_mset: "elems_ok s xs \<Longrightarrow> distinct ys \<Longrightarrow> set ys = set xs \<Longrightarrow> elems_ok s ys"
  by (simp add: elems_ok_def)

lemma elems_ok_frame:
  assumes "\<And>i. i \<in> set xs \<Longrightarrow> pe_start (pc_pool s' i) = pe_start (pc_pool s i) \<and>
      pe_length (pc_pool s' i) = pe_length (pc_pool s i) \<and> bit (pc_used s' ) i = bit (pc_used s) i"
  shows "elems_ok s' xs = elems_ok s xs" and "pages_of s' xs = pages_of s xs"
proof -
  have r: "rng s' i = rng s i" if "i \<in> set xs" for i
    using assms[OF that] by (simp add: rng_def)
  then show "pages_of s' xs = pages_of s xs" by (simp add: pages_of_def)
  show "elems_ok s' xs = elems_ok s xs"
    unfolding elems_ok_def using assms r by (simp cong: ball_cong)
qed

lemma linked_frame:
  "(\<And>i. i \<in> set xs \<Longrightarrow> pe_next (pc_pool s' i) = pe_next (pc_pool s i)) \<Longrightarrow> linked s' p xs = linked s p xs"
  unfolding linked_def by (rule slist_cong) simp

lemma upd_elem_simps [simp]:
  "pc_pool (upd_elem i f s) = (pc_pool s)(i := f (pc_pool s i))"
  "pc_used (upd_elem i f s) = pc_used s" "pc_free (upd_elem i f s) = pc_free s"
  "pc_alloc (upd_elem i f s) = pc_alloc s" "pc_locked (upd_elem i f s) = pc_locked s"
  by (simp_all add: upd_elem_def)

lemma set_list_head_simps [simp]:
  "pc_pool (set_list_head L p s) = pc_pool s" "pc_used (set_list_head L p s) = pc_used s"
  "pc_locked (set_list_head L p s) = pc_locked s"
  "list_head L' (set_list_head L p s) = (if L = L' then p else list_head L' s)"
  by (cases L; cases L'; simp)+

lemma list_head_upd [simp]:
  "list_head L (upd_elem i f s) = list_head L s" "list_head L (s\<lparr>pc_used := u\<rparr>) = list_head L s"
  "list_head L (s\<lparr>pc_locked := b\<rparr>) = list_head L s"
  by (cases L; simp)+

section \<open>The element mask\<close>

lemma bit_mask1: "n < 15 \<Longrightarrow> bit ((2 :: 32 word) ^ n) i \<longleftrightarrow> i = n"
  by (auto simp: bit_exp_iff)

lemma bit_set1: "n < 15 \<Longrightarrow> bit (u OR (2 :: 32 word) ^ n) i \<longleftrightarrow> bit u i \<or> i = n"
  by (auto simp: bit_or_iff bit_mask1)

lemma bit_clear1: "n < 15 \<Longrightarrow> bit (u AND NOT ((2 :: 32 word) ^ n)) i \<longleftrightarrow> bit u i \<and> i \<noteq> n"
  using bit_imp_le_length[of u i] by (auto simp: bit_and_iff bit_not_iff bit_mask1)

lemma mask1_clear: "n < 15 \<Longrightarrow> (u AND (2 :: 32 word) ^ n) = 0 \<longleftrightarrow> \<not> bit u n"
  unfolding bit_eq_iff[of "u AND 2 ^ n" 0]
  by (auto simp: bit_and_iff bit_mask1 dest: spec[of _ n])

lemma page_element_scan_free:
  "i \<le> j \<Longrightarrow> j < 15 \<Longrightarrow> \<not> bit used j \<Longrightarrow>
   \<exists>n. page_element_scan used i = Some (Some n) \<and> n < 15 \<and> \<not> bit used n"
proof (induction "15 - i" arbitrary: i rule: less_induct)
  case less
  have i: "i < 15" using less.prems by simp
  show ?case
  proof (cases "bit used i")
    case False
    with i show ?thesis by (subst page_element_scan.simps) (simp add: c_shl1_def mask1_clear)
  next
    case True
    then have "i \<noteq> j" using less.prems by auto
    then have "\<exists>n. page_element_scan used (i + 1) = Some (Some n) \<and> n < 15 \<and> \<not> bit used n"
      using less.prems i by (intro less.hyps) auto
    with True i show ?thesis by (subst page_element_scan.simps) (simp add: c_shl1_def mask1_clear)
  qed
qed

lemma page_element_alloc_free:
  assumes "\<exists>j<15. \<not> bit (pc_used s) j"
  shows "\<exists>n. page_element_alloc s = Some (Some n, s\<lparr>pc_used := pc_used s OR 2 ^ n\<rparr>) \<and>
    n < 15 \<and> \<not> bit (pc_used s) n"
proof -
  obtain n where "page_element_scan (pc_used s) 0 = Some (Some n)" "n < 15" "\<not> bit (pc_used s) n"
    using assms page_element_scan_free[of 0] by blast
  then show ?thesis by (simp add: page_element_alloc_def c_shl1_def)
qed

text \<open>Past the fifteenth element the source shifts \<open>1\<close> out of a 16 bit \<open>int\<close>.\<close>

lemma page_element_scan_undefined:
  "(\<forall>j<15. bit used j) \<Longrightarrow> i \<le> 15 \<Longrightarrow> page_element_scan used i = None"
proof (induction "15 - i" arbitrary: i rule: less_induct)
  case less
  show ?case
  proof (cases "i = 15")
    case True
    then show ?thesis by (subst page_element_scan.simps) (simp add: c_shl1_def)
  next
    case False
    then have "page_element_scan used (i + 1) = None" using less.prems by (intro less.hyps) auto
    with False less.prems show ?thesis
      by (subst page_element_scan.simps) (simp add: c_shl1_def mask1_clear)
  qed
qed

section \<open>Merging\<close>

text \<open>
  \<open>coalesced s s' xs xs'\<close>: some elements of \<open>xs\<close> were merged into others and given back to
  the pool; \<open>xs'\<close> remain and describe the same pages.
\<close>

definition coalesced :: "page_common \<Rightarrow> page_common \<Rightarrow> nat list \<Rightarrow> nat list \<Rightarrow> bool" where
  "coalesced s s' xs xs' \<longleftrightarrow> set xs' \<subseteq> set xs \<and> elems_ok s' xs' \<and> pages_of s' xs' = pages_of s xs \<and>
     (\<forall>i. i \<notin> set xs \<longrightarrow> pc_pool s' i = pc_pool s i) \<and>
     (\<forall>i. bit (pc_used s') i \<longleftrightarrow> bit (pc_used s) i \<and> (i \<in> set xs \<longrightarrow> i \<in> set xs')) \<and>
     (\<forall>L. list_head L s' = list_head L s) \<and> pc_locked s' = pc_locked s"

lemma coalesced_refl: "elems_ok s xs \<Longrightarrow> coalesced s s xs xs"
  by (simp add: coalesced_def)

lemma coalesced_trans:
  "coalesced s s' xs xs' \<Longrightarrow> coalesced s' s'' xs' xs'' \<Longrightarrow> coalesced s s'' xs xs''"
  unfolding coalesced_def by (simp add: subset_iff) metis

lemma merge_spec:
  assumes "linked s p (pre @ d # post)" and ok: "elems_ok s (pre @ d # post)"
  shows "\<exists>r s' post'. page_element_merge (Some d) (pe_next (pc_pool s d)) s = Some (r, s') \<and>
    linked s' p (pre @ d # post') \<and> coalesced s s' (pre @ d # post) (pre @ d # post') \<and>
    (r \<noteq> 0 \<longrightarrow> s' = s \<and> post' = post) \<and> (r = 0 \<longrightarrow> post' = tl post)"
proof (cases post)
  case Nil
  then have "pe_next (pc_pool s d) = None" using assms(1) by (auto simp: linked_def slist_append)
  then show ?thesis using assms Nil coalesced_refl[OF ok]
    by (intro exI[of _ "-1"] exI[of _ s] exI[of _ "[]"]) (simp add: page_element_merge_def)
next
  case (Cons v rest)
  then have nx: "pe_next (pc_pool s d) = Some v" using assms(1) by (auto simp: linked_def slist_append)
  show ?thesis
  proof (cases "pe_start (pc_pool s d) + pe_length (pc_pool s d) = pe_start (pc_pool s v) \<and>
      pe_owner (pc_pool s d) = pe_owner (pc_pool s v)")
    case False
    then have "page_element_merge (Some d) (Some v) s = Some (-1, s)"
      by (simp only: page_element_merge_def prod.case option.case if_False)
    then show ?thesis using nx assms coalesced_refl[OF ok]
      by (intro exI[of _ "-1"] exI[of _ s] exI[of _ post]) simp
  next
    case True
    have dv: "d \<noteq> v" "v < 15" "d \<notin> set pre" "v \<notin> set pre" "d \<notin> set rest" "v \<notin> set rest"
      using ok Cons by (auto simp: elems_ok_def)
    have rg: "0 < pe_start (pc_pool s d)" "0 < pe_length (pc_pool s v)" "0 < pe_length (pc_pool s d)"
        "pe_start (pc_pool s v) + pe_length (pc_pool s v) \<le> 256" "d < 15" "bit (pc_used s) d"
      using ok Cons by (auto simp: elems_ok_def)
    define s' where "s' = (upd_elem d (\<lambda>p. p\<lparr>pe_length := pe_length p + pe_length (pc_pool s v),
        pe_next := pe_next (pc_pool s v)\<rparr>) s)\<lparr>pc_used := pc_used s AND NOT (2 ^ v)\<rparr>"
    have u: "u8 (pe_length (pc_pool s d) + pe_length (pc_pool s v)) =
        pe_length (pc_pool s d) + pe_length (pc_pool s v)"
      using rg True by (intro u8_id) linarith
    have run: "page_element_merge (Some d) (Some v) s = Some (0, s')"
      using True dv u by (simp add: page_element_merge_def page_element_free_def c_shl1_def s'_def
          upd_elem_def Let_def)
    have bits: "bit (pc_used s') i \<longleftrightarrow> bit (pc_used s) i \<and> i \<noteq> v" for i
      using dv(2) by (simp add: s'_def bit_clear1)
    have same: "pe_start (pc_pool s' i) = pe_start (pc_pool s i) \<and>
        pe_length (pc_pool s' i) = pe_length (pc_pool s i) \<and> bit (pc_used s') i = bit (pc_used s) i"
      if "i \<noteq> d" "i \<noteq> v" for i
      using that bits by (simp add: s'_def)
    have nin: "i \<noteq> d \<and> i \<noteq> v" if "i \<in> set (pre @ rest)" for i
      using that dv by auto
    have fr: "elems_ok s' (pre @ rest) = elems_ok s (pre @ rest)"
      by (rule elems_ok_frame(1)) (use same nin in blast)
    have fp: "pages_of s' pre = pages_of s pre"
      by (rule elems_ok_frame(2)) (use same nin in simp)
    have fq: "pages_of s' rest = pages_of s rest"
      by (rule elems_ok_frame(2)) (use same nin in simp)
    have rd: "rng s' d = rng s d \<union> rng s v" using True by (auto simp: rng_def s'_def)
    have "elems_ok s' [d]" using rg True bits dv by (simp add: elems_ok_single s'_def)
    moreover have "elems_ok s (pre @ rest)" "rng s d \<inter> pages_of s (pre @ rest) = {}"
        "rng s v \<inter> pages_of s (pre @ rest) = {}"
      using ok elems_ok_append[of s pre "d # v # rest"] elems_ok_append[of s pre rest]
        elems_ok_Cons[of s d "v # rest"] elems_ok_Cons[of s v rest] Cons by auto
    ultimately have "elems_ok s' (d # pre @ rest)"
      using fr fp fq dv rd elems_ok_Cons[of s' d "pre @ rest"] by auto
    then have ok': "elems_ok s' (pre @ d # rest)"
      by (rule elems_ok_mset) (use ok Cons in \<open>auto simp: elems_ok_def\<close>)
    have "linked s' p (pre @ d # rest)"
    proof -
      have sg: "sseg (\<lambda>i. pe_next (pc_pool s i)) p pre (Some d)"
        and tl: "slist (\<lambda>i. pe_next (pc_pool s i)) (pe_next (pc_pool s v)) rest"
        using assms(1) Cons by (auto simp: linked_def slist_append)
      have nxt: "pe_next (pc_pool s' i) = pe_next (pc_pool s i)" if "i \<noteq> d" for i
        using that by (simp add: s'_def)
      have "sseg (\<lambda>i. pe_next (pc_pool s' i)) p pre (Some d) = sseg (\<lambda>i. pe_next (pc_pool s i)) p pre (Some d)"
        by (rule sseg_cong) (use nxt dv in metis)
      moreover have "slist (\<lambda>i. pe_next (pc_pool s' i)) (pe_next (pc_pool s v)) rest =
          slist (\<lambda>i. pe_next (pc_pool s i)) (pe_next (pc_pool s v)) rest"
        by (rule slist_cong) (use nxt dv in metis)
      moreover have "pe_next (pc_pool s' d) = pe_next (pc_pool s v)" by (simp add: s'_def)
      ultimately show ?thesis using sg tl by (auto simp: linked_def slist_append)
    qed
    moreover have "coalesced s s' (pre @ d # post) (pre @ d # rest)"
      unfolding coalesced_def using ok' fp fq rd bits Cons dv by (auto simp: s'_def)
    ultimately show ?thesis using run nx Cons
      by (intro exI[of _ 0] exI[of _ s'] exI[of _ rest]) simp
  qed
qed

section \<open>Attaching, detaching, splitting\<close>

fun other :: "page_list \<Rightarrow> page_list" where
  "other FreeL = AllocL"
| "other AllocL = FreeL"

lemma attach_pos_spec:
  "linked s p xs \<Longrightarrow> page_attach_pos (pc_pool s) e p = Some None \<or>
   (\<exists>pre i post. xs = pre @ i # post \<and> page_attach_pos (pc_pool s) e p = Some (Some i))"
proof (induction xs arbitrary: p)
  case Nil
  then show ?case by (simp add: page_attach_pos.simps)
next
  case (Cons x xs)
  have p: "p = Some x" using Cons.prems by simp
  show ?case
  proof (cases "pe_start (pc_pool s e) < pe_start (pc_pool s x)")
    case False
    then have "page_attach_pos (pc_pool s) e p = Some (Some x)"
      by (simp add: p page_attach_pos.simps[of _ _ "Some x"])
    then show ?thesis by blast
  next
    case True
    then have eq: "page_attach_pos (pc_pool s) e p = page_attach_pos (pc_pool s) e (pe_next (pc_pool s x))"
      by (simp add: p page_attach_pos.simps[of _ _ "Some x"])
    show ?thesis using Cons.IH Cons.prems unfolding eq by (metis append_Cons linked_simps(2))
  qed
qed

definition attached :: "page_list \<Rightarrow> nat \<Rightarrow> page_common \<Rightarrow> nat list \<Rightarrow> page_common \<Rightarrow> nat list \<Rightarrow> bool" where
  "attached L e s xs s' xs' \<longleftrightarrow> linked s' (list_head L s') xs' \<and> elems_ok s' xs' \<and>
     set xs' \<subseteq> insert e (set xs) \<and> pages_of s' xs' = rng s e \<union> pages_of s xs \<and>
     (\<forall>i. i \<noteq> e \<longrightarrow> i \<notin> set xs \<longrightarrow> pc_pool s' i = pc_pool s i) \<and>
     (\<forall>i. bit (pc_used s') i \<longleftrightarrow> bit (pc_used s) i \<and> (i \<in> insert e (set xs) \<longrightarrow> i \<in> set xs')) \<and>
     (\<forall>L'. L' \<noteq> L \<longrightarrow> list_head L' s' = list_head L' s) \<and> pc_locked s' = pc_locked s"

text \<open>Linking in: the pages and the mask are as before, \<open>e\<close> is one more member.\<close>

lemma coalesced_attached:
  assumes "coalesced s1 s' ys xs'" and "linked s' (list_head L s') xs'" and "set ys = insert e (set xs)"
    and "\<And>i. pe_start (pc_pool s1 i) = pe_start (pc_pool s i) \<and> pe_length (pc_pool s1 i) = pe_length (pc_pool s i)"
    and "\<And>i. i \<noteq> e \<Longrightarrow> i \<notin> set xs \<Longrightarrow> pc_pool s1 i = pc_pool s i"
    and "pc_used s1 = pc_used s" and "pc_locked s1 = pc_locked s"
    and "\<And>L'. L' \<noteq> L \<Longrightarrow> list_head L' s1 = list_head L' s"
  shows "attached L e s xs s' xs'"
proof -
  have "rng s1 i = rng s i" for i using assms(4) by (simp add: rng_def)
  then have "pages_of s1 ys = rng s e \<union> pages_of s xs"
    using assms(3) by (auto simp: pages_of_def)
  then show ?thesis
    using assms unfolding attached_def coalesced_def by auto
qed

lemma attach_spec:
  assumes l: "linked s (list_head L s) xs" and ok: "elems_ok s (e # xs)"
  shows "\<exists>s' xs'. page_element_attach L e s = Some s' \<and> attached L e s xs s' xs'"
proof -
  consider (front) "page_attach_pos (pc_pool s) e (list_head L s) = Some None"
    | (after) pre i post where "xs = pre @ i # post"
        "page_attach_pos (pc_pool s) e (list_head L s) = Some (Some i)"
    using attach_pos_spec[OF l, of e] by blast
  then show ?thesis
  proof cases
    case front
    define s1 where "s1 = set_list_head L (Some e) (upd_elem e (\<lambda>p. p\<lparr>pe_next := list_head L s\<rparr>) s)"
    have same: "pe_start (pc_pool s1 i) = pe_start (pc_pool s i) \<and>
        pe_length (pc_pool s1 i) = pe_length (pc_pool s i) \<and> bit (pc_used s1) i = bit (pc_used s) i" for i
      by (simp add: s1_def)
    have "e \<notin> set xs" using ok by (simp add: elems_ok_def)
    then have "linked s1 (list_head L s) xs" using l
      by (subst linked_frame[of xs s1 s]) (auto simp: s1_def)
    then have l1: "linked s1 (list_head L s1) ([] @ e # xs)" by (simp add: s1_def)
    have ok1: "elems_ok s1 ([] @ e # xs)" using ok elems_ok_frame(1)[of "e # xs" s1 s] same by simp
    obtain r s' post' where m: "page_element_merge (Some e) (pe_next (pc_pool s1 e)) s1 = Some (r, s')"
        "linked s' (list_head L s1) (e # post')" "coalesced s1 s' (e # xs) (e # post')"
      using merge_spec[OF l1 ok1] by auto
    have "page_element_attach L e s = Some s'"
      using front m(1) by (simp add: page_element_attach_def page_element_merge_def s1_def)
    moreover have "attached L e s xs s' (e # post')"
      by (rule coalesced_attached[OF m(3)]) (use m(2,3) same in \<open>auto simp: coalesced_def s1_def\<close>)
    ultimately show ?thesis by blast
  next
    case after
    define s1 where "s1 = upd_elem i (\<lambda>p. p\<lparr>pe_next := Some e\<rparr>)
        (upd_elem e (\<lambda>p. p\<lparr>pe_next := pe_next (pc_pool s i)\<rparr>) s)"
    have same: "pe_start (pc_pool s1 j) = pe_start (pc_pool s j) \<and>
        pe_length (pc_pool s1 j) = pe_length (pc_pool s j) \<and> bit (pc_used s1) j = bit (pc_used s) j" for j
      by (simp add: s1_def)
    have d: "e \<notin> set xs" "e \<noteq> i" "i \<notin> set pre" "i \<notin> set post" "e \<notin> set pre" "e \<notin> set post"
      using ok after(1) by (auto simp: elems_ok_def)
    have nxt: "pe_next (pc_pool s1 j) = pe_next (pc_pool s j)" if "j \<noteq> i" "j \<noteq> e" for j
      using that by (simp add: s1_def)
    have "sseg (\<lambda>j. pe_next (pc_pool s1 j)) (list_head L s) pre (Some i) =
        sseg (\<lambda>j. pe_next (pc_pool s j)) (list_head L s) pre (Some i)"
      by (rule sseg_cong) (use nxt d in metis)
    moreover have "slist (\<lambda>j. pe_next (pc_pool s1 j)) (pe_next (pc_pool s i)) post =
        slist (\<lambda>j. pe_next (pc_pool s j)) (pe_next (pc_pool s i)) post"
      by (rule slist_cong) (use nxt d in metis)
    moreover have "pe_next (pc_pool s1 i) = Some e" "pe_next (pc_pool s1 e) = pe_next (pc_pool s i)"
      using d by (simp_all add: s1_def)
    moreover have hd1: "list_head K s1 = list_head K s" for K by (simp add: s1_def)
    ultimately have l1: "linked s1 (list_head L s1) (pre @ i # e # post)"
      using l after(1) by (auto simp: linked_def slist_append)
    have "elems_ok s1 (e # xs)" using ok elems_ok_frame(1)[of "e # xs" s1 s] same by simp
    then have ok1: "elems_ok s1 (pre @ i # e # post)"
      by (rule elems_ok_mset) (use ok after(1) in \<open>auto simp: elems_ok_def\<close>)
    obtain r s2 post2 where m: "page_element_merge (Some i) (pe_next (pc_pool s1 i)) s1 = Some (r, s2)"
        "linked s2 (list_head L s1) (pre @ i # post2)"
        "coalesced s1 s2 (pre @ i # e # post) (pre @ i # post2)"
        "r \<noteq> 0 \<longrightarrow> s2 = s1 \<and> post2 = e # post"
      using merge_spec[OF l1 ok1] by auto
    have hd2: "list_head L s2 = list_head L s1" using m(3) by (simp add: coalesced_def)
    have ok2: "elems_ok s2 (pre @ i # post2)" using m(3) by (simp add: coalesced_def)
    obtain r' s' xs' where m2: "page_element_merge (Some (if r = 0 then i else e))
          (pe_next (pc_pool s2 (if r = 0 then i else e))) s2 = Some (r', s')"
        "linked s' (list_head L s1) xs'" "coalesced s2 s' (pre @ i # post2) xs'"
    proof (cases "r = 0")
      case True
      with that merge_spec[OF m(2) ok2] show ?thesis by auto
    next
      case False
      then have "post2 = e # post" "s2 = s1" using m(4) by auto
      moreover have "linked s1 (list_head L s1) ((pre @ [i]) @ e # post)" "elems_ok s1 ((pre @ [i]) @ e # post)"
        using l1 ok1 by simp_all
      ultimately show ?thesis using that merge_spec[of s1 "list_head L s1" "pre @ [i]" e post] False by auto
    qed
    have co: "coalesced s1 s' (pre @ i # e # post) xs'" using coalesced_trans[OF m(3) m2(3)] .
    have "page_element_merge (Some i) (Some e) s1 = Some (r, s2)" using m(1) d by (simp add: s1_def)
    then have "page_element_attach L e s = Some s'"
      using after(2) m2(1) d by (auto simp: page_element_attach_def s1_def[symmetric] Let_def split: if_splits)
    moreover have "attached L e s xs s' xs'"
      by (rule coalesced_attached[OF co])
        (use m2(2) co same after(1) d hd1 in \<open>auto simp: coalesced_def s1_def\<close>)
    ultimately show ?thesis by blast
  qed
qed

text \<open>
  The whole pool: \<open>X\<close> gives the elements of both lists, \<open>zs\<close> are the elements a running
  operation has taken out of a list or out of the pool and not linked in yet.
\<close>

definition pool_rep :: "page_common \<Rightarrow> (page_list \<Rightarrow> nat list) \<Rightarrow> nat list \<Rightarrow> bool" where
  "pool_rep s X zs \<longleftrightarrow> (\<forall>L. linked s (list_head L s) (X L)) \<and>
     elems_ok s (zs @ X FreeL @ X AllocL) \<and>
     (\<forall>i. bit (pc_used s) i \<longleftrightarrow> i \<in> set (zs @ X FreeL @ X AllocL))"

lemma pool_rep_either:
  "elems_ok s (zs @ X FreeL @ X AllocL) \<longleftrightarrow> elems_ok s (zs @ X L @ X (other L))"
  "set (zs @ X FreeL @ X AllocL) = set (zs @ X L @ X (other L))"
  by (cases L; auto simp: elems_ok_append)+

lemma other_cases: "L' = L \<or> L' = other L"
  by (cases L; cases L') auto

lemma pool_repI:
  assumes "linked s (list_head L s) (X L)" and "linked s (list_head (other L) s) (X (other L))"
    and "elems_ok s (zs @ X L @ X (other L))"
    and "\<And>i. bit (pc_used s) i \<longleftrightarrow> i \<in> set (zs @ X L @ X (other L))"
  shows "pool_rep s X zs"
  unfolding pool_rep_def pool_rep_either(1)[of s zs X L] pool_rep_either(2)[of zs X L]
  using assms other_cases by metis

lemma other_neq [simp]: "other L \<noteq> L" "L \<noteq> other L"
  by (cases L; simp)+

lemma attach_rep_keep:
  assumes rep: "pool_rep s X (e # zs)"
  shows "\<exists>s' xs'. page_element_attach L e s = Some s' \<and> pool_rep s' (X(L := xs')) zs \<and>
    pages_of s' xs' = rng s e \<union> pages_of s (X L) \<and> pages_of s' (X (other L)) = pages_of s (X (other L)) \<and>
    (\<forall>i \<in> set zs \<union> set (X (other L)). pc_pool s' i = pc_pool s i) \<and> pc_locked s' = pc_locked s"
proof -
  have l: "linked s (list_head L s) (X L)" and lo: "linked s (list_head (other L) s) (X (other L))"
    using rep by (auto simp: pool_rep_def)
  have ok: "elems_ok s ((e # zs) @ X L @ X (other L))"
    using rep pool_rep_either(1) unfolding pool_rep_def by blast
  then have ok1: "elems_ok s (e # X L)" and ok2: "elems_ok s (zs @ X (other L))"
    and dj: "pages_of s (e # X L) \<inter> pages_of s (zs @ X (other L)) = {}"
      "set (e # X L) \<inter> set (zs @ X (other L)) = {}"
    using elems_ok_Cons[of s e "zs @ X L @ X (other L)"] elems_ok_Cons[of s e "X L"]
    by (auto simp: elems_ok_append)
  obtain s' xs' where run: "page_element_attach L e s = Some s'" and at: "attached L e s (X L) s' xs'"
    using attach_spec[OF l ok1] by blast
  have keep: "pc_pool s' i = pc_pool s i" if "i \<in> set (zs @ X (other L))" for i
    using at that dj(2) unfolding attached_def by auto
  have kbit: "bit (pc_used s') i = bit (pc_used s) i" if "i \<in> set (zs @ X (other L))" for i
    using at that dj(2) unfolding attached_def by auto
  have ok2': "elems_ok s' (zs @ X (other L))" and pg2: "pages_of s' (zs @ X (other L)) = pages_of s (zs @ X (other L))"
    using elems_ok_frame[of "zs @ X (other L)" s' s] keep kbit ok2 by auto
  have pgo: "pages_of s' (X (other L)) = pages_of s (X (other L))"
    by (rule elems_ok_frame(2)) (use keep kbit in auto)
  have atd: "linked s' (list_head L s') xs'" "elems_ok s' xs'" "set xs' \<subseteq> insert e (set (X L))"
    "pages_of s' xs' = rng s e \<union> pages_of s (X L)" "list_head (other L) s' = list_head (other L) s"
    using at unfolding attached_def by auto
  have "elems_ok s' (xs' @ zs @ X (other L))"
    using atd ok2' pg2 dj unfolding elems_ok_append[of s' xs'] by auto
  then have ok': "elems_ok s' (zs @ xs' @ X (other L))"
    by (auto simp: elems_ok_append)
  have lo': "linked s' (list_head (other L) s') (X (other L))"
    using lo atd(5) linked_frame[of "X (other L)" s' s] keep by simp
  have bits: "bit (pc_used s') i \<longleftrightarrow> i \<in> set (zs @ xs' @ X (other L))" for i
  proof -
    have "bit (pc_used s) i \<longleftrightarrow> i \<in> set ((e # zs) @ X L @ X (other L))"
      using rep unfolding pool_rep_def pool_rep_either(2)[of "e # zs" X L] by blast
    moreover have "bit (pc_used s') i \<longleftrightarrow> bit (pc_used s) i \<and> (i \<in> insert e (set (X L)) \<longrightarrow> i \<in> set xs')"
      using at unfolding attached_def by blast
    ultimately show ?thesis using dj(2) atd(3) unfolding set_append list.set by blast
  qed
  have "pool_rep s' (X(L := xs')) zs"
    by (rule pool_repI[of _ L]) (use ok' bits lo' atd(1) in simp_all)
  then show ?thesis using run atd pgo keep at
    by (intro exI[of _ s'] exI[of _ xs']) (auto simp: attached_def)
qed

lemma attach_rep:
  assumes rep: "pool_rep s X (e # zs)"
  shows "\<exists>s' xs'. page_element_attach L e s = Some s' \<and> pool_rep s' (X(L := xs')) zs \<and>
    pages_of s' xs' = rng s e \<union> pages_of s (X L) \<and> pages_of s' (X (other L)) = pages_of s (X (other L)) \<and>
    (\<forall>i \<in> set zs. pc_pool s' i = pc_pool s i) \<and> pc_locked s' = pc_locked s"
  using attach_rep_keep[OF rep, of L] by blast

lemma detach_pos_spec:
  "linked s p (pre @ e # post) \<Longrightarrow> e \<notin> set pre \<Longrightarrow>
   page_detach_pos (pc_pool s) e p prev = Some (Some e, if pre = [] then prev else Some (last pre))"
proof (induction pre arbitrary: p prev)
  case Nil
  then show ?case by (simp add: page_detach_pos.simps)
next
  case (Cons x xs)
  then have "p = Some x" "x \<noteq> e" "linked s (pe_next (pc_pool s x)) (xs @ e # post)" by auto
  with Cons show ?case by (simp add: page_detach_pos.simps[of _ _ "Some x"])
qed

lemma detach_rep:
  assumes rep: "pool_rep s X zs" and X: "X L = pre @ e # post"
  shows "\<exists>s'. page_element_detach L e s = Some s' \<and> pool_rep s' (X(L := pre @ post)) (e # zs) \<and>
    (\<forall>i. pe_start (pc_pool s' i) = pe_start (pc_pool s i) \<and> pe_length (pc_pool s' i) = pe_length (pc_pool s i)) \<and>
    pc_locked s' = pc_locked s"
proof -
  define N where "N = (\<lambda>i. pe_next (pc_pool s i))"
  have l: "linked s (list_head L s) (pre @ e # post)"
    and lo: "linked s (list_head (other L) s) (X (other L))"
    using rep X[symmetric] by (simp_all add: pool_rep_def)
  have ok: "elems_ok s (zs @ (pre @ e # post) @ X (other L))"
    using rep X pool_rep_either(1)[of s zs X L] unfolding pool_rep_def by simp
  then have dist: "distinct (zs @ pre @ e # post @ X (other L))" by (simp add: elems_ok_def)
  define s' where "s' = (if pre = [] then set_list_head L (N e) s
      else upd_elem (last pre) (\<lambda>q. q\<lparr>pe_next := N e\<rparr>) s)"
  have run: "page_element_detach L e s = Some s'"
    using detach_pos_spec[OF l] dist by (simp add: page_element_detach_def s'_def N_def)
  have same: "pe_start (pc_pool s' i) = pe_start (pc_pool s i) \<and>
      pe_length (pc_pool s' i) = pe_length (pc_pool s i) \<and> bit (pc_used s') i = bit (pc_used s) i" for i
    by (simp add: s'_def)
  have nx: "pe_next (pc_pool s' i) = N i" if "pre = [] \<or> i \<noteq> last pre" for i
    using that by (auto simp: s'_def N_def)
  have "linked s' (list_head L s') (pre @ post)"
  proof (cases pre rule: rev_cases)
    case Nil
    then have "linked s (N e) post" using l by (simp add: N_def)
    then show ?thesis using Nil linked_frame[of post s' s] nx by (simp add: s'_def N_def)
  next
    case (snoc qs q)
    have hd: "list_head L s' = list_head L s" using snoc by (simp add: s'_def)
    have nx': "pe_next (pc_pool s' i) = N i" if "i \<noteq> q" for i
      using nx[of i] that snoc by simp
    have "sseg N (list_head L s) qs (Some q)" "slist N (N e) post"
      using l snoc by (auto simp: linked_def slist_append sseg_append N_def)
    moreover have "sseg (\<lambda>i. pe_next (pc_pool s' i)) (list_head L s) qs (Some q) = sseg N (list_head L s) qs (Some q)"
      by (rule sseg_cong) (rule nx', use dist snoc in auto)
    moreover have "slist (\<lambda>i. pe_next (pc_pool s' i)) (N e) post = slist N (N e) post"
      by (rule slist_cong) (rule nx', use dist snoc in auto)
    moreover have "pe_next (pc_pool s' q) = N e" using snoc by (simp add: s'_def)
    ultimately show ?thesis using snoc hd by (auto simp: linked_def slist_append sseg_append)
  qed
  moreover have "linked s' (list_head (other L) s') (X (other L))"
  proof -
    have "list_head (other L) s' = list_head (other L) s" by (simp add: s'_def)
    moreover have "pe_next (pc_pool s' i) = pe_next (pc_pool s i)" if "i \<in> set (X (other L))" for i
    proof -
      have "set pre \<inter> set (X (other L)) = {}" using dist by auto
      then have "i \<noteq> last pre \<or> pre = []" using that by (metis disjoint_iff last_in_set)
      then show ?thesis using nx[of i] by (auto simp: N_def)
    qed
    ultimately show ?thesis using lo linked_frame[of "X (other L)" s' s] by simp
  qed
  moreover have "elems_ok s' ((e # zs) @ (pre @ post) @ X (other L))"
  proof -
    have "elems_ok s ((e # zs) @ (pre @ post) @ X (other L))"
      by (rule elems_ok_mset[OF ok]) (use dist in auto)
    then show ?thesis using elems_ok_frame(1)[of _ s' s] same by blast
  qed
  moreover have "bit (pc_used s') i \<longleftrightarrow> i \<in> set ((e # zs) @ (pre @ post) @ X (other L))" for i
    using same[of i] rep X pool_rep_either(2)[of zs X L] unfolding pool_rep_def by auto
  ultimately have "pool_rep s' (X(L := pre @ post)) (e # zs)"
    by (intro pool_repI[of _ L]) simp_all
  then show ?thesis using run same by (intro exI[of _ s']) (simp add: s'_def)
qed

lemma split_rep:
  assumes rep: "pool_rep s X zs" and v: "v \<in> set (zs @ X FreeL @ X AllocL)"
    and k: "0 < k" "k < pe_length (pc_pool s v)" and room: "\<exists>j<15. \<not> bit (pc_used s) j"
  shows "\<exists>n s'. page_element_split v k s = Some (Some n, s') \<and> pool_rep s' X (n # zs) \<and> n \<noteq> v \<and>
    pe_start (pc_pool s' n) = pe_start (pc_pool s v) \<and> pe_length (pc_pool s' n) = k \<and>
    pe_start (pc_pool s' v) = pe_start (pc_pool s v) + k \<and>
    pe_length (pc_pool s' v) = pe_length (pc_pool s v) - k \<and>
    (\<forall>i. i \<noteq> n \<longrightarrow> i \<noteq> v \<longrightarrow> pc_pool s' i = pc_pool s i) \<and> pc_locked s' = pc_locked s"
proof -
  define all where "all = zs @ X FreeL @ X AllocL"
  have ok: "elems_ok s all" and bits: "bit (pc_used s) i \<longleftrightarrow> i \<in> set all" for i
    using rep by (auto simp: pool_rep_def all_def)
  obtain n where n: "page_element_alloc s = Some (Some n, s\<lparr>pc_used := pc_used s OR 2 ^ n\<rparr>)"
      "n < 15" "\<not> bit (pc_used s) n"
    using page_element_alloc_free[OF room] by blast
  have va: "v \<in> set all" using v by (simp add: all_def)
  then have nv: "n \<noteq> v" "n \<notin> set all" using n(3) bits by auto
  have dist: "distinct all" using ok by (simp add: elems_ok_def)
  have lim: "0 < pe_start (pc_pool s v)" "pe_start (pc_pool s v) + pe_length (pc_pool s v) \<le> 256" "v < 15"
    using ok va by (auto simp: elems_ok_def)
  define s' where "s' = upd_elem v (\<lambda>p. p\<lparr>pe_start := pe_start p + k, pe_length := pe_length p - k\<rparr>)
     (upd_elem n (\<lambda>p. p\<lparr>pe_start := pe_start (pc_pool s v), pe_length := k\<rparr>)
        (s\<lparr>pc_used := pc_used s OR 2 ^ n\<rparr>))"
  have run: "page_element_split v k s = Some (Some n, s')"
    using n(1) k lim nv by (simp add: page_element_split_def s'_def upd_elem_def Let_def fun_upd_twist)
  have bits': "bit (pc_used s') i \<longleftrightarrow> bit (pc_used s) i \<or> i = n" for i
    using n(2) by (simp add: s'_def bit_set1)
  have same: "pc_pool s' i = pc_pool s i" if "i \<noteq> n" "i \<noteq> v" for i using that by (simp add: s'_def)
  have nx: "pe_next (pc_pool s' i) = pe_next (pc_pool s i)" if "i \<noteq> n" for i
    using that nv by (simp add: s'_def)
  define rest where "rest = filter (\<lambda>i. i \<noteq> v) all"
  have "elems_ok s (v # rest)"
    by (rule elems_ok_mset[OF ok]) (use dist va in \<open>auto simp: rest_def\<close>)
  then have r: "elems_ok s rest" "rng s v \<inter> pages_of s rest = {}" using elems_ok_Cons[of s v rest] by blast+
  have fr: "elems_ok s' rest" "pages_of s' rest = pages_of s rest"
  proof -
    have *: "pe_start (pc_pool s' i) = pe_start (pc_pool s i) \<and> pe_length (pc_pool s' i) = pe_length (pc_pool s i)
        \<and> bit (pc_used s') i = bit (pc_used s) i" if "i \<in> set rest" for i
    proof -
      have "i \<noteq> n" "i \<noteq> v" using that nv by (auto simp: rest_def)
      then show ?thesis using same[of i] bits'[of i] by simp
    qed
    show "elems_ok s' rest" using elems_ok_frame(1)[of rest s' s] * r(1) by blast
    show "pages_of s' rest = pages_of s rest" using elems_ok_frame(2)[of rest s' s] * by blast
  qed
  have "rng s v = rng s' n \<union> rng s' v" "rng s' n \<inter> rng s' v = {}"
    using k nv by (auto simp: rng_def s'_def)
  moreover have "elems_ok s' [n]" "elems_ok s' [v]"
    using lim k nv n(2) bits' va bits by (auto simp: elems_ok_single s'_def)
  ultimately have "elems_ok s' (n # v # rest)"
    using r fr nv elems_ok_Cons[of s' n "v # rest"] elems_ok_Cons[of s' v rest] by (auto simp: rest_def)
  then have ok': "elems_ok s' (n # all)"
    by (rule elems_ok_mset) (use dist nv va in \<open>auto simp: rest_def\<close>)
  have links: "linked s' (list_head L s') (X L)" for L
  proof -
    have "n \<notin> set (X L)" using nv(2) by (cases L) (auto simp: all_def)
    then have "linked s' (list_head L s) (X L) = linked s (list_head L s) (X L)"
      by (intro linked_frame) (rule nx, auto)
    then show ?thesis using rep by (simp add: pool_rep_def s'_def)
  qed
  have "bit (pc_used s') i \<longleftrightarrow> i \<in> set (n # all)" for i using bits[of i] bits'[of i] by auto
  then have "pool_rep s' X (n # zs)"
    using ok' links unfolding pool_rep_def all_def by simp
  then show ?thesis using run nv same by (intro exI[of _ n] exI[of _ s']) (simp add: s'_def)
qed

lemma pool_rep_lock:
  "pool_rep (s\<lparr>pc_locked := b\<rparr>) X zs = pool_rep s X zs" "pages_of (s\<lparr>pc_locked := b\<rparr>) xs = pages_of s xs"
  by (simp_all add: pool_rep_def elems_ok_def linked_def rng_def pages_of_def)

lemma pool_rep_owner:
  "pool_rep (upd_elem e (\<lambda>p. p\<lparr>pe_callback := c, pe_owner := w\<rparr>) s) X zs = pool_rep s X zs"
proof -
  let ?t = "upd_elem e (\<lambda>p. p\<lparr>pe_callback := c, pe_owner := w\<rparr>) s"
  have "elems_ok ?t xs = elems_ok s xs" for xs by (rule elems_ok_frame(1)) simp
  moreover have "linked ?t p xs = linked s p xs" for p xs by (rule linked_frame) simp
  ultimately show ?thesis by (simp add: pool_rep_def)
qed

lemma first_fit_spec:
  "linked s p xs \<Longrightarrow> page_first_fit (pc_pool s) k p =
     Some (List.find (\<lambda>i. k \<le> pe_length (pc_pool s i)) xs)"
proof (induction xs arbitrary: p)
  case Nil
  then show ?case by (simp add: page_first_fit.simps)
next
  case (Cons x xs)
  then show ?case by (simp add: page_first_fit.simps[of _ _ "Some x"])
qed

lemma page_containing_spec:
  "linked s p xs \<Longrightarrow> page_containing (pc_pool s) pg p = Some (List.find (\<lambda>i. pg \<in> rng s i) xs)"
proof (induction xs arbitrary: p)
  case Nil
  then show ?case by (simp add: page_containing.simps)
next
  case (Cons x xs)
  then have "p = Some x" "linked s (pe_next (pc_pool s x)) xs" by auto
  with Cons.IH show ?case by (subst page_containing.simps) (simp add: rng_def)
qed

lemma find_unique:
  assumes "c \<in> set xs" and "P c" and "\<And>i. i \<in> set xs \<Longrightarrow> P i \<Longrightarrow> i = c"
  shows "List.find P xs = Some c"
proof (cases "List.find P xs")
  case None
  then show ?thesis using assms(1,2) unfolding find_None_iff by blast
next
  case (Some d)
  then have "d \<in> set xs" "P d" unfolding find_Some_iff by auto
  with Some assms(3) show ?thesis by blast
qed

section \<open>Initialisation, allocation, release\<close>

definition page_ok :: "page_common \<Rightarrow> (page_list \<Rightarrow> nat list) \<Rightarrow> bool" where
  "page_ok s X \<longleftrightarrow> pool_rep s X [] \<and> \<not> pc_locked s"

abbreviation free_pages :: "page_common \<Rightarrow> (page_list \<Rightarrow> nat list) \<Rightarrow> nat set" where
  "free_pages s X \<equiv> pages_of s (X FreeL)"

abbreviation alloc_pages :: "page_common \<Rightarrow> (page_list \<Rightarrow> nat list) \<Rightarrow> nat set" where
  "alloc_pages s X \<equiv> pages_of s (X AllocL)"

lemma page_ok_pages:
  assumes "page_ok s X"
  shows "free_pages s X \<inter> alloc_pages s X = {}" and "i \<in> set (X L) \<Longrightarrow> 0 \<notin> rng s i"
proof -
  have ok: "elems_ok s (X FreeL @ X AllocL)" using assms by (simp add: page_ok_def pool_rep_def)
  then show "free_pages s X \<inter> alloc_pages s X = {}" by (simp add: elems_ok_append)
  show "0 \<notin> rng s i" if "i \<in> set (X L)"
    using ok that by (cases L) (auto simp: elems_ok_def rng_def)
qed

text \<open>\<open>page_init\<close> on the zeroed state succeeds and makes exactly the given pages free.\<close>

theorem page_init_all_free:
  assumes "0 < start" and "0 < n" and "start + n \<le> 256"
  shows "\<exists>s X. page_init start n page_zero = Some s \<and> page_ok s X \<and>
    free_pages s X = {start ..< start + n} \<and> alloc_pages s X = {}"
proof -
  obtain e where e: "page_element_alloc page_zero = Some (Some e, page_zero\<lparr>pc_used := pc_used page_zero OR 2 ^ e\<rparr>)"
      "e < 15"
  proof -
    have "\<exists>j<15. \<not> bit (pc_used page_zero) j" by (rule exI[of _ 0]) (simp add: page_zero_def)
    from page_element_alloc_free[OF this] show ?thesis using that by blast
  qed
  define s2 where "s2 = upd_elem e (\<lambda>p. p\<lparr>pe_start := start, pe_length := n, pe_owner := None\<rparr>)
     (page_zero\<lparr>pc_used := pc_used page_zero OR 2 ^ e\<rparr>)"
  have lh: "list_head L s2 = None" for L by (cases L) (simp_all add: s2_def page_zero_def)
  have u: "bit (pc_used s2) i \<longleftrightarrow> i = e" for i
    using e(2) by (simp add: s2_def page_zero_def bit_mask1)
  have "pool_rep s2 (\<lambda>_. []) [e]"
    unfolding pool_rep_def using lh u e(2) assms by (simp add: elems_ok_single) (simp add: s2_def)
  from attach_rep[OF this, of FreeL] obtain s' xs' where s':
      "page_element_attach FreeL e s2 = Some s'" "pool_rep s' ((\<lambda>_. [])(FreeL := xs')) []"
      "pages_of s' xs' = rng s2 e" "pc_locked s' = pc_locked s2" by auto
  have "page_init start n page_zero = Some (s'\<lparr>pc_locked := False\<rparr>)"
    using e(1) s'(1) by (simp add: page_init_def s2_def)
  moreover have "rng s2 e = {start ..< start + n}" by (simp add: rng_def s2_def)
  ultimately show ?thesis using s'
    by (intro exI[of _ "s'\<lparr>pc_locked := False\<rparr>"] exI[of _ "(\<lambda>_. [])(FreeL := xs')"])
      (simp add: page_ok_def pool_rep_lock)
qed

lemma detach_take:
  assumes rep: "pool_rep s X zs" and c: "c \<in> set (X L)"
  shows "\<exists>s1 X1. page_element_detach L c s = Some s1 \<and> pool_rep s1 X1 (c # zs) \<and>
    pages_of s1 (X1 L) = pages_of s (X L) - rng s c \<and>
    pages_of s1 (X1 (other L)) = pages_of s (X (other L)) \<and>
    (\<forall>i. pe_start (pc_pool s1 i) = pe_start (pc_pool s i) \<and> pe_length (pc_pool s1 i) = pe_length (pc_pool s i)) \<and>
    pc_locked s1 = pc_locked s"
proof -
  obtain pre post where X: "X L = pre @ c # post" using c by (meson split_list)
  from detach_rep[OF rep X] obtain s1 where s1: "page_element_detach L c s = Some s1"
      "pool_rep s1 (X(L := pre @ post)) (c # zs)"
      "\<And>i. pe_start (pc_pool s1 i) = pe_start (pc_pool s i) \<and> pe_length (pc_pool s1 i) = pe_length (pc_pool s i)"
      "pc_locked s1 = pc_locked s" by auto
  have r: "rng s1 i = rng s i" for i using s1(3)[of i] by (simp add: rng_def)
  then have p: "pages_of s1 xs = pages_of s xs" for xs by (simp add: pages_of_def)
  have "rng s c \<inter> pages_of s (pre @ post) = {}"
  proof -
    have "elems_ok s (zs @ (pre @ c # post) @ X (other L))"
      using rep X pool_rep_either(1)[of s zs X L] unfolding pool_rep_def by simp
    then have ok: "elems_ok s (pre @ c # post)" unfolding elems_ok_append by blast
    have "elems_ok s (c # pre @ post)"
      by (rule elems_ok_mset[OF ok]) (use ok in \<open>auto simp: elems_ok_def\<close>)
    then show ?thesis using elems_ok_Cons[of s c "pre @ post"] by blast
  qed
  then have "pages_of s1 (pre @ post) = pages_of s (X L) - rng s c"
    using X p by auto
  then show ?thesis using s1 p
    by (intro exI[of _ s1] exI[of _ "X(L := pre @ post)"]) simp
qed

lemma split_take:
  assumes rep: "pool_rep s X []" and c: "c \<in> set (X L)" and k: "0 < k" "k < pe_length (pc_pool s c)"
    and room: "\<exists>j<15. \<not> bit (pc_used s) j"
  shows "\<exists>n s1. page_element_split c k s = Some (Some n, s1) \<and> pool_rep s1 X [n] \<and>
      pe_start (pc_pool s1 n) = pe_start (pc_pool s c) \<and> pe_length (pc_pool s1 n) = k \<and>
      pe_start (pc_pool s1 c) = pe_start (pc_pool s c) + k \<and>
      pe_length (pc_pool s1 c) = pe_length (pc_pool s c) - k \<and>
      pages_of s1 (X L) = pages_of s (X L) - rng s1 n \<and>
      pages_of s1 (X (other L)) = pages_of s (X (other L)) \<and> pc_locked s1 = pc_locked s"
proof -
  have cf: "c \<in> set ([] @ X FreeL @ X AllocL)" using c by (cases L) auto
  from split_rep[OF rep cf k room] obtain n s1 where s1:
      "page_element_split c k s = Some (Some n, s1)" "pool_rep s1 X [n]" "n \<noteq> c"
      "pe_start (pc_pool s1 n) = pe_start (pc_pool s c)" "pe_length (pc_pool s1 n) = k"
      "pe_start (pc_pool s1 c) = pe_start (pc_pool s c) + k"
      "pe_length (pc_pool s1 c) = pe_length (pc_pool s c) - k"
      "\<And>i. i \<noteq> n \<Longrightarrow> i \<noteq> c \<Longrightarrow> pc_pool s1 i = pc_pool s i" "pc_locked s1 = pc_locked s" by auto
  have ok: "elems_ok s1 ([n] @ X L @ X (other L))"
    using s1(2) pool_rep_either(1)[of s1 "[n]" X L] unfolding pool_rep_def by blast
  then have nin: "n \<notin> set (X L @ X (other L))" "c \<notin> set (X (other L))"
    using c by (auto simp: elems_ok_def)
  have dj: "rng s1 n \<inter> pages_of s1 (X L) = {}"
    using ok elems_ok_Cons[of s1 n "X L @ X (other L)"] by auto
  have r: "rng s1 i = rng s i" if "i \<in> set (X L @ X (other L))" "i \<noteq> c" for i
  proof -
    have "i \<noteq> n" using that(1) nin(1) by blast
    with s1(8)[OF this that(2)] show ?thesis by (simp add: rng_def)
  qed
  have rc: "rng s c = rng s1 n \<union> rng s1 c" using k s1(4-7) by (auto simp: rng_def)
  have "pages_of s (X L) = pages_of s1 (X L) \<union> rng s1 n"
  proof -
    have "pages_of s (X L) = rng s c \<union> (\<Union>i \<in> set (X L) - {c}. rng s i)"
      "pages_of s1 (X L) = rng s1 c \<union> (\<Union>i \<in> set (X L) - {c}. rng s1 i)"
      using c unfolding pages_of_def by blast+
    moreover have "(\<Union>i \<in> set (X L) - {c}. rng s1 i) = (\<Union>i \<in> set (X L) - {c}. rng s i)"
      using r by simp
    ultimately show ?thesis using rc by auto
  qed
  then have "pages_of s1 (X L) = pages_of s (X L) - rng s1 n" using dj by auto
  moreover have "pages_of s1 (X (other L)) = pages_of s (X (other L))"
  proof -
    have "rng s1 i = rng s i" if "i \<in> set (X (other L))" for i
      by (rule r) (use that nin(2) in auto)
    then show ?thesis by (simp add: pages_of_def)
  qed
  ultimately show ?thesis using s1 by (intro exI[of _ n] exI[of _ s1]) simp
qed

lemma page_alloc_take:
  assumes rep: "pool_rep s X []" and c: "c \<in> set (X FreeL)" "k \<le> pe_length (pc_pool s c)" "0 < k"
    and room: "\<exists>j<15. \<not> bit (pc_used s) j"
  shows "\<exists>e s1 X1. (if pe_length (pc_pool s c) = k
        then do { s1 \<leftarrow> page_element_detach FreeL c s; Some (Some c, s1) }
        else page_element_split c k s) = Some (Some e, s1) \<and> pool_rep s1 X1 [e] \<and>
      rng s1 e = {pe_start (pc_pool s c) ..< pe_start (pc_pool s c) + k} \<and>
      pe_start (pc_pool s1 e) = pe_start (pc_pool s c) \<and>
      pages_of s1 (X1 FreeL) = pages_of s (X FreeL) - rng s1 e \<and>
      pages_of s1 (X1 AllocL) = pages_of s (X AllocL) \<and> pc_locked s1 = pc_locked s"
proof (cases "pe_length (pc_pool s c) = k")
  case True
  with detach_take[OF rep c(1)] show ?thesis by (auto simp: rng_def)
next
  case False
  then have "k < pe_length (pc_pool s c)" using c by simp
  from split_take[OF rep c(1) c(3) this room] False show ?thesis by (auto simp: rng_def)
qed

text \<open>
  C29. \<open>page_alloc\<close>: as long as one of the 15 usable elements is left, the allocation returns
  page 0 and changes nothing exactly if no free element is large enough; otherwise it returns
  the first of \<open>k\<close> consecutive free pages and moves exactly these from free to allocated.
\<close>

theorem page_alloc_moves:
  assumes "page_ok s X" and "0 < k" and "\<exists>j<15. \<not> bit (pc_used s) j"
  shows "\<exists>p s' X'. page_alloc owner k s = Some (p, s') \<and> page_ok s' X' \<and>
    (p = 0 \<longleftrightarrow> (\<forall>i \<in> set (X FreeL). pe_length (pc_pool s i) < k)) \<and> (p = 0 \<longrightarrow> s' = s) \<and>
    (p \<noteq> 0 \<longrightarrow> {p ..< p + k} \<subseteq> free_pages s X \<and> free_pages s' X' = free_pages s X - {p ..< p + k} \<and>
       alloc_pages s' X' = alloc_pages s X \<union> {p ..< p + k})"
proof -
  define t where "t = s\<lparr>pc_locked := True\<rparr>"
  have lock: "page_lock s = Some t" "page_unlock t = s" using assms(1)
    by (simp_all add: page_lock_def page_ok_def t_def page_unlock_def)
  have rep: "pool_rep t X []" using assms(1) by (simp add: t_def pool_rep_lock page_ok_def)
  have fit: "page_first_fit (pc_pool t) k (pc_free t) = Some (List.find (\<lambda>i. k \<le> pe_length (pc_pool s i)) (X FreeL))"
  proof -
    have "linked t (pc_free t) (X FreeL)" using rep unfolding pool_rep_def by (metis list_head.simps(1))
    from first_fit_spec[OF this] show ?thesis by (simp add: t_def)
  qed
  show ?thesis
  proof (cases "List.find (\<lambda>i. k \<le> pe_length (pc_pool s i)) (X FreeL)")
    case None
    then have "page_alloc owner k s = Some (0, s)"
      using fit lock by (simp add: page_alloc_def page_alloc_callback_def)
    with None assms(1) show ?thesis by (auto simp: find_None_iff not_le)
  next
    case (Some c)
    then have c: "c \<in> set (X FreeL)" "k \<le> pe_length (pc_pool t c)"
      by (auto simp: find_Some_iff t_def)
    from page_alloc_take[OF rep c assms(2)] assms(3) obtain e s1 X1 where s1:
        "(if pe_length (pc_pool t c) = k then do { s1 \<leftarrow> page_element_detach FreeL c t; Some (Some c, s1) }
          else page_element_split c k t) = Some (Some e, s1)" "pool_rep s1 X1 [e]"
        "rng s1 e = {pe_start (pc_pool t c) ..< pe_start (pc_pool t c) + k}"
        "pe_start (pc_pool s1 e) = pe_start (pc_pool t c)"
        "pages_of s1 (X1 FreeL) = pages_of t (X FreeL) - rng s1 e"
        "pages_of s1 (X1 AllocL) = pages_of t (X AllocL)" "pc_locked s1 = pc_locked t"
      by (auto simp: t_def)
    define s2 where "s2 = upd_elem e (\<lambda>p. p\<lparr>pe_callback := None, pe_owner := owner\<rparr>) s1"
    have r2: "rng s2 i = rng s1 i" for i by (simp add: rng_def s2_def)
    then have p2: "pages_of s2 xs = pages_of s1 xs" for xs by (simp add: pages_of_def)
    from attach_rep[of s2 X1 e "[]" AllocL] s1(2) obtain s3 xs' where s3:
        "page_element_attach AllocL e s2 = Some s3" "pool_rep s3 (X1(AllocL := xs')) []"
        "pages_of s3 xs' = rng s1 e \<union> pages_of s1 (X1 AllocL)" "pages_of s3 (X1 FreeL) = pages_of s1 (X1 FreeL)"
      by (auto simp: s2_def pool_rep_owner r2[unfolded s2_def] p2[unfolded s2_def])
    define p where "p = pe_start (pc_pool t c)"
    have run: "page_alloc owner k s = Some (p, page_unlock s3)"
      using lock fit Some s1(1) s3(1) s1(4)
      by (simp add: page_alloc_def page_alloc_callback_def s2_def p_def)
    have "rng t c \<subseteq> free_pages s X" "pc_pool t = pc_pool s" using c(1) by (auto simp: pages_of_def rng_def t_def)
    then have "{p ..< p + k} \<subseteq> free_pages s X" using c(2) by (auto simp: p_def rng_def)
    moreover have "p \<noteq> 0"
      using rep c(1) by (auto simp: p_def pool_rep_def elems_ok_def)
    moreover have "\<not> (\<forall>i \<in> set (X FreeL). pe_length (pc_pool s i) < k)"
      using c unfolding not_less[symmetric] t_def by auto
    moreover have "pages_of t xs = pages_of s xs" for xs by (simp add: t_def pool_rep_lock)
    ultimately show ?thesis using run s1 s3
      by (intro exI[of _ p] exI[of _ "page_unlock s3"] exI[of _ "X1(AllocL := xs')"])
        (auto simp: page_unlock_def pool_rep_lock page_ok_def p_def)
  qed
qed

lemma pool_rep_swap:
  assumes "pool_rep s X (a # b # zs)"
  shows "pool_rep s X (b # a # zs)"
proof -
  have ok: "elems_ok s ((a # b # zs) @ X FreeL @ X AllocL)" using assms by (simp add: pool_rep_def)
  have "elems_ok s ((b # a # zs) @ X FreeL @ X AllocL)"
    by (rule elems_ok_mset[OF ok]) (use ok in \<open>auto simp: elems_ok_def\<close>)
  then show ?thesis using assms unfolding pool_rep_def by auto
qed

lemma page_free_take_spec:
  assumes rep: "pool_rep s X []" and c: "c \<in> set (X AllocL)" and k: "0 < k"
    and rg: "pe_start (pc_pool s c) \<le> pg" "pg + k \<le> pe_start (pc_pool s c) + pe_length (pc_pool s c)"
      "pg = pe_start (pc_pool s c) \<or> pg + k = pe_start (pc_pool s c) + pe_length (pc_pool s c)"
    and room: "\<exists>j<15. \<not> bit (pc_used s) j"
  shows "\<exists>e s1 X1. page_free_take c pg k s = Some (e, s1) \<and> pool_rep s1 X1 [e] \<and>
      pe_start (pc_pool s1 e) = pg \<and> pe_length (pc_pool s1 e) = k \<and>
      pages_of s1 (X1 AllocL) = pages_of s (X AllocL) - rng s1 e \<and>
      pages_of s1 (X1 FreeL) = pages_of s (X FreeL) \<and> pc_locked s1 = pc_locked s"
proof -
  consider (split) "pe_start (pc_pool s c) = pg" "k < pe_length (pc_pool s c)"
    | (whole) "pe_start (pc_pool s c) = pg" "k = pe_length (pc_pool s c)"
    | (tail) "pe_start (pc_pool s c) < pg" "pg + k = pe_start (pc_pool s c) + pe_length (pc_pool s c)"
    using rg by linarith
  then show ?thesis
  proof cases
    case split
    with split_take[OF rep c k split(2) room] show ?thesis by (auto simp: page_free_take_def)
  next
    case whole
    with detach_take[OF rep c] show ?thesis by (auto simp: page_free_take_def rng_def)
  next
    case tail
    define m where "m = pg - pe_start (pc_pool s c)"
    have m: "0 < m" "m < pe_length (pc_pool s c)" using tail k by (auto simp: m_def)
    from split_take[OF rep c m room] obtain t s1 where s1:
        "page_element_split c m s = Some (Some t, s1)" "pool_rep s1 X [t]"
        "pe_start (pc_pool s1 t) = pe_start (pc_pool s c)" "pe_length (pc_pool s1 t) = m"
        "pe_start (pc_pool s1 c) = pe_start (pc_pool s c) + m"
        "pe_length (pc_pool s1 c) = pe_length (pc_pool s c) - m"
        "pages_of s1 (X AllocL) = pages_of s (X AllocL) - rng s1 t"
        "pages_of s1 (X (other AllocL)) = pages_of s (X (other AllocL))" "pc_locked s1 = pc_locked s"
      by blast
    have cm: "pe_start (pc_pool s1 c) = pg" "pe_length (pc_pool s1 c) = k"
      using s1(5,6) tail by (simp_all add: m_def)
    have tm: "rng s1 t = {pe_start (pc_pool s c) ..< pg}"
      using s1(3,4) tail by (simp add: rng_def m_def)
    from detach_take[OF s1(2) c] obtain s2 X2 where s2:
        "page_element_detach AllocL c s1 = Some s2" "pool_rep s2 X2 (c # [t])"
        "pages_of s2 (X2 AllocL) = pages_of s1 (X AllocL) - rng s1 c"
        "pages_of s2 (X2 (other AllocL)) = pages_of s1 (X (other AllocL))"
        "\<forall>i. pe_start (pc_pool s2 i) = pe_start (pc_pool s1 i) \<and> pe_length (pc_pool s2 i) = pe_length (pc_pool s1 i)"
        "pc_locked s2 = pc_locked s1"
      by blast
    have r2: "rng s2 t = rng s1 t" using s2(5) by (simp add: rng_def)
    from attach_rep[OF pool_rep_swap[OF s2(2)], of AllocL] obtain s3 xs3 where s3:
        "page_element_attach AllocL t s2 = Some s3" "pool_rep s3 (X2(AllocL := xs3)) [c]"
        "pages_of s3 xs3 = rng s2 t \<union> pages_of s2 (X2 AllocL)"
        "pages_of s3 (X2 (other AllocL)) = pages_of s2 (X2 (other AllocL))"
        "\<forall>i \<in> set [c]. pc_pool s3 i = pc_pool s2 i" "pc_locked s3 = pc_locked s2" by blast
    have e: "pe_start (pc_pool s3 c) = pg" "pe_length (pc_pool s3 c) = k"
      using cm s2(5) s3(5) by simp_all
    have run: "page_free_take c pg k s = Some (c, s3)"
      using tail s1(1) s2(1) s3(1) e by (simp add: page_free_take_def m_def)
    have "rng s c \<subseteq> pages_of s (X AllocL)" "rng s1 t \<subseteq> rng s c" "rng s1 t \<inter> rng s1 c = {}"
      using c cm tm tail by (auto simp: pages_of_def rng_def)
    moreover have "rng s3 c = rng s1 c" using e cm by (simp add: rng_def)
    ultimately have "pages_of s3 xs3 = pages_of s (X AllocL) - rng s3 c"
      using s3(3) s2(3) s1(7) r2 by auto
    then show ?thesis using run s3 e s2 s1
      by (intro exI[of _ c] exI[of _ s3] exI[of _ "X2(AllocL := xs3)"]) simp
  qed
qed

lemma page_containing_elem:
  assumes ok: "page_ok s X" and c: "c \<in> set (X AllocL)" and pg: "pg \<in> rng s c"
  shows "page_containing (pc_pool s) pg (pc_alloc s) = Some (Some c)"
proof -
  have rep: "pool_rep s X []" using ok by (simp add: page_ok_def)
  have "linked s (pc_alloc s) (X AllocL)" using rep unfolding pool_rep_def by (metis list_head.simps(2))
  from page_containing_spec[OF this]
  have f: "page_containing (pc_pool s) pg (pc_alloc s) = Some (List.find (\<lambda>i. pg \<in> rng s i) (X AllocL))" .
  have "List.find (\<lambda>i. pg \<in> rng s i) (X AllocL) = Some c"
  proof (rule find_unique[where P = "\<lambda>i. pg \<in> rng s i", OF c pg])
    fix i assume "i \<in> set (X AllocL)" "pg \<in> rng s i"
    moreover have "elems_ok s (X AllocL)" using rep by (simp add: pool_rep_def elems_ok_append)
    ultimately show "i = c" using c pg unfolding elems_ok_def by blast
  qed
  then show ?thesis using f by simp
qed

text \<open>
  C30. \<open>page_free\<close> on the whole, the first or the last pages of an allocated element: exactly
  these pages move from allocated to free, for the element may be split or merged.
\<close>

theorem page_free_moves:
  assumes ok: "page_ok s X" and c: "c \<in> set (X AllocL)" and k: "0 < k"
    and rg: "pe_start (pc_pool s c) \<le> pg" "pg + k \<le> pe_start (pc_pool s c) + pe_length (pc_pool s c)"
      "pg = pe_start (pc_pool s c) \<or> pg + k = pe_start (pc_pool s c) + pe_length (pc_pool s c)"
    and room: "\<exists>j<15. \<not> bit (pc_used s) j"
  shows "\<exists>s' X'. page_free pg k s = Some s' \<and> page_ok s' X' \<and>
    free_pages s' X' = free_pages s X \<union> {pg ..< pg + k} \<and>
    alloc_pages s' X' = alloc_pages s X - {pg ..< pg + k}"
proof -
  define t where "t = s\<lparr>pc_locked := True\<rparr>"
  have lock: "page_lock s = Some t" using ok by (simp add: page_lock_def page_ok_def t_def)
  have rep: "pool_rep t X []" using ok by (simp add: t_def pool_rep_lock page_ok_def)
  have tp: "pages_of t xs = pages_of s xs" for xs by (simp add: t_def pool_rep_lock)
  have "pg \<in> rng s c" using rg k by (auto simp: rng_def)
  note f = page_containing_elem[OF ok c this]
  have tp0: "pc_pool t = pc_pool s" by (simp add: t_def)
  have "pe_start (pc_pool t c) \<le> pg" "pg + k \<le> pe_start (pc_pool t c) + pe_length (pc_pool t c)"
      "pg = pe_start (pc_pool t c) \<or> pg + k = pe_start (pc_pool t c) + pe_length (pc_pool t c)"
      "\<exists>j<15. \<not> bit (pc_used t) j" using rg room by (simp_all add: t_def)
  from page_free_take_spec[OF rep c k this] obtain e s1 X1 where s1:
      "page_free_take c pg k t = Some (e, s1)" "pool_rep s1 X1 [e]"
      "pe_start (pc_pool s1 e) = pg" "pe_length (pc_pool s1 e) = k"
      "pages_of s1 (X1 AllocL) = pages_of t (X AllocL) - rng s1 e"
      "pages_of s1 (X1 FreeL) = pages_of t (X FreeL)" "pc_locked s1 = pc_locked t" by auto
  from attach_rep[OF s1(2), of FreeL] obtain s2 xs where s2:
      "page_element_attach FreeL e s1 = Some s2" "pool_rep s2 (X1(FreeL := xs)) []"
      "pages_of s2 xs = rng s1 e \<union> pages_of s1 (X1 FreeL)"
      "pages_of s2 (X1 AllocL) = pages_of s1 (X1 AllocL)" by auto
  have "elems_ok s (X FreeL @ X AllocL)" using ok by (simp add: page_ok_def pool_rep_def)
  then have "0 < pe_start (pc_pool s c)" "pe_start (pc_pool s c) + pe_length (pc_pool s c) \<le> 256"
    using c unfolding elems_ok_def by auto
  then have "k < 256" using rg by linarith
  then have "page_free_loop pg k (pc_alloc s) t = Some s2"
    using k f s1(1,4) s2(1) tp0
    by (simp add: page_free_loop.simps[of pg k] page_free_loop.simps[of _ 0])
  then have "page_free pg k s = Some (page_unlock s2)" using lock by (simp add: page_free_def t_def)
  moreover have "rng s1 e = {pg ..< pg + k}" using s1(3,4) by (simp add: rng_def)
  ultimately show ?thesis using s1 s2 tp
    by (intro exI[of _ "page_unlock s2"] exI[of _ "X1(FreeL := xs)"])
      (auto simp: page_unlock_def pool_rep_lock page_ok_def)
qed

section \<open>Concrete instances\<close>

text \<open>A pool with one element, the pages 16 to 19, on the given list.\<close>

definition page_demo :: "page_list \<Rightarrow> page_common" where
  "page_demo L = set_list_head L (Some 0)
     (upd_elem 0 (\<lambda>p. p\<lparr>pe_start := 16, pe_length := 4\<rparr>) (page_zero\<lparr>pc_used := 1\<rparr>))"

lemma page_demo_ok: "page_ok (page_demo L) ((\<lambda>_. [])(L := [0]))"
proof -
  have h: "list_head K (page_zero\<lparr>pc_used := 1\<rparr>) = None" for K by (cases K) (simp_all add: page_zero_def)
  have l: "linked (page_demo L) (list_head K (page_demo L)) (((\<lambda>_. [])(L := [0])) K)" for K
    using h[of K] by (auto simp: page_demo_def page_zero_def)
  have "elems_ok (page_demo L) [0]" by (simp add: elems_ok_single page_demo_def)
  moreover have "\<not> pc_locked (page_demo L)" by (simp add: page_demo_def page_zero_def)
  moreover have "bit (pc_used (page_demo L)) i \<longleftrightarrow> i = 0" for i by (simp add: page_demo_def bit_1_iff)
  moreover have "elems_ok (page_demo L) []" by (simp add: elems_ok_def)
  ultimately show ?thesis
    using l by (cases L) (simp_all add: page_ok_def pool_rep_def)
qed

lemma page_demo_room: "\<exists>j<15. \<not> bit (pc_used (page_demo L)) j"
  by (rule exI[of _ 1]) (simp add: page_demo_def bit_1_iff)

theorem page_init_all_free_witness:
  "\<exists>s X. page_init 16 238 page_zero = Some s \<and> page_ok s X \<and> free_pages s X = {16 ..< 254}"
  using page_init_all_free[of 16 238] by auto

theorem page_alloc_moves_witness:
  "\<exists>p s' X'. page_alloc None 2 (page_demo FreeL) = Some (p, s') \<and> page_ok s' X' \<and>
     card (alloc_pages s' X') = 2"
proof -
  have len: "pe_length (pc_pool (page_demo FreeL) 0) = 4" by (simp add: page_demo_def)
  obtain p s' X' where r: "page_alloc None 2 (page_demo FreeL) = Some (p, s')" "page_ok s' X'"
      "p = 0 \<longleftrightarrow> (\<forall>i \<in> set (((\<lambda>_. [])(FreeL := [0])) FreeL). pe_length (pc_pool (page_demo FreeL) i) < 2)"
      "p \<noteq> 0 \<longrightarrow> alloc_pages s' X' = pages_of (page_demo FreeL) (((\<lambda>_. [])(FreeL := [0])) AllocL) \<union> {p ..< p + 2}"
    using page_alloc_moves[OF page_demo_ok[of FreeL] _ page_demo_room, where k = 2 and owner = None] by auto
  from r(3) len have "p \<noteq> 0" by simp
  with r show ?thesis by (intro exI[of _ p] exI[of _ s'] exI[of _ X']) simp
qed

theorem page_free_moves_witness:
  "\<exists>s' X'. page_free 18 2 (page_demo AllocL) = Some s' \<and> page_ok s' X' \<and>
     free_pages s' X' = {18, 19} \<and> alloc_pages s' X' = {16, 17}"
proof -
  have v: "pe_start (pc_pool (page_demo AllocL) 0) = 16" "pe_length (pc_pool (page_demo AllocL) 0) = 4"
    by (simp_all add: page_demo_def)
  have "\<exists>s' X'. page_free 18 2 (page_demo AllocL) = Some s' \<and> page_ok s' X' \<and>
      free_pages s' X' = pages_of (page_demo AllocL) (((\<lambda>_. [])(AllocL := [0])) FreeL) \<union> {18 ..< 18 + 2} \<and>
      alloc_pages s' X' = pages_of (page_demo AllocL) (((\<lambda>_. [])(AllocL := [0])) AllocL) - {18 ..< 18 + 2}"
    by (rule page_free_moves[OF page_demo_ok _ _ _ _ _ page_demo_room, where c = 0]) (simp_all add: v)
  moreover have "pages_of (page_demo AllocL) (((\<lambda>_. [])(AllocL := [0])) FreeL) = {}"
      "pages_of (page_demo AllocL) (((\<lambda>_. [])(AllocL := [0])) AllocL) = {16 ..< 20}"
    using v by (simp_all add: rng_def)
  moreover have "{18 ..< 18 + 2} = {18, 19 :: nat}" "{16 ..< 20} - {18 ..< 18 + 2} = {16, 17 :: nat}" by auto
  ultimately show ?thesis by auto
qed

text \<open>Releasing a page in the middle of an allocated element releases others as well: after four
  single page allocations, merged into one element, \<open>page_free 17 1\<close> also moves page 18, still
  owned, to the free list. (The second split should cut off \<open>pages\<close> pages, not the remainder.)
\<close>

theorem page_free_middle_frees_neighbour:
  "(do { s0 \<leftarrow> page_init 16 238 page_zero;
         (p1, s1) \<leftarrow> page_alloc None 1 s0; (p2, s2) \<leftarrow> page_alloc None 1 s1;
         (p3, s3) \<leftarrow> page_alloc None 1 s2; (p4, s4) \<leftarrow> page_alloc None 1 s3;
         s5 \<leftarrow> page_free 17 1 s4;
         f \<leftarrow> page_containing (pc_pool s5) 18 (pc_free s5);
         a \<leftarrow> page_containing (pc_pool s5) 18 (pc_alloc s5);
         Some ([p1, p2, p3, p4], f \<noteq> None, a \<noteq> None) }) = Some ([16, 17, 18, 19], True, False)"
  by code_simp

text \<open>With all of the first 15 elements in use every operation that needs a new element is
  undefined: \<open>1 << 15\<close> overflows the 16 bit \<open>int\<close>. An allocation that has to split is one.
\<close>

theorem page_alloc_pool_exhausted:
  assumes "page_ok s X" and "\<forall>j<15. bit (pc_used s) j"
    and "X FreeL = c # cs" and "k < pe_length (pc_pool s c)"
  shows "page_alloc owner k s = None"
proof -
  define t where "t = s\<lparr>pc_locked := True\<rparr>"
  have "page_lock s = Some t" using assms(1) by (simp add: page_lock_def page_ok_def t_def)
  moreover have "linked s (pc_free s) (X FreeL)"
    using assms(1) unfolding page_ok_def pool_rep_def by (metis list_head.simps(1))
  then have "page_first_fit (pc_pool t) k (pc_free t) = Some (Some c)"
    using first_fit_spec[of s "pc_free s" "X FreeL" k] assms(3,4) by (simp add: t_def)
  moreover have "page_element_alloc t = None"
    using page_element_scan_undefined[of "pc_used s" 0] assms(2) by (simp add: page_element_alloc_def t_def)
  then have "page_element_split c k t = None" by (simp add: page_element_split_def)
  moreover have "pe_length (pc_pool t c) \<noteq> k" using assms(4) by (simp add: t_def)
  ultimately show ?thesis by (simp add: page_alloc_def page_alloc_callback_def)
qed

text \<open>A pool whose first 15 elements are all on the free list, two pages each.\<close>

definition page_full :: page_common where
  "page_full = page_zero\<lparr>pc_pool := (\<lambda>i. \<lparr>pe_next = (if i < 14 then Some (i + 1) else None), pe_owner = None,
      pe_callback = None, pe_start = 16 + 3 * i, pe_length = 2\<rparr>), pc_used := mask 15, pc_free := Some 0\<rparr>"

lemma page_full_ok: "page_ok page_full ((\<lambda>_. [])(FreeL := [0 ..< 15]))"
proof -
  have h: "list_head FreeL page_full = Some 0" "list_head AllocL page_full = None"
    by (simp_all add: page_full_def page_zero_def)
  have b: "bit (pc_used page_full) i \<longleftrightarrow> i < 15" for i
    by (auto simp: page_full_def bit_mask_iff)
  have "linked page_full (Some i) [i ..< 15]" if "i < 15" for i
    using that
  proof (induction "14 - i" arbitrary: i)
    case 0
    then have "i = 14" by simp
    then show ?case by (simp add: page_full_def upt_rec)
  next
    case (Suc n)
    then have "linked page_full (Some (i + 1)) [i + 1 ..< 15]" by simp
    then show ?case using Suc.prems Suc.hyps(2) by (simp add: upt_rec[of i] page_full_def)
  qed
  then have "linked page_full (Some 0) [0 ..< 15]" by simp
  then have l: "linked page_full (list_head L page_full) (((\<lambda>_. [])(FreeL := [0 ..< 15])) L)" for L
    using h by (cases L) simp_all
  have "rng page_full i \<inter> rng page_full j = {}" if "i \<noteq> j" for i j
    using that by (auto simp: rng_def page_full_def)
  then have "elems_ok page_full [0 ..< 15]"
    unfolding elems_ok_def using b by (auto simp: page_full_def)
  moreover have "\<not> pc_locked page_full" by (simp add: page_full_def page_zero_def)
  ultimately show ?thesis using l b by (simp add: page_ok_def pool_rep_def)
qed

theorem page_alloc_pool_exhausted_witness: "page_alloc None 1 page_full = None"
proof (rule page_alloc_pool_exhausted[OF page_full_ok])
  show "\<forall>j<15. bit (pc_used page_full) j"
    using page_full_ok by (auto simp: page_ok_def pool_rep_def)
  show "((\<lambda>_. [])(FreeL := [0 ..< 15])) FreeL = 0 # [1 ..< 15]" by (simp add: upt_rec)
  show "1 < pe_length (pc_pool page_full 0)" by (simp add: page_full_def)
qed

end
