(* ===== verification/PageUse.thy ===== *)
theory PageUse
  imports PageAlloc
begin

text \<open>
  The pages of \<open>kernel/mem/page.c\<close> as the processes and threads see them: \<open>owned_pages s M\<close> says that the
  pool is well formed and that \<open>M\<close> is exactly the set of the \<open>(pg, n)\<close> of its allocated elements, so that
  giving one back as a whole is exact and one that is not given back stays.
\<close>

definition owned_pages :: "page_common \<Rightarrow> (nat \<times> nat) set \<Rightarrow> bool" where
  "owned_pages s M \<longleftrightarrow> (\<exists>X. page_ok s X \<and> (\<lambda>c. (pe_start (pc_pool s c), pe_length (pc_pool s c))) ` set (X AllocL) = M)"

lemma owned_pages_free:
  assumes own: "owned_pages s M" and m: "(pg, n) \<in> M"
  shows "\<exists>s'. page_free pg n s = Some s' \<and> owned_pages s' (M - {(pg, n)})"
proof -
  obtain X where ok: "page_ok s X" and el: "(\<lambda>c. (pe_start (pc_pool s c), pe_length (pc_pool s c))) ` set (X AllocL) = M"
    using own unfolding owned_pages_def by blast
  then obtain c where c: "c \<in> set (X AllocL)" "pe_start (pc_pool s c) = pg" "pe_length (pc_pool s c) = n"
    using m by (auto simp: image_iff)
  define t where "t = s\<lparr>pc_locked := True\<rparr>"
  have t: "page_lock s = Some t" "pc_pool t = pc_pool s" "pc_alloc t = pc_alloc s" using ok by (simp_all add: page_lock_def page_ok_def t_def)
  have rep: "pool_rep t X []" using ok by (simp add: t_def pool_rep_lock page_ok_def)
  have e: "elems_ok s (X FreeL @ X AllocL)" using ok by (simp add: page_ok_def pool_rep_def)
  then have "0 < pe_start (pc_pool s c)" "0 < pe_length (pc_pool s c)" "pe_start (pc_pool s c) + pe_length (pc_pool s c) \<le> 256"
    using c(1) unfolding elems_ok_def by auto
  then have len: "0 < n" "n < 256" unfolding c(2,3) by linarith+
  then have "pg \<in> rng s c" using c by (simp add: rng_def)
  note f = page_containing_elem[OF ok c(1) this]
  obtain pre post where X: "X AllocL = pre @ c # post" using c(1) by (meson split_list)
  from detach_rep[OF rep X] obtain s1 where s1: "page_element_detach AllocL c t = Some s1" "pool_rep s1 (X(AllocL := pre @ post)) [c]"
    "\<And>i. pe_start (pc_pool s1 i) = pe_start (pc_pool s i) \<and> pe_length (pc_pool s1 i) = pe_length (pc_pool s i)"
    unfolding t(2) by auto
  from attach_rep_keep[OF s1(2), of FreeL] obtain s2 xs where s2: "page_element_attach FreeL c s1 = Some s2"
    "pool_rep s2 (X(AllocL := pre @ post, FreeL := xs)) []" "\<And>i. i \<in> set (pre @ post) \<Longrightarrow> pc_pool s2 i = pc_pool s1 i" by auto
  have "page_free_loop pg n (pc_alloc s) t = Some s2"
    using len f s1(1,3) s2(1) c
    by (simp add: page_free_loop.simps[of pg n] page_free_loop.simps[of _ 0] page_free_take_def t(2))
  then have "page_free pg n s = Some (page_unlock s2)" using t by (simp add: page_free_def)
  moreover have "owned_pages (page_unlock s2) (M - {(pg, n)})"
  proof -
    have "page_ok (page_unlock s2) (X(AllocL := pre @ post, FreeL := xs))"
      using s2(2) by (simp add: page_ok_def page_unlock_def pool_rep_lock)
    moreover have "(\<lambda>d. (pe_start (pc_pool s2 d), pe_length (pc_pool s2 d))) ` set (pre @ post) = M - {(pg, n)}"
    proof -
      have eq: "(pe_start (pc_pool s2 d), pe_length (pc_pool s2 d)) = (pe_start (pc_pool s d), pe_length (pc_pool s d))" if "d \<in> set (pre @ post)" for d
        using s1(3)[of d] s2(3)[OF that] by simp
      have ne: "pe_start (pc_pool s d) \<noteq> pg" if d: "d \<in> set (pre @ post)" for d
      proof
        assume st: "pe_start (pc_pool s d) = pg"
        have da: "d \<in> set (X AllocL)" "d \<noteq> c" using d X e by (auto simp: elems_ok_def)
        have "0 < pe_length (pc_pool s d)" using e da(1) by (auto simp: elems_ok_def)
        then have "pg \<in> rng s d" using st by (simp add: rng_def)
        moreover have "rng s d \<inter> rng s c = {}" using e da c(1) by (auto simp: elems_ok_def)
        ultimately show False using \<open>pg \<in> rng s c\<close> by auto
      qed
      have "(\<lambda>d. (pe_start (pc_pool s2 d), pe_length (pc_pool s2 d))) ` set (pre @ post) = (\<lambda>d. (pe_start (pc_pool s d), pe_length (pc_pool s d))) ` set (pre @ post)"
        by (rule image_cong[OF refl eq])
      also have "\<dots> = M - {(pg, n)}" using ne c(2,3) unfolding el[symmetric] X by auto
      finally show ?thesis .
    qed
    ultimately show ?thesis unfolding owned_pages_def by (intro exI[of _ "X(AllocL := pre @ post, FreeL := xs)"]) (simp add: page_unlock_def)
  qed
  ultimately show ?thesis by blast
qed

end
