(* ===== verification/KMalloc.thy ===== *)
theory KMalloc
  imports ZPrelude
begin

text \<open>
  The kernel heap of \<open>kernel/mem/kmalloc.c\<close>: headers (size with a used flag in bit 0, pointer to
  the next header) in a store indexed by address, the payload bytes in another, the first block,
  the search hint and the lock. \<open>heap_ok s lo hi bs\<close> is the representation invariant: the blocks
  \<open>bs\<close> tile the region from \<open>lo\<close> to \<open>hi\<close>, no two neighbours are both free, and no free
  block lies before the hint. Sizes and addresses are 16 bit.
\<close>

record header_t =
  h_size :: nat
  h_next :: "nat option"

record kheap =
  khdr :: "nat \<Rightarrow> header_t"
  kbytes :: "nat \<Rightarrow> nat"
  kheap :: "nat option"
  khint :: "nat option"
  klocked :: bool

definition FLAG :: "nat \<Rightarrow> bool" where "FLAG n = odd n"
definition SIZE :: "nat \<Rightarrow> nat" where "SIZE n = n - n mod 2"
definition ANTIFRAG :: nat where "ANTIFRAG = 8"

text \<open>\<open>sizeof(header_t)\<close>: a 16 bit size and a 16 bit pointer.\<close>

definition HDR :: nat where "HDR = 4"

definition ALIGN :: "nat \<Rightarrow> nat" where
  "ALIGN n = u16 (n + ANTIFRAG - 1) - u16 (n + ANTIFRAG - 1) mod ANTIFRAG"

definition payload :: "nat \<Rightarrow> nat" where "payload a = a + HDR"

definition upd_hdr :: "nat \<Rightarrow> (header_t \<Rightarrow> header_t) \<Rightarrow> kheap \<Rightarrow> kheap" where
  "upd_hdr a f s = s\<lparr>khdr := (khdr s)(a := f (khdr s a))\<rparr>"

definition kheap_lock :: "kheap \<Rightarrow> kheap option" where
  "kheap_lock s = (if klocked s then None else Some (s\<lparr>klocked := True\<rparr>))"

definition kheap_unlock :: "kheap \<Rightarrow> kheap" where
  "kheap_unlock s = s\<lparr>klocked := False\<rparr>"

text \<open>\<open>p < q\<close> on header pointers; \<open>NULL\<close> is the least address.\<close>

definition ptr_below :: "nat \<Rightarrow> nat option \<Rightarrow> bool" where
  "ptr_below p q = (case q of None \<Rightarrow> False | Some h \<Rightarrow> p < h)"

section \<open>Allocation\<close>

partial_function (option) kmalloc_scan :: "(nat \<Rightarrow> header_t) \<Rightarrow> nat \<Rightarrow> nat option \<Rightarrow> nat option option" where
  "kmalloc_scan H sz cu =
     (case cu of
        None \<Rightarrow> Some None
      | Some c \<Rightarrow> if \<not> FLAG (h_size (H c)) \<and> sz \<le> SIZE (h_size (H c)) then Some (Some c)
                  else kmalloc_scan H sz (h_next (H c)))"

declare kmalloc_scan.simps [code]

definition kmalloc_take :: "nat \<Rightarrow> nat \<Rightarrow> kheap \<Rightarrow> kheap" where
  "kmalloc_take c sz s =
     (let s1 = (if u16 (sz + HDR + ANTIFRAG) \<le> SIZE (h_size (khdr s c)) then
                  (let sp = payload c + sz;
                       t1 = upd_hdr sp (\<lambda>h. h\<lparr>h_next := h_next (khdr s c)\<rparr>) s;
                       t2 = upd_hdr sp (\<lambda>h. h\<lparr>h_size := SIZE (sub16 (sub16 (SIZE (h_size (khdr t1 c))) sz) HDR)\<rparr>) t1;
                       t3 = upd_hdr c (\<lambda>h. h\<lparr>h_size := sz\<rparr>) t2
                   in upd_hdr c (\<lambda>h. h\<lparr>h_next := Some sp\<rparr>) t3)
                else s);
          s2 = upd_hdr c (\<lambda>h. h\<lparr>h_size := SIZE (h_size h) + 1\<rparr>) s1
      in (if khint s2 = Some c then s2\<lparr>khint := h_next (khdr s2 c)\<rparr> else s2))"

definition kmalloc :: "nat \<Rightarrow> kheap \<Rightarrow> (nat option \<times> kheap) option" where
  "kmalloc n s0 =
     (if n = 0 then Some (None, s0)
      else do {
        let sz = ALIGN n;
        s1 \<leftarrow> kheap_lock s0;
        let s = (if khint s1 = None then s1\<lparr>khint := kheap s1\<rparr> else s1);
        cu \<leftarrow> kmalloc_scan (khdr s) sz (khint s);
        (case cu of
           None \<Rightarrow> Some (None, kheap_unlock s)
         | Some c \<Rightarrow> Some (Some (payload c), kheap_unlock (kmalloc_take c sz s)))
      })"

section \<open>Release\<close>

text \<open>The walk of \<open>kfree\<close>: the block whose payload is \<open>ptr\<close> and its predecessor.\<close>

partial_function (option) kfree_scan ::
  "(nat \<Rightarrow> header_t) \<Rightarrow> nat \<Rightarrow> nat option \<Rightarrow> nat option \<Rightarrow> (nat option \<times> nat option) option" where
  "kfree_scan H ptr cu prev =
     (case cu of
        None \<Rightarrow> Some (None, prev)
      | Some c \<Rightarrow> if payload c = ptr then Some (Some c, prev)
                  else kfree_scan H ptr (h_next (H c)) (Some c))"

declare kfree_scan.simps [code]

text \<open>Absorb the successor of \<open>c\<close>, if it is free.\<close>

definition join_next :: "nat \<Rightarrow> kheap \<Rightarrow> kheap" where
  "join_next c s = (case h_next (khdr s c) of
     Some n \<Rightarrow> if \<not> FLAG (h_size (khdr s n))
       then upd_hdr c (\<lambda>h. h\<lparr>h_size := u16 (SIZE (h_size h) + SIZE (h_size (khdr s n)) + HDR),
              h_next := h_next (khdr s n)\<rparr>) s
       else s
   | None \<Rightarrow> s)"

definition kfree_take :: "nat \<Rightarrow> nat option \<Rightarrow> kheap \<Rightarrow> kheap" where
  "kfree_take c prev s =
     (let (c', s1) = (case prev of
          Some p \<Rightarrow> if \<not> FLAG (h_size (khdr s p))
            then (p, upd_hdr p (\<lambda>h. h\<lparr>h_size := u16 (SIZE (h_size h) + SIZE (h_size (khdr s c)) + HDR),
                       h_next := h_next (khdr s c)\<rparr>) s)
            else (c, s)
        | None \<Rightarrow> (c, s));
          s2 = join_next c' s1;
          s3 = upd_hdr c' (\<lambda>h. h\<lparr>h_size := SIZE (h_size h)\<rparr>) s2
      in (if ptr_below c' (khint s3) then s3\<lparr>khint := Some c'\<rparr> else s3))"

text \<open>A pointer that is no payload ends in \<open>panic\<close>.\<close>

definition kfree :: "nat option \<Rightarrow> kheap \<Rightarrow> kheap option" where
  "kfree ptr s0 = (case ptr of
     None \<Rightarrow> Some s0
   | Some p \<Rightarrow> do {
       s \<leftarrow> kheap_lock s0;
       (cu, prev) \<leftarrow> kfree_scan (khdr s) p (kheap s) None;
       c \<leftarrow> cu;
       Some (kheap_unlock (kfree_take c prev s))
     })"

section \<open>Resizing\<close>

definition krealloc_shrink :: "nat \<Rightarrow> nat \<Rightarrow> kheap \<Rightarrow> kheap" where
  "krealloc_shrink c sz s =
     (if u16 (sz + HDR + ANTIFRAG) < SIZE (h_size (khdr s c)) then
        (let sp = payload c + sz;
             s1 = upd_hdr sp (\<lambda>h. h\<lparr>h_next := h_next (khdr s c),
                    h_size := sub16 (sub16 (SIZE (h_size (khdr s c))) sz) HDR\<rparr>) s;
             s2 = upd_hdr c (\<lambda>h. h\<lparr>h_size := SIZE sz + 1, h_next := Some sp\<rparr>) s1;
             s3 = join_next sp s2
         in (if ptr_below sp (khint s3) then s3\<lparr>khint := Some sp\<rparr> else s3))
      else s)"

text \<open>Growing into the free successor \<open>n\<close>; \<open>t\<close> is the joint size.\<close>

definition krealloc_grow :: "nat \<Rightarrow> nat \<Rightarrow> nat \<Rightarrow> nat \<Rightarrow> kheap \<Rightarrow> kheap" where
  "krealloc_grow c n t sz s =
     (let s1 = (if khint s = Some n then s\<lparr>khint := h_next (khdr s n)\<rparr> else s);
          s2 = upd_hdr c (\<lambda>h. h\<lparr>h_size := SIZE t + 1, h_next := h_next (khdr s1 n)\<rparr>) s1
      in (if u16 (sz + HDR + ANTIFRAG) < t then
            (let s3 = upd_hdr c (\<lambda>h. h\<lparr>h_size := SIZE sz + 1\<rparr>) s2;
                 sp = payload c + sz;
                 s4 = upd_hdr sp (\<lambda>h. h\<lparr>h_next := h_next (khdr s3 c), h_size := sub16 (sub16 t sz) HDR\<rparr>) s3;
                 s5 = (if h_next (khdr s4 c) = khint s4 then s4\<lparr>khint := Some sp\<rparr> else s4)
             in upd_hdr c (\<lambda>h. h\<lparr>h_next := Some sp\<rparr>) s5)
          else s2))"

definition kcopy :: "nat \<Rightarrow> nat \<Rightarrow> nat \<Rightarrow> kheap \<Rightarrow> kheap" where
  "kcopy dst src n s =
     s\<lparr>kbytes := (\<lambda>a. if dst \<le> a \<and> a < dst + n then kbytes s (src + (a - dst)) else kbytes s a)\<rparr>"

text \<open>The read of \<open>curr->next->size\<close> comes before the test for \<open>NULL\<close>.\<close>

definition krealloc :: "nat option \<Rightarrow> nat \<Rightarrow> kheap \<Rightarrow> (nat option \<times> kheap) option" where
  "krealloc ptr n s0 =
     (if n = 0 then do { s \<leftarrow> kfree ptr s0; Some (None, s) }
      else (let sz = ALIGN n in
        case ptr of
          None \<Rightarrow> kmalloc sz s0
        | Some p \<Rightarrow> do {
            s \<leftarrow> kheap_lock s0;
            let c = p - HDR;
            (if sz \<le> SIZE (h_size (khdr s c)) then Some (ptr, kheap_unlock (krealloc_shrink c sz s))
             else do {
               nx \<leftarrow> h_next (khdr s c);
               let t = u16 (SIZE (h_size (khdr s c)) + SIZE (h_size (khdr s nx)) + HDR);
               (if \<not> FLAG (h_size (khdr s nx)) \<and> sz \<le> t
                then Some (Some (payload c), kheap_unlock (krealloc_grow c nx t sz s))
                else do {
                  (buff, s1) \<leftarrow> kmalloc sz (kheap_unlock s);
                  (case buff of
                     None \<Rightarrow> Some (None, s1)
                   | Some b \<Rightarrow> do {
                       s2 \<leftarrow> kfree ptr (kcopy b p (SIZE (h_size (khdr s1 c))) s1);
                       Some (Some b, s2)
                     })
                })
             })
          }))"

section \<open>Statistics and initialisation\<close>

partial_function (option) kmalloc_stat_loop ::
  "(nat \<Rightarrow> header_t) \<Rightarrow> nat option \<Rightarrow> nat \<Rightarrow> nat \<Rightarrow> (nat \<times> nat) option" where
  "kmalloc_stat_loop H cu u f =
     (case cu of
        None \<Rightarrow> Some (u, f)
      | Some c \<Rightarrow> if FLAG (h_size (H c))
                  then kmalloc_stat_loop H (h_next (H c)) (u16 (u + SIZE (h_size (H c)))) f
                  else kmalloc_stat_loop H (h_next (H c)) u (u16 (f + SIZE (h_size (H c)))))"

declare kmalloc_stat_loop.simps [code]

definition kmalloc_stat :: "kheap \<Rightarrow> ((nat \<times> nat) \<times> kheap) option" where
  "kmalloc_stat s0 =
     do {
       s \<leftarrow> kheap_lock s0;
       uf \<leftarrow> kmalloc_stat_loop (khdr s) (kheap s) 0 0;
       Some (uf, kheap_unlock s)
     }"

definition kalloc_init :: "nat \<Rightarrow> nat \<Rightarrow> kheap \<Rightarrow> kheap" where
  "kalloc_init buff sz s =
     (let aligned = ALIGN buff;
          sz' = sub16 sz (sub16 aligned buff);
          s1 = upd_hdr aligned (\<lambda>h. h\<lparr>h_size := SIZE (sub16 sz' HDR), h_next := None\<rparr>) s
      in s1\<lparr>kheap := Some aligned, khint := Some aligned, klocked := False\<rparr>)"

section \<open>The representation\<close>

type_synonym blk = "nat \<times> nat \<times> bool"

abbreviation b_addr :: "blk \<Rightarrow> nat" where "b_addr b \<equiv> fst b"
abbreviation b_size :: "blk \<Rightarrow> nat" where "b_size b \<equiv> fst (snd b)"
abbreviation b_used :: "blk \<Rightarrow> bool" where "b_used b \<equiv> snd (snd b)"

text \<open>The blocks follow each other without gaps from \<open>a\<close> to \<open>e\<close>.\<close>

fun tiled :: "nat \<Rightarrow> blk list \<Rightarrow> nat \<Rightarrow> bool" where
  "tiled a [] e \<longleftrightarrow> a = e"
| "tiled a ((b, n, u) # xs) e \<longleftrightarrow> b = a \<and> tiled (a + HDR + n) xs e"

definition blk_ok :: "kheap \<Rightarrow> blk \<Rightarrow> bool" where
  "blk_ok s b \<longleftrightarrow> h_size (khdr s (b_addr b)) = b_size b + of_bool (b_used b) \<and> even (b_size b)"

definition knext :: "kheap \<Rightarrow> nat \<Rightarrow> nat option" where "knext s a = h_next (khdr s a)"

definition heap_rep :: "kheap \<Rightarrow> nat \<Rightarrow> nat \<Rightarrow> blk list \<Rightarrow> bool" where
  "heap_rep s lo hi bs \<longleftrightarrow> slist (knext s) (kheap s) (map b_addr bs) \<and> (\<forall>b \<in> set bs. blk_ok s b) \<and>
     tiled lo bs hi \<and> bs \<noteq> [] \<and> 8 \<le> lo \<and> hi \<le> 65536"

definition no_free_pair :: "blk list \<Rightarrow> bool" where
  "no_free_pair bs \<longleftrightarrow> successively (\<lambda>x y. b_used x \<or> b_used y) bs"

text \<open>The hint is \<open>NULL\<close> or a block with no free block before it.\<close>

definition hint_ok :: "kheap \<Rightarrow> blk list \<Rightarrow> bool" where
  "hint_ok s bs \<longleftrightarrow> (case khint s of None \<Rightarrow> True
     | Some h \<Rightarrow> h \<in> b_addr ` set bs \<and> (\<forall>b \<in> set bs. b_addr b < h \<longrightarrow> b_used b))"

definition heap_ok :: "kheap \<Rightarrow> nat \<Rightarrow> nat \<Rightarrow> blk list \<Rightarrow> bool" where
  "heap_ok s lo hi bs \<longleftrightarrow> heap_rep s lo hi bs \<and> no_free_pair bs \<and> hint_ok s bs \<and> \<not> klocked s"

lemma tiled_append: "tiled a (xs @ ys) e \<longleftrightarrow> (\<exists>m. tiled a xs m \<and> tiled m ys e)"
  by (induction a xs e rule: tiled.induct) auto

lemma tiled_le: "tiled a xs e \<Longrightarrow> a \<le> e"
  by (induction a xs e rule: tiled.induct) (auto simp: HDR_def)

lemma tiled_bounds: "tiled a xs e \<Longrightarrow> b \<in> set xs \<Longrightarrow> a \<le> b_addr b \<and> b_addr b + HDR + b_size b \<le> e"
proof (induction a xs e rule: tiled.induct)
  case (2 a b n u xs e)
  then show ?case using tiled_le[of "a + HDR + n" xs e] by auto
qed simp

text \<open>
  The splice lemma: an operation that only touches headers inside the span of the blocks
  \<open>mid\<close> and replaces them by blocks \<open>mid'\<close> over the same span keeps the representation.
\<close>

lemma heap_splice:
  assumes rep: "heap_rep s lo hi (pre @ mid @ post)"
    and t: "tiled a mid m" "tiled a mid' m" and ne: "mid \<noteq> []" "mid' \<noteq> []"
    and fr: "\<And>x. x < a \<or> m \<le> x \<Longrightarrow> khdr s' x = khdr s x" "kheap s' = kheap s"
    and ok: "\<forall>b \<in> set mid'. blk_ok s' b"
    and seg: "\<And>q. sseg (knext s) (Some a) (map b_addr mid) q \<Longrightarrow> sseg (knext s') (Some a) (map b_addr mid') q"
  shows "heap_rep s' lo hi (pre @ mid' @ post)"
proof -
  obtain m1 m2 where tp: "tiled lo pre m1" "tiled m1 mid m2" "tiled m2 post hi"
    using rep by (auto simp: heap_rep_def tiled_append)
  obtain b n u r where mid: "mid = (b, n, u) # r" using ne by (metis prod_cases3 neq_Nil_conv)
  then have ba: "b = a" "m1 = a" using t(1) tp(2) by auto
  have m2: "m2 = m"
  proof -
    have "tiled x ys e \<Longrightarrow> tiled x ys e' \<Longrightarrow> e = e'" for x ys e e'
      by (induction x ys e rule: tiled.induct) auto
    then show ?thesis using t(1) tp(2) ba by blast
  qed
  have lt: "b_addr x < a" if "x \<in> set pre" for x
    using tiled_bounds[OF tp(1) that] ba by (simp add: HDR_def)
  have ge: "m \<le> b_addr x" if "x \<in> set post" for x
    using tiled_bounds[OF tp(3) that] m2 by simp
  obtain p q where sg: "sseg (knext s) (kheap s) (map b_addr pre) p"
      "sseg (knext s) p (map b_addr mid) q" "slist (knext s) q (map b_addr post)"
    using rep by (auto simp: heap_rep_def slist_append slist_sseg sseg_append)
  then have p: "p = Some a" using mid ba by simp
  have nx: "knext s' x = knext s x" if "x < a \<or> m \<le> x" for x using fr(1)[OF that] by (simp add: knext_def)
  have "sseg (knext s') (kheap s') (map b_addr pre) p"
  proof -
    have "sseg (knext s') (kheap s) (map b_addr pre) p = sseg (knext s) (kheap s) (map b_addr pre) p"
      by (rule sseg_cong) (rule nx, use lt in force)
    then show ?thesis using sg(1) fr(2) by simp
  qed
  moreover have "sseg (knext s') p (map b_addr mid') q" using seg sg(2) p by simp
  moreover have "slist (knext s') q (map b_addr post)"
  proof -
    have "slist (knext s') q (map b_addr post) = slist (knext s) q (map b_addr post)"
      by (rule slist_cong) (rule nx, use ge in force)
    then show ?thesis using sg(3) by simp
  qed
  ultimately have "slist (knext s') (kheap s') (map b_addr (pre @ mid' @ post))"
    by (auto simp: slist_append)
  moreover have "blk_ok s' x" if "x \<in> set (pre @ mid' @ post)" for x
  proof -
    have "khdr s' (b_addr x) = khdr s (b_addr x)" if "x \<in> set pre \<or> x \<in> set post"
      using fr(1)[of "b_addr x"] lt[of x] ge[of x] that by blast
    then show ?thesis using that ok rep unfolding heap_rep_def blk_ok_def by auto
  qed
  moreover have "tiled lo (pre @ mid' @ post) hi" using tp t(2) ba m2 by (auto simp: tiled_append)
  ultimately show ?thesis using rep ne by (simp add: heap_rep_def)
qed

lemma upd_hdr_simps [simp]:
  "khdr (upd_hdr a f s) = (khdr s)(a := f (khdr s a))" "kheap (upd_hdr a f s) = kheap s"
  "khint (upd_hdr a f s) = khint s" "klocked (upd_hdr a f s) = klocked s"
  "kbytes (upd_hdr a f s) = kbytes s"
  by (simp_all add: upd_hdr_def)

lemma SIZE_simps [simp]:
  "even n \<Longrightarrow> SIZE n = n" "even n \<Longrightarrow> SIZE (Suc n) = n" "FLAG n = odd n"
  by (auto simp: SIZE_def FLAG_def elim!: evenE)

lemma SIZE_even [simp]: "even (SIZE n)"
  by (simp add: SIZE_def)

lemma ALIGN_spec: "n \<le> 65528 \<Longrightarrow> n \<le> ALIGN n \<and> ALIGN n < n + 8 \<and> ALIGN n \<le> 65528 \<and> 8 dvd ALIGN n"
proof -
  assume n: "n \<le> 65528"
  have "ALIGN n = (n + 7) div 8 * 8"
    using n by (simp add: ALIGN_def ANTIFRAG_def minus_mod_eq_mult_div)
  then show ?thesis using n by presburger
qed

lemma ALIGN_idem: "n \<le> 65528 \<Longrightarrow> ALIGN (ALIGN n) = ALIGN n"
proof -
  assume n: "n \<le> 65528"
  have a: "ALIGN k = (k + 7) div 8 * 8" if "k \<le> 65528" for k
    using that by (simp add: ALIGN_def ANTIFRAG_def minus_mod_eq_mult_div)
  have "ALIGN n \<le> 65528" using ALIGN_spec[OF n] by simp
  then show ?thesis using a[OF n] a[of "ALIGN n"] by presburger
qed

lemma heap_rep_bounds:
  "heap_rep s lo hi bs \<Longrightarrow> b \<in> set bs \<Longrightarrow> 8 \<le> b_addr b \<and> b_addr b + HDR + b_size b \<le> 65536"
  unfolding heap_rep_def using tiled_bounds[of lo bs hi b] by auto

lemma heap_rep_hdr:
  "heap_rep s lo hi (pre @ (c, m, u) # post) \<Longrightarrow>
   h_size (khdr s c) = m + of_bool u \<and> even m \<and> 8 \<le> c \<and> c + HDR + m \<le> 65536"
  using heap_rep_bounds[of s lo hi "pre @ (c, m, u) # post" "(c, m, u)"]
  by (auto simp: heap_rep_def blk_ok_def)

text \<open>What is cut off a free block of size \<open>m\<close> for a request of \<open>k\<close> bytes.\<close>

definition carve :: "nat \<Rightarrow> nat \<Rightarrow> nat \<Rightarrow> blk list" where
  "carve c k m = (if k + HDR + ANTIFRAG \<le> m then [(c, k, True), (c + HDR + k, m - k - HDR, False)]
     else [(c, m, True)])"

lemma kmalloc_take_rep:
  assumes rep: "heap_rep s lo hi (pre @ (c, m, False) # post)" and k: "k \<le> m" "8 dvd k"
  shows "heap_rep (kmalloc_take c k s) lo hi (pre @ carve c k m @ post)"
proof -
  have h: "h_size (khdr s c) = m" "even m" "8 \<le> c" "c + HDR + m \<le> 65536"
    using heap_rep_hdr[OF rep] by auto
  have w: "u16 (k + HDR + ANTIFRAG) = k + HDR + ANTIFRAG"
  proof (rule u16_id)
    obtain j where "k = 8 * j" using k(2) by blast
    then show "k + HDR + ANTIFRAG < 65536" using h k(1) by (simp add: HDR_def ANTIFRAG_def) presburger
  qed
  have ev: "even k" using k(2) by (auto elim: dvdE)
  have sub: "sub16 (sub16 m k) HDR = m - k - HDR" if "k + HDR + ANTIFRAG \<le> m"
    using that h by (simp add: HDR_def ANTIFRAG_def)
  have "heap_rep (kmalloc_take c k s) lo hi (pre @ carve c k m @ post)"
  proof (rule heap_splice[where mid = "[(c, m, False)]" and a = c and m = "c + HDR + m"])
    show "heap_rep s lo hi (pre @ [(c, m, False)] @ post)" using rep by simp
    show "tiled c [(c, m, False)] (c + HDR + m)" by simp
    show "tiled c (carve c k m) (c + HDR + m)" by (auto simp: carve_def HDR_def ANTIFRAG_def)
    show "carve c k m \<noteq> []" by (simp add: carve_def)
    show "kheap (kmalloc_take c k s) = kheap s" by (simp add: kmalloc_take_def Let_def)
    show "khdr (kmalloc_take c k s) x = khdr s x" if "x < c \<or> c + HDR + m \<le> x" for x
      using that h w k by (auto simp: kmalloc_take_def Let_def payload_def HDR_def ANTIFRAG_def)
    show "\<forall>b \<in> set (carve c k m). blk_ok (kmalloc_take c k s) b"
      using h w k ev sub by (auto simp: carve_def blk_ok_def kmalloc_take_def Let_def payload_def HDR_def)
    show "sseg (knext (kmalloc_take c k s)) (Some c) (map b_addr (carve c k m)) q"
      if "sseg (knext s) (Some c) (map b_addr [(c, m, False)]) q" for q
      using that h w k by (auto simp: carve_def knext_def kmalloc_take_def Let_def payload_def HDR_def)
  qed simp
  then show ?thesis .
qed

lemma heap_rep_order:
  "heap_rep s lo hi (xs @ ys) \<Longrightarrow> x \<in> set xs \<Longrightarrow> y \<in> set ys \<Longrightarrow> b_addr x < b_addr y"
proof -
  assume a: "heap_rep s lo hi (xs @ ys)" "x \<in> set xs" "y \<in> set ys"
  then obtain m where "tiled lo xs m" "tiled m ys hi" by (auto simp: heap_rep_def tiled_append)
  then show "b_addr x < b_addr y"
    using tiled_bounds[of lo xs m x] tiled_bounds[of m ys hi y] a by (simp add: HDR_def)
qed

lemma heap_rep_next:
  "heap_rep s lo hi (pre @ b # post) \<Longrightarrow>
   knext s (b_addr b) = (if post = [] then None else Some (b_addr (hd post)))"
  by (cases post) (auto simp: heap_rep_def slist_append)

lemma heap_rep_frame [simp]:
  "heap_rep (s\<lparr>khint := h\<rparr>) lo hi bs = heap_rep s lo hi bs"
  "heap_rep (s\<lparr>klocked := l\<rparr>) lo hi bs = heap_rep s lo hi bs"
  "heap_rep (s\<lparr>kbytes := y\<rparr>) lo hi bs = heap_rep s lo hi bs"
proof -
  have "knext (s\<lparr>khint := h\<rparr>) = knext s" "knext (s\<lparr>klocked := l\<rparr>) = knext s" "knext (s\<lparr>kbytes := y\<rparr>) = knext s"
    by (simp_all add: knext_def fun_eq_iff)
  then show "heap_rep (s\<lparr>khint := h\<rparr>) lo hi bs = heap_rep s lo hi bs"
    "heap_rep (s\<lparr>klocked := l\<rparr>) lo hi bs = heap_rep s lo hi bs"
    "heap_rep (s\<lparr>kbytes := y\<rparr>) lo hi bs = heap_rep s lo hi bs"
    by (simp_all add: heap_rep_def blk_ok_def)
qed

lemma find_split:
  "List.find P xs = Some b \<Longrightarrow> \<exists>pre post. xs = pre @ b # post \<and> P b \<and> (\<forall>x \<in> set pre. \<not> P x)"
proof (induction xs)
  case (Cons x xs)
  show ?case
  proof (cases "P x")
    case True
    then show ?thesis using Cons.prems by (intro exI[of _ "[]"] exI[of _ xs]) simp
  next
    case False
    then obtain pre post where "xs = pre @ b # post" "P b" "\<forall>y \<in> set pre. \<not> P y"
      using Cons by auto
    then show ?thesis using False by (intro exI[of _ "x # pre"] exI[of _ post]) simp
  qed
qed simp

abbreviation fits :: "nat \<Rightarrow> blk \<Rightarrow> bool" where
  "fits k b \<equiv> \<not> b_used b \<and> k \<le> b_size b"

lemma kmalloc_scan_spec:
  "slist (knext s) p (map b_addr xs) \<Longrightarrow> \<forall>b \<in> set xs. blk_ok s b \<Longrightarrow>
   kmalloc_scan (khdr s) k p = Some (map_option b_addr (List.find (fits k) xs))"
proof (induction xs arbitrary: p)
  case Nil
  then show ?case by (simp add: kmalloc_scan.simps)
next
  case (Cons x xs)
  then have "p = Some (b_addr x)" "kmalloc_scan (khdr s) k (h_next (khdr s (b_addr x))) =
      Some (map_option b_addr (List.find (fits k) xs))" "blk_ok s x"
    by (auto simp: knext_def)
  then show ?case by (subst kmalloc_scan.simps) (auto simp: blk_ok_def)
qed

lemma kmalloc_scan_hint:
  assumes rep: "heap_rep s lo hi bs" and h: "hint_ok s bs" "khint s = Some h"
  shows "kmalloc_scan (khdr s) k (Some h) = Some (map_option b_addr (List.find (fits k) bs))"
proof -
  obtain b where "b \<in> set bs" "b_addr b = h" using h by (auto simp: hint_ok_def)
  then obtain pre post where bs: "bs = pre @ b # post" by (meson split_list)
  have "\<forall>x \<in> set pre. b_used x"
  proof
    fix x assume x: "x \<in> set pre"
    then have "b_addr x < h"
      using heap_rep_order[of s lo hi pre "b # post" x b] rep bs \<open>b_addr b = h\<close> by simp
    then show "b_used x" using x h bs by (auto simp: hint_ok_def)
  qed
  then have "List.find (fits k) (pre @ b # post) = List.find (fits k) (b # post)"
    by (induction pre) simp_all
  then have "List.find (fits k) bs = List.find (fits k) (b # post)" using bs by simp
  moreover have "slist (knext s) (Some h) (map b_addr (b # post))"
  proof -
    have "slist (knext s) (kheap s) (map b_addr pre @ h # map b_addr post)"
      using rep bs \<open>b_addr b = h\<close> by (simp add: heap_rep_def)
    from slist_tail[OF this] show ?thesis using \<open>b_addr b = h\<close> by simp
  qed
  then have "kmalloc_scan (khdr s) k (Some h) = Some (map_option b_addr (List.find (fits k) (b # post)))"
    by (rule kmalloc_scan_spec) (use rep bs in \<open>simp add: heap_rep_def\<close>)
  ultimately show ?thesis by simp
qed

lemma kmalloc_take_hint:
  assumes rep: "heap_rep s lo hi (pre @ (c, m, False) # post)" and k: "k \<le> m" "8 dvd k"
    and h: "hint_ok s (pre @ (c, m, False) # post)"
  shows "hint_ok (kmalloc_take c k s) (pre @ carve c k m @ post)"
proof -
  let ?s = "kmalloc_take c k s"
  obtain k' rest where cv: "carve c k m @ post = (c, k', True) # rest"
    by (cases "k + HDR + ANTIFRAG \<le> m") (auto simp: carve_def)
  have rep': "heap_rep ?s lo hi (pre @ (c, k', True) # rest)" using kmalloc_take_rep[OF rep k] cv by simp
  have hint: "khint ?s = (if khint s = Some c then knext ?s c else khint s)"
    by (simp add: kmalloc_take_def knext_def Let_def)
  show ?thesis
  proof (cases "khint s")
    case None
    then show ?thesis using hint by (simp add: hint_ok_def)
  next
    case (Some h0)
    have used: "b_used b" if "b \<in> set pre" "b_addr b < h0" for b
      using h Some that by (auto simp: hint_ok_def)
    show ?thesis
    proof (cases "h0 = c")
      case True
      have pu: "b_used b" if "b \<in> set pre" for b
        using used[OF that] heap_rep_order[OF rep, of b "(c, m, False)"] that True by simp
      show ?thesis
      proof (cases rest)
        case Nil
        then show ?thesis using hint Some True heap_rep_next[OF rep'] by (simp add: hint_ok_def)
      next
        case (Cons y ys)
        have "b_used b" if b: "b \<in> set (pre @ (c, k', True) # rest)" "b_addr b < b_addr y" for b
        proof -
          have "b_addr y < b_addr z" if "z \<in> set ys" for z
            using heap_rep_order[of ?s lo hi "pre @ [(c, k', True), y]" ys y z] rep' Cons that by simp
          then have "b \<notin> set ys" using b(2) by fastforce
          moreover have "b \<noteq> y" using b(2) by auto
          ultimately show ?thesis using b(1) Cons pu[of b] by auto
        qed
        moreover have "khint ?s = Some (b_addr y)"
          using hint Some True heap_rep_next[OF rep'] Cons by simp
        ultimately show ?thesis using cv Cons unfolding hint_ok_def by simp
      qed
    next
      case False
      have "\<not> c < h0" using h Some by (auto simp: hint_ok_def)
      then have lt: "h0 < c" using False by simp
      have "h0 \<in> b_addr ` set (pre @ (c, m, False) # post)"
        using h Some unfolding hint_ok_def by simp
      then obtain b0 where b0: "b0 \<in> set (pre @ (c, m, False) # post)" "b_addr b0 = h0"
        by blast
      have "b0 \<notin> set post"
        using heap_rep_order[of s lo hi "pre @ [(c, m, False)]" post "(c, m, False)" b0] rep lt b0(2) by auto
      then have "h0 \<in> b_addr ` set pre" using b0 False by auto
      moreover have "\<not> b_addr b < h0" if "b \<in> set ((c, k', True) # rest)" for b
        using that lt heap_rep_order[of ?s lo hi "pre @ [(c, k', True)]" rest "(c, k', True)" b] rep' by auto
      ultimately show ?thesis using hint Some False used cv by (auto simp: hint_ok_def)
    qed
  qed
qed

lemma carve_no_free_pair:
  "no_free_pair (pre @ (c, m, False) # post) \<Longrightarrow> no_free_pair (pre @ carve c k m @ post)"
  by (auto simp: no_free_pair_def carve_def successively_append_iff successively_Cons)

section \<open>Allocation is correct\<close>

lemma kheap_lock_ok:
  "heap_ok s lo hi bs \<Longrightarrow> kheap_lock s = Some (s\<lparr>klocked := True\<rparr>)"
  by (simp add: heap_ok_def kheap_lock_def)

lemma hint_ok_frame [simp]:
  "hint_ok (s\<lparr>klocked := l\<rparr>) bs = hint_ok s bs" "hint_ok (s\<lparr>kbytes := y\<rparr>) bs = hint_ok s bs"
  by (simp_all add: hint_ok_def)

text \<open>After \<open>if (hint == NULL) hint = heap\<close>.\<close>

lemma kmalloc_hint_reset:
  assumes "heap_ok s lo hi bs"
  shows "\<exists>t h. (let s1 = s\<lparr>klocked := True\<rparr> in if khint s1 = None then s1\<lparr>khint := kheap s1\<rparr> else s1) = t \<and>
    khint t = Some h \<and> hint_ok t bs \<and> heap_rep t lo hi bs \<and> kbytes t = kbytes s \<and> khdr t = khdr s"
proof (cases "khint s")
  case None
  have r: "heap_rep s lo hi bs" using assms by (simp add: heap_ok_def)
  then obtain b bs' where bs: "bs = b # bs'" unfolding heap_rep_def by (cases bs) auto
  have hp: "kheap s = Some (b_addr b)" using r bs by (simp add: heap_rep_def)
  have "\<not> b_addr x < b_addr b" if "x \<in> set bs" for x
    using heap_rep_order[of s lo hi "[b]" bs' b x] r bs that by auto
  then show ?thesis using None r bs hp by (auto simp: hint_ok_def)
next
  case (Some h)
  then show ?thesis using assms by (auto simp: heap_ok_def)
qed

lemma kmalloc_spec:
  assumes ok: "heap_ok s lo hi bs" and n: "0 < n" "n \<le> 65528"
  shows "\<exists>r s'. kmalloc n s = Some (r, s') \<and> kbytes s' = kbytes s \<and>
    (r = None \<longleftrightarrow> (\<forall>b \<in> set bs. b_used b \<or> b_size b < ALIGN n)) \<and>
    (r = None \<longrightarrow> heap_ok s' lo hi bs) \<and>
    (\<forall>p. r = Some p \<longrightarrow> (\<exists>pre c m post. bs = pre @ (c, m, False) # post \<and> p = c + HDR \<and> ALIGN n \<le> m \<and>
       (\<forall>b \<in> set pre. \<not> fits (ALIGN n) b) \<and> heap_ok s' lo hi (pre @ carve c (ALIGN n) m @ post)))"
proof -
  define k where "k = ALIGN n"
  have k8: "8 dvd k" using ALIGN_spec[OF n(2)] by (simp add: k_def)
  obtain t h where t: "(let s1 = s\<lparr>klocked := True\<rparr> in if khint s1 = None then s1\<lparr>khint := kheap s1\<rparr> else s1) = t"
      "khint t = Some h" "hint_ok t bs" "heap_rep t lo hi bs" "kbytes t = kbytes s" "khdr t = khdr s"
    using kmalloc_hint_reset[OF ok] by blast
  have nf: "no_free_pair bs" using ok by (simp add: heap_ok_def)
  have scan: "kmalloc_scan (khdr t) k (khint t) = Some (map_option b_addr (List.find (fits k) bs))"
    using kmalloc_scan_hint[OF t(4,3,2)] t(2) by simp
  have run: "kmalloc n s = (case map_option b_addr (List.find (fits k) bs) of
      None \<Rightarrow> Some (None, kheap_unlock t)
    | Some c \<Rightarrow> Some (Some (payload c), kheap_unlock (kmalloc_take c k t)))"
    unfolding kmalloc_def Let_def[of "ALIGN n"] k_def[symmetric] kheap_lock_ok[OF ok]
    using n t(1) scan by (simp add: Let_def)
  show ?thesis
  proof (cases "List.find (fits k) bs")
    case None
    then have "\<forall>b \<in> set bs. b_used b \<or> b_size b < k"
      unfolding find_None_iff not_less[symmetric] by blast
    then show ?thesis using None run t nf
      by (auto simp: k_def heap_ok_def kheap_unlock_def hint_ok_def)
  next
    case (Some b)
    from find_split[OF this] obtain pre post where b: "bs = pre @ b # post" "fits k b"
        "\<forall>x \<in> set pre. \<not> fits k x" by blast
    obtain c m where bc: "b = (c, m, False)" using b(2) by (cases b) auto
    have km: "k \<le> m" using b(2) bc by simp
    have rep: "heap_rep t lo hi (pre @ (c, m, False) # post)" "hint_ok t (pre @ (c, m, False) # post)"
      "no_free_pair (pre @ (c, m, False) # post)"
      using t(3,4) b bc nf by simp_all
    have "heap_ok (kheap_unlock (kmalloc_take c k t)) lo hi (pre @ carve c k m @ post)"
      using kmalloc_take_rep[OF rep(1) km k8] kmalloc_take_hint[OF rep(1) km k8 rep(2)]
        carve_no_free_pair[OF rep(3)] by (simp add: heap_ok_def kheap_unlock_def)
    moreover have "kbytes (kheap_unlock (kmalloc_take c k t)) = kbytes s"
      using t(5) by (simp add: kheap_unlock_def kmalloc_take_def Let_def)
    moreover have "\<not> (\<forall>b \<in> set bs. b_used b \<or> b_size b < k)"
      using b(1) bc km by (auto simp: not_less intro!: bexI[of _ b])
    ultimately show ?thesis using run Some b bc km
      by (intro exI[of _ "Some (payload c)"] exI[of _ "kheap_unlock (kmalloc_take c k t)"])
        (auto simp: k_def payload_def)
  qed
qed

section \<open>Release is correct\<close>

lemma kfree_scan_found:
  "slist (knext s) p (map b_addr (pre @ b # post)) \<Longrightarrow> b_addr b \<notin> b_addr ` set pre \<Longrightarrow>
   kfree_scan (khdr s) (payload (b_addr b)) p prev =
     Some (Some (b_addr b), if pre = [] then prev else Some (b_addr (last pre)))"
proof (induction pre arbitrary: p prev)
  case Nil
  then show ?case by (simp add: kfree_scan.simps)
next
  case (Cons x xs)
  then have "p = Some (b_addr x)" "b_addr x \<noteq> b_addr b"
      "slist (knext s) (h_next (khdr s (b_addr x))) (map b_addr (xs @ b # post))"
    by (auto simp: knext_def[of s "b_addr x"])
  with Cons show ?case by (subst kfree_scan.simps) (simp add: payload_def)
qed

lemma kfree_scan_missing:
  "slist (knext s) p (map b_addr xs) \<Longrightarrow> \<forall>b \<in> set xs. payload (b_addr b) \<noteq> ptr \<Longrightarrow>
   \<exists>q. kfree_scan (khdr s) ptr p prev = Some (None, q)"
proof (induction xs arbitrary: p prev)
  case Nil
  then show ?case by (simp add: kfree_scan.simps)
next
  case (Cons x xs)
  then have "p = Some (b_addr x)" "slist (knext s) (h_next (khdr s (b_addr x))) (map b_addr xs)"
      "payload (b_addr x) \<noteq> ptr"
    by (auto simp: knext_def[of s "b_addr x"])
  with Cons show ?case by (subst kfree_scan.simps) simp
qed

text \<open>Two neighbouring blocks become one, with a header of the given joint size and flag.\<close>

lemma join_rep:
  assumes rep: "heap_rep s lo hi (pre @ (p, n, u) # (c, m, v) # post)"
    and hdr: "khdr s' = (khdr s)(p := \<lparr>h_size = n + HDR + m + of_bool w, h_next = knext s c\<rparr>)"
    and "kheap s' = kheap s"
  shows "heap_rep s' lo hi (pre @ (p, n + HDR + m, w) # post)"
proof -
  have c: "c = p + HDR + n"
    using rep by (auto simp: heap_rep_def tiled_append)
  have ev: "even n" "even m" using rep by (auto simp: heap_rep_def blk_ok_def)
  have "heap_rep s' lo hi (pre @ [(p, n + HDR + m, w)] @ post)"
  proof (rule heap_splice[where mid = "[(p, n, u), (c, m, v)]" and a = p and m = "p + HDR + n + HDR + m"])
    show "heap_rep s lo hi (pre @ [(p, n, u), (c, m, v)] @ post)" using rep by simp
    show "khdr s' x = khdr s x" if "x < p \<or> p + HDR + n + HDR + m \<le> x" for x
      using that hdr by (auto simp: HDR_def)
    show "sseg (knext s') (Some p) (map b_addr [(p, n + HDR + m, w)]) q"
      if "sseg (knext s) (Some p) (map b_addr [(p, n, u), (c, m, v)]) q" for q
      using that hdr by (simp add: knext_def)
  qed (use c ev hdr assms(3) in \<open>auto simp: blk_ok_def HDR_def\<close>)
  then show ?thesis by simp
qed

fun joined :: "blk \<Rightarrow> blk list \<Rightarrow> blk \<times> blk list" where
  "joined (c, m, u) ((d, n, False) # post) = ((c, m + HDR + n, False), post)"
| "joined b post = (b, post)"

lemma join_next_rep:
  assumes rep: "heap_rep s lo hi (pre @ (c, m, u) # post)"
  shows "heap_rep (join_next c s) lo hi (pre @ fst (joined (c, m, u) post) # snd (joined (c, m, u) post))"
proof (cases post)
  case Nil
  then show ?thesis using rep heap_rep_next[OF rep] by (simp add: join_next_def knext_def)
next
  case (Cons b post')
  obtain d n v where b: "b = (d, n, v)" by (cases b) auto
  have nx: "h_next (khdr s c) = Some d" using heap_rep_next[OF rep] Cons b by (simp add: knext_def)
  have hd: "h_size (khdr s d) = n + of_bool v" "even n" "d + HDR + n \<le> 65536"
    using heap_rep_hdr[of s lo hi "pre @ [(c, m, u)]" d n v post'] rep Cons b by simp_all
  have hc: "h_size (khdr s c) = m + of_bool u" "even m" using heap_rep_hdr[OF rep] by simp_all
  show ?thesis
  proof (cases v)
    case True
    then show ?thesis using rep Cons b nx hd by (cases n) (simp_all add: join_next_def)
  next
    case False
    have "d = c + HDR + m" using rep Cons b by (auto simp: heap_rep_def tiled_append)
    moreover have "8 \<le> c" using heap_rep_hdr[OF rep] by simp
    ultimately have "u16 (m + n + HDR) = m + HDR + n"
      using hd by (simp add: HDR_def)
    moreover have "SIZE (m + of_bool u) = m" using hc by (cases u) simp_all
    ultimately have "khdr (join_next c s) = (khdr s)(c := \<lparr>h_size = m + HDR + n, h_next = knext s d\<rparr>)"
      using nx hd hc False by (cases "khdr s c") (simp add: join_next_def knext_def)
    moreover have "kheap (join_next c s) = kheap s" using nx by (simp add: join_next_def)
    ultimately show ?thesis using join_rep[of s lo hi pre c m u d n v post' "join_next c s" False] rep Cons b False
      by simp
  qed
qed

lemma join_next_frame [simp]:
  "khint (join_next c s) = khint s" "kbytes (join_next c s) = kbytes s" "klocked (join_next c s) = klocked s"
  by (simp_all add: join_next_def split: option.split)

lemma flag_clear_rep:
  assumes rep: "heap_rep s lo hi (pre @ (c, m, u) # post)"
  shows "heap_rep (upd_hdr c (\<lambda>h. h\<lparr>h_size := SIZE (h_size h)\<rparr>) s) lo hi (pre @ (c, m, False) # post)"
proof -
  have h: "h_size (khdr s c) = m + of_bool u" "even m" using heap_rep_hdr[OF rep] by simp_all
  then have sz: "SIZE (m + of_bool u) = m" by (cases u) simp_all
  have "heap_rep (upd_hdr c (\<lambda>h. h\<lparr>h_size := SIZE (h_size h)\<rparr>) s) lo hi (pre @ [(c, m, False)] @ post)"
    by (rule heap_splice[where mid = "[(c, m, u)]" and a = c and m = "c + HDR + m"])
      (use rep h sz in \<open>auto simp: blk_ok_def HDR_def knext_def\<close>)
  then show ?thesis by simp
qed

text \<open>The first step of \<open>kfree\<close>: the block and a free predecessor become one.\<close>

definition join_prev :: "nat \<Rightarrow> nat option \<Rightarrow> kheap \<Rightarrow> nat \<times> kheap" where
  "join_prev c prev s = (case prev of
     Some p \<Rightarrow> if \<not> FLAG (h_size (khdr s p))
       then (p, upd_hdr p (\<lambda>h. h\<lparr>h_size := u16 (SIZE (h_size h) + SIZE (h_size (khdr s c)) + HDR),
                  h_next := h_next (khdr s c)\<rparr>) s)
       else (c, s)
   | None \<Rightarrow> (c, s))"

lemma kfree_take_join:
  "kfree_take c prev s = (let (c', s1) = join_prev c prev s;
      s3 = upd_hdr c' (\<lambda>h. h\<lparr>h_size := SIZE (h_size h)\<rparr>) (join_next c' s1)
    in (if ptr_below c' (khint s) then s3\<lparr>khint := Some c'\<rparr> else s3))"
proof -
  have "khint (snd (join_prev c prev s)) = khint s"
    by (simp add: join_prev_def split: option.split)
  then show ?thesis
    by (simp add: kfree_take_def join_prev_def Let_def split: option.split prod.split)
qed

lemma join_prev_rep:
  assumes rep: "heap_rep s lo hi (pre @ (c, m, True) # post)"
    and prev: "prev = (if pre = [] then None else Some (b_addr (last pre)))"
  shows "\<exists>pre' c' m' s1. join_prev c prev s = (c', s1) \<and> heap_rep s1 lo hi (pre' @ (c', m', pre' = pre) # post) \<and>
     khint s1 = khint s \<and> kbytes s1 = kbytes s \<and> klocked s1 = klocked s \<and>
     (pre' = pre \<and> c' = c \<and> m' = m \<and> (pre \<noteq> [] \<longrightarrow> b_used (last pre)) \<or>
      (\<exists>n. pre = pre' @ [(c', n, False)] \<and> m' = n + HDR + m))"
proof (cases pre rule: rev_cases)
  case Nil
  then show ?thesis using rep prev
    by (intro exI[of _ pre] exI[of _ c] exI[of _ m] exI[of _ s]) (simp add: join_prev_def)
next
  case (snoc ps b)
  obtain p n u where b: "b = (p, n, u)" by (cases b) auto
  have hp: "h_size (khdr s p) = n + of_bool u" "even n" "8 \<le> p"
    using heap_rep_hdr[of s lo hi ps p n u "(c, m, True) # post"] rep snoc b by simp_all
  have hc: "h_size (khdr s c) = m + 1" "even m" "c + HDR + m \<le> 65536"
    using heap_rep_hdr[OF rep] by simp_all
  show ?thesis
  proof (cases u)
    case True
    then show ?thesis using rep prev snoc b hp
      by (intro exI[of _ pre] exI[of _ c] exI[of _ m] exI[of _ s]) (simp add: join_prev_def)
  next
    case False
    have "c = p + HDR + n" using rep snoc b by (auto simp: heap_rep_def tiled_append)
    then have w: "u16 (n + m + HDR) = n + HDR + m" using hp hc by (simp add: HDR_def)
    let ?s1 = "upd_hdr p (\<lambda>h. h\<lparr>h_size := u16 (SIZE (h_size h) + SIZE (h_size (khdr s c)) + HDR),
                  h_next := h_next (khdr s c)\<rparr>) s"
    have "khdr ?s1 = (khdr s)(p := \<lparr>h_size = n + HDR + m + of_bool False, h_next = knext s c\<rparr>)"
      using hp hc w False by (cases "khdr s p") (simp add: knext_def)
    from join_rep[of s lo hi ps p n u c m True post, OF _ this]
    have "heap_rep ?s1 lo hi (ps @ (p, n + HDR + m, False) # post)" using rep snoc b by simp
    moreover have "join_prev c prev s = (p, ?s1)" using prev snoc b hp False by (simp add: join_prev_def)
    ultimately show ?thesis using snoc b False
      by (intro exI[of _ ps] exI[of _ p] exI[of _ "n + HDR + m"] exI[of _ ?s1]) simp
  qed
qed

lemma joined_cases:
  "\<exists>m'' u'' post'. joined (c, m, u) post = ((c, m'', u''), post') \<and>
     (post' = post \<and> (post \<noteq> [] \<longrightarrow> b_used (hd post)) \<or> (\<exists>d n. post = (d, n, False) # post'))"
  by (cases "((c, m, u), post)" rule: joined.cases) auto

text \<open>
  A list with one block released, \<open>c'\<close> being the block it became part of: a neighbour on
  either side that was free is absorbed.
\<close>

lemma released_ok:
  assumes nf: "no_free_pair (pre @ (c, m, True) # post)"
    and p: "pre' = pre \<and> c' = c \<and> (pre \<noteq> [] \<longrightarrow> b_used (last pre)) \<or> (\<exists>n. pre = pre' @ [(c', n, False)])"
    and q: "post' = post \<and> (post \<noteq> [] \<longrightarrow> b_used (hd post)) \<or> (\<exists>d n. post = (d, n, False) # post')"
  shows "no_free_pair (pre' @ (c', M, False) # post')"
    and "filter b_used (pre' @ (c', M, False) # post') = filter b_used (pre @ post)"
  using assms by (auto simp: no_free_pair_def successively_append_iff successively_Cons)

lemma released_hint:
  assumes rep: "heap_rep s lo hi (pre @ (c, m, True) # post)"
    and h: "hint_ok s (pre @ (c, m, True) # post)"
    and rep': "heap_rep s' lo hi (pre' @ (c', M, False) # post')"
    and p: "pre' = pre \<and> c' = c \<or> (\<exists>n. pre = pre' @ [(c', n, False)])"
    and q: "post' = post \<or> (\<exists>d n. post = (d, n, False) # post')"
    and k: "khint s' = (if ptr_below c' (khint s) then Some c' else khint s)"
  shows "hint_ok s' (pre' @ (c', M, False) # post')"
proof (cases "khint s")
  case None
  then show ?thesis using k by (simp add: hint_ok_def ptr_below_def)
next
  case (Some h0)
  have used: "b_used b" if "b \<in> set (pre @ (c, m, True) # post)" "b_addr b < h0" for b
    using h Some that unfolding hint_ok_def by (simp del: set_append)
  have mem: "h0 \<in> b_addr ` set (pre @ (c, m, True) # post)" using h Some unfolding hint_ok_def by simp
  have sub: "set pre' \<subseteq> set pre" using p by auto
  have lt: "b_addr b < c'" if "b \<in> set pre'" for b
    using heap_rep_order[OF rep', of b "(c', M, False)"] that by simp
  have gt: "c' < b_addr b" if "b \<in> set post'" for b
    using heap_rep_order[of s' lo hi "pre' @ [(c', M, False)]" post' "(c', M, False)" b] rep' that by simp
  show ?thesis
  proof (cases "c' < h0")
    case True
    have "b_used b" if "b \<in> set (pre' @ (c', M, False) # post')" "b_addr b < c'" for b
    proof -
      have "b \<in> set pre'" using that gt[of b] by auto
      then show ?thesis using used[of b] sub lt True by fastforce
    qed
    then show ?thesis using k Some True unfolding hint_ok_def by (simp add: ptr_below_def)
  next
    case False
    have used': "b_used b" if "b \<in> set (pre' @ (c', M, False) # post')" "b_addr b < h0" for b
    proof -
      have "b \<in> set pre'" using that gt[of b] False by auto
      then show ?thesis using used[of b] sub that by auto
    qed
    have cc: "c' \<le> c"
      using p heap_rep_order[OF rep, of "(c', _, False)" "(c, m, True)"] by fastforce
    obtain b0 where b0: "b0 \<in> set (pre @ (c, m, True) # post)" "b_addr b0 = h0" using mem by blast
    have "b0 \<notin> set post"
      using heap_rep_order[of s lo hi "pre @ [(c, m, True)]" post "(c, m, True)" b0] rep cc b0(2) False by auto
    then have "b0 \<in> set pre \<or> h0 = c" using b0 by auto
    then have "h0 \<in> b_addr ` set (pre' @ (c', M, False) # post')"
    proof
      assume "h0 = c"
      then have "c' = c" using False cc by simp
      then show ?thesis using \<open>h0 = c\<close> by simp
    next
      assume "b0 \<in> set pre"
      with p b0(2) show ?thesis by auto
    qed
    then show ?thesis using k Some False used' unfolding hint_ok_def by (simp add: ptr_below_def)
  qed
qed

lemma kfree_take_ok:
  assumes rep: "heap_rep s lo hi (pre @ (c, m, True) # post)"
    and nf: "no_free_pair (pre @ (c, m, True) # post)" and h: "hint_ok s (pre @ (c, m, True) # post)"
    and prev: "prev = (if pre = [] then None else Some (b_addr (last pre)))"
  shows "\<exists>bs'. heap_rep (kfree_take c prev s) lo hi bs' \<and> no_free_pair bs' \<and> hint_ok (kfree_take c prev s) bs' \<and>
    filter b_used bs' = filter b_used (pre @ post) \<and> kbytes (kfree_take c prev s) = kbytes s"
proof -
  from join_prev_rep[OF rep prev] obtain pre' c' m' s1 where j: "join_prev c prev s = (c', s1)"
      "heap_rep s1 lo hi (pre' @ (c', m', pre' = pre) # post)" "khint s1 = khint s" "kbytes s1 = kbytes s"
      "pre' = pre \<and> c' = c \<and> m' = m \<and> (pre \<noteq> [] \<longrightarrow> b_used (last pre)) \<or>
       (\<exists>n. pre = pre' @ [(c', n, False)] \<and> m' = n + HDR + m)" by blast
  obtain m'' u'' post' where jd: "joined (c', m', pre' = pre) post = ((c', m'', u''), post')"
      "post' = post \<and> (post \<noteq> [] \<longrightarrow> b_used (hd post)) \<or> (\<exists>d n. post = (d, n, False) # post')"
    using joined_cases[of c' m' "pre' = pre" post] by (elim exE conjE) (rule that)
  have "heap_rep (join_next c' s1) lo hi (pre' @ (c', m'', u'') # post')"
    using join_next_rep[OF j(2)] jd(1) by simp
  from flag_clear_rep[OF this]
  have r3: "heap_rep (upd_hdr c' (\<lambda>h. h\<lparr>h_size := SIZE (h_size h)\<rparr>) (join_next c' s1)) lo hi
      (pre' @ (c', m'', False) # post')" .
  define s' where "s' = kfree_take c prev s"
  have s': "heap_rep s' lo hi (pre' @ (c', m'', False) # post')"
    "khint s' = (if ptr_below c' (khint s) then Some c' else khint s)" "kbytes s' = kbytes s"
    using r3 j(1,3,4) by (simp_all add: s'_def kfree_take_join Let_def)
  have pp: "pre' = pre \<and> c' = c \<and> (pre \<noteq> [] \<longrightarrow> b_used (last pre)) \<or> (\<exists>n. pre = pre' @ [(c', n, False)])"
    using j(5) by blast
  have "hint_ok s' (pre' @ (c', m'', False) # post')"
    by (rule released_hint[OF rep h s'(1) _ _ s'(2)]) (use pp jd(2) in blast)+
  then show ?thesis using released_ok[OF nf pp jd(2), of m''] s' unfolding s'_def by blast
qed

lemma kfree_spec:
  assumes ok: "heap_ok s lo hi (pre @ (c, m, True) # post)"
  shows "\<exists>s' bs'. kfree (Some (c + HDR)) s = Some s' \<and> heap_ok s' lo hi bs' \<and>
    filter b_used bs' = filter b_used (pre @ post) \<and> kbytes s' = kbytes s"
proof -
  define t where "t = s\<lparr>klocked := True\<rparr>"
  have t: "heap_rep t lo hi (pre @ (c, m, True) # post)" "no_free_pair (pre @ (c, m, True) # post)"
      "hint_ok t (pre @ (c, m, True) # post)"
    using ok by (simp_all add: heap_ok_def t_def)
  define prev where "prev = (if pre = [] then None else Some (b_addr (last pre)))"
  have "c \<notin> b_addr ` set pre"
    using heap_rep_order[OF t(1), of _ "(c, m, True)"] by force
  moreover have "slist (knext t) (kheap t) (map b_addr (pre @ (c, m, True) # post))"
    using t(1) by (simp add: heap_rep_def)
  ultimately have "kfree_scan (khdr t) (payload c) (kheap t) None = Some (Some c, prev)"
    using kfree_scan_found[of t "kheap t" pre "(c, m, True)" post None] by (simp add: prev_def)
  then have run: "kfree (Some (c + HDR)) s = Some (kheap_unlock (kfree_take c prev t))"
    using kheap_lock_ok[OF ok] by (simp add: kfree_def t_def payload_def)
  from kfree_take_ok[OF t prev_def] obtain bs' where
      "heap_rep (kfree_take c prev t) lo hi bs'" "no_free_pair bs'" "hint_ok (kfree_take c prev t) bs'"
      "filter b_used bs' = filter b_used (pre @ post)" "kbytes (kfree_take c prev t) = kbytes t" by blast
  then show ?thesis using run
    by (intro exI[of _ "kheap_unlock (kfree_take c prev t)"] exI[of _ bs'])
      (simp add: heap_ok_def kheap_unlock_def t_def)
qed

lemma kfree_unknown_panics:
  assumes ok: "heap_ok s lo hi bs" and "\<forall>b \<in> set bs. b_addr b + HDR \<noteq> p"
  shows "kfree (Some p) s = None"
proof -
  have "slist (knext (s\<lparr>klocked := True\<rparr>)) (kheap s) (map b_addr bs)"
    using ok heap_rep_frame(2)[of True s lo hi bs] by (simp add: heap_ok_def heap_rep_def)
  from kfree_scan_missing[OF this, of p None] assms(2)
  obtain q where "kfree_scan (khdr (s\<lparr>klocked := True\<rparr>)) p (kheap s) None = Some (None, q)"
    by (auto simp: payload_def)
  then show ?thesis using kheap_lock_ok[OF ok] by (simp add: kfree_def)
qed

section \<open>Resizing is correct\<close>

lemma cut_rep:
  assumes rep: "heap_rep s lo hi (pre @ (c, m, u) # post)" and k: "even k" "k + HDR \<le> m"
    and hdr: "khdr s' = (khdr s)(c := \<lparr>h_size = k + of_bool w, h_next = Some (c + HDR + k)\<rparr>,
       c + HDR + k := \<lparr>h_size = m - k - HDR, h_next = knext s c\<rparr>)"
    and hp: "kheap s' = kheap s"
  shows "heap_rep s' lo hi (pre @ (c, k, w) # (c + HDR + k, m - k - HDR, False) # post)"
proof -
  have ev: "even m" using heap_rep_hdr[OF rep] by simp
  have "heap_rep s' lo hi (pre @ [(c, k, w), (c + HDR + k, m - k - HDR, False)] @ post)"
  proof (rule heap_splice[where mid = "[(c, m, u)]" and a = c and m = "c + HDR + m"])
    show "heap_rep s lo hi (pre @ [(c, m, u)] @ post)" using rep by simp
    show "khdr s' x = khdr s x" if "x < c \<or> c + HDR + m \<le> x" for x
      using that hdr k by (auto simp: HDR_def)
    show "sseg (knext s') (Some c) (map b_addr [(c, k, w), (c + HDR + k, m - k - HDR, False)]) q"
      if "sseg (knext s) (Some c) (map b_addr [(c, m, u)]) q" for q
      using that hdr by (auto simp: knext_def HDR_def)
  qed (use k ev hdr hp in \<open>auto simp: blk_ok_def HDR_def\<close>)
  then show ?thesis by simp
qed

lemma krealloc_shrink_frame [simp]:
  "kbytes (krealloc_shrink c k s) = kbytes s" "klocked (krealloc_shrink c k s) = klocked s"
  by (simp_all add: krealloc_shrink_def Let_def)

lemma heap_hint_before:
  assumes "heap_rep s lo hi (pre @ (c, m, u) # post)" and "hint_ok s (pre @ (c, m, u) # post)"
    and "khint s = Some h" and "h \<le> c"
  shows "h = c \<or> h \<in> b_addr ` set pre"
proof -
  have "h \<in> b_addr ` set (pre @ (c, m, u) # post)" using assms(2,3) unfolding hint_ok_def by simp
  then obtain b where b: "b \<in> set (pre @ (c, m, u) # post)" "b_addr b = h" by blast
  have "b \<notin> set post"
    using heap_rep_order[of s lo hi "pre @ [(c, m, u)]" post "(c, m, u)" b] assms(1,4) b(2) by auto
  then show ?thesis using b by auto
qed

lemma krealloc_shrink_ok:
  assumes rep: "heap_rep s lo hi (pre @ (c, m, True) # post)"
    and nf: "no_free_pair (pre @ (c, m, True) # post)" and h: "hint_ok s (pre @ (c, m, True) # post)"
    and k: "k \<le> m" "8 dvd k"
  shows "\<exists>m' post'. k \<le> m' \<and> m' \<le> m \<and> heap_rep (krealloc_shrink c k s) lo hi (pre @ (c, m', True) # post') \<and>
    no_free_pair (pre @ (c, m', True) # post') \<and>
    hint_ok (krealloc_shrink c k s) (pre @ (c, m', True) # post') \<and> filter b_used post' = filter b_used post"
proof -
  have hc: "h_size (khdr s c) = m + 1" "even m" "8 \<le> c" "c + HDR + m \<le> 65536"
    using heap_rep_hdr[OF rep] by simp_all
  have w: "u16 (k + HDR + ANTIFRAG) = k + HDR + ANTIFRAG"
  proof (rule u16_id)
    obtain j where "k = 8 * j" using k(2) by blast
    then show "k + HDR + ANTIFRAG < 65536" using hc k(1) by (simp add: HDR_def ANTIFRAG_def) presburger
  qed
  have ev: "even k" using k(2) by (auto elim: dvdE)
  show ?thesis
  proof (cases "k + HDR + ANTIFRAG < m")
    case False
    then have "krealloc_shrink c k s = s" using hc w by (simp add: krealloc_shrink_def)
    then show ?thesis using assms by (intro exI[of _ m] exI[of _ post]) simp
  next
    case True
    define sp where "sp = c + HDR + k"
    define s2 where "s2 = upd_hdr c (\<lambda>h. h\<lparr>h_size := SIZE k + 1, h_next := Some sp\<rparr>)
      (upd_hdr sp (\<lambda>h. h\<lparr>h_next := h_next (khdr s c), h_size := sub16 (sub16 m k) HDR\<rparr>) s)"
    have sub: "sub16 (sub16 m k) HDR = m - k - HDR"
      using True hc by (simp add: HDR_def)
    have run: "krealloc_shrink c k s = (let s3 = join_next sp s2 in
        if ptr_below sp (khint s) then s3\<lparr>khint := Some sp\<rparr> else s3)"
      using True w hc by (simp add: krealloc_shrink_def s2_def sp_def payload_def Let_def)
    have "khdr s2 = (khdr s)(c := \<lparr>h_size = k + of_bool True, h_next = Some sp\<rparr>,
        sp := \<lparr>h_size = m - k - HDR, h_next = knext s c\<rparr>)"
      using sub ev by (cases "khdr s c"; cases "khdr s sp")
        (auto simp: s2_def knext_def sp_def HDR_def fun_eq_iff)
    from cut_rep[OF rep ev _ this[unfolded sp_def]] True
    have r2: "heap_rep s2 lo hi ((pre @ [(c, k, True)]) @ (sp, m - k - HDR, False) # post)"
      by (simp add: s2_def sp_def)
    obtain M u' post' where jd: "joined (sp, m - k - HDR, False) post = ((sp, M, u'), post')"
        "post' = post \<and> (post \<noteq> [] \<longrightarrow> b_used (hd post)) \<or> (\<exists>d n. post = (d, n, False) # post')"
      using joined_cases[of sp "m - k - HDR" False post] by (elim exE conjE) (rule that)
    have "u' = False" using jd by (cases "((sp, m - k - HDR, False), post)" rule: joined.cases) auto
    define s' where "s' = krealloc_shrink c k s"
    have r': "heap_rep s' lo hi (pre @ (c, k, True) # (sp, M, False) # post')"
      using join_next_rep[OF r2] jd(1) \<open>u' = False\<close> run by (simp add: s'_def Let_def)
    have hint': "khint s' = (if ptr_below sp (khint s) then Some sp else khint s)"
      using run by (simp add: s'_def Let_def s2_def)
    have nf': "no_free_pair (pre @ (c, k, True) # (sp, M, False) # post')"
      using nf jd(2) by (auto simp: no_free_pair_def successively_append_iff successively_Cons)
    have ltp: "b_addr b < c" if "b \<in> set pre" for b
      using heap_rep_order[OF rep, of b "(c, m, True)"] that by simp
    have gtp: "sp < b_addr b" if "b \<in> set post'" for b
      using heap_rep_order[of s' lo hi "pre @ [(c, k, True), (sp, M, False)]" post' "(sp, M, False)" b] r' that by simp
    have "hint_ok s' (pre @ (c, k, True) # (sp, M, False) # post')"
    proof (cases "khint s")
      case None
      then show ?thesis using hint' by (simp add: hint_ok_def ptr_below_def)
    next
      case (Some h0)
      have used: "b_used b" if "b \<in> set pre" "b_addr b < h0" for b
        using h Some that unfolding hint_ok_def by simp
      show ?thesis
      proof (cases "sp < h0")
        case True
        have "b_used b" if "b \<in> set (pre @ (c, k, True) # (sp, M, False) # post')" "b_addr b < sp" for b
          using that gtp[of b] used[of b] True by auto
        then show ?thesis using hint' Some True unfolding hint_ok_def by (simp add: ptr_below_def)
      next
        case False
        have "h0 \<le> c"
        proof (rule ccontr)
          assume n: "\<not> h0 \<le> c"
          have "h0 \<in> b_addr ` set (pre @ (c, m, True) # post)" using h Some unfolding hint_ok_def by simp
          then obtain b where b: "b \<in> set (pre @ (c, m, True) # post)" "b_addr b = h0" by blast
          then have "b \<in> set post" using n ltp[of b] by auto
          moreover obtain e where "tiled (c + HDR + m) post e"
            using rep by (auto simp: heap_rep_def tiled_append)
          ultimately have "c + HDR + m \<le> h0" using tiled_bounds[of "c + HDR + m" post e b] b(2) by simp
          then show False using False \<open>k + HDR + ANTIFRAG < m\<close> by (simp add: sp_def)
        qed
        from heap_hint_before[OF rep h Some this]
        have "h0 \<in> b_addr ` set (pre @ (c, k, True) # (sp, M, False) # post')" by auto
        moreover have "b_used b" if "b \<in> set (pre @ (c, k, True) # (sp, M, False) # post')" "b_addr b < h0" for b
          using that gtp[of b] used[of b] False by auto
        ultimately show ?thesis using hint' Some False unfolding hint_ok_def by (simp add: ptr_below_def)
      qed
    qed
    then show ?thesis using r' nf' jd(2) True unfolding s'_def
      by (intro exI[of _ k] exI[of _ "(sp, M, False) # post'"]) auto
  qed
qed

lemma krealloc_grow_ok:
  assumes rep: "heap_rep s lo hi (pre @ (c, m, True) # (d, n, False) # post)"
    and nf: "no_free_pair (pre @ (c, m, True) # (d, n, False) # post)"
    and h: "hint_ok s (pre @ (c, m, True) # (d, n, False) # post)" and hn: "khint s = Some h0"
    and k: "k \<le> m + HDR + n" "8 dvd k"
  shows "\<exists>m' post'. k \<le> m' \<and> heap_rep (krealloc_grow c d (m + HDR + n) k s) lo hi (pre @ (c, m', True) # post') \<and>
    no_free_pair (pre @ (c, m', True) # post') \<and>
    hint_ok (krealloc_grow c d (m + HDR + n) k s) (pre @ (c, m', True) # post') \<and>
    filter b_used post' = filter b_used post"
proof -
  define t where "t = m + HDR + n"
  define sp where "sp = c + HDR + k"
  define s' where "s' = krealloc_grow c d t k s"
  have hc: "even m" "8 \<le> c" using heap_rep_hdr[OF rep] by simp_all
  have hd: "even n" "d + HDR + n \<le> 65536"
    using heap_rep_hdr[of s lo hi "pre @ [(c, m, True)]" d n False post] rep by simp_all
  have dc: "d = c + HDR + m" using rep by (auto simp: heap_rep_def tiled_append)
  have w: "u16 (k + HDR + ANTIFRAG) = k + HDR + ANTIFRAG"
  proof (rule u16_id)
    obtain j where "k = 8 * j" using k(2) by blast
    then show "k + HDR + ANTIFRAG < 65536" using hc hd dc k(1) by (simp add: HDR_def ANTIFRAG_def) presburger
  qed
  have ev: "even k" "even t" using k(2) hc hd by (auto elim: dvdE simp: t_def HDR_def)
  define nd where "nd = knext s d"
  have nd: "nd = (if post = [] then None else Some (b_addr (hd post)))"
    using heap_rep_next[of s lo hi "pre @ [(c, m, True)]" "(d, n, False)" post] rep by (simp add: nd_def)
  define s1 where "s1 = (if khint s = Some d then s\<lparr>khint := h_next (khdr s d)\<rparr> else s)"
  define s2 where "s2 = upd_hdr c (\<lambda>h. h\<lparr>h_size := SIZE t + 1, h_next := h_next (khdr s1 d)\<rparr>) s1"
  have "khdr s2 = (khdr s)(c := \<lparr>h_size = m + HDR + n + of_bool True, h_next = knext s d\<rparr>)"
    using ev by (cases "khdr s c") (simp add: s2_def s1_def t_def knext_def)
  from join_rep[OF rep this] have r2: "heap_rep s2 lo hi (pre @ (c, t, True) # post)"
    by (simp add: s2_def s1_def t_def)
  have ltp: "b_addr b < c" if "b \<in> set pre" for b
    using heap_rep_order[OF rep, of b "(c, m, True)"] that by simp
  have gtd: "d < b_addr b" if "b \<in> set post" for b
    using heap_rep_order[of s lo hi "pre @ [(c, m, True), (d, n, False)]" post "(d, n, False)" b] rep that by simp
  have used: "b_used b" if "b \<in> set (pre @ (c, m, True) # (d, n, False) # post)" "b_addr b < h0" for b
    using h hn that unfolding hint_ok_def by (simp del: set_append)
  have hd0: "h0 \<le> d" using used[of "(d, n, False)"] by force
  have hint2: "khint s2 = (if h0 = d then nd else Some h0)"
    using hn by (simp add: s2_def s1_def nd_def knext_def)
  have h0c: "h0 = c \<or> h0 \<in> b_addr ` set pre" if "h0 \<noteq> d"
  proof -
    have "h0 \<in> b_addr ` set (pre @ (c, m, True) # (d, n, False) # post)" using h hn unfolding hint_ok_def by simp
    then obtain b where b: "b \<in> set (pre @ (c, m, True) # (d, n, False) # post)" "b_addr b = h0" by blast
    then have "b \<notin> set post" using gtd[of b] hd0 by auto
    then show ?thesis using b that by auto
  qed
  have gtp: "c < b_addr b" if "b \<in> set post" for b using gtd[OF that] dc by simp
  show ?thesis
  proof (cases "k + HDR + ANTIFRAG < t")
    case False
    then have s': "s' = s2" using w by (simp add: s'_def krealloc_grow_def s1_def s2_def Let_def)
    have "hint_ok s2 (pre @ (c, t, True) # post)"
    proof (cases "h0 = d")
      case True
      show ?thesis
      proof (cases post)
        case Nil
        then show ?thesis using hint2 True nd by (simp add: hint_ok_def)
      next
        case (Cons y ys)
        have yl: "b_addr y < b_addr b" if "b \<in> set ys" for b
          using heap_rep_order[of s2 lo hi "pre @ [(c, t, True), y]" ys y b] r2 Cons that by simp
        have "b_used b" if "b \<in> set (pre @ (c, t, True) # post)" "b_addr b < b_addr y" for b
        proof -
          have "b \<in> set pre \<or> b = (c, t, True)" using that yl[of b] Cons by auto
          then show ?thesis using used[of b] ltp[of b] dc True by auto
        qed
        then show ?thesis using hint2 True nd Cons unfolding hint_ok_def by simp
      qed
    next
      case False
      have "b_used b" if "b \<in> set (pre @ (c, t, True) # post)" "b_addr b < h0" for b
        using that used[of b] by auto
      then show ?thesis using hint2 False h0c[OF False] unfolding hint_ok_def by auto
    qed
    moreover have "no_free_pair (pre @ (c, t, True) # post)"
      using nf by (auto simp: no_free_pair_def successively_append_iff successively_Cons)
    ultimately show ?thesis using r2 s' k(1) unfolding s'_def t_def
      by (intro exI[of _ "m + HDR + n"] exI[of _ post]) (simp add: t_def)
  next
    case True
    have sub: "sub16 (sub16 t k) HDR = t - k - HDR" using True hc hd dc by (simp add: HDR_def t_def)
    have n2: "h_next (khdr s2 c) = nd" by (simp add: s2_def s1_def nd_def knext_def)
    define s4 where "s4 = upd_hdr sp (\<lambda>h. h\<lparr>h_next := nd, h_size := t - k - HDR\<rparr>)
        (upd_hdr c (\<lambda>h. h\<lparr>h_size := k + 1\<rparr>) s2)"
    have spc: "sp \<noteq> c" by (simp add: sp_def HDR_def)
    have g: "krealloc_grow c d t k s = upd_hdr c (\<lambda>h. h\<lparr>h_next := Some sp\<rparr>)
        (if h_next (khdr s4 c) = khint s4 then s4\<lparr>khint := Some sp\<rparr> else s4)"
      unfolding krealloc_grow_def s1_def[symmetric] Let_def s2_def[symmetric] w
      using True sub ev n2 by (simp add: s4_def sp_def payload_def)
    have "h_next (khdr s4 c) = nd" using n2 spc by (simp add: s4_def)
    then have s': "s' = upd_hdr c (\<lambda>h. h\<lparr>h_next := Some sp\<rparr>)
        (if nd = khint s2 then s4\<lparr>khint := Some sp\<rparr> else s4)"
      using g by (simp add: s'_def s4_def)
    have hs: "khdr s' = (khdr s2)(c := \<lparr>h_size = k + of_bool True, h_next = Some sp\<rparr>,
          sp := \<lparr>h_size = t - k - HDR, h_next = knext s2 c\<rparr>)"
        "kheap s' = kheap s2" "khint s' = (if nd = khint s2 then Some sp else khint s2)"
    proof -
      show "kheap s' = kheap s2" "khint s' = (if nd = khint s2 then Some sp else khint s2)"
        by (simp_all add: s' s4_def)
      have "khdr s' x = ((khdr s2)(c := \<lparr>h_size = k + of_bool True, h_next = Some sp\<rparr>,
          sp := \<lparr>h_size = t - k - HDR, h_next = knext s2 c\<rparr>)) x" for x
        using spc n2 by (cases "khdr s2 x") (auto simp: s' s4_def knext_def)
      then show "khdr s' = (khdr s2)(c := \<lparr>h_size = k + of_bool True, h_next = Some sp\<rparr>,
          sp := \<lparr>h_size = t - k - HDR, h_next = knext s2 c\<rparr>)" by blast
    qed
    have r': "heap_rep s' lo hi (pre @ (c, k, True) # (sp, t - k - HDR, False) # post)"
      using cut_rep[OF r2 ev(1) _ hs(1)[unfolded sp_def] hs(2)] True by (simp add: sp_def)
    have spd: "sp < b_addr b" if "b \<in> set post" for b
      using heap_rep_order[of s' lo hi "pre @ [(c, k, True), (sp, t - k - HDR, False)]" post
          "(sp, t - k - HDR, False)" b] r' that by simp
    have "hint_ok s' (pre @ (c, k, True) # (sp, t - k - HDR, False) # post)"
    proof (cases "h0 = d")
      case T: True
      have "b_used b" if "b \<in> set (pre @ (c, k, True) # (sp, t - k - HDR, False) # post)" "b_addr b < sp" for b
      proof -
        have "b \<in> set pre \<or> b = (c, k, True)" using that spd[of b] by auto
        then show ?thesis using used[of b] ltp[of b] dc T by auto
      qed
      then show ?thesis using hs(3) hint2 T unfolding hint_ok_def by simp
    next
      case F: False
      have "nd \<noteq> Some h0" using nd gtd[of "hd post"] hd0 by (cases post) auto
      moreover have "b_used b" if "b \<in> set (pre @ (c, k, True) # (sp, t - k - HDR, False) # post)" "b_addr b < h0" for b
      proof -
        have "h0 \<le> c" using h0c[OF F] ltp by force
        then have "b \<in> set pre" using that gtp[of b] by (auto simp: sp_def)
        then show ?thesis using used[of b] that by simp
      qed
      ultimately show ?thesis using hs(3) hint2 F h0c[OF F] unfolding hint_ok_def by auto
    qed
    moreover have "no_free_pair (pre @ (c, k, True) # (sp, t - k - HDR, False) # post)"
      using nf by (auto simp: no_free_pair_def successively_append_iff successively_Cons)
    ultimately show ?thesis using r' unfolding s'_def t_def
      by (intro exI[of _ k] exI[of _ "(sp, t - k - HDR, False) # post"]) (simp add: t_def)
  qed
qed

lemma krealloc_grow_frame [simp]:
  "kbytes (krealloc_grow c d t k s) = kbytes s" "klocked (krealloc_grow c d t k s) = klocked s"
  by (simp_all add: krealloc_grow_def Let_def)

lemma blocks_apart:
  assumes rep: "heap_rep s lo hi bs" and "x \<in> set bs" "y \<in> set bs" "x \<noteq> y"
  shows "b_addr x + HDR + b_size x \<le> b_addr y \<or> b_addr y + HDR + b_size y \<le> b_addr x"
proof -
  have *: "b_addr u + HDR + b_size u \<le> b_addr v" if "bs = as @ u # cs" "v \<in> set cs" for u v as cs
  proof -
    obtain n w where u: "u = (b_addr u, n, w)" by (cases u) auto
    then have "tiled (b_addr u + HDR + n) cs hi" using rep that(1)
      by (cases u) (auto simp: heap_rep_def tiled_append)
    then show ?thesis using tiled_bounds[OF _ that(2)] u by (metis fst_conv snd_conv)
  qed
  obtain as cs where bs: "bs = as @ x # cs" using assms(2) by (meson split_list)
  show ?thesis
  proof (cases "y \<in> set cs")
    case True
    then show ?thesis using *[OF bs] by blast
  next
    case False
    then have "y \<in> set as" using assms(3,4) bs by auto
    then obtain a1 a2 where "as = a1 @ y # a2" by (meson split_list)
    then show ?thesis using *[of a1 y "a2 @ x # cs" x] bs by simp
  qed
qed

definition resized :: "kheap \<Rightarrow> kheap \<Rightarrow> nat \<Rightarrow> nat \<Rightarrow> nat \<Rightarrow> blk list \<Rightarrow> blk list \<Rightarrow> nat \<Rightarrow> nat \<Rightarrow> bool" where
  "resized s s' c m n others bs' a m' \<longleftrightarrow> n \<le> m' \<and>
     set (filter b_used bs') = insert (a, m', True) (set (filter b_used others)) \<and>
     (\<forall>i < min m n. kbytes s' (a + HDR + i) = kbytes s (c + HDR + i)) \<and>
     (\<forall>b \<in> set (filter b_used others). a \<noteq> b_addr b \<and>
        (\<forall>i < b_size b. kbytes s' (b_addr b + HDR + i) = kbytes s (b_addr b + HDR + i)))"

lemma other_addr:
  assumes "heap_rep s lo hi (pre @ (c, m, u) # post)" and "b \<in> set (pre @ post)"
  shows "c \<noteq> b_addr b"
  using assms heap_rep_order[of s lo hi pre "(c, m, u) # post" b "(c, m, u)"]
    heap_rep_order[of s lo hi "pre @ [(c, m, u)]" post "(c, m, u)" b] by fastforce

lemma resized_in_place:
  assumes "heap_rep s lo hi (pre @ (c, m, True) # post)" and "filter b_used post' = filter b_used post"
    and "n \<le> m'" and "kbytes s' = kbytes s"
  shows "resized s s' c m n (pre @ post) (pre @ (c, m', True) # post') c m'"
proof -
  have "set (filter b_used (pre @ (c, m', True) # post')) = insert (c, m', True) (set (filter b_used (pre @ post)))"
    using assms(2) by (metis (no_types, lifting) filter.simps(2) filter_append list.simps(15) set_append
        Un_insert_right snd_conv)
  moreover have "c \<noteq> b_addr b" if "b \<in> set (filter b_used (pre @ post))" for b
    by (rule other_addr[OF assms(1)]) (use that in auto)
  ultimately show ?thesis using assms(3,4) by (simp add: resized_def)
qed

text \<open>The new block, the copy and the release of the old block.\<close>

lemma krealloc_move:
  assumes ok: "heap_ok s lo hi bs" and old: "(c, m, True) \<in> set bs"
    and new: "bs = pre @ (a, M, False) # post" "n \<le> k" "k \<le> M" "m < k"
    and ok1: "heap_ok s1 lo hi (pre @ carve a k M @ post)" "kbytes s1 = kbytes s"
  shows "\<exists>s' bs' m'. kfree (Some (c + HDR)) (kcopy (a + HDR) (c + HDR) m s1) = Some s' \<and> heap_ok s' lo hi bs' \<and>
    resized s s' c m n (filter (\<lambda>b. b \<noteq> (c, m, True)) bs) bs' a m'"
proof -
  obtain m' cs where cv: "carve a k M = (a, m', True) # cs" "k \<le> m'" "filter b_used cs = []" "m' \<le> M"
    using new(3) by (cases "k + HDR + ANTIFRAG \<le> M") (auto simp: carve_def)
  define nb where "nb = pre @ (a, m', True) # cs @ post"
  have rep1: "heap_rep s1 lo hi nb" and rep: "heap_rep s lo hi bs"
    using ok ok1 cv by (simp_all add: heap_ok_def nb_def)
  have uset: "set (filter b_used nb) = insert (a, m', True) (set (filter b_used bs))"
    by (simp add: nb_def cv(3) new(1))
  have "(c, m, True) \<in> set (filter b_used nb)" unfolding uset using old by simp
  then have "(c, m, True) \<in> set nb" unfolding set_filter by blast
  then obtain p2 q2 where nb2: "nb = p2 @ (c, m, True) # q2" by (meson split_list)
  define t where "t = kcopy (a + HDR) (c + HDR) m s1"
  have "heap_ok t lo hi (p2 @ (c, m, True) # q2)"
    using ok1(1) cv nb2 by (simp add: t_def kcopy_def heap_ok_def nb_def)
  from kfree_spec[OF this] obtain s' bs' where f: "kfree (Some (c + HDR)) t = Some s'" "heap_ok s' lo hi bs'"
      "filter b_used bs' = filter b_used (p2 @ q2)" "kbytes s' = kbytes t" by blast
  have apart: "c \<noteq> b_addr b" if "b \<in> set (p2 @ q2)" for b
    using other_addr[of s1 lo hi p2 c m True q2 b] rep1 nb2 that by simp
  have "set (p2 @ q2) = set nb - {(c, m, True)}" using nb2 apart[of "(c, m, True)"] by auto
  moreover have ac: "(a, m', True) \<noteq> (c, m, True)" using cv(2) new(4) by auto
  ultimately have us: "set (filter b_used bs') = insert (a, m', True)
      (set (filter b_used (filter (\<lambda>b. b \<noteq> (c, m, True)) bs)))"
  proof -
    assume d: "set (p2 @ q2) = set nb - {(c, m, True)}" and n: "(a, m', True) \<noteq> (c, m, True)"
    have "set (filter b_used bs') = set (filter b_used nb) - {(c, m, True)}"
      unfolding f(3) set_filter d by blast
    also have "\<dots> = insert (a, m', True) (set (filter b_used bs) - {(c, m, True)})"
      using n uset by blast
    also have "set (filter b_used bs) - {(c, m, True)} = set (filter b_used (filter (\<lambda>b. b \<noteq> (c, m, True)) bs))"
      unfolding set_filter by blast
    finally show ?thesis .
  qed
  have by1: "kbytes s' x = (if a + HDR \<le> x \<and> x < a + HDR + m then kbytes s (c + HDR + (x - (a + HDR))) else kbytes s x)" for x
    using f(4) ok1(2) by (simp add: t_def kcopy_def)
  have "a \<noteq> b_addr b \<and> (\<forall>i < b_size b. kbytes s' (b_addr b + HDR + i) = kbytes s (b_addr b + HDR + i))"
    if b: "b \<in> set (filter b_used (filter (\<lambda>b. b \<noteq> (c, m, True)) bs))" for b
  proof -
    have "b \<in> set bs" "b \<noteq> (a, M, False)" using b by auto
    then have "b_addr b + HDR + b_size b \<le> a \<or> a + HDR + M \<le> b_addr b"
      using blocks_apart[OF rep, of b "(a, M, False)"] new(1) by simp
    then show ?thesis using by1 cv(2,4) new(3,4) by (auto simp: HDR_def)
  qed
  moreover have "\<forall>i < min m n. kbytes s' (a + HDR + i) = kbytes s (c + HDR + i)" using by1 by simp
  ultimately show ?thesis using f(1,2) us new(2) cv(2) unfolding t_def resized_def
    by (intro exI[of _ s'] exI[of _ bs'] exI[of _ m']) simp
qed

lemma krealloc_last_faults:
  assumes ok: "heap_ok s lo hi (pre @ [(c, m, True)])" and "0 < n" "m < ALIGN n"
  shows "krealloc (Some (c + HDR)) n s = None"
proof -
  have "heap_rep s lo hi (pre @ [(c, m, True)])" using ok by (simp add: heap_ok_def)
  then have "SIZE (h_size (khdr s c)) = m" "h_next (khdr s c) = None"
    using heap_rep_hdr heap_rep_next[of s lo hi pre "(c, m, True)" "[]"] by (simp_all add: knext_def)
  then show ?thesis using kheap_lock_ok[OF ok] assms(2,3) by (simp add: krealloc_def)
qed

lemma krealloc_spec:
  assumes ok: "heap_ok s lo hi (pre @ (c, m, True) # post)" and n: "0 < n" "n \<le> 65528"
    and safe: "post \<noteq> [] \<or> ALIGN n \<le> m" "khint s \<noteq> None"
  shows "\<exists>r s'. krealloc (Some (c + HDR)) n s = Some (r, s') \<and>
    (r = None \<longrightarrow> heap_ok s' lo hi (pre @ (c, m, True) # post) \<and> kbytes s' = kbytes s) \<and>
    (\<forall>p. r = Some p \<longrightarrow> (\<exists>bs' a m'. p = a + HDR \<and> heap_ok s' lo hi bs' \<and>
       resized s s' c m n (pre @ post) bs' a m'))"
proof -
  define k where "k = ALIGN n"
  have k: "n \<le> k" "0 < k" "k \<le> 65528" "8 dvd k" "ALIGN k = k"
    using ALIGN_spec[OF n(2)] ALIGN_idem[OF n(2)] n(1) by (simp_all add: k_def)
  define t where "t = s\<lparr>klocked := True\<rparr>"
  have lk: "kheap_lock s = Some t" "kheap_unlock t = s"
    using ok by (simp_all add: kheap_lock_def t_def heap_ok_def kheap_unlock_def)
  have rep: "heap_rep t lo hi (pre @ (c, m, True) # post)" "no_free_pair (pre @ (c, m, True) # post)"
    "hint_ok t (pre @ (c, m, True) # post)" and rs: "heap_rep s lo hi (pre @ (c, m, True) # post)"
    using ok by (simp_all add: heap_ok_def t_def)
  have hc: "SIZE (h_size (khdr t c)) = m" using heap_rep_hdr[OF rep(1)] by simp
  show ?thesis
  proof (cases "k \<le> m")
    case shrink: True
    from krealloc_shrink_ok[OF rep shrink k(4)] obtain m' q where r: "k \<le> m'"
        "heap_rep (krealloc_shrink c k t) lo hi (pre @ (c, m', True) # q)"
        "no_free_pair (pre @ (c, m', True) # q)" "hint_ok (krealloc_shrink c k t) (pre @ (c, m', True) # q)"
        "filter b_used q = filter b_used post" by blast
    have "krealloc (Some (c + HDR)) n s = Some (Some (c + HDR), kheap_unlock (krealloc_shrink c k t))"
      using n(1) lk hc shrink by (simp add: krealloc_def k_def[symmetric])
    moreover have "heap_ok (kheap_unlock (krealloc_shrink c k t)) lo hi (pre @ (c, m', True) # q)"
      using r by (simp add: heap_ok_def kheap_unlock_def)
    moreover have "resized s (kheap_unlock (krealloc_shrink c k t)) c m n (pre @ post) (pre @ (c, m', True) # q) c m'"
      by (rule resized_in_place[OF rs r(5)]) (use r(1) k(1) in \<open>simp_all add: kheap_unlock_def t_def\<close>)
    ultimately show ?thesis by auto
  next
    case big: False
    then have ne: "post \<noteq> []" using safe(1) by (simp add: k_def)
  obtain b post' where post: "post = b # post'" using ne by (cases post) auto
  obtain d n' v where b: "b = (d, n', v)" by (cases b) auto
  have nx: "h_next (khdr t c) = Some d" using heap_rep_next[OF rep(1)] post b by (simp add: knext_def)
  have hd: "h_size (khdr t d) = n' + of_bool v" "even n'" "d + HDR + n' \<le> 65536"
    using heap_rep_hdr[of t lo hi "pre @ [(c, m, True)]" d n' v post'] rep(1) post b by simp_all
  have dc: "d = c + HDR + m" using rep(1) post b by (auto simp: heap_rep_def tiled_append)
  have "8 \<le> c" using heap_rep_hdr[OF rep(1)] by simp
  then have tt: "u16 (m + n' + HDR) = m + HDR + n'" using hd dc by (simp add: HDR_def)
  have sd: "SIZE (n' + of_bool v) = n'" using hd by (cases v) simp_all
  have other: "filter (\<lambda>b. b \<noteq> (c, m, True)) (pre @ (c, m, True) # post) = pre @ post"
  proof -
    have "(c, m, True) \<notin> set pre" "(c, m, True) \<notin> set post"
      using other_addr[OF rep(1), of "(c, m, True)"] by auto
    then show ?thesis by (auto intro!: filter_True arg_cong2[where f = "(@)"])
  qed
  consider (grow) "m < k" "\<not> v" "k \<le> m + HDR + n'" | (move) "m < k" "v \<or> m + HDR + n' < k"
    using big by linarith
  then show ?thesis
  proof cases
    case grow
    obtain h0 where h0: "khint t = Some h0" using safe(2) by (auto simp: t_def)
    have "heap_rep t lo hi (pre @ (c, m, True) # (d, n', False) # post')"
      "no_free_pair (pre @ (c, m, True) # (d, n', False) # post')"
      "hint_ok t (pre @ (c, m, True) # (d, n', False) # post')" using rep post b grow(2) by simp_all
    from krealloc_grow_ok[OF this h0 grow(3) k(4)] obtain m' q where r: "k \<le> m'"
        "heap_rep (krealloc_grow c d (m + HDR + n') k t) lo hi (pre @ (c, m', True) # q)"
        "no_free_pair (pre @ (c, m', True) # q)"
        "hint_ok (krealloc_grow c d (m + HDR + n') k t) (pre @ (c, m', True) # q)"
        "filter b_used q = filter b_used post'" by blast
    have fq: "filter b_used q = filter b_used post" using r(5) post b grow(2) by simp
    have "krealloc (Some (c + HDR)) n s = Some (Some (c + HDR), kheap_unlock (krealloc_grow c d (m + HDR + n') k t))"
      using n(1) lk hc grow nx hd tt by (simp add: krealloc_def k_def[symmetric] payload_def)
    moreover have "heap_ok (kheap_unlock (krealloc_grow c d (m + HDR + n') k t)) lo hi (pre @ (c, m', True) # q)"
      using r by (simp add: heap_ok_def kheap_unlock_def)
    moreover have "resized s (kheap_unlock (krealloc_grow c d (m + HDR + n') k t)) c m n (pre @ post)
        (pre @ (c, m', True) # q) c m'"
      by (rule resized_in_place[OF rs fq]) (use r(1) k(1) in \<open>simp_all add: kheap_unlock_def t_def\<close>)
    ultimately show ?thesis by auto
  next
    case move
    from kmalloc_spec[OF ok k(2,3)] k(5) obtain r s1 where r: "kmalloc k s = Some (r, s1)" "kbytes s1 = kbytes s"
        "r = None \<longrightarrow> heap_ok s1 lo hi (pre @ (c, m, True) # post)"
        "\<forall>p. r = Some p \<longrightarrow> (\<exists>pre' a M post'. pre @ (c, m, True) # post = pre' @ (a, M, False) # post' \<and>
           p = a + HDR \<and> k \<le> M \<and> (\<forall>b \<in> set pre'. \<not> fits k b) \<and> heap_ok s1 lo hi (pre' @ carve a k M @ post'))"
      by metis
    have run: "krealloc (Some (c + HDR)) n s = (case r of None \<Rightarrow> Some (None, s1)
        | Some q \<Rightarrow> do { s2 \<leftarrow> kfree (Some (c + HDR)) (kcopy q (c + HDR) (SIZE (h_size (khdr s1 c))) s1); Some (Some q, s2) })"
      using n(1) lk hc move nx hd sd tt r(1)
      by (cases v) (simp_all add: krealloc_def k_def[symmetric])
    show ?thesis
    proof (cases r)
      case None
      then show ?thesis using run r by simp
    next
      case (Some q)
      then obtain pre' a M post'' where a: "pre @ (c, m, True) # post = pre' @ (a, M, False) # post''"
          "q = a + HDR" "k \<le> M" "heap_ok s1 lo hi (pre' @ carve a k M @ post'')" using r(4) by blast
      have "heap_rep s1 lo hi (pre' @ carve a k M @ post'')" using a(4) by (simp add: heap_ok_def)
      moreover have "(c, m, True) \<in> set (pre' @ carve a k M @ post'')"
      proof -
        have "(c, m, True) \<in> set (pre' @ (a, M, False) # post'')" unfolding a(1)[symmetric] by simp
        then show ?thesis by auto
      qed
      ultimately have "blk_ok s1 (c, m, True)" unfolding heap_rep_def by blast
      then have "SIZE (h_size (khdr s1 c)) = m" by (simp add: blk_ok_def)
      then have run': "krealloc (Some (c + HDR)) n s =
          do { s2 \<leftarrow> kfree (Some (c + HDR)) (kcopy (a + HDR) (c + HDR) m s1); Some (Some (a + HDR), s2) }"
        using run Some a(2) by simp
      have "(c, m, True) \<in> set (pre @ (c, m, True) # post)" by simp
      from krealloc_move[OF ok this a(1) k(1) a(3) move(1) a(4) r(2)]
      obtain s' bs' m' where "kfree (Some (c + HDR)) (kcopy (a + HDR) (c + HDR) m s1) = Some s'"
          "heap_ok s' lo hi bs'" "resized s s' c m n (pre @ post) bs' a m'" unfolding other by blast
      then show ?thesis using run' by auto
    qed
  qed
  qed
qed

section \<open>Statistics\<close>

definition used_bytes :: "blk list \<Rightarrow> nat" where "used_bytes bs = sum_list (map b_size (filter b_used bs))"
definition free_bytes :: "blk list \<Rightarrow> nat" where
  "free_bytes bs = sum_list (map b_size (filter (\<lambda>b. \<not> b_used b) bs))"

lemma tiled_total: "tiled a bs e \<Longrightarrow> e = a + HDR * length bs + used_bytes bs + free_bytes bs"
  by (induction a bs e rule: tiled.induct) (auto simp: used_bytes_def free_bytes_def)

lemma kmalloc_stat_loop_spec:
  "slist (knext s) p (map b_addr xs) \<Longrightarrow> \<forall>b \<in> set xs. blk_ok s b \<Longrightarrow>
   u + used_bytes xs < 65536 \<Longrightarrow> f + free_bytes xs < 65536 \<Longrightarrow>
   kmalloc_stat_loop (khdr s) p u f = Some (u + used_bytes xs, f + free_bytes xs)"
proof (induction xs arbitrary: p u f)
  case Nil
  then show ?case by (simp add: kmalloc_stat_loop.simps used_bytes_def free_bytes_def)
next
  case (Cons x xs)
  then have p: "p = Some (b_addr x)" "slist (knext s) (h_next (khdr s (b_addr x))) (map b_addr xs)"
      "blk_ok s x" "\<forall>b \<in> set xs. blk_ok s b"
    by (auto simp: knext_def[of s "b_addr x"])
  show ?case
    using Cons.IH[OF p(2,4)] Cons.prems(3,4) p(1,3)
    by (subst kmalloc_stat_loop.simps)
      (cases "b_used x"; simp add: used_bytes_def free_bytes_def blk_ok_def)
qed

section \<open>Properties\<close>

text \<open>
  C7. \<open>kmalloc\<close> returns \<open>NULL\<close> exactly if no free block of the heap is large enough, and
  then no block changes. Otherwise it takes the first free block that is large enough, cuts off
  what is not needed when that is at least a header and 8 bytes, and leaves every other
  block and all payload bytes as they were; the heap stays well-formed.
\<close>

theorem kmalloc_first_fit:
  assumes ok: "heap_ok s lo hi bs" and n: "0 < n" "n \<le> 65528"
  shows "\<exists>r s'. kmalloc n s = Some (r, s') \<and> kbytes s' = kbytes s \<and>
    (r = None \<longleftrightarrow> (\<forall>b \<in> set bs. b_used b \<or> b_size b < ALIGN n)) \<and>
    (r = None \<longrightarrow> heap_ok s' lo hi bs) \<and>
    (\<forall>p. r = Some p \<longrightarrow> (\<exists>pre c m post. bs = pre @ (c, m, False) # post \<and> p = c + HDR \<and> ALIGN n \<le> m \<and>
       (\<forall>b \<in> set pre. \<not> fits (ALIGN n) b) \<and> heap_ok s' lo hi (pre @ carve c (ALIGN n) m @ post)))"
  by (rule kmalloc_spec[OF assms])

text \<open>
  C8. \<open>kfree\<close> of an allocated block never panics: the block leaves the set of used blocks, all
  other used blocks and the payload bytes stay, and free neighbours are merged with it (the
  heap is well-formed again, so no two free blocks are adjacent).
\<close>

theorem kfree_releases:
  assumes ok: "heap_ok s lo hi (pre @ (c, m, True) # post)"
  shows "\<exists>s' bs'. kfree (Some (c + HDR)) s = Some s' \<and> heap_ok s' lo hi bs' \<and>
    filter b_used bs' = filter b_used (pre @ post) \<and> kbytes s' = kbytes s"
  by (rule kfree_spec[OF assms])

text \<open>
  C9. \<open>krealloc\<close> on an allocated block while the search hint is set. If the block is the last one
  of the heap and has to grow, \<open>NULL\<close> is dereferenced. In all other cases it returns either
  \<open>NULL\<close>, with every block and byte as before, or a block with room for \<open>n\<close> bytes (in place,
  grown into the free successor, or moved) whose first bytes are those of the old block; all
  other used blocks keep their place, size and bytes, and the heap stays well-formed.
\<close>

theorem krealloc_preserves:
  assumes ok: "heap_ok s lo hi (pre @ (c, m, True) # post)" and n: "0 < n" "n \<le> 65528"
    and hint: "khint s \<noteq> None"
  shows "if post = [] \<and> m < ALIGN n then krealloc (Some (c + HDR)) n s = None
    else \<exists>r s'. krealloc (Some (c + HDR)) n s = Some (r, s') \<and>
    (r = None \<longrightarrow> heap_ok s' lo hi (pre @ (c, m, True) # post) \<and> kbytes s' = kbytes s) \<and>
    (\<forall>p. r = Some p \<longrightarrow> (\<exists>bs' a m'. p = a + HDR \<and> heap_ok s' lo hi bs' \<and>
       resized s s' c m n (pre @ post) bs' a m'))"
proof (cases "post = [] \<and> m < ALIGN n")
  case True
  then show ?thesis using krealloc_last_faults[of s lo hi pre c m n] ok n(1) by simp
next
  case False
  then have "post \<noteq> [] \<or> ALIGN n \<le> m" by linarith
  then show ?thesis using krealloc_spec[OF ok n _ hint] False by (simp only: if_False)
qed

text \<open>\<open>krealloc\<close> of the last block of the heap to a larger size dereferences \<open>NULL\<close>:
  \<open>curr->next->size\<close> is read before \<open>curr->next != NULL\<close> is tested.
\<close>

theorem krealloc_last_block_faults:
  assumes ok: "heap_ok s lo hi (pre @ [(c, m, True)])" and "0 < n" "m < ALIGN n"
  shows "krealloc (Some (c + HDR)) n s = None"
  by (rule krealloc_last_faults[OF assms])

text \<open>\<open>kmalloc_stat\<close> reports the exact sums of the used and of the free payload bytes and changes nothing.\<close>

theorem kmalloc_stat_sums:
  assumes "heap_ok s lo hi bs"
  shows "kmalloc_stat s = Some ((used_bytes bs, free_bytes bs), s)"
proof -
  define t where "t = s\<lparr>klocked := True\<rparr>"
  have r: "heap_rep t lo hi bs" "\<not> klocked s" using assms by (simp_all add: heap_ok_def t_def)
  then have "used_bytes bs < 65536" "free_bytes bs < 65536"
    using tiled_total[of lo bs hi] by (simp_all add: heap_rep_def)
  then have "kmalloc_stat_loop (khdr t) (kheap t) 0 0 = Some (used_bytes bs, free_bytes bs)"
    using kmalloc_stat_loop_spec[of t "kheap t" bs 0 0] r by (simp add: heap_rep_def)
  moreover have "kheap_unlock t = s" using r by (simp add: t_def kheap_unlock_def)
  ultimately show ?thesis using kheap_lock_ok[OF assms] by (simp add: kmalloc_stat_def t_def)
qed

text \<open>\<open>kalloc_init\<close> leaves a well-formed heap of one free block that spans the region.\<close>

theorem kalloc_init_ok:
  assumes "0 < buff" "buff \<le> 65528" "ALIGN buff - buff + HDR \<le> sz" "buff + sz \<le> 65536" "sz < 65536"
  shows "\<exists>m hi. heap_ok (kalloc_init buff sz s) (ALIGN buff) hi [(ALIGN buff, m, False)] \<and>
    hi \<le> buff + sz \<and> buff + sz \<le> hi + 1"
proof -
  define a where "a = ALIGN buff"
  have a: "buff \<le> a" "8 dvd a" "a \<le> 65528" using ALIGN_spec[OF assms(2)] by (simp_all add: a_def)
  have a8: "8 \<le> a" using a assms(1) by (auto elim!: dvdE)
  define m where "m = SIZE (sz - (a - buff) - HDR)"
  have m: "even m" "m \<le> sz - (a - buff) - HDR" "sz - (a - buff) - HDR \<le> m + 1"
    by (auto simp: m_def SIZE_def)
  have "sub16 (sub16 sz (sub16 a buff)) HDR = sz - (a - buff) - HDR"
    using assms a by (simp add: a_def[symmetric] HDR_def)
  then have hd: "khdr (kalloc_init buff sz s) a = \<lparr>h_size = m, h_next = None\<rparr>"
    by (cases "khdr s a") (simp add: kalloc_init_def Let_def a_def[symmetric] m_def)
  have "a + HDR + m \<le> buff + sz" "buff + sz \<le> a + HDR + m + 1"
    using m a(1) assms(3) by (simp_all add: a_def[symmetric] HDR_def)
  moreover have "heap_ok (kalloc_init buff sz s) a (a + HDR + m) [(a, m, False)]"
    using hd m(1) a8 assms calculation(1)
    by (simp add: heap_ok_def heap_rep_def blk_ok_def no_free_pair_def hint_ok_def knext_def)
      (simp add: kalloc_init_def Let_def a_def)
  ultimately show ?thesis unfolding a_def by blast
qed

definition kheap_zero :: kheap where
  "kheap_zero = \<lparr>khdr = (\<lambda>_. \<lparr>h_size = 0, h_next = None\<rparr>), kbytes = (\<lambda>_. 0), kheap = None, khint = None, klocked = False\<rparr>"

text \<open>\<open>ALIGN\<close> wraps around for the seven largest sizes: \<open>kmalloc(65535)\<close> on an empty heap of
  248 bytes succeeds, with a block of size 0.
\<close>

theorem kmalloc_huge_succeeds:
  "(do { (p, s) \<leftarrow> kmalloc 65535 (kalloc_init 4096 252 kheap_zero);
         Some (p, h_size (khdr s 4096)) }) = Some (Some 4100, 1)"
  by code_simp

text \<open>A heap whose blocks are free, used and free, with the hint \<open>NULL\<close> (the last block was allocated, then freed).\<close>

definition kheap_demo3 :: kheap where
  "kheap_demo3 = kheap_zero\<lparr>khdr := (\<lambda>_. \<lparr>h_size = 0, h_next = None\<rparr>)(4096 := \<lparr>h_size = 32, h_next = Some 4132\<rparr>,
      4132 := \<lparr>h_size = 9, h_next = Some 4144\<rparr>, 4144 := \<lparr>h_size = 24, h_next = None\<rparr>), kheap := Some 4096\<rparr>"

text \<open>\<open>kmalloc\<close> can fail although a free block fits: with \<open>hint == NULL\<close>, \<open>krealloc\<close> growing
  the last but one block sets the hint behind a block that was freed before (here 32 bytes).
\<close>

theorem kmalloc_stale_hint:
  "heap_ok kheap_demo3 4096 4172 [(4096, 32, False), (4132, 8, True), (4144, 24, False)] \<and>
   (do { (b', s6) \<leftarrow> krealloc (Some 4136) 16 kheap_demo3; (r, s7) \<leftarrow> kmalloc 32 s6;
         Some (b', h_size (khdr s7 4096), r) }) = Some (Some 4136, 32, None)"
proof
  show "heap_ok kheap_demo3 4096 4172 [(4096, 32, False), (4132, 8, True), (4144, 24, False)]"
    by (simp add: heap_ok_def heap_rep_def blk_ok_def no_free_pair_def hint_ok_def knext_def kheap_demo3_def
        kheap_zero_def HDR_def)
  show "(do { (b', s6) \<leftarrow> krealloc (Some 4136) 16 kheap_demo3; (r, s7) \<leftarrow> kmalloc 32 s6;
         Some (b', h_size (khdr s7 4096), r) }) = Some (Some 4136, 32, None)"
    by code_simp
qed

section \<open>Witnesses\<close>

text \<open>A heap with a used block of 16 bytes and a free one of 232.\<close>

definition kheap_demo :: kheap where
  "kheap_demo = kheap_zero\<lparr>khdr := (\<lambda>_. \<lparr>h_size = 0, h_next = None\<rparr>)
       (4096 := \<lparr>h_size = 17, h_next = Some 4116\<rparr>, 4116 := \<lparr>h_size = 232, h_next = None\<rparr>),
     kheap := Some 4096, khint := Some 4116\<rparr>"

lemma kheap_demo_ok: "heap_ok kheap_demo 4096 4352 [(4096, 16, True), (4116, 232, False)]"
  by (simp add: heap_ok_def heap_rep_def blk_ok_def no_free_pair_def hint_ok_def knext_def kheap_demo_def
      kheap_zero_def HDR_def)

text \<open>A heap of one used block.\<close>

definition kheap_demo1 :: kheap where
  "kheap_demo1 = kheap_zero\<lparr>khdr := (\<lambda>_. \<lparr>h_size = 0, h_next = None\<rparr>)(4096 := \<lparr>h_size = 17, h_next = None\<rparr>),
     kheap := Some 4096\<rparr>"

lemma kheap_demo1_ok: "heap_ok kheap_demo1 4096 4116 ([] @ [(4096, 16, True)])"
  by (simp add: heap_ok_def heap_rep_def blk_ok_def no_free_pair_def hint_ok_def knext_def kheap_demo1_def
      kheap_zero_def HDR_def)

theorem kmalloc_first_fit_witness:
  "\<exists>p s'. kmalloc 10 kheap_demo = Some (Some p, s')"
proof -
  have "\<not> (\<forall>b \<in> set [(4096, 16, True), (4116, 232, False)]. b_used b \<or> b_size b < ALIGN 10)"
    using ALIGN_spec[of 10] by auto
  then show ?thesis using kmalloc_first_fit[OF kheap_demo_ok, of 10] by (auto simp del: set_simps)
qed

theorem kfree_releases_witness:
  "\<exists>s' bs'. kfree (Some 4100) kheap_demo = Some s' \<and> heap_ok s' 4096 4352 bs' \<and> filter b_used bs' = []"
  using kfree_releases[of kheap_demo 4096 4352 "[]" 4096 16 "[(4116, 232, False)]"] kheap_demo_ok
  by (auto simp: HDR_def)

theorem krealloc_preserves_witness:
  "\<exists>r s'. krealloc (Some 4100) 100 kheap_demo = Some (r, s')"
  using krealloc_preserves[of kheap_demo 4096 4352 "[]" 4096 16 "[(4116, 232, False)]" 100] kheap_demo_ok
  by (auto simp: HDR_def kheap_demo_def)

theorem krealloc_last_block_faults_witness: "krealloc (Some 4100) 17 kheap_demo1 = None"
  using krealloc_last_block_faults[OF kheap_demo1_ok, of 17] by (simp add: HDR_def ALIGN_def ANTIFRAG_def)

theorem kmalloc_stat_sums_witness: "kmalloc_stat kheap_demo = Some ((16, 232), kheap_demo)"
  using kmalloc_stat_sums[OF kheap_demo_ok] by (simp add: used_bytes_def free_bytes_def)

theorem kalloc_init_ok_witness:
  "\<exists>m hi. heap_ok (kalloc_init 4097 255 kheap_zero) 4104 hi [(4104, m, False)] \<and> hi \<le> 4352"
  using kalloc_init_ok[of 4097 255 kheap_zero] by (auto simp: ALIGN_def ANTIFRAG_def HDR_def)

end
