(* ===== verification/HeapUse.thy ===== *)
theory HeapUse
  imports KMalloc
begin

text \<open>
  The kernel heap of \<open>kernel/mem/kmalloc.c\<close> as its clients see it: a set of allocated addresses.
  \<open>owned h A\<close> says that the heap is well formed and that \<open>A\<close> is exactly the set of the addresses of
  its allocated blocks, so a block that is not given back stays in it; the two laws follow from
  what \<open>kmalloc\<close> and \<open>kfree\<close> do to the blocks.
\<close>

definition in_use :: "blk list \<Rightarrow> nat set" where
  "in_use bs = (\<lambda>b. b_addr b + HDR) ` set (filter b_used bs)"

definition owned :: "kheap \<Rightarrow> nat set \<Rightarrow> bool" where
  "owned h A \<longleftrightarrow> (\<exists>lo hi bs. heap_ok h lo hi bs \<and> in_use bs = A)"

lemma ownedI: "heap_ok h lo hi bs \<Longrightarrow> in_use bs = A \<Longrightarrow> owned h A"
  by (auto simp: owned_def)

lemma in_use_simps [simp]:
  "in_use [] = {}" "in_use (xs @ ys) = in_use xs \<union> in_use ys"
  "in_use ((c, m, u) # xs) = (if u then insert (c + HDR) (in_use xs) else in_use xs)"
  by (auto simp: in_use_def)

lemma in_useE: "a \<in> in_use bs \<Longrightarrow> (\<And>c m. (c, m, True) \<in> set bs \<Longrightarrow> a = c + HDR \<Longrightarrow> P) \<Longrightarrow> P"
  by (force simp: in_use_def)

lemma heap_ok_distinct: "heap_ok h lo hi (pre @ b # post) \<Longrightarrow> x \<in> set pre \<union> set post \<Longrightarrow> b_addr x \<noteq> b_addr b"
proof -
  assume ok: "heap_ok h lo hi (pre @ b # post)" and x: "x \<in> set pre \<union> set post"
  have rep: "heap_rep h lo hi (pre @ b # post)" using ok by (simp add: heap_ok_def)
  show ?thesis
  proof (cases "x \<in> set pre")
    case True
    then show ?thesis using heap_rep_order[OF rep, of x b] by simp
  next
    case False
    then obtain p1 p2 where "post = p1 @ x # p2" using x by (auto dest: split_list)
    then have "heap_rep h lo hi ((pre @ b # p1) @ x # p2)" using rep by simp
    from heap_rep_order[OF this, of b x] show ?thesis by simp
  qed
qed

lemma in_use_fresh: "heap_ok h lo hi (pre @ (c, m, u) # post) \<Longrightarrow> c + HDR \<notin> in_use pre \<union> in_use post"
  using heap_ok_distinct[of h lo hi pre "(c, m, u)" post] by (auto elim!: in_useE) fastforce+

lemma owned_alloc:
  assumes "owned h A" and "kmalloc n h = Some (r, h')" and "0 < n" and "n \<le> 65528"
  shows "case r of None \<Rightarrow> owned h' A | Some a \<Rightarrow> a \<notin> A \<and> owned h' (insert a A)"
proof -
  from assms(1) obtain lo hi bs where ok: "heap_ok h lo hi bs" and A: "in_use bs = A" by (auto simp: owned_def)
  from kmalloc_spec[OF ok assms(3,4)] assms(2) have n: "r = None \<Longrightarrow> heap_ok h' lo hi bs"
    and s: "\<And>p. r = Some p \<Longrightarrow> \<exists>pre c m post. bs = pre @ (c, m, False) # post \<and> p = c + HDR \<and>
       heap_ok h' lo hi (pre @ carve c (ALIGN n) m @ post)" by auto
  show ?thesis
  proof (cases r)
    case None
    then show ?thesis using n A by (auto simp: owned_def)
  next
    case (Some p)
    from s[OF Some] obtain pre c m post where p: "bs = pre @ (c, m, False) # post" "p = c + HDR"
      "heap_ok h' lo hi (pre @ carve c (ALIGN n) m @ post)" by blast
    have "in_use (carve c (ALIGN n) m) = {p}" using p(2) by (simp add: carve_def)
    then have "in_use (pre @ carve c (ALIGN n) m @ post) = insert p A" using A p(1) by auto
    moreover have "p \<notin> A" using in_use_fresh[OF ok[unfolded p(1)]] A p(1,2) by auto
    ultimately show ?thesis using p(3) Some by (auto intro: ownedI)
  qed
qed

lemma owned_free:
  assumes "owned h A" and "a \<in> A"
  shows "\<exists>h'. kfree (Some a) h = Some h' \<and> owned h' (A - {a})"
proof -
  from assms(1) obtain lo hi bs where ok: "heap_ok h lo hi bs" and A: "in_use bs = A" by (auto simp: owned_def)
  from assms(2) A obtain c m where a: "(c, m, True) \<in> set bs" "a = c + HDR" by (auto elim: in_useE)
  from split_list[OF a(1)] obtain pre post where bs: "bs = pre @ (c, m, True) # post" by blast
  from kfree_spec[OF ok[unfolded bs]] obtain h' bs' where h': "kfree (Some a) h = Some h'" "heap_ok h' lo hi bs'"
    "filter b_used bs' = filter b_used (pre @ post)" using a(2) by blast
  have "in_use bs' = in_use (pre @ post)" using h'(3) by (simp add: in_use_def)
  also have "\<dots> = A - {a}" using in_use_fresh[OF ok[unfolded bs]] A bs a(2) by auto
  finally show ?thesis using h'(1,2) by (auto intro: ownedI)
qed

lemma owned_kmalloc:
  assumes "owned h A" and "0 < n" and "n \<le> 65528"
  shows "\<exists>r h'. kmalloc n h = Some (r, h') \<and> (case r of None \<Rightarrow> owned h' A | Some a \<Rightarrow> a \<notin> A \<and> owned h' (insert a A))"
proof -
  obtain lo hi bs where "heap_ok h lo hi bs" using assms(1) by (auto simp: owned_def)
  from kmalloc_spec[OF this assms(2,3)] obtain r h' where k: "kmalloc n h = Some (r, h')" by blast
  from owned_alloc[OF assms(1) k assms(2,3)] k show ?thesis by blast
qed

end
