(* ===== verification/Sched.thy ===== *)
theory Sched
  imports CList BHeap IdStorage
begin

text \<open>
  Threads and the scheduler: \<open>kernel/proc/thread.c\<close>, and \<open>_process_zombify\<close> of
  \<open>kernel/proc/process.c\<close>, which the scheduler runs when it ends the last thread of a process.
  Thread and process objects are numbers (their addresses); the members \<open>qnext\<close>/\<open>qprev\<close> of the
  threads and \<open>next\<close>/\<open>prev\<close> of the processes are link stores of \<open>CList\<close>; every variable of
  type \<open>struct thread *\<close> that serves as a queue is a constructor of \<open>queue\<close>.

  \<open>sched_ok s Q\<close> is the invariant: \<open>Q q\<close> lists the threads in queue \<open>q\<close>, oldest first. A function
  that gives the processor away (\<open>_thread_yield\<close>) is modelled up to the switch to the thread
  selected; what the blocked thread does when it runs again is a definition of its own.
  Times are 64 bit in the source and are integers here.
\<close>

definition THREAD_PRIORITY_NO :: nat where "THREAD_PRIORITY_NO = 8"
definition THREAD_COUNT_MAX :: nat where "THREAD_COUNT_MAX = 32"
definition THREAD_STATE_ACTIVE :: nat where "THREAD_STATE_ACTIVE = 0"
definition THREAD_STATE_READY :: nat where "THREAD_STATE_READY = 1"
definition THREAD_STATE_SLEEP :: nat where "THREAD_STATE_SLEEP = 2"
definition THREAD_STATE_GHOST :: nat where "THREAD_STATE_GHOST = 3"
definition CONTEXT_LAYOUT_KERNEL :: nat where "CONTEXT_LAYOUT_KERNEL = 254"

lemmas thread_consts = THREAD_PRIORITY_NO_def THREAD_COUNT_MAX_def THREAD_STATE_ACTIVE_def
  THREAD_STATE_READY_def THREAD_STATE_SLEEP_def THREAD_STATE_GHOST_def CONTEXT_LAYOUT_KERNEL_def

text \<open>
  The queues: the ready lists, the list of threads woken by interrupts, the \<open>queue\<close> member of a
  lock, condition queues, and the \<open>wait\<close>, \<open>reaper\<close> and \<open>ghosts\<close> members of a process.
\<close>

datatype queue = Ready nat | IrqSignaled | LockQ nat | CondQ nat | WaitOf nat | ReaperOf nat | GhostsOf nat

record cpu_context =
  c_nsp :: nat
  c_nmmu :: nat
  c_nlayout :: nat
  c_sp :: nat
  c_mmu :: nat
  c_layout :: nat
  c_iy :: nat
  c_ix :: nat
  c_hl :: nat
  c_de :: nat
  c_bc :: nat
  c_af :: nat
  c_pc :: nat

text \<open>The saved context is the one the thread's \<open>context\<close> pointer designates on its stack page.\<close>

record thread =
  th_qwait :: "queue option"
  th_process :: "nat option"
  th_state :: nat
  th_priority :: nat
  th_exit :: bool
  th_wakeup :: int
  th_context :: cpu_context
  th_stack_page :: nat

record process =
  p_parent :: "nat option"
  p_children :: "nat option"
  p_zombies :: "nat option"
  p_thread_no :: nat
  p_threads :: "nat id_storage"
  p_exit :: int

record sched =
  thr :: "nat \<Rightarrow> thread"
  qlink :: "nat links"
  qhead :: "queue \<Rightarrow> nat option"
  current :: "nat option"
  sleeping :: "nat bheap"
  schedule :: bool
  proc :: "nat \<Rightarrow> process"
  plink :: "nat links"

definition upd_thr :: "nat \<Rightarrow> (thread \<Rightarrow> thread) \<Rightarrow> sched \<Rightarrow> sched" where
  "upd_thr t f s = s\<lparr>thr := (thr s)(t := f (thr s t))\<rparr>"

definition upd_proc :: "nat \<Rightarrow> (process \<Rightarrow> process) \<Rightarrow> sched \<Rightarrow> sched" where
  "upd_proc p f s = s\<lparr>proc := (proc s)(p := f (proc s p))\<rparr>"

text \<open>\<open>LIST_ADD\<close> and \<open>LIST_REMOVE\<close> on a queue of threads.\<close>

definition q_add :: "queue \<Rightarrow> nat \<Rightarrow> sched \<Rightarrow> sched option" where
  "q_add q t s = do {
     (h, l) \<leftarrow> list_add (qhead s q) t (qlink s);
     Some (s\<lparr>qhead := (qhead s)(q := h), qlink := l\<rparr>) }"

definition q_remove :: "queue \<Rightarrow> nat \<Rightarrow> sched \<Rightarrow> sched option" where
  "q_remove q t s = do {
     (h, l) \<leftarrow> list_remove (qhead s q) t (qlink s);
     Some (s\<lparr>qhead := (qhead s)(q := h), qlink := l\<rparr>) }"

text \<open>The comparison callback reads the \<open>wakeup\<close> members in the current state.\<close>

definition thread_wakeup_compare :: "(nat \<Rightarrow> int) \<Rightarrow> nat \<Rightarrow> nat \<Rightarrow> int" where
  "thread_wakeup_compare w t1 t2 = (if w t1 > w t2 then 1 else if w t1 < w t2 then -1 else 0)"

definition sleep_heap :: "sched \<Rightarrow> nat bheap" where
  "sleep_heap s = (sleeping s)\<lparr>bh_compare := thread_wakeup_compare (\<lambda>t. th_wakeup (thr s t))\<rparr>"

section \<open>Critical sections\<close>

definition thread_critical_start :: "sched \<Rightarrow> sched option" where
  "thread_critical_start s = do { check (schedule s); Some (s\<lparr>schedule := False\<rparr>) }"

definition thread_critical_end :: "sched \<Rightarrow> sched option" where
  "thread_critical_end s = do { check (\<not> schedule s); Some (s\<lparr>schedule := True\<rparr>) }"

section \<open>Queue operations\<close>

text \<open>The return code of \<open>bheap_insert\<close> is ignored.\<close>

definition thread_sleeping_enqueue :: "int \<Rightarrow> sched \<Rightarrow> sched option" where
  "thread_sleeping_enqueue wakeup s = do {
     c \<leftarrow> current s;
     let s1 = upd_thr c (\<lambda>t. t\<lparr>th_wakeup := wakeup, th_state := THREAD_STATE_SLEEP\<rparr>) s;
     Some (s1\<lparr>sleeping := snd (bheap_insert (sleep_heap s1) c)\<rparr>) }"

definition threads_add_ready :: "nat \<Rightarrow> sched \<Rightarrow> sched option" where
  "threads_add_ready t s = do {
     s1 \<leftarrow> q_add (Ready (th_priority (thr s t))) t s;
     let s2 = upd_thr t (\<lambda>x. x\<lparr>th_state := THREAD_STATE_READY\<rparr>) s1;
     (if th_wakeup (thr s2 t) \<noteq> 0 then do {
        (_, h) \<leftarrow> bheap_extract (sleep_heap s2) t;
        Some (upd_thr t (\<lambda>x. x\<lparr>th_wakeup := 0\<rparr>) (s2\<lparr>sleeping := h\<rparr>))
      } else Some s2) }"

definition thread_dequeue :: "nat \<Rightarrow> sched \<Rightarrow> sched option" where
  "thread_dequeue t s = do {
     s1 \<leftarrow> (case th_qwait (thr s t) of
              Some q \<Rightarrow> do { s1 \<leftarrow> q_remove q t s; Some (upd_thr t (\<lambda>x. x\<lparr>th_qwait := None\<rparr>) s1) }
            | None \<Rightarrow> Some s);
     threads_add_ready t s1 }"

definition thread_signal :: "queue \<Rightarrow> sched \<Rightarrow> (int \<times> sched) option" where
  "thread_signal q s = (case qhead s q of
     Some t \<Rightarrow> do { s1 \<leftarrow> thread_dequeue t s; Some (1, s1) }
   | None \<Rightarrow> Some (0, s))"

partial_function (option) thread_broadcast_loop :: "queue \<Rightarrow> int \<Rightarrow> sched \<Rightarrow> (int \<times> sched) option" where
  "thread_broadcast_loop q ret s = (case qhead s q of
     None \<Rightarrow> Some (ret, s)
   | Some t \<Rightarrow> Option.bind (thread_dequeue t s) (\<lambda>s1. thread_broadcast_loop q 1 s1))"

declare thread_broadcast_loop.simps [code]

definition thread_broadcast :: "queue \<Rightarrow> sched \<Rightarrow> (int \<times> sched) option" where
  "thread_broadcast q s = thread_broadcast_loop q 0 s"

text \<open>Called from interrupt handlers; timed waits are not allowed on such queues.\<close>

partial_function (option) thread_signal_irq :: "queue \<Rightarrow> sched \<Rightarrow> sched option" where
  "thread_signal_irq q s = (case qhead s q of
     None \<Rightarrow> Some s
   | Some t \<Rightarrow> Option.bind (check (th_wakeup (thr s t) = 0)) (\<lambda>_.
       Option.bind (th_qwait (thr s t)) (\<lambda>w.
       Option.bind (q_remove w t s) (\<lambda>s1.
       Option.bind (q_add IrqSignaled t s1) (\<lambda>s2.
         thread_signal_irq q (upd_thr t (\<lambda>x. x\<lparr>th_qwait := Some IrqSignaled\<rparr>) s2))))))"

declare thread_signal_irq.simps [code]

section \<open>The end of a thread, and of a process\<close>

text \<open>\<open>while (init->parent != NULL) init = init->parent\<close>\<close>

partial_function (option) find_init :: "(nat \<Rightarrow> process) \<Rightarrow> nat \<Rightarrow> nat option" where
  "find_init P i = (case p_parent (P i) of None \<Rightarrow> Some i | Some j \<Rightarrow> find_init P j)"

declare find_init.simps [code]

definition move_processes ::
  "nat option \<Rightarrow> nat option \<Rightarrow> sched \<Rightarrow> (nat option \<times> nat option \<times> sched) option" where
  "move_processes src dst s = do { (a, b, l) \<leftarrow> list_drain src dst (plink s); Some (a, b, s\<lparr>plink := l\<rparr>) }"

definition process_zombify :: "nat \<Rightarrow> sched \<Rightarrow> sched option" where
  "process_zombify p s = do {
     par \<leftarrow> p_parent (proc s p);
     ini \<leftarrow> find_init (proc s) par;
     (c, ic, s1) \<leftarrow> move_processes (p_children (proc s p)) (p_children (proc s ini)) s;
     let s2 = upd_proc ini (\<lambda>x. x\<lparr>p_children := ic\<rparr>) (upd_proc p (\<lambda>x. x\<lparr>p_children := c\<rparr>) s1);
     (_, s3) \<leftarrow> (if par \<noteq> ini \<and> p_zombies (proc s2 p) \<noteq> None then thread_signal (WaitOf ini) s2 else Some (0, s2));
     (z, iz, s4) \<leftarrow> move_processes (p_zombies (proc s3 p)) (p_zombies (proc s3 ini)) s3;
     let s5 = upd_proc ini (\<lambda>x. x\<lparr>p_zombies := iz\<rparr>) (upd_proc p (\<lambda>x. x\<lparr>p_zombies := z\<rparr>) s4);
     (pc, l1) \<leftarrow> list_remove (p_children (proc s5 par)) p (plink s5);
     let s6 = upd_proc par (\<lambda>x. x\<lparr>p_children := pc\<rparr>) (s5\<lparr>plink := l1\<rparr>);
     (pz, l2) \<leftarrow> list_add (p_zombies (proc s6 par)) p (plink s6);
     let s7 = upd_proc par (\<lambda>x. x\<lparr>p_zombies := pz\<rparr>) (s6\<lparr>plink := l2\<rparr>);
     (_, s8) \<leftarrow> thread_signal (WaitOf par) s7;
     Some s8 }"

definition thread_kill :: "nat \<Rightarrow> sched \<Rightarrow> sched option" where
  "thread_kill t s = do {
     p \<leftarrow> th_process (thr s t);
     let s1 = upd_thr t (\<lambda>x. x\<lparr>th_state := THREAD_STATE_GHOST\<rparr>) s;
     s2 \<leftarrow> q_add (GhostsOf p) t s1;
     let n = sub8 (p_thread_no (proc s2 p)) 1;
     let s3 = upd_proc p (\<lambda>x. x\<lparr>p_thread_no := n\<rparr>) s2;
     (if n = 0 then process_zombify p s3 else Some s3) }"

section \<open>The scheduler\<close>

text \<open>
  The selection loop, from priority \<open>p\<close> on. The register context of the call, saved on the
  stack of the previous thread, gets the stack pointer and memory map of the selected one.
\<close>

function thread_select :: "nat \<Rightarrow> cpu_context \<Rightarrow> sched \<Rightarrow> (cpu_context \<times> sched) option" where
  "thread_select p ctx s =
     (if p < THREAD_PRIORITY_NO then
        (case qhead s (Ready p) of
           None \<Rightarrow> thread_select (p + 1) ctx s
         | Some t \<Rightarrow> Option.bind (q_remove (Ready p) t s) (\<lambda>s1.
             let sel = th_context (thr s1 t)
             in if th_exit (thr s1 t) \<and> c_layout sel \<noteq> CONTEXT_LAYOUT_KERNEL
                then Option.bind (thread_kill t s1) (\<lambda>s2. thread_select (p + 1) ctx s2)
                else Some (ctx\<lparr>c_nsp := c_sp sel, c_nmmu := c_mmu sel, c_nlayout := c_layout sel\<rparr>,
                       (upd_thr t (\<lambda>x. x\<lparr>th_state := THREAD_STATE_ACTIVE\<rparr>) s1)\<lparr>current := Some t\<rparr>)))
      else Some (ctx, s))"
  by pat_completeness auto
termination
  by (relation "measure (\<lambda>(p, _, _). THREAD_PRIORITY_NO - p)") auto

declare thread_select.simps [simp del]

definition thread_schedule :: "cpu_context \<Rightarrow> sched \<Rightarrow> (cpu_context \<times> sched) option" where
  "thread_schedule ctx s = do {
     s1 \<leftarrow> (case current s of
              None \<Rightarrow> Some s
            | Some c \<Rightarrow> (let s0 = upd_thr c (\<lambda>x. x\<lparr>th_context := ctx\<rparr>) s
                        in if th_state (thr s0 c) = THREAD_STATE_ACTIVE then threads_add_ready c s0 else Some s0));
     (ctx', s2) \<leftarrow> thread_select 0 ctx s1;
     Some (ctx', s2\<lparr>schedule := True\<rparr>) }"

text \<open>The value a blocked call will return: the \<open>A\<close> register of the saved context.\<close>

definition thread_set_return :: "nat \<Rightarrow> int \<Rightarrow> sched \<Rightarrow> sched option" where
  "thread_set_return t v s = do {
     check (th_state (thr s t) = THREAD_STATE_SLEEP);
     Some (upd_thr t (\<lambda>x. x\<lparr>th_context := (th_context x)\<lparr>c_af :=
       c_af (th_context x) mod 16 + nat (v mod 256) * 256\<rparr>\<rparr>) s) }"

definition thread_return :: "nat \<Rightarrow> sched \<Rightarrow> int" where
  "thread_return t s = s8 (int (c_af (th_context (thr s t)) div 256))"

partial_function (option) thread_wake_expired :: "int \<Rightarrow> sched \<Rightarrow> sched option" where
  "thread_wake_expired now s =
     (case snd (bheap_peek (sleep_heap s)) of
        None \<Rightarrow> Some s
      | Some t \<Rightarrow> if th_wakeup (thr s t) \<le> now
          then Option.bind (thread_set_return t (- ETIME) s) (\<lambda>s1.
               Option.bind (thread_dequeue t s1) (\<lambda>s2. thread_wake_expired now s2))
          else Some s)"

declare thread_wake_expired.simps [code]

definition thread_on_tick :: "int \<Rightarrow> cpu_context \<Rightarrow> sched \<Rightarrow> (cpu_context \<times> sched) option" where
  "thread_on_tick now ctx s =
     (if schedule s then do {
        (_, s1) \<leftarrow> thread_broadcast IrqSignaled s;
        s2 \<leftarrow> thread_wake_expired now (s1\<lparr>schedule := False\<rparr>);
        thread_schedule ctx s2
      } else Some (ctx, s))"

text \<open>\<open>_thread_reschedule\<close> (\<open>hal/crt0.s\<close>): the register \<open>A\<close> is zeroed and the context saved.\<close>

definition thread_yield :: "cpu_context \<Rightarrow> sched \<Rightarrow> (cpu_context \<times> sched) option" where
  "thread_yield ctx s = thread_schedule (ctx\<lparr>c_af := c_af ctx mod 256\<rparr>) s"

definition thread_sleep :: "int \<Rightarrow> cpu_context \<Rightarrow> sched \<Rightarrow> (cpu_context \<times> sched) option" where
  "thread_sleep wakeup ctx s = do {
     s1 \<leftarrow> thread_critical_start s;
     s2 \<leftarrow> thread_sleeping_enqueue wakeup s1;
     thread_yield ctx s2 }"

text \<open>\<open>_thread_wait\<close> up to the switch: the thread is queued, and sleeps.\<close>

definition thread_wait_enqueue :: "queue \<Rightarrow> int \<Rightarrow> sched \<Rightarrow> sched option" where
  "thread_wait_enqueue q wakeup s = do {
     c \<leftarrow> current s;
     s1 \<leftarrow> q_add q c s;
     let s2 = upd_thr c (\<lambda>x. x\<lparr>th_wakeup := wakeup, th_state := THREAD_STATE_SLEEP, th_qwait := Some q\<rparr>) s1;
     (if wakeup \<noteq> 0 then thread_sleeping_enqueue wakeup s2 else Some s2) }"

definition thread_wait :: "queue \<Rightarrow> int \<Rightarrow> cpu_context \<Rightarrow> sched \<Rightarrow> (cpu_context \<times> sched) option" where
  "thread_wait q wakeup ctx s = do { s1 \<leftarrow> thread_wait_enqueue q wakeup s; thread_yield ctx s1 }"

definition thread_wait_relative :: "queue \<Rightarrow> int \<Rightarrow> int \<Rightarrow> cpu_context \<Rightarrow> sched \<Rightarrow> (cpu_context \<times> sched) option" where
  "thread_wait_relative q timeout now ctx s = thread_wait q (if timeout \<noteq> 0 then now + timeout else 0) ctx s"

definition thread_signal_yield :: "queue \<Rightarrow> cpu_context \<Rightarrow> sched \<Rightarrow> (cpu_context \<times> sched) option" where
  "thread_signal_yield q ctx s = do {
     (r, s1) \<leftarrow> thread_signal q s;
     (if r \<noteq> 0 then thread_yield ctx s1 else do { s2 \<leftarrow> thread_critical_end s1; Some (ctx, s2) }) }"

definition thread_broadcast_yield :: "queue \<Rightarrow> cpu_context \<Rightarrow> sched \<Rightarrow> (cpu_context \<times> sched) option" where
  "thread_broadcast_yield q ctx s = do {
     (r, s1) \<leftarrow> thread_broadcast q s;
     (if r \<noteq> 0 then thread_yield ctx s1 else do { s2 \<leftarrow> thread_critical_end s1; Some (ctx, s2) }) }"

text \<open>\<open>_thread_end\<close>: the current thread (\<open>NULL\<close>) ends now, another one is marked.\<close>

definition thread_end :: "nat option \<Rightarrow> cpu_context \<Rightarrow> sched \<Rightarrow> (cpu_context \<times> sched) option" where
  "thread_end t ctx s = (case t of
     None \<Rightarrow> do { c \<leftarrow> current s; s1 \<leftarrow> thread_kill c s; thread_yield ctx s1 }
   | Some x \<Rightarrow> Some (ctx, upd_thr x (\<lambda>y. y\<lparr>th_exit := True\<rparr>) s))"

section \<open>The heap of sleeping threads\<close>

interpretation wk: heap_order "thread_wakeup_compare w" for w
  by unfold_locales (auto simp: thread_wakeup_compare_def split: if_splits)

definition heap_holds :: "sched \<Rightarrow> nat set \<Rightarrow> bool" where
  "heap_holds s S \<longleftrightarrow> finite S \<and> bheap_ok (sleep_heap s) \<and> bh_capacity (sleeping s) = THREAD_COUNT_MAX \<and>
     bheap_elems (sleep_heap s) = mset_set S"

lemma sleep_heap_simps [simp]:
  "bh_capacity (sleep_heap s) = bh_capacity (sleeping s)" "bh_size (sleep_heap s) = bh_size (sleeping s)"
  "bh_array (sleep_heap s) = bh_array (sleeping s)"
  "bh_compare (sleep_heap s) = thread_wakeup_compare (\<lambda>t. th_wakeup (thr s t))"
  by (simp_all add: sleep_heap_def)

lemma bheap_size_elems: "bheap_ok h \<Longrightarrow> size (bheap_elems h) = bh_size h"
  by (simp add: bheap_elems_def bheap_ok_def)

lemma is_heap_cong:
  assumes "\<And>x y. x \<in> set (take n arr) \<Longrightarrow> y \<in> set (take n arr) \<Longrightarrow> c1 x y = c2 x y" and "n \<le> length arr"
  shows "is_heap c1 arr n = is_heap c2 arr n"
proof -
  have "arr ! i \<in> set (take n arr)" if "i < n" for i
    using that assms(2) by (auto simp: in_set_conv_nth)
  moreover have "(i - 1) div 2 < n" if "i < n" for i using that by linarith
  ultimately show ?thesis unfolding is_heap_def using assms(1) by auto
qed

lemma heap_holds_cong:
  assumes "heap_holds s S" and "sleeping s' = h" and "bh_array h = bh_array (sleeping s)"
    and "bh_size h = bh_size (sleeping s)" and "bh_capacity h = bh_capacity (sleeping s)"
    and "\<And>t. t \<in> S \<Longrightarrow> th_wakeup (thr s' t) = th_wakeup (thr s t)"
  shows "heap_holds s' S"
proof -
  let ?n = "bh_size (sleeping s)" and ?a = "bh_array (sleeping s)"
  have fin: "finite S" and ok: "bheap_ok (sleep_heap s)" using assms(1) by (auto simp: heap_holds_def)
  have el: "mset (take ?n ?a) = mset_set S" using assms(1) by (simp add: heap_holds_def bheap_elems_def)
  have el2: "set (take ?n ?a) = S" using arg_cong[OF el, of set_mset] fin by simp
  have "is_heap (thread_wakeup_compare (\<lambda>t. th_wakeup (thr s' t))) ?a ?n =
      is_heap (thread_wakeup_compare (\<lambda>t. th_wakeup (thr s t))) ?a ?n"
    by (rule is_heap_cong) (use el2 assms(6) ok in \<open>auto simp: thread_wakeup_compare_def bheap_ok_def\<close>)
  then show ?thesis using assms(1-5) unfolding heap_holds_def
    by (simp add: bheap_ok_def bheap_elems_def)
qed

lemma heap_holds_insert:
  assumes h: "heap_holds s S" and t: "t \<notin> S" and room: "card S < THREAD_COUNT_MAX"
  shows "fst (bheap_insert (sleep_heap s) t) = 0 \<and>
    heap_holds (s\<lparr>sleeping := snd (bheap_insert (sleep_heap s) t)\<rparr>) (insert t S)"
proof -
  have ok: "bheap_ok (sleep_heap s)" and fin: "finite S" using h by (auto simp: heap_holds_def)
  have "bh_size (sleeping s) = card S" using bheap_size_elems[OF ok] h by (simp add: heap_holds_def)
  then have "bh_size (sleep_heap s) < bh_capacity (sleep_heap s)" using h room by (simp add: heap_holds_def)
  from wk.bheap_insert_correct[OF ok sleep_heap_simps(4) this, of t] obtain h' where h':
      "bheap_insert (sleep_heap s) t = (0, h')" "bheap_ok h'"
      "bh_compare h' = thread_wakeup_compare (\<lambda>t. th_wakeup (thr s t))"
      "bh_capacity h' = bh_capacity (sleep_heap s)" "bheap_elems h' = add_mset t (bheap_elems (sleep_heap s))"
    by blast
  have eq: "sleep_heap (s\<lparr>sleeping := h'\<rparr>) = h'" using h'(3) by (simp add: sleep_heap_def)
  have "heap_holds (s\<lparr>sleeping := h'\<rparr>) (insert t S)"
    unfolding heap_holds_def eq using h h' t fin by (simp add: heap_holds_def)
  then show ?thesis using h'(1) by simp
qed

lemma heap_holds_full:
  assumes "heap_holds s S" and "card S = THREAD_COUNT_MAX"
  shows "bheap_insert (sleep_heap s) t = (- ENOMEM, sleep_heap s)"
proof -
  have "bh_size (sleeping s) = card S" using bheap_size_elems[of "sleep_heap s"] assms(1)
    by (simp add: heap_holds_def)
  then show ?thesis using assms by (simp add: heap_holds_def bheap_insert_def)
qed

lemma heap_holds_extract:
  assumes h: "heap_holds s S" and t: "t \<in> S"
  shows "\<exists>h'. bheap_extract (sleep_heap s) t = Some (0, h') \<and> heap_holds (s\<lparr>sleeping := h'\<rparr>) (S - {t})"
proof -
  have ok: "bheap_ok (sleep_heap s)" and fin: "finite S" using h by (auto simp: heap_holds_def)
  have el: "mset (take (bh_size (sleeping s)) (bh_array (sleeping s))) = mset_set S"
    using h by (simp add: heap_holds_def bheap_elems_def)
  have "t \<in> set (take (bh_size (sleeping s)) (bh_array (sleeping s)))"
    using arg_cong[OF el, of set_mset] fin t by simp
  then have "bheap_index (bh_array (sleeping s)) (bh_size (sleeping s)) t \<noteq> None"
    using bheap_index_None[of "bh_array (sleeping s)" "bh_size (sleeping s)" t] ok by (auto simp: bheap_ok_def)
  then obtain i where i: "bheap_index (bh_array (sleeping s)) (bh_size (sleeping s)) t = Some i" by blast
  then have it: "i < bh_size (sleep_heap s)" "bh_array (sleeping s) ! i = t" using bheap_index_Some[OF i] by auto
  from wk.bheap_remove_correct[OF ok sleep_heap_simps(4) it(1)] obtain h' where h':
      "bheap_remove (sleep_heap s) i = Some h'" "bheap_ok h'"
      "bh_compare h' = thread_wakeup_compare (\<lambda>t. th_wakeup (thr s t))"
      "bh_capacity h' = bh_capacity (sleep_heap s)"
      "bheap_elems h' = bheap_elems (sleep_heap s) - {#t#}" using it(2) by auto
  have eq: "sleep_heap (s\<lparr>sleeping := h'\<rparr>) = h'" using h'(3) by (simp add: sleep_heap_def)
  have "mset_set S - {#t#} = mset_set (S - {t})" using fin t by (simp add: mset_set_Diff)
  then have "heap_holds (s\<lparr>sleeping := h'\<rparr>) (S - {t})"
    unfolding heap_holds_def eq using h h' fin by (simp add: heap_holds_def)
  then show ?thesis using h'(1) i by (simp add: bheap_extract_def)
qed

lemma heap_holds_peek:
  assumes h: "heap_holds s S"
  shows "snd (bheap_peek (sleep_heap s)) = None \<Longrightarrow> S = {}"
    and "snd (bheap_peek (sleep_heap s)) = Some t \<Longrightarrow> t \<in> S \<and> (\<forall>x \<in> S. th_wakeup (thr s t) \<le> th_wakeup (thr s x))"
proof -
  have ok: "bheap_ok (sleep_heap s)" and fin: "finite S" and el: "bheap_elems (sleep_heap s) = mset_set S"
    using h by (auto simp: heap_holds_def)
  show "S = {}" if "snd (bheap_peek (sleep_heap s)) = None"
    using that bheap_size_elems[OF ok] el fin by (simp add: bheap_peek_def split: if_splits)
  show "t \<in> S \<and> (\<forall>x \<in> S. th_wakeup (thr s t) \<le> th_wakeup (thr s x))" if t: "snd (bheap_peek (sleep_heap s)) = Some t"
  proof -
    have p: "bh_array (sleep_heap s) ! 0 = t" "0 < bh_size (sleep_heap s)"
      using t by (auto simp: bheap_peek_def split: if_splits)
    have "t \<in> S" using bheap_elems_nth[OF ok p(2)] p(1) el fin by simp
    moreover have "thread_wakeup_compare (\<lambda>t. th_wakeup (thr s t)) t x \<le> 0" if "x \<in> S" for x
      using wk.bheap_min[OF ok sleep_heap_simps(4), of x] el that fin p(1) by simp
    moreover have "th_wakeup (thr s t) \<le> th_wakeup (thr s x)"
      if "thread_wakeup_compare (\<lambda>t. th_wakeup (thr s t)) t x \<le> 0" for x
      using that by (simp add: thread_wakeup_compare_def split: if_splits)
    ultimately show ?thesis by blast
  qed
qed

section \<open>The queues\<close>

definition q_rep :: "sched \<Rightarrow> (queue \<Rightarrow> nat list) \<Rightarrow> bool" where
  "q_rep s Q \<longleftrightarrow> (\<forall>q. cyc (qlink s) (qhead s q) (Q q)) \<and> (\<forall>q r. q \<noteq> r \<longrightarrow> set (Q q) \<inter> set (Q r) = {})"

lemma q_rep_head: "q_rep s Q \<Longrightarrow> qhead s q = (if Q q = [] then None else Some (hd (Q q)))"
  by (cases "Q q") (auto simp: q_rep_def cyc_def dest: spec[of _ q])

lemma q_add_rep:
  assumes r: "q_rep s Q" and t: "\<And>r. t \<notin> set (Q r)"
  shows "\<exists>h l. q_add q t s = Some (s\<lparr>qhead := h, qlink := l\<rparr>) \<and>
    q_rep (s\<lparr>qhead := h, qlink := l\<rparr>) (Q(q := Q q @ [t]))"
proof -
  have c: "cyc (qlink s) (qhead s r) (Q r)" for r using r by (simp add: q_rep_def)
  from rq.add_repr[OF c t] obtain q' l where a: "list_add (qhead s q) t (qlink s) = Some (q', l)"
      "cyc l q' (Q q @ [t])"
      and fr: "\<And>p ys. t \<notin> set ys \<Longrightarrow> set ys \<inter> set (Q q) = {} \<Longrightarrow> cyc (qlink s) p ys \<Longrightarrow> cyc l p ys" by blast
  have "cyc l (qhead s r) (Q r)" if "r \<noteq> q" for r
    using fr[OF t _ c] r that by (auto simp: q_rep_def)
  then have "q_rep (s\<lparr>qhead := (qhead s)(q := q'), qlink := l\<rparr>) (Q(q := Q q @ [t]))"
    using a(2) r t unfolding q_rep_def by auto
  then show ?thesis using a(1) by (auto simp: q_add_def)
qed

lemma q_remove_rep:
  assumes r: "q_rep s Q" and t: "t \<in> set (Q q)"
  shows "\<exists>h l. q_remove q t s = Some (s\<lparr>qhead := h, qlink := l\<rparr>) \<and>
    q_rep (s\<lparr>qhead := h, qlink := l\<rparr>) (Q(q := remove1 t (Q q)))"
proof -
  have c: "cyc (qlink s) (qhead s r) (Q r)" for r using r by (simp add: q_rep_def)
  from rq.remove_repr[OF c t] obtain q' l where a: "list_remove (qhead s q) t (qlink s) = Some (q', l)"
      "cyc l q' (remove1 t (Q q))"
      and fr: "\<And>p ys. set ys \<inter> set (Q q) = {} \<Longrightarrow> cyc (qlink s) p ys \<Longrightarrow> cyc l p ys" by blast
  have "cyc l (qhead s r) (Q r)" if "r \<noteq> q" for r
    using fr[OF _ c] r that by (auto simp: q_rep_def)
  moreover have "set (remove1 t (Q q)) \<subseteq> set (Q q)" by (rule set_remove1_subset)
  ultimately have "q_rep (s\<lparr>qhead := (qhead s)(q := q'), qlink := l\<rparr>) (Q(q := remove1 t (Q q)))"
    using a(2) r unfolding q_rep_def by auto blast+
  then show ?thesis using a(1) by (auto simp: q_remove_def)
qed

section \<open>The invariant of the scheduler\<close>

fun wait_queue :: "queue \<Rightarrow> bool" where
  "wait_queue (Ready _) = False"
| "wait_queue (GhostsOf _) = False"
| "wait_queue _ = True"

definition timed :: "nat set \<Rightarrow> sched \<Rightarrow> nat set" where
  "timed T s = {t \<in> T. th_state (thr s t) = THREAD_STATE_SLEEP \<and> th_wakeup (thr s t) \<noteq> 0}"

text \<open>A thread is where its state and its \<open>qwait\<close> member say; only the current one is active.\<close>

definition thread_ok :: "sched \<Rightarrow> (queue \<Rightarrow> nat list) \<Rightarrow> nat \<Rightarrow> bool" where
  "thread_ok s Q t \<longleftrightarrow> th_priority (thr s t) < THREAD_PRIORITY_NO \<and>
     (\<forall>p. t \<in> set (Q (Ready p)) \<longleftrightarrow> th_state (thr s t) = THREAD_STATE_READY \<and> th_priority (thr s t) = p) \<and>
     (\<forall>q. wait_queue q \<longrightarrow> (t \<in> set (Q q) \<longleftrightarrow> th_qwait (thr s t) = Some q)) \<and>
     (\<forall>q. th_qwait (thr s t) = Some q \<longrightarrow> wait_queue q \<and> th_state (thr s t) = THREAD_STATE_SLEEP) \<and>
     (\<forall>p. t \<in> set (Q (GhostsOf p)) \<longrightarrow> th_state (thr s t) = THREAD_STATE_GHOST) \<and>
     (th_wakeup (thr s t) \<noteq> 0 \<longrightarrow> th_state (thr s t) = THREAD_STATE_SLEEP) \<and>
     (th_state (thr s t) = THREAD_STATE_ACTIVE \<longrightarrow> current s = Some t)"

definition base_ok :: "nat set \<Rightarrow> sched \<Rightarrow> (queue \<Rightarrow> nat list) \<Rightarrow> bool" where
  "base_ok T s Q \<longleftrightarrow> finite T \<and> q_rep s Q \<and> heap_holds s (timed T s) \<and> (\<forall>q. set (Q q) \<subseteq> T)"

definition sched_ok :: "nat set \<Rightarrow> sched \<Rightarrow> (queue \<Rightarrow> nat list) \<Rightarrow> bool" where
  "sched_ok T s Q \<longleftrightarrow> base_ok T s Q \<and> (\<forall>t \<in> T. thread_ok s Q t)"

text \<open>What the operations do not touch.\<close>

definition same_rest :: "sched \<Rightarrow> sched \<Rightarrow> bool" where
  "same_rest s s' \<longleftrightarrow> current s' = current s \<and> schedule s' = schedule s \<and> proc s' = proc s \<and> plink s' = plink s"

lemma same_rest_refl [simp]: "same_rest s s"
  by (simp add: same_rest_def)

lemma same_rest_trans: "same_rest s s' \<Longrightarrow> same_rest s' s'' \<Longrightarrow> same_rest s s''"
  by (simp add: same_rest_def)

lemma upd_thr_simps [simp]:
  "thr (upd_thr t f s) = (thr s)(t := f (thr s t))" "qlink (upd_thr t f s) = qlink s"
  "qhead (upd_thr t f s) = qhead s" "current (upd_thr t f s) = current s" "sleeping (upd_thr t f s) = sleeping s"
  "schedule (upd_thr t f s) = schedule s" "proc (upd_thr t f s) = proc s" "plink (upd_thr t f s) = plink s"
  by (simp_all add: upd_thr_def)

lemma q_rep_cong: "qlink s' = qlink s \<Longrightarrow> qhead s' = qhead s \<Longrightarrow> q_rep s' Q = q_rep s Q"
  by (simp add: q_rep_def)

lemma thread_ok_cong:
  assumes "thr s' t = thr s t" and "\<And>q. t \<in> set (Q' q) \<longleftrightarrow> t \<in> set (Q q)" and "current s' = current s"
  shows "thread_ok s' Q' t = thread_ok s Q t"
  using assms by (simp add: thread_ok_def)

lemma thread_ok_cong_idle:
  assumes "thr s' t = thr s t" and "\<And>q. t \<in> set (Q' q) \<longleftrightarrow> t \<in> set (Q q)"
    and "th_state (thr s t) \<noteq> THREAD_STATE_ACTIVE"
  shows "thread_ok s' Q' t = thread_ok s Q t"
  using assms by (simp add: thread_ok_def)

lemma thread_okD:
  assumes "sched_ok T s Q" and "t \<in> T"
  shows "th_priority (thr s t) < THREAD_PRIORITY_NO"
    and "t \<in> set (Q (Ready p)) \<longleftrightarrow> th_state (thr s t) = THREAD_STATE_READY \<and> th_priority (thr s t) = p"
    and "wait_queue q \<Longrightarrow> t \<in> set (Q q) \<longleftrightarrow> th_qwait (thr s t) = Some q"
    and "th_wakeup (thr s t) \<noteq> 0 \<Longrightarrow> th_state (thr s t) = THREAD_STATE_SLEEP"
    and "th_state (thr s t) = THREAD_STATE_ACTIVE \<Longrightarrow> current s = Some t"
  using assms unfolding sched_ok_def thread_ok_def by blast+

lemma threads_add_ready_ok:
  assumes base: "base_ok T s Q" and others: "\<forall>x \<in> T - {t}. thread_ok s Q x" and t: "t \<in> T"
    and free: "\<And>q. t \<notin> set (Q q)" and qw: "th_qwait (thr s t) = None"
    and pr: "th_priority (thr s t) < THREAD_PRIORITY_NO"
    and wk: "th_wakeup (thr s t) \<noteq> 0 \<longrightarrow> th_state (thr s t) = THREAD_STATE_SLEEP"
  shows "\<exists>s'. threads_add_ready t s = Some s' \<and>
    sched_ok T s' (Q(Ready (th_priority (thr s t)) := Q (Ready (th_priority (thr s t))) @ [t])) \<and>
    thr s' = (thr s)(t := (thr s t)\<lparr>th_state := THREAD_STATE_READY, th_wakeup := 0\<rparr>) \<and> same_rest s s'"
proof -
  define Q' where "Q' = Q(Ready (th_priority (thr s t)) := Q (Ready (th_priority (thr s t))) @ [t])"
  have b: "finite T" "q_rep s Q" "heap_holds s (timed T s)" "\<And>q. set (Q q) \<subseteq> T"
    using base by (auto simp: base_ok_def)
  from q_add_rep[OF b(2) free, of "Ready (th_priority (thr s t))"] obtain h l where a:
      "q_add (Ready (th_priority (thr s t))) t s = Some (s\<lparr>qhead := h, qlink := l\<rparr>)"
      "q_rep (s\<lparr>qhead := h, qlink := l\<rparr>) Q'" by (auto simp: Q'_def)
  define s2 where "s2 = upd_thr t (\<lambda>x. x\<lparr>th_state := THREAD_STATE_READY\<rparr>) (s\<lparr>qhead := h, qlink := l\<rparr>)"
  have hp2: "heap_holds s2 (timed T s)"
    by (rule heap_holds_cong[OF b(3)]) (auto simp: s2_def)
  define thr' where "thr' = (thr s)(t := (thr s t)\<lparr>th_state := THREAD_STATE_READY, th_wakeup := 0\<rparr>)"
  obtain s' where s': "threads_add_ready t s = Some s'" "thr s' = thr'" "same_rest s s'"
      "qlink s' = l" "qhead s' = h" "heap_holds s' (timed T s - {t})"
  proof (cases "th_wakeup (thr s t) \<noteq> 0")
    case True
    then have "t \<in> timed T s" using wk t by (simp add: timed_def)
    from heap_holds_extract[OF hp2 this] obtain h' where h':
        "bheap_extract (sleep_heap s2) t = Some (0, h')" "heap_holds (s2\<lparr>sleeping := h'\<rparr>) (timed T s - {t})" by blast
    let ?s' = "upd_thr t (\<lambda>x. x\<lparr>th_wakeup := 0\<rparr>) (s2\<lparr>sleeping := h'\<rparr>)"
    have "heap_holds ?s' (timed T s - {t})"
      by (rule heap_holds_cong[OF h'(2)]) auto
    moreover have "threads_add_ready t s = Some ?s'"
      using a(1) h'(1) True by (simp add: threads_add_ready_def s2_def)
    ultimately show ?thesis using that[of ?s'] by (simp add: s2_def thr'_def same_rest_def)
  next
    case False
    then have "timed T s - {t} = timed T s" by (auto simp: timed_def)
    moreover have "threads_add_ready t s = Some s2" using a(1) False by (simp add: threads_add_ready_def s2_def)
    moreover have "thr s2 = thr'" using False by (simp add: s2_def thr'_def fun_eq_iff)
    ultimately show ?thesis using that[of s2] hp2 by (simp add: s2_def same_rest_def)
  qed
  have tm: "timed T s' = timed T s - {t}" using s'(2) by (auto simp: timed_def thr'_def thread_consts)
  have "q_rep s' Q'" using a(2) s'(4,5) q_rep_cong[of s' "s\<lparr>qhead := h, qlink := l\<rparr>"] by simp
  then have "base_ok T s' Q'" using s'(6) tm b t by (auto simp: base_ok_def Q'_def)
  moreover have "thread_ok s' Q' x" if "x \<in> T - {t}" for x
  proof -
    have "x \<in> set (Q' q) \<longleftrightarrow> x \<in> set (Q q)" for q using that by (auto simp: Q'_def)
    then show ?thesis using thread_ok_cong[of s' x s Q' Q] others that s'(2,3)
      by (auto simp: thr'_def same_rest_def)
  qed
  moreover have "thread_ok s' Q' t"
    using s'(2) free qw pr unfolding thread_ok_def Q'_def by (auto simp: thr'_def thread_consts)
  ultimately show ?thesis using s' by (auto simp: sched_ok_def Q'_def thr'_def)
qed

text \<open>The queues after \<open>t\<close> left the queue it waits in (if any) for the ready list of its priority.\<close>

definition woken :: "thread \<Rightarrow> nat \<Rightarrow> (queue \<Rightarrow> nat list) \<Rightarrow> queue \<Rightarrow> nat list" where
  "woken th t Q = (let Q1 = (case th_qwait th of Some q \<Rightarrow> Q(q := remove1 t (Q q)) | None \<Rightarrow> Q)
     in Q1(Ready (th_priority th) := Q1 (Ready (th_priority th)) @ [t]))"

lemma thread_dequeue_ok:
  assumes ok: "sched_ok T s Q" and t: "t \<in> T" "th_state (thr s t) = THREAD_STATE_SLEEP"
  shows "\<exists>s'. thread_dequeue t s = Some s' \<and> sched_ok T s' (woken (thr s t) t Q) \<and>
    thr s' = (thr s)(t := (thr s t)\<lparr>th_qwait := None, th_state := THREAD_STATE_READY, th_wakeup := 0\<rparr>) \<and> same_rest s s'"
proof -
  have b: "finite T" "q_rep s Q" "heap_holds s (timed T s)" "\<And>q. set (Q q) \<subseteq> T"
    using ok by (auto simp: sched_ok_def base_ok_def)
  have tok: "thread_ok s Q x" if "x \<in> T" for x using ok that by (simp add: sched_ok_def)
  have notin: "t \<notin> set (Q q)" if "th_qwait (thr s t) \<noteq> Some q" for q
    using tok[OF t(1)] t(2) that by (cases q) (auto simp: thread_ok_def thread_consts)
  define Q1 where "Q1 = (case th_qwait (thr s t) of Some q \<Rightarrow> Q(q := remove1 t (Q q)) | None \<Rightarrow> Q)"
  have dist: "distinct (Q q)" for q using b(2) cyc_distinct unfolding q_rep_def by blast
  obtain s1 where s1: "(case th_qwait (thr s t) of
        Some q \<Rightarrow> do { s1 \<leftarrow> q_remove q t s; Some (upd_thr t (\<lambda>x. x\<lparr>th_qwait := None\<rparr>) s1) }
      | None \<Rightarrow> Some s) = Some s1" "q_rep s1 Q1" "same_rest s s1" "sleeping s1 = sleeping s"
      "thr s1 = (thr s)(t := (thr s t)\<lparr>th_qwait := None\<rparr>)"
  proof (cases "th_qwait (thr s t)")
    case None
    then show ?thesis using that[of s] b(2) by (simp add: Q1_def fun_eq_iff)
  next
    case (Some q)
    then have "t \<in> set (Q q)" using tok[OF t(1)] by (auto simp: thread_ok_def)
    from q_remove_rep[OF b(2) this] obtain h l where r: "q_remove q t s = Some (s\<lparr>qhead := h, qlink := l\<rparr>)"
        "q_rep (s\<lparr>qhead := h, qlink := l\<rparr>) (Q(q := remove1 t (Q q)))" by blast
    let ?s1 = "upd_thr t (\<lambda>x. x\<lparr>th_qwait := None\<rparr>) (s\<lparr>qhead := h, qlink := l\<rparr>)"
    have "q_rep ?s1 Q1" using r(2) Some q_rep_cong[of ?s1 "s\<lparr>qhead := h, qlink := l\<rparr>"] by (simp add: Q1_def)
    then show ?thesis using that[of ?s1] r(1) Some by (simp add: same_rest_def)
  qed
  have sub: "set (Q1 q) = set (Q q) - {t}" for q
    using notin[of q] dist[of q] by (auto simp: Q1_def split: option.splits)
  have tm: "timed T s1 = timed T s" using s1(5) by (auto simp: timed_def)
  have "heap_holds s1 (timed T s)"
    by (rule heap_holds_cong[OF b(3)]) (use s1(4,5) in auto)
  then have base1: "base_ok T s1 Q1" using s1(2) b sub tm by (auto simp: base_ok_def)
  have oth: "\<forall>x \<in> T - {t}. thread_ok s1 Q1 x"
  proof
    fix x assume x: "x \<in> T - {t}"
    have "thread_ok s1 Q1 x = thread_ok s Q x"
      by (rule thread_ok_cong) (use x s1(3,5) sub in \<open>auto simp: same_rest_def\<close>)
    then show "thread_ok s1 Q1 x" using tok x by simp
  qed
  have f: "t \<notin> set (Q1 q)" for q using sub by simp
  from threads_add_ready_ok[OF base1 oth t(1) f] tok[OF t(1)] t(2) s1(5) obtain s' where s':
      "threads_add_ready t s1 = Some s'"
      "sched_ok T s' (Q1(Ready (th_priority (thr s t)) := Q1 (Ready (th_priority (thr s t))) @ [t]))"
      "thr s' = (thr s1)(t := (thr s1 t)\<lparr>th_state := THREAD_STATE_READY, th_wakeup := 0\<rparr>)" "same_rest s1 s'"
    by (auto simp: thread_ok_def)
  have "woken (thr s t) t Q = Q1(Ready (th_priority (thr s t)) := Q1 (Ready (th_priority (thr s t))) @ [t])"
    by (simp add: woken_def Q1_def Let_def)
  then show ?thesis using s1(1,3,5) s' same_rest_trans by (auto simp: thread_dequeue_def)
qed

section \<open>Signals, broadcasts and timeouts\<close>

lemma sched_ok_queue:
  assumes "sched_ok T s Q" and "wait_queue q" and "t \<in> set (Q q)"
  shows "t \<in> T" and "th_qwait (thr s t) = Some q" and "th_state (thr s t) = THREAD_STATE_SLEEP"
proof -
  show t: "t \<in> T" using assms by (auto simp: sched_ok_def base_ok_def)
  then have "thread_ok s Q t" using assms(1) by (simp add: sched_ok_def)
  then show "th_qwait (thr s t) = Some q" "th_state (thr s t) = THREAD_STATE_SLEEP"
    using assms(2,3) by (auto simp: thread_ok_def)
qed

lemma sched_ok_head: "sched_ok T s Q \<Longrightarrow> qhead s q = (if Q q = [] then None else Some (hd (Q q)))"
  using q_rep_head by (auto simp: sched_ok_def base_ok_def)

lemma woken_head:
  assumes "sched_ok T s Q" and "wait_queue q" and "Q q = t # ts"
  shows "woken (thr s t) t Q = Q(q := ts, Ready (th_priority (thr s t)) := Q (Ready (th_priority (thr s t))) @ [t])"
proof -
  have "th_qwait (thr s t) = Some q" using sched_ok_queue(2)[OF assms(1,2), of t] assms(3) by simp
  moreover have "Ready (th_priority (thr s t)) \<noteq> q" using assms(2) by auto
  ultimately show ?thesis using assms(3) by (simp add: woken_def Let_def)
qed

lemma thread_signal_ok:
  assumes ok: "sched_ok T s Q" and q: "wait_queue q"
  shows "case Q q of [] \<Rightarrow> thread_signal q s = Some (0, s)
    | t # ts \<Rightarrow> \<exists>s'. thread_signal q s = Some (1, s') \<and>
        sched_ok T s' (Q(q := ts, Ready (th_priority (thr s t)) := Q (Ready (th_priority (thr s t))) @ [t])) \<and>
        thr s' = (thr s)(t := (thr s t)\<lparr>th_qwait := None, th_state := THREAD_STATE_READY, th_wakeup := 0\<rparr>) \<and> same_rest s s'"
proof (cases "Q q")
  case Nil
  then show ?thesis using sched_ok_head[OF ok, of q] by (simp add: thread_signal_def)
next
  case (Cons t ts)
  have t: "t \<in> T" "th_state (thr s t) = THREAD_STATE_SLEEP"
    using sched_ok_queue[OF ok q, of t] Cons by simp_all
  have "qhead s q = Some t" using sched_ok_head[OF ok, of q] Cons by simp
  then show ?thesis
    using thread_dequeue_ok[OF ok t] woken_head[OF ok q Cons] Cons by (auto simp: thread_signal_def)
qed

text \<open>The queues after all of \<open>q\<close> went to the ready lists.\<close>

definition flushed :: "sched \<Rightarrow> queue \<Rightarrow> (queue \<Rightarrow> nat list) \<Rightarrow> queue \<Rightarrow> nat list" where
  "flushed s q Q = (\<lambda>r. if r = q then [] else (case r of
     Ready p \<Rightarrow> Q r @ filter (\<lambda>t. th_priority (thr s t) = p) (Q q) | _ \<Rightarrow> Q r))"

lemma broadcast_loop_ok:
  assumes "sched_ok T s Q" and "wait_queue q"
  shows "\<exists>s'. thread_broadcast_loop q r s = Some (if Q q = [] then r else 1, s') \<and> sched_ok T s' (flushed s q Q) \<and>
    thr s' = (\<lambda>t. if t \<in> set (Q q) then (thr s t)\<lparr>th_qwait := None, th_state := THREAD_STATE_READY, th_wakeup := 0\<rparr>
                  else thr s t) \<and> same_rest s s'"
  using assms
proof (induction "Q q" arbitrary: s Q r)
  case Nil
  then have "qhead s q = None" using sched_ok_head[OF Nil(2), of q] by simp
  moreover have "flushed s q Q = Q" using Nil(1) by (auto simp: flushed_def fun_eq_iff split: queue.splits)
  ultimately show ?case using Nil by (subst thread_broadcast_loop.simps) auto
next
  case (Cons t ts)
  have Qq: "Q q = t # ts" using Cons(2) by simp
  have "t \<in> T" "th_state (thr s t) = THREAD_STATE_SLEEP"
    using sched_ok_queue[OF Cons(3,4), of t] Qq by simp_all
  from thread_dequeue_ok[OF Cons(3) this] obtain s1 where s1: "thread_dequeue t s = Some s1"
      "sched_ok T s1 (woken (thr s t) t Q)"
      "thr s1 = (thr s)(t := (thr s t)\<lparr>th_qwait := None, th_state := THREAD_STATE_READY, th_wakeup := 0\<rparr>)"
      "same_rest s s1" by blast
  define Q1 where "Q1 = woken (thr s t) t Q"
  have Q1: "Q1 = Q(q := ts, Ready (th_priority (thr s t)) := Q (Ready (th_priority (thr s t))) @ [t])"
    using woken_head[OF Cons(3,4) Qq] by (simp add: Q1_def)
  have nq: "q \<noteq> Ready p" for p using Cons(4) by auto
  have "ts = Q1 q" using Q1 nq by simp
  from Cons.hyps(1)[where Q = Q1 and s = s1 and r = 1, OF this] s1(2) Cons(4) obtain s' where s':
      "thread_broadcast_loop q 1 s1 = Some (1, s')" "sched_ok T s' (flushed s1 q Q1)"
      "thr s' = (\<lambda>x. if x \<in> set ts then (thr s1 x)\<lparr>th_qwait := None, th_state := THREAD_STATE_READY, th_wakeup := 0\<rparr>
                  else thr s1 x)" "same_rest s1 s'" by (auto simp: Q1_def[symmetric] \<open>ts = Q1 q\<close>[symmetric])
  have "distinct (t # ts)" using Cons(3) Qq cyc_distinct unfolding sched_ok_def base_ok_def q_rep_def by metis
  then have "thr s' = (\<lambda>x. if x \<in> set (Q q) then (thr s x)\<lparr>th_qwait := None, th_state := THREAD_STATE_READY, th_wakeup := 0\<rparr>
                  else thr s x)" using s'(3) s1(3) Qq by (auto simp: fun_eq_iff)
  moreover have pr: "th_priority (thr s1 x) = th_priority (thr s x)" for x using s1(3) by simp
  have "flushed s1 q Q1 = flushed s q Q"
    unfolding flushed_def Q1 using Qq nq pr by (auto simp: fun_eq_iff split: queue.splits)
  moreover have "qhead s q = Some t" using sched_ok_head[OF Cons(3), of q] Qq by simp
  ultimately show ?case using s1 s' Qq same_rest_trans by (subst thread_broadcast_loop.simps) auto
qed

lemma timed_finite: "sched_ok T s Q \<Longrightarrow> finite (timed T s)"
  by (auto simp: sched_ok_def base_ok_def heap_holds_def)

lemma sched_ok_context:
  assumes "sched_ok T s Q"
  shows "sched_ok T (upd_thr t (\<lambda>x. x\<lparr>th_context := f (th_context x)\<rparr>) s) Q"
proof -
  let ?s = "upd_thr t (\<lambda>x. x\<lparr>th_context := f (th_context x)\<rparr>) s"
  have tm: "timed T ?s = timed T s" by (auto simp: timed_def)
  have "heap_holds ?s (timed T s)"
    by (rule heap_holds_cong[of s]) (use assms in \<open>auto simp: sched_ok_def base_ok_def\<close>)
  moreover have "thread_ok ?s Q x = thread_ok s Q x" for x by (simp add: thread_ok_def)
  moreover have "q_rep ?s Q = q_rep s Q" by (rule q_rep_cong) simp_all
  ultimately show ?thesis using assms by (simp add: sched_ok_def base_ok_def tm)
qed

definition expired :: "int \<Rightarrow> nat set \<Rightarrow> sched \<Rightarrow> nat set" where
  "expired now T s = {t \<in> timed T s. th_wakeup (thr s t) \<le> now}"

definition asleep :: "nat set \<Rightarrow> sched \<Rightarrow> nat set" where
  "asleep T s = {t \<in> T. th_state (thr s t) = THREAD_STATE_SLEEP}"

lemma s8_return: "thread_return t (upd_thr t (\<lambda>x. x\<lparr>th_context := (th_context x)\<lparr>c_af := c_af (th_context x) mod 16 + nat (v mod 256) * 256\<rparr>\<rparr>) s) = s8 v"
proof -
  have "(c_af (th_context (thr s t)) mod 16 + nat (v mod 256) * 256) div 256 = nat (v mod 256)" by simp
  moreover have "(v mod 256 + 128) mod 256 = (v + 128) mod 256" by (metis mod_add_left_eq)
  ultimately show ?thesis by (simp add: thread_return_def s8_def)
qed

lemma wake_expired_ok:
  assumes "sched_ok T s Q"
  shows "\<exists>s' Q'. thread_wake_expired now s = Some s' \<and> sched_ok T s' Q' \<and>
    timed T s' = timed T s - expired now T s \<and>
    (\<forall>t \<in> expired now T s. th_state (thr s' t) = THREAD_STATE_READY \<and> thread_return t s' = - ETIME) \<and>
    (\<forall>t. t \<notin> expired now T s \<longrightarrow> thr s' t = thr s t) \<and>
    (\<forall>t. th_priority (thr s' t) = th_priority (thr s t) \<and> th_exit (thr s' t) = th_exit (thr s t) \<and>
       c_layout (th_context (thr s' t)) = c_layout (th_context (thr s t))) \<and>
    Q' IrqSignaled = filter (\<lambda>t. t \<notin> expired now T s) (Q IrqSignaled) \<and> same_rest s s'"
  using assms
proof (induction "card (expired now T s)" arbitrary: s Q rule: less_induct)
  case less
  have hp: "heap_holds s (timed T s)" using less.prems by (simp add: sched_ok_def base_ok_def)
  have fin: "finite (expired now T s)" using timed_finite[OF less.prems] by (simp add: expired_def)
  show ?case
  proof (cases "expired now T s = {}")
    case True
    have "thread_wake_expired now s = Some s"
    proof (cases "snd (bheap_peek (sleep_heap s))")
      case None
      then show ?thesis by (subst thread_wake_expired.simps) simp
    next
      case (Some t)
      then have "\<not> th_wakeup (thr s t) \<le> now" using heap_holds_peek(2)[OF hp Some] True by (auto simp: expired_def)
      then show ?thesis using Some by (subst thread_wake_expired.simps) simp
    qed
    then show ?thesis using True less.prems by (intro exI[of _ s] exI[of _ Q]) simp
  next
    case False
    then obtain x where x: "x \<in> timed T s" "th_wakeup (thr s x) \<le> now" by (auto simp: expired_def)
    then obtain t where pk: "snd (bheap_peek (sleep_heap s)) = Some t"
      using heap_holds_peek(1)[OF hp] by fastforce
    then have t: "t \<in> timed T s" "th_wakeup (thr s t) \<le> now" using heap_holds_peek(2)[OF hp pk] x by force+
    then have tT: "t \<in> T" "th_state (thr s t) = THREAD_STATE_SLEEP" "t \<in> expired now T s"
      by (auto simp: timed_def expired_def)
    define g :: "cpu_context \<Rightarrow> cpu_context" where "g = (\<lambda>c. c\<lparr>c_af := c_af c mod 16 + nat ((- ETIME) mod 256) * 256\<rparr>)"
    define s1 where "s1 = upd_thr t (\<lambda>x. x\<lparr>th_context := g (th_context x)\<rparr>) s"
    have set: "thread_set_return t (- ETIME) s = Some s1"
      using tT(2) by (simp add: thread_set_return_def s1_def g_def)
    have ok1: "sched_ok T s1 Q" unfolding s1_def by (rule sched_ok_context[OF less.prems])
    have ret: "thread_return t s1 = - ETIME"
      using s8_return[of t "- ETIME" s] by (simp add: s1_def g_def errno_defs)
    have "th_state (thr s1 t) = THREAD_STATE_SLEEP" using tT by (simp add: s1_def)
    from thread_dequeue_ok[OF ok1 tT(1) this] obtain s2 where s2: "thread_dequeue t s1 = Some s2"
        "sched_ok T s2 (woken (thr s1 t) t Q)"
        "thr s2 = (thr s1)(t := (thr s1 t)\<lparr>th_qwait := None, th_state := THREAD_STATE_READY, th_wakeup := 0\<rparr>)"
        "same_rest s1 s2" by blast
    have th2: "thr s2 = (thr s)(t := (thr s1 t)\<lparr>th_qwait := None, th_state := THREAD_STATE_READY, th_wakeup := 0\<rparr>)"
      using s2(3) by (simp add: s1_def)
    have tm2: "timed T s2 = timed T s - {t}" using th2 by (auto simp: timed_def thread_consts)
    then have ex2: "expired now T s2 = expired now T s - {t}" using th2 by (auto simp: expired_def)
    then have "card (expired now T s2) < card (expired now T s)"
      using fin tT(3) by (metis card_Diff1_less)
    from less.hyps[OF this s2(2)] obtain s' Q' where s':
        "thread_wake_expired now s2 = Some s'" "sched_ok T s' Q'"
        "timed T s' = timed T s2 - expired now T s2"
        "\<forall>x \<in> expired now T s2. th_state (thr s' x) = THREAD_STATE_READY \<and> thread_return x s' = - ETIME"
        "\<forall>x. x \<notin> expired now T s2 \<longrightarrow> thr s' x = thr s2 x"
        "\<forall>x. th_priority (thr s' x) = th_priority (thr s2 x) \<and> th_exit (thr s' x) = th_exit (thr s2 x) \<and>
           c_layout (th_context (thr s' x)) = c_layout (th_context (thr s2 x))"
        "Q' IrqSignaled = filter (\<lambda>x. x \<notin> expired now T s2) (woken (thr s1 t) t Q IrqSignaled)"
        "same_rest s2 s'" by blast
    have run: "thread_wake_expired now s = Some s'"
      using pk t(2) set s2(1) s'(1) by (subst thread_wake_expired.simps) simp
    have st: "thr s' t = thr s2 t" using s'(5) ex2 by simp
    have at: "th_state (thr s' t) = THREAD_STATE_READY \<and> thread_return t s' = - ETIME"
      using st th2 ret by (simp add: thread_return_def)
    have irq: "Q' IrqSignaled = filter (\<lambda>x. x \<notin> expired now T s) (Q IrqSignaled)"
    proof -
      have d: "distinct (Q IrqSignaled)"
        using less.prems cyc_distinct unfolding sched_ok_def base_ok_def q_rep_def by blast
      have "t \<in> set (Q IrqSignaled) \<longleftrightarrow> th_qwait (thr s t) = Some IrqSignaled"
        using less.prems tT(1) by (auto simp: sched_ok_def thread_ok_def)
      then have "woken (thr s1 t) t Q IrqSignaled = remove1 t (Q IrqSignaled)"
        by (auto simp: woken_def s1_def Let_def remove1_idem split: option.splits)
      moreover have "remove1 t (Q IrqSignaled) = filter (\<lambda>x. x \<noteq> t) (Q IrqSignaled)"
        unfolding distinct_remove1_removeAll[OF d] removeAll_filter_not_eq by (rule filter_cong) auto
      ultimately have "woken (thr s1 t) t Q IrqSignaled = filter (\<lambda>x. x \<noteq> t) (Q IrqSignaled)" by simp
      then show ?thesis using s'(7) ex2 tT(3) by (auto intro: filter_cong)
    qed
    have pr: "th_priority (thr s2 x) = th_priority (thr s x) \<and> th_exit (thr s2 x) = th_exit (thr s x) \<and>
        c_layout (th_context (thr s2 x)) = c_layout (th_context (thr s x))" for x
      using th2 by (simp add: s1_def g_def)
    have "same_rest s s1" by (simp add: s1_def same_rest_def)
    then have sr: "same_rest s s'" using s2(4) s'(8) same_rest_trans by blast
    have unch: "thr s' x = thr s x" if "x \<notin> expired now T s" for x
    proof -
      have "x \<notin> expired now T s2" "x \<noteq> t" using that ex2 tT(3) by auto
      then show ?thesis using s'(5) th2 by simp
    qed
    have tm': "timed T s' = timed T s - expired now T s" using s'(3) tm2 ex2 tT(3) by auto
    have all: "\<forall>x \<in> expired now T s. th_state (thr s' x) = THREAD_STATE_READY \<and> thread_return x s' = - ETIME"
    proof
      fix x assume "x \<in> expired now T s"
      then show "th_state (thr s' x) = THREAD_STATE_READY \<and> thread_return x s' = - ETIME"
        using at s'(4) ex2 by (cases "x = t") simp_all
    qed
    show ?thesis
      using run s'(2,6) tm' all irq pr sr unch by (intro exI[of _ s'] exI[of _ Q']) simp
  qed
qed

text \<open>
  What every step of the scheduler guarantees to a thread that did not ask for it: it is not
  put to sleep or moved to another wait queue, and its \<open>exit\<close> flag stays.
\<close>

definition runnable :: "sched \<Rightarrow> nat \<Rightarrow> bool" where
  "runnable s t \<longleftrightarrow> th_state (thr s t) = THREAD_STATE_READY \<or> th_state (thr s t) = THREAD_STATE_ACTIVE"

definition undisturbed :: "nat set \<Rightarrow> sched \<Rightarrow> sched \<Rightarrow> bool" where
  "undisturbed T s s' \<longleftrightarrow> (\<forall>x \<in> T. (th_qwait (thr s' x) = th_qwait (thr s x) \<or> th_qwait (thr s' x) = None) \<and>
     (runnable s x \<longrightarrow> runnable s' x) \<and> th_exit (thr s' x) = th_exit (thr s x))"

lemma undisturbed_refl [simp]: "undisturbed T s s"
  by (simp add: undisturbed_def)

lemma undisturbed_trans: "undisturbed T s s' \<Longrightarrow> undisturbed T s' s'' \<Longrightarrow> undisturbed T s s''"
  unfolding undisturbed_def by (metis (no_types, lifting))

lemma undisturbed_woken:
  assumes "\<And>x. thr s' x = (if x \<in> X then (thr s x)\<lparr>th_qwait := None, th_state := THREAD_STATE_READY, th_wakeup := 0\<rparr> else thr s x)"
  shows "undisturbed T s s'"
  using assms by (auto simp: undisturbed_def runnable_def)

lemma undisturbed_expired:
  assumes ok: "sched_ok T s' Q'" and
    "\<forall>t \<in> E. th_state (thr s' t) = THREAD_STATE_READY" "\<forall>t. t \<notin> E \<longrightarrow> thr s' t = thr s t"
    "\<forall>t. th_exit (thr s' t) = th_exit (thr s t)"
  shows "undisturbed T s s'"
  unfolding undisturbed_def
proof (intro ballI conjI)
  fix x assume x: "x \<in> T"
  show "th_qwait (thr s' x) = th_qwait (thr s x) \<or> th_qwait (thr s' x) = None"
  proof (cases "x \<in> E")
    case True
    then have "th_state (thr s' x) = THREAD_STATE_READY" using assms(2) by simp
    moreover have "thread_ok s' Q' x" using ok x by (simp add: sched_ok_def)
    ultimately show ?thesis unfolding thread_ok_def by (cases "th_qwait (thr s' x)") (auto simp: thread_consts)
  qed (use assms(3) in simp)
  show "runnable s x \<longrightarrow> runnable s' x" using assms(2,3) by (cases "x \<in> E") (auto simp: runnable_def)
  show "th_exit (thr s' x) = th_exit (thr s x)" using assms(4) by simp
qed

section \<open>Choosing the next thread\<close>

lemma thread_select_ok:
  assumes ok: "sched_ok T s Q" and idle: "\<forall>x \<in> T. th_state (thr s x) \<noteq> THREAD_STATE_ACTIVE"
    and hi: "\<forall>p'. p \<le> p' \<longrightarrow> p' < p0 \<longrightarrow> Q (Ready p') = []" and q: "Q (Ready p0) = t # ts"
    and p: "p \<le> p0" "p0 < THREAD_PRIORITY_NO"
    and live: "\<not> (th_exit (thr s t) \<and> c_layout (th_context (thr s t)) \<noteq> CONTEXT_LAYOUT_KERNEL)"
  shows "\<exists>s'. thread_select p ctx s = Some (ctx\<lparr>c_nsp := c_sp (th_context (thr s t)),
        c_nmmu := c_mmu (th_context (thr s t)), c_nlayout := c_layout (th_context (thr s t))\<rparr>, s') \<and>
    sched_ok T s' (Q(Ready p0 := ts)) \<and> current s' = Some t \<and>
    thr s' = (thr s)(t := (thr s t)\<lparr>th_state := THREAD_STATE_ACTIVE\<rparr>)"
  using hi p(1)
proof (induction "p0 - p" arbitrary: p)
  case (Suc n)
  then have lt: "p < p0" by simp
  then have "qhead s (Ready p) = None" using Suc.prems(1) sched_ok_head[OF ok, of "Ready p"] by simp
  moreover have "n = p0 - (p + 1)" "p + 1 \<le> p0" using Suc.hyps(2) lt by simp_all
  ultimately show ?case using Suc.hyps(1)[of "p + 1"] Suc.prems lt p(2) by (subst thread_select.simps) simp
next
  case 0
  then have pp: "p = p0" using p(1) by simp
  have b: "q_rep s Q" "finite T" "heap_holds s (timed T s)" "\<And>q. set (Q q) \<subseteq> T"
    using ok by (auto simp: sched_ok_def base_ok_def)
  have tT: "t \<in> T" using b(4)[of "Ready p0"] q by simp
  have "thread_ok s Q t" using ok tT by (simp add: sched_ok_def)
  moreover have "t \<in> set (Q (Ready p0))" using q by simp
  ultimately have st: "th_state (thr s t) = THREAD_STATE_READY" "th_priority (thr s t) = p0"
    unfolding thread_ok_def by blast+
  have hd: "qhead s (Ready p) = Some t" using sched_ok_head[OF ok, of "Ready p"] q pp by simp
  have "t \<in> set (Q (Ready p0))" using q by simp
  from q_remove_rep[OF b(1) this] q obtain h l where r: "q_remove (Ready p) t s = Some (s\<lparr>qhead := h, qlink := l\<rparr>)"
      "q_rep (s\<lparr>qhead := h, qlink := l\<rparr>) (Q(Ready p0 := ts))" using pp by auto
  define s' where "s' = (upd_thr t (\<lambda>x. x\<lparr>th_state := THREAD_STATE_ACTIVE\<rparr>) (s\<lparr>qhead := h, qlink := l\<rparr>))\<lparr>current := Some t\<rparr>"
  have run: "thread_select p ctx s = Some (ctx\<lparr>c_nsp := c_sp (th_context (thr s t)),
        c_nmmu := c_mmu (th_context (thr s t)), c_nlayout := c_layout (th_context (thr s t))\<rparr>, s')"
    using hd r(1) live p(2) pp by (subst thread_select.simps) (auto simp: s'_def Let_def)
  have th: "thr s' = (thr s)(t := (thr s t)\<lparr>th_state := THREAD_STATE_ACTIVE\<rparr>)" "current s' = Some t"
    by (simp_all add: s'_def)
  have dist: "distinct (t # ts)" using b(1) q cyc_distinct unfolding q_rep_def by metis
  have tm: "timed T s' = timed T s" using th st by (auto simp: timed_def thread_consts)
  have "heap_holds s' (timed T s)"
    by (rule heap_holds_cong[OF b(3)]) (use th in \<open>auto simp: s'_def\<close>)
  moreover have "q_rep s' (Q(Ready p0 := ts))" using r(2) q_rep_cong[of s' "s\<lparr>qhead := h, qlink := l\<rparr>"]
    by (simp add: s'_def)
  moreover have "thread_ok s' (Q(Ready p0 := ts)) x" if x: "x \<in> T" for x
  proof (cases "x = t")
    case True
    have "thread_ok s Q t" using ok tT by (simp add: sched_ok_def)
    then show ?thesis using True th st dist q unfolding thread_ok_def
      by (auto simp: thread_consts)
  next
    case False
    have "thread_ok s Q x" using ok x by (simp add: sched_ok_def)
    moreover have "(x \<in> set ((Q(Ready p0 := ts)) r)) = (x \<in> set (Q r))" for r using False q by auto
    then have "thread_ok s' (Q(Ready p0 := ts)) x = thread_ok s Q x"
      by (rule thread_ok_cong_idle[rotated]) (use False th(1) idle x in auto)
    ultimately show ?thesis by simp
  qed
  moreover have "set ((Q(Ready p0 := ts)) r) \<subseteq> T" for r using b(4)[of r] b(4)[of "Ready p0"] q by auto
  ultimately have "sched_ok T s' (Q(Ready p0 := ts))" using b(2) tm by (simp add: sched_ok_def base_ok_def)
  then show ?case using run th by blast
qed

definition killable :: "sched \<Rightarrow> nat \<Rightarrow> bool" where
  "killable s t \<longleftrightarrow> th_exit (thr s t) \<and> c_layout (th_context (thr s t)) \<noteq> CONTEXT_LAYOUT_KERNEL"

text \<open>The ready list of priority \<open>p\<close> after the current thread, if still active, went to its end.\<close>

definition ready_with :: "sched \<Rightarrow> (queue \<Rightarrow> nat list) \<Rightarrow> nat \<Rightarrow> nat list" where
  "ready_with s Q p = Q (Ready p) @ (case current s of
     Some c \<Rightarrow> if th_state (thr s c) = THREAD_STATE_ACTIVE \<and> th_priority (thr s c) = p then [c] else []
   | None \<Rightarrow> [])"

lemma thread_schedule_ok:
  assumes ok: "sched_ok T s Q" and cur: "current s = Some c" "c \<in> T"
    and live: "\<forall>x \<in> T. x \<noteq> c \<longrightarrow> \<not> killable s x" "\<not> (th_exit (thr s c) \<and> c_layout ctx \<noteq> CONTEXT_LAYOUT_KERNEL)"
    and some: "th_state (thr s c) = THREAD_STATE_ACTIVE \<or> (\<exists>x \<in> T. th_state (thr s x) = THREAD_STATE_READY)"
  shows "\<exists>ctx' s' Q' t. thread_schedule ctx s = Some (ctx', s') \<and> sched_ok T s' Q' \<and> t \<in> T \<and>
    current s' = Some t \<and> th_state (thr s' t) = THREAD_STATE_ACTIVE \<and> schedule s' \<and>
    ready_with s Q (th_priority (thr s t)) = t # Q' (Ready (th_priority (thr s t))) \<and>
    (\<forall>p. p \<noteq> th_priority (thr s t) \<longrightarrow> Q' (Ready p) = ready_with s Q p) \<and>
    (\<forall>p < th_priority (thr s t). Q' (Ready p) = []) \<and>
    (\<forall>q. (\<forall>p. q \<noteq> Ready p) \<longrightarrow> Q' q = Q q) \<and>
    c_nsp ctx' = c_sp (th_context (thr s' t)) \<and> c_nmmu ctx' = c_mmu (th_context (thr s' t)) \<and>
    c_nlayout ctx' = c_layout (th_context (thr s' t)) \<and>
    (\<forall>x. th_wakeup (thr s' x) = th_wakeup (thr s x) \<and> th_priority (thr s' x) = th_priority (thr s x)) \<and>
    timed T s' = timed T s \<and> undisturbed T s s' \<and>
    (\<forall>x \<in> T. x \<noteq> c \<longrightarrow> (th_state (thr s' x) = THREAD_STATE_SLEEP \<longleftrightarrow> th_state (thr s x) = THREAD_STATE_SLEEP) \<and>
       (x \<noteq> t \<longrightarrow> thr s' x = thr s x) \<and> thread_return x s' = thread_return x s)"
proof -
  define s0 where "s0 = upd_thr c (\<lambda>x. x\<lparr>th_context := ctx\<rparr>) s"
  have ok0: "sched_ok T s0 Q" using sched_ok_context[OF ok, of c "\<lambda>_. ctx"] by (simp add: s0_def)
  have th0: "thr s0 = (thr s)(c := (thr s c)\<lparr>th_context := ctx\<rparr>)" "current s0 = Some c"
    using cur by (simp_all add: s0_def)
  have cok: "thread_ok s0 Q c" using ok0 cur(2) by (simp add: sched_ok_def)
  define R where "R = (\<lambda>q. case q of Ready p \<Rightarrow> ready_with s Q p | _ \<Rightarrow> Q q)"
  define act where "act = (th_state (thr s c) = THREAD_STATE_ACTIVE)"
  obtain s1 where s1: "(if th_state (thr s0 c) = THREAD_STATE_ACTIVE then threads_add_ready c s0 else Some s0) = Some s1"
      "sched_ok T s1 R" "same_rest s0 s1"
      "thr s1 = (if act then (thr s0)(c := (thr s0 c)\<lparr>th_state := THREAD_STATE_READY, th_wakeup := 0\<rparr>) else thr s0)"
  proof (cases act)
    case True
    then have a: "th_state (thr s0 c) = THREAD_STATE_ACTIVE" using th0 by (simp add: act_def)
    have f: "c \<notin> set (Q q)" for q using cok a by (cases q) (auto simp: thread_ok_def thread_consts)
    have qn: "th_qwait (thr s0 c) = None" "th_priority (thr s0 c) < THREAD_PRIORITY_NO"
      "th_wakeup (thr s0 c) \<noteq> 0 \<longrightarrow> th_state (thr s0 c) = THREAD_STATE_SLEEP"
      using cok a by (auto simp: thread_ok_def thread_consts)
    have "base_ok T s0 Q" "\<forall>x \<in> T - {c}. thread_ok s0 Q x" using ok0 by (auto simp: sched_ok_def)
    from threads_add_ready_ok[OF this cur(2) f qn] obtain s1 where r: "threads_add_ready c s0 = Some s1"
        "sched_ok T s1 (Q(Ready (th_priority (thr s0 c)) := Q (Ready (th_priority (thr s0 c))) @ [c]))"
        "thr s1 = (thr s0)(c := (thr s0 c)\<lparr>th_state := THREAD_STATE_READY, th_wakeup := 0\<rparr>)" "same_rest s0 s1" by blast
    have "R = Q(Ready (th_priority (thr s0 c)) := Q (Ready (th_priority (thr s0 c))) @ [c])"
      using cur True th0 by (auto simp: R_def ready_with_def act_def fun_eq_iff split: queue.splits)
    then show ?thesis using that[of s1] r a True by simp
  next
    case False
    then have "R = Q" using cur by (auto simp: R_def ready_with_def act_def fun_eq_iff split: queue.splits)
    then show ?thesis using that[of s0] ok0 False th0 by (simp add: act_def)
  qed
  have idle: "\<forall>x \<in> T. th_state (thr s1 x) \<noteq> THREAD_STATE_ACTIVE"
  proof
    fix x assume x: "x \<in> T"
    have "th_state (thr s0 x) = THREAD_STATE_ACTIVE \<longrightarrow> x = c"
      using thread_okD(5)[OF ok0 x] th0(2) by auto
    moreover have "th_state (thr s1 x) = th_state (thr s0 x)" if "x \<noteq> c" using s1(4) that by simp
    moreover have "th_state (thr s1 c) \<noteq> THREAD_STATE_ACTIVE"
      using s1(4) th0 by (cases act) (simp_all add: act_def thread_consts)
    ultimately show "th_state (thr s1 x) \<noteq> THREAD_STATE_ACTIVE" by metis
  qed
  have "\<exists>x \<in> T. th_state (thr s1 x) = THREAD_STATE_READY"
    using some s1(4) th0 cur(2) by (auto simp: act_def)
  then obtain x where x: "x \<in> T" "th_state (thr s1 x) = THREAD_STATE_READY" by blast
  define p0 where "p0 = (LEAST p. R (Ready p) \<noteq> [])"
  have xr: "x \<in> set (R (Ready (th_priority (thr s1 x))))" "th_priority (thr s1 x) < THREAD_PRIORITY_NO"
    using thread_okD(1,2)[OF s1(2) x(1)] x(2) by simp_all
  then have ne: "R (Ready (th_priority (thr s1 x))) \<noteq> []" by auto
  have p0: "R (Ready p0) \<noteq> []" "p0 \<le> th_priority (thr s1 x)"
    unfolding p0_def using ne by (rule LeastI, intro Least_le)
  have hi: "\<forall>p'. 0 \<le> p' \<longrightarrow> p' < p0 \<longrightarrow> R (Ready p') = []" unfolding p0_def using not_less_Least by blast
  obtain t ts where tts: "R (Ready p0) = t # ts" using p0(1) by (cases "R (Ready p0)") auto
  have "set (R (Ready p0)) \<subseteq> T" using s1(2) by (simp add: sched_ok_def base_ok_def)
  then have tT: "t \<in> T" using tts by simp
  have pt: "th_priority (thr s1 t) = p0" using thread_okD(2)[OF s1(2) tT, of p0] tts by simp
  have lt: "\<not> (th_exit (thr s1 t) \<and> c_layout (th_context (thr s1 t)) \<noteq> CONTEXT_LAYOUT_KERNEL)"
    using live tT s1(4) th0 by (cases "t = c") (auto simp: killable_def)
  have p0b: "p0 < THREAD_PRIORITY_NO" using p0(2) xr(2) by simp
  from thread_select_ok[OF s1(2) idle hi tts _ p0b lt, of ctx] obtain s' where s':
      "thread_select 0 ctx s1 = Some (ctx\<lparr>c_nsp := c_sp (th_context (thr s1 t)),
        c_nmmu := c_mmu (th_context (thr s1 t)), c_nlayout := c_layout (th_context (thr s1 t))\<rparr>, s')"
      "sched_ok T s' (R(Ready p0 := ts))" "current s' = Some t"
      "thr s' = (thr s1)(t := (thr s1 t)\<lparr>th_state := THREAD_STATE_ACTIVE\<rparr>)" by auto
  define s'' where "s'' = s'\<lparr>schedule := True\<rparr>"
  have run: "thread_schedule ctx s = Some (ctx\<lparr>c_nsp := c_sp (th_context (thr s1 t)),
        c_nmmu := c_mmu (th_context (thr s1 t)), c_nlayout := c_layout (th_context (thr s1 t))\<rparr>, s'')"
    using cur(1) s1(1) s'(1) th0 by (simp add: thread_schedule_def Let_def s0_def[symmetric] s''_def)
  have prs: "th_priority (thr s1 y) = th_priority (thr s y)" for y using s1(4) th0 by simp
  have wks: "th_wakeup (thr s' y) = th_wakeup (thr s y)" for y
    using s'(4) s1(4) th0 cok by (auto simp: thread_ok_def act_def thread_consts)
  have ok'': "sched_ok T s'' (R(Ready p0 := ts))"
  proof -
    have "heap_holds s'' (timed T s')"
      by (rule heap_holds_cong[of s']) (use s'(2) in \<open>auto simp: sched_ok_def base_ok_def s''_def\<close>)
    moreover have "thread_ok s'' (R(Ready p0 := ts)) y = thread_ok s' (R(Ready p0 := ts)) y" for y
      by (simp add: thread_ok_def s''_def)
    moreover have "timed T s'' = timed T s'" by (simp add: timed_def s''_def)
    ultimately show ?thesis using s'(2) q_rep_cong[of s'' s'] by (simp add: sched_ok_def base_ok_def s''_def)
  qed
  have tmd: "timed T s'' = timed T s"
  proof -
    have wz: "th_wakeup (thr s y) \<noteq> 0 \<longrightarrow> th_state (thr s y) = THREAD_STATE_SLEEP" if "y \<in> T" for y
      using thread_okD(4)[OF ok that] by blast
    have wz': "th_wakeup (thr s'' y) \<noteq> 0 \<longrightarrow> th_state (thr s'' y) = THREAD_STATE_SLEEP" if "y \<in> T" for y
      using thread_okD(4)[OF ok'' that] by blast
    show ?thesis using wz wz' wks by (auto simp: timed_def s''_def)
  qed
  have und: "undisturbed T s s''"
    unfolding undisturbed_def
  proof (intro ballI conjI)
    fix y assume y: "y \<in> T"
    show "th_qwait (thr s'' y) = th_qwait (thr s y) \<or> th_qwait (thr s'' y) = None"
      "th_exit (thr s'' y) = th_exit (thr s y)"
      using s'(4) s1(4) th0 by (simp_all add: s''_def)
    show "runnable s y \<longrightarrow> runnable s'' y"
    proof
      assume r: "runnable s y"
      have "th_state (thr s1 y) = THREAD_STATE_READY"
      proof (cases "y = c")
        case True
        then show ?thesis using r s1(4) th0 by (cases act) (auto simp: runnable_def act_def)
      next
        case False
        then have "th_state (thr s y) = THREAD_STATE_READY"
          using r thread_okD(5)[OF ok y] cur(1) by (auto simp: runnable_def)
        then show ?thesis using False s1(4) th0 by simp
      qed
      then show "runnable s'' y" using s'(4) by (simp add: runnable_def s''_def)
    qed
  qed
  have Rp: "R (Ready p) = ready_with s Q p" for p by (simp add: R_def)
  have tp: "th_priority (thr s t) = p0" using pt prs by simp
  have ctxs: "th_context (thr s'' t) = th_context (thr s1 t)" using s'(4) by (simp add: s''_def)
  have "\<forall>p<p0. (R(Ready p0 := ts)) (Ready p) = []" using hi by simp
  moreover have "\<forall>q. (\<forall>p. q \<noteq> Ready p) \<longrightarrow> (R(Ready p0 := ts)) q = Q q"
    by (auto simp: R_def split: queue.splits)
  moreover have "\<forall>x \<in> T. x \<noteq> c \<longrightarrow>
      (th_state (thr s'' x) = THREAD_STATE_SLEEP \<longleftrightarrow> th_state (thr s x) = THREAD_STATE_SLEEP) \<and>
      (x \<noteq> t \<longrightarrow> thr s'' x = thr s x) \<and> thread_return x s'' = thread_return x s"
  proof (intro ballI impI)
    fix x assume x: "x \<in> T" "x \<noteq> c"
    have 1: "thr s1 x = thr s x" using s1(4) th0 x(2) by simp
    have 2: "th_state (thr s1 t) = THREAD_STATE_READY" using thread_okD(2)[OF s1(2) tT, of p0] tts by simp
    show "(th_state (thr s'' x) = THREAD_STATE_SLEEP \<longleftrightarrow> th_state (thr s x) = THREAD_STATE_SLEEP) \<and>
      (x \<noteq> t \<longrightarrow> thr s'' x = thr s x) \<and> thread_return x s'' = thread_return x s"
      using 1 2 s'(4) by (cases "x = t") (auto simp: s''_def thread_return_def thread_consts)
  qed
  ultimately show ?thesis
    using run ok'' tT s'(3,4) tp tts Rp ctxs wks prs tmd und
    by (intro exI[of _ "ctx\<lparr>c_nsp := c_sp (th_context (thr s1 t)),
        c_nmmu := c_mmu (th_context (thr s1 t)), c_nlayout := c_layout (th_context (thr s1 t))\<rparr>"]
        exI[of _ s''] exI[of _ "R(Ready p0 := ts)"] exI[of _ t]) (simp add: s''_def)
qed

section \<open>Ticks and waits\<close>

lemma thread_on_tick_ok:
  assumes ok: "sched_ok T s Q" and cur: "current s = Some c" "c \<in> T" "th_state (thr s c) = THREAD_STATE_ACTIVE"
    and on: "schedule s"
    and live: "\<forall>x \<in> T. x \<noteq> c \<longrightarrow> \<not> killable s x" "\<not> (th_exit (thr s c) \<and> c_layout ctx \<noteq> CONTEXT_LAYOUT_KERNEL)"
  shows "\<exists>ctx' s' Q' t. thread_on_tick now ctx s = Some (ctx', s') \<and> sched_ok T s' Q' \<and> schedule s' \<and>
    current s' = Some t \<and> t \<in> T \<and> th_state (thr s' t) = THREAD_STATE_ACTIVE \<and>
    (\<forall>x \<in> T. th_state (thr s' x) = THREAD_STATE_READY \<longrightarrow> th_priority (thr s' t) \<le> th_priority (thr s' x)) \<and>
    (\<forall>x \<in> timed T s'. now < th_wakeup (thr s' x)) \<and> Q' IrqSignaled = [] \<and>
    c_nsp ctx' = c_sp (th_context (thr s' t)) \<and> undisturbed T s s' \<and>
    asleep T s' = asleep T s - set (Q IrqSignaled) - expired now T s \<and>
    (\<forall>x \<in> asleep T s'. thr s' x = thr s x) \<and>
    (\<forall>x \<in> expired now T s - set (Q IrqSignaled). thread_return x s' = - ETIME)"
proof -
  from broadcast_loop_ok[OF ok, of IrqSignaled 0] obtain s1 where s1:
      "thread_broadcast_loop IrqSignaled 0 s = Some (if Q IrqSignaled = [] then 0 else 1, s1)"
      "sched_ok T s1 (flushed s IrqSignaled Q)"
      "thr s1 = (\<lambda>t. if t \<in> set (Q IrqSignaled) then (thr s t)\<lparr>th_qwait := None, th_state := THREAD_STATE_READY, th_wakeup := 0\<rparr>
                  else thr s t)" "same_rest s s1" by auto
  define s2 where "s2 = s1\<lparr>schedule := False\<rparr>"
  have ok2: "sched_ok T s2 (flushed s IrqSignaled Q)"
  proof -
    have "heap_holds s2 (timed T s1)"
      by (rule heap_holds_cong[of s1]) (use s1(2) in \<open>auto simp: sched_ok_def base_ok_def s2_def\<close>)
    moreover have "timed T s2 = timed T s1" by (simp add: timed_def s2_def)
    moreover have "thread_ok s2 X y = thread_ok s1 X y" for X y by (simp add: thread_ok_def s2_def)
    ultimately show ?thesis using s1(2) q_rep_cong[of s2 s1] by (simp add: sched_ok_def base_ok_def s2_def)
  qed
  from wake_expired_ok[OF ok2, of now] obtain s3 Q3 where s3: "thread_wake_expired now s2 = Some s3" "sched_ok T s3 Q3"
      "timed T s3 = timed T s2 - expired now T s2"
      "\<forall>t \<in> expired now T s2. th_state (thr s3 t) = THREAD_STATE_READY \<and> thread_return t s3 = - ETIME"
      "\<forall>t. t \<notin> expired now T s2 \<longrightarrow> thr s3 t = thr s2 t"
      "\<forall>t. th_priority (thr s3 t) = th_priority (thr s2 t) \<and> th_exit (thr s3 t) = th_exit (thr s2 t) \<and>
        c_layout (th_context (thr s3 t)) = c_layout (th_context (thr s2 t))"
      "Q3 IrqSignaled = filter (\<lambda>t. t \<notin> expired now T s2) (flushed s IrqSignaled Q IrqSignaled)"
      "same_rest s2 s3" by blast
  have lay: "th_exit (thr s3 x) = th_exit (thr s x) \<and> c_layout (th_context (thr s3 x)) = c_layout (th_context (thr s x))" for x
    using s3(6) s1(3) by (simp add: s2_def)
  have irq3: "Q3 IrqSignaled = []" using s3(7) by (simp add: flushed_def)
  have cnot: "c \<notin> set (Q IrqSignaled)"
    using sched_ok_queue(3)[OF ok, of IrqSignaled c] cur(3) by (auto simp: thread_consts)
  then have c2: "th_state (thr s2 c) = THREAD_STATE_ACTIVE" using s1(3) cur(3) by (simp add: s2_def)
  then have "c \<notin> expired now T s2" by (auto simp: expired_def timed_def thread_consts)
  then have c3: "th_state (thr s3 c) = THREAD_STATE_ACTIVE" "current s3 = Some c"
    using s3(5,8) c2 s1(4) cur(1) by (simp_all add: same_rest_def s2_def)
  have "\<forall>x \<in> T. x \<noteq> c \<longrightarrow> \<not> killable s3 x" "\<not> (th_exit (thr s3 c) \<and> c_layout ctx \<noteq> CONTEXT_LAYOUT_KERNEL)"
    using live lay by (simp_all add: killable_def)
  from thread_schedule_ok[OF s3(2) c3(2) cur(2) this] c3(1) obtain ctx' s' Q' t where s':
      "thread_schedule ctx s3 = Some (ctx', s')" "sched_ok T s' Q'" "t \<in> T" "current s' = Some t"
      "th_state (thr s' t) = THREAD_STATE_ACTIVE" "schedule s'"
      "\<forall>p < th_priority (thr s3 t). Q' (Ready p) = []" "\<forall>q. (\<forall>p. q \<noteq> Ready p) \<longrightarrow> Q' q = Q3 q"
      "c_nsp ctx' = c_sp (th_context (thr s' t))"
      "\<forall>x. th_wakeup (thr s' x) = th_wakeup (thr s3 x) \<and> th_priority (thr s' x) = th_priority (thr s3 x)"
      "timed T s' = timed T s3" "undisturbed T s3 s'"
      "\<forall>x \<in> T. x \<noteq> c \<longrightarrow> (th_state (thr s' x) = THREAD_STATE_SLEEP \<longleftrightarrow> th_state (thr s3 x) = THREAD_STATE_SLEEP) \<and>
         (x \<noteq> t \<longrightarrow> thr s' x = thr s3 x) \<and> thread_return x s' = thread_return x s3" by blast
  have "undisturbed T s s2"
    by (rule undisturbed_woken[where X = "set (Q IrqSignaled)"]) (simp add: s2_def s1(3))
  moreover have "undisturbed T s2 s3"
    by (rule undisturbed_expired[OF s3(2), of "expired now T s2"]) (use s3(4,5,6) in auto)
  ultimately have und: "undisturbed T s s'" using s'(12) undisturbed_trans by blast
  have ex2: "expired now T s2 = expired now T s - set (Q IrqSignaled)"
    using s1(3) by (auto simp: expired_def timed_def s2_def thread_consts)
  have sl3: "th_state (thr s3 x) = THREAD_STATE_SLEEP \<longleftrightarrow>
      th_state (thr s x) = THREAD_STATE_SLEEP \<and> x \<notin> set (Q IrqSignaled) \<and> x \<notin> expired now T s" for x
    using s3(4,5) s1(3) ex2 by (cases "x \<in> expired now T s2") (auto simp: s2_def thread_consts)
  have act: "th_state (thr s3 c) \<noteq> THREAD_STATE_SLEEP" "th_state (thr s' c) \<noteq> THREAD_STATE_SLEEP"
    using c3(1) s'(12) cur(2) by (auto simp: thread_consts undisturbed_def runnable_def)
  have "thread_on_tick now ctx s = Some (ctx', s')"
    using on s1(1) s3(1) s'(1) by (simp add: thread_on_tick_def thread_broadcast_def s2_def)
  moreover have "th_priority (thr s' t) \<le> th_priority (thr s' x)"
    if "x \<in> T" "th_state (thr s' x) = THREAD_STATE_READY" for x
  proof -
    have "x \<in> set (Q' (Ready (th_priority (thr s' x))))" using thread_okD(2)[OF s'(2) that(1)] that(2) by simp
    then have "\<not> th_priority (thr s' x) < th_priority (thr s3 t)" using s'(7) by fastforce
    then show ?thesis using s'(10) by simp
  qed
  moreover have "now < th_wakeup (thr s' x)" if "x \<in> timed T s'" for x
    using that s'(10,11) s3(3,5) by (auto simp: expired_def)
  moreover have "Q' IrqSignaled = []" using s'(8) irq3 by simp
  moreover have as: "asleep T s' = asleep T s - set (Q IrqSignaled) - expired now T s"
    using s'(13) sl3 act by (fastforce simp: asleep_def)
  moreover have "\<forall>x \<in> asleep T s'. thr s' x = thr s x"
  proof
    fix x assume x: "x \<in> asleep T s'"
    then have "x \<in> T" "x \<noteq> c" "x \<noteq> t" "x \<notin> set (Q IrqSignaled)" "x \<notin> expired now T s2"
      using as act(2) s'(5) ex2 by (auto simp: asleep_def thread_consts)
    then show "thr s' x = thr s x" using s'(13) s3(5) s1(3) by (simp add: s2_def)
  qed
  moreover have "\<forall>x \<in> expired now T s - set (Q IrqSignaled). thread_return x s' = - ETIME"
  proof
    fix x assume "x \<in> expired now T s - set (Q IrqSignaled)"
    then have x: "x \<in> expired now T s2" using ex2 by simp
    then have "x \<in> T" "x \<noteq> c" using \<open>c \<notin> expired now T s2\<close> by (auto simp: expired_def timed_def)
    then show "thread_return x s' = - ETIME" using s'(13) s3(4) x by simp
  qed
  ultimately show ?thesis using s' und by blast
qed

lemma thread_wait_enqueue_ok:
  assumes ok: "sched_ok T s Q" and cur: "current s = Some c" "c \<in> T" "th_state (thr s c) = THREAD_STATE_ACTIVE"
    and q: "wait_queue q" and room: "wakeup \<noteq> 0 \<longrightarrow> card (timed T s) < THREAD_COUNT_MAX"
  shows "\<exists>s'. thread_wait_enqueue q wakeup s = Some s' \<and> sched_ok T s' (Q(q := Q q @ [c])) \<and>
    thr s' = (thr s)(c := (thr s c)\<lparr>th_wakeup := wakeup, th_state := THREAD_STATE_SLEEP, th_qwait := Some q\<rparr>) \<and>
    same_rest s s'"
proof -
  have b: "finite T" "q_rep s Q" "heap_holds s (timed T s)" "\<And>q. set (Q q) \<subseteq> T"
    using ok by (auto simp: sched_ok_def base_ok_def)
  have cok: "thread_ok s Q c" using ok cur(2) by (simp add: sched_ok_def)
  have f: "c \<notin> set (Q r)" for r using cok cur(3) by (cases r) (auto simp: thread_ok_def thread_consts)
  from q_add_rep[OF b(2) f, of q] obtain h l where a: "q_add q c s = Some (s\<lparr>qhead := h, qlink := l\<rparr>)"
      "q_rep (s\<lparr>qhead := h, qlink := l\<rparr>) (Q(q := Q q @ [c]))" by blast
  define s2 where "s2 = upd_thr c (\<lambda>x. x\<lparr>th_wakeup := wakeup, th_state := THREAD_STATE_SLEEP, th_qwait := Some q\<rparr>)
     (s\<lparr>qhead := h, qlink := l\<rparr>)"
  have nt: "c \<notin> timed T s" using cur(3) by (auto simp: timed_def thread_consts)
  have hp2: "heap_holds s2 (timed T s)"
    by (rule heap_holds_cong[OF b(3)]) (use nt in \<open>auto simp: s2_def\<close>)
  define th' where "th' = (thr s)(c := (thr s c)\<lparr>th_wakeup := wakeup, th_state := THREAD_STATE_SLEEP, th_qwait := Some q\<rparr>)"
  obtain s' where s': "thread_wait_enqueue q wakeup s = Some s'" "thr s' = th'" "same_rest s s'"
      "qlink s' = l" "qhead s' = h" "heap_holds s' (if wakeup = 0 then timed T s else insert c (timed T s))"
  proof (cases "wakeup = 0")
    case True
    then show ?thesis using that[of s2] a(1) cur(1) hp2
      by (simp add: thread_wait_enqueue_def s2_def th'_def same_rest_def)
  next
    case False
    from heap_holds_insert[OF hp2 nt] room False
    have hi: "heap_holds (s2\<lparr>sleeping := snd (bheap_insert (sleep_heap s2) c)\<rparr>) (insert c (timed T s))" by simp
    have e: "upd_thr c (\<lambda>t. t\<lparr>th_wakeup := wakeup, th_state := THREAD_STATE_SLEEP\<rparr>) s2 = s2"
      by (cases "thr s c") (simp add: s2_def upd_thr_def)
    have "thread_wait_enqueue q wakeup s = Some (s2\<lparr>sleeping := snd (bheap_insert (sleep_heap s2) c)\<rparr>)"
      using a(1) cur(1) False e
      by (simp add: thread_wait_enqueue_def thread_sleeping_enqueue_def s2_def[symmetric] Let_def)
    then show ?thesis using that[of "s2\<lparr>sleeping := snd (bheap_insert (sleep_heap s2) c)\<rparr>"] hi False
      by (simp add: s2_def th'_def same_rest_def)
  qed
  have tm: "timed T s' = (if wakeup = 0 then timed T s else insert c (timed T s))"
    using s'(2) nt cur(2) by (auto simp: timed_def th'_def)
  have "q_rep s' (Q(q := Q q @ [c]))" using a(2) s'(4,5) q_rep_cong[of s' "s\<lparr>qhead := h, qlink := l\<rparr>"] by simp
  moreover have "thread_ok s' (Q(q := Q q @ [c])) x" if x: "x \<in> T" for x
  proof (cases "x = c")
    case True
    have "th_priority (thr s c) < THREAD_PRIORITY_NO" using thread_okD(1)[OF ok cur(2)] .
    moreover have "q \<noteq> Ready p" "q \<noteq> GhostsOf p" for p using q by auto
    ultimately show ?thesis using True s'(2) f q unfolding thread_ok_def
      by (auto simp: th'_def thread_consts)
  next
    case False
    have "(x \<in> set ((Q(q := Q q @ [c])) r)) = (x \<in> set (Q r))" for r using False by simp
    then have "thread_ok s' (Q(q := Q q @ [c])) x = thread_ok s Q x"
      by (rule thread_ok_cong[rotated]) (use False s'(2,3) in \<open>auto simp: th'_def same_rest_def\<close>)
    then show ?thesis using ok x by (simp add: sched_ok_def)
  qed
  moreover have "set ((Q(q := Q q @ [c])) r) \<subseteq> T" for r using b(4)[of r] b(4)[of q] cur(2) by auto
  ultimately have "sched_ok T s' (Q(q := Q q @ [c]))" using b(1) s'(6) tm by (simp add: sched_ok_def base_ok_def)
  then show ?thesis using s' by (auto simp: th'_def)
qed

section \<open>The family tree of processes\<close>

text \<open>\<open>L (p, False)\<close> lists the children of process \<open>p\<close>, \<open>L (p, True)\<close> its zombies.\<close>

definition fam_head :: "sched \<Rightarrow> nat \<times> bool \<Rightarrow> nat option" where
  "fam_head s k = (if snd k then p_zombies (proc s (fst k)) else p_children (proc s (fst k)))"

definition fam_rep :: "sched \<Rightarrow> (nat \<times> bool \<Rightarrow> nat list) \<Rightarrow> bool" where
  "fam_rep s L \<longleftrightarrow> (\<forall>k. cyc (plink s) (fam_head s k) (L k)) \<and> (\<forall>k j. k \<noteq> j \<longrightarrow> set (L k) \<inter> set (L j) = {})"

lemma upd_proc_simps [simp]:
  "proc (upd_proc t f s) = (proc s)(t := f (proc s t))" "plink (upd_proc t f s) = plink s"
  "thr (upd_proc t f s) = thr s" "qlink (upd_proc t f s) = qlink s" "qhead (upd_proc t f s) = qhead s"
  "current (upd_proc t f s) = current s" "sleeping (upd_proc t f s) = sleeping s"
  "schedule (upd_proc t f s) = schedule s"
  by (simp_all add: upd_proc_def)

lemma fam_rep_cong: "plink s' = plink s \<Longrightarrow> proc s' = proc s \<Longrightarrow> fam_rep s' L = fam_rep s L"
  by (simp add: fam_rep_def fam_head_def)

lemma sched_ok_procs:
  assumes "thr s' = thr s" "qlink s' = qlink s" "qhead s' = qhead s" "current s' = current s" "sleeping s' = sleeping s"
  shows "sched_ok T s' Q = sched_ok T s Q"
proof -
  have "timed T s' = timed T s" using assms by (simp add: timed_def)
  moreover have e: "sleep_heap s' = sleep_heap s" using assms by (simp add: sleep_heap_def)
  have "heap_holds s' S = heap_holds s S" for S unfolding heap_holds_def e using assms by simp
  moreover have "thread_ok s' Q x = thread_ok s Q x" for x using assms by (simp add: thread_ok_def)
  ultimately show ?thesis using q_rep_cong[of s' s] assms by (simp add: sched_ok_def base_ok_def)
qed

lemma fam_drain:
  assumes r: "fam_rep s L" and k: "p \<noteq> i"
  shows "\<exists>h l. move_processes (fam_head s (p, b)) (fam_head s (i, b)) s = Some (None, h, s\<lparr>plink := l\<rparr>) \<and>
    fam_rep (upd_proc i (\<lambda>x. if b then x\<lparr>p_zombies := h\<rparr> else x\<lparr>p_children := h\<rparr>)
       (upd_proc p (\<lambda>x. if b then x\<lparr>p_zombies := None\<rparr> else x\<lparr>p_children := None\<rparr>) (s\<lparr>plink := l\<rparr>)))
      (L((p, b) := [], (i, b) := L (i, b) @ L (p, b)))"
proof -
  have c: "cyc (plink s) (fam_head s j) (L j)" for j using r unfolding fam_rep_def by blast
  have d: "set (L (p, b)) \<inter> set (L (i, b)) = {}" using r k unfolding fam_rep_def by blast
  from list_drain_repr[OF c c d] obtain h l where a:
      "list_drain (fam_head s (p, b)) (fam_head s (i, b)) (plink s) = Some (None, h, l)"
      "cyc l h (L (i, b) @ L (p, b))"
      and fr: "\<And>q zs. set zs \<inter> (set (L (p, b)) \<union> set (L (i, b))) = {} \<Longrightarrow> cyc (plink s) q zs \<Longrightarrow> cyc l q zs"
    by blast
  have o: "cyc l (fam_head s j) (L j)" if "j \<noteq> (p, b)" "j \<noteq> (i, b)" for j
  proof -
    have "set (L j) \<inter> set (L (p, b)) = {}" "set (L j) \<inter> set (L (i, b)) = {}"
      using r that unfolding fam_rep_def by blast+
    then show ?thesis by (intro fr[OF _ c]) blast
  qed
  let ?s = "upd_proc i (\<lambda>x. if b then x\<lparr>p_zombies := h\<rparr> else x\<lparr>p_children := h\<rparr>)
       (upd_proc p (\<lambda>x. if b then x\<lparr>p_zombies := None\<rparr> else x\<lparr>p_children := None\<rparr>) (s\<lparr>plink := l\<rparr>))"
  let ?L = "L((p, b) := [], (i, b) := L (i, b) @ L (p, b))"
  have hd: "fam_head ?s j = (if j = (i, b) then h else if j = (p, b) then None else fam_head s j)" for j
    using k by (cases j) (auto simp: fam_head_def)
  have "cyc l (fam_head ?s j) (?L j)" for j
    using o[of j] a(2) k unfolding hd by (cases "j = (i, b)"; cases "j = (p, b)") auto
  moreover have "set (?L j) \<inter> set (?L j') = {}" if "j \<noteq> j'" for j j'
  proof -
    have D: "set (L x) \<inter> set (L y) = {}" if "x \<noteq> y" for x y using r that unfolding fam_rep_def by blast
    show ?thesis using D[of j j'] D[of "(p, b)" j] D[of "(p, b)" j'] that k
      by (cases "j = (p, b)"; cases "j' = (p, b)"; cases "j = (i, b)"; cases "j' = (i, b)") auto
  qed
  ultimately have "fam_rep ?s ?L" by (simp add: fam_rep_def)
  then show ?thesis using a(1) by (auto simp: move_processes_def)
qed

lemma fam_remove:
  assumes r: "fam_rep s L" and m: "m \<in> set (L (p, b))"
  shows "\<exists>h l. list_remove (fam_head s (p, b)) m (plink s) = Some (h, l) \<and>
    fam_rep (upd_proc p (\<lambda>x. if b then x\<lparr>p_zombies := h\<rparr> else x\<lparr>p_children := h\<rparr>) (s\<lparr>plink := l\<rparr>))
      (L((p, b) := remove1 m (L (p, b))))"
proof -
  have c: "cyc (plink s) (fam_head s j) (L j)" for j using r unfolding fam_rep_def by blast
  have D: "set (L x) \<inter> set (L y) = {}" if "x \<noteq> y" for x y using r that unfolding fam_rep_def by blast
  from rq.remove_repr[OF c m] obtain h l where a: "list_remove (fam_head s (p, b)) m (plink s) = Some (h, l)"
      "cyc l h (remove1 m (L (p, b)))"
      and fr: "\<And>q zs. set zs \<inter> set (L (p, b)) = {} \<Longrightarrow> cyc (plink s) q zs \<Longrightarrow> cyc l q zs" by blast
  let ?s = "upd_proc p (\<lambda>x. if b then x\<lparr>p_zombies := h\<rparr> else x\<lparr>p_children := h\<rparr>) (s\<lparr>plink := l\<rparr>)"
  have hd: "fam_head ?s j = (if j = (p, b) then h else fam_head s j)" for j
    by (cases j) (auto simp: fam_head_def)
  have "cyc l (fam_head ?s j) ((L((p, b) := remove1 m (L (p, b)))) j)" for j
    using fr[OF D c, of j] a(2) unfolding hd by (cases "j = (p, b)") auto
  moreover have "set ((L((p, b) := remove1 m (L (p, b)))) x) \<subseteq> set (L x)" for x
    by (simp add: set_remove1_subset)
  then have "set ((L((p, b) := remove1 m (L (p, b)))) x) \<inter> set ((L((p, b) := remove1 m (L (p, b)))) y) = {}"
    if "x \<noteq> y" for x y using D[OF that] by blast
  ultimately have "fam_rep ?s (L((p, b) := remove1 m (L (p, b))))" by (simp add: fam_rep_def)
  then show ?thesis using a(1) by blast
qed

lemma fam_add:
  assumes r: "fam_rep s L" and m: "\<And>k. m \<notin> set (L k)"
  shows "\<exists>h l. list_add (fam_head s (p, b)) m (plink s) = Some (h, l) \<and>
    fam_rep (upd_proc p (\<lambda>x. if b then x\<lparr>p_zombies := h\<rparr> else x\<lparr>p_children := h\<rparr>) (s\<lparr>plink := l\<rparr>))
      (L((p, b) := L (p, b) @ [m]))"
proof -
  have c: "cyc (plink s) (fam_head s j) (L j)" for j using r unfolding fam_rep_def by blast
  have D: "set (L x) \<inter> set (L y) = {}" if "x \<noteq> y" for x y using r that unfolding fam_rep_def by blast
  from rq.add_repr[OF c m] obtain h l where a: "list_add (fam_head s (p, b)) m (plink s) = Some (h, l)"
      "cyc l h (L (p, b) @ [m])"
      and fr: "\<And>q zs. m \<notin> set zs \<Longrightarrow> set zs \<inter> set (L (p, b)) = {} \<Longrightarrow> cyc (plink s) q zs \<Longrightarrow> cyc l q zs" by blast
  let ?s = "upd_proc p (\<lambda>x. if b then x\<lparr>p_zombies := h\<rparr> else x\<lparr>p_children := h\<rparr>) (s\<lparr>plink := l\<rparr>)"
  have hd: "fam_head ?s j = (if j = (p, b) then h else fam_head s j)" for j
    by (cases j) (auto simp: fam_head_def)
  have "cyc l (fam_head ?s j) ((L((p, b) := L (p, b) @ [m])) j)" for j
    using fr[OF m D c, of j] a(2) unfolding hd by (cases "j = (p, b)") auto
  moreover have "set ((L((p, b) := L (p, b) @ [m])) x) \<inter> set ((L((p, b) := L (p, b) @ [m])) y) = {}"
    if "x \<noteq> y" for x y using D[OF that] m that by auto
  ultimately have "fam_rep ?s (L((p, b) := L (p, b) @ [m]))" by (simp add: fam_rep_def)
  then show ?thesis using a(1) by blast
qed

text \<open>The family after \<open>p\<close>, a child of \<open>par\<close>, became a zombie and \<open>ini\<close> took over its own.\<close>

definition orphaned :: "nat \<Rightarrow> nat \<Rightarrow> nat \<Rightarrow> (nat \<times> bool \<Rightarrow> nat list) \<Rightarrow> nat \<times> bool \<Rightarrow> nat list" where
  "orphaned p par ini L =
     (let L1 = L((p, False) := [], (ini, False) := L (ini, False) @ L (p, False));
          L2 = L1((p, True) := [], (ini, True) := L1 (ini, True) @ L1 (p, True));
          L3 = L2((par, False) := remove1 p (L2 (par, False)))
      in L3((par, True) := L3 (par, True) @ [p]))"

lemma process_zombify_ok:
  assumes ok: "sched_ok T s Q" and fam: "fam_rep s L"
    and par: "p_parent (proc s p) = Some par" "find_init (proc s) par = Some ini" "p \<noteq> ini" "p \<noteq> par"
    and child: "p \<in> set (L (par, False))"
  shows "\<exists>s' Q'. process_zombify p s = Some s' \<and> sched_ok T s' Q' \<and> fam_rep s' (orphaned p par ini L) \<and>
    (Q (WaitOf par) \<noteq> [] \<longrightarrow> th_state (thr s' (hd (Q (WaitOf par)))) = THREAD_STATE_READY)"
proof -
  define L1 where "L1 = L((p, False) := [], (ini, False) := L (ini, False) @ L (p, False))"
  define L2 where "L2 = L1((p, True) := [], (ini, True) := L1 (ini, True) @ L1 (p, True))"
  define L3 where "L3 = L2((par, False) := remove1 p (L2 (par, False)))"
  define L4 where "L4 = L3((par, True) := L3 (par, True) @ [p])"
  from fam_drain[OF fam par(3), of False] obtain ic l1 where
      d1: "move_processes (p_children (proc s p)) (p_children (proc s ini)) s = Some (None, ic, s\<lparr>plink := l1\<rparr>)"
      "fam_rep (upd_proc ini (\<lambda>x. x\<lparr>p_children := ic\<rparr>) (upd_proc p (\<lambda>x. x\<lparr>p_children := None\<rparr>) (s\<lparr>plink := l1\<rparr>))) L1"
    by (auto simp: fam_head_def L1_def)
  define s2 where "s2 = upd_proc ini (\<lambda>x. x\<lparr>p_children := ic\<rparr>) (upd_proc p (\<lambda>x. x\<lparr>p_children := None\<rparr>) (s\<lparr>plink := l1\<rparr>))"
  have ok2: "sched_ok T s2 Q" using ok sched_ok_procs[of s2 s T Q] by (simp add: s2_def)
  obtain r s3 Q3 where s3: "(if par \<noteq> ini \<and> p_zombies (proc s2 p) \<noteq> None then thread_signal (WaitOf ini) s2 else Some (0, s2)) = Some (r, s3)"
      "sched_ok T s3 Q3" "same_rest s2 s3"
      "Q3 (WaitOf par) = Q (WaitOf par)"
  proof (cases "par \<noteq> ini \<and> p_zombies (proc s2 p) \<noteq> None")
    case True
    show ?thesis
    proof (cases "Q (WaitOf ini)")
      case Nil
      then show ?thesis using that[of 0 s2 Q] thread_signal_ok[OF ok2, of "WaitOf ini"] True ok2 by simp
    next
      case (Cons t ts)
      with thread_signal_ok[OF ok2, of "WaitOf ini"] obtain s3 where "thread_signal (WaitOf ini) s2 = Some (1, s3)"
        "sched_ok T s3 (Q(WaitOf ini := ts, Ready (th_priority (thr s2 t)) := Q (Ready (th_priority (thr s2 t))) @ [t]))"
        "same_rest s2 s3" by auto
      then show ?thesis using that True by auto
    qed
  next
    case False
    then show ?thesis using that[of 0 s2 Q] ok2 by auto
  qed
  have fam3: "fam_rep s3 L1" using d1(2) s3(3) fam_rep_cong[of s3 s2] by (simp add: s2_def same_rest_def)
  from fam_drain[OF fam3 par(3), of True] obtain iz l3 where
      d2: "move_processes (p_zombies (proc s3 p)) (p_zombies (proc s3 ini)) s3 = Some (None, iz, s3\<lparr>plink := l3\<rparr>)"
      "fam_rep (upd_proc ini (\<lambda>x. x\<lparr>p_zombies := iz\<rparr>) (upd_proc p (\<lambda>x. x\<lparr>p_zombies := None\<rparr>) (s3\<lparr>plink := l3\<rparr>))) L2"
    by (auto simp: fam_head_def L2_def)
  define s5 where "s5 = upd_proc ini (\<lambda>x. x\<lparr>p_zombies := iz\<rparr>) (upd_proc p (\<lambda>x. x\<lparr>p_zombies := None\<rparr>) (s3\<lparr>plink := l3\<rparr>))"
  have pl2: "p \<in> set (L2 (par, False))" using child par(4) by (auto simp: L2_def L1_def)
  have fam5: "fam_rep s5 L2" using d2(2) by (simp add: s5_def)
  from fam_remove[OF fam5 pl2] obtain pc l5 where
      d3: "list_remove (p_children (proc s5 par)) p (plink s5) = Some (pc, l5)"
      "fam_rep (upd_proc par (\<lambda>x. x\<lparr>p_children := pc\<rparr>) (s5\<lparr>plink := l5\<rparr>)) L3"
    by (auto simp: fam_head_def L3_def)
  define s6 where "s6 = upd_proc par (\<lambda>x. x\<lparr>p_children := pc\<rparr>) (s5\<lparr>plink := l5\<rparr>)"
  have fam6: "fam_rep s6 L3" using d3(2) by (simp add: s6_def)
  have pn: "p \<notin> set (L3 k)" for k
  proof (cases "k = (par, False)")
    case True
    have "distinct (L2 (par, False))" using fam5 cyc_distinct unfolding fam_rep_def by blast
    then show ?thesis using True by (simp add: L3_def)
  next
    case False
    then have "set (L2 k) \<inter> set (L2 (par, False)) = {}" using fam5 unfolding fam_rep_def by blast
    then show ?thesis using False pl2 by (auto simp: L3_def)
  qed
  from fam_add[OF fam6 pn, of par True] obtain pz l6 where
      d4: "list_add (p_zombies (proc s6 par)) p (plink s6) = Some (pz, l6)"
      "fam_rep (upd_proc par (\<lambda>x. x\<lparr>p_zombies := pz\<rparr>) (s6\<lparr>plink := l6\<rparr>)) L4"
    by (auto simp: fam_head_def L4_def)
  define s7 where "s7 = upd_proc par (\<lambda>x. x\<lparr>p_zombies := pz\<rparr>) (s6\<lparr>plink := l6\<rparr>)"
  have ok7: "sched_ok T s7 Q3" using s3(2) sched_ok_procs[of s7 s3 T Q3] by (simp add: s7_def s6_def s5_def)
  obtain r' s8 Q8 where s8: "thread_signal (WaitOf par) s7 = Some (r', s8)" "sched_ok T s8 Q8" "same_rest s7 s8"
      "Q (WaitOf par) \<noteq> [] \<longrightarrow> th_state (thr s8 (hd (Q (WaitOf par)))) = THREAD_STATE_READY"
  proof (cases "Q3 (WaitOf par)")
    case Nil
    then show ?thesis using that[of 0 s7 Q3] thread_signal_ok[OF ok7, of "WaitOf par"] ok7 s3(4) by simp
  next
    case (Cons t ts)
    with thread_signal_ok[OF ok7, of "WaitOf par"] obtain s8 where "thread_signal (WaitOf par) s7 = Some (1, s8)"
        "sched_ok T s8 (Q3(WaitOf par := ts, Ready (th_priority (thr s7 t)) := Q3 (Ready (th_priority (thr s7 t))) @ [t]))"
        "thr s8 = (thr s7)(t := (thr s7 t)\<lparr>th_qwait := None, th_state := THREAD_STATE_READY, th_wakeup := 0\<rparr>)"
        "same_rest s7 s8" by auto
    then show ?thesis using that Cons s3(4) by auto
  qed
  have "fam_rep s8 L4" using d4(2) s8(3) fam_rep_cong[of s8 s7] by (simp add: s7_def same_rest_def)
  moreover have "L4 = orphaned p par ini L" by (simp add: orphaned_def L4_def L3_def L2_def L1_def Let_def)
  moreover have "process_zombify p s = Some s8"
    unfolding process_zombify_def Let_def
    by (simp only: par(1,2) d1(1) Option.bind.simps prod.case s2_def[symmetric] s3(1) d2(1) s5_def[symmetric]
        d3(1) s6_def[symmetric] d4(1) s7_def[symmetric] s8(1))
  ultimately show ?thesis using s8 by blast
qed

section \<open>Properties\<close>

text \<open>Signalling a queue wakes exactly its oldest thread: it leaves the queue (and the heap of
  sleepers) for the end of the ready list of its priority; an empty queue changes nothing.
\<close>

theorem thread_signal_wakes_oldest:
  assumes "sched_ok T s Q" and "wait_queue q"
  shows "case Q q of [] \<Rightarrow> thread_signal q s = Some (0, s)
    | t # ts \<Rightarrow> \<exists>s'. thread_signal q s = Some (1, s') \<and>
        sched_ok T s' (Q(q := ts, Ready (th_priority (thr s t)) := Q (Ready (th_priority (thr s t))) @ [t])) \<and>
        thr s' = (thr s)(t := (thr s t)\<lparr>th_qwait := None, th_state := THREAD_STATE_READY, th_wakeup := 0\<rparr>) \<and> same_rest s s'"
  by (rule thread_signal_ok[OF assms])

text \<open>
  C31. \<open>_thread_broadcast\<close> terminates and empties the queue: all its threads, and only they,
  become ready, in their order, behind the threads already ready at their priority.
\<close>

theorem thread_broadcast_wakes_all:
  assumes "sched_ok T s Q" and "wait_queue q"
  shows "\<exists>s'. thread_broadcast q s = Some (if Q q = [] then 0 else 1, s') \<and> sched_ok T s' (flushed s q Q) \<and>
    thr s' = (\<lambda>t. if t \<in> set (Q q) then (thr s t)\<lparr>th_qwait := None, th_state := THREAD_STATE_READY, th_wakeup := 0\<rparr>
                  else thr s t) \<and> same_rest s s'"
  unfolding thread_broadcast_def by (rule broadcast_loop_ok[OF assms])

text \<open>
  C10. The scheduler keeps all queues consistent and hands the processor to the oldest thread of
  the highest non-empty priority, with its saved stack pointer and memory map; a thread that
  was running goes behind the others of its priority (round robin), and no other list changes.
\<close>

theorem thread_schedule_priority_fifo:
  assumes "sched_ok T s Q" and "current s = Some c" "c \<in> T"
    and "\<forall>x \<in> T. x \<noteq> c \<longrightarrow> \<not> killable s x" "\<not> (th_exit (thr s c) \<and> c_layout ctx \<noteq> CONTEXT_LAYOUT_KERNEL)"
    and "th_state (thr s c) = THREAD_STATE_ACTIVE \<or> (\<exists>x \<in> T. th_state (thr s x) = THREAD_STATE_READY)"
  shows "\<exists>ctx' s' Q' t. thread_schedule ctx s = Some (ctx', s') \<and> sched_ok T s' Q' \<and>
    current s' = Some t \<and> th_state (thr s' t) = THREAD_STATE_ACTIVE \<and> schedule s' \<and>
    ready_with s Q (th_priority (thr s t)) = t # Q' (Ready (th_priority (thr s t))) \<and>
    (\<forall>p. p \<noteq> th_priority (thr s t) \<longrightarrow> Q' (Ready p) = ready_with s Q p) \<and>
    (\<forall>p < th_priority (thr s t). Q' (Ready p) = []) \<and>
    (\<forall>q. (\<forall>p. q \<noteq> Ready p) \<longrightarrow> Q' q = Q q) \<and>
    c_nsp ctx' = c_sp (th_context (thr s' t)) \<and> c_nmmu ctx' = c_mmu (th_context (thr s' t))"
  using thread_schedule_ok[OF assms] by blast


text \<open>With 32 timed sleepers the 33rd is lost: the error of \<open>bheap_insert\<close> is ignored, so the
  thread sleeps with its wake-up time set but is not in the heap the timer tick looks at.
\<close>

theorem thread_sleep_overflow:
  assumes "sched_ok T s Q" and "current s = Some c" "c \<in> T" "th_state (thr s c) = THREAD_STATE_ACTIVE"
    and "card (timed T s) = THREAD_COUNT_MAX" and "wakeup \<noteq> 0"
  shows "\<exists>s'. thread_sleeping_enqueue wakeup s = Some s' \<and> c \<in> timed T s' \<and>
    c \<notin># bheap_elems (sleep_heap s') \<and> bheap_elems (sleep_heap s') = bheap_elems (sleep_heap s)"
proof -
  define s1 where "s1 = upd_thr c (\<lambda>t. t\<lparr>th_wakeup := wakeup, th_state := THREAD_STATE_SLEEP\<rparr>) s"
  have nt: "c \<notin> timed T s" using assms(4) by (auto simp: timed_def thread_consts)
  have h: "heap_holds s (timed T s)" using assms(1) by (simp add: sched_ok_def base_ok_def)
  have h1: "heap_holds s1 (timed T s)"
    by (rule heap_holds_cong[OF h]) (use nt in \<open>auto simp: s1_def\<close>)
  have "bheap_insert (sleep_heap s1) c = (- ENOMEM, sleep_heap s1)"
    by (rule heap_holds_full[OF h1 assms(5)])
  then have run: "thread_sleeping_enqueue wakeup s = Some (s1\<lparr>sleeping := sleep_heap s1\<rparr>)"
    using assms(2) by (simp add: thread_sleeping_enqueue_def Let_def s1_def)
  have same: "bheap_elems (sleep_heap (s1\<lparr>sleeping := sleep_heap s1\<rparr>)) = bheap_elems (sleep_heap s1)"
    "bheap_elems (sleep_heap s1) = mset_set (timed T s)" "bheap_elems (sleep_heap s) = mset_set (timed T s)"
    using h h1 by (simp_all add: bheap_elems_def heap_holds_def)
  have fin: "finite (timed T s)" using timed_finite[OF assms(1)] .
  have "c \<in> timed T (s1\<lparr>sleeping := sleep_heap s1\<rparr>)"
    using assms(3,6) by (simp add: timed_def s1_def)
  then show ?thesis using run same nt fin by auto
qed

text \<open>
  C22. \<open>_process_zombify\<close> of a process other than init: its children and its zombies are appended
  to those of init, it moves from its parent's children to the end of the parent's zombies,
  and a thread waiting in the parent becomes ready; all lists stay well-formed.
\<close>

theorem process_zombify_reparents:
  assumes "sched_ok T s Q" and "fam_rep s L"
    and "p_parent (proc s p) = Some par" "find_init (proc s) par = Some ini" "p \<noteq> ini" "p \<noteq> par"
    and "p \<in> set (L (par, False))"
  shows "\<exists>s' Q'. process_zombify p s = Some s' \<and> sched_ok T s' Q' \<and> fam_rep s' (orphaned p par ini L) \<and>
    (Q (WaitOf par) \<noteq> [] \<longrightarrow> th_state (thr s' (hd (Q (WaitOf par)))) = THREAD_STATE_READY)"
  by (rule process_zombify_ok[OF assms])

section \<open>Concrete instances\<close>

definition ctx0 :: cpu_context where
  "ctx0 = \<lparr>c_nsp = 0, c_nmmu = 0, c_nlayout = 0, c_sp = 61440, c_mmu = 0, c_layout = 254, c_iy = 0, c_ix = 0,
     c_hl = 0, c_de = 0, c_bc = 0, c_af = 0, c_pc = 0\<rparr>"

definition thread0 :: thread where
  "thread0 = \<lparr>th_qwait = None, th_process = None, th_state = THREAD_STATE_ACTIVE, th_priority = 4, th_exit = False,
     th_wakeup = 0, th_context = ctx0, th_stack_page = 20\<rparr>"

definition proc0 :: process where
  "proc0 = \<lparr>p_parent = None, p_children = None, p_zombies = None, p_thread_no = 1, p_threads = id_init, p_exit = 0\<rparr>"

text \<open>
  Thread 1 runs, thread 2 waits in the queue of lock 0 until time 50, thread 3 is ready. Process 1
  is init, 2 its child, with a child 3 and a zombie 4.
\<close>

definition sched_demo :: sched where
  "sched_demo = \<lparr>thr = (\<lambda>_. thread0)(
       2 := thread0\<lparr>th_state := THREAD_STATE_SLEEP, th_priority := 2, th_wakeup := 50, th_qwait := Some (LockQ 0)\<rparr>,
       3 := thread0\<lparr>th_state := THREAD_STATE_READY, th_priority := 7\<rparr>),
     qlink = \<lparr>next_of = Map.empty(2 \<mapsto> 2, 3 \<mapsto> 3), prev_of = Map.empty(2 \<mapsto> 2, 3 \<mapsto> 3)\<rparr>,
     qhead = Map.empty(LockQ 0 \<mapsto> 2, Ready 7 \<mapsto> 3), current = Some 1,
     sleeping = \<lparr>bh_array = 2 # replicate 31 0, bh_capacity = 32, bh_size = 1,
       bh_compare = thread_wakeup_compare (\<lambda>_. 0)\<rparr>,
     schedule = True,
     proc = (\<lambda>_. proc0)(1 := proc0\<lparr>p_children := Some 2\<rparr>,
       2 := proc0\<lparr>p_parent := Some 1, p_children := Some 3, p_zombies := Some 4\<rparr>),
     plink = \<lparr>next_of = Map.empty(2 \<mapsto> 2, 3 \<mapsto> 3, 4 \<mapsto> 4), prev_of = Map.empty(2 \<mapsto> 2, 3 \<mapsto> 3, 4 \<mapsto> 4)\<rparr>\<rparr>"

abbreviation demo_queues :: "queue \<Rightarrow> nat list" where
  "demo_queues \<equiv> (\<lambda>_. [])(LockQ 0 := [2], Ready 7 := [3])"

lemma sched_demo_ok: "sched_ok {1, 2, 3} sched_demo demo_queues"
proof -
  have tm: "timed {1, 2, 3} sched_demo = {2}"
    by (auto simp: timed_def sched_demo_def thread0_def thread_consts)
  have "heap_holds sched_demo {2}"
    by (simp add: heap_holds_def bheap_ok_def is_heap_def bheap_elems_def sleep_heap_def sched_demo_def
        thread_consts)
  moreover have "q_rep sched_demo demo_queues"
    by (auto simp: q_rep_def cyc_def sched_demo_def)
  moreover have "thread_ok sched_demo demo_queues t" if "t \<in> {1, 2, 3}" for t
    using that by (auto simp: thread_ok_def sched_demo_def thread0_def thread_consts)
  moreover have "set (demo_queues q) \<subseteq> {1, 2, 3}" for q by auto
  ultimately show ?thesis unfolding sched_ok_def base_ok_def tm by blast
qed

lemma sched_demo_live: "\<not> killable sched_demo x" "current sched_demo = Some 1" "schedule sched_demo"
  "th_state (thr sched_demo 1) = THREAD_STATE_ACTIVE" "th_exit (thr sched_demo x) = False"
  by (simp_all add: killable_def sched_demo_def thread0_def)

theorem thread_signal_wakes_oldest_witness:
  "\<exists>s'. thread_signal (LockQ 0) sched_demo = Some (1, s') \<and> th_state (thr s' 2) = THREAD_STATE_READY"
  using thread_signal_wakes_oldest[OF sched_demo_ok, of "LockQ 0"] by auto

theorem thread_broadcast_wakes_all_witness:
  "\<exists>s'. thread_broadcast (LockQ 0) sched_demo = Some (1, s') \<and> th_state (thr s' 2) = THREAD_STATE_READY"
  using thread_broadcast_wakes_all[OF sched_demo_ok, of "LockQ 0"] by auto

theorem thread_schedule_priority_fifo_witness:
  "\<exists>ctx' s' t. thread_schedule ctx0 sched_demo = Some (ctx', s') \<and> current s' = Some t"
  using thread_schedule_priority_fifo[OF sched_demo_ok sched_demo_live(2), of ctx0] sched_demo_live by auto


theorem process_zombify_reparents_witness:
  "\<exists>s' L. process_zombify 2 sched_demo = Some s' \<and> fam_rep s' L \<and> L (1, False) = [3] \<and> L (1, True) = [4, 2]"
proof -
  define L :: "nat \<times> bool \<Rightarrow> nat list" where "L = (\<lambda>_. [])((1, False) := [2], (2, False) := [3], (2, True) := [4])"
  have "fam_rep sched_demo L"
    by (auto simp: fam_rep_def fam_head_def cyc_def sched_demo_def L_def proc0_def)
  moreover have "p_parent (proc sched_demo 2) = Some 1" "find_init (proc sched_demo) 1 = Some 1"
    by (simp_all add: sched_demo_def proc0_def find_init.simps)
  ultimately obtain s' where "process_zombify 2 sched_demo = Some s'" "fam_rep s' (orphaned 2 1 1 L)"
    using process_zombify_reparents[OF sched_demo_ok, of L 2 1 1] by (auto simp: L_def)
  then show ?thesis by (intro exI[of _ s'] exI[of _ "orphaned 2 1 1 L"]) (simp add: orphaned_def L_def Let_def)
qed

text \<open>32 threads sleep until time 9, and thread 40 runs.\<close>

definition sched_full :: sched where
  "sched_full = sched_demo\<lparr>thr := (\<lambda>t. if t < 32 then thread0\<lparr>th_state := THREAD_STATE_SLEEP, th_wakeup := 9\<rparr> else thread0),
     qhead := Map.empty, current := Some 40,
     sleeping := \<lparr>bh_array = [0 ..< 32], bh_capacity = 32, bh_size = 32, bh_compare = thread_wakeup_compare (\<lambda>_. 0)\<rparr>\<rparr>"

lemma sched_full_ok: "sched_ok (insert 40 {0 ..< 32}) sched_full (\<lambda>_. [])"
  and sched_full_timed: "timed (insert 40 {0 ..< 32}) sched_full = {0 ..< 32}"
proof -
  show tm: "timed (insert 40 {0 ..< 32}) sched_full = {0 ..< 32}"
    by (auto simp: timed_def sched_full_def thread0_def thread_consts)
  have "mset [0 ..< 32] = mset_set {0 ..< 32 :: nat}" by (metis mset_upt)
  moreover have "thread_wakeup_compare (\<lambda>t. th_wakeup (thr sched_full t)) ([0 ..< 32] ! j) ([0 ..< 32] ! i) \<le> 0"
    if "j < 32" "i < 32" for i j
    using that by (simp add: thread_wakeup_compare_def sched_full_def)
  then have "is_heap (thread_wakeup_compare (\<lambda>t. th_wakeup (thr sched_full t))) [0 ..< 32] 32"
    unfolding is_heap_def by (auto simp del: upt_rec_numeral)
  ultimately have "heap_holds sched_full {0 ..< 32}"
    unfolding heap_holds_def bheap_ok_def bheap_elems_def sleep_heap_simps
    by (simp add: sched_full_def thread_consts del: upt_rec_numeral)
  moreover have "q_rep sched_full (\<lambda>_. [])" by (simp add: q_rep_def sched_full_def)
  moreover have "thread_ok sched_full (\<lambda>_. []) t" if "t \<in> insert 40 {0 ..< 32}" for t
    using that by (auto simp: thread_ok_def sched_full_def thread0_def thread_consts)
  ultimately show "sched_ok (insert 40 {0 ..< 32}) sched_full (\<lambda>_. [])"
    by (simp add: sched_ok_def base_ok_def tm)
qed

theorem thread_sleep_overflow_witness:
  "\<exists>s'. thread_sleeping_enqueue 7 sched_full = Some s' \<and> th_wakeup (thr s' 40) = 7 \<and>
     40 \<notin># bheap_elems (sleep_heap s')"
proof -
  have c: "current sched_full = Some 40" "th_state (thr sched_full 40) = THREAD_STATE_ACTIVE"
    by (simp_all add: sched_full_def thread0_def)
  have "card (timed (insert 40 {0 ..< 32}) sched_full) = THREAD_COUNT_MAX"
    unfolding sched_full_timed by (simp add: thread_consts)
  from thread_sleep_overflow[OF sched_full_ok c(1) _ c(2) this, of 7] show ?thesis
    using c(1) by (auto simp: thread_sleeping_enqueue_def Let_def)
qed

end
