(* ===== verification/Lock.thy ===== *)
theory Lock
  imports Sched
begin

text \<open>
  Locks, condition queues and the system time: \<open>kernel/proc/lock.c\<close>, \<open>cond.c\<close>, \<open>timer.c\<close> and the
  conversion of \<open>driver/prt.c\<close>. Locks are numbered; lock \<open>l\<close> has the flag \<open>ls_locked l\<close> and the
  queue \<open>LockQ l\<close> of the scheduler. A call that blocks is modelled up to the switch to another
  thread; what the thread does when it runs again (the next turn of the loop in \<open>_lock_lock\<close>) is
  the same code as a fresh \<open>lock_lock\<close>, so it is the same step.

  \<open>lstep\<close> interleaves the lock and condition operations of any number of threads and timer ticks;
  its invariant gives mutual exclusion and that no wake-up is lost.
\<close>

record lsys =
  ls_sched :: sched
  ls_locked :: "nat \<Rightarrow> bool"

section \<open>The operations\<close>

text \<open>\<open>_lock_try\<close>\<close>

definition lock_try_crit :: "nat \<Rightarrow> lsys \<Rightarrow> int \<times> lsys" where
  "lock_try_crit l st =
     (if ls_locked st l then (- EAGAIN, st) else (0, st\<lparr>ls_locked := (ls_locked st)(l := True)\<rparr>))"

definition lock_try :: "nat \<Rightarrow> lsys \<Rightarrow> (int \<times> lsys) option" where
  "lock_try l st = do {
     s \<leftarrow> thread_critical_start (ls_sched st);
     let (r, st1) = lock_try_crit l (st\<lparr>ls_sched := s\<rparr>);
     s' \<leftarrow> thread_critical_end (ls_sched st1);
     Some (r, st1\<lparr>ls_sched := s'\<rparr>) }"

text \<open>
  \<open>lock_lock\<close>, one turn of the loop: \<open>True\<close> if the lock was taken and the call returns, \<open>False\<close>
  if the thread went to sleep in the lock's queue and another one runs.
\<close>

definition lock_lock :: "nat \<Rightarrow> cpu_context \<Rightarrow> lsys \<Rightarrow> (bool \<times> cpu_context \<times> lsys) option" where
  "lock_lock l ctx st = do {
     s \<leftarrow> thread_critical_start (ls_sched st);
     let (r, st1) = lock_try_crit l (st\<lparr>ls_sched := s\<rparr>);
     (if r < 0 then do {
        (ctx', s') \<leftarrow> thread_wait (LockQ l) 0 ctx (ls_sched st1);
        Some (False, ctx', st1\<lparr>ls_sched := s'\<rparr>)
      } else do {
        s' \<leftarrow> thread_critical_end (ls_sched st1);
        Some (True, ctx, st1\<lparr>ls_sched := s'\<rparr>)
      }) }"

text \<open>\<open>_lock_unlock\<close>\<close>

definition lock_unlock_crit :: "nat \<Rightarrow> lsys \<Rightarrow> lsys option" where
  "lock_unlock_crit l st = do {
     (_, s) \<leftarrow> thread_signal (LockQ l) (ls_sched st);
     Some (st\<lparr>ls_locked := (ls_locked st)(l := False), ls_sched := s\<rparr>) }"

definition lock_unlock :: "nat \<Rightarrow> cpu_context \<Rightarrow> lsys \<Rightarrow> (cpu_context \<times> lsys) option" where
  "lock_unlock l ctx st = do {
     s \<leftarrow> thread_critical_start (ls_sched st);
     (ctx', s') \<leftarrow> thread_signal_yield (LockQ l) ctx s;
     Some (ctx', st\<lparr>ls_locked := (ls_locked st)(l := False), ls_sched := s'\<rparr>) }"

definition lock_init :: "nat \<Rightarrow> lsys \<Rightarrow> lsys" where
  "lock_init l st = st\<lparr>ls_sched := (ls_sched st)\<lparr>qhead := (qhead (ls_sched st))(LockQ l := None)\<rparr>,
     ls_locked := (ls_locked st)(l := False)\<rparr>"

text \<open>\<open>cond_wait\<close> up to the switch; when the thread runs again it goes on as in \<open>lock_lock\<close>.\<close>

definition cond_wait :: "nat \<Rightarrow> nat \<Rightarrow> int \<Rightarrow> int \<Rightarrow> cpu_context \<Rightarrow> lsys \<Rightarrow> (cpu_context \<times> lsys) option" where
  "cond_wait q l timeout now ctx st = do {
     s \<leftarrow> thread_critical_start (ls_sched st);
     st1 \<leftarrow> lock_unlock_crit l (st\<lparr>ls_sched := s\<rparr>);
     (ctx', s') \<leftarrow> thread_wait (CondQ q) (if timeout \<noteq> 0 then timeout + now else 0) ctx (ls_sched st1);
     Some (ctx', st1\<lparr>ls_sched := s'\<rparr>) }"

definition cond_signal :: "nat \<Rightarrow> lsys \<Rightarrow> (int \<times> lsys) option" where
  "cond_signal q st = do {
     s \<leftarrow> thread_critical_start (ls_sched st);
     (r, s1) \<leftarrow> thread_signal (CondQ q) s;
     s2 \<leftarrow> thread_critical_end s1;
     Some (r, st\<lparr>ls_sched := s2\<rparr>) }"

definition cond_broadcast :: "nat \<Rightarrow> lsys \<Rightarrow> (int \<times> lsys) option" where
  "cond_broadcast q st = do {
     s \<leftarrow> thread_critical_start (ls_sched st);
     (r, s1) \<leftarrow> thread_broadcast (CondQ q) s;
     s2 \<leftarrow> thread_critical_end s1;
     Some (r, st\<lparr>ls_sched := s2\<rparr>) }"

section \<open>Time\<close>

definition SYSTICK_INTERVAL :: int where "SYSTICK_INTERVAL = 10"
definition CPU_FREQ :: nat where "CPU_FREQ = 12288000 div 2"

definition prt_val_to_ms :: "nat \<Rightarrow> nat" where
  "prt_val_to_ms val = (val * 1000) mod 2 ^ 32 div (CPU_FREQ div 20)"

text \<open>\<open>_timer_get\<close>; \<open>tmdr\<close> is what the timer data register of the hardware timer reads.\<close>

definition timer_get :: "int \<Rightarrow> nat \<Rightarrow> int" where
  "timer_get jiffies tmdr = jiffies + int (prt_val_to_ms tmdr)"

definition timer_irq_handler :: "int \<Rightarrow> nat \<Rightarrow> cpu_context \<Rightarrow> sched \<Rightarrow> (int \<times> cpu_context \<times> sched) option" where
  "timer_irq_handler jiffies tmdr ctx s = do {
     let j = jiffies + SYSTICK_INTERVAL;
     (ctx', s') \<leftarrow> thread_on_tick (timer_get j tmdr) ctx s;
     Some (j, ctx', s') }"

section \<open>Interleavings\<close>

text \<open>What a thread is doing with locks; \<open>Wants l\<close>: in the loop of \<open>_lock_lock\<close>, or in \<open>cond_wait\<close>.\<close>

datatype lock_pc = Outside | Wants nat | Holds nat

type_synonym lconf = "lsys \<times> (nat \<Rightarrow> lock_pc)"

inductive lstep :: "nat \<Rightarrow> lconf \<Rightarrow> lconf \<Rightarrow> bool" for idle where
  acquire: "current (ls_sched st) = Some t \<Longrightarrow> t \<noteq> idle \<Longrightarrow> pc t = Outside \<or> pc t = Wants l \<Longrightarrow>
    lock_lock l ctx st = Some (True, ctx', st') \<Longrightarrow> lstep idle (st, pc) (st', pc(t := Holds l))"
| block: "current (ls_sched st) = Some t \<Longrightarrow> t \<noteq> idle \<Longrightarrow> pc t = Outside \<or> pc t = Wants l \<Longrightarrow>
    lock_lock l ctx st = Some (False, ctx', st') \<Longrightarrow> lstep idle (st, pc) (st', pc(t := Wants l))"
| unlock: "current (ls_sched st) = Some t \<Longrightarrow> t \<noteq> idle \<Longrightarrow> pc t = Holds l \<Longrightarrow>
    lock_unlock l ctx st = Some (ctx', st') \<Longrightarrow> lstep idle (st, pc) (st', pc(t := Outside))"
| condwait: "current (ls_sched st) = Some t \<Longrightarrow> t \<noteq> idle \<Longrightarrow> pc t = Holds l \<Longrightarrow>
    cond_wait q l timeout now ctx st = Some (ctx', st') \<Longrightarrow> lstep idle (st, pc) (st', pc(t := Wants l))"
| signal: "cond_signal q st = Some (r, st') \<Longrightarrow> lstep idle (st, pc) (st', pc)"
| broadcast: "cond_broadcast q st = Some (r, st') \<Longrightarrow> lstep idle (st, pc) (st', pc)"
| tick: "thread_on_tick now ctx (ls_sched st) = Some (ctx', s') \<Longrightarrow>
    lstep idle (st, pc) (st\<lparr>ls_sched := s'\<rparr>, pc)"

inductive_cases lstepE: "lstep idle c c'"

definition lsched_ok :: "nat \<Rightarrow> nat set \<Rightarrow> sched \<Rightarrow> bool" where
  "lsched_ok idle T s \<longleftrightarrow> (\<exists>Q. sched_ok T s Q) \<and>
     (\<exists>c \<in> T. current s = Some c \<and> th_state (thr s c) = THREAD_STATE_ACTIVE) \<and> schedule s \<and>
     (\<forall>t \<in> T. \<not> th_exit (thr s t)) \<and> card T \<le> THREAD_COUNT_MAX \<and> idle \<in> T \<and> runnable s idle"

definition lock_waiter :: "sched \<Rightarrow> nat \<Rightarrow> nat \<Rightarrow> bool" where
  "lock_waiter s l t \<longleftrightarrow> th_qwait (thr s t) = Some (LockQ l)"

definition linv :: "nat \<Rightarrow> nat set \<Rightarrow> lconf \<Rightarrow> bool" where
  "linv idle T c \<longleftrightarrow> (case c of (st, pc) \<Rightarrow> lsched_ok idle T (ls_sched st) \<and>
     (\<forall>l. ls_locked st l \<longleftrightarrow> (\<exists>t \<in> T. pc t = Holds l)) \<and>
     (\<forall>t \<in> T. \<forall>u \<in> T. \<forall>l. pc t = Holds l \<longrightarrow> pc u = Holds l \<longrightarrow> t = u) \<and>
     (\<forall>t \<in> T. \<forall>l. lock_waiter (ls_sched st) l t \<longrightarrow> pc t = Wants l) \<and>
     (\<forall>l. (\<exists>t \<in> T. lock_waiter (ls_sched st) l t) \<longrightarrow>
        ls_locked st l \<or> (\<exists>t \<in> T. pc t = Wants l \<and> runnable (ls_sched st) t)))"

lemma sched_ok_schedule [simp]: "sched_ok T (s\<lparr>schedule := b\<rparr>) Q = sched_ok T s Q"
  by (rule sched_ok_procs) simp_all

lemma undisturbed_schedule [simp]:
  "undisturbed T (s\<lparr>schedule := b\<rparr>) s' = undisturbed T s s'" "undisturbed T s (s'\<lparr>schedule := b\<rparr>) = undisturbed T s s'"
  by (simp_all add: undisturbed_def runnable_def)

lemma yield_ok:
  assumes ok: "sched_ok T s Q" and cur: "current s = Some c" "c \<in> T"
    and ex: "\<forall>t \<in> T. \<not> th_exit (thr s t)"
    and some: "th_state (thr s c) = THREAD_STATE_ACTIVE \<or> (\<exists>x \<in> T. th_state (thr s x) = THREAD_STATE_READY)"
  shows "\<exists>ctx' s' Q'. thread_yield ctx s = Some (ctx', s') \<and> sched_ok T s' Q' \<and> schedule s' \<and>
    (\<exists>t \<in> T. current s' = Some t \<and> th_state (thr s' t) = THREAD_STATE_ACTIVE) \<and> undisturbed T s s'"
proof -
  have "\<forall>x \<in> T. x \<noteq> c \<longrightarrow> \<not> killable s x"
    "\<not> (th_exit (thr s c) \<and> c_layout (ctx\<lparr>c_af := c_af ctx mod 256\<rparr>) \<noteq> CONTEXT_LAYOUT_KERNEL)"
    using ex cur(2) by (auto simp: killable_def)
  from thread_schedule_ok[OF ok cur this some] show ?thesis unfolding thread_yield_def by blast
qed

lemma signal_undisturbed:
  assumes ok: "sched_ok T s Q" and q: "wait_queue q"
  shows "\<exists>r s' Q'. thread_signal q s = Some (r, s') \<and> sched_ok T s' Q' \<and> same_rest s s' \<and> undisturbed T s s' \<and>
    (r = 0 \<longrightarrow> s' = s \<and> Q q = []) \<and>
    (r \<noteq> 0 \<longrightarrow> (\<exists>t \<in> T. th_qwait (thr s t) = Some q \<and> th_state (thr s' t) = THREAD_STATE_READY))"
proof (cases "Q q")
  case Nil
  then show ?thesis using thread_signal_ok[OF ok q] ok by auto
next
  case (Cons t ts)
  with thread_signal_ok[OF ok q] obtain s' where s': "thread_signal q s = Some (1, s')"
      "sched_ok T s' (Q(q := ts, Ready (th_priority (thr s t)) := Q (Ready (th_priority (thr s t))) @ [t]))"
      "thr s' = (thr s)(t := (thr s t)\<lparr>th_qwait := None, th_state := THREAD_STATE_READY, th_wakeup := 0\<rparr>)"
      "same_rest s s'" by auto
  have "undisturbed T s s'"
    by (rule undisturbed_woken[where X = "{t}"]) (simp add: s'(3))
  moreover have "t \<in> T" "th_qwait (thr s t) = Some q" using sched_ok_queue[OF ok q, of t] Cons by simp_all
  ultimately show ?thesis using s' by (intro exI[of _ 1] exI[of _ s']) auto
qed

lemma lsched_okI:
  assumes "sched_ok T s' Q" and "\<exists>c \<in> T. current s' = Some c \<and> th_state (thr s' c) = THREAD_STATE_ACTIVE"
    and "schedule s'" and "lsched_ok idle T s" and "undisturbed T s s'"
  shows "lsched_ok idle T s'"
  using assms unfolding lsched_ok_def undisturbed_def by blast

lemma waiter_back:
  assumes "undisturbed T s s'" and "t \<in> T" and "lock_waiter s' l t"
  shows "lock_waiter s l t"
  using assms unfolding undisturbed_def lock_waiter_def by (metis option.distinct(1))

lemma runnable_on: "undisturbed T s s' \<Longrightarrow> t \<in> T \<Longrightarrow> runnable s t \<Longrightarrow> runnable s' t"
  unfolding undisturbed_def by blast

text \<open>Steps that only disturb threads by waking them.\<close>

lemma linv_undisturbed:
  assumes "linv idle T (st, pc)" and "lsched_ok idle T s'" and "undisturbed T (ls_sched st) s'"
  shows "linv idle T (st\<lparr>ls_sched := s'\<rparr>, pc)"
  using assms waiter_back[OF assms(3)] runnable_on[OF assms(3)] unfolding linv_def
  by simp blast

lemma timed_room:
  assumes "lsched_ok idle T s" and "\<forall>t \<in> T. th_state (thr s' t) = THREAD_STATE_SLEEP \<longrightarrow> t \<noteq> c" and "c \<in> T" and "sched_ok T s' Q"
  shows "card (timed T s') < THREAD_COUNT_MAX"
proof -
  have "finite T" using assms(4) by (simp add: sched_ok_def base_ok_def)
  moreover have "timed T s' \<subset> T" using assms(2,3) by (auto simp: timed_def)
  ultimately have "card (timed T s') < card T" by (rule psubset_card_mono)
  then show ?thesis using assms(1) by (simp add: lsched_ok_def)
qed

text \<open>The running thread goes to sleep in a queue and the processor is given away.\<close>

lemma wait_ok:
  assumes ok: "sched_ok T s Q" and cur: "current s = Some c" "c \<in> T" "th_state (thr s c) = THREAD_STATE_ACTIVE"
    and ex: "\<forall>t \<in> T. \<not> th_exit (thr s t)" and idle: "idle \<in> T" "runnable s idle" "idle \<noteq> c"
    and q: "wait_queue q" and room: "card (timed T s) < THREAD_COUNT_MAX"
  shows "\<exists>ctx' s1 s' Q'. thread_wait q w ctx s = Some (ctx', s') \<and> sched_ok T s' Q' \<and> schedule s' \<and>
    (\<exists>t \<in> T. current s' = Some t \<and> th_state (thr s' t) = THREAD_STATE_ACTIVE) \<and>
    thr s1 = (thr s)(c := (thr s c)\<lparr>th_wakeup := w, th_state := THREAD_STATE_SLEEP, th_qwait := Some q\<rparr>) \<and>
    undisturbed T s1 s'"
proof -
  from thread_wait_enqueue_ok[OF ok cur q] room obtain s1 where s1: "thread_wait_enqueue q w s = Some s1"
      "sched_ok T s1 (Q(q := Q q @ [c]))"
      "thr s1 = (thr s)(c := (thr s c)\<lparr>th_wakeup := w, th_state := THREAD_STATE_SLEEP, th_qwait := Some q\<rparr>)"
      "same_rest s s1" by blast
  have c1: "current s1 = Some c" using s1(4) cur by (simp add: same_rest_def)
  have e1: "\<forall>t \<in> T. \<not> th_exit (thr s1 t)" using ex s1(3) by simp
  have "th_state (thr s idle) \<noteq> THREAD_STATE_ACTIVE" using thread_okD(5)[OF ok idle(1)] cur(1) idle(3) by auto
  then have "th_state (thr s1 idle) = THREAD_STATE_READY" using idle s1(3) by (simp add: runnable_def)
  then have "\<exists>x \<in> T. th_state (thr s1 x) = THREAD_STATE_READY" using idle(1) by blast
  with yield_ok[OF s1(2) c1 cur(2) e1, of ctx] obtain ctx' s' Q' where
      "thread_yield ctx s1 = Some (ctx', s')" "sched_ok T s' Q'" "schedule s'"
      "\<exists>t \<in> T. current s' = Some t \<and> th_state (thr s' t) = THREAD_STATE_ACTIVE" "undisturbed T s1 s'" by blast
  then show ?thesis using s1(1,3) unfolding thread_wait_def by (simp del: fun_upd_apply) blast
qed

lemma lock_lock_taken:
  assumes "lock_lock l ctx st = Some (True, ctx', st')"
  shows "\<not> ls_locked st l" and "ls_sched st' = ls_sched st" and "ls_locked st' = (ls_locked st)(l := True)"
  using assms by (auto simp: lock_lock_def lock_try_crit_def Let_def thread_critical_start_def thread_critical_end_def
      check_def errno_defs split: if_splits bind_splits)

lemma linvD:
  assumes "linv idle T (st, pc)"
  shows "lsched_ok idle T (ls_sched st)"
    and "ls_locked st l = (\<exists>t \<in> T. pc t = Holds l)"
    and "t \<in> T \<Longrightarrow> u \<in> T \<Longrightarrow> pc t = Holds l \<Longrightarrow> pc u = Holds l \<Longrightarrow> t = u"
    and "t \<in> T \<Longrightarrow> lock_waiter (ls_sched st) l t \<Longrightarrow> pc t = Wants l"
    and "t \<in> T \<Longrightarrow> lock_waiter (ls_sched st) l t \<Longrightarrow>
      ls_locked st l \<or> (\<exists>t \<in> T. pc t = Wants l \<and> runnable (ls_sched st) t)"
  using assms unfolding linv_def prod.case by blast+

lemma linvI:
  assumes "lsched_ok idle T (ls_sched st)"
    and "\<And>l. ls_locked st l = (\<exists>t \<in> T. pc t = Holds l)"
    and "\<And>t u l. t \<in> T \<Longrightarrow> u \<in> T \<Longrightarrow> pc t = Holds l \<Longrightarrow> pc u = Holds l \<Longrightarrow> t = u"
    and "\<And>t l. t \<in> T \<Longrightarrow> lock_waiter (ls_sched st) l t \<Longrightarrow> pc t = Wants l"
    and "\<And>t l. t \<in> T \<Longrightarrow> lock_waiter (ls_sched st) l t \<Longrightarrow>
      ls_locked st l \<or> (\<exists>t \<in> T. pc t = Wants l \<and> runnable (ls_sched st) t)"
  shows "linv idle T (st, pc)"
  using assms unfolding linv_def prod.case by blast

lemma linv_current:
  assumes "linv idle T (st, pc)" and "current (ls_sched st) = Some t"
  shows "t \<in> T" and "th_state (thr (ls_sched st) t) = THREAD_STATE_ACTIVE"
    and "\<not> lock_waiter (ls_sched st) l t"
proof -
  show t: "t \<in> T" "th_state (thr (ls_sched st) t) = THREAD_STATE_ACTIVE"
    using linvD(1)[OF assms(1)] assms(2) by (auto simp: lsched_ok_def)
  obtain Q where "sched_ok T (ls_sched st) Q" using linvD(1)[OF assms(1)] by (auto simp: lsched_ok_def)
  then have "thread_ok (ls_sched st) Q t" using t(1) by (simp add: sched_ok_def)
  then show "\<not> lock_waiter (ls_sched st) l t" using t(2) by (auto simp: thread_ok_def lock_waiter_def thread_consts)
qed

text \<open>The clauses of \<open>linv\<close> that do not speak of the scheduler, for the moves of one thread.\<close>

lemma move_take:
  assumes "linv idle T (st, pc)" and "t \<in> T" and "pc t = Outside \<or> pc t = Wants l" and "\<not> ls_locked st l"
  shows "((ls_locked st)(l := True)) k = (\<exists>u \<in> T. (pc(t := Holds l)) u = Holds k)"
    and "x \<in> T \<Longrightarrow> u \<in> T \<Longrightarrow> (pc(t := Holds l)) x = Holds k \<Longrightarrow> (pc(t := Holds l)) u = Holds k \<Longrightarrow> x = u"
proof -
  note D = linvD[OF assms(1)]
  have free: "v \<in> T \<Longrightarrow> pc v \<noteq> Holds l" for v using D(2)[of l] assms(4) by blast
  have ne: "v \<noteq> t" if "pc v = Holds j" for v j using that assms(3) by auto
  show "((ls_locked st)(l := True)) k = (\<exists>u \<in> T. (pc(t := Holds l)) u = Holds k)"
  proof (cases "k = l")
    case False
    then show ?thesis using D(2)[of k] ne[of _ k] by (simp add: fun_upd_apply) blast
  qed (use assms(2) in auto)
  show "x \<in> T \<Longrightarrow> u \<in> T \<Longrightarrow> (pc(t := Holds l)) x = Holds k \<Longrightarrow> (pc(t := Holds l)) u = Holds k \<Longrightarrow> x = u"
    using free D(3)[of x u k] by (cases "x = t"; cases "u = t") auto
qed

lemma move_release:
  assumes "linv idle T (st, pc)" and "t \<in> T" and "pc t = Holds l" and "\<And>k. p \<noteq> Holds k"
  shows "((ls_locked st)(l := False)) k = (\<exists>u \<in> T. (pc(t := p)) u = Holds k)"
    and "x \<in> T \<Longrightarrow> u \<in> T \<Longrightarrow> (pc(t := p)) x = Holds k \<Longrightarrow> (pc(t := p)) u = Holds k \<Longrightarrow> x = u"
proof -
  note D = linvD[OF assms(1)]
  have only: "v \<in> T \<Longrightarrow> pc v = Holds l \<Longrightarrow> v = t" for v using D(3)[of v t l] assms(2,3) by blast
  have ne: "v \<noteq> t" if "pc v = Holds j" "j \<noteq> l" for v j using that assms(3) by auto
  show "((ls_locked st)(l := False)) k = (\<exists>u \<in> T. (pc(t := p)) u = Holds k)"
  proof (cases "k = l")
    case False
    then show ?thesis using D(2)[of k] ne[of _ k] assms(4) by (simp add: fun_upd_apply) blast
  qed (use only assms(4) in auto)
  show "x \<in> T \<Longrightarrow> u \<in> T \<Longrightarrow> (pc(t := p)) x = Holds k \<Longrightarrow> (pc(t := p)) u = Holds k \<Longrightarrow> x = u"
    using assms(4) D(3)[of x u k] by (cases "x = t"; cases "u = t") auto
qed

lemma linv_acquire:
  assumes inv: "linv idle T (st, pc)" and cur: "current (ls_sched st) = Some t" and pc: "pc t = Outside \<or> pc t = Wants l"
    and run: "lock_lock l ctx st = Some (True, ctx', st')"
  shows "linv idle T (st', pc(t := Holds l))"
proof (rule linvI)
  note tk = lock_lock_taken[OF run] and D = linvD[OF inv] and C = linv_current[OF inv cur]
  note M = move_take[OF inv C(1) pc tk(1)]
  show "lsched_ok idle T (ls_sched st')" using D(1) tk(2) by simp
  show "ls_locked st' k = (\<exists>u \<in> T. (pc(t := Holds l)) u = Holds k)" for k unfolding tk(3) by (rule M(1))
  show "x = u" if "x \<in> T" "u \<in> T" "(pc(t := Holds l)) x = Holds k" "(pc(t := Holds l)) u = Holds k" for x u k
    by (rule M(2)[OF that])
  show "(pc(t := Holds l)) x = Wants k" if "x \<in> T" "lock_waiter (ls_sched st') k x" for x k
    using D(4)[of x k] C(3)[of k] that by (auto simp: tk(2))
  show "ls_locked st' k \<or> (\<exists>u \<in> T. (pc(t := Holds l)) u = Wants k \<and> runnable (ls_sched st') u)"
    if "x \<in> T" "lock_waiter (ls_sched st') k x" for x k
  proof (cases "k = l")
    case False
    from D(5)[of x k] that have "ls_locked st k \<or> (\<exists>u \<in> T. pc u = Wants k \<and> runnable (ls_sched st) u)"
      by (simp add: tk(2))
    then show ?thesis
    proof
      assume "\<exists>u \<in> T. pc u = Wants k \<and> runnable (ls_sched st) u"
      then obtain u where "u \<in> T" "pc u = Wants k" "runnable (ls_sched st) u" by blast
      moreover from this have "u \<noteq> t" using pc False by auto
      ultimately show ?thesis using tk(2) by auto
    qed (use tk(3) False in simp)
  qed (use tk(3) in simp)
qed

lemma lsched_okD:
  assumes "lsched_ok idle T s" and "current s = Some c"
  shows "\<exists>Q. sched_ok T s Q" and "c \<in> T" and "th_state (thr s c) = THREAD_STATE_ACTIVE" and "schedule s"
    and "\<forall>t \<in> T. \<not> th_exit (thr s t)" and "idle \<in> T" and "runnable s idle"
  using assms unfolding lsched_ok_def by auto

lemma critical_start_ok: "schedule s \<Longrightarrow> thread_critical_start s = Some (s\<lparr>schedule := False\<rparr>)"
  by (simp add: thread_critical_start_def check_def)

lemma timed_active: "th_state (thr s c) = THREAD_STATE_ACTIVE \<Longrightarrow> c \<notin> timed T s"
  by (simp add: timed_def thread_consts)

text \<open>The sleep of the running thread, in terms of \<open>lsched_ok\<close>.\<close>

lemma lsched_wait:
  assumes ls: "lsched_ok idle T s" and cur: "current s = Some c" "idle \<noteq> c" and q: "wait_queue q"
    and s1: "sched_ok T s1 Q1" "same_rest (s\<lparr>schedule := b\<rparr>) s1" "undisturbed T s s1"
    and act: "th_state (thr s1 c) = THREAD_STATE_ACTIVE"
    and run: "thread_wait q w ctx s1 = Some (ctx', s')"
  shows "lsched_ok idle T s'"
    and "x \<in> T \<Longrightarrow> th_qwait (thr s' x) = Some q' \<Longrightarrow> (if x = c then q' = q else th_qwait (thr s x) = Some q')"
    and "x \<in> T \<Longrightarrow> x \<noteq> c \<Longrightarrow> runnable s1 x \<Longrightarrow> runnable s' x"
proof -
  note D = lsched_okD[OF ls cur(1)]
  have c1: "current s1 = Some c" using s1(2) cur(1) by (simp add: same_rest_def)
  have ex: "\<forall>t \<in> T. \<not> th_exit (thr s1 t)" using D(5) s1(3) by (simp add: undisturbed_def)
  have id1: "runnable s1 idle" using runnable_on[OF s1(3) D(6,7)] .
  have room: "card (timed T s1) < THREAD_COUNT_MAX"
    by (rule timed_room[OF ls _ D(2) s1(1)]) (use act in \<open>auto simp: thread_consts\<close>)
  from wait_ok[OF s1(1) c1 D(2) act ex D(6) id1 cur(2) q room, of w ctx] obtain s2 Q' where
      s2: "sched_ok T s' Q'" "schedule s'" "\<exists>t \<in> T. current s' = Some t \<and> th_state (thr s' t) = THREAD_STATE_ACTIVE"
      "thr s2 = (thr s1)(c := (thr s1 c)\<lparr>th_wakeup := w, th_state := THREAD_STATE_SLEEP, th_qwait := Some q\<rparr>)"
      "undisturbed T s2 s'" using run by auto
  have run': "runnable s' x" if "x \<in> T" "x \<noteq> c" "runnable s1 x" for x
    by (rule runnable_on[OF s2(5) that(1)]) (use that s2(4) in \<open>simp add: runnable_def\<close>)
  then show "x \<in> T \<Longrightarrow> x \<noteq> c \<Longrightarrow> runnable s1 x \<Longrightarrow> runnable s' x" .
  have "\<forall>t \<in> T. \<not> th_exit (thr s' t)" using ex s2(4,5) by (simp add: undisturbed_def)
  then show "lsched_ok idle T s'"
    using s2(1-3) run'[OF D(6) cur(2) id1] D(6) ls unfolding lsched_ok_def by blast
  assume x: "x \<in> T" "th_qwait (thr s' x) = Some q'"
  have "th_qwait (thr s2 x) = Some q'" using s2(5) x unfolding undisturbed_def by (metis option.distinct(1))
  moreover have "th_qwait (thr s1 x) = Some q' \<Longrightarrow> th_qwait (thr s x) = Some q'"
    using s1(3) x(1) unfolding undisturbed_def by (metis option.distinct(1))
  ultimately show "if x = c then q' = q else th_qwait (thr s x) = Some q'" using s2(4) by (auto split: if_splits)
qed

lemma lock_lock_blocked:
  assumes "lock_lock l ctx st = Some (False, ctx', st')"
  shows "ls_locked st l" and "ls_locked st' = ls_locked st" and "schedule (ls_sched st)"
    and "thread_wait (LockQ l) 0 ctx ((ls_sched st)\<lparr>schedule := False\<rparr>) = Some (ctx', ls_sched st')"
  using assms by (auto simp: lock_lock_def lock_try_crit_def Let_def thread_critical_start_def thread_critical_end_def
      check_def errno_defs split: if_splits bind_splits)

lemma linv_block:
  assumes inv: "linv idle T (st, pc)" and cur: "current (ls_sched st) = Some t" "t \<noteq> idle"
    and pc: "pc t = Outside \<or> pc t = Wants l" and run: "lock_lock l ctx st = Some (False, ctx', st')"
  shows "linv idle T (st', pc(t := Wants l))"
proof -
  note B = lock_lock_blocked[OF run] and D = linvD[OF inv] and C = linv_current[OF inv cur(1)]
  obtain Q where Q: "sched_ok T (ls_sched st) Q" using lsched_okD(1)[OF D(1) cur(1)] by blast
  note W = lsched_wait[OF D(1) cur(1) cur(2)[symmetric] _ _ _ _ _ B(4), of Q False, simplified, OF Q C(2)]
  have nh: "pc t \<noteq> Holds k" for k using pc by auto
  show ?thesis
  proof (rule linvI)
    show "lsched_ok idle T (ls_sched st')" by (rule W(1))
    show "ls_locked st' k = (\<exists>u \<in> T. (pc(t := Wants l)) u = Holds k)" for k
      unfolding B(2) D(2) using nh by (simp add: fun_upd_apply) metis
    show "x = u" if "x \<in> T" "u \<in> T" "(pc(t := Wants l)) x = Holds k" "(pc(t := Wants l)) u = Holds k" for x u k
      using that D(3)[of x u k] by (auto split: if_splits)
    show "(pc(t := Wants l)) x = Wants k" if "x \<in> T" "lock_waiter (ls_sched st') k x" for x k
      using W(2)[OF that(1)] that D(4)[of x k] unfolding lock_waiter_def by fastforce
    show "ls_locked st' k \<or> (\<exists>u \<in> T. (pc(t := Wants l)) u = Wants k \<and> runnable (ls_sched st') u)"
      if x: "x \<in> T" "lock_waiter (ls_sched st') k x" for x k
    proof (cases "k = l")
      case False
      then have "lock_waiter (ls_sched st) k x"
        using W(2)[OF x(1), of "LockQ k"] x(2) unfolding lock_waiter_def by (auto split: if_splits)
      from D(5)[OF x(1) this] show ?thesis
      proof
        assume "\<exists>u \<in> T. pc u = Wants k \<and> runnable (ls_sched st) u"
        then obtain u where u: "u \<in> T" "pc u = Wants k" "runnable (ls_sched st) u" by blast
        then have "u \<noteq> t" using pc False by auto
        then show ?thesis using u W(3)[OF u(1)] by (auto simp: runnable_def)
      qed (simp add: B(2))
    qed (simp add: B(1,2))
  qed
qed

text \<open>
  Giving up the lock: \<open>t\<close> held it, the oldest thread of its queue was signalled (giving \<open>s1\<close>), and the
  scheduler ran on to \<open>ls_sched st'\<close>.
\<close>

lemma linv_release:
  assumes inv: "linv idle T (st, pc)" and t: "t \<in> T" "pc t = Holds l" and p: "p = Outside \<or> p = Wants l"
    and ls: "lsched_ok idle T (ls_sched st')" and lk: "ls_locked st' = (ls_locked st)(l := False)"
    and bwd: "\<And>x k. x \<in> T \<Longrightarrow> lock_waiter (ls_sched st') k x \<Longrightarrow> x \<noteq> t \<and> lock_waiter (ls_sched st) k x"
    and run: "\<And>x. x \<in> T \<Longrightarrow> x \<noteq> t \<Longrightarrow> runnable (ls_sched st) x \<Longrightarrow> runnable (ls_sched st') x"
    and woken: "\<And>x. x \<in> T \<Longrightarrow> lock_waiter (ls_sched st) l x \<Longrightarrow>
      \<exists>u \<in> T. lock_waiter (ls_sched st) l u \<and> runnable (ls_sched st') u"
  shows "linv idle T (st', pc(t := p))"
proof (rule linvI)
  note D = linvD[OF inv]
  have "p \<noteq> Holds k" for k using p by auto
  note M = move_release[OF inv t this]
  show "lsched_ok idle T (ls_sched st')" by (rule ls)
  show "ls_locked st' k = (\<exists>u \<in> T. (pc(t := p)) u = Holds k)" for k unfolding lk by (rule M(1))
  show "x = u" if "x \<in> T" "u \<in> T" "(pc(t := p)) x = Holds k" "(pc(t := p)) u = Holds k" for x u k
    by (rule M(2)[OF that])
  show "(pc(t := p)) x = Wants k" if "x \<in> T" "lock_waiter (ls_sched st') k x" for x k
    using bwd[OF that] D(4)[OF that(1)] by simp
  show "ls_locked st' k \<or> (\<exists>u \<in> T. (pc(t := p)) u = Wants k \<and> runnable (ls_sched st') u)"
    if x: "x \<in> T" "lock_waiter (ls_sched st') k x" for x k
  proof (cases "k = l")
    case True
    from woken[OF x(1)] bwd[OF x] True obtain u where u: "u \<in> T" "lock_waiter (ls_sched st) l u" "runnable (ls_sched st') u"
      by blast
    then have "pc u = Wants l" by (simp add: D(4))
    with t(2) have "(pc(t := p)) u = Wants k" using True by auto
    then show ?thesis using u by blast
  next
    case False
    from D(5)[OF x(1)] bwd[OF x] have "ls_locked st k \<or> (\<exists>u \<in> T. pc u = Wants k \<and> runnable (ls_sched st) u)" by blast
    then show ?thesis
    proof
      assume "\<exists>u \<in> T. pc u = Wants k \<and> runnable (ls_sched st) u"
      then obtain u where u: "u \<in> T" "pc u = Wants k" "runnable (ls_sched st) u" by blast
      then have "u \<noteq> t" using t(2) by auto
      then show ?thesis using u run by auto
    qed (simp add: lk False)
  qed
qed

lemma signal_woken:
  assumes "lsched_ok idle T s" and "current s = Some c" and "wait_queue q"
  shows "\<exists>r s1 Q1. thread_signal q (s\<lparr>schedule := False\<rparr>) = Some (r, s1) \<and> sched_ok T s1 Q1 \<and>
    same_rest (s\<lparr>schedule := False\<rparr>) s1 \<and> undisturbed T s s1 \<and> th_state (thr s1 c) = THREAD_STATE_ACTIVE \<and>
    (r = 0 \<longrightarrow> s1 = s\<lparr>schedule := False\<rparr>) \<and>
    (\<forall>x \<in> T. th_qwait (thr s x) = Some q \<longrightarrow>
       r \<noteq> 0 \<and> (\<exists>u \<in> T. u \<noteq> c \<and> th_qwait (thr s u) = Some q \<and> th_state (thr s1 u) = THREAD_STATE_READY))"
proof -
  note D = lsched_okD[OF assms(1,2)]
  obtain Q where Q: "sched_ok T s Q" using D(1) by blast
  then have Q': "sched_ok T (s\<lparr>schedule := False\<rparr>) Q" by simp
  from signal_undisturbed[OF Q' assms(3)] obtain r s1 Q1 where s1:
      "thread_signal q (s\<lparr>schedule := False\<rparr>) = Some (r, s1)" "sched_ok T s1 Q1" "same_rest (s\<lparr>schedule := False\<rparr>) s1"
      "undisturbed T s s1" "r = 0 \<longrightarrow> s1 = s\<lparr>schedule := False\<rparr> \<and> Q q = []"
      "r \<noteq> 0 \<longrightarrow> (\<exists>t \<in> T. th_qwait (thr s t) = Some q \<and> th_state (thr s1 t) = THREAD_STATE_READY)" by auto
  have th: "thread_ok s Q x" "thread_ok s1 Q1 x" if "x \<in> T" for x using Q s1(2) that by (simp_all add: sched_ok_def)
  have "runnable s1 c" using s1(4) D(2,3) by (simp add: undisturbed_def runnable_def)
  moreover have "th_state (thr s1 c) \<noteq> THREAD_STATE_READY"
  proof
    assume r: "th_state (thr s1 c) = THREAD_STATE_READY"
    show False
    proof (cases "Q q")
      case Nil
      then show False using thread_signal_ok[OF Q' assms(3)] s1(1) r D(3) by (auto simp: thread_consts)
    next
      case (Cons t ts)
      with thread_signal_ok[OF Q' assms(3)] s1(1) have
        e: "thr s1 = (thr s)(t := (thr s t)\<lparr>th_qwait := None, th_state := THREAD_STATE_READY, th_wakeup := 0\<rparr>)" by auto
      have "t \<in> T" "th_qwait (thr s t) = Some q" using sched_ok_queue[OF Q assms(3), of t] Cons by simp_all
      with th(1) have "th_state (thr s t) = THREAD_STATE_SLEEP" by (auto simp: thread_ok_def)
      then show False using e r D(3) by (auto simp: thread_consts split: if_splits)
    qed
  qed
  ultimately have act: "th_state (thr s1 c) = THREAD_STATE_ACTIVE" by (simp add: runnable_def)
  have "r \<noteq> 0 \<and> (\<exists>u \<in> T. u \<noteq> c \<and> th_qwait (thr s u) = Some q \<and> th_state (thr s1 u) = THREAD_STATE_READY)"
    if x: "x \<in> T" "th_qwait (thr s x) = Some q" for x
  proof -
    have "x \<in> set (Q q)" using th(1)[OF x(1)] x(2) assms(3) by (auto simp: thread_ok_def)
    then have r: "r \<noteq> 0" using s1(5) by auto
    with s1(6) obtain u where u: "u \<in> T" "th_qwait (thr s u) = Some q" "th_state (thr s1 u) = THREAD_STATE_READY" by blast
    moreover from u act have "u \<noteq> c" by (auto simp: thread_consts)
    ultimately show ?thesis using r by blast
  qed
  then show ?thesis using s1 act by blast
qed

lemma signal_yield_ok:
  assumes ls: "lsched_ok idle T s" and cur: "current s = Some t" and q: "wait_queue q"
  shows "\<exists>ctx' s'. thread_signal_yield q ctx (s\<lparr>schedule := False\<rparr>) = Some (ctx', s') \<and> lsched_ok idle T s' \<and>
    undisturbed T s s' \<and> (\<forall>x \<in> T. th_qwait (thr s x) = Some q \<longrightarrow>
       (\<exists>u \<in> T. th_qwait (thr s u) = Some q \<and> runnable s' u))"
proof -
  note L = lsched_okD[OF ls cur]
  from signal_woken[OF ls cur q] obtain r s1 Q1 where s1:
      "thread_signal q (s\<lparr>schedule := False\<rparr>) = Some (r, s1)" "sched_ok T s1 Q1"
      "same_rest (s\<lparr>schedule := False\<rparr>) s1" "undisturbed T s s1"
      "th_state (thr s1 t) = THREAD_STATE_ACTIVE" "r = 0 \<longrightarrow> s1 = s\<lparr>schedule := False\<rparr>"
      "\<forall>x \<in> T. th_qwait (thr s x) = Some q \<longrightarrow> r \<noteq> 0 \<and> (\<exists>u \<in> T. u \<noteq> t \<and>
         th_qwait (thr s u) = Some q \<and> th_state (thr s1 u) = THREAD_STATE_READY)" by auto
  have c1: "current s1 = Some t" using s1(3) cur by (simp add: same_rest_def)
  have ex: "\<forall>t \<in> T. \<not> th_exit (thr s1 t)" using L(5) s1(4) by (simp add: undisturbed_def)
  show ?thesis
  proof (cases "r = 0")
    case True
    then have "thread_signal_yield q ctx (s\<lparr>schedule := False\<rparr>) = Some (ctx, s)"
      using s1(1,6) L(4) by (simp add: thread_signal_yield_def thread_critical_end_def check_def)
    then show ?thesis using ls s1(7) True by auto
  next
    case False
    from yield_ok[OF s1(2) c1 L(2) ex disjI1[OF s1(5)], of ctx] obtain ctx' s' Q' where y:
        "thread_yield ctx s1 = Some (ctx', s')" "sched_ok T s' Q'" "schedule s'"
        "\<exists>t \<in> T. current s' = Some t \<and> th_state (thr s' t) = THREAD_STATE_ACTIVE" "undisturbed T s1 s'" by blast
    have und: "undisturbed T s s'" by (rule undisturbed_trans[OF s1(4) y(5)])
    have "\<exists>u \<in> T. th_qwait (thr s u) = Some q \<and> runnable s' u" if x: "x \<in> T" "th_qwait (thr s x) = Some q" for x
    proof -
      from s1(7) x obtain u where u: "u \<in> T" "th_qwait (thr s u) = Some q" "th_state (thr s1 u) = THREAD_STATE_READY" by blast
      then have "runnable s1 u" by (simp add: runnable_def)
      then show ?thesis using u runnable_on[OF y(5) u(1)] by blast
    qed
    moreover have "thread_signal_yield q ctx (s\<lparr>schedule := False\<rparr>) = Some (ctx', s')"
      using s1(1) False y(1) by (simp add: thread_signal_yield_def)
    ultimately show ?thesis using lsched_okI[OF y(2,4,3) ls und] und by blast
  qed
qed

lemma linv_unlock:
  assumes inv: "linv idle T (st, pc)" and cur: "current (ls_sched st) = Some t" and pc: "pc t = Holds l"
  shows "\<exists>ctx' st'. lock_unlock l ctx st = Some (ctx', st') \<and> linv idle T (st', pc(t := Outside))"
proof -
  note D = linvD[OF inv] and C = linv_current[OF inv cur]
  from signal_yield_ok[OF D(1) cur, of "LockQ l" ctx] obtain ctx' s' where s':
      "thread_signal_yield (LockQ l) ctx ((ls_sched st)\<lparr>schedule := False\<rparr>) = Some (ctx', s')" "lsched_ok idle T s'"
      "undisturbed T (ls_sched st) s'" "\<forall>x \<in> T. lock_waiter (ls_sched st) l x \<longrightarrow>
       (\<exists>u \<in> T. lock_waiter (ls_sched st) l u \<and> runnable s' u)" unfolding lock_waiter_def by auto
  define st' where "st' = st\<lparr>ls_locked := (ls_locked st)(l := False), ls_sched := s'\<rparr>"
  have "lock_unlock l ctx st = Some (ctx', st')"
    using s'(1) lsched_okD(4)[OF D(1) cur] by (simp add: lock_unlock_def critical_start_ok st'_def)
  moreover have "linv idle T (st', pc(t := Outside))"
  proof (rule linv_release[OF inv C(1) pc])
    show "x \<noteq> t \<and> lock_waiter (ls_sched st) k x" if "x \<in> T" "lock_waiter (ls_sched st') k x" for x k
      using waiter_back[OF s'(3), of x k] that C(3) by (auto simp: st'_def)
    show "runnable (ls_sched st') x" if "x \<in> T" "x \<noteq> t" "runnable (ls_sched st) x" for x
      using runnable_on[OF s'(3) that(1,3)] by (simp add: st'_def)
    show "\<exists>u \<in> T. lock_waiter (ls_sched st) l u \<and> runnable (ls_sched st') u"
      if "x \<in> T" "lock_waiter (ls_sched st) l x" for x
      using s'(4) that by (auto simp: st'_def)
  qed (use s'(2) in \<open>auto simp: st'_def\<close>)
  ultimately show ?thesis by blast
qed

lemma linv_condwait:
  assumes inv: "linv idle T (st, pc)" and cur: "current (ls_sched st) = Some t" "t \<noteq> idle"
    and pc: "pc t = Holds l" and run: "cond_wait q l timeout now ctx st = Some (ctx', st')"
  shows "linv idle T (st', pc(t := Wants l))"
proof -
  note D = linvD[OF inv] and C = linv_current[OF inv cur(1)] and L = lsched_okD[OF linvD(1)[OF inv] cur(1)]
  from signal_woken[OF D(1) cur(1), of "LockQ l"] obtain r s1 Q1 where s1:
      "thread_signal (LockQ l) ((ls_sched st)\<lparr>schedule := False\<rparr>) = Some (r, s1)" "sched_ok T s1 Q1"
      "same_rest ((ls_sched st)\<lparr>schedule := False\<rparr>) s1" "undisturbed T (ls_sched st) s1"
      "th_state (thr s1 t) = THREAD_STATE_ACTIVE"
      "\<forall>x \<in> T. th_qwait (thr (ls_sched st) x) = Some (LockQ l) \<longrightarrow> r \<noteq> 0 \<and> (\<exists>u \<in> T. u \<noteq> t \<and>
         th_qwait (thr (ls_sched st) u) = Some (LockQ l) \<and> th_state (thr s1 u) = THREAD_STATE_READY)" by auto
  define w where "w = (if timeout \<noteq> 0 then timeout + now else 0)"
  have lk: "ls_locked st' = (ls_locked st)(l := False)" and tw: "thread_wait (CondQ q) w ctx s1 = Some (ctx', ls_sched st')"
    using run L(4) s1(1)
    by (auto simp: cond_wait_def critical_start_ok lock_unlock_crit_def w_def split: bind_splits)
  note W = lsched_wait[OF D(1) cur(1) cur(2)[symmetric] _ s1(2,3,4,5) tw, simplified]
  show ?thesis
  proof (rule linv_release[OF inv C(1) pc _ W(1) lk])
    show "x \<noteq> t \<and> lock_waiter (ls_sched st) k x" if "x \<in> T" "lock_waiter (ls_sched st') k x" for x k
      using W(2)[OF that(1), of "LockQ k"] that(2) unfolding lock_waiter_def by (auto split: if_splits)
    show "runnable (ls_sched st') x" if "x \<in> T" "x \<noteq> t" "runnable (ls_sched st) x" for x
      by (rule W(3)[OF that(1,2) runnable_on[OF s1(4) that(1,3)]])
    show "\<exists>u \<in> T. lock_waiter (ls_sched st) l u \<and> runnable (ls_sched st') u"
      if x: "x \<in> T" "lock_waiter (ls_sched st) l x" for x
    proof -
      from s1(6) x obtain u where "u \<in> T" "u \<noteq> t" "th_qwait (thr (ls_sched st) u) = Some (LockQ l)"
        "th_state (thr s1 u) = THREAD_STATE_READY" unfolding lock_waiter_def by blast
      then show ?thesis using W(3)[of u] unfolding lock_waiter_def runnable_def by blast
    qed
  qed simp
qed

text \<open>A critical section in which threads \<open>X\<close> are woken.\<close>

lemma critical_woken:
  assumes ls: "lsched_ok idle T s" and ok: "sched_ok T s2 Q" and rest: "same_rest (s\<lparr>schedule := False\<rparr>) s2"
    and thr: "\<And>x. thr s2 x = (if x \<in> X then (thr s x)\<lparr>th_qwait := None, th_state := THREAD_STATE_READY, th_wakeup := 0\<rparr> else thr s x)"
    and X: "\<And>x. x \<in> X \<Longrightarrow> th_state (thr s x) = THREAD_STATE_SLEEP"
    and cend: "thread_critical_end s2 = Some s3"
  shows "lsched_ok idle T s3" and "undisturbed T s s3"
proof -
  obtain c where c: "current s = Some c" using ls by (auto simp: lsched_ok_def)
  note L = lsched_okD[OF ls c]
  have e: "s3 = s2\<lparr>schedule := True\<rparr>"
    using cend by (auto simp: thread_critical_end_def check_def split: if_splits bind_splits)
  show und: "undisturbed T s s3" unfolding e using undisturbed_woken[OF thr, of T] by simp
  have "c \<notin> X" using X[of c] L(3) by (auto simp: thread_consts)
  then have "th_state (thr s3 c) = THREAD_STATE_ACTIVE" using thr[of c] L(3) by (simp add: e)
  moreover have "current s3 = Some c" using rest c by (simp add: e same_rest_def)
  ultimately have act: "\<exists>c \<in> T. current s3 = Some c \<and> th_state (thr s3 c) = THREAD_STATE_ACTIVE" using L(2) by blast
  have "sched_ok T s3 Q" using ok by (simp add: e)
  moreover have "schedule s3" by (simp add: e)
  ultimately show "lsched_ok idle T s3" using lsched_okI[OF _ act _ ls und] by blast
qed

lemma cond_signal_keeps:
  assumes ls: "lsched_ok idle T (ls_sched st)" and run: "cond_signal q st = Some (r, st')"
  shows "st' = st\<lparr>ls_sched := ls_sched st'\<rparr>" and "lsched_ok idle T (ls_sched st')"
    and "undisturbed T (ls_sched st) (ls_sched st')"
proof -
  define s where "s = ls_sched st"
  obtain c where c: "current s = Some c" using ls by (auto simp: lsched_ok_def s_def)
  obtain Q where Q: "sched_ok T s Q" and on: "schedule s" using lsched_okD[OF ls] c by (auto simp: s_def)
  have Q': "sched_ok T (s\<lparr>schedule := False\<rparr>) Q" using Q by simp
  have q: "wait_queue (CondQ q)" by simp
  obtain s2 s3 where b: "thread_signal (CondQ q) (s\<lparr>schedule := False\<rparr>) = Some (r, s2)" "thread_critical_end s2 = Some s3"
      "st' = st\<lparr>ls_sched := s3\<rparr>"
    using run on by (auto simp: cond_signal_def critical_start_ok s_def split: bind_splits)
  show "st' = st\<lparr>ls_sched := ls_sched st'\<rparr>" using b(3) by simp
  have "\<exists>X Q2. sched_ok T s2 Q2 \<and> same_rest (s\<lparr>schedule := False\<rparr>) s2 \<and> X \<subseteq> set (Q (CondQ q)) \<and> (\<forall>x. thr s2 x =
      (if x \<in> X then (thr s x)\<lparr>th_qwait := None, th_state := THREAD_STATE_READY, th_wakeup := 0\<rparr> else thr s x))"
  proof (cases "Q (CondQ q)")
    case Nil
    then have "s2 = s\<lparr>schedule := False\<rparr>" using thread_signal_ok[OF Q' q] b(1) by simp
    then show ?thesis using Q' by (intro exI[of _ "{}"] exI[of _ Q]) simp
  next
    case (Cons t ts)
    then show ?thesis using thread_signal_ok[OF Q' q] b(1)
      by (intro exI[of _ "{t}"] exI) auto
  qed
  then obtain X Q2 where X: "sched_ok T s2 Q2" "same_rest (s\<lparr>schedule := False\<rparr>) s2" "X \<subseteq> set (Q (CondQ q))" "\<And>x. thr s2 x =
      (if x \<in> X then (thr s x)\<lparr>th_qwait := None, th_state := THREAD_STATE_READY, th_wakeup := 0\<rparr> else thr s x)" by blast
  have "th_state (thr s x) = THREAD_STATE_SLEEP" if "x \<in> X" for x
    using sched_ok_queue[OF Q q, of x] X(3) that by auto
  from critical_woken[OF ls[folded s_def] X(1,2,4) this b(2)]
  show "lsched_ok idle T (ls_sched st')" "undisturbed T (ls_sched st) (ls_sched st')" using b(3) by (simp_all add: s_def)
qed

lemma cond_broadcast_keeps:
  assumes ls: "lsched_ok idle T (ls_sched st)" and run: "cond_broadcast q st = Some (r, st')"
  shows "st' = st\<lparr>ls_sched := ls_sched st'\<rparr>" and "lsched_ok idle T (ls_sched st')"
    and "undisturbed T (ls_sched st) (ls_sched st')"
proof -
  define s where "s = ls_sched st"
  obtain c where c: "current s = Some c" using ls by (auto simp: lsched_ok_def s_def)
  obtain Q where Q: "sched_ok T s Q" and on: "schedule s" using lsched_okD[OF ls] c by (auto simp: s_def)
  have Q': "sched_ok T (s\<lparr>schedule := False\<rparr>) Q" using Q by simp
  have q: "wait_queue (CondQ q)" by simp
  obtain s2 s3 where b: "thread_broadcast_loop (CondQ q) 0 (s\<lparr>schedule := False\<rparr>) = Some (r, s2)"
      "thread_critical_end s2 = Some s3" "st' = st\<lparr>ls_sched := s3\<rparr>"
    using run on by (auto simp: cond_broadcast_def thread_broadcast_def critical_start_ok s_def split: bind_splits)
  show "st' = st\<lparr>ls_sched := ls_sched st'\<rparr>" using b(3) by simp
  from broadcast_loop_ok[OF Q' q, of 0] b(1) obtain Q2 where X: "sched_ok T s2 Q2" "same_rest (s\<lparr>schedule := False\<rparr>) s2"
      "\<And>x. thr s2 x = (if x \<in> set (Q (CondQ q)) then (thr s x)\<lparr>th_qwait := None, th_state := THREAD_STATE_READY, th_wakeup := 0\<rparr> else thr s x)"
    by auto
  have "th_state (thr s x) = THREAD_STATE_SLEEP" if "x \<in> set (Q (CondQ q))" for x
    using sched_ok_queue[OF Q q, of x] that by auto
  from critical_woken[OF ls[folded s_def] X(1,2,3) this b(2)]
  show "lsched_ok idle T (ls_sched st')" "undisturbed T (ls_sched st) (ls_sched st')" using b(3) by (simp_all add: s_def)
qed

lemma tick_keeps:
  assumes ls: "lsched_ok idle T s" and run: "thread_on_tick now ctx s = Some (ctx', s')"
  shows "lsched_ok idle T s'" and "undisturbed T s s'"
proof -
  obtain c where c: "current s = Some c" using ls by (auto simp: lsched_ok_def)
  note L = lsched_okD[OF ls c]
  obtain Q where Q: "sched_ok T s Q" using L(1) by blast
  have live: "\<forall>x \<in> T. x \<noteq> c \<longrightarrow> \<not> killable s x" "\<not> (th_exit (thr s c) \<and> c_layout ctx \<noteq> CONTEXT_LAYOUT_KERNEL)"
    using L(2,5) by (auto simp: killable_def)
  from thread_on_tick_ok[OF Q c L(2,3,4) live, of now] obtain Q' t where t: "sched_ok T s' Q'" "schedule s'"
      "current s' = Some t" "t \<in> T" "th_state (thr s' t) = THREAD_STATE_ACTIVE" "undisturbed T s s'"
    using run by auto
  show "undisturbed T s s'" by (rule t(6))
  from lsched_okI[OF t(1) _ t(2) ls t(6)] t(3,4,5) show "lsched_ok idle T s'" by blast
qed

lemma linv_step:
  assumes "lstep idle c c'" and "linv idle T c"
  shows "linv idle T c'"
  using assms
proof (cases rule: lstep.cases)
  case (acquire st t pc l ctx ctx' st')
  then show ?thesis using linv_acquire assms(2) by blast
next
  case (block st t pc l ctx ctx' st')
  then show ?thesis using linv_block assms(2) by blast
next
  case (unlock st t pc l ctx ctx' st')
  then show ?thesis using linv_unlock[of idle T st pc t l ctx] assms(2) by auto
next
  case (condwait st t pc q l timeout now ctx ctx' st')
  then show ?thesis using linv_condwait assms(2) by blast
next
  case (signal q st r st' pc)
  then have "linv idle T (st, pc)" using assms(2) by simp
  from linv_undisturbed[OF this] cond_signal_keeps[OF linvD(1)[OF this] signal(3)] signal(2) show ?thesis by metis
next
  case (broadcast q st r st' pc)
  then have "linv idle T (st, pc)" using assms(2) by simp
  from linv_undisturbed[OF this] cond_broadcast_keeps[OF linvD(1)[OF this] broadcast(3)] broadcast(2) show ?thesis by metis
next
  case (tick now ctx st ctx' s' pc)
  then have "linv idle T (st, pc)" using assms(2) by simp
  from linv_undisturbed[OF this] tick_keeps[OF linvD(1)[OF this] tick(3)] tick(2) show ?thesis by blast
qed

lemma linv_reachable:
  assumes "(lstep idle)\<^sup>*\<^sup>* c c'" and "linv idle T c"
  shows "linv idle T c'"
  using assms by induction (auto intro: linv_step)

section \<open>Properties\<close>

text \<open> C1. In every interleaving of lock, unlock, condition and timer operations no two threads hold the same lock,
  and a lock is marked as taken exactly while a thread holds it. \<close>

theorem lock_mutual_exclusion:
  assumes "linv idle T c" and "(lstep idle)\<^sup>*\<^sup>* c (st, pc)"
  shows "(\<forall>t \<in> T. \<forall>u \<in> T. pc t = Holds l \<longrightarrow> pc u = Holds l \<longrightarrow> t = u) \<and>
    (ls_locked st l \<longleftrightarrow> (\<exists>t \<in> T. pc t = Holds l))"
  using linvD(2,3)[OF linv_reachable[OF assms(2,1)]] by blast

text \<open> C32. No wake-up of a lock is lost: in every interleaving, while threads sleep in the queue of a lock, the lock is
  taken or a thread that was woken to take it is ready to run. \<close>

theorem lock_no_lost_wakeup:
  assumes "linv idle T c" and "(lstep idle)\<^sup>*\<^sup>* c (st, pc)" and "t \<in> T" and "lock_waiter (ls_sched st) l t"
  shows "ls_locked st l \<or> (\<exists>u \<in> T. pc u = Wants l \<and> runnable (ls_sched st) u)"
  using linvD(5)[OF linv_reachable[OF assms(2,1)] assms(3,4)] .

text \<open>Thread 1 holds lock 0, thread 2 waits for it, thread 3 is the idle thread.\<close>

definition lock_demo :: lconf where
  "lock_demo = (\<lparr>ls_sched = sched_demo, ls_locked = (\<lambda>_. False)(0 := True)\<rparr>,
     (\<lambda>_. Outside)(1 := Holds 0, 2 := Wants 0))"

lemma lock_demo_inv: "linv 3 {1, 2, 3} lock_demo"
  unfolding lock_demo_def
proof (rule linvI)
  have "runnable sched_demo 3" by (simp add: runnable_def sched_demo_def)
  moreover have "\<exists>c \<in> {1, 2, 3}. current sched_demo = Some c \<and> th_state (thr sched_demo c) = THREAD_STATE_ACTIVE"
    using sched_demo_live by auto
  ultimately show "lsched_ok 3 {1, 2, 3} (ls_sched \<lparr>ls_sched = sched_demo, ls_locked = (\<lambda>_. False)(0 := True)\<rparr>)"
    unfolding lsched_ok_def using sched_demo_ok sched_demo_live by (auto simp: thread_consts)
qed (auto simp: lock_waiter_def sched_demo_def thread0_def split: if_splits)

lemma lock_demo_step: "\<exists>st. lstep 3 lock_demo (st, (\<lambda>_. Outside)(2 := Wants 0)) \<and> lock_waiter (ls_sched (fst lock_demo)) 0 2"
proof -
  have "current (ls_sched (fst lock_demo)) = Some 1" "snd lock_demo 1 = Holds 0"
    using sched_demo_live by (simp_all add: lock_demo_def)
  with linv_unlock[of 3 "{1,2,3}" "fst lock_demo" "snd lock_demo" 1 0 ctx0] lock_demo_inv obtain ctx' st' where
    "lock_unlock 0 ctx0 (fst lock_demo) = Some (ctx', st')" by auto
  then have "lstep 3 (fst lock_demo, snd lock_demo) (st', (snd lock_demo)(1 := Outside))"
    by (intro lstep.unlock) (use sched_demo_live in \<open>simp_all add: lock_demo_def\<close>)
  moreover have "(snd lock_demo)(1 := Outside) = (\<lambda>_. Outside)(2 := Wants 0)" by (auto simp: lock_demo_def)
  moreover have "lock_waiter (ls_sched (fst lock_demo)) 0 2" by (simp add: lock_waiter_def lock_demo_def sched_demo_def)
  ultimately show ?thesis by auto
qed

theorem lock_mutual_exclusion_witness:
  "\<exists>st. lstep 3 lock_demo (st, (\<lambda>_. Outside)(2 := Wants 0)) \<and> \<not> ls_locked st 0"
proof -
  obtain st where st: "lstep 3 lock_demo (st, (\<lambda>_. Outside)(2 := Wants 0))" using lock_demo_step by blast
  then have "(lstep 3)\<^sup>*\<^sup>* lock_demo (st, (\<lambda>_. Outside)(2 := Wants 0))" by blast
  from lock_mutual_exclusion[OF lock_demo_inv this, of 0] st show ?thesis by auto
qed

theorem lock_no_lost_wakeup_witness: "ls_locked (fst lock_demo) 0 \<or> (\<exists>u \<in> {1, 2, 3}. snd lock_demo u = Wants 0 \<and> runnable sched_demo u)"
proof -
  have "(lstep 3)\<^sup>*\<^sup>* lock_demo (fst lock_demo, snd lock_demo)" by simp
  from lock_no_lost_wakeup[OF lock_demo_inv this, of 2 0] lock_demo_step show ?thesis by (auto simp: lock_demo_def)
qed

end
