(* ===== verification/FloppyCmd.thy ===== *)
theory FloppyCmd
  imports ZPrelude
begin

text \<open>
  The floppy disk controller driver \<open>driver/floppy_cmd.c\<close>. The controller itself is hardware: the
  two functions of \<open>ioports\<close> are what an access to an I/O port does to it. The interrupt mask
  (\<open>critical_start\<close>, \<open>critical_end\<close>), the video routine that is called late and the delay loop do
  not touch the controller and leave no trace here. The two transfer loops are assembly in the
  source and are translated instruction by instruction: \<open>de\<close> is the poll budget, \<open>c\<close> the bytes left.
  The loops that poll without a limit are \<open>partial_function\<close>s; a controller that never becomes
  ready makes them return \<open>None\<close>.
\<close>

record 'h ioports =
  pin :: "nat \<Rightarrow> 'h \<Rightarrow> nat \<times> 'h"
  pout :: "nat \<Rightarrow> nat \<Rightarrow> 'h \<Rightarrow> 'h"

definition DOR :: nat where "DOR = 226"
definition MSR :: nat where "MSR = 228"
definition FIFO :: nat where "FIFO = 229"
definition DIR :: nat where "DIR = 231"
definition CCR :: nat where "CCR = 231"
definition DOR_SELECT_NONE :: nat where "DOR_SELECT_NONE = 12"
definition CCR_HD144 :: nat where "CCR_HD144 = 0"
definition GAP :: nat where "GAP = 24"
definition DRIVE_NO :: nat where "DRIVE_NO = 1"
definition FLOPPY_CMD_NO_CHANGE :: int where "FLOPPY_CMD_NO_CHANGE = 0"
definition FLOPPY_CMD_CHANGE :: int where "FLOPPY_CMD_CHANGE = -1"
definition FLOPPY_CMD_NO_MEDIA :: int where "FLOPPY_CMD_NO_MEDIA = -2"

unbundle bit_operations_syntax

record floppy_cmd_result =
  st0 :: nat
  st1 :: nat
  st2 :: nat
  res_c :: nat
  res_h :: nat
  res_r :: nat
  res_n :: nat

section \<open>Single bytes\<close>

text \<open>\<open>floopy_cmd_is_busy\<close>\<close>

definition floopy_cmd_is_busy :: "'h ioports \<Rightarrow> 'h \<Rightarrow> bool \<times> 'h" where
  "floopy_cmd_is_busy io h = (let (m, h1) = pin io MSR h in (bit m DRIVE_NO, h1))"

fun fifo_write_loop :: "'h ioports \<Rightarrow> nat \<Rightarrow> nat \<Rightarrow> 'h \<Rightarrow> int \<times> 'h" where
  "fifo_write_loop io 0 d h = (-1, h)"
| "fifo_write_loop io (Suc retry) d h = (let (m, h1) = pin io MSR h in
     if m AND 192 = 128 then (0, pout io FIFO d h1) else fifo_write_loop io retry d h1)"

definition floppy_cmd_fifo_write :: "'h ioports \<Rightarrow> nat \<Rightarrow> 'h \<Rightarrow> int \<times> 'h" where
  "floppy_cmd_fifo_write io d h = fifo_write_loop io 65535 d h"

fun fifo_read_loop :: "'h ioports \<Rightarrow> nat \<Rightarrow> 'h \<Rightarrow> nat option \<times> 'h" where
  "fifo_read_loop io 0 h = (None, h)"
| "fifo_read_loop io (Suc retry) h = (let (m, h1) = pin io MSR h in
     if m AND 192 = 192 then (let (d, h2) = pin io FIFO h1 in (Some d, h2)) else fifo_read_loop io retry h1)"

text \<open>\<open>None\<close> stands for the result -1, with \<open>*data\<close> left alone.\<close>

definition floppy_cmd_fifo_read :: "'h ioports \<Rightarrow> 'h \<Rightarrow> nat option \<times> 'h" where
  "floppy_cmd_fifo_read io h = fifo_read_loop io 65535 h"

section \<open>Commands and results\<close>

fun floppy_cmd_read_bytes :: "'h ioports \<Rightarrow> nat \<Rightarrow> 'h \<Rightarrow> nat list option \<times> 'h" where
  "floppy_cmd_read_bytes io 0 h = (Some [], h)"
| "floppy_cmd_read_bytes io (Suc n) h = (case floppy_cmd_fifo_read io h of
     (None, h1) \<Rightarrow> (None, h1)
   | (Some b, h1) \<Rightarrow> (case floppy_cmd_read_bytes io n h1 of
       (None, h2) \<Rightarrow> (None, h2) | (Some bs, h2) \<Rightarrow> (Some (b # bs), h2)))"

text \<open>A result that was read only in part is never looked at by the callers.\<close>

definition floppy_cmd_read_result :: "'h ioports \<Rightarrow> 'h \<Rightarrow> floppy_cmd_result option \<times> 'h" where
  "floppy_cmd_read_result io h = (case floppy_cmd_read_bytes io 7 h of
     (Some [a, b, c, d, e, f, g], h1) \<Rightarrow>
       (Some \<lparr>st0 = a, st1 = b, st2 = c, res_c = d, res_h = e, res_r = f, res_n = g\<rparr>, h1)
   | (_, h1) \<Rightarrow> (None, h1))"

fun floppy_cmd_write_cmd :: "'h ioports \<Rightarrow> nat list \<Rightarrow> 'h \<Rightarrow> int \<times> 'h" where
  "floppy_cmd_write_cmd io [] h = (0, h)"
| "floppy_cmd_write_cmd io (c # cs) h = (let (r, h1) = floppy_cmd_fifo_write io c h in
     if r < 0 then (-1, h1) else floppy_cmd_write_cmd io cs h1)"

section \<open>Data transfers\<close>

text \<open>
  One of the two loops of \<open>floppy_cmd_sector_read\<close>: \<open>c\<close> bytes to go, \<open>de\<close> polls left. Bit 5 of the
  status is the execution phase, bit 7 a byte being ready. The result tells the bytes stored and
  whether the loop got all of them.
\<close>

function half_read :: "'h ioports \<Rightarrow> nat \<Rightarrow> nat \<Rightarrow> 'h \<Rightarrow> nat list \<times> bool \<times> 'h" where
  "half_read io c de h = (let (a, h1) = pin io MSR h in
     if \<not> bit a 5 then ([], False, h1)
     else if bit a 7 then (let (d, h2) = pin io FIFO h1 in
       if c \<le> 1 then ([d], True, h2)
       else (let (ds, ok, h3) = half_read io (c - 1) de h2 in (d # ds, ok, h3)))
     else if de \<le> 1 then ([], False, h1) else half_read io c (de - 1) h1)"
  by pat_completeness auto
termination by (relation "measure (\<lambda>(io, c, de, h). c + de)") auto

declare half_read.simps [simp del]

definition floppy_cmd_sector_read :: "'h ioports \<Rightarrow> nat list \<Rightarrow> 'h \<Rightarrow> nat list \<times> 'h" where
  "floppy_cmd_sector_read io buff h = (let (ds, ok, h1) = half_read io 256 65535 h in
     if \<not> ok then (ds @ drop (length ds) buff, h1)
     else (let (es, _, h2) = half_read io 256 65535 h1 in (ds @ es @ drop (length ds + length es) buff, h2)))"

text \<open>The same for \<open>floppy_cmd_sector_write\<close>; \<open>hl\<close> points at the rest of the buffer.\<close>

function half_write :: "'h ioports \<Rightarrow> nat \<Rightarrow> nat \<Rightarrow> nat list \<Rightarrow> 'h \<Rightarrow> nat list \<times> bool \<times> 'h" where
  "half_write io c de hl h = (let (a, h1) = pin io MSR h in
     if \<not> bit a 5 then (hl, False, h1)
     else if bit a 7 then (let h2 = pout io FIFO (hd hl) h1 in
       if c \<le> 1 then (tl hl, True, h2) else half_write io (c - 1) de (tl hl) h2)
     else if de \<le> 1 then (hl, False, h1) else half_write io c (de - 1) hl h1)"
  by pat_completeness auto
termination by (relation "measure (\<lambda>(io, c, de, hl, h). c + de)") auto

declare half_write.simps [simp del]

definition floppy_cmd_sector_write :: "'h ioports \<Rightarrow> nat list \<Rightarrow> 'h \<Rightarrow> 'h" where
  "floppy_cmd_sector_write io buff h = (let (hl, ok, h1) = half_write io 256 65535 buff h in
     if \<not> ok then h1 else snd (snd (half_write io 256 65535 hl h1)))"

text \<open>\<open>floppy_cmd_read_data\<close>: the result is \<open>None\<close> for -1; the second component is the buffer.\<close>

definition floppy_cmd_read_data :: "'h ioports \<Rightarrow> nat \<Rightarrow> nat \<Rightarrow> nat \<Rightarrow> nat list \<Rightarrow> 'h \<Rightarrow> floppy_cmd_result option \<times> nat list \<times> 'h" where
  "floppy_cmd_read_data io c hd' r buff h0 =
     (let (e, h1) = floppy_cmd_write_cmd io [70, u8 (push_bit 2 hd' OR DRIVE_NO), c, hd', r, 2, r, GAP] h0 in
      if e < 0 then (None, buff, h1)
      else (let (e2, h2) = floppy_cmd_fifo_write io 8 h1 in
        if e2 < 0 then (None, buff, h2)
        else (let (buff', h3) = floppy_cmd_sector_read io buff h2; (res, h4) = floppy_cmd_read_result io h3 in
          (res, buff', h4))))"

definition floppy_cmd_write_data :: "'h ioports \<Rightarrow> nat \<Rightarrow> nat \<Rightarrow> nat \<Rightarrow> nat list \<Rightarrow> 'h \<Rightarrow> floppy_cmd_result option \<times> 'h" where
  "floppy_cmd_write_data io c hd' r buff h0 =
     (let (e, h1) = floppy_cmd_write_cmd io [69, u8 (push_bit 2 hd' OR DRIVE_NO OR 128), c, hd', r, 2, r, GAP] h0 in
      if e < 0 then (None, h1)
      else (let (e2, h2) = floppy_cmd_fifo_write io 8 h1 in
        if e2 < 0 then (None, h2)
        else floppy_cmd_read_result io (floppy_cmd_sector_write io buff h2)))"

section \<open>Seeking, resetting\<close>

text \<open>\<open>floppy_cmd_sense_interrupt\<close>: \<open>Some (st0, pcn)\<close>, or \<open>None\<close> for -1.\<close>

fun sense_loop :: "'h ioports \<Rightarrow> nat \<Rightarrow> 'h \<Rightarrow> (nat \<times> nat) option \<times> 'h" where
  "sense_loop io 0 h = (None, h)"
| "sense_loop io (Suc retry) h = (let (e, h1) = floppy_cmd_fifo_write io 8 h in
     if e < 0 then (None, h1)
     else (case floppy_cmd_fifo_read io h1 of
       (None, h2) \<Rightarrow> (None, h2)
     | (Some st0_l, h2) \<Rightarrow>
         if st0_l \<noteq> 128 then (case floppy_cmd_fifo_read io h2 of
             (None, h3) \<Rightarrow> (None, h3) | (Some pcn_l, h3) \<Rightarrow> (Some (st0_l, pcn_l), h3))
         else sense_loop io retry h2))"

definition floppy_cmd_sense_interrupt :: "'h ioports \<Rightarrow> 'h \<Rightarrow> (nat \<times> nat) option \<times> 'h" where
  "floppy_cmd_sense_interrupt io h = sense_loop io 65535 h"

text \<open>\<open>while (floopy_cmd_is_busy())\<close> and \<open>while (MSR != 0x80)\<close>: there is no timeout.\<close>

partial_function (option) wait_not_busy :: "'h ioports \<Rightarrow> 'h \<Rightarrow> 'h option" where
  "wait_not_busy io h = (let (b, h1) = floopy_cmd_is_busy io h in if b then wait_not_busy io h1 else Some h1)"

partial_function (option) wait_msr_ready :: "'h ioports \<Rightarrow> 'h \<Rightarrow> 'h option" where
  "wait_msr_ready io h = (let (m, h1) = pin io MSR h in if m \<noteq> 128 then wait_msr_ready io h1 else Some h1)"

declare wait_not_busy.simps [code] wait_msr_ready.simps [code]

text \<open>The part that \<open>floppy_cmd_recalibrate\<close> and \<open>floppy_cmd_seek\<close> share: command, wait, result.\<close>

definition head_move :: "'h ioports \<Rightarrow> nat list \<Rightarrow> 'h \<Rightarrow> (int \<times> 'h) option" where
  "head_move io cmd h =
     (let (e, h1) = floppy_cmd_write_cmd io cmd h in
      if e < 0 then Some (-1, h1)
      else do {
        h2 \<leftarrow> wait_not_busy io h1;
        (case floppy_cmd_sense_interrupt io h2 of
           (None, h3) \<Rightarrow> Some (-1, h3)
         | (Some (s, _), h3) \<Rightarrow> if s AND 192 \<noteq> 0 then Some (-1, h3) else Some (0, h3)) })"

definition floppy_cmd_recalibrate :: "'h ioports \<Rightarrow> 'h \<Rightarrow> (int \<times> 'h) option" where
  "floppy_cmd_recalibrate io h = head_move io [7, DRIVE_NO] h"

definition floppy_cmd_seek :: "'h ioports \<Rightarrow> nat \<Rightarrow> 'h \<Rightarrow> (int \<times> 'h) option" where
  "floppy_cmd_seek io c h = head_move io [15, DRIVE_NO, c] h"

definition floppy_cmd_specify :: "'h ioports \<Rightarrow> nat \<Rightarrow> nat \<Rightarrow> nat \<Rightarrow> nat \<Rightarrow> 'h \<Rightarrow> int \<times> 'h" where
  "floppy_cmd_specify io srt hut hlt nd h =
     floppy_cmd_write_cmd io [3, u8 (push_bit 4 srt OR hut), u8 (push_bit 1 hlt OR nd)] h"

definition floppy_cmd_configure :: "'h ioports \<Rightarrow> nat \<Rightarrow> nat \<Rightarrow> nat \<Rightarrow> 'h \<Rightarrow> int \<times> 'h" where
  "floppy_cmd_configure io eis poll fifothr h =
     floppy_cmd_write_cmd io [19, 0, u8 (push_bit 6 eis OR push_bit 4 poll OR fifothr), 0] h"

definition floppy_cmd_lock :: "'h ioports \<Rightarrow> nat \<Rightarrow> 'h \<Rightarrow> int \<times> 'h" where
  "floppy_cmd_lock io lock h =
     (let (e, h1) = floppy_cmd_fifo_write io (u8 (push_bit 7 lock OR 20)) h in
      if e < 0 then (-1, h1)
      else (case floppy_cmd_fifo_read io h1 of
        (None, h2) \<Rightarrow> (-1, h2)
      | (Some readback, h2) \<Rightarrow> if readback XOR push_bit 4 lock \<noteq> 0 then (-1, h2) else (0, h2)))"

definition floppy_cmd_enable :: "'h ioports \<Rightarrow> int \<Rightarrow> 'h \<Rightarrow> 'h" where
  "floppy_cmd_enable io enable h =
     (if enable \<noteq> 0 then pout io DOR ([28, 45, 78, 143] ! DRIVE_NO) h else pout io DOR DOR_SELECT_NONE h)"

definition floppy_cmd_eject_status :: "'h ioports \<Rightarrow> 'h \<Rightarrow> (int \<times> 'h) option" where
  "floppy_cmd_eject_status io h =
     (let (d, h1) = pin io DIR h in
      if bit d 7 then do {
        (e, h2) \<leftarrow> floppy_cmd_seek io 10 h1;
        (if e < 0 then Some (FLOPPY_CMD_NO_MEDIA, h2)
         else do {
           (e2, h3) \<leftarrow> floppy_cmd_recalibrate io h2;
           (if e2 < 0 then Some (FLOPPY_CMD_NO_MEDIA, h3) else Some (FLOPPY_CMD_CHANGE, h3)) }) }
      else Some (FLOPPY_CMD_NO_CHANGE, h1))"

fun sense_times :: "'h ioports \<Rightarrow> nat \<Rightarrow> 'h \<Rightarrow> int \<times> 'h" where
  "sense_times io 0 h = (0, h)"
| "sense_times io (Suc n) h = (case floppy_cmd_sense_interrupt io h of
     (None, h1) \<Rightarrow> (-1, h1) | (Some _, h1) \<Rightarrow> sense_times io n h1)"

text \<open>The part of \<open>floppy_cmd_reset\<close> that a warm reset skips.\<close>

definition reset_cold :: "'h ioports \<Rightarrow> 'h \<Rightarrow> int \<times> 'h" where
  "reset_cold io h =
     (let (e, h1) = sense_times io 4 h in
      if e < 0 then (-1, h1)
      else (let h2 = pout io CCR CCR_HD144 h1; (e2, h3) = floppy_cmd_configure io 1 1 15 h2 in
        if e2 < 0 then (-1, h3)
        else (let (e3, h4) = floppy_cmd_lock io 1 h3 in if e3 < 0 then (-1, h4) else (0, h4))))"

definition floppy_cmd_reset :: "'h ioports \<Rightarrow> bool \<Rightarrow> 'h \<Rightarrow> (int \<times> 'h) option" where
  "floppy_cmd_reset io warm h0 = do {
     let h1 = pout io DOR DOR_SELECT_NONE (pout io DOR 0 h0);
     h2 \<leftarrow> wait_msr_ready io h1;
     let (e, h3) = (if warm then (0, h2) else reset_cold io h2);
     (if e < 0 then Some (-1, h3)
      else do {
        let (e2, h4) = floppy_cmd_specify io 12 15 2 1 h3;
        (if e2 < 0 then Some (-1, h4)
         else do {
           let h5 = floppy_cmd_enable io 1 h4;
           (e3, h6) \<leftarrow> floppy_cmd_recalibrate io h5;
           (if e3 < 0 then Some (-1, floppy_cmd_enable io 0 h6)
            else do {
              (_, h7) \<leftarrow> floppy_cmd_eject_status io h6;
              Some (0, floppy_cmd_enable io 0 h7) }) }) }) }"

section \<open>Polling\<close>

text \<open>\<open>ready_after io P k h\<close>: the state after \<open>k\<close> polls of the status that do not satisfy \<open>P\<close> and one that does.\<close>

fun ready_after :: "'h ioports \<Rightarrow> (nat \<Rightarrow> bool) \<Rightarrow> nat \<Rightarrow> 'h \<Rightarrow> 'h option" where
  "ready_after io P 0 h = (let (m, h1) = pin io MSR h in if P m then Some h1 else None)"
| "ready_after io P (Suc k) h = (let (m, h1) = pin io MSR h in if P m then None else ready_after io P k h1)"

text \<open>One byte handed over in the command, result and execution phase; the waits are part of the label.\<close>

definition takes_byte :: "'h ioports \<Rightarrow> 'h \<Rightarrow> nat \<Rightarrow> 'h \<Rightarrow> bool" where
  "takes_byte io h d h' \<longleftrightarrow> (\<exists>k < 65535. \<exists>h1. ready_after io (\<lambda>m. m AND 192 = 128) k h = Some h1 \<and> h' = pout io FIFO d h1)"

definition gives_byte :: "'h ioports \<Rightarrow> 'h \<Rightarrow> nat \<Rightarrow> 'h \<Rightarrow> bool" where
  "gives_byte io h d h' \<longleftrightarrow> (\<exists>k < 65535. \<exists>h1. ready_after io (\<lambda>m. m AND 192 = 192) k h = Some h1 \<and> pin io FIFO h1 = (d, h'))"

fun feeds_byte :: "'h ioports \<Rightarrow> 'h \<Rightarrow> nat \<times> nat \<Rightarrow> 'h \<Rightarrow> bool" where
  "feeds_byte io h (0, d) h' = (let (m, h1) = pin io MSR h in bit m 5 \<and> bit m 7 \<and> pin io FIFO h1 = (d, h'))"
| "feeds_byte io h (Suc k, d) h' = (let (m, h1) = pin io MSR h in bit m 5 \<and> \<not> bit m 7 \<and> feeds_byte io h1 (k, d) h')"

fun accepts_byte :: "'h ioports \<Rightarrow> 'h \<Rightarrow> nat \<times> nat \<Rightarrow> 'h \<Rightarrow> bool" where
  "accepts_byte io h (0, d) h' = (let (m, h1) = pin io MSR h in bit m 5 \<and> bit m 7 \<and> h' = pout io FIFO d h1)"
| "accepts_byte io h (Suc k, d) h' = (let (m, h1) = pin io MSR h in bit m 5 \<and> \<not> bit m 7 \<and> accepts_byte io h1 (k, d) h')"

primrec chain :: "('h \<Rightarrow> 'a \<Rightarrow> 'h \<Rightarrow> bool) \<Rightarrow> 'h \<Rightarrow> 'a list \<Rightarrow> 'h \<Rightarrow> bool" where
  "chain R h [] h' \<longleftrightarrow> h' = h"
| "chain R h (x # xs) h' \<longleftrightarrow> (\<exists>h1. R h x h1 \<and> chain R h1 xs h')"

lemma chain_append: "chain R h (xs @ ys) h' \<longleftrightarrow> (\<exists>h1. chain R h xs h1 \<and> chain R h1 ys h')"
  by (induction xs arbitrary: h) auto

lemma fifo_write_after:
  "ready_after io (\<lambda>m. m AND 192 = 128) k h = Some h1 \<Longrightarrow> k < n \<Longrightarrow> fifo_write_loop io n d h = (0, pout io FIFO d h1)"
proof (induction k arbitrary: h n)
  case 0
  then show ?case by (cases n) (auto split: prod.splits if_splits)
next
  case (Suc k)
  then show ?case by (cases n) (auto split: prod.splits if_splits)
qed

lemma fifo_read_after:
  "ready_after io (\<lambda>m. m AND 192 = 192) k h = Some h1 \<Longrightarrow> k < n \<Longrightarrow> pin io FIFO h1 = (d, h') \<Longrightarrow>
   fifo_read_loop io n h = (Some d, h')"
proof (induction k arbitrary: h n)
  case 0
  then show ?case by (cases n) (auto split: prod.splits if_splits)
next
  case (Suc k)
  then show ?case by (cases n) (auto split: prod.splits if_splits)
qed

lemma takes_byte_write: "takes_byte io h d h' \<Longrightarrow> floppy_cmd_fifo_write io d h = (0, h')"
  unfolding takes_byte_def floppy_cmd_fifo_write_def by (elim exE conjE) (simp only: fifo_write_after)

lemma gives_byte_read: "gives_byte io h d h' \<Longrightarrow> floppy_cmd_fifo_read io h = (Some d, h')"
  unfolding gives_byte_def floppy_cmd_fifo_read_def by (elim exE conjE) (rule fifo_read_after)

lemma write_cmd_chain: "chain (takes_byte io) h cmd h' \<Longrightarrow> floppy_cmd_write_cmd io cmd h = (0, h')"
  by (induction cmd arbitrary: h) (auto dest: takes_byte_write)

lemma read_bytes_chain: "chain (gives_byte io) h ds h' \<Longrightarrow> floppy_cmd_read_bytes io (length ds) h = (Some ds, h')"
  by (induction ds arbitrary: h) (auto dest: gives_byte_read)

lemma half_read_wait:
  "feeds_byte io h (k, d) h' \<Longrightarrow> k < de \<Longrightarrow>
   half_read io c de h = (if c \<le> 1 then ([d], True, h')
     else (let (ds, ok, h3) = half_read io (c - 1) (de - k) h' in (d # ds, ok, h3)))"
proof (induction k arbitrary: h de)
  case 0
  obtain m h1 where m: "pin io MSR h = (m, h1)" by fastforce
  then have "bit m 5" "bit m 7" "pin io FIFO h1 = (d, h')" using 0 by simp_all
  then show ?case by (subst half_read.simps) (simp add: m)
next
  case (Suc k)
  obtain m h1 where m: "pin io MSR h = (m, h1)" by fastforce
  then have b: "bit m 5" "\<not> bit m 7" "feeds_byte io h1 (k, d) h'" using Suc.prems(1) by simp_all
  have "half_read io c de h = half_read io c (de - 1) h1" using b Suc.prems(2) by (subst half_read.simps) (simp add: m)
  moreover have "de - 1 - k = de - Suc k" by simp
  ultimately show ?case using Suc.IH[OF b(3), of "de - 1"] Suc.prems(2) by simp
qed

lemma half_read_chain:
  "chain (feeds_byte io) h ds h' \<Longrightarrow> ds \<noteq> [] \<Longrightarrow> sum_list (map fst ds) < de \<Longrightarrow>
   half_read io (length ds) de h = (map snd ds, True, h')"
proof (induction ds arbitrary: h de)
  case Nil
  then show ?case by simp
next
  case (Cons x ds)
  obtain k d where x: "x = (k, d)" by fastforce
  from Cons.prems(1) x obtain h1 where h1: "feeds_byte io h (k, d) h1" "chain (feeds_byte io) h1 ds h'" by auto
  note w = half_read_wait[OF h1(1), of de "Suc (length ds)"]
  show ?case
  proof (cases ds)
    case Nil
    then show ?thesis using w h1(2) Cons.prems(3) x by simp
  next
    case (Cons y ys)
    with Cons.IH[OF h1(2), of "de - k"] w \<open>sum_list (map fst (x # ds)) < de\<close> x show ?thesis by simp
  qed
qed

lemma half_write_wait:
  "accepts_byte io h (k, d) h' \<Longrightarrow> k < de \<Longrightarrow>
   half_write io c de (d # hl) h = (if c \<le> 1 then (hl, True, h') else half_write io (c - 1) (de - k) hl h')"
proof (induction k arbitrary: h de)
  case 0
  obtain m h1 where m: "pin io MSR h = (m, h1)" by fastforce
  then have "bit m 5" "bit m 7" "h' = pout io FIFO d h1" using 0 by simp_all
  then show ?case by (subst half_write.simps) (simp add: m)
next
  case (Suc k)
  obtain m h1 where m: "pin io MSR h = (m, h1)" by fastforce
  then have b: "bit m 5" "\<not> bit m 7" "accepts_byte io h1 (k, d) h'" using Suc.prems(1) by simp_all
  have "half_write io c de (d # hl) h = half_write io c (de - 1) (d # hl) h1"
    using b Suc.prems(2) by (subst half_write.simps) (simp add: m)
  moreover have "de - 1 - k = de - Suc k" by simp
  ultimately show ?case using Suc.IH[OF b(3), of "de - 1"] Suc.prems(2) by simp
qed

lemma half_write_chain:
  "chain (accepts_byte io) h ds h' \<Longrightarrow> ds \<noteq> [] \<Longrightarrow> sum_list (map fst ds) < de \<Longrightarrow>
   half_write io (length ds) de (map snd ds @ hl) h = (hl, True, h')"
proof (induction ds arbitrary: h de)
  case Nil
  then show ?case by simp
next
  case (Cons x ds)
  obtain k d where x: "x = (k, d)" by fastforce
  from Cons.prems(1) x obtain h1 where h1: "accepts_byte io h (k, d) h1" "chain (accepts_byte io) h1 ds h'" by auto
  note w = half_write_wait[OF h1(1), of de "Suc (length ds)" "map snd ds @ hl"]
  show ?case
  proof (cases ds)
    case Nil
    then show ?thesis using w h1(2) Cons.prems(3) x by simp
  next
    case (Cons y ys)
    with Cons.IH[OF h1(2), of "de - k"] w \<open>sum_list (map fst (x # ds)) < de\<close> x show ?thesis by simp
  qed
qed

lemma command_chain:
  assumes "chain (takes_byte io) h0 (cmd @ [8]) h1"
  obtains g where "floppy_cmd_write_cmd io cmd h0 = (0, g)" and "floppy_cmd_fifo_write io 8 g = (0, h1)"
  using assms write_cmd_chain takes_byte_write by (fastforce simp: chain_append)

lemma read_result_chain:
  assumes "chain (gives_byte io) h [a0, a1, a2, a3, a4, a5, a6] h'"
  shows "floppy_cmd_read_result io h =
    (Some \<lparr>st0 = a0, st1 = a1, st2 = a2, res_c = a3, res_h = a4, res_r = a5, res_n = a6\<rparr>, h')"
  using read_bytes_chain[OF assms] by (simp add: eval_nat_numeral floppy_cmd_read_result_def)

lemma read_data_ok:
  assumes cmd: "chain (takes_byte io) h0 [70, 4 * hh + 1, c, hh, r, 2, r, 24, 8] h1" and head: "hh < 2"
    and data: "chain (feeds_byte io) h1 (xs @ ys) h2" "length xs = 256" "length ys = 256"
      "sum_list (map fst xs) < 65535" "sum_list (map fst ys) < 65535"
    and result: "chain (gives_byte io) h2 [a0, a1, a2, a3, a4, a5, a6] h3" and buff: "length buff = 512"
  shows "floppy_cmd_read_data io c hh r buff h0 =
    (Some \<lparr>st0 = a0, st1 = a1, st2 = a2, res_c = a3, res_h = a4, res_r = a5, res_n = a6\<rparr>, map snd (xs @ ys), h3)"
proof -
  have hb: "u8 (push_bit 2 hh OR DRIVE_NO) = 4 * hh + 1" using head by (auto simp: DRIVE_NO_def less_2_cases_iff u8_def)
  from cmd obtain g where g: "floppy_cmd_write_cmd io [70, 4 * hh + 1, c, hh, r, 2, r, 24] h0 = (0, g)"
      "floppy_cmd_fifo_write io 8 g = (0, h1)"
    by (rule command_chain[of io h0 "[70, 4 * hh + 1, c, hh, r, 2, r, 24]", unfolded append_Cons append_Nil])
  from data(1) obtain k where k: "chain (feeds_byte io) h1 xs k" "chain (feeds_byte io) k ys h2"
    by (auto simp: chain_append)
  have ne: "xs \<noteq> []" "ys \<noteq> []" using data(2,3) by auto
  have "half_read io 256 65535 h1 = (map snd xs, True, k)" "half_read io 256 65535 k = (map snd ys, True, h2)"
    using half_read_chain[OF k(1) ne(1) data(4)] half_read_chain[OF k(2) ne(2) data(5)] data(2,3) by simp_all
  then have sec: "floppy_cmd_sector_read io buff h1 = (map snd (xs @ ys), h2)"
    using data(2,3) buff by (simp add: floppy_cmd_sector_read_def)
  show ?thesis using g sec read_result_chain[OF result] unfolding floppy_cmd_read_data_def hb GAP_def by simp
qed

lemma write_data_ok:
  assumes cmd: "chain (takes_byte io) h0 [69, 4 * hh + 129, c, hh, r, 2, r, 24, 8] h1" and head: "hh < 2"
    and data: "chain (accepts_byte io) h1 (xs @ ys) h2" "length xs = 256" "length ys = 256"
      "sum_list (map fst xs) < 65535" "sum_list (map fst ys) < 65535"
    and result: "chain (gives_byte io) h2 [a0, a1, a2, a3, a4, a5, a6] h3"
  shows "floppy_cmd_write_data io c hh r (map snd (xs @ ys)) h0 =
    (Some \<lparr>st0 = a0, st1 = a1, st2 = a2, res_c = a3, res_h = a4, res_r = a5, res_n = a6\<rparr>, h3)"
proof -
  have hb: "u8 (push_bit 2 hh OR DRIVE_NO OR 128) = 4 * hh + 129" using head by (auto simp: DRIVE_NO_def less_2_cases_iff u8_def)
  from cmd obtain g where g: "floppy_cmd_write_cmd io [69, 4 * hh + 129, c, hh, r, 2, r, 24] h0 = (0, g)"
      "floppy_cmd_fifo_write io 8 g = (0, h1)"
    by (rule command_chain[of io h0 "[69, 4 * hh + 129, c, hh, r, 2, r, 24]", unfolded append_Cons append_Nil])
  from data(1) obtain k where k: "chain (accepts_byte io) h1 xs k" "chain (accepts_byte io) k ys h2"
    by (auto simp: chain_append)
  have ne: "xs \<noteq> []" "ys \<noteq> []" using data(2,3) by auto
  have "half_write io 256 65535 (map snd (xs @ ys)) h1 = (map snd ys, True, k)" "half_write io 256 65535 (map snd ys) k = ([], True, h2)"
    using half_write_chain[OF k(1) ne(1) data(4), of "map snd ys"] half_write_chain[OF k(2) ne(2) data(5), of "[]"] data(2,3) by simp_all
  then have sec: "floppy_cmd_sector_write io (map snd (xs @ ys)) h1 = h2" by (simp add: floppy_cmd_sector_write_def)
  show ?thesis using g sec read_result_chain[OF result] unfolding floppy_cmd_write_data_def hb GAP_def by simp
qed

text \<open>A reset that succeeds ends with no drive selected.\<close>

lemma floppy_cmd_reset_deselects:
  assumes "floppy_cmd_reset io warm h = Some (0, h')"
  shows "\<exists>g. h' = pout io DOR DOR_SELECT_NONE g"
  using assms by (auto simp: floppy_cmd_reset_def floppy_cmd_enable_def Let_def split: prod.splits if_splits bind_splits)

section \<open>Bounds\<close>

lemma half_read_length: "length (fst (half_read io c de h)) \<le> max c 1"
proof (induction io c de h rule: half_read.induct)
  case (1 io c de h)
  then show ?case by (subst half_read.simps) (fastforce split: prod.splits)
qed

lemma sector_read_bounds:
  assumes "length buff = 512"
  shows "length (fst (floppy_cmd_sector_read io buff h)) = 512"
proof -
  obtain ds ok h1 es b h2 where e: "half_read io 256 65535 h = (ds, ok, h1)" "half_read io 256 65535 h1 = (es, b, h2)"
    by (metis prod_cases3)
  then have "length ds \<le> 256" "length es \<le> 256"
    using half_read_length[of io 256 65535 h] half_read_length[of io 256 65535 h1] by simp_all
  then show ?thesis using assms e by (simp add: floppy_cmd_sector_read_def)
qed

lemma read_data_length:
  assumes "length buff = 512"
  shows "length (fst (snd (floppy_cmd_read_data io c hh r buff h))) = 512"
proof -
  obtain e h1 where 1: "floppy_cmd_write_cmd io [70, u8 (push_bit 2 hh OR DRIVE_NO), c, hh, r, 2, r, GAP] h = (e, h1)" by fastforce
  obtain e2 h2 where 2: "floppy_cmd_fifo_write io 8 h1 = (e2, h2)" by fastforce
  obtain b h3 where 3: "floppy_cmd_sector_read io buff h2 = (b, h3)" by fastforce
  obtain res h4 where 4: "floppy_cmd_read_result io h3 = (res, h4)" by fastforce
  have "floppy_cmd_read_data io c hh r buff h = (if e < 0 then (None, buff, h1) else if e2 < 0 then (None, buff, h2) else (res, b, h4))"
    unfolding floppy_cmd_read_data_def 1 Let_def prod.case 2 3 4 by (rule refl)
  moreover have "length b = 512" using sector_read_bounds[OF assms, of io h2] 3 by simp
  ultimately show ?thesis using assms by simp
qed

section \<open>Properties\<close>

text \<open> C26. Against a controller that takes the nine command bytes, feeds 512 bytes and gives seven result bytes,
  each after some polls, \<open>floppy_cmd_read_data\<close> sends exactly the read command of the sector,
  stores exactly these 512 bytes, and returns exactly this result. \<close>

theorem floppy_cmd_read_data_conforms:
  assumes "chain (takes_byte io) h0 [70, 4 * hh + 1, c, hh, r, 2, r, 24, 8] h1" and "hh < 2"
    and "chain (feeds_byte io) h1 (xs @ ys) h2" and "length xs = 256" and "length ys = 256"
    and "sum_list (map fst xs) < 65535" and "sum_list (map fst ys) < 65535"
    and "chain (gives_byte io) h2 [a0, a1, a2, a3, a4, a5, a6] h3" and "length buff = 512"
  shows "floppy_cmd_read_data io c hh r buff h0 =
    (Some \<lparr>st0 = a0, st1 = a1, st2 = a2, res_c = a3, res_h = a4, res_r = a5, res_n = a6\<rparr>, map snd (xs @ ys), h3)"
  by (rule read_data_ok[OF assms])

text \<open>Whatever the controller does, \<open>floppy_cmd_read_data\<close> stays inside the sector buffer. \<close>

theorem floppy_cmd_read_data_bounds:
  assumes "length buff = 512"
  shows "length (fst (snd (floppy_cmd_read_data io c hh r buff h))) = 512"
  by (rule read_data_length[OF assms])

text \<open>A controller that counts the bytes it has handed over.\<close>

definition demo_io :: "nat ioports" where
  "demo_io = \<lparr>pin = (\<lambda>a n. if a = MSR then ((if n < 9 then 128 else if n < 521 then 224 else 192), n)
       else (n mod 256, Suc n)),
     pout = (\<lambda>a d n. Suc n)\<rparr>"

lemma demo_io_simps [simp]:
  "pin demo_io MSR n = ((if n < 9 then 128 else if n < 521 then 224 else 192), n)"
  "pin demo_io FIFO n = (n mod 256, Suc n)" "pout demo_io a d n = Suc n"
  by (simp_all add: demo_io_def MSR_def FIFO_def)

lemma demo_takes: "n < 9 \<Longrightarrow> takes_byte demo_io n d (Suc n)"
  unfolding takes_byte_def by (rule exI[of _ 0]) (simp add: and.commute)

lemma demo_gives: "521 \<le> n \<Longrightarrow> gives_byte demo_io n (n mod 256) (Suc n)"
  unfolding gives_byte_def by (rule exI[of _ 0]) simp

lemma demo_takes_all: "n + length ds \<le> 9 \<Longrightarrow> chain (takes_byte demo_io) n ds (n + length ds)"
proof (induction ds arbitrary: n)
  case Nil
  then show ?case by simp
next
  case (Cons d ds)
  then have "chain (takes_byte demo_io) (Suc n) ds (Suc n + length ds)" by (intro Cons.IH) simp
  moreover have "takes_byte demo_io n d (Suc n)" by (rule demo_takes) (use Cons.prems in simp)
  ultimately show ?case by auto
qed

lemma demo_gives_all: "521 \<le> n \<Longrightarrow> chain (gives_byte demo_io) n (map (\<lambda>i. (n + i) mod 256) [0 ..< k]) (n + k)"
  using demo_gives by (induction k) (auto simp: chain_append)

lemma demo_feeds:
  "9 \<le> n \<Longrightarrow> n + k \<le> 521 \<Longrightarrow> chain (feeds_byte demo_io) n (map (\<lambda>i. (0, (n + i) mod 256)) [0 ..< k]) (n + k)"
proof (induction k)
  case 0
  then show ?case by simp
next
  case (Suc k)
  have "bit (224 :: nat) 5" "bit (224 :: nat) 7" by (simp_all add: bit_iff_odd)
  then show ?case using Suc by (auto simp: chain_append)
qed

theorem floppy_cmd_read_data_conforms_witness:
  "fst (floppy_cmd_read_data demo_io 3 1 5 (replicate 512 0) 0) =
    Some \<lparr>st0 = 9, st1 = 10, st2 = 11, res_c = 12, res_h = 13, res_r = 14, res_n = 15\<rparr>"
proof -
  have len: "0 + length [70, 4 * 1 + 1, 3, 1, 5, 2, 5, 24, 8 :: nat] = 9" by simp
  have 1: "chain (takes_byte demo_io) 0 [70, 4 * 1 + 1, 3, 1, 5, 2, 5, 24, 8] 9"
    by (rule demo_takes_all[of 0 "[70, 4 * 1 + 1, 3, 1, 5, 2, 5, 24, 8]", unfolded len, OF order_refl])
  have 2: "chain (feeds_byte demo_io) 9 (map (\<lambda>i. (0, (9 + i) mod 256)) [0 ..< 256] @
      map (\<lambda>i. (0, (265 + i) mod 256)) [0 ..< 256]) 521"
    using demo_feeds[of 9 256] demo_feeds[of 265 256] by (auto simp: chain_append)
  have 3: "chain (gives_byte demo_io) 521 [9, 10, 11, 12, 13, 14, 15] 528"
    using demo_gives_all[of 521 7] by (simp add: upt_rec del: chain.simps)
  have "sum_list (map (fst \<circ> (\<lambda>i. (0 :: nat, f i :: nat))) xs) = 0" for f and xs :: "nat list" by (induction xs) auto
  with floppy_cmd_read_data_conforms[OF 1 _ 2 _ _ _ _ 3, of "replicate 512 0"] show ?thesis by (simp del: upt.simps)
qed

theorem floppy_cmd_read_data_bounds_witness:
  "length (fst (snd (floppy_cmd_read_data demo_io 3 1 5 (replicate 512 0) 300))) = 512"
  by (rule floppy_cmd_read_data_bounds) simp

end
