(* ===== verification/Floppy.thy ===== *)
theory Floppy
  imports FloppyCmd
begin

text \<open>
  The floppy disk: retries and geometry (\<open>driver/floppy.c\<close>) over the controller commands, and the
  block device with its cache of one sector (\<open>kernel/dev/floppy.c\<close>).

  \<open>'h fdc\<close> collects the controller commands the driver calls; \<open>fdc_of io\<close> are those of
  \<open>FloppyCmd\<close>, and all properties are about them. \<open>controller_ok\<close> states what the controller and the
  drive do at the I/O ports: it is the only hypothesis on the hardware.
  The locale \<open>sector_dev\<close> is the interface between the two files: reading and writing whole
  sectors. The locale \<open>blk_dev\<close> is the interface between the block device and the file system.
\<close>

section \<open>The driver\<close>

record 'h fdc =
  cmd_enable :: "int \<Rightarrow> 'h \<Rightarrow> 'h"
  cmd_eject_status :: "'h \<Rightarrow> (int \<times> 'h) option"
  cmd_read_data :: "nat \<Rightarrow> nat \<Rightarrow> nat \<Rightarrow> nat list \<Rightarrow> 'h \<Rightarrow> floppy_cmd_result option \<times> nat list \<times> 'h"
  cmd_write_data :: "nat \<Rightarrow> nat \<Rightarrow> nat \<Rightarrow> nat list \<Rightarrow> 'h \<Rightarrow> floppy_cmd_result option \<times> 'h"
  cmd_reset :: "bool \<Rightarrow> 'h \<Rightarrow> (int \<times> 'h) option"

definition fdc_of :: "'h ioports \<Rightarrow> 'h fdc" where
  "fdc_of io = \<lparr>cmd_enable = floppy_cmd_enable io, cmd_eject_status = floppy_cmd_eject_status io,
     cmd_read_data = floppy_cmd_read_data io, cmd_write_data = floppy_cmd_write_data io,
     cmd_reset = floppy_cmd_reset io\<rparr>"

definition FLOPPY_IOERR :: int where "FLOPPY_IOERR = -1"
definition FLOPPY_DISK_CHANGE :: int where "FLOPPY_DISK_CHANGE = -2"
definition FLOPPY_NO_MEDIA :: int where "FLOPPY_NO_MEDIA = -3"

record 'h drive =
  media_enabled :: bool
  hw :: 'h

definition floppy_lba2cyl :: "nat \<Rightarrow> nat" where "floppy_lba2cyl lba = u8 (lba div (2 * 18))"
definition floppy_lba2head :: "nat \<Rightarrow> nat" where "floppy_lba2head lba = u8 ((lba mod (2 * 18)) div 18)"
definition floppy_lba2sector :: "nat \<Rightarrow> nat" where "floppy_lba2sector lba = u8 ((lba mod (2 * 18)) mod 18 + 1)"

definition floppy_access :: "'h fdc \<Rightarrow> int \<Rightarrow> 'h drive \<Rightarrow> 'h drive" where
  "floppy_access f enable d = d\<lparr>hw := cmd_enable f enable (hw d), media_enabled := (enable \<noteq> 0)\<rparr>"

text \<open>The result a successful transfer has: abnormal termination and end of track.\<close>

definition xfer_ok :: "floppy_cmd_result option \<Rightarrow> bool" where
  "xfer_ok res = (case res of None \<Rightarrow> False | Some r \<Rightarrow> st0 r AND 240 = 64 \<and> st1 r = 128)"

text \<open>The inner retry loops, and the loop that resets the controller.\<close>

fun read_retry :: "'h fdc \<Rightarrow> nat \<Rightarrow> nat \<Rightarrow> nat \<Rightarrow> nat \<Rightarrow> nat list \<Rightarrow> 'h \<Rightarrow> bool \<times> nat list \<times> 'h" where
  "read_retry f 0 c h r buff s = (False, buff, s)"
| "read_retry f (Suc retry) c h r buff s = (let (res, buff', s') = cmd_read_data f c h r buff s in
     if xfer_ok res then (True, buff', s') else read_retry f retry c h r buff' s')"

fun write_retry :: "'h fdc \<Rightarrow> nat \<Rightarrow> nat \<Rightarrow> nat \<Rightarrow> nat \<Rightarrow> nat list \<Rightarrow> 'h \<Rightarrow> bool \<times> 'h" where
  "write_retry f 0 c h r buff s = (False, s)"
| "write_retry f (Suc retry) c h r buff s = (let (res, s') = cmd_write_data f c h r buff s in
     if xfer_ok res then (True, s') else write_retry f retry c h r buff s')"

fun reset_retry :: "'h fdc \<Rightarrow> nat \<Rightarrow> 'h \<Rightarrow> (bool \<times> 'h) option" where
  "reset_retry f 0 s = Some (False, s)"
| "reset_retry f (Suc n) s = do {
     (e, s') \<leftarrow> cmd_reset f True s;
     (if e = 0 then Some (True, s') else reset_retry f n s') }"

fun read_hard :: "'h fdc \<Rightarrow> nat \<Rightarrow> nat \<Rightarrow> nat \<Rightarrow> nat \<Rightarrow> nat list \<Rightarrow> 'h \<Rightarrow> (int \<times> nat list \<times> 'h) option" where
  "read_hard f 0 c h r buff s = Some (FLOPPY_IOERR, buff, s)"
| "read_hard f (Suc hard) c h r buff s = (let (ok, buff1, s1) = read_retry f 3 c h r buff s in
     if ok then Some (0, buff1, s1)
     else do {
       (eject, s2) \<leftarrow> cmd_eject_status f s1;
       (if eject \<noteq> FLOPPY_CMD_NO_CHANGE then Some (eject, buff1, s2)
        else do {
          (rst, s3) \<leftarrow> reset_retry f 3 s2;
          (if \<not> rst then Some (FLOPPY_IOERR, buff1, s3) else read_hard f hard c h r buff1 s3) }) })"

fun write_hard :: "'h fdc \<Rightarrow> nat \<Rightarrow> nat \<Rightarrow> nat \<Rightarrow> nat \<Rightarrow> nat list \<Rightarrow> 'h \<Rightarrow> (int \<times> 'h) option" where
  "write_hard f 0 c h r buff s = Some (FLOPPY_IOERR, s)"
| "write_hard f (Suc hard) c h r buff s = (let (ok, s1) = write_retry f 3 c h r buff s in
     if ok then Some (0, s1)
     else do {
       (eject, s2) \<leftarrow> cmd_eject_status f s1;
       (if eject \<noteq> FLOPPY_CMD_NO_CHANGE then Some (eject, s2)
        else do {
          (rst, s3) \<leftarrow> reset_retry f 3 s2;
          (if \<not> rst then Some (FLOPPY_IOERR, s3) else write_hard f hard c h r buff s3) }) })"

definition drive_start :: "'h fdc \<Rightarrow> 'h drive \<Rightarrow> 'h drive" where
  "drive_start f d = (if \<not> media_enabled d then floppy_access f 1 d else d)"

definition floppy_read_sector :: "'h fdc \<Rightarrow> nat \<Rightarrow> nat list \<Rightarrow> 'h drive \<Rightarrow> (int \<times> nat list \<times> 'h drive) option" where
  "floppy_read_sector f lba buff d0 = do {
     let d = drive_start f d0;
     (eject, s) \<leftarrow> cmd_eject_status f (hw d);
     (if eject \<noteq> FLOPPY_CMD_NO_CHANGE then Some (eject, buff, d\<lparr>hw := s\<rparr>)
      else do {
        (ret, buff', s') \<leftarrow> read_hard f 3 (floppy_lba2cyl lba) (floppy_lba2head lba) (floppy_lba2sector lba) buff s;
        Some (ret, buff', d\<lparr>hw := s'\<rparr>) }) }"

definition floppy_write_sector :: "'h fdc \<Rightarrow> nat \<Rightarrow> nat list \<Rightarrow> 'h drive \<Rightarrow> (int \<times> 'h drive) option" where
  "floppy_write_sector f lba buff d0 = do {
     let d = drive_start f d0;
     (eject, s) \<leftarrow> cmd_eject_status f (hw d);
     (if eject \<noteq> FLOPPY_CMD_NO_CHANGE then Some (eject, d\<lparr>hw := s\<rparr>)
      else do {
        (ret, s') \<leftarrow> write_hard f 3 (floppy_lba2cyl lba) (floppy_lba2head lba) (floppy_lba2sector lba) buff s;
        Some (ret, d\<lparr>hw := s'\<rparr>) }) }"

fun init_retry :: "'h fdc \<Rightarrow> nat \<Rightarrow> 'h \<Rightarrow> (int \<times> 'h) option" where
  "init_retry f 0 s = Some (-1, s)"
| "init_retry f (Suc n) s = do { (e, s') \<leftarrow> cmd_reset f False s; (if e = 0 then Some (0, s') else init_retry f n s') }"

definition floppy_init :: "'h fdc \<Rightarrow> 'h drive \<Rightarrow> (int \<times> 'h drive) option" where
  "floppy_init f d = do { (e, s) \<leftarrow> init_retry f 3 (hw d); Some (e, d\<lparr>hw := s\<rparr>) }"

section \<open>The block device\<close>

definition SECTOR_SIZE :: nat where "SECTOR_SIZE = 512"
definition BLK_SIZE :: nat where "BLK_SIZE = 1474560"

record 's blk =
  cache_sector :: "nat list"
  cache_sno :: nat
  dev :: 's

text \<open>The sector operations of the driver, as the block device calls them.\<close>

type_synonym 's sread = "nat \<Rightarrow> nat list \<Rightarrow> 's \<Rightarrow> (int \<times> nat list \<times> 's) option"
type_synonym 's swrite = "nat \<Rightarrow> nat list \<Rightarrow> 's \<Rightarrow> (int \<times> 's) option"

definition offs2lba :: "nat \<Rightarrow> nat" where "offs2lba offs = u16 (offs div SECTOR_SIZE)"

text \<open>When the read fails the cache keeps its number, with whatever the driver left in the buffer.\<close>

definition update_cache :: "'s sread \<Rightarrow> nat \<Rightarrow> 's blk \<Rightarrow> (int \<times> 's blk) option" where
  "update_cache rd sector b =
     (if cache_sno b \<noteq> sector then do {
        (ret, buff, s) \<leftarrow> rd sector (cache_sector b) (dev b);
        (if ret < 0 then Some (- EIO, b\<lparr>cache_sector := buff, dev := s\<rparr>)
         else Some (0, b\<lparr>cache_sector := buff, dev := s, cache_sno := sector\<rparr>)) }
      else Some (0, b))"

text \<open>The part of a request that lies in the sector of \<open>offs\<close>, with \<open>left\<close> bytes to go.\<close>

definition chunk_at :: "nat \<Rightarrow> nat \<Rightarrow> nat" where
  "chunk_at offs left = min (SECTOR_SIZE - offs mod SECTOR_SIZE) left"

text \<open>The loops; \<open>left\<close> is \<open>bufflen - len\<close>. The bytes of the result are those stored in the buffer.\<close>

function read_chunks :: "'s sread \<Rightarrow> nat \<Rightarrow> nat \<Rightarrow> 's blk \<Rightarrow> (int \<times> nat list \<times> 's blk) option" where
  "read_chunks rd offs left b =
     (if left = 0 then Some (0, [], b)
      else do {
        (e, b1) \<leftarrow> update_cache rd (offs2lba offs) b;
        (if e < 0 then Some (- EIO, [], b1)
         else do {
           let chunk = chunk_at offs left;
           let bytes = take chunk (drop (offs mod SECTOR_SIZE) (cache_sector b1));
           (e2, rest, b2) \<leftarrow> read_chunks rd (offs + chunk) (left - chunk) b1;
           Some (e2, bytes @ rest, b2) }) })"
  by pat_completeness auto
termination
  by (relation "measure (\<lambda>(rd, offs, left, b). left)") (auto simp: chunk_at_def SECTOR_SIZE_def)

declare read_chunks.simps [simp del]

text \<open>\<open>bytes\<close> is the rest of the caller's buffer.\<close>

function write_chunks :: "'s sread \<Rightarrow> 's swrite \<Rightarrow> nat \<Rightarrow> nat list \<Rightarrow> nat \<Rightarrow> 's blk \<Rightarrow> (int \<times> 's blk) option" where
  "write_chunks rd wr offs bytes left b =
     (if left = 0 then Some (0, b)
      else do {
        (e, b1) \<leftarrow> update_cache rd (offs2lba offs) b;
        (if e < 0 then Some (- EIO, b1)
         else do {
           let chunk = chunk_at offs left;
           let pos = offs mod SECTOR_SIZE;
           let sec = take pos (cache_sector b1) @ take chunk bytes @ drop (pos + chunk) (cache_sector b1);
           (e2, s) \<leftarrow> wr (offs2lba offs) sec (dev b1);
           let b2 = b1\<lparr>cache_sector := sec, dev := s\<rparr>;
           (if e2 < 0 then Some (- EIO, b2)
            else write_chunks rd wr (offs + chunk) (drop chunk bytes) (left - chunk) b2) }) })"
  by pat_completeness auto
termination
  by (relation "measure (\<lambda>(rd, wr, offs, bytes, left, b). left)") (auto simp: chunk_at_def SECTOR_SIZE_def)

declare write_chunks.simps [simp del]

text \<open>
  \<open>offs\<close> is a \<open>long\<close> that the file systems never let be negative, the result is an \<open>int\<close> of 16 bits.
\<close>

definition clip_len :: "nat \<Rightarrow> nat \<Rightarrow> nat" where
  "clip_len offs bufflen = (if offs + bufflen \<ge> BLK_SIZE then u16 (BLK_SIZE - offs) else bufflen)"

definition blk_floppy_read :: "'s sread \<Rightarrow> nat \<Rightarrow> nat \<Rightarrow> 's blk \<Rightarrow> (int \<times> nat list \<times> 's blk) option" where
  "blk_floppy_read rd offs bufflen b =
     (if offs \<ge> BLK_SIZE then Some (0, [], b)
      else do {
        (e, bytes, b') \<leftarrow> read_chunks rd offs (clip_len offs bufflen) b;
        Some (if e < 0 then e else s16 (int (clip_len offs bufflen)), bytes, b') })"

definition blk_floppy_write :: "'s sread \<Rightarrow> 's swrite \<Rightarrow> nat \<Rightarrow> nat list \<Rightarrow> 's blk \<Rightarrow> (int \<times> 's blk) option" where
  "blk_floppy_write rd wr offs bytes b =
     (if offs \<ge> BLK_SIZE then Some (0, b)
      else do {
        (e, b') \<leftarrow> write_chunks rd wr offs bytes (clip_len offs (length bytes)) b;
        Some (if e < 0 then e else s16 (int (clip_len offs (length bytes))), b') })"

definition blk_floppy_init :: "('s \<Rightarrow> (int \<times> 's) option) \<Rightarrow> 's blk \<Rightarrow> (int \<times> 's blk) option" where
  "blk_floppy_init ini b = do { (e, s) \<leftarrow> ini (dev b); Some (e, b\<lparr>cache_sno := 65535, dev := s\<rparr>) }"

section \<open>The interface between block device and file system\<close>

text \<open>
  \<open>img d offs\<close> is the byte at an offset of the medium. A healthy device (\<open>ok\<close>) reads and writes
  slices of it.
\<close>

locale blk_dev =
  fixes cread :: "nat \<Rightarrow> nat \<Rightarrow> 'd \<Rightarrow> (int \<times> nat list \<times> 'd) option"
    and cwrite :: "nat \<Rightarrow> nat list \<Rightarrow> 'd \<Rightarrow> (int \<times> 'd) option"
    and img :: "'d \<Rightarrow> nat \<Rightarrow> nat" and ok :: "'d \<Rightarrow> bool"
  assumes read_ok: "ok d \<Longrightarrow> offs + n \<le> BLK_SIZE \<Longrightarrow> offs < BLK_SIZE \<Longrightarrow> n < 32768 \<Longrightarrow>
      \<exists>d'. cread offs n d = Some (int n, map (img d) [offs ..< offs + n], d') \<and> ok d' \<and>
        (\<forall>x < BLK_SIZE. img d' x = img d x)"
    and write_ok: "ok d \<Longrightarrow> offs + length bs \<le> BLK_SIZE \<Longrightarrow> offs < BLK_SIZE \<Longrightarrow> length bs < 32768 \<Longrightarrow>
      \<exists>d'. cwrite offs bs d = Some (int (length bs), d') \<and> ok d' \<and>
        (\<forall>x < BLK_SIZE. img d' x = (if offs \<le> x \<and> x < offs + length bs then bs ! (x - offs) else img d x))"
begin

lemma read_after_write:
  assumes "ok d" and "offs + length bs \<le> BLK_SIZE" and "offs < BLK_SIZE" and "length bs < 32768"
  shows "\<exists>d' d''. cwrite offs bs d = Some (int (length bs), d') \<and>
    cread offs (length bs) d' = Some (int (length bs), bs, d'')"
proof -
  from write_ok[OF assms] obtain d' where d': "cwrite offs bs d = Some (int (length bs), d')" "ok d'"
      "\<forall>x < BLK_SIZE. img d' x = (if offs \<le> x \<and> x < offs + length bs then bs ! (x - offs) else img d x)" by blast
  have "map (img d') [offs ..< offs + length bs] = bs"
    by (rule nth_equalityI) (use d'(3) assms(2) in auto)
  with read_ok[OF d'(2) assms(2,3,4)] d'(1) show ?thesis by auto
qed

end

section \<open>The interface between driver and block device\<close>

definition SECTORS :: nat where "SECTORS = 2880"

text \<open>The cache agrees with the medium; \<open>blk_img\<close> is the byte of the device at an offset.\<close>

definition cached :: "('s \<Rightarrow> nat \<Rightarrow> nat list) \<Rightarrow> ('s \<Rightarrow> bool) \<Rightarrow> 's blk \<Rightarrow> bool" where
  "cached sect good b \<longleftrightarrow> good (dev b) \<and> length (cache_sector b) = SECTOR_SIZE \<and>
     (cache_sno b = 65535 \<or> cache_sno b < SECTORS \<and> cache_sector b = sect (dev b) (cache_sno b))"

definition blk_img :: "('s \<Rightarrow> nat \<Rightarrow> nat list) \<Rightarrow> 's blk \<Rightarrow> nat \<Rightarrow> nat" where
  "blk_img sect b x = sect (dev b) (x div SECTOR_SIZE) ! (x mod SECTOR_SIZE)"

text \<open>\<open>sect s lba\<close> is the contents of a sector.\<close>

locale sector_dev =
  fixes rd :: "'s sread" and wr :: "'s swrite" and sect :: "'s \<Rightarrow> nat \<Rightarrow> nat list" and good :: "'s \<Rightarrow> bool"
  assumes sect_length: "good s \<Longrightarrow> lba < SECTORS \<Longrightarrow> length (sect s lba) = SECTOR_SIZE"
    and rd_ok: "good s \<Longrightarrow> lba < SECTORS \<Longrightarrow> length buff = SECTOR_SIZE \<Longrightarrow>
      \<exists>s'. rd lba buff s = Some (0, sect s lba, s') \<and> good s' \<and> (\<forall>k < SECTORS. sect s' k = sect s k)"
    and wr_ok: "good s \<Longrightarrow> lba < SECTORS \<Longrightarrow> length buff = SECTOR_SIZE \<Longrightarrow>
      \<exists>s'. wr lba buff s = Some (0, s') \<and> good s' \<and> (\<forall>k < SECTORS. sect s' k = (if k = lba then buff else sect s k))"
begin

lemma update_cache_ok:
  assumes "cached sect good b" and "lba < SECTORS"
  shows "\<exists>b'. update_cache rd lba b = Some (0, b') \<and> cached sect good b' \<and> cache_sno b' = lba \<and>
    cache_sector b' = sect (dev b) lba \<and> (\<forall>k < SECTORS. sect (dev b') k = sect (dev b) k)"
proof (cases "cache_sno b = lba")
  case True
  then show ?thesis using assms by (auto simp: update_cache_def cached_def SECTORS_def)
next
  case False
  from assms rd_ok[of "dev b" lba "cache_sector b"] obtain s' where s': "rd lba (cache_sector b) (dev b) = Some (0, sect (dev b) lba, s')"
      "good s'" "\<forall>k < SECTORS. sect s' k = sect (dev b) k" by (auto simp: cached_def)
  moreover have "length (sect (dev b) lba) = SECTOR_SIZE" using assms sect_length by (simp add: cached_def)
  ultimately show ?thesis using False assms(2) by (auto simp: update_cache_def cached_def)
qed

lemma lba_ok: "offs < BLK_SIZE \<Longrightarrow> offs2lba offs = offs div SECTOR_SIZE \<and> offs div SECTOR_SIZE < SECTORS"
  by (auto simp: offs2lba_def BLK_SIZE_def SECTOR_SIZE_def SECTORS_def u16_def)

lemma img_cong: "(\<forall>k < SECTORS. sect (dev b') k = sect (dev b) k) \<Longrightarrow> x < BLK_SIZE \<Longrightarrow> blk_img sect b' x = blk_img sect b x"
  using lba_ok[of x] by (simp add: blk_img_def)

lemma in_chunk:
  assumes "i < chunk_at offs n"
  shows "(offs + i) div SECTOR_SIZE = offs div SECTOR_SIZE" and "(offs + i) mod SECTOR_SIZE = offs mod SECTOR_SIZE + i"
proof -
  have b: "offs mod SECTOR_SIZE + i < SECTOR_SIZE" using assms by (auto simp: chunk_at_def)
  have e: "offs + i = (offs mod SECTOR_SIZE + i) + SECTOR_SIZE * (offs div SECTOR_SIZE)" by simp
  show "(offs + i) mod SECTOR_SIZE = offs mod SECTOR_SIZE + i"
    by (subst e, subst mod_mult_self2) (use b in simp)
  show "(offs + i) div SECTOR_SIZE = offs div SECTOR_SIZE"
    by (subst e, subst div_mult_self2) (use b in \<open>auto simp: SECTOR_SIZE_def\<close>)
qed

lemma chunk_pos: "n \<noteq> 0 \<Longrightarrow> 0 < chunk_at offs n" "chunk_at offs n \<le> n" "offs mod SECTOR_SIZE + chunk_at offs n \<le> SECTOR_SIZE"
proof -
  have "offs mod SECTOR_SIZE < SECTOR_SIZE" by (simp add: SECTOR_SIZE_def)
  then show "n \<noteq> 0 \<Longrightarrow> 0 < chunk_at offs n" "chunk_at offs n \<le> n" "offs mod SECTOR_SIZE + chunk_at offs n \<le> SECTOR_SIZE"
    by (auto simp: chunk_at_def)
qed

lemma read_chunks_ok:
  assumes "cached sect good b" and "offs + n \<le> BLK_SIZE"
  shows "\<exists>b'. read_chunks rd offs n b = Some (0, map (blk_img sect b) [offs ..< offs + n], b') \<and> cached sect good b' \<and>
    (\<forall>k < SECTORS. sect (dev b') k = sect (dev b) k)"
  using assms
proof (induction n arbitrary: offs b rule: less_induct)
  case (less n)
  show ?case
  proof (cases "n = 0")
    case True
    then show ?thesis using less.prems by (subst read_chunks.simps) simp
  next
    case False
    define chunk where "chunk = chunk_at offs n"
    note c = chunk_pos(1)[of n offs, folded chunk_def] chunk_pos(2,3)[of offs n, folded chunk_def]
    have lba: "offs2lba offs = offs div SECTOR_SIZE" "offs div SECTOR_SIZE < SECTORS"
      using lba_ok[of offs] less.prems(2) False by simp_all
    from update_cache_ok[OF less.prems(1) lba(2)] obtain b1 where b1:
        "update_cache rd (offs2lba offs) b = Some (0, b1)" "cached sect good b1"
        "cache_sector b1 = sect (dev b) (offs div SECTOR_SIZE)" "\<forall>k < SECTORS. sect (dev b1) k = sect (dev b) k"
      unfolding lba(1) by blast
    have "n - chunk < n" "offs + chunk + (n - chunk) \<le> BLK_SIZE" using c False less.prems(2) by simp_all
    from less.IH[OF this(1) b1(2) this(2)] obtain b' where b':
        "read_chunks rd (offs + chunk) (n - chunk) b1 =
           Some (0, map (blk_img sect b1) [offs + chunk ..< offs + n], b')" "cached sect good b'"
        "\<forall>k < SECTORS. sect (dev b') k = sect (dev b1) k" using c(2) by auto
    have "length (sect (dev b) (offs div SECTOR_SIZE)) = SECTOR_SIZE"
      using sect_length lba(2) less.prems(1) by (simp add: cached_def)
    then have "take chunk (drop (offs mod SECTOR_SIZE) (cache_sector b1)) = map (blk_img sect b) [offs ..< offs + chunk]"
      unfolding b1(3) using c(3) in_chunk[of _ offs n, folded chunk_def]
      by (intro nth_equalityI) (auto simp: blk_img_def)
    moreover have "map (blk_img sect b1) [offs + chunk ..< offs + n] = map (blk_img sect b) [offs + chunk ..< offs + n]"
      using img_cong[OF b1(4)] less.prems(2) by auto
    moreover have "[offs ..< offs + n] = [offs ..< offs + chunk] @ [offs + chunk ..< offs + n]"
      using c(2) by (metis add.commute le_add_diff_inverse2 add.assoc upt_add_eq_append le_add1)
    ultimately have "read_chunks rd offs n b = Some (0, map (blk_img sect b) [offs ..< offs + n], b')"
      using False b1(1) b'(1) unfolding chunk_def by (subst read_chunks.simps) (simp add: Let_def)
    then show ?thesis using b'(2,3) b1(4) by auto
  qed
qed

lemma write_chunks_ok:
  assumes "cached sect good b" and "offs + length bs \<le> BLK_SIZE"
  shows "\<exists>b'. write_chunks rd wr offs bs (length bs) b = Some (0, b') \<and> cached sect good b' \<and>
    (\<forall>x < BLK_SIZE. blk_img sect b' x = (if offs \<le> x \<and> x < offs + length bs then bs ! (x - offs) else blk_img sect b x))"
  using assms
proof (induction "length bs" arbitrary: offs b bs rule: less_induct)
  case less
  define n where "n = length bs"
  show ?case
  proof (cases "n = 0")
    case True
    then show ?thesis using less.prems by (subst write_chunks.simps) (auto simp: n_def)
  next
    case False
    define chunk where "chunk = chunk_at offs n"
    note c = chunk_pos(1)[of n offs, folded chunk_def] chunk_pos(2,3)[of offs n, folded chunk_def]
    have "offs < BLK_SIZE" using less.prems(2) False unfolding n_def by linarith
    then have lba: "offs2lba offs = offs div SECTOR_SIZE" "offs div SECTOR_SIZE < SECTORS"
      using lba_ok by simp_all
    define l where "l = offs div SECTOR_SIZE"
    from update_cache_ok[OF less.prems(1) lba(2)] obtain b1 where b1:
        "update_cache rd (offs2lba offs) b = Some (0, b1)" "cached sect good b1" "cache_sno b1 = l"
        "cache_sector b1 = sect (dev b) l" "\<forall>k < SECTORS. sect (dev b1) k = sect (dev b) k"
      unfolding lba(1) l_def by blast
    define pos where "pos = offs mod SECTOR_SIZE"
    define sec where "sec = take pos (cache_sector b1) @ take chunk bs @ drop (pos + chunk) (cache_sector b1)"
    have len: "length (cache_sector b1) = SECTOR_SIZE" "length (take chunk bs) = chunk"
      using b1(2) c(2) by (simp_all add: cached_def n_def)
    then have sl: "length sec = SECTOR_SIZE" using c(3) by (simp add: sec_def pos_def)
    from wr_ok[of "dev b1" l sec] b1(2) lba(2) sl obtain s where s: "wr l sec (dev b1) = Some (0, s)" "good s"
        "\<forall>k < SECTORS. sect s k = (if k = l then sec else sect (dev b1) k)" by (auto simp: cached_def l_def)
    define b2 where "b2 = b1\<lparr>cache_sector := sec, dev := s\<rparr>"
    have c2: "cached sect good b2" using s b1(3) lba(2) sl by (simp add: cached_def b2_def l_def)
    have img2: "blk_img sect b2 x = (if offs \<le> x \<and> x < offs + chunk then bs ! (x - offs) else blk_img sect b x)" if x: "x < BLK_SIZE" for x
    proof (cases "x div SECTOR_SIZE = l")
      case False
      then have "\<not> (offs \<le> x \<and> x < offs + chunk)"
        using in_chunk(1)[of "x - offs" offs n] unfolding l_def chunk_def by (metis le_add_diff_inverse less_diff_conv2 add.commute)
      then show ?thesis using False s(3) b1(5) lba_ok[OF x] by (auto simp: blk_img_def b2_def)
    next
      case True
      define y where "y = x mod SECTOR_SIZE"
      have y: "y < SECTOR_SIZE" by (simp add: y_def SECTOR_SIZE_def)
      have xo: "x = l * SECTOR_SIZE + y" "offs = l * SECTOR_SIZE + pos"
        unfolding y_def pos_def by (simp_all only: True[symmetric] div_mult_mod_eq, simp_all add: True l_def)
      have "blk_img sect b2 x = sec ! y" using s(3) True lba(2) by (simp add: blk_img_def b2_def y_def l_def)
      moreover have "blk_img sect b x = cache_sector b1 ! y" using True by (simp add: blk_img_def b1(4) y_def)
      moreover have "sec ! y = (if pos \<le> y \<and> y < pos + chunk then bs ! (y - pos) else cache_sector b1 ! y)"
        using y c(2,3) len by (auto simp: sec_def nth_append min_def pos_def[symmetric] n_def)
      ultimately show ?thesis using xo by simp
    qed
    have "length (drop chunk bs) < length bs" using c(1) False by (simp add: n_def)
    moreover have "offs + chunk + length (drop chunk bs) \<le> BLK_SIZE" using less.prems(2) c(2) by (simp add: n_def)
    ultimately obtain b' where b': "write_chunks rd wr (offs + chunk) (drop chunk bs) (n - chunk) b2 = Some (0, b')" "cached sect good b'"
        "\<forall>x < BLK_SIZE. blk_img sect b' x = (if offs + chunk \<le> x \<and> x < offs + chunk + (n - chunk) then drop chunk bs ! (x - (offs + chunk)) else blk_img sect b2 x)"
      using less.hyps[OF _ c2] unfolding n_def by fastforce
    have "write_chunks rd wr offs bs n b = write_chunks rd wr (offs + chunk) (drop chunk bs) (n - chunk) b2"
      using False b1(1) s(1) lba(1) unfolding chunk_def b2_def sec_def pos_def l_def
      by (subst write_chunks.simps) (simp add: Let_def)
    moreover have "blk_img sect b' x = (if offs \<le> x \<and> x < offs + n then bs ! (x - offs) else blk_img sect b x)" if "x < BLK_SIZE" for x
      using b'(3)[rule_format, OF that] img2[OF that] c(2) by (auto simp: n_def)
    ultimately show ?thesis using b'(1,2) by (auto simp: n_def)
  qed
qed

lemma clip_ok: "offs + n \<le> BLK_SIZE \<Longrightarrow> n < 32768 \<Longrightarrow> clip_len offs n = n"
  by (cases "offs + n = BLK_SIZE") (auto simp: clip_len_def)

end

sublocale sector_dev \<subseteq> blk: blk_dev "blk_floppy_read rd" "blk_floppy_write rd wr" "blk_img sect" "cached sect good"
proof
  fix d offs n
  assume d: "cached sect good d" "offs + n \<le> BLK_SIZE" "offs < BLK_SIZE" "n < 32768"
  from read_chunks_ok[OF d(1,2)] obtain b' where b': "read_chunks rd offs n d = Some (0, map (blk_img sect d) [offs ..< offs + n], b')"
      "cached sect good b'" "\<forall>k < SECTORS. sect (dev b') k = sect (dev d) k" by blast
  then show "\<exists>d'. blk_floppy_read rd offs n d = Some (int n, map (blk_img sect d) [offs ..< offs + n], d') \<and> cached sect good d' \<and>
      (\<forall>x < BLK_SIZE. blk_img sect d' x = blk_img sect d x)"
    using clip_ok[OF d(2,4)] d(3,4) img_cong[OF b'(3)] by (simp add: blk_floppy_read_def)
next
  fix d offs and bs :: "nat list"
  assume d: "cached sect good d" "offs + length bs \<le> BLK_SIZE" "offs < BLK_SIZE" "length bs < 32768"
  from write_chunks_ok[OF d(1,2)] show "\<exists>d'. blk_floppy_write rd wr offs bs d = Some (int (length bs), d') \<and> cached sect good d' \<and>
      (\<forall>x < BLK_SIZE. blk_img sect d' x = (if offs \<le> x \<and> x < offs + length bs then bs ! (x - offs) else blk_img sect d x))"
    using clip_ok[OF d(2,4)] d(3,4) by (auto simp: blk_floppy_write_def)
qed

section \<open>A working drive\<close>

text \<open>
  What the 82077 controller and the disk are assumed to do at the I/O ports; nothing is assumed of
  the driver. \<open>medium s c h r\<close> are the bytes of a sector. In a state \<open>live s\<close> the drive is selected,
  its motor runs, no disk change is pending and the controller waits for a command: reading the DIR
  register shows that bit 7 is clear, and a read or a write command for a sector of the disk is
  taken byte by byte, followed by 512 bytes and seven result bytes, each after some polls. The
  transfer may fail: then the result says so, a read has left the medium alone, a write has spoilt
  at most its own sector, and one of the at most \<open>glitch s\<close> failures to come is used up.
\<close>

definition keeps :: "('h \<Rightarrow> nat \<Rightarrow> nat \<Rightarrow> nat \<Rightarrow> nat list) \<Rightarrow> ('h \<Rightarrow> bool) \<Rightarrow> ('h \<Rightarrow> nat) \<Rightarrow> 'h \<Rightarrow> 'h \<Rightarrow> bool" where
  "keeps medium live glitch s s' \<longleftrightarrow> live s' \<and> medium s' = medium s \<and> glitch s' \<le> glitch s"

definition done_result :: "nat list \<Rightarrow> bool" where
  "done_result rs \<longleftrightarrow> length rs = 7 \<and> rs ! 0 AND 240 = 64 \<and> rs ! 1 = 128"

definition waits_ok :: "(nat \<times> nat) list \<Rightarrow> bool" where
  "waits_ok xs \<longleftrightarrow> length xs = 256 \<and> sum_list (map fst xs) < 65535"

definition on_disk :: "nat \<Rightarrow> nat \<Rightarrow> nat \<Rightarrow> bool" where
  "on_disk c h r \<longleftrightarrow> c < 80 \<and> h < 2 \<and> 1 \<le> r \<and> r \<le> 18"

definition serves_read :: "'h ioports \<Rightarrow> ('h \<Rightarrow> nat \<Rightarrow> nat \<Rightarrow> nat \<Rightarrow> nat list) \<Rightarrow> ('h \<Rightarrow> bool) \<Rightarrow> ('h \<Rightarrow> nat) \<Rightarrow> 'h \<Rightarrow> nat \<Rightarrow> nat \<Rightarrow> nat \<Rightarrow> bool" where
  "serves_read io medium live glitch s c h r \<longleftrightarrow> (\<exists>s1 xs ys s2 rs s3.
     chain (takes_byte io) s [70, 4 * h + 1, c, h, r, 2, r, 24, 8] s1 \<and>
     chain (feeds_byte io) s1 (xs @ ys) s2 \<and> waits_ok xs \<and> waits_ok ys \<and>
     chain (gives_byte io) s2 rs s3 \<and> length rs = 7 \<and> live s3 \<and> medium s3 = medium s \<and>
     (if done_result rs then map snd (xs @ ys) = medium s c h r \<and> glitch s3 \<le> glitch s else glitch s3 < glitch s))"

definition serves_write :: "'h ioports \<Rightarrow> ('h \<Rightarrow> nat \<Rightarrow> nat \<Rightarrow> nat \<Rightarrow> nat list) \<Rightarrow> ('h \<Rightarrow> bool) \<Rightarrow> ('h \<Rightarrow> nat) \<Rightarrow> 'h \<Rightarrow> nat \<Rightarrow> nat \<Rightarrow> nat \<Rightarrow> nat list \<Rightarrow> bool" where
  "serves_write io medium live glitch s c h r bs \<longleftrightarrow> (\<exists>s1 xs ys s2 rs s3.
     chain (takes_byte io) s [69, 4 * h + 129, c, h, r, 2, r, 24, 8] s1 \<and>
     chain (accepts_byte io) s1 (xs @ ys) s2 \<and> waits_ok xs \<and> waits_ok ys \<and> map snd (xs @ ys) = bs \<and>
     chain (gives_byte io) s2 rs s3 \<and> length rs = 7 \<and> live s3 \<and>
     (\<forall>c' h' r'. (c', h', r') \<noteq> (c, h, r) \<longrightarrow> medium s3 c' h' r' = medium s c' h' r') \<and>
     (if done_result rs then medium s3 c h r = bs \<and> glitch s3 \<le> glitch s else glitch s3 < glitch s))"

definition controller_ok :: "'h ioports \<Rightarrow> ('h \<Rightarrow> nat \<Rightarrow> nat \<Rightarrow> nat \<Rightarrow> nat list) \<Rightarrow> ('h \<Rightarrow> bool) \<Rightarrow> ('h \<Rightarrow> nat) \<Rightarrow> bool" where
  "controller_ok io medium live glitch \<longleftrightarrow> (\<forall>s. live s \<longrightarrow>
     \<not> bit (fst (pin io DIR s)) 7 \<and> keeps medium live glitch s (snd (pin io DIR s)) \<and>
     (\<forall>c h r. on_disk c h r \<longrightarrow> length (medium s c h r) = SECTOR_SIZE \<and> serves_read io medium live glitch s c h r \<and>
       (\<forall>bs. length bs = SECTOR_SIZE \<longrightarrow> serves_write io medium live glitch s c h r bs)))"

lemma controller_okD:
  assumes "controller_ok io medium live glitch" and "live s"
  shows "\<not> bit (fst (pin io DIR s)) 7" and "keeps medium live glitch s (snd (pin io DIR s))"
    and "on_disk c h r \<Longrightarrow> length (medium s c h r) = SECTOR_SIZE" and "on_disk c h r \<Longrightarrow> serves_read io medium live glitch s c h r"
    and "on_disk c h r \<Longrightarrow> length bs = SECTOR_SIZE \<Longrightarrow> serves_write io medium live glitch s c h r bs"
  using assms(1)[unfolded controller_ok_def, rule_format, OF assms(2)] by blast+

lemma keeps_trans: "keeps m l g s s' \<Longrightarrow> keeps m l g s' s'' \<Longrightarrow> keeps m l g s s''"
  by (auto simp: keeps_def)

text \<open>What the commands of \<open>FloppyCmd\<close> do with such a controller.\<close>

lemma seven: "length (rs :: nat list) = 7 \<Longrightarrow> \<exists>a b c d e f g. rs = [a, b, c, d, e, f, g]"
  by (auto simp: length_Suc_conv eval_nat_numeral)

lemma eject_live:
  assumes "controller_ok io medium live glitch" and "live s"
  shows "\<exists>s'. cmd_eject_status (fdc_of io) s = Some (FLOPPY_CMD_NO_CHANGE, s') \<and> keeps medium live glitch s s'"
  using controller_okD(1,2)[OF assms] by (auto simp: fdc_of_def floppy_cmd_eject_status_def split: prod.splits)

lemma read_live:
  assumes "controller_ok io medium live glitch" and "live s" and "on_disk c h r" and len: "length buff = SECTOR_SIZE"
  shows "\<exists>res buff' s'. cmd_read_data (fdc_of io) c h r buff s = (res, buff', s') \<and> live s' \<and> medium s' = medium s \<and>
    length buff' = SECTOR_SIZE \<and> (if xfer_ok res then buff' = medium s c h r \<and> glitch s' \<le> glitch s else glitch s' < glitch s)"
proof -
  from controller_okD(4)[OF assms(1-3)] obtain s1 xs ys s2 rs s3 where a: "chain (takes_byte io) s [70, 4 * h + 1, c, h, r, 2, r, 24, 8] s1"
      "chain (feeds_byte io) s1 (xs @ ys) s2" "waits_ok xs" "waits_ok ys" "chain (gives_byte io) s2 rs s3" "length rs = 7" "live s3"
      "medium s3 = medium s"
      "if done_result rs then map snd (xs @ ys) = medium s c h r \<and> glitch s3 \<le> glitch s else glitch s3 < glitch s"
    unfolding serves_read_def by blast
  from seven[OF a(6)] obtain r0 r1 r2 r3 r4 r5 r6 where rs: "rs = [r0, r1, r2, r3, r4, r5, r6]" by blast
  have l: "h < 2" "length xs = 256" "length ys = 256" "sum_list (map fst xs) < 65535" "sum_list (map fst ys) < 65535" "length buff = 512"
    using assms(3) a(3,4) len by (simp_all add: on_disk_def waits_ok_def SECTOR_SIZE_def)
  have "cmd_read_data (fdc_of io) c h r buff s = (Some \<lparr>st0 = r0, st1 = r1, st2 = r2, res_c = r3, res_h = r4, res_r = r5, res_n = r6\<rparr>, map snd (xs @ ys), s3)"
    using read_data_ok[OF a(1) l(1) a(2) l(2-5) a(5)[unfolded rs] l(6)] by (simp add: fdc_of_def)
  moreover have "xfer_ok (Some \<lparr>st0 = r0, st1 = r1, st2 = r2, res_c = r3, res_h = r4, res_r = r5, res_n = r6\<rparr>) \<longleftrightarrow> done_result rs"
    by (simp add: xfer_ok_def done_result_def rs)
  moreover have "length (map snd (xs @ ys)) = SECTOR_SIZE" using l(2,3) by (simp add: SECTOR_SIZE_def)
  ultimately show ?thesis using a(7-9) by metis
qed

lemma write_live:
  assumes "controller_ok io medium live glitch" and "live s" and "on_disk c h r" and len: "length buff = SECTOR_SIZE"
  shows "\<exists>res s'. cmd_write_data (fdc_of io) c h r buff s = (res, s') \<and> live s' \<and>
    (\<forall>c' h' r'. (c', h', r') \<noteq> (c, h, r) \<longrightarrow> medium s' c' h' r' = medium s c' h' r') \<and>
    (if xfer_ok res then medium s' c h r = buff \<and> glitch s' \<le> glitch s else glitch s' < glitch s)"
proof -
  from controller_okD(5)[OF assms] obtain s1 xs ys s2 rs s3 where a: "chain (takes_byte io) s [69, 4 * h + 129, c, h, r, 2, r, 24, 8] s1"
      "chain (accepts_byte io) s1 (xs @ ys) s2" "waits_ok xs" "waits_ok ys" "map snd (xs @ ys) = buff"
      "chain (gives_byte io) s2 rs s3" "length rs = 7" "live s3"
      "\<forall>c' h' r'. (c', h', r') \<noteq> (c, h, r) \<longrightarrow> medium s3 c' h' r' = medium s c' h' r'"
      "if done_result rs then medium s3 c h r = buff \<and> glitch s3 \<le> glitch s else glitch s3 < glitch s"
    unfolding serves_write_def by blast
  from seven[OF a(7)] obtain r0 r1 r2 r3 r4 r5 r6 where rs: "rs = [r0, r1, r2, r3, r4, r5, r6]" by blast
  have l: "h < 2" "length xs = 256" "length ys = 256" "sum_list (map fst xs) < 65535" "sum_list (map fst ys) < 65535"
    using assms(3) a(3,4) by (simp_all add: on_disk_def waits_ok_def)
  have "cmd_write_data (fdc_of io) c h r buff s = (Some \<lparr>st0 = r0, st1 = r1, st2 = r2, res_c = r3, res_h = r4, res_r = r5, res_n = r6\<rparr>, s3)"
    using write_data_ok[OF a(1) l(1) a(2) l(2-5) a(6)[unfolded rs]] a(5) by (simp add: fdc_of_def)
  moreover have "xfer_ok (Some \<lparr>st0 = r0, st1 = r1, st2 = r2, res_c = r3, res_h = r4, res_r = r5, res_n = r6\<rparr>) \<longleftrightarrow> done_result rs"
    by (simp add: xfer_ok_def done_result_def rs)
  ultimately show ?thesis using a(8-10) by simp
qed

text \<open>The retry loops: with at most two failures to come no reset is needed.\<close>

lemma read_retry_ok:
  assumes c: "controller_ok io medium live glitch" and "live s" and d: "on_disk c h r" and "length buff = SECTOR_SIZE" and "glitch s < n"
  shows "\<exists>s'. read_retry (fdc_of io) n c h r buff s = (True, medium s c h r, s') \<and> keeps medium live glitch s s'"
  using assms(2,4,5)
proof (induction n arbitrary: buff s)
  case 0
  then show ?case by simp
next
  case (Suc n)
  from read_live[OF c Suc.prems(1) d Suc.prems(2)] obtain res b1 s1 where 1: "cmd_read_data (fdc_of io) c h r buff s = (res, b1, s1)"
      "live s1" "medium s1 = medium s" "length b1 = SECTOR_SIZE"
      "if xfer_ok res then b1 = medium s c h r \<and> glitch s1 \<le> glitch s else glitch s1 < glitch s" by blast
  show ?case
  proof (cases "xfer_ok res")
    case False
    then have "glitch s1 < n" using 1(5) Suc.prems(3) by simp
    from Suc.IH[OF 1(2,4) this] show ?thesis using False 1 by (auto simp: keeps_def)
  qed (use 1 in \<open>auto simp: keeps_def\<close>)
qed

text \<open>The media after a write: \<open>only\<close> says that no other sector changed.\<close>

definition only :: "('h \<Rightarrow> nat \<Rightarrow> nat \<Rightarrow> nat \<Rightarrow> nat list) \<Rightarrow> nat \<times> nat \<times> nat \<Rightarrow> 'h \<Rightarrow> 'h \<Rightarrow> bool" where
  "only medium a s s' \<longleftrightarrow> (\<forall>c h r. (c, h, r) \<noteq> a \<longrightarrow> medium s' c h r = medium s c h r)"

lemma write_retry_ok:
  assumes c: "controller_ok io medium live glitch" and "live s" and d: "on_disk c h r" and b: "length buff = SECTOR_SIZE" and "glitch s < n"
  shows "\<exists>s'. write_retry (fdc_of io) n c h r buff s = (True, s') \<and> live s' \<and> only medium (c, h, r) s s' \<and>
    medium s' c h r = buff \<and> glitch s' \<le> glitch s"
  using assms(2,5)
proof (induction n arbitrary: s)
  case 0
  then show ?case by simp
next
  case (Suc n)
  from write_live[OF c Suc.prems(1) d b] obtain res s1 where 1: "cmd_write_data (fdc_of io) c h r buff s = (res, s1)"
      "live s1" "only medium (c, h, r) s s1"
      "if xfer_ok res then medium s1 c h r = buff \<and> glitch s1 \<le> glitch s else glitch s1 < glitch s"
    unfolding only_def by blast
  show ?case
  proof (cases "xfer_ok res")
    case False
    then have g: "glitch s1 < n" "glitch s1 \<le> glitch s" using 1(4) Suc.prems(2) by simp_all
    from Suc.IH[OF 1(2) g(1)] obtain s2 where "write_retry (fdc_of io) n c h r buff s1 = (True, s2)" "live s2"
        "only medium (c, h, r) s1 s2" "medium s2 c h r = buff" "glitch s2 \<le> glitch s1" by blast
    then show ?thesis using False 1(1,3) g(2) by (auto simp: only_def)
  qed (use 1 in auto)
qed

definition drive_sect :: "('h \<Rightarrow> nat \<Rightarrow> nat \<Rightarrow> nat \<Rightarrow> nat list) \<Rightarrow> 'h drive \<Rightarrow> nat \<Rightarrow> nat list" where
  "drive_sect medium d lba = medium (hw d) (floppy_lba2cyl lba) (floppy_lba2head lba) (floppy_lba2sector lba)"

text \<open>The drive is live once it has been selected, if it was not.\<close>

definition drive_good :: "'h ioports \<Rightarrow> ('h \<Rightarrow> nat \<Rightarrow> nat \<Rightarrow> nat \<Rightarrow> nat list) \<Rightarrow> ('h \<Rightarrow> bool) \<Rightarrow> ('h \<Rightarrow> nat) \<Rightarrow> 'h drive \<Rightarrow> bool" where
  "drive_good io medium live glitch d \<longleftrightarrow> controller_ok io medium live glitch \<and>
     (let s = (if media_enabled d then hw d else pout io DOR 45 (hw d)) in live s \<and> medium s = medium (hw d) \<and> glitch s < 3)"

lemma drive_good_start:
  assumes "drive_good io medium live glitch d"
  shows "controller_ok io medium live glitch" and "media_enabled (drive_start (fdc_of io) d)" and "live (hw (drive_start (fdc_of io) d))"
    and "medium (hw (drive_start (fdc_of io) d)) = medium (hw d)" and "glitch (hw (drive_start (fdc_of io) d)) < 3"
  using assms by (auto simp: drive_good_def drive_start_def floppy_access_def fdc_of_def floppy_cmd_enable_def DRIVE_NO_def Let_def split: if_splits)

lemma drive_good_live:
  "controller_ok io medium live glitch \<Longrightarrow> media_enabled d \<Longrightarrow> live (hw d) \<Longrightarrow> glitch (hw d) < 3 \<Longrightarrow> drive_good io medium live glitch d"
  by (simp add: drive_good_def)

text \<open>The geometry: distinct sectors of the disk have distinct addresses.\<close>

lemma lba_geometry:
  assumes "lba < SECTORS"
  shows "floppy_lba2cyl lba < 80" and "floppy_lba2head lba < 2" and "1 \<le> floppy_lba2sector lba" and "floppy_lba2sector lba \<le> 18"
    and "lba = (floppy_lba2cyl lba * 2 + floppy_lba2head lba) * 18 + (floppy_lba2sector lba - 1)"
proof -
  have b: "lba div 36 < 80" "lba mod 36 div 18 < 2" "lba mod 36 mod 18 < 18"
    using assms by (auto simp: SECTORS_def)
  then have e: "floppy_lba2cyl lba = lba div 36" "floppy_lba2head lba = lba mod 36 div 18"
    "floppy_lba2sector lba = lba mod 36 mod 18 + 1"
    by (simp_all add: floppy_lba2cyl_def floppy_lba2head_def floppy_lba2sector_def u8_def)
  show "floppy_lba2cyl lba < 80" "floppy_lba2head lba < 2" "1 \<le> floppy_lba2sector lba" "floppy_lba2sector lba \<le> 18"
    using b by (simp_all add: e)
  have "lba = 36 * a + r \<Longrightarrow> r = 18 * b + c \<Longrightarrow> lba = (a * 2 + b) * 18 + (c + 1 - 1)" for a b c r :: nat by simp
  from this[of "lba div 36" "lba mod 36" "lba mod 36 div 18" "lba mod 36 mod 18"]
  show "lba = (floppy_lba2cyl lba * 2 + floppy_lba2head lba) * 18 + (floppy_lba2sector lba - 1)"
    unfolding e by (simp only: mult_div_mod_eq)
qed

lemma lba_inj:
  assumes "k < SECTORS" and "lba < SECTORS" and "floppy_lba2cyl k = floppy_lba2cyl lba"
    and "floppy_lba2head k = floppy_lba2head lba" and "floppy_lba2sector k = floppy_lba2sector lba"
  shows "k = lba"
  using lba_geometry(5)[OF assms(1)] lba_geometry(5)[OF assms(2)] assms(3-5) by simp

lemma floppy_start:
  assumes g: "drive_good io medium live glitch d"
  shows "\<exists>s. cmd_eject_status (fdc_of io) (hw (drive_start (fdc_of io) d)) = Some (FLOPPY_CMD_NO_CHANGE, s) \<and> live s \<and>
    medium s = medium (hw d) \<and> glitch s < 3"
  using eject_live[OF drive_good_start(1,3)[OF g]] drive_good_start(4,5)[OF g] by (auto simp: keeps_def)

lemma lba_on_disk: "lba < SECTORS \<Longrightarrow> on_disk (floppy_lba2cyl lba) (floppy_lba2head lba) (floppy_lba2sector lba)"
  using lba_geometry(1-4) by (simp add: on_disk_def)

lemma floppy_read_ok:
  assumes g: "drive_good io medium live glitch d" and len: "length buff = SECTOR_SIZE" and lba: "lba < SECTORS"
  shows "\<exists>d'. floppy_read_sector (fdc_of io) lba buff d = Some (0, drive_sect medium d lba, d') \<and>
    drive_good io medium live glitch d' \<and> drive_sect medium d' = drive_sect medium d"
proof -
  from floppy_start[OF g] obtain s where s: "cmd_eject_status (fdc_of io) (hw (drive_start (fdc_of io) d)) = Some (FLOPPY_CMD_NO_CHANGE, s)"
      "live s" "medium s = medium (hw d)" "glitch s < 3" by blast
  from read_retry_ok[OF drive_good_start(1)[OF g] s(2) lba_on_disk[OF lba] len s(4)] obtain s' where
    s': "read_retry (fdc_of io) 3 (floppy_lba2cyl lba) (floppy_lba2head lba) (floppy_lba2sector lba) buff s = (True, drive_sect medium d lba, s')"
      "keeps medium live glitch s s'" unfolding drive_sect_def s(3) by blast
  have "read_hard (fdc_of io) 3 (floppy_lba2cyl lba) (floppy_lba2head lba) (floppy_lba2sector lba) buff s = Some (0, drive_sect medium d lba, s')"
    using s'(1) by (simp add: eval_nat_numeral del: read_retry.simps)
  then have "floppy_read_sector (fdc_of io) lba buff d = Some (0, drive_sect medium d lba, (drive_start (fdc_of io) d)\<lparr>hw := s'\<rparr>)"
    using s(1) by (simp add: floppy_read_sector_def Let_def)
  moreover have "drive_good io medium live glitch ((drive_start (fdc_of io) d)\<lparr>hw := s'\<rparr>)"
    by (rule drive_good_live) (use drive_good_start(1,2)[OF g] s'(2) s(4) in \<open>simp_all add: keeps_def\<close>)
  ultimately show ?thesis using s'(2) s(3) by (auto simp: drive_sect_def keeps_def fun_eq_iff)
qed

lemma floppy_write_ok:
  assumes g: "drive_good io medium live glitch d" and len: "length buff = SECTOR_SIZE" and lba: "lba < SECTORS"
  shows "\<exists>d'. floppy_write_sector (fdc_of io) lba buff d = Some (0, d') \<and> drive_good io medium live glitch d' \<and>
    (\<forall>k < SECTORS. drive_sect medium d' k = (if k = lba then buff else drive_sect medium d k))"
proof -
  from floppy_start[OF g] obtain s where s: "cmd_eject_status (fdc_of io) (hw (drive_start (fdc_of io) d)) = Some (FLOPPY_CMD_NO_CHANGE, s)"
      "live s" "medium s = medium (hw d)" "glitch s < 3" by blast
  define a where "a = (floppy_lba2cyl lba, floppy_lba2head lba, floppy_lba2sector lba)"
  from write_retry_ok[OF drive_good_start(1)[OF g] s(2) lba_on_disk[OF lba] len s(4)] obtain s' where
    s': "write_retry (fdc_of io) 3 (floppy_lba2cyl lba) (floppy_lba2head lba) (floppy_lba2sector lba) buff s = (True, s')"
      "live s'" "only medium a s s'" "medium s' (floppy_lba2cyl lba) (floppy_lba2head lba) (floppy_lba2sector lba) = buff" "glitch s' \<le> glitch s"
    unfolding a_def by blast
  have "write_hard (fdc_of io) 3 (floppy_lba2cyl lba) (floppy_lba2head lba) (floppy_lba2sector lba) buff s = Some (0, s')"
    using s'(1) by (simp add: eval_nat_numeral del: write_retry.simps)
  then have "floppy_write_sector (fdc_of io) lba buff d = Some (0, (drive_start (fdc_of io) d)\<lparr>hw := s'\<rparr>)"
    using s(1) by (simp add: floppy_write_sector_def Let_def)
  moreover have "drive_good io medium live glitch ((drive_start (fdc_of io) d)\<lparr>hw := s'\<rparr>)"
    by (rule drive_good_live) (use drive_good_start(1,2)[OF g] s' s(4) in simp_all)
  moreover have "drive_sect medium ((drive_start (fdc_of io) d)\<lparr>hw := s'\<rparr>) x = (if x = lba then buff else drive_sect medium d x)"
    if "x < SECTORS" for x
    using s'(3,4) lba_inj[OF that lba] s(3) by (auto simp: drive_sect_def only_def a_def)
  ultimately show ?thesis by blast
qed

text \<open>When the first three attempts fail, the driver resets the controller and tries again, but the reset has
  deselected the drive and \<open>media_enabled\<close> still says that it is selected.\<close>

lemma read_hard_after_reset:
  assumes "read_retry (fdc_of io) 3 c h r buff s = (False, b1, s1)" and "floppy_cmd_eject_status io s1 = Some (FLOPPY_CMD_NO_CHANGE, s2)"
    and "floppy_cmd_reset io True s2 = Some (0, s3)"
  shows "\<exists>g. read_hard (fdc_of io) (Suc n) c h r buff s = read_hard (fdc_of io) n c h r b1 (pout io DOR DOR_SELECT_NONE g)"
proof -
  from floppy_cmd_reset_deselects[OF assms(3)] obtain g where g: "s3 = pout io DOR DOR_SELECT_NONE g" by blast
  have "cmd_eject_status (fdc_of io) s1 = Some (FLOPPY_CMD_NO_CHANGE, s2)" "reset_retry (fdc_of io) 3 s2 = Some (True, s3)"
    using assms(2,3) by (simp_all add: fdc_of_def eval_nat_numeral)
  then have "read_hard (fdc_of io) (Suc n) c h r buff s = read_hard (fdc_of io) n c h r b1 s3"
    using assms(1) by (simp del: read_retry.simps reset_retry.simps)
  then show ?thesis unfolding g by blast
qed

interpretation fl: sector_dev "floppy_read_sector (fdc_of io)" "floppy_write_sector (fdc_of io)" "drive_sect medium" "drive_good io medium live glitch"
  for io :: "'h ioports" and medium live glitch
proof
  show "length (drive_sect medium s lba) = SECTOR_SIZE" if "drive_good io medium live glitch s" "lba < SECTORS" for s lba
    using controller_okD(3)[OF drive_good_start(1,3)[OF that(1)] lba_on_disk[OF that(2)]] drive_good_start(4)[OF that(1)]
    by (simp add: drive_sect_def)
  show "\<exists>s'. floppy_read_sector (fdc_of io) lba buff s = Some (0, drive_sect medium s lba, s') \<and> drive_good io medium live glitch s' \<and>
      (\<forall>k < SECTORS. drive_sect medium s' k = drive_sect medium s k)"
    if "drive_good io medium live glitch s" "lba < SECTORS" "length buff = SECTOR_SIZE" for s lba buff
    using floppy_read_ok[OF that(1,3,2)] by auto
  show "\<exists>s'. floppy_write_sector (fdc_of io) lba buff s = Some (0, s') \<and> drive_good io medium live glitch s' \<and>
      (\<forall>k < SECTORS. drive_sect medium s' k = (if k = lba then buff else drive_sect medium s k))"
    if "drive_good io medium live glitch s" "lba < SECTORS" "length buff = SECTOR_SIZE" for s lba buff
    by (rule floppy_write_ok[OF that(1,3,2)])
qed

section \<open>Properties\<close>

text \<open>On a working drive with at most two transient failures to come, \<open>floppy_read_sector\<close> returns 0
  with exactly the contents of the sector, whatever was in the buffer, and leaves the disk as it is. \<close>

theorem floppy_read_sector_retries:
  assumes "drive_good io medium live glitch d" and "length buff = SECTOR_SIZE" and "lba < SECTORS"
  shows "\<exists>d'. floppy_read_sector (fdc_of io) lba buff d = Some (0, drive_sect medium d lba, d') \<and>
    drive_good io medium live glitch d' \<and> drive_sect medium d' = drive_sect medium d"
  by (rule floppy_read_ok[OF assms])

text \<open>What \<open>blk_floppy_write\<close> writes anywhere on the disk, across any number of sectors, \<open>blk_floppy_read\<close>
  reads back through the one-sector cache. \<close>

theorem blk_floppy_roundtrip:
  assumes "cached (drive_sect medium) (drive_good io medium live glitch) b"
    and "offs + length bs \<le> BLK_SIZE" and "offs < BLK_SIZE" and "length bs < 32768"
  shows "\<exists>b' b''. blk_floppy_write (floppy_read_sector (fdc_of io)) (floppy_write_sector (fdc_of io)) offs bs b = Some (int (length bs), b') \<and>
    blk_floppy_read (floppy_read_sector (fdc_of io)) offs (length bs) b' = Some (int (length bs), bs, b'')"
  by (rule fl.blk.read_after_write[OF assms])

text \<open> C25. The block device is its linear image: a write changes exactly the bytes of its range, sector borders or not. \<close>

theorem blk_floppy_write_image:
  assumes "cached (drive_sect medium) (drive_good io medium live glitch) b"
    and "offs + length bs \<le> BLK_SIZE" and "offs < BLK_SIZE" and "length bs < 32768"
  shows "\<exists>b'. blk_floppy_write (floppy_read_sector (fdc_of io)) (floppy_write_sector (fdc_of io)) offs bs b = Some (int (length bs), b') \<and>
    cached (drive_sect medium) (drive_good io medium live glitch) b' \<and>
    (\<forall>x < BLK_SIZE. blk_img (drive_sect medium) b' x =
       (if offs \<le> x \<and> x < offs + length bs then bs ! (x - offs) else blk_img (drive_sect medium) b x))"
  by (rule fl.blk.write_ok[OF assms])

text \<open>When a disk was taken out and no new one is in the drive, \<open>floppy_read_sector\<close> returns the code of a changed
  disk, and for a changed disk the code of an I/O error: the codes of the two layers are not the same. \<close>

theorem floppy_eject_codes:
  assumes "cmd_eject_status f (hw (drive_start f d)) = Some (e, s)" and "e = FLOPPY_CMD_NO_MEDIA \<or> e = FLOPPY_CMD_CHANGE"
  shows "floppy_read_sector f lba buff d =
    Some (if e = FLOPPY_CMD_NO_MEDIA then FLOPPY_DISK_CHANGE else FLOPPY_IOERR, buff, (drive_start f d)\<lparr>hw := s\<rparr>)"
  using assms by (auto simp: floppy_read_sector_def FLOPPY_CMD_NO_MEDIA_def FLOPPY_CMD_CHANGE_def FLOPPY_CMD_NO_CHANGE_def
      FLOPPY_DISK_CHANGE_def FLOPPY_IOERR_def)

text \<open>After a read that failed half way the cache still carries the number of the sector it held before: a later read
  of that sector succeeds and returns what the failed transfer left in the buffer. \<close>

theorem blk_floppy_stale_cache:
  assumes "rd k (cache_sector b) (dev b) = Some (-1, junk, s)" and "cache_sno b = j" and "j \<noteq> k"
    and "j < SECTORS" and "k < SECTORS" and "length junk = SECTOR_SIZE"
  shows "\<exists>b'. blk_floppy_read rd (k * SECTOR_SIZE) SECTOR_SIZE b = Some (- EIO, [], b') \<and>
    blk_floppy_read rd (j * SECTOR_SIZE) SECTOR_SIZE b' = Some (512, junk, b')"
proof -
  have lt: "n * SECTOR_SIZE < BLK_SIZE" "offs2lba (n * SECTOR_SIZE) = n" "clip_len (n * SECTOR_SIZE) SECTOR_SIZE = SECTOR_SIZE"
    "chunk_at (n * SECTOR_SIZE) SECTOR_SIZE = SECTOR_SIZE" if "n < SECTORS" for n
    using that by (auto simp: SECTORS_def SECTOR_SIZE_def BLK_SIZE_def offs2lba_def u16_def clip_len_def chunk_at_def)
  define b' where "b' = b\<lparr>cache_sector := junk, dev := s\<rparr>"
  have "read_chunks rd (k * SECTOR_SIZE) SECTOR_SIZE b = Some (- EIO, [], b')"
    using assms(1,2,3) lt(2)[OF assms(5)]
    by (subst read_chunks.simps) (simp add: update_cache_def SECTOR_SIZE_def EIO_def b'_def)
  then have 1: "blk_floppy_read rd (k * SECTOR_SIZE) SECTOR_SIZE b = Some (- EIO, [], b')"
    using lt[OF assms(5)] by (simp add: blk_floppy_read_def EIO_def)
  have z: "read_chunks rd x 0 c = Some (0, [], c)" for x c by (subst read_chunks.simps) simp
  have "update_cache rd j b' = Some (0, b')" using assms(2) by (simp add: update_cache_def b'_def)
  then have "read_chunks rd (j * SECTOR_SIZE) SECTOR_SIZE b' = Some (0, junk, b')"
    using lt[OF assms(4)] assms(6) z by (subst read_chunks.simps) (simp add: Let_def SECTOR_SIZE_def b'_def)
  then show ?thesis using 1 lt[OF assms(4)] by (simp add: blk_floppy_read_def SECTOR_SIZE_def)
qed

section \<open>Concrete instances\<close>

text \<open>
  A controller with one drive at the level of its ports: it collects the nine bytes of a command,
  hands over or takes the bytes of the sector, and gives seven result bytes. A drive that is not
  selected answers no transfer; \<open>bad\<close> transfers still fail with a CRC error and spoil the data.
\<close>

datatype phase =
    P_Command "nat list"
  | P_Send "nat list" "nat list"
  | P_Recv nat nat nat "nat list"
  | P_Result "nat list"

record chip =
  phase :: phase
  platter :: "nat \<Rightarrow> nat \<Rightarrow> nat \<Rightarrow> nat list"
  dor :: nat
  bad :: nat

definition good_result :: "nat list" where "good_result = [65, 128, 0, 0, 0, 0, 2]"
definition bad_result :: "nat list" where "bad_result = [65, 160, 32, 0, 0, 0, 2]"

definition chip_command :: "nat list \<Rightarrow> chip \<Rightarrow> chip" where
  "chip_command cs s =
     (if length cs < 9 then s\<lparr>phase := P_Command cs\<rparr>
      else if dor s \<noteq> 45 then s\<lparr>phase := P_Result [73, 0, 0, 0, 0, 0, 2]\<rparr>
      else if cs ! 0 = 70 then
        (if bad s = 0 then s\<lparr>phase := P_Send (platter s (cs ! 2) (cs ! 3) (cs ! 4)) good_result\<rparr>
         else s\<lparr>phase := P_Send (replicate 512 0) bad_result, bad := bad s - 1\<rparr>)
      else s\<lparr>phase := P_Recv (cs ! 2) (cs ! 3) (cs ! 4) []\<rparr>)"

definition set_sector :: "nat \<Rightarrow> nat \<Rightarrow> nat \<Rightarrow> nat list \<Rightarrow> chip \<Rightarrow> chip" where
  "set_sector c h r bs s = s\<lparr>platter := (\<lambda>c' h' r'. if c' = c \<and> h' = h \<and> r' = r then bs else platter s c' h' r')\<rparr>"

definition chip_recv :: "nat \<Rightarrow> nat \<Rightarrow> nat \<Rightarrow> nat list \<Rightarrow> chip \<Rightarrow> chip" where
  "chip_recv c h r bs s =
     (if length bs < 512 then s\<lparr>phase := P_Recv c h r bs\<rparr>
      else if bad s = 0 then set_sector c h r bs (s\<lparr>phase := P_Result good_result\<rparr>)
      else set_sector c h r (replicate 512 0) (s\<lparr>phase := P_Result bad_result, bad := bad s - 1\<rparr>))"

fun chip_out :: "nat \<Rightarrow> chip \<Rightarrow> chip" where
  "chip_out d s = (case phase s of P_Command cs \<Rightarrow> chip_command (cs @ [d]) s
     | P_Recv c h r bs \<Rightarrow> chip_recv c h r (bs @ [d]) s | _ \<Rightarrow> s)"

fun chip_in :: "chip \<Rightarrow> nat \<times> chip" where
  "chip_in s = (case phase s of
       P_Send (b # bs) rs \<Rightarrow> (b, s\<lparr>phase := if bs = [] then P_Result rs else P_Send bs rs\<rparr>)
     | P_Result (b # bs) \<Rightarrow> (b, s\<lparr>phase := if bs = [] then P_Command [] else P_Result bs\<rparr>)
     | _ \<Rightarrow> (0, s))"

fun chip_status :: "phase \<Rightarrow> nat" where
  "chip_status (P_Command cs) = 128"
| "chip_status (P_Send bs rs) = 224"
| "chip_status (P_Recv c h r bs) = 160"
| "chip_status (P_Result rs) = 192"

definition chip_io :: "chip ioports" where
  "chip_io = \<lparr>pin = (\<lambda>a s. if a = MSR then (chip_status (phase s), s) else if a = FIFO then chip_in s else (0, s)),
     pout = (\<lambda>a d s. if a = DOR then s\<lparr>dor := d\<rparr> else if a = FIFO then chip_out d s else s)\<rparr>"

definition chip_live :: "chip \<Rightarrow> bool" where
  "chip_live s \<longleftrightarrow> phase s = P_Command [] \<and> dor s = 45 \<and> (\<forall>c h r. length (platter s c h r) = 512)"

lemma chip_io_simps [simp]:
  "pin chip_io MSR s = (chip_status (phase s), s)" "pin chip_io FIFO s = chip_in s" "pin chip_io DIR s = (0, s)"
  "pout chip_io FIFO d s = chip_out d s" "pout chip_io DOR d s = s\<lparr>dor := d\<rparr>"
  by (simp_all add: chip_io_def MSR_def FIFO_def DIR_def DOR_def)

lemma chip_takes: "phase s = P_Command cs \<Longrightarrow> takes_byte chip_io s d (chip_command (cs @ [d]) s)"
  unfolding takes_byte_def by (rule exI[of _ 0]) (simp add: and.commute)

lemma chip_takes_all:
  "phase s = P_Command cs \<Longrightarrow> length cs + length ds = 9 \<Longrightarrow> ds \<noteq> [] \<Longrightarrow> chain (takes_byte chip_io) s ds (chip_command (cs @ ds) s)"
proof (induction ds arbitrary: s cs)
  case Nil
  then show ?case by simp
next
  case (Cons d ds)
  note t = chip_takes[OF Cons.prems(1), of d]
  show ?case
  proof (cases "ds = []")
    case True
    then show ?thesis using t by simp
  next
    case False
    then have l: "length (cs @ [d]) < 9" using Cons.prems(2) by (cases ds) auto
    then have e: "chip_command (cs @ [d]) s = s\<lparr>phase := P_Command (cs @ [d])\<rparr>" by (simp add: chip_command_def)
    have "chain (takes_byte chip_io) (s\<lparr>phase := P_Command (cs @ [d])\<rparr>) ds (chip_command ((cs @ [d]) @ ds) (s\<lparr>phase := P_Command (cs @ [d])\<rparr>))"
      by (rule Cons.IH) (use Cons.prems(2) False in auto)
    moreover have "chip_command xs (s\<lparr>phase := p\<rparr>) = chip_command xs s" for xs p by (simp add: chip_command_def)
    ultimately show ?thesis using t e by auto
  qed
qed

lemma chip_feeds_all:
  "phase s = P_Send bs rs \<Longrightarrow> bs \<noteq> [] \<Longrightarrow> chain (feeds_byte chip_io) s (map (Pair 0) bs) (s\<lparr>phase := P_Result rs\<rparr>)"
proof (induction bs arbitrary: s)
  case Nil
  then show ?case by simp
next
  case (Cons b bs)
  have b: "bit (224 :: nat) 5" "bit (224 :: nat) 7" by (simp_all add: bit_iff_odd)
  show ?case
  proof (cases "bs = []")
    case False
    with Cons.IH[of "s\<lparr>phase := P_Send bs rs\<rparr>"] show ?thesis using b Cons.prems by simp
  qed (use b Cons.prems in simp)
qed

lemma chip_gives_all:
  "phase s = P_Result rs \<Longrightarrow> rs \<noteq> [] \<Longrightarrow> chain (gives_byte chip_io) s rs (s\<lparr>phase := P_Command []\<rparr>)"
proof (induction rs arbitrary: s)
  case Nil
  then show ?case by simp
next
  case (Cons b rs)
  have g: "gives_byte chip_io s b (snd (chip_in s))"
    unfolding gives_byte_def by (rule exI[of _ 0]) (simp add: Cons.prems(1))
  show ?case
  proof (cases "rs = []")
    case False
    with Cons.IH[of "s\<lparr>phase := P_Result rs\<rparr>"] show ?thesis using g Cons.prems by auto
  qed (use g Cons.prems in auto)
qed

lemma chip_accepts_all:
  "phase s = P_Recv c h r as \<Longrightarrow> length as + length bs = 512 \<Longrightarrow> bs \<noteq> [] \<Longrightarrow>
   chain (accepts_byte chip_io) s (map (Pair 0) bs) (chip_recv c h r (as @ bs) s)"
proof (induction bs arbitrary: s as)
  case Nil
  then show ?case by simp
next
  case (Cons b bs)
  have b: "bit (160 :: nat) 5" "bit (160 :: nat) 7" by (simp_all add: bit_iff_odd)
  show ?case
  proof (cases "bs = []")
    case True
    then show ?thesis using b Cons.prems by simp
  next
    case False
    then have "length (as @ [b]) < 512" using Cons.prems(2) by (cases bs) auto
    then have e: "chip_recv c h r (as @ [b]) s = s\<lparr>phase := P_Recv c h r (as @ [b])\<rparr>" by (simp add: chip_recv_def)
    have "chain (accepts_byte chip_io) (s\<lparr>phase := P_Recv c h r (as @ [b])\<rparr>) (map (Pair 0) bs)
        (chip_recv c h r ((as @ [b]) @ bs) (s\<lparr>phase := P_Recv c h r (as @ [b])\<rparr>))"
      by (rule Cons.IH) (use Cons.prems(2) False in auto)
    moreover have "chip_recv c h r xs (s\<lparr>phase := p\<rparr>) = chip_recv c h r xs s" for xs p by (simp add: chip_recv_def set_sector_def)
    ultimately show ?thesis using b e Cons.prems(1) by simp
  qed
qed

lemma waits_zero: "length bs = 256 \<Longrightarrow> waits_ok (map (Pair 0) bs)"
  by (simp add: waits_ok_def comp_def)

lemma done_results: "done_result good_result" "\<not> done_result bad_result" "length good_result = 7" "length bad_result = 7"
  "good_result \<noteq> []" "bad_result \<noteq> []"
  by (simp_all add: done_result_def good_result_def bad_result_def)

lemma chip_serves_read:
  assumes "chip_live s" and "on_disk c h r"
  shows "serves_read chip_io platter chip_live bad s c h r"
proof -
  define cs where "cs = [70, 4 * h + 1, c, h, r, 2, r, 24, 8]"
  define bs where "bs = (if bad s = 0 then platter s c h r else replicate 512 0)"
  define rs where "rs = (if bad s = 0 then good_result else bad_result)"
  define s1 where "s1 = s\<lparr>phase := P_Send bs rs, bad := bad s - 1\<rparr>"
  have len: "length bs = 512" using assms(1) by (simp add: bs_def chip_live_def)
  then have ne: "bs \<noteq> []" by auto
  have "chain (takes_byte chip_io) s cs (chip_command ([] @ cs) s)"
    by (rule chip_takes_all) (use assms(1) in \<open>simp_all add: chip_live_def cs_def\<close>)
  moreover have "chip_command ([] @ cs) s = s1"
    using assms(1) by (simp add: chip_command_def cs_def s1_def bs_def rs_def chip_live_def)
  moreover have "chain (feeds_byte chip_io) s1 (map (Pair 0) (take 256 bs) @ map (Pair 0) (drop 256 bs)) (s1\<lparr>phase := P_Result rs\<rparr>)"
    using chip_feeds_all[of s1 bs rs] ne by (simp add: s1_def flip: map_append)
  moreover have "chain (gives_byte chip_io) (s1\<lparr>phase := P_Result rs\<rparr>) rs (s1\<lparr>phase := P_Command []\<rparr>)"
    using chip_gives_all[of "s1\<lparr>phase := P_Result rs\<rparr>" rs] done_results by (simp add: rs_def)
  moreover have "waits_ok (map (Pair 0) (take 256 bs))" "waits_ok (map (Pair 0) (drop 256 bs))"
    using len by (simp_all add: waits_zero)
  moreover have "map snd (map (Pair (0 :: nat)) (take 256 bs) @ map (Pair 0) (drop 256 bs)) = bs" by (simp add: comp_def)
  moreover have "chip_live (s1\<lparr>phase := P_Command []\<rparr>)" using assms(1) by (simp add: chip_live_def s1_def)
  moreover have "length rs = 7" "platter (s1\<lparr>phase := P_Command []\<rparr>) = platter s"
    "if done_result rs then bs = platter s c h r \<and> bad (s1\<lparr>phase := P_Command []\<rparr>) \<le> bad s else bad (s1\<lparr>phase := P_Command []\<rparr>) < bad s"
    using done_results by (simp_all add: rs_def s1_def bs_def)
  ultimately show ?thesis unfolding serves_read_def cs_def[symmetric] by metis
qed

lemma chip_serves_write:
  assumes "chip_live s" and "on_disk c h r" and len: "length bs = 512"
  shows "serves_write chip_io platter chip_live bad s c h r bs"
proof -
  define cs where "cs = [69, 4 * h + 129, c, h, r, 2, r, 24, 8]"
  define rs where "rs = (if bad s = 0 then good_result else bad_result)"
  define es where "es = (if bad s = 0 then bs else replicate 512 0)"
  define s1 where "s1 = s\<lparr>phase := P_Recv c h r []\<rparr>"
  define s2 where "s2 = set_sector c h r es (s\<lparr>phase := P_Result rs, bad := bad s - 1\<rparr>)"
  have ne: "bs \<noteq> []" using len by auto
  have "chain (takes_byte chip_io) s cs (chip_command ([] @ cs) s)"
    by (rule chip_takes_all) (use assms(1) in \<open>simp_all add: chip_live_def cs_def\<close>)
  moreover have "chip_command ([] @ cs) s = s1"
    using assms(1) by (simp add: chip_command_def cs_def s1_def chip_live_def)
  moreover have "chip_recv c h r ([] @ bs) s1 = s2"
    using len by (cases s) (auto simp: chip_recv_def s1_def s2_def rs_def es_def set_sector_def cong: if_cong)
  then have "chain (accepts_byte chip_io) s1 (map (Pair 0) (take 256 bs) @ map (Pair 0) (drop 256 bs)) s2"
    using chip_accepts_all[of s1 c h r "[]" bs] len ne by (simp add: s1_def flip: map_append)
  moreover have "chain (gives_byte chip_io) s2 rs (s2\<lparr>phase := P_Command []\<rparr>)"
    by (rule chip_gives_all) (simp_all add: s2_def set_sector_def rs_def done_results)
  moreover have "waits_ok (map (Pair 0) (take 256 bs))" "waits_ok (map (Pair 0) (drop 256 bs))"
    using len by (simp_all add: waits_zero)
  moreover have "map snd (map (Pair (0 :: nat)) (take 256 bs) @ map (Pair 0) (drop 256 bs)) = bs" by (simp add: comp_def)
  moreover have "chip_live (s2\<lparr>phase := P_Command []\<rparr>)" using assms(1) len by (simp add: chip_live_def s2_def set_sector_def es_def)
  moreover have "length rs = 7" using done_results by (simp add: rs_def)
  moreover have "\<forall>c' h' r'. (c', h', r') \<noteq> (c, h, r) \<longrightarrow> platter (s2\<lparr>phase := P_Command []\<rparr>) c' h' r' = platter s c' h' r'"
    by (auto simp: s2_def set_sector_def)
  moreover have "if done_result rs then platter (s2\<lparr>phase := P_Command []\<rparr>) c h r = bs \<and> bad (s2\<lparr>phase := P_Command []\<rparr>) \<le> bad s
      else bad (s2\<lparr>phase := P_Command []\<rparr>) < bad s"
    using done_results by (simp add: rs_def s2_def set_sector_def es_def)
  ultimately show ?thesis unfolding serves_write_def cs_def[symmetric] by metis
qed

lemma chip_ok: "controller_ok chip_io platter chip_live bad"
proof -
  have "keeps platter chip_live bad s (snd (pin chip_io DIR s))" "\<not> bit (fst (pin chip_io DIR s)) 7" if "chip_live s" for s
    using that by (simp_all add: keeps_def)
  moreover have "length (platter s c h r) = SECTOR_SIZE" if "chip_live s" for s c h r
    using that by (simp add: chip_live_def SECTOR_SIZE_def)
  ultimately show ?thesis unfolding controller_ok_def using chip_serves_read chip_serves_write SECTOR_SIZE_def by simp
qed

text \<open>A disk behind this controller, the motor off, two failures to come; no sector is cached.\<close>

definition chip_blk :: "(nat \<Rightarrow> nat \<Rightarrow> nat \<Rightarrow> nat list) \<Rightarrow> chip drive blk" where
  "chip_blk m = \<lparr>cache_sector = replicate SECTOR_SIZE 0, cache_sno = 65535,
     dev = \<lparr>media_enabled = False, hw = \<lparr>phase = P_Command [], platter = m, dor = 12, bad = 2\<rparr>\<rparr>\<rparr>"

lemma chip_good: "(\<And>c h r. length (m c h r) = 512) \<Longrightarrow> drive_good chip_io platter chip_live bad (dev (chip_blk m))"
  using chip_ok by (simp add: drive_good_def chip_blk_def chip_live_def)

lemma chip_cached: "(\<And>c h r. length (m c h r) = 512) \<Longrightarrow> cached (drive_sect platter) (drive_good chip_io platter chip_live bad) (chip_blk m)"
  unfolding cached_def using chip_good[of m] by (simp add: chip_blk_def)

definition demo_blk :: "chip drive blk" where
  "demo_blk = chip_blk (\<lambda>c h r. replicate 512 (c + h + r))"

lemma demo_good: "drive_good chip_io platter chip_live bad (dev demo_blk)"
  unfolding demo_blk_def by (rule chip_good) simp

lemma demo_cached: "cached (drive_sect platter) (drive_good chip_io platter chip_live bad) demo_blk"
  unfolding demo_blk_def by (rule chip_cached) simp

theorem floppy_read_sector_retries_witness:
  "\<exists>d'. floppy_read_sector (fdc_of chip_io) 100 (replicate SECTOR_SIZE 0) (dev demo_blk) = Some (0, replicate 512 14, d')"
proof -
  have "drive_sect platter (dev demo_blk) 100 = replicate 512 14"
    by (simp add: drive_sect_def demo_blk_def chip_blk_def floppy_lba2cyl_def floppy_lba2head_def floppy_lba2sector_def u8_def)
  then show ?thesis using floppy_read_sector_retries[OF demo_good, of "replicate SECTOR_SIZE 0" 100] by (auto simp: SECTORS_def)
qed

theorem blk_floppy_roundtrip_witness:
  "\<exists>b' b''. blk_floppy_write (floppy_read_sector (fdc_of chip_io)) (floppy_write_sector (fdc_of chip_io)) 500 (replicate 600 7) demo_blk = Some (600, b') \<and>
    blk_floppy_read (floppy_read_sector (fdc_of chip_io)) 500 600 b' = Some (600, replicate 600 7, b'')"
  using blk_floppy_roundtrip[OF demo_cached, of 500 "replicate 600 7"] by (simp add: BLK_SIZE_def)

theorem blk_floppy_write_image_witness:
  "\<exists>b'. blk_floppy_write (floppy_read_sector (fdc_of chip_io)) (floppy_write_sector (fdc_of chip_io)) 500 (replicate 600 7) demo_blk = Some (600, b') \<and>
    blk_img (drive_sect platter) b' 1000 = 7"
  using blk_floppy_write_image[OF demo_cached, of 500 "replicate 600 7"] by (auto simp: BLK_SIZE_def)

definition empty_drive :: "unit fdc" where
  "empty_drive = \<lparr>cmd_enable = (\<lambda>_ m. m), cmd_eject_status = (\<lambda>m. Some (FLOPPY_CMD_NO_MEDIA, m)),
     cmd_read_data = (\<lambda>c h r b m. (None, b, m)), cmd_write_data = (\<lambda>c h r bs m. (None, m)), cmd_reset = (\<lambda>_ m. Some (0, m))\<rparr>"

theorem floppy_eject_codes_witness:
  "\<exists>d'. floppy_read_sector empty_drive 0 [] \<lparr>media_enabled = True, hw = ()\<rparr> = Some (FLOPPY_DISK_CHANGE, [], d')"
  using floppy_eject_codes[of empty_drive "\<lparr>media_enabled = True, hw = ()\<rparr>" FLOPPY_CMD_NO_MEDIA "()" 0 "[]"]
  by (simp add: empty_drive_def)

theorem blk_floppy_stale_cache_witness:
  "\<exists>b'. blk_floppy_read (\<lambda>lba _ s. Some (-1, replicate SECTOR_SIZE 9, s)) 2560 512
      \<lparr>cache_sector = replicate SECTOR_SIZE 1, cache_sno = 3, dev = ()\<rparr> = Some (- EIO, [], b') \<and>
    blk_floppy_read (\<lambda>lba _ s. Some (-1, replicate SECTOR_SIZE 9, s)) 1536 512 b' = Some (512, replicate SECTOR_SIZE 9, b')"
  using blk_floppy_stale_cache[of "\<lambda>lba _ s. Some (-1, replicate SECTOR_SIZE 9, s)" 5
      "\<lparr>cache_sector = replicate SECTOR_SIZE 1, cache_sno = 3, dev = ()\<rparr>" "replicate SECTOR_SIZE 9" "()" 3]
  by (simp add: SECTORS_def SECTOR_SIZE_def)

end
