(* ===== verification/FatTable.thy ===== *)
theory FatTable
  imports Floppy PageAlloc
begin

text \<open>
  The file allocation table of \<open>kernel/fs/fat.c\<close>: the 12 bit entries in the two cached pages,
  reading and writing them back, following, seeking and allocating clusters; with the scratch
  window of \<open>driver/mmu.c\<close> through which the pages are accessed, and the objects of \<open>fs.h\<close>.

  The state is that of one mounted file system: physical memory by page and offset, the page in
  the scratch window, the context, the block device, and the open files by address.
\<close>

unbundle bit_operations_syntax

definition PAGE_SIZE :: nat where "PAGE_SIZE = 4096"

text \<open>\<open>struct dev_blk\<close>\<close>

record 'd dev_blk =
  blk_read :: "nat \<Rightarrow> nat \<Rightarrow> 'd \<Rightarrow> (int \<times> nat list \<times> 'd) option"
  blk_write :: "nat \<Rightarrow> nat list \<Rightarrow> 'd \<Rightarrow> (int \<times> 'd) option"
  blk_sync :: "'d \<Rightarrow> (int \<times> 'd) option"
  blk_size :: nat

definition blk_floppy :: "'s sread \<Rightarrow> 's swrite \<Rightarrow> 's blk dev_blk" where
  "blk_floppy rd wr = \<lparr>blk_read = blk_floppy_read rd, blk_write = blk_floppy_write rd wr,
     blk_sync = (\<lambda>b. Some (0, b)), blk_size = BLK_SIZE\<rparr>"

text \<open>\<open>struct fs_file\<close>; the union of the views of the file systems is a record of both.\<close>

record fs_internal =
  fat_cluster :: nat
  fat_idx :: nat
  devfs_entry :: "nat option"

record fs_file =
  f_file :: fs_internal
  f_parent :: "nat option"
  f_mountpoint :: "nat option"
  f_nrefs :: int
  f_children :: "nat option"
  f_attr :: nat
  f_size :: nat
  f_ctx :: nat
  f_name :: "nat list"

record fat_ctx =
  fat_page0 :: nat
  fat_page1 :: nat
  fat_dirty :: nat

record 'd fat_st =
  ram :: "nat \<Rightarrow> nat \<Rightarrow> nat"
  scratch :: nat
  fctx :: fat_ctx
  bdev :: 'd
  files :: "nat \<Rightarrow> fs_file"

section \<open>The scratch window\<close>

text \<open>\<open>mmu_map_scratch\<close>: the page that was mapped, and the new one is.\<close>

definition mmu_map_scratch :: "nat \<Rightarrow> 'd fat_st \<Rightarrow> nat \<times> 'd fat_st" where
  "mmu_map_scratch page st = (scratch st, st\<lparr>scratch := u8 page\<rparr>)"

definition peek :: "nat \<Rightarrow> 'd fat_st \<Rightarrow> nat" where
  "peek i st = ram st (scratch st) i"

definition poke :: "nat \<Rightarrow> nat \<Rightarrow> 'd fat_st \<Rightarrow> 'd fat_st" where
  "poke i b st = st\<lparr>ram := (ram st)(scratch st := (ram st (scratch st))(i := u8 b))\<rparr>"

definition poke_bytes :: "nat list \<Rightarrow> 'd fat_st \<Rightarrow> 'd fat_st" where
  "poke_bytes bs st = st\<lparr>ram := (ram st)(scratch st :=
     (\<lambda>i. if i < length bs then bs ! i else ram st (scratch st) i))\<rparr>"

section \<open>Geometry\<close>

definition FAT12_SECTOR_SIZE :: nat where "FAT12_SECTOR_SIZE = 512"
definition FAT12_FAT_SIZE :: nat where "FAT12_FAT_SIZE = 9"
definition FAT12_FAT_COPIES :: nat where "FAT12_FAT_COPIES = 2"
definition FAT12_ROOT_SIZE :: nat where "FAT12_ROOT_SIZE = 14"
definition FAT12_DATA_START :: nat where
  "FAT12_DATA_START = 1 + (FAT12_FAT_COPIES * FAT12_FAT_SIZE) + FAT12_ROOT_SIZE"

definition CLUSTER_FREE :: nat where "CLUSTER_FREE = 0"
definition CLUSTER_RESERVED :: nat where "CLUSTER_RESERVED = 4080"
definition CLUSTER_END :: nat where "CLUSTER_END = 4095"

lemmas fat_consts = FAT12_SECTOR_SIZE_def FAT12_FAT_SIZE_def FAT12_FAT_COPIES_def FAT12_ROOT_SIZE_def
  FAT12_DATA_START_def CLUSTER_FREE_def CLUSTER_RESERVED_def CLUSTER_END_def PAGE_SIZE_def

definition CLUSTER2SECTOR :: "nat \<Rightarrow> nat" where
  "CLUSTER2SECTOR c = u16 (c + FAT12_DATA_START - 2)"

definition fat_sector_round_down :: "nat \<Rightarrow> nat" where
  "fat_sector_round_down offs = u16 (offs div FAT12_SECTOR_SIZE)"

definition fat_sector_round_up :: "nat \<Rightarrow> nat" where
  "fat_sector_round_up offs = u16 ((offs + FAT12_SECTOR_SIZE - 1) div FAT12_SECTOR_SIZE)"

definition fat_sector_offset :: "nat \<Rightarrow> nat" where
  "fat_sector_offset sector = sector * FAT12_SECTOR_SIZE"

section \<open>Entries\<close>

text \<open>
  \<open>fat_fat_get\<close>: result, \<open>*cluster\<close> (\<open>old\<close> before the call) and state. The index of an entry's first
  byte is computed in 16 bits.
\<close>

definition fat_fat_get :: "'d dev_blk \<Rightarrow> nat \<Rightarrow> nat \<Rightarrow> 'd fat_st \<Rightarrow> int \<times> nat \<times> 'd fat_st" where
  "fat_fat_get blk n old st =
     (if CLUSTER2SECTOR n \<ge> fat_sector_round_down (blk_size blk) then (- EIO, old, st)
      else let
        idx0 = u16 (3 * n) div 2;
        page = (if idx0 < PAGE_SIZE then fat_page0 (fctx st) else fat_page1 (fctx st));
        idx = idx0 mod PAGE_SIZE;
        (page_prev, st1) = mmu_map_scratch page st;
        c1 = (if odd n then drop_bit 4 (peek idx st1) else peek idx st1);
        (st2, idx2) = (if idx + 1 = PAGE_SIZE then (snd (mmu_map_scratch (fat_page1 (fctx st)) st1), 0) else (st1, idx + 1));
        c2 = (if odd n then c1 OR push_bit 4 (peek idx2 st2) else c1 OR push_bit 8 (peek idx2 st2 AND 15));
        st3 = snd (mmu_map_scratch page_prev st2)
      in (0, if c2 \<ge> 4088 then CLUSTER_END else if c2 \<ge> 4080 then CLUSTER_RESERVED else c2, st3))"

definition set_dirty :: "nat \<Rightarrow> 'd fat_st \<Rightarrow> 'd fat_st" where
  "set_dirty k st = st\<lparr>fctx := (fctx st)\<lparr>fat_dirty := u16 (fat_dirty (fctx st) OR push_bit k 1)\<rparr>\<rparr>"

text \<open>The page of an entry is chosen with \<open>idx > PAGE_SIZE\<close> here, and with \<open>idx < PAGE_SIZE\<close> above.\<close>

definition fat_fat_set :: "'d dev_blk \<Rightarrow> nat \<Rightarrow> nat \<Rightarrow> 'd fat_st \<Rightarrow> int \<times> 'd fat_st" where
  "fat_fat_set blk n cluster st =
     (if CLUSTER2SECTOR n \<ge> fat_sector_round_down (blk_size blk) \<or> cluster AND 61440 \<noteq> 0 then (-1, st)
      else let
        idx0 = u16 (3 * n) div 2;
        page = (if idx0 > PAGE_SIZE then 1 else 0);
        idx = idx0 mod PAGE_SIZE;
        (page_prev, st1) = mmu_map_scratch (if page = 1 then fat_page1 (fctx st) else fat_page0 (fctx st)) st;
        b1 = (if odd n then u16 (push_bit 4 cluster OR (peek idx st1 AND 15)) else cluster);
        st2 = set_dirty (push_bit 3 page + drop_bit 9 idx) (poke idx (b1 AND 255) st1);
        (st3, idx2) = (if idx + 1 = PAGE_SIZE then (set_dirty 8 (snd (mmu_map_scratch (fat_page1 (fctx st)) st2)), 0) else (st2, idx + 1));
        b2 = (if even n then b1 OR push_bit 8 (peek idx2 st3 AND 240) else b1);
        st4 = poke idx2 (drop_bit 8 b2) st3
      in (0, snd (mmu_map_scratch page_prev st4)))"

section \<open>Reading and writing the table\<close>

definition scratch_bytes :: "nat \<Rightarrow> nat \<Rightarrow> 'd fat_st \<Rightarrow> nat list" where
  "scratch_bytes offs n st = map (\<lambda>i. peek (offs + i) st) [0 ..< n]"

text \<open>The loop of \<open>fat_fat_sync\<close> over the sectors \<open>i\<close>.\<close>

fun sync_sectors :: "'d dev_blk \<Rightarrow> nat list \<Rightarrow> 'd fat_st \<Rightarrow> (int \<times> 'd fat_st) option" where
  "sync_sectors blk [] st = Some (0, st)"
| "sync_sectors blk (i # is) st =
     (if fat_dirty (fctx st) = 0 then Some (0, st)
      else let st1 = (if i = fat_sector_round_down PAGE_SIZE then snd (mmu_map_scratch (fat_page1 (fctx st)) st) else st) in
        if bit (fat_dirty (fctx st1)) i then do {
          let bytes = scratch_bytes (fat_sector_offset (i mod (PAGE_SIZE div FAT12_SECTOR_SIZE))) FAT12_SECTOR_SIZE st1;
          (r1, d1) \<leftarrow> blk_write blk (fat_sector_offset (i + 1)) bytes (bdev st1);
          (if r1 < 0 then Some (r1, st1\<lparr>bdev := d1\<rparr>)
           else do {
             (r2, d2) \<leftarrow> blk_write blk (fat_sector_offset (i + FAT12_FAT_SIZE + 1)) bytes d1;
             (if r2 < 0 then Some (r2, st1\<lparr>bdev := d2\<rparr>) else sync_sectors blk is (st1\<lparr>bdev := d2\<rparr>)) }) }
        else sync_sectors blk is st1)"

definition fat_fat_sync :: "'d dev_blk \<Rightarrow> 'd fat_st \<Rightarrow> (int \<times> 'd fat_st) option" where
  "fat_fat_sync blk st = do {
     let (page_prev, st1) = mmu_map_scratch (fat_page0 (fctx st)) st;
     (ret, st2) \<leftarrow> sync_sectors blk [0 ..< FAT12_FAT_SIZE] st1;
     let st3 = snd (mmu_map_scratch page_prev st2);
     Some (if ret < 0 then (s8 ret, st3) else (0, st3\<lparr>fctx := (fctx st3)\<lparr>fat_dirty := 0\<rparr>\<rparr>)) }"

definition fat_fat_fetch :: "'d dev_blk \<Rightarrow> 'd fat_st \<Rightarrow> (int \<times> 'd fat_st) option" where
  "fat_fat_fetch blk st = do {
     let (page_prev, st1) = mmu_map_scratch (fat_page0 (fctx st)) st;
     (err, bytes, d1) \<leftarrow> blk_read blk FAT12_SECTOR_SIZE PAGE_SIZE (bdev st1);
     let st2 = poke_bytes bytes (st1\<lparr>bdev := d1\<rparr>);
     (if err \<noteq> int PAGE_SIZE then Some (- EIO, snd (mmu_map_scratch page_prev st2))
      else do {
        let st3 = snd (mmu_map_scratch (fat_page1 (fctx st2)) st2);
        (err2, bytes2, d2) \<leftarrow> blk_read blk (FAT12_SECTOR_SIZE + PAGE_SIZE) (FAT12_SECTOR_SIZE * FAT12_FAT_SIZE - PAGE_SIZE) (bdev st3);
        let st4 = snd (mmu_map_scratch page_prev (poke_bytes bytes2 (st3\<lparr>bdev := d2\<rparr>)));
        (if err2 \<noteq> int (FAT12_SECTOR_SIZE * FAT12_FAT_SIZE - PAGE_SIZE) then Some (- EIO, st4)
         else Some (0, st4\<lparr>fctx := (fctx st4)\<lparr>fat_dirty := 0\<rparr>\<rparr>)) }) }"

section \<open>Chains\<close>

definition fat_fat_next :: "'d dev_blk \<Rightarrow> nat \<Rightarrow> 'd fat_st \<Rightarrow> int \<times> nat \<times> 'd fat_st" where
  "fat_fat_next blk c st = (let (e, c1, st1) = fat_fat_get blk c c st in
     if e < 0 then (- EIO, c1, st1)
     else if c1 = CLUSTER_FREE \<or> c1 = CLUSTER_RESERVED then (- EIO, c1, st1)
     else if c1 = CLUSTER_END then (1, c1, st1) else (0, c1, st1))"

text \<open>\<open>fat_fat_seek\<close>, from the first cluster \<open>c\<close> on.\<close>

function fat_fat_seek :: "'d dev_blk \<Rightarrow> nat \<Rightarrow> nat \<Rightarrow> 'd fat_st \<Rightarrow> int \<times> nat \<times> 'd fat_st" where
  "fat_fat_seek blk c offs st =
     (if offs \<ge> FAT12_SECTOR_SIZE then
        (let (ret, c1, st1) = fat_fat_next blk c st in
         if ret \<noteq> 0 then (ret, c1, st1) else fat_fat_seek blk c1 (offs - FAT12_SECTOR_SIZE) st1)
      else (0, c, st))"
  by pat_completeness auto
termination
  by (relation "measure (\<lambda>(blk, c, offs, st). offs)") (auto simp: FAT12_SECTOR_SIZE_def)

declare fat_fat_seek.simps [simp del]

text \<open>Every turn of \<open>alloc_loop\<close> brings \<open>new\<close> closer to \<open>start\<close>, apart from the one jump to the beginning.\<close>

definition alloc_left :: "bool \<Rightarrow> nat \<Rightarrow> nat \<Rightarrow> nat" where
  "alloc_left retry start new = (if retry then 0 else 65536) + (65536 + u16 start - u16 new) mod 65536"

lemma alloc_left_step: "u16 new \<noteq> u16 start \<Longrightarrow> alloc_left retry start (u16 new + 1) < alloc_left retry start new"
proof -
  assume ne: "u16 new \<noteq> u16 start"
  define a b where "a = u16 start" and "b = u16 new"
  have lt: "a < 65536" "b < 65536" "a \<noteq> b" using ne by (simp_all add: a_def b_def)
  have "(65536 + a - u16 (b + 1)) mod 65536 < (65536 + a - b) mod 65536"
  proof (cases "b + 1 = 65536")
    case True
    then show ?thesis using lt by (simp add: u16_def)
  next
    case False
    then have "u16 (b + 1) = b + 1" using lt by simp
    then show ?thesis using lt by (cases "b < a") (simp_all add: le_mod_geq)
  qed
  then show ?thesis by (simp add: alloc_left_def a_def b_def u16_def)
qed

text \<open>
  \<open>fat_fat_allocate_cluster\<close>. When the walk runs off the end of the table, \<open>ncluster\<close> is looked at
  without having been set: \<open>junk\<close> is what happens to be there.
\<close>

function alloc_loop :: "'d dev_blk \<Rightarrow> nat \<Rightarrow> nat \<Rightarrow> bool \<Rightarrow> nat \<Rightarrow> 'd fat_st \<Rightarrow> int \<times> nat \<times> 'd fat_st" where
  "alloc_loop blk start junk retry new st =
     (if u16 new = u16 start then (- ENOSPC, u16 new, st)
      else (let (e, ncluster, st1) = fat_fat_get blk (u16 new) junk st in
        if e < 0 then
          (if retry then (- EIO, u16 new, st1)
           else if junk = CLUSTER_FREE then (0, 0, st1)
           else alloc_loop blk start junk True 1 st1)
        else if ncluster = CLUSTER_FREE then (0, u16 new, st1)
        else alloc_loop blk start junk retry (u16 new + 1) st1))"
  by pat_completeness auto
termination
proof (relation "measure (\<lambda>(blk, start, junk, retry, new, st). alloc_left retry start new)", goal_cases)
  case 2
  then show ?case by (auto simp: alloc_left_def intro: less_le_trans[of _ 65536])
next
  case 3
  then show ?case using alloc_left_step by auto
qed simp

declare alloc_loop.simps [simp del]

definition fat_fat_allocate_cluster :: "'d dev_blk \<Rightarrow> nat \<Rightarrow> nat \<Rightarrow> 'd fat_st \<Rightarrow> int \<times> nat \<times> 'd fat_st" where
  "fat_fat_allocate_cluster blk junk start st = alloc_loop blk start junk False (u16 (start + 1)) st"

section \<open>The table as a sequence of entries\<close>

text \<open>Byte \<open>k\<close> of the cached table, and entry \<open>n\<close> of it.\<close>

definition fat_byte :: "'d fat_st \<Rightarrow> nat \<Rightarrow> nat" where
  "fat_byte st k = (if k < PAGE_SIZE then ram st (fat_page0 (fctx st)) k else ram st (fat_page1 (fctx st)) (k - PAGE_SIZE))"

definition unpack :: "nat \<Rightarrow> nat \<Rightarrow> nat \<Rightarrow> nat" where
  "unpack n b0 b1 = (if odd n then b0 div 16 + 16 * b1 else b0 + 256 * (b1 mod 16))"

definition fat_entry :: "'d fat_st \<Rightarrow> nat \<Rightarrow> nat" where
  "fat_entry st n = unpack n (fat_byte st (3 * n div 2)) (fat_byte st (3 * n div 2 + 1))"

definition norm :: "nat \<Rightarrow> nat" where
  "norm c = (if c \<ge> 4088 then CLUSTER_END else if c \<ge> 4080 then CLUSTER_RESERVED else c)"

text \<open>\<open>CLUSTERS\<close>: the entries from here on are beyond the disk.\<close>

definition CLUSTERS :: nat where "CLUSTERS = 2849"

definition fat_wf :: "'d fat_st \<Rightarrow> bool" where
  "fat_wf st \<longleftrightarrow> fat_page0 (fctx st) < 256 \<and> fat_page1 (fctx st) < 256 \<and> fat_page0 (fctx st) \<noteq> fat_page1 (fctx st) \<and>
     scratch st < 256 \<and> (\<forall>k < 2 * PAGE_SIZE. fat_byte st k < 256)"

lemma or_plus: "(a :: nat) AND b = 0 \<Longrightarrow> a OR b = a + b"
  by (simp add: disjunctive_add_eq_or)

lemma and_low: "(a :: nat) < 2 ^ k \<Longrightarrow> a AND push_bit k b = 0"
  by (rule bit_eqI) (auto simp: bit_and_iff bit_push_bit_iff, metis bit_take_bit_iff leD take_bit_nat_eq_self_iff)

lemma or_low: "(a :: nat) < 2 ^ k \<Longrightarrow> a OR push_bit k b = a + 2 ^ k * b"
  by (subst or_plus[OF and_low], assumption) (simp add: push_bit_eq_mult mult.commute)

lemma and_15: "(b :: nat) AND 15 = b mod 16" "(b :: nat) AND 255 = b mod 256"
  using take_bit_eq_mask[of 4 b] take_bit_eq_mask[of 8 b] by (simp_all add: take_bit_eq_mod mask_numeral)

lemma and_240: "(b :: nat) < 256 \<Longrightarrow> b AND 240 = 16 * (b div 16)"
proof -
  assume "b < 256"
  moreover have "\<forall>b \<in> set [0 ..< 256]. (b :: nat) AND 240 = 16 * (b div 16)" by code_simp
  ultimately show ?thesis by simp
qed

lemma fits_12: "(c :: nat) < 4096 \<Longrightarrow> c AND 61440 = 0"
  using and_low[of c 12 15] by (simp add: push_bit_eq_mult)

lemma fat_index:
  assumes "n < CLUSTERS"
  shows "u16 (3 * n) div 2 = 3 * n div 2" and "3 * n div 2 < 4273" and "CLUSTER2SECTOR n = n + 31"
    and "\<not> n + 31 \<ge> fat_sector_round_down BLK_SIZE"
  using assms by (auto simp: CLUSTERS_def u16_def CLUSTER2SECTOR_def fat_consts fat_sector_round_down_def BLK_SIZE_def)

lemma unpack_or:
  assumes "b0 < 256"
  shows "unpack n b0 b1 = (if odd n then drop_bit 4 b0 OR push_bit 4 b1 else b0 OR push_bit 8 (b1 AND 15))"
proof -
  have "drop_bit 4 b0 < 2 ^ 4" "b0 < 2 ^ 8" using assms by (simp_all add: drop_bit_eq_div)
  note or_low[OF this(1), of b1] or_low[OF this(2), of "b1 AND 15"]
  then show ?thesis by (simp add: unpack_def drop_bit_eq_div and_15)
qed

lemma get_ok:
  assumes "fat_wf st" and "n < CLUSTERS" and "blk_size blk = BLK_SIZE"
  shows "fat_fat_get blk n old st = (0, norm (fat_entry st n), st)"
proof -
  note ix = fat_index[OF assms(2)]
  define k where "k = 3 * n div 2"
  have k: "k < 4273" using ix(2) by (simp add: k_def)
  have w: "fat_page0 (fctx st) < 256" "fat_page1 (fctx st) < 256" "scratch st < 256"
    and bt: "fat_byte st k < 256" "fat_byte st (k + 1) < 256" using assms(1) k by (auto simp: fat_wf_def PAGE_SIZE_def)
  define pg where "pg = (if k < PAGE_SIZE then fat_page0 (fctx st) else fat_page1 (fctx st))"
  define i where "i = k mod PAGE_SIZE"
  define pg2 where "pg2 = (if i + 1 = PAGE_SIZE then fat_page1 (fctx st) else pg)"
  define i2 where "i2 = (if i + 1 = PAGE_SIZE then 0 else i + 1)"
  have u: "u8 pg = pg" "u8 (fat_page1 (fctx st)) = fat_page1 (fctx st)" "u8 (scratch st) = scratch st"
    using w by (simp_all add: pg_def)
  have b0: "ram st pg i = fat_byte st k" and b1: "ram st pg2 i2 = fat_byte st (k + 1)"
    using k by (auto simp: pg_def pg2_def i_def i2_def fat_byte_def PAGE_SIZE_def mod_if Suc_diff_le[symmetric])
  have "fat_fat_get blk n old st = (0, norm (if odd n then drop_bit 4 (ram st pg i) OR push_bit 4 (ram st pg2 i2)
      else ram st pg i OR push_bit 8 (ram st pg2 i2 AND 15)), st)"
    unfolding fat_fat_get_def assms(3) ix(1,3) k_def[symmetric] Let_def mmu_map_scratch_def peek_def
      pg_def[symmetric] i_def[symmetric]
    using ix(4) u by (cases "i + 1 = PAGE_SIZE") (simp_all add: norm_def pg2_def i2_def)
  then show ?thesis unfolding b0 b1 fat_entry_def k_def[symmetric] unpack_or[OF bt(1)] .
qed

text \<open>
  What \<open>fat_fat_set\<close> changes: two bytes of the table and the dirty bits. Entry 2731 is the one whose
  first byte is at \<open>PAGE_SIZE\<close>.
\<close>

definition same_but_table :: "'d fat_st \<Rightarrow> 'd fat_st \<Rightarrow> bool" where
  "same_but_table st st' \<longleftrightarrow> scratch st' = scratch st \<and> bdev st' = bdev st \<and> files st' = files st \<and>
     fat_page0 (fctx st') = fat_page0 (fctx st) \<and> fat_page1 (fctx st') = fat_page1 (fctx st) \<and>
     (\<forall>p i. p \<noteq> fat_page0 (fctx st) \<longrightarrow> p \<noteq> fat_page1 (fctx st) \<longrightarrow> ram st' p i = ram st p i)"

definition pack0 :: "nat \<Rightarrow> nat \<Rightarrow> nat \<Rightarrow> nat" where
  "pack0 n c b0 = (if odd n then 16 * (c mod 16) + b0 mod 16 else c mod 256)"

definition pack1 :: "nat \<Rightarrow> nat \<Rightarrow> nat \<Rightarrow> nat" where
  "pack1 n c b1 = (if odd n then c div 16 else c div 256 + 16 * (b1 div 16))"

lemma pack_bits:
  assumes "c < 4096" and "b0 < 256" and "b1 < 256"
  shows "u8 ((if odd n then u16 (push_bit 4 c OR (b0 AND 15)) else c) AND 255) = pack0 n c b0"
    and "u8 (drop_bit 8 (if even n then (if odd n then u16 (push_bit 4 c OR (b0 AND 15)) else c) OR push_bit 8 (b1 AND 240)
       else (if odd n then u16 (push_bit 4 c OR (b0 AND 15)) else c))) = pack1 n c b1"
proof -
  have o: "push_bit 4 c OR (b0 AND 15) = 16 * c + b0 mod 16"
    using or_low[of "b0 mod 16" 4 c] by (simp add: and_15 or.commute[of _ "b0 mod 16"])
  have e: "c OR push_bit 8 (b1 AND 240) = c + 4096 * (b1 div 16)"
  proof -
    have "push_bit 8 (b1 AND 240) = push_bit 12 (b1 div 16)" by (simp add: and_240[OF assms(3)] push_bit_eq_mult)
    then show ?thesis using or_low[of c 12 "b1 div 16"] assms(1) by simp
  qed
  have r: "b0 mod 16 < 16" by simp
  have l: "16 * c + b0 mod 16 < 65536" using assms(1) r by linarith
  have cd: "c = 16 * (c div 16) + c mod 16" by simp
  have big: "16 * c + b0 mod 16 = (16 * (c mod 16) + b0 mod 16) + 256 * (c div 16)" using cd by linarith
  have small: "16 * (c mod 16) + b0 mod 16 < 256" using r mod_less_divisor[of 16 c] by linarith
  have m: "(16 * c + b0 mod 16) mod 256 = 16 * (c mod 16) + b0 mod 16" unfolding big using small by simp
  have d: "(16 * c + b0 mod 16) div 256 = c div 16" unfolding big using small by simp
  show "u8 ((if odd n then u16 (push_bit 4 c OR (b0 AND 15)) else c) AND 255) = pack0 n c b0"
    unfolding o using l by (simp add: and_15 u8_def pack0_def m)
  have "c div 16 < 256" "c div 256 < 16" "b1 div 16 < 16" using assms(1,3) by (simp_all add: less_mult_imp_div_less)
  moreover have "(c + 4096 * (b1 div 16)) div 256 = c div 256 + 16 * (b1 div 16)"
    using div_mult_self2[of 256 c "16 * (b1 div 16)"] by (simp add: mult.assoc)
  ultimately have "c div 16 < 256" "c div 256 + 16 * (b1 div 16) < 256"
    "(c + 4096 * (b1 div 16)) div 256 = c div 256 + 16 * (b1 div 16)" by linarith+
  moreover have A: "(if even n then (if odd n then u16 (push_bit 4 c OR (b0 AND 15)) else c) OR push_bit 8 (b1 AND 240)
       else (if odd n then u16 (push_bit 4 c OR (b0 AND 15)) else c)) =
      (if odd n then u16 (16 * c + b0 mod 16) else c + 4096 * (b1 div 16))"
    by (cases "odd n") (simp_all only: if_True if_False not_True_eq_False not_False_eq_True o e HOL.simp_thms)
  ultimately show "u8 (drop_bit 8 (if even n then (if odd n then u16 (push_bit 4 c OR (b0 AND 15)) else c) OR push_bit 8 (b1 AND 240)
       else (if odd n then u16 (push_bit 4 c OR (b0 AND 15)) else c))) = pack1 n c b1"
    unfolding A using l by (simp add: drop_bit_eq_div u8_def pack1_def d)
qed

lemma unpack_pack:
  assumes "c < 4096" and "b0 < 256"
  shows "unpack n (pack0 n c b0) (pack1 n c b1) = c"
proof -
  have "(16 * (c mod 16) + b0 mod 16) div 16 = c mod 16" by simp
  moreover have "(c div 256 + 16 * (b1 div 16)) mod 16 = c div 256" using assms(1) by (simp add: less_mult_imp_div_less)
  moreover have "c mod 16 + 16 * (c div 16) = c" "c mod 256 + 256 * (c div 256) = c" by simp_all
  ultimately show ?thesis by (simp add: unpack_def pack0_def pack1_def)
qed

text \<open>The byte at which \<open>fat_fat_set\<close> begins to write.\<close>

definition slot :: "nat \<Rightarrow> nat" where
  "slot n = (if 3 * n div 2 = PAGE_SIZE then 0 else 3 * n div 2)"

lemma set_ok:
  assumes wf: "fat_wf st" and n: "n < CLUSTERS" and c: "c < 4096" and blk: "blk_size blk = BLK_SIZE"
  shows "\<exists>st'. fat_fat_set blk n c st = (0, st') \<and> same_but_table st st' \<and>
    (\<forall>k < 2 * PAGE_SIZE. fat_byte st' k = (if k = slot n then pack0 n c (fat_byte st k)
       else if k = slot n + 1 then pack1 n c (fat_byte st k) else fat_byte st k)) \<and>
    fat_dirty (fctx st') = (if slot n + 1 = PAGE_SIZE then u16 (u16 (fat_dirty (fctx st) OR 128) OR 256)
      else u16 (fat_dirty (fctx st) OR push_bit (slot n div 512) 1))"
proof -
  note ix = fat_index[OF n]
  define k0 where "k0 = 3 * n div 2"
  define k where "k = slot n"
  have k: "k < 4273" "k \<noteq> 4096" using ix(2) by (auto simp: k_def slot_def PAGE_SIZE_def)
  have k0: "k0 mod PAGE_SIZE = k mod PAGE_SIZE" "k0 > PAGE_SIZE \<longleftrightarrow> k > PAGE_SIZE"
    by (auto simp: k0_def k_def slot_def)
  have w: "fat_page0 (fctx st) < 256" "fat_page1 (fctx st) < 256" "scratch st < 256" "fat_page0 (fctx st) \<noteq> fat_page1 (fctx st)"
    and bt: "fat_byte st k < 256" "fat_byte st (k + 1) < 256" using wf k by (auto simp: fat_wf_def PAGE_SIZE_def)
  define pg where "pg = (if k < PAGE_SIZE then fat_page0 (fctx st) else fat_page1 (fctx st))"
  define i where "i = k mod PAGE_SIZE"
  define pg2 where "pg2 = (if i + 1 = PAGE_SIZE then fat_page1 (fctx st) else pg)"
  define i2 where "i2 = (if i + 1 = PAGE_SIZE then 0 else i + 1)"
  have u: "u8 pg = pg" "u8 pg2 = pg2" "u8 (scratch st) = scratch st" "u8 (fat_page1 (fctx st)) = fat_page1 (fctx st)"
    using w by (simp_all add: pg_def pg2_def)
  have b0: "ram st pg i = fat_byte st k" and b1: "ram st pg2 i2 = fat_byte st (k + 1)"
    using k by (auto simp: pg_def pg2_def i_def i2_def fat_byte_def PAGE_SIZE_def mod_if Suc_diff_le[symmetric])
  have psel: "(if (if k > PAGE_SIZE then 1 else 0) = (1 :: nat) then fat_page1 (fctx st) else fat_page0 (fctx st)) = pg"
    using k by (auto simp: pg_def PAGE_SIZE_def)
  have dist: "(pg, i) \<noteq> (pg2, i2)" using w k by (auto simp: pg_def pg2_def i_def i2_def PAGE_SIZE_def)
  define r where "r = (ram st)(pg := (ram st pg)(i := pack0 n c (fat_byte st k)))"
  define r' where "r' = r(pg2 := (r pg2)(i2 := pack1 n c (fat_byte st (k + 1))))"
  have rb: "r pg2 i2 = fat_byte st (k + 1)" using dist b1 by (auto simp: r_def)
  define x where "x = (if odd n then u16 (push_bit 4 c OR (fat_byte st k AND 15)) else c)"
  have x0: "u8 (x AND 255) = pack0 n c (fat_byte st k)"
    and x1: "u8 (drop_bit 8 (if even n then x OR push_bit 8 (fat_byte st (k + 1) AND 240) else x)) = pack1 n c (fat_byte st (k + 1))"
    unfolding x_def by (rule pack_bits[OF c bt])+
  define st1 where "st1 = snd (mmu_map_scratch pg st)"
  define y where "y = (if odd n then u16 (push_bit 4 c OR (peek i st1 AND 15)) else c)"
  define st2 where "st2 = set_dirty (push_bit 3 (if k > PAGE_SIZE then 1 else 0) + drop_bit 9 i) (poke i (y AND 255) st1)"
  define st3 where "st3 = (if i + 1 = PAGE_SIZE then set_dirty 8 (snd (mmu_map_scratch (fat_page1 (fctx st)) st2)) else st2)"
  define z where "z = (if even n then y OR push_bit 8 (peek i2 st3 AND 240) else y)"
  define st4 where "st4 = poke i2 (drop_bit 8 z) st3"
  have mm: "mmu_map_scratch pg st = (scratch st, st1)" by (simp add: mmu_map_scratch_def st1_def)
  have run: "fat_fat_set blk n c st = (0, snd (mmu_map_scratch (scratch st) st4))"
    unfolding fat_fat_set_def blk ix(1,3) k0_def[symmetric] Let_def k0 psel i_def[symmetric]
    unfolding mm prod.case y_def[symmetric] st2_def[symmetric]
    using ix(4) fits_12[OF c] by (simp add: st4_def z_def st3_def i2_def)
  have s1: "ram st1 = ram st" "scratch st1 = pg" using u by (simp_all add: st1_def mmu_map_scratch_def)
  then have "peek i st1 = fat_byte st k" by (simp add: peek_def b0)
  then have yx: "y = x" by (simp add: y_def x_def)
  have s2: "ram st2 = r" "scratch st2 = pg" using s1 by (simp_all add: st2_def set_dirty_def poke_def yx x0 r_def)
  have s3: "ram st3 = r" "scratch st3 = pg2"
    using s2 u by (simp_all add: st3_def set_dirty_def mmu_map_scratch_def pg2_def)
  then have "peek i2 st3 = fat_byte st (k + 1)" by (simp add: peek_def rb)
  then have "u8 (drop_bit 8 z) = pack1 n c (fat_byte st (k + 1))" unfolding z_def yx by (simp only: x1)
  then have s4: "ram st4 = r'" using s3 by (simp add: st4_def poke_def r'_def)
  define st' where "st' = snd (mmu_map_scratch (scratch st) st4)"
  have rest: "ram st' = r'" "scratch st' = scratch st" "bdev st' = bdev st" "files st' = files st"
    "fat_page0 (fctx st') = fat_page0 (fctx st)" "fat_page1 (fctx st') = fat_page1 (fctx st)"
    using s4 u by (simp_all add: st'_def mmu_map_scratch_def st4_def poke_def st3_def set_dirty_def st2_def st1_def)
  have "drop_bit 9 i = i div 512" by (simp add: drop_bit_eq_div)
  moreover have "(if k > PAGE_SIZE then 8 else 0) + i div 512 = k div 512" "i + 1 = PAGE_SIZE \<longleftrightarrow> k + 1 = PAGE_SIZE"
    "i + 1 = PAGE_SIZE \<Longrightarrow> i div 512 = 7"
    using k by (auto simp: i_def PAGE_SIZE_def mod_if)
  ultimately have dirty: "fat_dirty (fctx st') = (if k + 1 = PAGE_SIZE then u16 (u16 (fat_dirty (fctx st) OR 128) OR 256)
      else u16 (fat_dirty (fctx st) OR push_bit (k div 512) 1))"
    by (auto simp: st'_def mmu_map_scratch_def st4_def poke_def st3_def set_dirty_def st2_def st1_def)
  show ?thesis
  proof (intro exI conjI allI impI)
    show "fat_dirty (fctx st') = (if slot n + 1 = PAGE_SIZE then u16 (u16 (fat_dirty (fctx st) OR 128) OR 256)
      else u16 (fat_dirty (fctx st) OR push_bit (slot n div 512) 1))" using dirty by (simp add: k_def)
    show "fat_fat_set blk n c st = (0, st')" using run by (simp add: st'_def)
    show "same_but_table st st'" using rest by (auto simp: same_but_table_def r'_def r_def pg_def pg2_def)
    fix j assume j: "j < 2 * PAGE_SIZE"
    define loc where "loc m = (if m < PAGE_SIZE then (fat_page0 (fctx st), m) else (fat_page1 (fctx st), m - PAGE_SIZE))" for m
    have lk: "loc k = (pg, i)" "loc (k + 1) = (pg2, i2)"
      using k by (auto simp: loc_def pg_def pg2_def i_def i2_def PAGE_SIZE_def mod_if Suc_diff_le[symmetric])
    have inj: "loc m = loc m' \<longleftrightarrow> m = m'" for m m' using w(4) by (auto simp: loc_def)
    have fb: "fat_byte s m = (case loc m of (p, q) \<Rightarrow> ram s p q)"
      if "fat_page0 (fctx s) = fat_page0 (fctx st)" "fat_page1 (fctx s) = fat_page1 (fctx st)" for s :: "'a fat_st" and m
      using that by (simp add: fat_byte_def loc_def)
    have rr: "r' p q = (if (p, q) = (pg2, i2) then pack1 n c (fat_byte st (k + 1)) else if (p, q) = (pg, i) then pack0 n c (fat_byte st k)
      else ram st p q)" for p q using dist by (auto simp: r'_def r_def)
    have "fat_byte st' j = (if j = k + 1 then pack1 n c (fat_byte st (k + 1)) else if j = k then pack0 n c (fat_byte st k) else fat_byte st j)"
      using inj[of j k] inj[of j "k + 1"] unfolding fb[OF rest(5,6)] fb[of st j, OF refl refl] rest(1) lk
      by (cases "loc j") (auto simp: rr)
    then show "fat_byte st' j = (if j = slot n then pack0 n c (fat_byte st j)
       else if j = slot n + 1 then pack1 n c (fat_byte st j) else fat_byte st j)"
      unfolding k_def[symmetric] by simp
  qed
qed

lemma pack_bounds:
  assumes "c < 4096" and "b < 256"
  shows "pack0 n c b < 256" and "pack1 n c b < 256"
proof -
  have "c mod 16 < 16" "b mod 16 < 16" "c div 16 < 256" "c div 256 < 16" "b div 16 < 16"
    using assms by (simp_all add: less_mult_imp_div_less)
  then have "16 * (c mod 16) + b mod 16 < 256" "c div 256 + 16 * (b div 16) < 256" "c div 16 < 256" by linarith+
  then show "pack0 n c b < 256" "pack1 n c b < 256" by (simp_all add: pack0_def pack1_def)
qed

text \<open>Neighbouring entries share a byte; the bits of the neighbour are kept.\<close>

lemma pack_neighbour:
  assumes "c < 4096"
  shows "odd n \<Longrightarrow> pack0 n c b mod 16 = b mod 16" and "even n \<Longrightarrow> pack1 n c b div 16 = b div 16"
  using assms by (simp_all add: pack0_def pack1_def mod_add_eq less_mult_imp_div_less)

lemma entry_index: "m \<noteq> n \<Longrightarrow> 3 * m div 2 \<noteq> 3 * n div 2 \<and> (3 * m div 2 = 3 * n div 2 + 1 \<longrightarrow> m = n + 1 \<and> even n) \<and>
    (3 * n div 2 = 3 * m div 2 + 1 \<longrightarrow> n = m + 1 \<and> even m)" for m n :: nat
proof -
  assume ne: "m \<noteq> n"
  obtain a where a: "m = 2 * a \<or> m = 2 * a + 1" by (metis even_two_times_div_two odd_two_times_div_two_succ)
  obtain b where b: "n = 2 * b \<or> n = 2 * b + 1" by (metis even_two_times_div_two odd_two_times_div_two_succ)
  have xs: "3 * (2 * x) div 2 = 3 * x" "3 * (2 * x + 1) div 2 = 3 * x + 1" for x :: nat by simp_all
  show ?thesis using a b ne by (elim disjE; simp only: xs; presburger)
qed

lemma set_entries:
  assumes wf: "fat_wf st" and n: "n < CLUSTERS" "n \<noteq> 2731" and c: "c < 4096" and blk: "blk_size blk = BLK_SIZE"
  shows "\<exists>st'. fat_fat_set blk n c st = (0, st') \<and> fat_wf st' \<and> same_but_table st st' \<and>
    (\<forall>m < CLUSTERS. fat_entry st' m = (if m = n then c else fat_entry st m))"
proof -
  have sl: "slot n = 3 * n div 2" using n(2) by (auto simp: slot_def PAGE_SIZE_def)
  from set_ok[OF wf n(1) c blk, unfolded sl] obtain st' where st': "fat_fat_set blk n c st = (0, st')" "same_but_table st st'"
      "\<And>k. k < 2 * PAGE_SIZE \<Longrightarrow> fat_byte st' k = (if k = 3 * n div 2 then pack0 n c (fat_byte st k)
       else if k = 3 * n div 2 + 1 then pack1 n c (fat_byte st k) else fat_byte st k)" by blast
  have byte: "fat_byte st k < 256" if "k < 2 * PAGE_SIZE" for k using wf that by (simp add: fat_wf_def)
  have lt: "3 * m div 2 < 2 * PAGE_SIZE" "3 * m div 2 + 1 < 2 * PAGE_SIZE" if "m < CLUSTERS" for m
    using fat_index(2)[OF that] by (simp_all add: PAGE_SIZE_def)
  have "fat_wf st'" using wf st'(2) unfolding fat_wf_def same_but_table_def
    by (simp add: st'(3) pack_bounds[OF c])
  moreover have "fat_entry st' m = (if m = n then c else fat_entry st m)" if m: "m < CLUSTERS" for m
  proof (cases "m = n")
    case True
    then have "fat_entry st' m = unpack n (pack0 n c (fat_byte st (3 * n div 2))) (pack1 n c (fat_byte st (3 * n div 2 + 1)))"
      using st'(3)[OF lt(1)[OF n(1)]] st'(3)[OF lt(2)[OF n(1)]] by (simp add: fat_entry_def)
    then show ?thesis using unpack_pack[OF c byte[OF lt(1)[OF n(1)]]] True by simp
  next
    case False
    note ei = entry_index[OF False]
    have "unpack m (fat_byte st' (3 * m div 2)) (fat_byte st' (3 * m div 2 + 1)) =
      unpack m (fat_byte st (3 * m div 2)) (fat_byte st (3 * m div 2 + 1))"
      using ei st'(3)[OF lt(1)[OF m]] st'(3)[OF lt(2)[OF m]] pack_neighbour[OF c]
      by (auto simp: unpack_def)
    then show ?thesis using False by (simp add: fat_entry_def)
  qed
  ultimately show ?thesis using st' by blast
qed

section \<open>Chains of clusters\<close>

text \<open>The clusters \<open>cs\<close> of a file that begins at \<open>c\<close>: valid data clusters up to the end mark.\<close>

fun chain_of :: "'d fat_st \<Rightarrow> nat \<Rightarrow> nat list \<Rightarrow> bool" where
  "chain_of st c [] \<longleftrightarrow> False"
| "chain_of st c [x] \<longleftrightarrow> x = c \<and> 2 \<le> x \<and> x < CLUSTERS \<and> norm (fat_entry st x) = CLUSTER_END"
| "chain_of st c (x # y # ys) \<longleftrightarrow> x = c \<and> 2 \<le> x \<and> x < CLUSTERS \<and> norm (fat_entry st x) = y \<and> chain_of st y (y # ys)"

lemma chain_head: "chain_of st c cs \<Longrightarrow> cs \<noteq> [] \<and> cs ! 0 = c \<and> 2 \<le> c \<and> c < CLUSTERS"
  by (cases "(st, c, cs)" rule: chain_of.cases) auto

lemma chain_elems: "chain_of st c cs \<Longrightarrow> x \<in> set cs \<Longrightarrow> 2 \<le> x \<and> x < CLUSTERS"
  by (induction st c cs rule: chain_of.induct) auto

lemma chain_drop: "chain_of st c cs \<Longrightarrow> k < length cs \<Longrightarrow> chain_of st (cs ! k) (drop k cs)"
proof (induction k arbitrary: c cs)
  case 0
  then show ?case using chain_head by fastforce
next
  case (Suc k)
  then show ?case by (cases "(st, c, cs)" rule: chain_of.cases) auto
qed

lemma norm_simps: "norm c = CLUSTER_FREE \<longleftrightarrow> c = 0" "c < 4080 \<Longrightarrow> norm c = c"
  by (auto simp: norm_def fat_consts)

lemma next_ok:
  assumes "fat_wf st" and "blk_size blk = BLK_SIZE" and "chain_of st c cs"
  shows "fat_fat_next blk c st = (if length cs = 1 then (1, CLUSTER_END, st) else (0, cs ! 1, st))"
proof -
  have c: "c < CLUSTERS" using chain_head[OF assms(3)] by simp
  note g = get_ok[OF assms(1) c assms(2), of c]
  show ?thesis
  proof (cases "(st, c, cs)" rule: chain_of.cases)
    case (2 st' c' x)
    then show ?thesis using assms(3) g by (auto simp: fat_fat_next_def fat_consts)
  next
    case (3 st' c' x y ys)
    then have "norm (fat_entry st c) = y" "2 \<le> y" "y < CLUSTERS" using assms(3) chain_head[of st y "y # ys"] by auto
    then show ?thesis using 3 g by (simp add: fat_fat_next_def fat_consts CLUSTERS_def)
  qed (use assms(3) in simp)
qed

lemma seek_ok:
  assumes "fat_wf st" and "blk_size blk = BLK_SIZE" and "chain_of st c cs" and "offs div FAT12_SECTOR_SIZE < length cs"
  shows "fat_fat_seek blk c offs st = (0, cs ! (offs div FAT12_SECTOR_SIZE), st)"
  using assms(3,4)
proof (induction offs arbitrary: c cs rule: less_induct)
  case (less offs)
  show ?case
  proof (cases "offs < FAT12_SECTOR_SIZE")
    case True
    then show ?thesis using chain_head[OF less.prems(1)] by (subst fat_fat_seek.simps) simp
  next
    case False
    define o' where "o' = offs - FAT12_SECTOR_SIZE"
    have q: "offs div FAT12_SECTOR_SIZE = Suc (o' div FAT12_SECTOR_SIZE)"
      using False by (simp add: o'_def le_div_geq FAT12_SECTOR_SIZE_def)
    then have l: "1 < length cs" using less.prems(2) by simp
    have n: "fat_fat_next blk c st = (0, cs ! 1, st)" using next_ok[OF assms(1,2) less.prems(1)] l by simp
    have "o' < offs" using False by (simp add: o'_def FAT12_SECTOR_SIZE_def)
    then have "fat_fat_seek blk (cs ! 1) o' st = (0, drop 1 cs ! (o' div FAT12_SECTOR_SIZE), st)"
      using less.IH[of o' "cs ! 1" "drop 1 cs"] chain_drop[OF less.prems(1) l] less.prems(2) q by simp
    then show ?thesis using False n q l by (subst fat_fat_seek.simps) (simp add: o'_def[symmetric])
  qed
qed

lemma seek_eof:
  assumes "fat_wf st" and "blk_size blk = BLK_SIZE" and "chain_of st c cs" and "length cs \<le> offs div FAT12_SECTOR_SIZE"
  shows "fat_fat_seek blk c offs st = (1, CLUSTER_END, st)"
  using assms(3,4)
proof (induction offs arbitrary: c cs rule: less_induct)
  case (less offs)
  have l: "0 < length cs" using chain_head[OF less.prems(1)] by simp
  have big: "\<not> offs < FAT12_SECTOR_SIZE" using l less.prems(2) by (auto simp: div_less)
  define o' where "o' = offs - FAT12_SECTOR_SIZE"
  have q: "offs div FAT12_SECTOR_SIZE = Suc (o' div FAT12_SECTOR_SIZE)"
    using big by (simp add: o'_def le_div_geq FAT12_SECTOR_SIZE_def)
  show ?case
  proof (cases "length cs = 1")
    case True
    then show ?thesis using next_ok[OF assms(1,2) less.prems(1)] big by (subst fat_fat_seek.simps) simp
  next
    case False
    with l have l1: "1 < length cs" by linarith
    have n: "fat_fat_next blk c st = (0, cs ! 1, st)" using next_ok[OF assms(1,2) less.prems(1)] l1 by simp
    have "o' < offs" using big by (simp add: o'_def FAT12_SECTOR_SIZE_def)
    then have "fat_fat_seek blk (cs ! 1) o' st = (1, CLUSTER_END, st)"
      using less.IH[of o' "cs ! 1" "drop 1 cs"] chain_drop[OF less.prems(1) l1] less.prems(2) q by simp
    then show ?thesis using big n by (subst fat_fat_seek.simps) (simp add: o'_def[symmetric])
  qed
qed

section \<open>Allocation\<close>

lemma get_beyond:
  assumes "CLUSTERS \<le> n" and "n < 65505" and "blk_size blk = BLK_SIZE"
  shows "fat_fat_get blk n old st = (- EIO, old, st)"
  using assms by (simp add: fat_fat_get_def CLUSTER2SECTOR_def u16_def fat_consts fat_sector_round_down_def BLK_SIZE_def CLUSTERS_def)

lemma alloc_walk:
  assumes "fat_wf st" and "blk_size blk = BLK_SIZE"
    and "\<And>x. new \<le> x \<Longrightarrow> x < new + k \<Longrightarrow> fat_entry st x \<noteq> 0" and "new + k \<le> CLUSTERS"
    and "start < new \<or> new + k \<le> start" and "start < CLUSTERS"
  shows "alloc_loop blk start junk retry new st = alloc_loop blk start junk retry (new + k) st"
  using assms(3-5)
proof (induction k arbitrary: new)
  case 0
  then show ?case by simp
next
  case (Suc k)
  have lt: "new < CLUSTERS" "u16 new = new" "u16 start = start" "new \<noteq> start"
    using Suc.prems(2,3) assms(6) by (auto simp: CLUSTERS_def)
  have "norm (fat_entry st new) \<noteq> CLUSTER_FREE" using Suc.prems(1)[of new] norm_simps(1) by simp
  then have "alloc_loop blk start junk retry new st = alloc_loop blk start junk retry (new + 1) st"
    using lt get_ok[OF assms(1) lt(1) assms(2), of junk] by (subst alloc_loop.simps) simp
  also have "\<dots> = alloc_loop blk start junk retry (new + 1 + k) st"
    by (rule Suc.IH) (use Suc.prems in auto)
  finally show ?case by simp
qed

lemma alloc_ok:
  assumes "fat_wf st" and "blk_size blk = BLK_SIZE" and "start < CLUSTERS"
    and x: "start < x" "x < CLUSTERS" "fat_entry st x = 0" "\<And>y. start < y \<Longrightarrow> y < x \<Longrightarrow> fat_entry st y \<noteq> 0"
  shows "fat_fat_allocate_cluster blk junk start st = (0, x, st)"
proof -
  have "alloc_loop blk start junk False (start + 1) st = alloc_loop blk start junk False (start + 1 + (x - start - 1)) st"
    by (rule alloc_walk) (use assms in auto)
  also have "start + 1 + (x - start - 1) = x" using x(1) by simp
  also have "alloc_loop blk start junk False x st = (0, x, st)"
    using get_ok[OF assms(1) x(2) assms(2), of junk] x assms(3)
    by (subst alloc_loop.simps) (simp add: CLUSTERS_def norm_def CLUSTER_FREE_def)
  finally show ?thesis using assms(3) by (simp add: fat_fat_allocate_cluster_def CLUSTERS_def)
qed

text \<open>No free cluster above \<open>start\<close>: the walk runs off the table.\<close>

lemma alloc_wraps:
  assumes "fat_wf st" and "blk_size blk = BLK_SIZE" and "start < CLUSTERS"
    and "\<And>y. start < y \<Longrightarrow> y < CLUSTERS \<Longrightarrow> fat_entry st y \<noteq> 0"
  shows "fat_fat_allocate_cluster blk junk start st =
    (if junk = CLUSTER_FREE then (0, 0, st) else alloc_loop blk start junk True 1 st)"
proof -
  have "alloc_loop blk start junk False (start + 1) st = alloc_loop blk start junk False (start + 1 + (CLUSTERS - start - 1)) st"
    by (rule alloc_walk) (use assms in auto)
  also have "start + 1 + (CLUSTERS - start - 1) = CLUSTERS" using assms(3) by simp
  also have "alloc_loop blk start junk False CLUSTERS st =
      (if junk = CLUSTER_FREE then (0, 0, st) else alloc_loop blk start junk True 1 st)"
    using get_beyond[of CLUSTERS blk junk st] assms(2,3)
    by (subst alloc_loop.simps) (simp add: CLUSTERS_def EIO_def)
  finally show ?thesis using assms(3) by (simp add: fat_fat_allocate_cluster_def CLUSTERS_def)
qed

text \<open>A full disk.\<close>

lemma alloc_full:
  assumes "fat_wf st" and "blk_size blk = BLK_SIZE" and "start < CLUSTERS" and "junk \<noteq> CLUSTER_FREE"
    and "\<And>y. 0 < y \<Longrightarrow> y < CLUSTERS \<Longrightarrow> y \<noteq> start \<Longrightarrow> fat_entry st y \<noteq> 0"
  shows "fst (fat_fat_allocate_cluster blk junk start st) = (if start = 0 then - EIO else - ENOSPC)"
proof -
  have "fat_fat_allocate_cluster blk junk start st = alloc_loop blk start junk True 1 st"
    using alloc_wraps[OF assms(1-3), of junk] assms(4,5) by auto
  also have "\<dots> = (if start = 0 then (- EIO, CLUSTERS, st) else (- ENOSPC, start, st))"
  proof (cases "start = 0")
    case True
    have "alloc_loop blk start junk True 1 st = alloc_loop blk start junk True (1 + (CLUSTERS - 1)) st"
      by (rule alloc_walk) (use assms True in \<open>auto simp: CLUSTERS_def\<close>)
    also have "alloc_loop blk start junk True (1 + (CLUSTERS - 1)) st = (- EIO, CLUSTERS, st)"
      using get_beyond[of CLUSTERS blk junk st] assms(2) True
      by (subst alloc_loop.simps) (simp add: CLUSTERS_def EIO_def)
    finally show ?thesis using True by simp
  next
    case False
    have "alloc_loop blk start junk True 1 st = alloc_loop blk start junk True (1 + (start - 1)) st"
      by (rule alloc_walk) (use assms False in auto)
    also have "alloc_loop blk start junk True (1 + (start - 1)) st = (- ENOSPC, start, st)"
      using False assms(3) by (subst alloc_loop.simps) (simp add: CLUSTERS_def)
    finally show ?thesis using False by simp
  qed
  finally show ?thesis by simp
qed

end
