(* ===== verification/FatDir.thy ===== *)
theory FatDir
  imports FatTable
begin

text \<open>
  Directory entries of \<open>kernel/fs/fat.c\<close>: the 32 byte \<open>struct fat_dentry\<close> and its layout on the
  medium, the 8.3 names in both directions, attributes, and access to the entries of a directory.
  Strings are lists of character codes; the NUL that ends a C string is not part of the list.
\<close>

section \<open>Files and access modes (bits/fcntl.h)\<close>

definition S_IFMT :: nat where "S_IFMT = 31"
definition S_IFREG :: nat where "S_IFREG = 16"
definition S_IFDIR :: nat where "S_IFDIR = 4"
definition S_IR :: nat where "S_IR = 128"
definition S_IW :: nat where "S_IW = 64"
definition S_IX :: nat where "S_IX = 32"
definition S_ISREG :: "nat \<Rightarrow> bool" where "S_ISREG m \<longleftrightarrow> m AND S_IFMT = S_IFREG"
definition S_ISDIR :: "nat \<Rightarrow> bool" where "S_ISDIR m \<longleftrightarrow> m AND S_IFMT = S_IFDIR"

lemmas mode_defs = S_IFMT_def S_IFREG_def S_IFDIR_def S_IR_def S_IW_def S_IX_def S_ISREG_def S_ISDIR_def

section \<open>Entries\<close>

text \<open>\<open>struct fs_dentry\<close>; the times are always 0.\<close>

record fs_dentry =
  d_attr :: nat
  d_ctime :: int
  d_atime :: int
  d_mtime :: int
  d_size :: nat
  d_name :: "nat list"

definition fat_attr2epoch :: "nat \<Rightarrow> nat \<Rightarrow> int" where "fat_attr2epoch date time = 0"

record fat_dentry =
  fd_fname :: "nat list"
  fd_extension :: "nat list"
  fd_attr :: nat
  fd_res0 :: nat
  fd_ctime :: nat
  fd_cdate :: nat
  fd_adate :: nat
  fd_res1 :: nat
  fd_mtime :: nat
  fd_mdate :: nat
  fd_cluster :: nat
  fd_size :: nat

definition DENTRY_SIZE :: nat where "DENTRY_SIZE = 32"

definition le16 :: "nat \<Rightarrow> nat list" where "le16 v = [v mod 256, v div 256 mod 256]"
definition le32 :: "nat \<Rightarrow> nat list" where "le32 v = le16 (v mod 65536) @ le16 (v div 65536 mod 65536)"
definition get16 :: "nat list \<Rightarrow> nat \<Rightarrow> nat" where "get16 bs i = bs ! i + 256 * bs ! (i + 1)"
definition get32 :: "nat list \<Rightarrow> nat \<Rightarrow> nat" where "get32 bs i = get16 bs i + 65536 * get16 bs (i + 2)"

definition dentry_bytes :: "fat_dentry \<Rightarrow> nat list" where
  "dentry_bytes d = fd_fname d @ fd_extension d @ [fd_attr d] @ le16 (fd_res0 d) @ le16 (fd_ctime d) @ le16 (fd_cdate d) @
     le16 (fd_adate d) @ le16 (fd_res1 d) @ le16 (fd_mtime d) @ le16 (fd_mdate d) @ le16 (fd_cluster d) @ le32 (fd_size d)"

definition dentry_of :: "nat list \<Rightarrow> fat_dentry" where
  "dentry_of bs = \<lparr>fd_fname = take 8 bs, fd_extension = take 3 (drop 8 bs), fd_attr = bs ! 11, fd_res0 = get16 bs 12,
     fd_ctime = get16 bs 14, fd_cdate = get16 bs 16, fd_adate = get16 bs 18, fd_res1 = get16 bs 20, fd_mtime = get16 bs 22,
     fd_mdate = get16 bs 24, fd_cluster = get16 bs 26, fd_size = get32 bs 28\<rparr>"

definition dentry_ok :: "fat_dentry \<Rightarrow> bool" where
  "dentry_ok d \<longleftrightarrow> length (fd_fname d) = 8 \<and> length (fd_extension d) = 3 \<and> fd_attr d < 256 \<and> fd_res0 d < 65536 \<and>
     fd_ctime d < 65536 \<and> fd_cdate d < 65536 \<and> fd_adate d < 65536 \<and> fd_res1 d < 65536 \<and> fd_mtime d < 65536 \<and>
     fd_mdate d < 65536 \<and> fd_cluster d < 65536 \<and> fd_size d < 4294967296"

section \<open>Access\<close>

text \<open>
  \<open>fat_file_dir_access\<close> for the directory that begins at \<open>cl\<close>: result, \<open>*sector\<close> and \<open>*offset\<close>. The
  root directory (\<open>0xffff\<close>) has a fixed place; the length of it is not looked at.
\<close>

definition fat_file_dir_access :: "'d dev_blk \<Rightarrow> nat \<Rightarrow> nat \<Rightarrow> 'd fat_st \<Rightarrow> int \<times> nat \<times> nat \<times> 'd fat_st" where
  "fat_file_dir_access blk cl idx st = (let offs = idx * DENTRY_SIZE in
     if cl = 65535 then (0, u16 (1 + FAT12_FAT_COPIES * FAT12_FAT_SIZE + fat_sector_round_down offs), offs mod FAT12_SECTOR_SIZE, st)
     else (let (err, cluster, st1) = fat_fat_seek blk cl offs st in
       if err < 0 then (err, 0, 0, st1)
       else if err > 0 then (- ENOENT, 0, 0, st1)
       else (0, CLUSTER2SECTOR cluster, offs mod FAT12_SECTOR_SIZE, st1)))"

text \<open>An entry of which less than all its bytes were read is indeterminate.\<close>

definition fat_file_dir_read :: "'d dev_blk \<Rightarrow> nat \<Rightarrow> nat \<Rightarrow> 'd fat_st \<Rightarrow> (int \<times> fat_dentry \<times> 'd fat_st) option" where
  "fat_file_dir_read blk cl idx st =
     (let (err, sector, offset, st1) = fat_file_dir_access blk cl idx st in
      if err < 0 then Some (err, dentry_of (replicate DENTRY_SIZE 0), st1)
      else do {
        (r, bytes, d) \<leftarrow> blk_read blk (fat_sector_offset sector + offset) DENTRY_SIZE (bdev st1);
        (if s8 r < 0 then Some (s8 r, dentry_of (replicate DENTRY_SIZE 0), st1\<lparr>bdev := d\<rparr>)
         else do { check (length bytes = DENTRY_SIZE); Some (0, dentry_of bytes, st1\<lparr>bdev := d\<rparr>) }) })"

definition fat_file_dir_write :: "'d dev_blk \<Rightarrow> nat \<Rightarrow> fat_dentry \<Rightarrow> nat \<Rightarrow> 'd fat_st \<Rightarrow> (int \<times> 'd fat_st) option" where
  "fat_file_dir_write blk cl entry idx st =
     (let (err, sector, offset, st1) = fat_file_dir_access blk cl idx st in
      if err < 0 then Some (err, st1)
      else do {
        (r, d) \<leftarrow> blk_write blk (fat_sector_offset sector + offset) (dentry_bytes entry) (bdev st1);
        Some (if s8 r < 0 then (s8 r, st1\<lparr>bdev := d\<rparr>) else (0, st1\<lparr>bdev := d\<rparr>)) })"

section \<open>Attributes\<close>

definition fat_attr2fat :: "nat \<Rightarrow> nat" where
  "fat_attr2fat attr = (if attr AND S_IW = 0 then 1 else 0) OR (if attr AND S_IFDIR \<noteq> 0 then push_bit 4 1 else 0)"

definition fat_fat2attr :: "nat \<Rightarrow> nat" where
  "fat_fat2attr fattr = S_IX OR S_IR OR (if \<not> bit fattr 0 then S_IW else 0) OR (if bit fattr 4 then S_IFDIR else S_IFREG)"

section \<open>Names\<close>

definition toupper :: "nat \<Rightarrow> nat" where
  "toupper c = (if 97 \<le> c \<and> c \<le> 122 then c - 32 else c)"

text \<open>\<open>name[pos]\<close> of a C string\<close>

definition chr_at :: "nat list \<Rightarrow> nat \<Rightarrow> nat" where
  "chr_at name pos = (if pos < length name then name ! pos else 0)"

text \<open>The two loops of \<open>fat_op_create\<close> that fill \<open>fname\<close> and \<open>extension\<close>, and the position they reach.\<close>

fun name_loop :: "bool \<Rightarrow> nat list \<Rightarrow> nat \<Rightarrow> nat \<Rightarrow> nat list \<Rightarrow> nat \<Rightarrow> nat list \<times> nat" where
  "name_loop stop name i 0 field pos = (field, pos)"
| "name_loop stop name i (Suc n) field pos =
     (if chr_at name pos = 0 \<or> (stop \<and> chr_at name pos = 46) then (field, pos)
      else name_loop stop name (i + 1) n (field[i := toupper (chr_at name pos)]) (pos + 1))"

text \<open>The part of \<open>fat_op_create\<close> that turns \<open>name\<close> into the two fields; \<open>None\<close> is \<open>-ENAMETOOLONG\<close>.\<close>

definition fat_split_name :: "nat list \<Rightarrow> (nat list \<times> nat list) option" where
  "fat_split_name name =
     (let (fname, pos) = name_loop True name 0 8 (replicate 8 32) 0;
          (ext, pos') = (if chr_at name pos = 46 then name_loop False name 0 3 (replicate 3 32) (pos + 1) else (replicate 3 32, pos))
      in if chr_at name pos' \<noteq> 0 then None else Some (fname, ext))"

text \<open>
  \<open>fat_op_readdir\<close> builds \<open>dentry->name\<close> in place; \<open>skip_back name pos\<close> is the loop
  \<open>while (name[pos] == ' ') --pos\<close>, \<open>None\<close> when it would step over the beginning.
\<close>

fun skip_back :: "nat list \<Rightarrow> nat \<Rightarrow> nat option" where
  "skip_back name 0 = (if name ! 0 = 32 then None else Some 0)"
| "skip_back name (Suc pos) = (if name ! Suc pos = 32 then skip_back name pos else Some (Suc pos))"

text \<open>A list of 32 characters, \<open>name\<close>, before and after; \<open>None\<close> is \<open>-EIO\<close>.\<close>

definition FS_NAME_LENGTH_MAX :: nat where "FS_NAME_LENGTH_MAX = 32"

definition put :: "nat list \<Rightarrow> nat \<Rightarrow> nat list \<Rightarrow> nat list" where
  "put name at bytes = take at name @ bytes @ drop (at + length bytes) name"

definition fat_join_name :: "nat list \<Rightarrow> nat list \<Rightarrow> nat list \<Rightarrow> nat list option" where
  "fat_join_name buf fname ext = (let name1 = put buf 0 fname in
     case skip_back name1 7 of None \<Rightarrow> None
     | Some p \<Rightarrow> let ppos = p + 1; name2 = put (name1[ppos := 32]) (ppos + 1) ext in
        (case skip_back name2 (ppos + 3) of None \<Rightarrow> None
         | Some pos \<Rightarrow> let name3 = (if ppos \<noteq> pos then name2[ppos := 46] else name2) in Some (name3[pos + 1 := 0])))"

definition c_string :: "nat list \<Rightarrow> nat list" where
  "c_string bs = takeWhile (\<lambda>b. b \<noteq> 0) bs"

section \<open>Layout\<close>

lemma le16_simps [simp]: "length (le16 v) = 2"
  by (simp add: le16_def)

lemma le32_simps [simp]: "length (le32 v) = 4"
  by (simp add: le32_def)

lemma dentry_bytes_length: "dentry_ok d \<Longrightarrow> length (dentry_bytes d) = DENTRY_SIZE"
  by (simp add: dentry_ok_def dentry_bytes_def DENTRY_SIZE_def)

lemma dentry_roundtrip:
  assumes "dentry_ok d"
  shows "dentry_of (dentry_bytes d) = d"
proof -
  have l: "length (fd_fname d) = 8" "length (fd_extension d) = 3" using assms by (simp_all add: dentry_ok_def)
  obtain a0 a1 a2 a3 a4 a5 a6 a7 where f: "fd_fname d = [a0, a1, a2, a3, a4, a5, a6, a7]"
    using l(1) by (auto simp: length_Suc_conv eval_nat_numeral)
  obtain e0 e1 e2 where e: "fd_extension d = [e0, e1, e2]" using l(2) by (auto simp: length_Suc_conv eval_nat_numeral)
  have w: "v mod 256 + 256 * (v div 256 mod 256) = v" if "v < 65536" for v :: nat
  proof -
    have "v div 256 < 256" using that by (simp add: less_mult_imp_div_less)
    then show ?thesis by simp
  qed
  have dw: "x mod 65536 + 65536 * (x div 65536 mod 65536) = x" if "x < 4294967296" for x :: nat
  proof -
    have "x div 65536 < 65536" using that by (simp add: less_mult_imp_div_less)
    then show ?thesis by simp
  qed
  have b: "fd_res0 d < 65536" "fd_ctime d < 65536" "fd_cdate d < 65536" "fd_adate d < 65536" "fd_res1 d < 65536"
    "fd_mtime d < 65536" "fd_mdate d < 65536" "fd_cluster d < 65536" "fd_size d < 4294967296"
    using assms by (simp_all add: dentry_ok_def)
  define lo hi where "lo = fd_size d mod 65536" and "hi = fd_size d div 65536 mod 65536"
  have lh: "lo < 65536" "hi < 65536" by (simp_all add: lo_def hi_def)
  have size: "lo + 65536 * hi = fd_size d" using dw[OF b(9)] by (simp add: lo_def hi_def)
  have bytes: "dentry_bytes d = [a0, a1, a2, a3, a4, a5, a6, a7, e0, e1, e2, fd_attr d] @ le16 (fd_res0 d) @ le16 (fd_ctime d) @
      le16 (fd_cdate d) @ le16 (fd_adate d) @ le16 (fd_res1 d) @ le16 (fd_mtime d) @ le16 (fd_mdate d) @ le16 (fd_cluster d) @
      le16 lo @ le16 hi"
    by (simp add: dentry_bytes_def f e le32_def lo_def hi_def)
  show ?thesis
    unfolding dentry_of_def bytes le16_def get32_def get16_def
    by (intro fat_dentry.equality) (simp_all add: f e w[OF b(1)] w[OF b(2)] w[OF b(3)] w[OF b(4)] w[OF b(5)] w[OF b(6)] w[OF b(7)]
        w[OF b(8)] w[OF lh(1)] w[OF lh(2)] size)
qed

lemma dentry_of_ok:
  assumes "length bs = DENTRY_SIZE" and "\<forall>b \<in> set bs. b < 256"
  shows "dentry_ok (dentry_of bs)"
proof -
  have b: "bs ! i < 256" if "i < 32" for i using assms that by (simp add: DENTRY_SIZE_def)
  have w: "get16 bs i < 65536" if "i < 31" for i using b[of i] b[of "i + 1"] that by (simp add: get16_def)
  have "get32 bs 28 < 4294967296" using w[of 28] w[of 30] by (simp add: get32_def)
  then show ?thesis using assms(1) b w by (simp add: dentry_ok_def dentry_of_def DENTRY_SIZE_def)
qed

section \<open>Attributes and names\<close>

lemma fat_attr_roundtrip:
  assumes "attr = S_IR OR S_IX OR w OR t" and "w = 0 \<or> w = S_IW" and "t = S_IFREG \<or> t = S_IFDIR"
  shows "fat_fat2attr (fat_attr2fat attr) = attr"
proof -
  have "\<forall>w \<in> {0, S_IW}. \<forall>t \<in> {S_IFREG, S_IFDIR}. fat_fat2attr (fat_attr2fat (S_IR OR S_IX OR w OR t)) = S_IR OR S_IX OR w OR t"
    by code_simp
  then show ?thesis using assms by blast
qed

lemma reg_attr:
  assumes "S_ISREG attr"
  shows "fat_fat2attr (fat_attr2fat attr) = S_IX OR S_IR OR (attr AND S_IW) OR S_IFREG"
proof -
  have "(attr AND 31) AND 4 = (16 :: nat) AND 4" using assms by (simp add: S_ISREG_def S_IFMT_def S_IFREG_def)
  then have d: "attr AND 4 = 0" by (simp add: and.assoc)
  have "attr AND 64 = (if bit attr 6 then 64 else 0)"
  proof (rule bit_eqI)
    fix n
    have "bit (64 :: nat) n \<longleftrightarrow> n = 6" using bit_exp_iff[where 'a = nat, of 6 n] by simp
    then show "bit (attr AND 64) n \<longleftrightarrow> bit (if bit attr 6 then 64 else 0 :: nat) n" by (auto simp: bit_and_iff)
  qed
  then have w: "attr AND 64 = 0 \<or> attr AND 64 = 64" by simp
  show ?thesis using d w
    by (elim disjE) (simp_all add: fat_fat2attr_def fat_attr2fat_def mode_defs bit_1_iff bit_0)
qed

lemma toupper_simps [simp]: "toupper c = 0 \<longleftrightarrow> c = 0" "toupper c = 32 \<longleftrightarrow> c = 32"
  by (auto simp: toupper_def)

lemma name_loop_ok:
  assumes "name = pre @ xs @ post" and "length pre = pos" and "\<forall>x \<in> set xs. x \<noteq> 0 \<and> (stop \<longrightarrow> x \<noteq> 46)"
    and "length xs \<le> n" and "length field = i + n"
    and "length xs = n \<or> post = [] \<or> stop \<and> hd post = 46"
  shows "name_loop stop name i n field pos =
    (take i field @ map toupper xs @ drop (i + length xs) field, pos + length xs)"
  using assms
proof (induction xs arbitrary: pre pos i n field)
  case Nil
  show ?case
  proof (cases n)
    case (Suc m)
    have "chr_at name pos = 0 \<or> stop \<and> chr_at name pos = 46"
      using Nil.prems(1,2,6) Suc by (cases post) (auto simp: chr_at_def nth_append)
    then show ?thesis using Suc by auto
  qed simp
next
  case (Cons x xs)
  then obtain m where n: "n = Suc m" by (cases n) auto
  have c: "chr_at name pos = x" using Cons.prems(1,2) by (simp add: chr_at_def nth_append)
  have "name_loop stop name (i + 1) m (field[i := toupper x]) (pos + 1) =
      (take (i + 1) (field[i := toupper x]) @ map toupper xs @ drop (i + 1 + length xs) (field[i := toupper x]), pos + 1 + length xs)"
    by (rule Cons.IH[of "pre @ [x]"]) (use Cons.prems n in auto)
  moreover have "take (i + 1) (field[i := toupper x]) = take i field @ [toupper x]"
    using Cons.prems(5) n by (simp add: take_Suc_conv_app_nth)
  ultimately show ?case using Cons.prems(3) n c by simp
qed

text \<open>The names that fit: a base of one to eight characters, and no extension or one of one to three.\<close>

definition name_83 :: "nat list \<Rightarrow> nat list \<Rightarrow> bool" where
  "name_83 base ext \<longleftrightarrow> base \<noteq> [] \<and> length base \<le> 8 \<and> length ext \<le> 3 \<and>
     (\<forall>x \<in> set base. x \<noteq> 0 \<and> x \<noteq> 46 \<and> x \<noteq> 32) \<and> (\<forall>x \<in> set ext. x \<noteq> 0 \<and> x \<noteq> 32)"

definition dotted :: "nat list \<Rightarrow> nat list \<Rightarrow> nat list" where
  "dotted base ext = (if ext = [] then base else base @ 46 # ext)"

definition pad :: "nat \<Rightarrow> nat list \<Rightarrow> nat list" where
  "pad n xs = xs @ replicate (n - length xs) 32"

lemma split_name_ok:
  assumes "name_83 base ext"
  shows "fat_split_name (dotted base ext) = Some (pad 8 (map toupper base), pad 3 (map toupper ext))"
proof -
  define post where "post = (if ext = [] then [] else 46 # ext)"
  have name: "dotted base ext = base @ post" by (simp add: dotted_def post_def)
  have 1: "name_loop True (base @ post) 0 8 (replicate 8 32) 0 = (pad 8 (map toupper base), length base)"
    using name_loop_ok[of "base @ post" "[]" base post 0 True 8 "replicate 8 32" 0] assms
    by (auto simp: name_83_def post_def pad_def drop_replicate)
  show ?thesis
  proof (cases "ext = []")
    case True
    have "name_loop True base 0 8 (replicate 8 32) 0 = (pad 8 (map toupper base), length base)"
      using 1 True by (simp add: post_def)
    then show ?thesis using True by (simp add: fat_split_name_def dotted_def chr_at_def pad_def)
  next
    case False
    have 2: "name_loop False (base @ 46 # ext) 0 3 (replicate 3 32) (length base + 1) =
        (pad 3 (map toupper ext), length base + 1 + length ext)"
      using name_loop_ok[of "base @ 46 # ext" "base @ [46]" ext "[]" "length base + 1" False 3 "replicate 3 32" 0] assms
      by (auto simp: name_83_def pad_def drop_replicate)
    have "name_loop True (base @ 46 # ext) 0 8 (replicate 8 32) 0 = (pad 8 (map toupper base), length base)"
      using 1 False by (simp add: post_def)
    then show ?thesis using False 2 by (simp add: fat_split_name_def dotted_def chr_at_def)
  qed
qed

text \<open>A longer base or extension is refused.\<close>

lemma split_name_long:
  assumes "\<forall>x \<in> set base. x \<noteq> 0 \<and> x \<noteq> 46" and "8 < length base"
  shows "fat_split_name base = None"
proof -
  have "base = take 8 base @ drop 8 base" by simp
  then have "name_loop True base 0 8 (replicate 8 32) 0 = (map toupper (take 8 base), 8)"
    using name_loop_ok[of base "[]" "take 8 base" "drop 8 base" 0 True 8 "replicate 8 32" 0] assms
    by (auto dest: in_set_takeD)
  moreover have "chr_at base 8 \<noteq> 0 \<and> chr_at base 8 \<noteq> 46" using assms by (auto simp: chr_at_def)
  ultimately show ?thesis by (simp add: fat_split_name_def)
qed

lemma skip_back_ok:
  assumes "xs \<noteq> []" and "last xs \<noteq> 32"
  shows "skip_back (xs @ replicate k 32 @ zs) (length xs + k - 1) = Some (length xs - 1)"
proof (induction k arbitrary: zs)
  case 0
  have "(xs @ zs) ! (length xs - 1) \<noteq> 32" using assms by (simp add: nth_append last_conv_nth)
  then show ?case by (cases "length xs - 1") simp_all
next
  case (Suc k)
  obtain m where m: "length xs + Suc k - 1 = Suc m" "m = length xs + k - 1" using assms(1) by (cases xs) auto
  have "xs @ replicate (Suc k) 32 @ zs = xs @ replicate k 32 @ 32 # zs" by (simp add: replicate_app_Cons_same)
  moreover have "(xs @ replicate (Suc k) 32 @ zs) ! Suc m = 32"
    using m assms(1) by (cases xs) (auto simp: nth_append nth_Cons')
  moreover have "skip_back (xs @ replicate k 32 @ 32 # zs) m = Some (length xs - 1)" unfolding m(2) by (rule Suc)
  ultimately show ?case unfolding m(1) by (simp del: replicate_Suc)
qed

lemma join_name_ok:
  assumes B: "B \<noteq> []" "length B \<le> 8" "\<forall>x \<in> set B. x \<noteq> 0 \<and> x \<noteq> 32" and E: "length E \<le> 3" "\<forall>x \<in> set E. x \<noteq> 0 \<and> x \<noteq> 32"
    and buf: "length buf = FS_NAME_LENGTH_MAX"
  shows "\<exists>name. fat_join_name buf (pad 8 B) (pad 3 E) = Some name \<and> c_string name = dotted B E"
proof -
  define name1 where "name1 = put buf 0 (pad 8 B)"
  have n1: "name1 = B @ replicate (8 - length B) 32 @ drop 8 buf" using B(2) by (simp add: name1_def put_def pad_def)
  have l1: "length name1 = 32" using B(2) buf by (simp add: n1 FS_NAME_LENGTH_MAX_def)
  have "skip_back name1 (length B + (8 - length B) - 1) = Some (length B - 1)"
    unfolding n1 by (rule skip_back_ok) (use B in auto)
  then have s1: "skip_back name1 7 = Some (length B - 1)" using B(2) by simp
  define q where "q = length B"
  have q: "length B - 1 + 1 = q" "0 < q" "q \<le> 8" using B by (simp_all add: q_def)
  define name2 where "name2 = put (name1[q := 32]) (q + 1) (pad 3 E)"
  define rest where "rest = drop (q + 4) name1"
  have "take (q + 1) (name1[q := 32]) = B @ [32]" using q l1 by (simp add: take_Suc_conv_app_nth n1 q_def)
  then have n2: "name2 = B @ 32 # E @ replicate (3 - length E) 32 @ rest"
    using E(1) by (simp add: name2_def put_def pad_def rest_def add.commute)
  have J: "fat_join_name buf (pad 8 B) (pad 3 E) = (case skip_back name2 (q + 3) of None \<Rightarrow> None
      | Some pos \<Rightarrow> Some ((if q \<noteq> pos then name2[q := 46] else name2)[pos + 1 := 0]))"
    unfolding fat_join_name_def name1_def[symmetric] Let_def s1 option.case q(1) name2_def[symmetric] by (rule refl)
  have lr: "length rest = 28 - q" using l1 by (simp add: rest_def)
  show ?thesis
  proof (cases "E = []")
    case True
    then have n2': "name2 = B @ replicate 4 32 @ rest" by (simp add: n2 eval_nat_numeral)
    have "skip_back name2 (length B + 4 - 1) = Some (length B - 1)"
      unfolding n2' by (rule skip_back_ok) (use B in auto)
    then have s2: "skip_back name2 (q + 3) = Some (q - 1)" by (simp add: q_def add.commute)
    have "fat_join_name buf (pad 8 B) (pad 3 E) = Some (name2[q := 46, q := 0])"
      using s2 q by (simp add: J)
    moreover have "name2[q := 46, q := 0] = B @ 0 # replicate 3 32 @ rest"
      by (simp add: n2' q_def list_update_append eval_nat_numeral)
    moreover have "takeWhile (\<lambda>b. b \<noteq> 0) (B @ 0 # replicate 3 32 @ rest) = B"
      using B(3) by (simp add: takeWhile_append2)
    ultimately show ?thesis using True by (simp add: c_string_def dotted_def)
  next
    case False
    have "skip_back ((B @ 32 # E) @ replicate (3 - length E) 32 @ rest) (length (B @ 32 # E) + (3 - length E) - 1) =
        Some (length (B @ 32 # E) - 1)" by (rule skip_back_ok) (use E False in auto)
    then have s2: "skip_back name2 (q + 3) = Some (q + length E)" using E(1) by (simp add: q_def n2 add.commute)
    have "fat_join_name buf (pad 8 B) (pad 3 E) = Some (name2[q := 46, q + length E + 1 := 0])"
      using s2 q False by (simp add: J)
    moreover have "\<exists>tl'. name2[q := 46, q + length E + 1 := 0] = B @ 46 # E @ 0 # tl'"
    proof -
      have "0 < length (replicate (3 - length E) 32 @ rest)" using lr q by simp
      then obtain z zs where z: "replicate (3 - length E) 32 @ rest = z # zs" by (cases "replicate (3 - length E) 32 @ rest") auto
      then have "name2 = B @ 32 # E @ z # zs" by (simp add: n2)
      then show ?thesis by (simp add: q_def list_update_append)
    qed
    moreover have "takeWhile (\<lambda>b. b \<noteq> 0) (B @ 46 # E @ 0 # tl') = B @ 46 # E" for tl'
      using B(3) E(2) by (simp add: takeWhile_append2)
    ultimately show ?thesis using False by (auto simp: c_string_def dotted_def)
  qed
qed

end
