(* ===== verification/Fat.thy ===== *)
theory Fat
  imports FatDir
begin

text \<open>
  The file operations of \<open>kernel/fs/fat.c\<close>: resizing the chain of a file, create, read, write,
  truncate, readdir, remove, mount and unmount. Files are addresses into \<open>files\<close>. The uninitialised
  variable of the cluster allocation is the parameter \<open>junk\<close>.
\<close>

definition upd_file :: "nat \<Rightarrow> (fs_file \<Rightarrow> fs_file) \<Rightarrow> 'd fat_st \<Rightarrow> 'd fat_st" where
  "upd_file f g st = st\<lparr>files := (files st)(f := g (files st f))\<rparr>"

definition cluster_of :: "'d fat_st \<Rightarrow> nat \<Rightarrow> nat" where
  "cluster_of st f = fat_cluster (f_file (files st f))"

definition set_cluster :: "nat \<Rightarrow> nat \<Rightarrow> 'd fat_st \<Rightarrow> 'd fat_st" where
  "set_cluster f c = upd_file f (\<lambda>x. x\<lparr>f_file := (f_file x)\<lparr>fat_cluster := c\<rparr>\<rparr>)"

section \<open>Resizing\<close>

definition fat_cluster_clear :: "'d dev_blk \<Rightarrow> nat \<Rightarrow> nat \<Rightarrow> nat \<Rightarrow> 'd fat_st \<Rightarrow> (int \<times> 'd fat_st) option" where
  "fat_cluster_clear blk cluster offs len st = do {
     (r, d) \<leftarrow> blk_write blk (fat_sector_offset (CLUSTER2SECTOR cluster) + offs) (replicate len 0) (bdev st);
     Some (if r = int len then 0 else - EIO, st\<lparr>bdev := d\<rparr>) }"

text \<open>The first loop of \<open>fat_file_trim_chain\<close>, from \<open>pos\<close> on: an error, or \<open>pos\<close>, \<open>curr\<close> and \<open>last\<close> after it.\<close>

fun trim_count :: "'d dev_blk \<Rightarrow> nat \<Rightarrow> nat \<Rightarrow> nat \<Rightarrow> nat \<Rightarrow> 'd fat_st \<Rightarrow> (nat \<times> nat \<times> nat) option \<times> 'd fat_st" where
  "trim_count blk 0 pos cur last' st = (Some (pos, cur, last'), st)"
| "trim_count blk (Suc todo) pos cur last' st = (let curr1 = last'; (e, last1, st1) = fat_fat_get blk curr1 last' st in
     if e < 0 \<or> last1 = CLUSTER_FREE \<or> last1 = CLUSTER_RESERVED then (None, st1)
     else if last1 = CLUSTER_END then (Some (pos, curr1, last1), st1)
     else trim_count blk todo (pos + 1) curr1 last1 st1)"

text \<open>
  The loop that appends clusters. \<open>if (!dentry->cluster)\<close> is evaluated before the test for
  \<open>dentry != NULL\<close>.
\<close>

fun trim_extend :: "'d dev_blk \<Rightarrow> nat \<Rightarrow> nat \<Rightarrow> nat \<Rightarrow> nat \<Rightarrow> fat_dentry option \<Rightarrow> 'd fat_st \<Rightarrow> (int \<times> nat \<times> fat_dentry option \<times> 'd fat_st) option" where
  "trim_extend blk junk f 0 last' dentry st = Some (0, last', dentry, st)"
| "trim_extend blk junk f (Suc todo) last' dentry st =
     (let (err, cur, st1) = fat_fat_allocate_cluster blk junk last' st in
      if err < 0 then Some (err, last', dentry, st1)
      else do {
        d \<leftarrow> dentry;
        let (e2, dentry2, st2) = (if fd_cluster d = 0 then (0, Some (d\<lparr>fd_cluster := cur\<rparr>), set_cluster f cur st1)
          else (let (e, s) = fat_fat_set blk last' cur st1 in (e, Some d, s)));
        (if e2 < 0 then Some (- EIO, last', dentry2, st2)
         else do {
           (e3, st3) \<leftarrow> fat_cluster_clear blk cur 0 FAT12_SECTOR_SIZE st2;
           (if e3 < 0 then Some (- EIO, cur, dentry2, st3) else trim_extend blk junk f todo cur dentry2 st3) }) })"

text \<open>The loop that frees the rest of a chain.\<close>

partial_function (option) trim_free :: "'d dev_blk \<Rightarrow> nat \<Rightarrow> 'd fat_st \<Rightarrow> (int \<times> 'd fat_st) option" where
  "trim_free blk cur st =
     (if cur = CLUSTER_END then Some (0, st)
      else (let (e, last', st1) = fat_fat_get blk cur cur st in
        if e < 0 \<or> last' = CLUSTER_FREE \<or> last' = CLUSTER_RESERVED then Some (- EIO, st1)
        else (let (e2, st2) = fat_fat_set blk cur CLUSTER_FREE st1 in
          if e2 < 0 then Some (- EIO, st2) else trim_free blk last' st2)))"

declare trim_free.simps [code]

definition trim_shrink :: "'d dev_blk \<Rightarrow> nat \<Rightarrow> nat \<Rightarrow> nat \<Rightarrow> fat_dentry option \<Rightarrow> 'd fat_st \<Rightarrow> (int \<times> fat_dentry option \<times> 'd fat_st) option" where
  "trim_shrink blk f last' length' dentry st =
     (let (e, cur, dentry1, st1) =
        (if length' = 0 then (0, last', map_option (\<lambda>d. d\<lparr>fd_cluster := 0\<rparr>) dentry, set_cluster f 0 st)
         else (let (e1, c, s1) = fat_fat_get blk last' last' st in
           if e1 < 0 \<or> c = CLUSTER_FREE \<or> c = CLUSTER_RESERVED then (- EIO, c, dentry, s1)
           else (let (e2, s2) = fat_fat_set blk last' CLUSTER_END s1 in
             if e2 < 0 then (- EIO, c, dentry, s2) else (0, c, dentry, s2))))
      in if e < 0 then Some (e, dentry1, st1)
      else do { (e3, st2) \<leftarrow> trim_free blk cur st1; Some (e3, dentry1, st2) })"

definition fat_file_trim_chain :: "'d dev_blk \<Rightarrow> nat \<Rightarrow> nat \<Rightarrow> fat_dentry option \<Rightarrow> nat \<Rightarrow> 'd fat_st \<Rightarrow> (int \<times> fat_dentry option \<times> 'd fat_st) option" where
  "fat_file_trim_chain blk junk f dentry length' st =
     (let start = cluster_of st f in
      if start = 0 \<and> length' = 0 then Some (0, dentry, st)
      else (let (res, st0) = (if start \<noteq> 0 then trim_count blk length' 1 start start st else (Some (0, start, start), st)) in
        case res of None \<Rightarrow> Some (- EIO, dentry, st0)
        | Some (pos, cur, last0) \<Rightarrow>
          if start \<noteq> 0 \<and> pos = length' \<and> last0 = CLUSTER_END then Some (0, dentry, st0)
          else (let last1 = cur in do {
            (e, dentry1, st1) \<leftarrow>
              (if pos < length' then do {
                 (e1, last2, d2, s2) \<leftarrow> trim_extend blk junk f (length' - pos) last1 dentry st0;
                 (if e1 < 0 then Some (e1, d2, s2)
                  else (let (e3, s3) = fat_fat_set blk last2 CLUSTER_END s2 in Some (if e3 < 0 then - EIO else 0, d2, s3))) }
               else trim_shrink blk f last1 length' dentry st0);
            (if e < 0 then Some (e, dentry1, st1)
             else do { (e4, st4) \<leftarrow> fat_fat_sync blk st1; Some (e4, dentry1, st4) }) })))"

section \<open>Create\<close>

definition empty_dentry :: fat_dentry where
  "empty_dentry = \<lparr>fd_fname = replicate 8 32, fd_extension = replicate 3 32, fd_attr = 0, fd_res0 = 0, fd_ctime = 0, fd_cdate = 0,
     fd_adate = 0, fd_res1 = 0, fd_mtime = 0, fd_mdate = 0, fd_cluster = 0, fd_size = 0\<rparr>"

definition entry_free :: "fat_dentry \<Rightarrow> bool" where
  "entry_free d \<longleftrightarrow> fd_fname d ! 0 = 0 \<or> fd_fname d ! 0 = 229"

text \<open>The loop over the entries; the result has the index of the first free one.\<close>

partial_function (option) create_find :: "'d dev_blk \<Rightarrow> nat \<Rightarrow> nat \<times> nat \<Rightarrow> 'd fat_st \<Rightarrow> (int \<times> nat \<times> 'd fat_st) option" where
  "create_find blk junk df st = do {
     let dir = fst df;
     let fidx = snd df;
     (err, tentry, st1) \<leftarrow> fat_file_dir_read blk (cluster_of st dir) fidx st;
     (err2, tentry2, st2) \<leftarrow>
       (if err = - ENOENT then
          (if cluster_of st1 dir = 65535 then Some (- ENOSPC, tentry, st1)
           else do {
             (e, _, s) \<leftarrow> fat_file_trim_chain blk junk dir None (fat_sector_round_up (u16 ((fidx + 1) * DENTRY_SIZE))) st1;
             (if e < 0 then Some (e, tentry, s) else fat_file_dir_read blk (cluster_of s dir) fidx s) })
        else Some (err, tentry, st1));
     (if err2 \<noteq> 0 then Some (err2, fidx, st2)
      else if entry_free tentry2 then Some (0, fidx, st2)
      else create_find blk junk (dir, u16 (fidx + 1)) st2) }"

declare create_find.simps [code]

definition fat_op_create :: "'d dev_blk \<Rightarrow> nat \<Rightarrow> nat \<Rightarrow> nat list \<Rightarrow> nat \<Rightarrow> 'd fat_st \<Rightarrow> (int \<times> nat \<times> 'd fat_st) option" where
  "fat_op_create blk junk dir name attr st =
     (if \<not> S_ISREG attr then Some (- EINVAL, 0, st)
      else case fat_split_name name of
        None \<Rightarrow> Some (- ENAMETOOLONG, 0, st)
      | Some (fname, ext) \<Rightarrow>
        let dentry = empty_dentry\<lparr>fd_fname := fname, fd_extension := ext, fd_attr := fat_attr2fat attr\<rparr> in do {
          (err, fidx, st1) \<leftarrow> create_find blk junk (dir, 0) st;
          (if err \<noteq> 0 then Some (err, 0, st1)
           else do { (e, st2) \<leftarrow> fat_file_dir_write blk (cluster_of st1 dir) dentry fidx st1; Some (e, fidx, st2) }) })"

section \<open>Read\<close>

text \<open>
  The loop; \<open>buff\<close> is the rest of the caller's buffer. The result is an error or 0, the new contents
  of that part of the buffer and the number of bytes counted.
\<close>

function fread_loop :: "'d dev_blk \<Rightarrow> nat \<Rightarrow> nat \<Rightarrow> nat list \<Rightarrow> 'd fat_st \<Rightarrow> (int \<times> nat list \<times> nat \<times> 'd fat_st) option" where
  "fread_loop blk cluster offs buff st = do {
     let chunk = min (FAT12_SECTOR_SIZE - offs mod FAT12_SECTOR_SIZE) (length buff);
     (ret, bytes, d) \<leftarrow> blk_read blk (fat_sector_offset (CLUSTER2SECTOR cluster) + offs mod FAT12_SECTOR_SIZE) chunk (bdev st);
     let st1 = st\<lparr>bdev := d\<rparr>;
     let got = bytes @ drop (length bytes) (take chunk buff);
     let rest = drop chunk buff;
     (if ret < 0 then Some (ret, got @ rest, 0, st1)
      else if rest = [] then Some (0, got, chunk, st1)
      else (let (e, c2, st2) = fat_fat_next blk cluster st1 in
        if e > 0 then Some (0, got @ rest, chunk, st2)
        else if e < 0 then Some (- EIO, got @ rest, 0, st2)
        else do {
          (e2, rest', n, st3) \<leftarrow> fread_loop blk c2 (offs + chunk) rest st2;
          Some (e2, got @ rest', chunk + n, st3) })) }"
  by pat_completeness auto
termination
  by (relation "measure (\<lambda>(blk, cluster, offs, buff, st). length buff)") (auto simp: FAT12_SECTOR_SIZE_def)

declare fread_loop.simps [simp del]

definition read_len :: "nat \<Rightarrow> nat \<Rightarrow> nat \<Rightarrow> nat" where
  "read_len fsize bufflen offs = min (if offs + bufflen > fsize then u16 (fsize - offs) else bufflen) 32767"

definition fat_op_read :: "'d dev_blk \<Rightarrow> nat \<Rightarrow> nat list \<Rightarrow> nat \<Rightarrow> 'd fat_st \<Rightarrow> (int \<times> nat list \<times> 'd fat_st) option" where
  "fat_op_read blk f buff offs st =
     (if offs \<ge> f_size (files st f) then Some (0, buff, st)
      else (let n = read_len (f_size (files st f)) (length buff) offs;
                (e, cluster, st1) = fat_fat_seek blk (cluster_of st f) offs st in
        if e \<noteq> 0 then Some (- EIO, buff, st1)
        else do {
          (ret, buff', len, st2) \<leftarrow> fread_loop blk cluster offs (take n buff) st1;
          Some (if ret < 0 then ret else int len, buff' @ drop n buff, st2) }))"

section \<open>Truncate and write\<close>

definition fat_op_truncate :: "'d dev_blk \<Rightarrow> nat \<Rightarrow> nat \<Rightarrow> nat \<Rightarrow> 'd fat_st \<Rightarrow> (int \<times> 'd fat_st) option" where
  "fat_op_truncate blk junk f sz st =
     (let fl = files st f in
      case f_parent fl of None \<Rightarrow> Some (- EIO, st)
      | Some par \<Rightarrow>
      if \<not> S_ISREG (f_attr fl) then Some (- EIO, st)
      else if f_size fl = sz then Some (0, st)
      else do {
        (e, dentry, st1) \<leftarrow> fat_file_dir_read blk (cluster_of st par) (fat_idx (f_file fl)) st;
        (if e \<noteq> 0 then Some (- EIO, st1)
         else do {
           (e2, st2) \<leftarrow>
             (if f_size fl \<noteq> 0 \<and> f_size fl < sz \<and> f_size fl mod FAT12_SECTOR_SIZE \<noteq> 0 then
                (let m = f_size fl mod FAT12_SECTOR_SIZE;
                     cluster_end = min (FAT12_SECTOR_SIZE - m) (sz - f_size fl);
                     (es, cluster, s) = fat_fat_seek blk (cluster_of st1 f) (f_size fl - 1) st1
                 in if es \<noteq> 0 then Some (- EIO, s) else do { (ec, s2) \<leftarrow> fat_cluster_clear blk cluster m cluster_end s; Some (if ec < 0 then - EIO else 0, s2) })
              else Some (0, st1));
           (if e2 < 0 then Some (e2, st2)
            else do {
              (e3, d3, st3) \<leftarrow>
                (if fat_sector_round_up sz \<noteq> fat_sector_round_up (f_size fl) then do {
                   (et, dt, s) \<leftarrow> fat_file_trim_chain blk junk f (Some dentry) (fat_sector_round_up sz) st2;
                   (if et < 0 then do { (_, s') \<leftarrow> fat_fat_fetch blk s; Some (et, dt, s') } else Some (0, dt, s)) }
                 else Some (0, Some dentry, st2));
              (if e3 < 0 then Some (e3, st3)
               else do {
                 dd \<leftarrow> d3;
                 let st4 = upd_file f (\<lambda>x. x\<lparr>f_size := sz\<rparr>) st3;
                 fat_file_dir_write blk (cluster_of st4 par) (dd\<lparr>fd_size := sz\<rparr>) (fat_idx (f_file (files st4 f))) st4 }) }) }) })"

function fwrite_loop :: "'d dev_blk \<Rightarrow> nat \<Rightarrow> nat \<Rightarrow> nat list \<Rightarrow> 'd fat_st \<Rightarrow> (int \<times> 'd fat_st) option" where
  "fwrite_loop blk cluster offs buff st = do {
     let chunk = min (FAT12_SECTOR_SIZE - offs mod FAT12_SECTOR_SIZE) (length buff);
     (err, d) \<leftarrow> blk_write blk (fat_sector_offset (CLUSTER2SECTOR cluster) + offs mod FAT12_SECTOR_SIZE) (take chunk buff) (bdev st);
     let st1 = st\<lparr>bdev := d\<rparr>;
     (if err < 0 then Some (err, st1)
      else if length buff - chunk = 0 then Some (0, st1)
      else (let (e, c2, st2) = fat_fat_next blk cluster st1 in
        if e \<noteq> 0 then Some (- EIO, st2) else fwrite_loop blk c2 (offs + chunk) (drop chunk buff) st2)) }"
  by pat_completeness auto
termination
  by (relation "measure (\<lambda>(blk, cluster, offs, buff, st). length buff)") (auto simp: FAT12_SECTOR_SIZE_def)

declare fwrite_loop.simps [simp del]

definition fat_op_write :: "'d dev_blk \<Rightarrow> nat \<Rightarrow> nat \<Rightarrow> nat list \<Rightarrow> nat \<Rightarrow> 'd fat_st \<Rightarrow> (int \<times> 'd fat_st) option" where
  "fat_op_write blk junk f buff offs st = do {
     (e, st1) \<leftarrow> (if f_size (files st f) < offs + length buff then fat_op_truncate blk junk f (offs + length buff) st else Some (0, st));
     (if e < 0 then Some (e, st1)
      else (let (es, cluster, st2) = fat_fat_seek blk (cluster_of st1 f) offs st1 in
        if es \<noteq> 0 then Some (- EIO, st2)
        else do {
          (ew, st3) \<leftarrow> fwrite_loop blk cluster offs buff st2;
          Some (if ew < 0 then ew else s16 (int (length buff)), st3) })) }"

section \<open>Directories, removing, mounting\<close>

text \<open>\<open>fat_op_readdir\<close>: the entry (\<open>buf\<close> is the name buffer before) and the internal data of the file.\<close>

definition fat_op_readdir :: "'d dev_blk \<Rightarrow> nat \<Rightarrow> nat list \<Rightarrow> nat \<Rightarrow> 'd fat_st \<Rightarrow> (int \<times> (fs_dentry \<times> nat \<times> nat) option \<times> 'd fat_st) option" where
  "fat_op_readdir blk dir buf idx st = do {
     (err, fentry, st1) \<leftarrow> fat_file_dir_read blk (cluster_of st dir) idx st;
     (if err \<noteq> 0 then Some (err, None, st1)
      else if fd_fname fentry ! 0 = 0 then Some (- ENOENT, None, st1)
      else if fd_fname fentry ! 0 = 229 then Some (- EAGAIN, None, st1)
      else case fat_join_name buf (fd_fname fentry) (fd_extension fentry) of
        None \<Rightarrow> Some (- EIO, None, st1)
      | Some name \<Rightarrow> Some (0, Some (\<lparr>d_attr = fat_fat2attr (fd_attr fentry), d_ctime = fat_attr2epoch (fd_cdate fentry) (fd_ctime fentry),
           d_atime = fat_attr2epoch (fd_adate fentry) 0, d_mtime = fat_attr2epoch (fd_mdate fentry) (fd_mtime fentry),
           d_size = fd_size fentry, d_name = name\<rparr>, fd_cluster fentry, idx), st1)) }"

definition fat_op_move :: "nat \<Rightarrow> nat \<Rightarrow> nat list \<Rightarrow> int" where
  "fat_op_move f ndir name = - ENOSYS"

definition fat_op_remove :: "'d dev_blk \<Rightarrow> nat \<Rightarrow> nat \<Rightarrow> 'd fat_st \<Rightarrow> (int \<times> 'd fat_st) option" where
  "fat_op_remove blk junk f st = do {
     par \<leftarrow> f_parent (files st f);
     (err, dentry, st1) \<leftarrow> fat_file_dir_read blk (cluster_of st par) (fat_idx (f_file (files st f))) st;
     (if err \<noteq> 0 then Some (err, st1)
      else do {
        (e2, d2, st2) \<leftarrow> fat_file_trim_chain blk junk f (Some (dentry\<lparr>fd_fname := (fd_fname dentry)[0 := 229]\<rparr>)) 0 st1;
        (if e2 \<noteq> 0 then Some (e2, st2)
         else do { dd \<leftarrow> d2; fat_file_dir_write blk (cluster_of st2 par) dd (fat_idx (f_file (files st2 f))) st2 }) }) }"

text \<open>The BIOS parameter block, read from offset 11.\<close>

definition bpb_ok :: "nat list \<Rightarrow> bool" where
  "bpb_ok bs \<longleftrightarrow> get16 bs 0 = FAT12_SECTOR_SIZE \<and> bs ! 2 = 1 \<and> get16 bs 3 = 1 \<and> bs ! 5 = 2 \<and> get16 bs 6 = 224 \<and>
     get16 bs 11 = 9 \<and> get16 bs 13 = 18 \<and> get16 bs 15 = 2 \<and> get16 bs 8 = 2 * 18 * 80"

definition fat_op_mount :: "'d dev_blk \<Rightarrow> nat \<Rightarrow> 'd fat_st \<Rightarrow> page_common \<Rightarrow> (int \<times> 'd fat_st \<times> page_common) option" where
  "fat_op_mount blk root st pc = do {
     (err, bpb, d) \<leftarrow> blk_read blk 11 17 (bdev st);
     let st0 = st\<lparr>bdev := d\<rparr>;
     (if err < 0 then Some (s8 err, st0, pc)
      else do {
        check (length bpb = 17);
        (if \<not> bpb_ok bpb then Some (- EIO, st0, pc)
         else do {
           (p0, pc1) \<leftarrow> page_alloc None 1 pc;
           (if p0 = 0 then Some (- ENOMEM, st0, pc1)
            else do {
              (p1, pc2) \<leftarrow> page_alloc None 1 pc1;
              let st1 = st0\<lparr>fctx := (fctx st0)\<lparr>fat_page0 := p0, fat_page1 := p1\<rparr>\<rparr>;
              (if p1 = 0 then do { pc3 \<leftarrow> page_free p0 1 pc2; Some (- ENOMEM, st1, pc3) }
               else do {
                 (e, st2) \<leftarrow> fat_fat_fetch blk st1;
                 (if e < 0 then do { pc3 \<leftarrow> page_free p0 1 pc2; pc4 \<leftarrow> page_free p1 1 pc3; Some (- EIO, st2, pc4) }
                  else Some (0, upd_file root (\<lambda>x. x\<lparr>f_file := (f_file x)\<lparr>fat_idx := 0, fat_cluster := 65535\<rparr>\<rparr>) st2, pc2)) }) }) }) }) }"

definition fat_op_unmount :: "'d dev_blk \<Rightarrow> 'd fat_st \<Rightarrow> (int \<times> 'd fat_st) option" where
  "fat_op_unmount blk st = do { (_, d) \<leftarrow> blk_sync blk (bdev st); Some (0, st\<lparr>bdev := d\<rparr>) }"

section \<open>Reading and writing over a healthy block device\<close>

text \<open>The table does not live on the device.\<close>

lemma entry_bdev [simp]: "fat_entry (st\<lparr>bdev := d\<rparr>) n = fat_entry st n"
  by (simp add: fat_entry_def fat_byte_def)

lemma entry_cong: "fat_byte st' = fat_byte st \<Longrightarrow> fat_entry st' = fat_entry st"
  by (simp add: fun_eq_iff fat_entry_def)

lemma wf_bdev [simp]: "fat_wf (st\<lparr>bdev := d\<rparr>) = fat_wf st"
  by (simp add: fat_wf_def fat_byte_def)

lemma chain_cong: "(\<And>x. x \<in> set cs \<Longrightarrow> norm (fat_entry st' x) = norm (fat_entry st x)) \<Longrightarrow> chain_of st' c cs = chain_of st c cs"
  by (induction st c cs rule: chain_of.induct) auto

lemma chain_bdev [simp]: "chain_of (st\<lparr>bdev := d\<rparr>) c cs = chain_of st c cs"
  by (rule chain_cong) simp

lemma chain_unique: "chain_of st c cs \<Longrightarrow> chain_of st c ds \<Longrightarrow> cs = ds"
proof (induction st c cs arbitrary: ds rule: chain_of.induct)
  case (2 st c x)
  show ?case
  proof (cases "(st, c, ds)" rule: chain_of.cases)
    case (3 st' c' x' y ys)
    then have "norm (fat_entry st c) = y" "chain_of st y (y # ys)" using 2(2) by auto
    then show ?thesis using 2(1) chain_head[of st y "y # ys"] by (auto simp: CLUSTER_END_def CLUSTERS_def)
  qed (use 2 in auto)
next
  case (3 st c x y ys)
  show ?case
  proof (cases "(st, c, ds)" rule: chain_of.cases)
    case (2 st' c' x')
    then show ?thesis using 3(2,3) chain_head[of st y "y # ys"] by (auto simp: CLUSTER_END_def CLUSTERS_def)
  next
    case (3 st' c' x' y' ys')
    then show ?thesis using "3.IH"[of "y' # ys'"] "3.prems" by auto
  qed (use 3 in auto)
qed auto

lemma chain_distinct: "chain_of st c cs \<Longrightarrow> distinct cs"
proof (induction st c cs rule: chain_of.induct)
  case (3 st c x y ys)
  have "x \<notin> set (y # ys)"
  proof
    assume "x \<in> set (y # ys)"
    then obtain k where k: "k < length (y # ys)" "(y # ys) ! k = x" unfolding in_set_conv_nth by blast
    have "chain_of st y (y # ys)" using "3.prems" by simp
    from chain_drop[OF this k(1)] have "chain_of st x (drop k (y # ys))" using k(2) by simp
    moreover have "chain_of st x (x # y # ys)" using "3.prems" by auto
    ultimately have "x # y # ys = drop k (y # ys)" using chain_unique by blast
    then have "length (x # y # ys) = length (drop k (y # ys))" by simp
    then show False by simp
  qed
  moreover have "distinct (y # ys)" using 3 by auto
  ultimately show ?case by simp
qed auto

lemma sec_div:
  assumes "o' < FAT12_SECTOR_SIZE"
  shows "(q * FAT12_SECTOR_SIZE + o') div FAT12_SECTOR_SIZE = q" and "(q * FAT12_SECTOR_SIZE + o') mod FAT12_SECTOR_SIZE = o'"
  using assms by simp_all

text \<open>Where byte \<open>i\<close> of a file with clusters \<open>cs\<close> is on the medium.\<close>

definition file_pos :: "nat list \<Rightarrow> nat \<Rightarrow> nat" where
  "file_pos cs i = (cs ! (i div FAT12_SECTOR_SIZE) + 31) * FAT12_SECTOR_SIZE + i mod FAT12_SECTOR_SIZE"

lemma file_pos_less:
  assumes "chain_of st c cs" and "i < FAT12_SECTOR_SIZE * length cs"
  shows "file_pos cs i < BLK_SIZE"
proof -
  have "i div FAT12_SECTOR_SIZE < length cs" using assms(2) by (simp add: less_mult_imp_div_less mult.commute FAT12_SECTOR_SIZE_def)
  then have "cs ! (i div FAT12_SECTOR_SIZE) \<in> set cs" by simp
  then have "cs ! (i div FAT12_SECTOR_SIZE) < CLUSTERS" using chain_elems[OF assms(1)] by simp
  moreover have "i mod FAT12_SECTOR_SIZE < 512" by (simp add: FAT12_SECTOR_SIZE_def)
  ultimately show ?thesis by (simp add: file_pos_def CLUSTERS_def FAT12_SECTOR_SIZE_def BLK_SIZE_def)
qed

lemma file_pos_inj:
  assumes "distinct cs" and "i < FAT12_SECTOR_SIZE * length cs" and "j < FAT12_SECTOR_SIZE * length cs"
    and "file_pos cs i = file_pos cs j"
  shows "i = j"
proof -
  have m: "i mod FAT12_SECTOR_SIZE < FAT12_SECTOR_SIZE" "j mod FAT12_SECTOR_SIZE < FAT12_SECTOR_SIZE" by (simp_all add: FAT12_SECTOR_SIZE_def)
  have "file_pos cs x div FAT12_SECTOR_SIZE = cs ! (x div FAT12_SECTOR_SIZE) + 31"
    "file_pos cs x mod FAT12_SECTOR_SIZE = x mod FAT12_SECTOR_SIZE" for x
    using sec_div[of "x mod FAT12_SECTOR_SIZE" "cs ! (x div FAT12_SECTOR_SIZE) + 31"]
    by (simp_all add: file_pos_def FAT12_SECTOR_SIZE_def)
  then have e: "cs ! (i div FAT12_SECTOR_SIZE) = cs ! (j div FAT12_SECTOR_SIZE)" "i mod FAT12_SECTOR_SIZE = j mod FAT12_SECTOR_SIZE"
    using assms(4) by (metis add_right_cancel)+
  have "i div FAT12_SECTOR_SIZE < length cs" "j div FAT12_SECTOR_SIZE < length cs"
    using assms(2,3) by (simp_all add: less_mult_imp_div_less mult.commute FAT12_SECTOR_SIZE_def)
  then have "i div FAT12_SECTOR_SIZE = j div FAT12_SECTOR_SIZE" using assms(1) e(1) by (simp add: nth_eq_iff_index_eq)
  then show ?thesis using e(2) by (metis div_mult_mod_eq)
qed

text \<open>The bytes of entry \<open>k\<close> counted from the beginning of the root directory, which has 224 of them, in an image.\<close>

definition root_bytes :: "(nat \<Rightarrow> nat) \<Rightarrow> nat \<Rightarrow> nat list" where
  "root_bytes g k = map g [9728 + 32 * k ..< 9728 + 32 * k + 32]"

text \<open>What \<open>fat_op_create\<close> stores.\<close>

definition new_dentry :: "nat list \<Rightarrow> nat list \<Rightarrow> nat \<Rightarrow> fat_dentry" where
  "new_dentry base ext attr = empty_dentry\<lparr>fd_fname := pad 8 (map toupper base), fd_extension := pad 3 (map toupper ext),
     fd_attr := fat_attr2fat attr\<rparr>"

text \<open>
  The bytes of the table that setting the entries \<open>ns\<close> changes without marking their sector as dirty:
  the second byte of an entry that lies across two sectors, except across the two pages. Both copies
  of the table on the disk agree with the one in memory except in dirty sectors and at \<open>X\<close>.
\<close>

definition straddles :: "nat list \<Rightarrow> nat set" where
  "straddles ns = set (map (\<lambda>n. 3 * n div 2 + 1) (filter (\<lambda>n. 3 * n div 2 mod 512 = 511 \<and> 3 * n div 2 + 1 \<noteq> PAGE_SIZE) ns))"

definition table_on_disk :: "('d \<Rightarrow> nat \<Rightarrow> nat) \<Rightarrow> nat set \<Rightarrow> 'd fat_st \<Rightarrow> bool" where
  "table_on_disk img X st \<longleftrightarrow> (\<forall>k < 4608. k \<notin> X \<longrightarrow> \<not> bit (fat_dirty (fctx st)) (k div 512) \<longrightarrow>
     img (bdev st) (512 + k) = fat_byte st k \<and> img (bdev st) (5120 + k) = fat_byte st k)"

text \<open>What a change of the table tells \<open>fat_fat_sync\<close> about it.\<close>

definition marked :: "nat set \<Rightarrow> 'd fat_st \<Rightarrow> 'd fat_st \<Rightarrow> bool" where
  "marked X st st' \<longleftrightarrow>
     (\<forall>k < 4608. k \<notin> X \<longrightarrow> bit (fat_dirty (fctx st')) (k div 512) \<or> fat_byte st' k = fat_byte st k) \<and>
     (\<forall>i < 9. bit (fat_dirty (fctx st)) i \<longrightarrow> bit (fat_dirty (fctx st')) i)"

lemma marked_trans:
  assumes "marked X st sa" and "marked Y sa sb"
  shows "marked (X \<union> Y) st sb"
proof -
  have "bit (fat_dirty (fctx sb)) (k div 512) \<or> fat_byte sb k = fat_byte st k" if "k < 4608" "k \<notin> X \<union> Y" for k
  proof -
    have "k div 512 < 9" using that(1) by (simp add: less_mult_imp_div_less)
    then show ?thesis using assms that unfolding marked_def by (metis UnCI)
  qed
  then show ?thesis using assms unfolding marked_def by blast
qed

lemma set_marked:
  assumes "fat_wf st" and "n < CLUSTERS" and "n \<noteq> 2731" and "c < 4096" and "blk_size blk = BLK_SIZE" and "fat_fat_set blk n c st = (0, st')"
  shows "marked (straddles [n]) st st'"
proof -
  define i where "i = 3 * n div 2"
  have sl: "slot n = i" using assms(3) by (auto simp: slot_def PAGE_SIZE_def i_def)
  from set_ok[OF assms(1,2,4,5)] assms(6) have
    byte: "\<And>k. k < 2 * PAGE_SIZE \<Longrightarrow> k \<noteq> i \<Longrightarrow> k \<noteq> i + 1 \<Longrightarrow> fat_byte st' k = fat_byte st k" and
    dirty: "fat_dirty (fctx st') = (if i + 1 = PAGE_SIZE then u16 (u16 (fat_dirty (fctx st) OR 128) OR 256)
      else u16 (fat_dirty (fctx st) OR push_bit (i div 512) 1))" by (auto simp: sl)
  have lt: "i div 512 < 9" using assms(2) by (simp add: i_def CLUSTERS_def less_mult_imp_div_less)
  have b78: "bit (128 :: nat) j \<longleftrightarrow> j = 7" "bit (256 :: nat) j \<longleftrightarrow> j = 8" for j
    using bit_exp_iff[where 'a = nat, of 7 j] bit_exp_iff[where 'a = nat, of 8 j] by simp_all
  have u: "bit (u16 x) j \<longleftrightarrow> bit x j" if "j < 9" for x j
    using that by (simp add: u16_def bit_take_bit_iff flip: take_bit_eq_mod[of 16, simplified])
  have bits: "bit (fat_dirty (fctx st')) j \<longleftrightarrow> bit (fat_dirty (fctx st)) j \<or>
      (if i + 1 = PAGE_SIZE then j = 7 \<or> j = 8 else j = i div 512)" if "j < 9" for j
    using that lt by (auto simp: dirty u bit_or_iff b78 bit_exp_iff)
  have "bit (fat_dirty (fctx st')) (k div 512) \<or> fat_byte st' k = fat_byte st k" if k: "k < 4608" "k \<notin> straddles [n]" for k
  proof (cases "k = i \<or> k = i + 1")
    case False
    then show ?thesis using byte k(1) by (simp add: PAGE_SIZE_def)
  next
    case True
    have k9: "k div 512 < 9" using k(1) by (simp add: less_mult_imp_div_less)
    have ns: "k = i + 1 \<Longrightarrow> i mod 512 \<noteq> 511 \<or> i + 1 = PAGE_SIZE" using k(2) by (auto simp: straddles_def i_def)
    show ?thesis
    proof (cases "i + 1 = PAGE_SIZE")
      case True
      then have "k div 512 = 7 \<or> k div 512 = 8" using \<open>k = i \<or> k = i + 1\<close> by (auto simp: PAGE_SIZE_def)
      then show ?thesis using bits[OF k9] True by simp
    next
      case False
      have "(i + 1) div 512 = i div 512" if "i mod 512 \<noteq> 511" using that by (simp add: div_Suc mod_Suc)
      then have "k div 512 = i div 512" using True ns False by auto
      then show ?thesis using bits[OF k9] False by simp
    qed
  qed
  then show ?thesis unfolding marked_def using bits by auto
qed

locale fat_disk = blk_dev "blk_read blk" "blk_write blk" img ok for blk :: "'d dev_blk" and img :: "'d \<Rightarrow> nat \<Rightarrow> nat" and ok +
  assumes size_ok: "blk_size blk = BLK_SIZE"
begin

lemma chunk_read:
  assumes "ok (bdev st)" and "c < CLUSTERS" and "o' + n \<le> FAT12_SECTOR_SIZE" and "o' < FAT12_SECTOR_SIZE"
  shows "\<exists>d. blk_read blk (fat_sector_offset (CLUSTER2SECTOR c) + o') n (bdev st) =
      Some (int n, map (img (bdev st)) [(c + 31) * FAT12_SECTOR_SIZE + o' ..< (c + 31) * FAT12_SECTOR_SIZE + o' + n], d) \<and> ok d \<and>
      (\<forall>x < BLK_SIZE. img d x = img (bdev st) x)"
proof -
  have "fat_sector_offset (CLUSTER2SECTOR c) = (c + 31) * FAT12_SECTOR_SIZE"
    using fat_index(3)[OF assms(2)] by (simp add: fat_sector_offset_def)
  then show ?thesis using read_ok[OF assms(1), of "(c + 31) * FAT12_SECTOR_SIZE + o'" n] assms(2-4)
    by (simp add: CLUSTERS_def FAT12_SECTOR_SIZE_def BLK_SIZE_def)
qed

lemma fread_ok:
  assumes "fat_wf st" and "ok (bdev st)" and "chain_of st c0 cs" and "buff \<noteq> []"
    and "offs + length buff \<le> FAT12_SECTOR_SIZE * length cs"
  shows "\<exists>d. fread_loop blk (cs ! (offs div FAT12_SECTOR_SIZE)) offs buff st =
      Some (0, map (\<lambda>i. img (bdev st) (file_pos cs i)) [offs ..< offs + length buff], length buff, st\<lparr>bdev := d\<rparr>) \<and> ok d \<and>
      (\<forall>x < BLK_SIZE. img d x = img (bdev st) x)"
  using assms
proof (induction "length buff" arbitrary: offs buff st rule: less_induct)
  case less
  define q where "q = offs div FAT12_SECTOR_SIZE"
  define o' where "o' = offs mod FAT12_SECTOR_SIZE"
  define chunk where "chunk = min (FAT12_SECTOR_SIZE - o') (length buff)"
  have oq: "offs = q * FAT12_SECTOR_SIZE + o'" "o' < FAT12_SECTOR_SIZE" by (simp_all add: q_def o'_def FAT12_SECTOR_SIZE_def)
  have ql: "q < length cs" using less.prems(4,5) oq
    by (metis add_lessD1 le_less_trans length_greater_0_conv less_add_same_cancel1 less_le_trans mult.commute mult_less_cancel1)
  have c: "cs ! q < CLUSTERS" using chain_elems[OF less.prems(3)] ql by simp
  have ch: "0 < chunk" "chunk \<le> length buff" "o' + chunk \<le> FAT12_SECTOR_SIZE" using less.prems(4) oq(2) by (auto simp: chunk_def)
  from chunk_read[OF less.prems(2) c ch(3) oq(2)] obtain d where
    d: "blk_read blk (fat_sector_offset (CLUSTER2SECTOR (cs ! q)) + o') chunk (bdev st) =
      Some (int chunk, map (img (bdev st)) [(cs ! q + 31) * FAT12_SECTOR_SIZE + o' ..< (cs ! q + 31) * FAT12_SECTOR_SIZE + o' + chunk], d)"
      "ok d" "\<forall>x < BLK_SIZE. img d x = img (bdev st) x" by blast
  have part: "map (img (bdev st)) [(cs ! q + 31) * FAT12_SECTOR_SIZE + o' ..< (cs ! q + 31) * FAT12_SECTOR_SIZE + o' + chunk] =
      map (\<lambda>i. img (bdev st) (file_pos cs i)) [offs ..< offs + chunk]"
  proof (rule nth_equalityI)
    fix i assume "i < length (map (img (bdev st)) [(cs ! q + 31) * FAT12_SECTOR_SIZE + o' ..< (cs ! q + 31) * FAT12_SECTOR_SIZE + o' + chunk])"
    then have i: "i < chunk" by simp
    then have oi: "o' + i < FAT12_SECTOR_SIZE" using ch(3) by simp
    have "offs + i = q * FAT12_SECTOR_SIZE + (o' + i)" using oq(1) by simp
    then have "(offs + i) div FAT12_SECTOR_SIZE = q" "(offs + i) mod FAT12_SECTOR_SIZE = o' + i"
      by (simp_all only: sec_div[OF oi])
    then show "map (img (bdev st)) [(cs ! q + 31) * FAT12_SECTOR_SIZE + o' ..< (cs ! q + 31) * FAT12_SECTOR_SIZE + o' + chunk] ! i =
        map (\<lambda>i. img (bdev st) (file_pos cs i)) [offs ..< offs + chunk] ! i"
      using i by (simp add: file_pos_def add.assoc)
  qed simp
  define st1 where "st1 = st\<lparr>bdev := d\<rparr>"
  show ?case
  proof (cases "drop chunk buff = []")
    case True
    then have "chunk = length buff" using ch(2) by simp
    then show ?thesis using d part True
      by (intro exI[of _ d], subst fread_loop.simps) (simp add: Let_def q_def[symmetric] o'_def[symmetric] chunk_def[symmetric])
  next
    case False
    then have more: "chunk < length buff" "chunk = FAT12_SECTOR_SIZE - o'" using ch(2) by (auto simp: chunk_def)
    have next_offs: "offs + chunk = (q + 1) * FAT12_SECTOR_SIZE" using more(2) oq by simp
    have ql1: "q + 1 < length cs"
      using less.prems(5) more(1) next_offs oq(2)
      by (metis add_less_cancel_left le_add1 less_le_trans mult.commute mult_less_cancel1 nat_add_left_cancel_less order_less_le_trans)
    have dr: "length (drop q cs) \<noteq> 1" "drop q cs ! 1 = cs ! (q + 1)" using ql1 by auto
    have ch1: "chain_of st1 (cs ! q) (drop q cs)" using chain_drop[OF less.prems(3) ql] by (simp add: st1_def)
    have wf1: "fat_wf st1" using less.prems(1) by (simp add: st1_def)
    have nx: "fat_fat_next blk (cs ! q) st1 = (0, cs ! (q + 1), st1)"
      using next_ok[OF wf1 size_ok ch1] dr by simp
    have lt: "length (drop chunk buff) < length buff" using ch(1) more(1) by simp
    have "offs + chunk + length (drop chunk buff) \<le> FAT12_SECTOR_SIZE * length cs" using less.prems(5) more(1) by simp
    moreover have "ok (bdev st1)" "chain_of st1 c0 cs" using d(2) less.prems(3) by (simp_all add: st1_def)
    moreover have "(offs + chunk) div FAT12_SECTOR_SIZE = q + 1" unfolding next_offs by (simp add: FAT12_SECTOR_SIZE_def)
    ultimately obtain d' where d': "fread_loop blk (cs ! (q + 1)) (offs + chunk) (drop chunk buff) st1 =
        Some (0, map (\<lambda>i. img (bdev st1) (file_pos cs i)) [offs + chunk ..< offs + length buff], length buff - chunk, st1\<lparr>bdev := d'\<rparr>)"
        "ok d'" "\<forall>x < BLK_SIZE. img d' x = img (bdev st1) x"
      using less.hyps[OF lt wf1 _ _ False, of "offs + chunk"] more(1) by auto
    have "map (\<lambda>i. img (bdev st1) (file_pos cs i)) [offs + chunk ..< offs + length buff] =
        map (\<lambda>i. img (bdev st) (file_pos cs i)) [offs + chunk ..< offs + length buff]"
      using d(3) file_pos_less[OF less.prems(3)] less.prems(5) by (auto simp: st1_def)
    moreover have "[offs ..< offs + length buff] = [offs ..< offs + chunk] @ [offs + chunk ..< offs + length buff]"
      using more(1) by (metis add.assoc le_add1 le_add_diff_inverse less_imp_le_nat upt_add_eq_append)
    ultimately have "fread_loop blk (cs ! q) offs buff st =
        Some (0, map (\<lambda>i. img (bdev st) (file_pos cs i)) [offs ..< offs + length buff], length buff, st\<lparr>bdev := d'\<rparr>)"
      using d(1) part nx d'(1) False more(1)
      by (subst fread_loop.simps) (simp add: Let_def o'_def[symmetric] chunk_def[symmetric] st1_def[symmetric], simp add: st1_def)
    then show ?thesis using d' d(3) by (auto simp: q_def st1_def)
  qed
qed

lemma fat_read_ok:
  assumes "fat_wf st" and "ok (bdev st)" and ch: "chain_of st (cluster_of st f) cs" and "offs < f_size (files st f)"
    and sz: "f_size (files st f) \<le> FAT12_SECTOR_SIZE * length cs" and "buff \<noteq> []" and "length buff < 65536"
  shows "\<exists>d. fat_op_read blk f buff offs st = (let n = min (min (length buff) (f_size (files st f) - offs)) 32767 in
      Some (int n, map (\<lambda>i. img (bdev st) (file_pos cs i)) [offs ..< offs + n] @ drop n buff, st\<lparr>bdev := d\<rparr>)) \<and> ok d \<and>
      (\<forall>x < BLK_SIZE. img d x = img (bdev st) x)"
proof -
  define n where "n = min (min (length buff) (f_size (files st f) - offs)) 32767"
  have n: "read_len (f_size (files st f)) (length buff) offs = n"
    using assms(4,7) by (auto simp: read_len_def n_def u16_def)
  have np: "0 < n" "n \<le> length buff" "offs + n \<le> f_size (files st f)" using assms(4,6) by (auto simp: n_def)
  have "offs div FAT12_SECTOR_SIZE < length cs"
    using assms(4) sz by (simp add: less_mult_imp_div_less mult.commute FAT12_SECTOR_SIZE_def)
  note sk = seek_ok[OF assms(1) size_ok ch this]
  have "take n buff \<noteq> []" "offs + length (take n buff) \<le> FAT12_SECTOR_SIZE * length cs" using np sz by auto
  from fread_ok[OF assms(1,2) ch this] np obtain d where d: "fread_loop blk (cs ! (offs div FAT12_SECTOR_SIZE)) offs (take n buff) st =
      Some (0, map (\<lambda>i. img (bdev st) (file_pos cs i)) [offs ..< offs + n], n, st\<lparr>bdev := d\<rparr>)" "ok d"
      "\<forall>x < BLK_SIZE. img d x = img (bdev st) x" by auto
  then show ?thesis using assms(4) sk n unfolding n_def[symmetric] Let_def
    by (intro exI[of _ d]) (simp add: fat_op_read_def Let_def)
qed

lemma chunk_write:
  assumes "ok (bdev st)" and "c < CLUSTERS" and "o' + length bs \<le> FAT12_SECTOR_SIZE" and "o' < FAT12_SECTOR_SIZE"
  shows "\<exists>d. blk_write blk (fat_sector_offset (CLUSTER2SECTOR c) + o') bs (bdev st) = Some (int (length bs), d) \<and> ok d \<and>
      (\<forall>x < BLK_SIZE. img d x = (if (c + 31) * FAT12_SECTOR_SIZE + o' \<le> x \<and> x < (c + 31) * FAT12_SECTOR_SIZE + o' + length bs
         then bs ! (x - ((c + 31) * FAT12_SECTOR_SIZE + o')) else img (bdev st) x))"
proof -
  have "fat_sector_offset (CLUSTER2SECTOR c) = (c + 31) * FAT12_SECTOR_SIZE"
    using fat_index(3)[OF assms(2)] by (simp add: fat_sector_offset_def)
  then show ?thesis using write_ok[OF assms(1), of "(c + 31) * FAT12_SECTOR_SIZE + o'" bs] assms(2-4)
    by (simp add: CLUSTERS_def FAT12_SECTOR_SIZE_def BLK_SIZE_def)
qed

lemma fwrite_ok:
  assumes "fat_wf st" and "ok (bdev st)" and "chain_of st c0 cs" and "buff \<noteq> []"
    and "offs + length buff \<le> FAT12_SECTOR_SIZE * length cs"
  shows "\<exists>d. fwrite_loop blk (cs ! (offs div FAT12_SECTOR_SIZE)) offs buff st = Some (0, st\<lparr>bdev := d\<rparr>) \<and> ok d \<and>
      (\<forall>i < FAT12_SECTOR_SIZE * length cs. img d (file_pos cs i) =
         (if offs \<le> i \<and> i < offs + length buff then buff ! (i - offs) else img (bdev st) (file_pos cs i))) \<and>
      (\<forall>x < BLK_SIZE. x \<notin> file_pos cs ` {offs ..< offs + length buff} \<longrightarrow> img d x = img (bdev st) x)"
  using assms
proof (induction "length buff" arbitrary: offs buff st rule: less_induct)
  case less
  define q where "q = offs div FAT12_SECTOR_SIZE"
  define o' where "o' = offs mod FAT12_SECTOR_SIZE"
  define chunk where "chunk = min (FAT12_SECTOR_SIZE - o') (length buff)"
  have oq: "offs = q * FAT12_SECTOR_SIZE + o'" "o' < FAT12_SECTOR_SIZE" by (simp_all add: q_def o'_def FAT12_SECTOR_SIZE_def)
  have ql: "q < length cs" using less.prems(4,5) oq
    by (metis add_lessD1 le_less_trans length_greater_0_conv less_add_same_cancel1 less_le_trans mult.commute mult_less_cancel1)
  have c: "cs ! q < CLUSTERS" using chain_elems[OF less.prems(3)] ql by simp
  have ch: "0 < chunk" "chunk \<le> length buff" "o' + chunk \<le> FAT12_SECTOR_SIZE" using less.prems(4) oq(2) by (auto simp: chunk_def)
  define p where "p = (cs ! q + 31) * FAT12_SECTOR_SIZE + o'"
  have lt: "o' + length (take chunk buff) \<le> FAT12_SECTOR_SIZE" using ch by simp
  from chunk_write[OF less.prems(2) c lt oq(2), folded p_def] ch(2) obtain d where
    d: "blk_write blk (fat_sector_offset (CLUSTER2SECTOR (cs ! q)) + o') (take chunk buff) (bdev st) = Some (int chunk, d)"
      "ok d" and d3: "\<forall>x < BLK_SIZE. img d x = (if p \<le> x \<and> x < p + chunk then take chunk buff ! (x - p) else img (bdev st) x)"
    by auto
  have "(if p \<le> x \<and> x < p + chunk then take chunk buff ! (x - p) else v) = (if p \<le> x \<and> x < p + chunk then buff ! (x - p) else v)"
    for x v by (cases "p \<le> x \<and> x < p + chunk") (auto simp: nth_take)
  then have d3: "\<forall>x < BLK_SIZE. img d x = (if p \<le> x \<and> x < p + chunk then buff ! (x - p) else img (bdev st) x)"
    using d3 by presburger
  have pos: "file_pos cs (offs + i) = p + i" if "i < chunk" for i
  proof -
    have oi: "o' + i < FAT12_SECTOR_SIZE" using that ch(3) by simp
    have "offs + i = q * FAT12_SECTOR_SIZE + (o' + i)" using oq(1) by simp
    then show ?thesis unfolding file_pos_def by (simp only: sec_div[OF oi] p_def add.assoc)
  qed
  have dist: "distinct cs" by (rule chain_distinct[OF less.prems(3)])
  note fl = file_pos_less[OF less.prems(3)]
  have part: "img d (file_pos cs i) = (if offs \<le> i \<and> i < offs + chunk then buff ! (i - offs) else img (bdev st) (file_pos cs i))"
    if i: "i < FAT12_SECTOR_SIZE * length cs" for i
  proof (cases "p \<le> file_pos cs i \<and> file_pos cs i < p + chunk")
    case True
    define j where "j = file_pos cs i - p"
    have j: "j < chunk" "file_pos cs i = file_pos cs (offs + j)" using True pos[of j] by (auto simp: j_def)
    have "offs + j < FAT12_SECTOR_SIZE * length cs" using j(1) ch(2) less.prems(5) by simp
    then have ij: "i = offs + j" by (rule file_pos_inj[OF dist i _ j(2)])
    have "img d (file_pos cs i) = buff ! j" using True d3 fl[OF i] by (simp add: j_def)
    then show ?thesis using ij j(1) by simp
  next
    case False
    then have "\<not> (offs \<le> i \<and> i < offs + chunk)" using pos[of "i - offs"] by auto
    then show ?thesis using False d3 fl[OF i] by auto
  qed
  have other: "img d x = img (bdev st) x" if "x < BLK_SIZE" "x \<notin> file_pos cs ` {offs ..< offs + chunk}" for x
  proof -
    have "\<not> (p \<le> x \<and> x < p + chunk)"
    proof
      assume "p \<le> x \<and> x < p + chunk"
      then have "x = file_pos cs (offs + (x - p))" "x - p < chunk" using pos[of "x - p"] by auto
      then show False using that(2) by (metis atLeastLessThan_iff image_eqI le_add1 nat_add_left_cancel_less)
    qed
    then show ?thesis using d3 that(1) by auto
  qed
  define st1 where "st1 = st\<lparr>bdev := d\<rparr>"
  show ?case
  proof (cases "length buff - chunk = 0")
    case True
    then have "chunk = length buff" using ch(2) by simp
    then show ?thesis using d(1,2) part other True
      by (intro exI[of _ d], subst fwrite_loop.simps) (simp add: Let_def q_def[symmetric] o'_def[symmetric] chunk_def[symmetric])
  next
    case False
    then have more: "chunk < length buff" "chunk = FAT12_SECTOR_SIZE - o'" using ch(2) by (auto simp: chunk_def)
    have next_offs: "offs + chunk = (q + 1) * FAT12_SECTOR_SIZE" using more(2) oq by simp
    have ql1: "q + 1 < length cs"
      using less.prems(5) more(1) next_offs oq(2)
      by (metis add_less_cancel_left le_add1 less_le_trans mult.commute mult_less_cancel1 nat_add_left_cancel_less order_less_le_trans)
    have dr: "length (drop q cs) \<noteq> 1" "drop q cs ! 1 = cs ! (q + 1)" using ql1 by auto
    have ch1: "chain_of st1 (cs ! q) (drop q cs)" using chain_drop[OF less.prems(3) ql] by (simp add: st1_def)
    have wf1: "fat_wf st1" using less.prems(1) by (simp add: st1_def)
    have nx: "fat_fat_next blk (cs ! q) st1 = (0, cs ! (q + 1), st1)"
      using next_ok[OF wf1 size_ok ch1] dr by simp
    have lt': "length (drop chunk buff) < length buff" "drop chunk buff \<noteq> []" using ch(1) more(1) by auto
    have "offs + chunk + length (drop chunk buff) \<le> FAT12_SECTOR_SIZE * length cs" using less.prems(5) more(1) by simp
    moreover have "ok (bdev st1)" "chain_of st1 c0 cs" using d(2) less.prems(3) by (simp_all add: st1_def)
    moreover have "(offs + chunk) div FAT12_SECTOR_SIZE = q + 1" unfolding next_offs by (simp add: FAT12_SECTOR_SIZE_def)
    moreover have el: "offs + chunk + length (drop chunk buff) = offs + length buff" using more(1) by simp
    ultimately obtain d' where d': "fwrite_loop blk (cs ! (q + 1)) (offs + chunk) (drop chunk buff) st1 = Some (0, st1\<lparr>bdev := d'\<rparr>)"
        "ok d'" "\<forall>i < FAT12_SECTOR_SIZE * length cs. img d' (file_pos cs i) =
         (if offs + chunk \<le> i \<and> i < offs + length buff then drop chunk buff ! (i - (offs + chunk)) else img (bdev st1) (file_pos cs i))"
        "\<forall>x < BLK_SIZE. x \<notin> file_pos cs ` {offs + chunk ..< offs + length buff} \<longrightarrow> img d' x = img (bdev st1) x"
      using less.hyps[OF lt'(1) wf1 _ _ lt'(2), of "offs + chunk"] by auto
    have "fwrite_loop blk (cs ! q) offs buff st = Some (0, st\<lparr>bdev := d'\<rparr>)"
      using d(1) nx d'(1) False
      by (subst fwrite_loop.simps) (simp add: Let_def o'_def[symmetric] chunk_def[symmetric] st1_def[symmetric], simp add: st1_def)
    moreover have "img d' (file_pos cs i) = (if offs \<le> i \<and> i < offs + length buff then buff ! (i - offs) else img (bdev st) (file_pos cs i))"
      if "i < FAT12_SECTOR_SIZE * length cs" for i
      using d'(3) part[OF that] that more(1) by (auto simp: st1_def)
    moreover have "img d' x = img (bdev st) x" if "x < BLK_SIZE" "x \<notin> file_pos cs ` {offs ..< offs + length buff}" for x
    proof -
      have "x \<notin> file_pos cs ` {offs ..< offs + chunk}" "x \<notin> file_pos cs ` {offs + chunk ..< offs + length buff}"
        using that(2) more(1) by auto
      then show ?thesis using d'(4) other[OF that(1)] that(1) by (simp add: st1_def)
    qed
    ultimately show ?thesis using d'(2) by (auto simp: q_def)
  qed
qed

lemma fat_write_ok:
  assumes "fat_wf st" and "ok (bdev st)" and ch: "chain_of st (cluster_of st f) cs" and "offs + length buff \<le> f_size (files st f)"
    and sz: "f_size (files st f) \<le> FAT12_SECTOR_SIZE * length cs" and "buff \<noteq> []" and "length buff < 32768"
  shows "\<exists>d. fat_op_write blk junk f buff offs st = Some (int (length buff), st\<lparr>bdev := d\<rparr>) \<and> ok d \<and>
      (\<forall>i < FAT12_SECTOR_SIZE * length cs. img d (file_pos cs i) =
         (if offs \<le> i \<and> i < offs + length buff then buff ! (i - offs) else img (bdev st) (file_pos cs i))) \<and>
      (\<forall>x < BLK_SIZE. x \<notin> file_pos cs ` {offs ..< offs + length buff} \<longrightarrow> img d x = img (bdev st) x)"
proof -
  have le: "offs + length buff \<le> FAT12_SECTOR_SIZE * length cs" using assms(4) sz by simp
  then have "offs < FAT12_SECTOR_SIZE * length cs" using assms(6) by (cases buff) auto
  then have "offs div FAT12_SECTOR_SIZE < length cs" by (simp add: less_mult_imp_div_less mult.commute FAT12_SECTOR_SIZE_def)
  note sk = seek_ok[OF assms(1) size_ok ch this]
  from fwrite_ok[OF assms(1,2) ch assms(6) le] obtain d where d:
      "fwrite_loop blk (cs ! (offs div FAT12_SECTOR_SIZE)) offs buff st = Some (0, st\<lparr>bdev := d\<rparr>)" "ok d"
      "\<forall>i < FAT12_SECTOR_SIZE * length cs. img d (file_pos cs i) =
         (if offs \<le> i \<and> i < offs + length buff then buff ! (i - offs) else img (bdev st) (file_pos cs i))"
      "\<forall>x < BLK_SIZE. x \<notin> file_pos cs ` {offs ..< offs + length buff} \<longrightarrow> img d x = img (bdev st) x" by blast
  have "fat_op_write blk junk f buff offs st = Some (int (length buff), st\<lparr>bdev := d\<rparr>)"
    using assms(4,7) sk d(1) by (simp add: fat_op_write_def)
  then show ?thesis using d(2-4) by blast
qed

lemma fat_write_read:
  assumes "fat_wf st" and "ok (bdev st)" and ch: "chain_of st (cluster_of st f) cs" and le: "offs + length buff \<le> f_size (files st f)"
    and sz: "f_size (files st f) \<le> FAT12_SECTOR_SIZE * length cs" and ne: "buff \<noteq> []" and len: "length buff < 32768"
    and old: "length old = length buff"
  shows "\<exists>st1 st2. fat_op_write blk junk f buff offs st = Some (int (length buff), st1) \<and>
    fat_op_read blk f old offs st1 = Some (int (length buff), buff, st2)"
proof -
  from fat_write_ok[OF assms(1-7)] obtain d where d: "fat_op_write blk junk f buff offs st = Some (int (length buff), st\<lparr>bdev := d\<rparr>)"
      "ok d" "\<forall>i < FAT12_SECTOR_SIZE * length cs. img d (file_pos cs i) =
         (if offs \<le> i \<and> i < offs + length buff then buff ! (i - offs) else img (bdev st) (file_pos cs i))" by blast
  define st1 where "st1 = st\<lparr>bdev := d\<rparr>"
  have "0 < length buff" using ne by simp
  then have n: "min (min (length old) (f_size (files st1 f) - offs)) 32767 = length buff" "offs < f_size (files st1 f)"
    using le len old \<open>0 < length buff\<close> by (auto simp: st1_def simp del: length_greater_0_conv)
  have "map (\<lambda>i. img (bdev st1) (file_pos cs i)) [offs ..< offs + length buff] = buff"
    by (rule nth_equalityI) (use d(3) le sz in \<open>auto simp: st1_def\<close>)
  moreover have "fat_wf st1" "ok (bdev st1)" "chain_of st1 (cluster_of st1 f) cs" "f_size (files st1 f) \<le> FAT12_SECTOR_SIZE * length cs"
    "old \<noteq> []" "length old < 65536"
    using assms(1) d(2) ch sz ne len old by (auto simp: st1_def cluster_of_def)
  ultimately show ?thesis using fat_read_ok[of st1 f cs offs old] n d(1) old by (auto simp: st1_def)
qed

section \<open>Writing the table back\<close>

lemma sector_slot:
  fixes x :: nat
  assumes "512 \<le> x" and "x < 9728" and "(x div 512 - 1) mod 9 = i"
  shows "x div 512 = i + 1 \<or> x div 512 = i + 10"
proof -
  define q where "q = x div 512"
  have q: "1 \<le> q" "q < 19" using assms(1,2) by (simp_all add: less_mult_imp_div_less q_def)
  show ?thesis
  proof (cases "q < 10")
    case True
    then have "q - 1 < 9" using q by linarith
    then have "(q - 1) mod 9 = q - 1" by (rule mod_less)
    then show ?thesis using assms(3) q unfolding q_def[symmetric] by linarith
  next
    case False
    then have "q - 1 = (q - 10) + 9" "q - 10 < 9" using q by linarith+
    then have "(q - 1) mod 9 = q - 10" by (simp only: mod_add_self2 mod_less)
    then show ?thesis using assms(3) False unfolding q_def[symmetric] by linarith
  qed
qed

lemma sector_slot_in:
  assumes "i < (9 :: nat)"
  shows "512 * (i + 1) \<le> x \<and> x < 512 * (i + 1) + 512 \<Longrightarrow> 512 \<le> x \<and> x < 9728 \<and> (x div 512 - 1) mod 9 = i"
    and "512 * (i + 10) \<le> x \<and> x < 512 * (i + 10) + 512 \<Longrightarrow> 512 \<le> x \<and> x < 9728 \<and> (x div 512 - 1) mod 9 = i"
proof -
  have d: "x div 512 = k" if "512 * k \<le> x" "x < 512 * k + 512" for k using that by (simp add: div_nat_eqI)
  show "512 * (i + 1) \<le> x \<and> x < 512 * (i + 1) + 512 \<Longrightarrow> 512 \<le> x \<and> x < 9728 \<and> (x div 512 - 1) mod 9 = i"
    using d[of "i + 1"] assms by simp
  show "512 * (i + 10) \<le> x \<and> x < 512 * (i + 10) + 512 \<Longrightarrow> 512 \<le> x \<and> x < 9728 \<and> (x div 512 - 1) mod 9 = i"
    using d[of "i + 10"] assms by (simp add: mod_if)
qed

lemma sync_loop_ok:
  assumes "i \<le> 9" and "ok (bdev st)" and "scratch st = (if i \<le> 8 then fat_page0 (fctx st) else fat_page1 (fctx st))"
    and "fat_page1 (fctx st) < 256" and "fat_dirty (fctx st) \<noteq> 0"
  shows "\<exists>d p. sync_sectors blk [i ..< 9] st = Some (0, st\<lparr>bdev := d, scratch := p\<rparr>) \<and> ok d \<and>
    (\<forall>x < BLK_SIZE. img d x = (if 512 \<le> x \<and> x < 9728 \<and> i \<le> (x div 512 - 1) mod 9 \<and> bit (fat_dirty (fctx st)) ((x div 512 - 1) mod 9)
       then fat_byte st ((x - 512) mod 4608) else img (bdev st) x))"
  using assms
proof (induction "9 - i" arbitrary: i st)
  case 0
  then have i: "i = 9" by simp
  have m: "(x div 512 - 1) mod 9 < 9" for x :: nat by simp
  have "\<not> 9 \<le> (x div 512 - 1) mod 9" for x :: nat using m[of x] by linarith
  then show ?case using 0(3) by (intro exI[of _ "bdev st"] exI[of _ "scratch st"]) (simp add: i)
next
  case (Suc k)
  then have i: "i < 9" "k = 9 - Suc i" by auto
  define st1 where "st1 = (if i = 8 then st\<lparr>scratch := fat_page1 (fctx st)\<rparr> else st)"
  have st1: "bdev st1 = bdev st" "fctx st1 = fctx st" "ram st1 = ram st" "scratch st1 = (if i = 8 then fat_page1 (fctx st) else fat_page0 (fctx st))"
    using Suc.prems(3) i by (auto simp: st1_def)
  have up: "[i ..< 9] = i # [Suc i ..< 9]" using i(1) by (simp add: upt_rec)
  have step: "sync_sectors blk [i ..< 9] st = (if bit (fat_dirty (fctx st)) i then do {
          let bytes = scratch_bytes (fat_sector_offset (i mod 8)) 512 st1;
          (r1, d1) \<leftarrow> blk_write blk (fat_sector_offset (i + 1)) bytes (bdev st1);
          (if r1 < 0 then Some (r1, st1\<lparr>bdev := d1\<rparr>)
           else do {
             (r2, d2) \<leftarrow> blk_write blk (fat_sector_offset (i + 10)) bytes d1;
             (if r2 < 0 then Some (r2, st1\<lparr>bdev := d2\<rparr>) else sync_sectors blk [Suc i ..< 9] (st1\<lparr>bdev := d2\<rparr>)) }) }
        else sync_sectors blk [Suc i ..< 9] st1)"
  proof -
    have c: "fat_sector_round_down PAGE_SIZE = 8" "PAGE_SIZE div 512 = 8" "i + FAT12_FAT_SIZE + 1 = i + 10"
      by (simp_all add: fat_sector_round_down_def PAGE_SIZE_def FAT12_SECTOR_SIZE_def FAT12_FAT_SIZE_def u16_def)
    have mm: "(if i = 8 then snd (mmu_map_scratch (fat_page1 (fctx st)) st) else st) = st1"
      using Suc.prems(4) by (simp add: mmu_map_scratch_def st1_def)
    show ?thesis using Suc.prems(5) unfolding up sync_sectors.simps c mm Let_def st1(1,2)
      unfolding FAT12_SECTOR_SIZE_def c by (simp only: if_False)
  qed
  define bytes where "bytes = scratch_bytes (fat_sector_offset (i mod 8)) 512 st1"
  have bt: "length bytes = 512" "\<And>j. j < 512 \<Longrightarrow> bytes ! j = fat_byte st (512 * i + j)"
    using i(1) by (cases "i = 8"; auto simp: bytes_def scratch_bytes_def peek_def st1 fat_byte_def fat_sector_offset_def FAT12_SECTOR_SIZE_def PAGE_SIZE_def mult.commute)+
  define goal where "goal j x = (if 512 \<le> x \<and> x < 9728 \<and> j \<le> (x div 512 - 1) mod 9 \<and> bit (fat_dirty (fctx st)) ((x div 512 - 1) mod 9)
       then fat_byte st ((x - 512) mod 4608) else img (bdev st) x)" for j x
  have IH: "\<exists>d' p. sync_sectors blk [Suc i ..< 9] s = Some (0, s\<lparr>bdev := d', scratch := p\<rparr>) \<and> ok d' \<and>
      (\<forall>x < BLK_SIZE. img d' x = (if 512 \<le> x \<and> x < 9728 \<and> Suc i \<le> (x div 512 - 1) mod 9 \<and> bit (fat_dirty (fctx st)) ((x div 512 - 1) mod 9)
       then fat_byte st ((x - 512) mod 4608) else img (bdev s) x))"
    if "ok (bdev s)" "fctx s = fctx st" "ram s = ram st" "scratch s = scratch st1" for s
  proof -
    have fb: "fat_byte s = fat_byte st" using that by (simp add: fun_eq_iff fat_byte_def)
    have pre: "Suc i \<le> 9" "scratch s = (if Suc i \<le> 8 then fat_page0 (fctx s) else fat_page1 (fctx s))"
      "fat_page1 (fctx s) < 256" "fat_dirty (fctx s) \<noteq> 0"
      using i(1) that Suc.prems(4,5) st1 by auto
    from Suc.hyps(1)[OF i(2) pre(1) that(1) pre(2,3,4)] show ?thesis unfolding fb that(2) by blast
  qed
  show ?case
  proof (cases "bit (fat_dirty (fctx st)) i")
    case False
    from IH[of st1] Suc.prems(2) st1 obtain d' p where d': "sync_sectors blk [Suc i ..< 9] st1 = Some (0, st1\<lparr>bdev := d', scratch := p\<rparr>)" "ok d'"
      "\<forall>x < BLK_SIZE. img d' x = goal (Suc i) x" by (auto simp: goal_def)
    have "goal (Suc i) x = goal i x" for x using False by (auto simp: goal_def le_Suc_eq not_less_eq_eq[symmetric] Suc_le_eq le_less)
    then show ?thesis using step False d' by (intro exI[of _ d'] exI[of _ p]) (auto simp: goal_def st1_def)
  next
    case True
    define o1 o2 where "o1 = 512 * (i + 1)" and "o2 = 512 * (i + 10)"
    have bnd: "o1 + length bytes \<le> BLK_SIZE" "o1 < BLK_SIZE" "o2 + length bytes \<le> BLK_SIZE" "o2 < BLK_SIZE" "length bytes < 32768"
      using i(1) bt(1) by (simp_all add: o1_def o2_def BLK_SIZE_def)
    from write_ok[OF Suc.prems(2) bnd(1,2,5)] obtain d1 where d1: "blk_write blk o1 bytes (bdev st) = Some (512, d1)" "ok d1"
        "\<And>x. x < BLK_SIZE \<Longrightarrow> img d1 x = (if o1 \<le> x \<and> x < o1 + 512 then bytes ! (x - o1) else img (bdev st) x)"
      using bt(1) by auto
    from write_ok[OF d1(2) bnd(3,4,5)] obtain d2 where d2: "blk_write blk o2 bytes d1 = Some (512, d2)" "ok d2"
        "\<And>x. x < BLK_SIZE \<Longrightarrow> img d2 x = (if o2 \<le> x \<and> x < o2 + 512 then bytes ! (x - o2) else img d1 x)"
      using bt(1) by auto
    from IH[of "st1\<lparr>bdev := d2\<rparr>"] d2(2) st1 obtain d' p where d': "sync_sectors blk [Suc i ..< 9] (st1\<lparr>bdev := d2\<rparr>) =
          Some (0, st1\<lparr>bdev := d2, bdev := d', scratch := p\<rparr>)" "ok d'"
        "\<And>x. x < BLK_SIZE \<Longrightarrow> img d' x = (if 512 \<le> x \<and> x < 9728 \<and> Suc i \<le> (x div 512 - 1) mod 9 \<and>
           bit (fat_dirty (fctx st)) ((x div 512 - 1) mod 9) then fat_byte st ((x - 512) mod 4608) else img d2 x)" by auto
    have offs: "fat_sector_offset (i + 1) = o1" "fat_sector_offset (i + 10) = o2"
      by (simp_all add: fat_sector_offset_def FAT12_SECTOR_SIZE_def o1_def o2_def)
    have run: "sync_sectors blk [i ..< 9] st = Some (0, st\<lparr>bdev := d', scratch := p\<rparr>)"
      unfolding step bytes_def[symmetric] offs using True d1(1) d2(1) d'(1) st1(1) by (simp add: Let_def st1_def)
    have img: "img d' x = goal i x" if x: "x < BLK_SIZE" for x
    proof (cases "512 \<le> x \<and> x < 9728 \<and> (x div 512 - 1) mod 9 = i")
      case here: True
      define j where "j = x mod 512"
      have j: "j < 512" "x = 512 * (x div 512) + j" by (simp_all add: j_def)
      have "x div 512 = i + 1 \<or> x div 512 = i + 10" using here sector_slot[of x i] by blast
      then have xo: "x = o1 + j \<or> x = o2 + j"
        by (elim disjE) (subst j(2), simp only: o1_def o2_def, simp)+
      have gap: "o2 = o1 + 4608" by (simp add: o1_def o2_def)
      have small: "512 * i + j < 4608" using i(1) j(1) by linarith
      have "x - 512 = 512 * i + j \<or> x - 512 = 512 * i + j + 4608" using xo unfolding o1_def o2_def by (elim disjE) simp_all
      then have m: "(x - 512) mod 4608 = 512 * i + j" using small by (elim disjE) (simp_all only: mod_add_self2 mod_less)
      have g: "goal i x = fat_byte st (512 * i + j)" unfolding goal_def using here True m by (simp only: order_refl if_True simp_thms)
      have "img d2 x = fat_byte st (512 * i + j)"
        using xo
      proof
        assume e: "x = o1 + j"
        then have "img d2 x = img d1 x" "img d1 x = bytes ! j" using d2(3)[OF x] d1(3)[OF x] gap j(1) by simp_all
        then show ?thesis using bt(2)[OF j(1)] by simp
      next
        assume e: "x = o2 + j"
        then have "img d2 x = bytes ! j" using d2(3)[OF x] j(1) by simp
        then show ?thesis using bt(2)[OF j(1)] by simp
      qed
      moreover have "img d' x = img d2 x" using d'(3)[OF x] here by simp
      ultimately show ?thesis using g by simp
    next
      case False
      have "\<not> (o1 \<le> x \<and> x < o1 + 512)" "\<not> (o2 \<le> x \<and> x < o2 + 512)"
        using False sector_slot_in[of i x] i(1) unfolding o1_def o2_def by blast+
      then have "img d2 x = img (bdev st) x" using d2(3)[OF x] d1(3)[OF x] by auto
      moreover define sl where "sl = (x div 512 - 1) mod 9"
      moreover have "512 \<le> x \<Longrightarrow> x < 9728 \<Longrightarrow> Suc i \<le> sl \<longleftrightarrow> i \<le> sl" using False unfolding sl_def[symmetric] by linarith
      ultimately show ?thesis using d'(3)[OF x] unfolding goal_def sl_def[symmetric] by (simp only:) metis
    qed
    show ?thesis using run d'(2) img by (auto simp: goal_def)
  qed
qed

lemma sync_ok:
  assumes "fat_wf st" and "ok (bdev st)"
  shows "\<exists>d. fat_fat_sync blk st = Some (0, st\<lparr>bdev := d, fctx := (fctx st)\<lparr>fat_dirty := 0\<rparr>\<rparr>) \<and> ok d \<and>
    (\<forall>x < BLK_SIZE. img d x = (if 512 \<le> x \<and> x < 9728 \<and> bit (fat_dirty (fctx st)) ((x div 512 - 1) mod 9)
       then fat_byte st ((x - 512) mod 4608) else img (bdev st) x))"
proof -
  have w: "fat_page0 (fctx st) < 256" "fat_page1 (fctx st) < 256" "scratch st < 256" using assms(1) by (simp_all add: fat_wf_def)
  define st1 where "st1 = st\<lparr>scratch := fat_page0 (fctx st)\<rparr>"
  have m: "mmu_map_scratch (fat_page0 (fctx st)) st = (scratch st, st1)" using w by (simp add: mmu_map_scratch_def st1_def)
  have fb: "fat_byte st1 = fat_byte st" by (simp add: fun_eq_iff fat_byte_def st1_def)
  show ?thesis
  proof (cases "fat_dirty (fctx st) = 0")
    case True
    have "sync_sectors blk [0 ..< FAT12_FAT_SIZE] st1 = Some (0, st1)"
      using True by (simp add: FAT12_FAT_SIZE_def upt_rec[of 0] st1_def)
    then have "fat_fat_sync blk st = Some (0, st\<lparr>fctx := (fctx st)\<lparr>fat_dirty := 0\<rparr>\<rparr>)"
      using m w by (simp add: fat_fat_sync_def Let_def mmu_map_scratch_def st1_def)
    then show ?thesis using assms(2) True by (intro exI[of _ "bdev st"]) simp
  next
    case False
    have "fat_page1 (fctx st1) < 256" "fat_dirty (fctx st1) \<noteq> 0" "scratch st1 = (if (0 :: nat) \<le> 8 then fat_page0 (fctx st1) else fat_page1 (fctx st1))"
      "ok (bdev st1)" using False w assms(2) by (simp_all add: st1_def)
    from sync_loop_ok[OF _ this(4,3,1,2)] obtain d p where d: "sync_sectors blk [0 ..< 9] st1 = Some (0, st1\<lparr>bdev := d, scratch := p\<rparr>)" "ok d"
      "\<forall>x < BLK_SIZE. img d x = (if 512 \<le> x \<and> x < 9728 \<and> bit (fat_dirty (fctx st)) ((x div 512 - 1) mod 9)
       then fat_byte st ((x - 512) mod 4608) else img (bdev st) x)"
      unfolding fb by (auto simp: st1_def)
    have "fat_fat_sync blk st = Some (0, st\<lparr>bdev := d, fctx := (fctx st)\<lparr>fat_dirty := 0\<rparr>\<rparr>)"
      using m w d(1) by (simp add: fat_fat_sync_def Let_def mmu_map_scratch_def st1_def FAT12_FAT_SIZE_def)
    then show ?thesis using d(2,3) by blast
  qed
qed

text \<open>An entry whose bytes are in two sectors: only the first of them is written back.\<close>

lemma sync_straddle:
  assumes "fat_wf st" and "ok (bdev st)" and clean: "fat_dirty (fctx st) = 0" and c: "c < 4096"
  shows "\<exists>st1 st2. fat_fat_set blk 341 c st = (0, st1) \<and> fat_fat_sync blk st1 = Some (0, st2) \<and> fat_dirty (fctx st2) = 0 \<and>
    fat_byte st2 512 = c div 16 \<and> img (bdev st2) 1024 = img (bdev st) 1024 \<and> img (bdev st2) (1024 + 4608) = img (bdev st) (1024 + 4608)"
proof -
  have sl: "slot 341 = 511" by (simp add: slot_def PAGE_SIZE_def)
  from set_ok[OF assms(1) _ c size_ok, of 341, unfolded sl] obtain st1 where st1: "fat_fat_set blk 341 c st = (0, st1)" "same_but_table st st1"
      "\<forall>k < 2 * PAGE_SIZE. fat_byte st1 k = (if k = 511 then pack0 341 c (fat_byte st k) else if k = 512 then pack1 341 c (fat_byte st k) else fat_byte st k)"
      "fat_dirty (fctx st1) = u16 (fat_dirty (fctx st) OR push_bit 0 1)"
    by (auto simp: CLUSTERS_def PAGE_SIZE_def)
  from set_entries[OF assms(1) _ _ c size_ok, of 341] st1(1) have wf1: "fat_wf st1" by (auto simp: CLUSTERS_def)
  have bd: "bdev st1 = bdev st" using st1(2) by (simp add: same_but_table_def)
  have dirty: "fat_dirty (fctx st1) = 1" using st1(4) clean by simp
  from sync_ok[OF wf1] assms(2) bd obtain d where d: "fat_fat_sync blk st1 = Some (0, st1\<lparr>bdev := d, fctx := (fctx st1)\<lparr>fat_dirty := 0\<rparr>\<rparr>)"
     "\<forall>x < BLK_SIZE. img d x = (if 512 \<le> x \<and> x < 9728 \<and> bit (1 :: nat) ((x div 512 - 1) mod 9)
       then fat_byte st1 ((x - 512) mod 4608) else img (bdev st) x)" unfolding dirty by auto
  have b1: "\<not> bit (1 :: nat) 1" by (simp add: bit_1_iff)
  have "img d 1024 = img (bdev st) 1024" "img d (1024 + 4608) = img (bdev st) (1024 + 4608)"
    using d(2)[rule_format, of 1024] d(2)[rule_format, of "1024 + 4608"] b1 by (simp_all add: BLK_SIZE_def)
  moreover have "fat_byte (st1\<lparr>bdev := d, fctx := (fctx st1)\<lparr>fat_dirty := 0\<rparr>\<rparr>) 512 = c div 16"
    using st1(3)[rule_format, of 512] by (simp add: fat_byte_def PAGE_SIZE_def pack1_def)
  ultimately show ?thesis using st1(1) d(1) by (intro exI[of _ st1] exI[of _ "st1\<lparr>bdev := d, fctx := (fctx st1)\<lparr>fat_dirty := 0\<rparr>\<rparr>"]) simp
qed

section \<open>Freeing a chain\<close>

lemma trim_free_ok:
  assumes "fat_wf st" and "chain_of st c cs" and "2731 \<notin> set cs"
  shows "\<exists>st'. trim_free blk c st = Some (0, st') \<and> fat_wf st' \<and> same_but_table st st' \<and> marked (straddles cs) st st' \<and>
    (\<forall>m < CLUSTERS. fat_entry st' m = (if m \<in> set cs then 0 else fat_entry st m))"
  using assms
proof (induction cs arbitrary: st c)
  case Nil
  then show ?case by simp
next
  case (Cons x xs)
  have x: "x = c" "c < CLUSTERS" "c \<noteq> 2731" "2 \<le> c" using chain_head[OF Cons.prems(2)] Cons.prems(3) by auto
  have ne: "c \<noteq> CLUSTER_END" using x(2) by (simp add: CLUSTER_END_def CLUSTERS_def)
  define nx where "nx = (if xs = [] then CLUSTER_END else xs ! 0)"
  have nxt: "norm (fat_entry st c) = nx" "xs \<noteq> [] \<Longrightarrow> chain_of st nx xs"
    using Cons.prems(2) chain_head x(1) by (cases xs; auto simp: nx_def)+
  have nr: "nx \<noteq> CLUSTER_FREE" "nx \<noteq> CLUSTER_RESERVED"
  proof -
    have "nx = CLUSTER_END \<or> 2 \<le> nx \<and> nx < CLUSTERS"
      using nxt(2) chain_head[of st nx xs] by (cases "xs = []") (simp_all add: nx_def)
    then show "nx \<noteq> CLUSTER_FREE" "nx \<noteq> CLUSTER_RESERVED" by (auto simp: fat_consts CLUSTERS_def)
  qed
  note g = get_ok[OF Cons.prems(1) x(2) size_ok, of c]
  from set_entries[OF Cons.prems(1) x(2,3) _ size_ok, of 0] obtain st1 where st1: "fat_fat_set blk c 0 st = (0, st1)" "fat_wf st1"
      "same_but_table st st1" "\<forall>m < CLUSTERS. fat_entry st1 m = (if m = c then 0 else fat_entry st m)" by auto
  have m1: "marked (straddles [c]) st st1" by (rule set_marked[OF Cons.prems(1) x(2,3) _ size_ok st1(1)]) simp
  have run: "trim_free blk c st = trim_free blk nx st1"
    using ne g nxt(1) nr st1(1) by (subst trim_free.simps) (simp add: CLUSTER_FREE_def)
  show ?case
  proof (cases "xs = []")
    case True
    then have "trim_free blk nx st1 = Some (0, st1)" by (subst trim_free.simps) (simp add: nx_def)
    then show ?thesis using run st1 True x(1) m1 by auto
  next
    case False
    have dist: "distinct (x # xs)" by (rule chain_distinct[OF Cons.prems(2)])
    have el: "y \<in> set xs \<Longrightarrow> y < CLUSTERS \<and> y \<noteq> c" for y using chain_elems[OF Cons.prems(2), of y] dist x(1) by auto
    have "chain_of st1 nx xs" using nxt(2)[OF False] st1(4) el by (subst chain_cong[of xs st1 st]) auto
    from Cons.IH[OF st1(2) this] Cons.prems(3) obtain st' where st': "trim_free blk nx st1 = Some (0, st')" "fat_wf st'"
        "same_but_table st1 st'" "marked (straddles xs) st1 st'"
        "\<forall>m < CLUSTERS. fat_entry st' m = (if m \<in> set xs then 0 else fat_entry st1 m)" by auto
    have "same_but_table st st'" using st1(3) st'(3) by (auto simp: same_but_table_def)
    moreover have "straddles [c] \<union> straddles xs = straddles (x # xs)" using x(1) by (simp add: straddles_def)
    then have "marked (straddles (x # xs)) st st'" using marked_trans[OF m1 st'(4)] by simp
    ultimately show ?thesis using run st' st1(4) x(1) by auto
  qed
qed

lemma trim_to_zero:
  assumes wf: "fat_wf st" and ok: "ok (bdev st)" and ch: "chain_of st (cluster_of st f) cs" and bug: "2731 \<notin> set cs"
    and disk: "table_on_disk img X st"
  shows "\<exists>st'. fat_file_trim_chain blk junk f (Some d) 0 st = Some (0, Some (d\<lparr>fd_cluster := 0\<rparr>), st') \<and> fat_wf st' \<and> ok (bdev st') \<and>
    cluster_of st' f = 0 \<and> fat_dirty (fctx st') = 0 \<and>
    (\<forall>m < CLUSTERS. fat_entry st' m = (if m \<in> set cs then 0 else fat_entry st m)) \<and>
    (\<forall>k < 4608. k \<notin> X \<union> straddles cs \<longrightarrow> img (bdev st') (512 + k) = fat_byte st' k \<and> img (bdev st') (5120 + k) = fat_byte st' k) \<and>
    (\<forall>x < BLK_SIZE. x < 512 \<or> 9728 \<le> x \<longrightarrow> img (bdev st') x = img (bdev st) x)"
proof -
  have c: "cluster_of st f \<noteq> 0" using chain_head[OF ch] by simp
  define st0 where "st0 = set_cluster f 0 st"
  have fb: "fat_byte st0 = fat_byte st" by (simp add: fun_eq_iff fat_byte_def st0_def set_cluster_def upd_file_def)
  have s0: "fat_entry st0 = fat_entry st" "bdev st0 = bdev st" "fctx st0 = fctx st"
    using entry_cong[OF fb] by (simp_all add: st0_def set_cluster_def upd_file_def)
  have w0: "fat_wf st0" using wf unfolding fat_wf_def fb by (simp add: st0_def set_cluster_def upd_file_def)
  have "chain_of st0 (cluster_of st f) cs" using ch by (subst chain_cong[of cs st0 st]) (simp_all add: s0(1))
  from trim_free_ok[OF w0 this bug, unfolded s0(1)] obtain st1 where st1: "trim_free blk (cluster_of st f) st0 = Some (0, st1)" "fat_wf st1"
      "same_but_table st0 st1" "marked (straddles cs) st0 st1" "\<forall>m < CLUSTERS. fat_entry st1 m = (if m \<in> set cs then 0 else fat_entry st m)" by blast
  have "ok (bdev st1)" using st1(3) ok by (simp add: same_but_table_def s0(2))
  from sync_ok[OF st1(2) this] obtain d' where d': "fat_fat_sync blk st1 = Some (0, st1\<lparr>bdev := d', fctx := (fctx st1)\<lparr>fat_dirty := 0\<rparr>\<rparr>)"
      "ok d'" "\<forall>x < BLK_SIZE. img d' x = (if 512 \<le> x \<and> x < 9728 \<and> bit (fat_dirty (fctx st1)) ((x div 512 - 1) mod 9)
       then fat_byte st1 ((x - 512) mod 4608) else img (bdev st1) x)" by blast
  define st' where "st' = st1\<lparr>bdev := d', fctx := (fctx st1)\<lparr>fat_dirty := 0\<rparr>\<rparr>"
  have "fat_file_trim_chain blk junk f (Some d) 0 st = Some (0, Some (d\<lparr>fd_cluster := 0\<rparr>), st')"
    using c st1(1) d'(1) by (simp add: fat_file_trim_chain_def trim_shrink_def st0_def[symmetric] st'_def)
  moreover have "files st1 = files st0" "bdev st1 = bdev st" using st1(3) s0(2) by (simp_all add: same_but_table_def)
  moreover have fb': "fat_byte st' = fat_byte st1" by (simp add: fun_eq_iff fat_byte_def st'_def)
  moreover have "fat_entry st' = fat_entry st1" by (rule entry_cong[OF fb'])
  moreover have "fat_wf st'" using st1(2) unfolding fat_wf_def fb' by (simp add: st'_def)
  moreover have "img d' (512 + k) = fat_byte st1 k \<and> img d' (5120 + k) = fat_byte st1 k" if k: "k < 4608" "k \<notin> X \<union> straddles cs" for k
  proof -
    have kd: "k div 512 < 9" using k(1) by (simp add: less_mult_imp_div_less)
    have "(512 + k) div 512 = k div 512 + 1" "(5120 + k) div 512 = k div 512 + 9 + 1" by simp_all
    then have q: "((512 + k) div 512 - 1) mod 9 = k div 512" "((5120 + k) div 512 - 1) mod 9 = k div 512"
      using kd by (simp_all only: diff_add_inverse2 mod_add_self2 mod_less)
    have r: "(512 + k - 512) mod 4608 = k" "(5120 + k - 512) mod 4608 = k" using k(1) by (simp_all add: mod_if)
    have bd: "512 + k < BLK_SIZE" "5120 + k < BLK_SIZE" using k(1) by (simp_all add: BLK_SIZE_def)
    have old: "img (bdev st1) (512 + k) = fat_byte st1 k \<and> img (bdev st1) (5120 + k) = fat_byte st1 k"
      if n: "\<not> bit (fat_dirty (fctx st1)) (k div 512)"
    proof -
      have "\<not> bit (fat_dirty (fctx st)) (k div 512)" "fat_byte st1 k = fat_byte st k"
        using st1(4) n k kd unfolding marked_def s0(3) fb by auto
      then show ?thesis using disk k st1(3) s0(2) unfolding table_on_disk_def by (simp add: same_but_table_def)
    qed
    show ?thesis using d'(3)[rule_format, OF bd(1)] d'(3)[rule_format, OF bd(2)] old k(1) unfolding q r by auto
  qed
  ultimately show ?thesis using d'(2,3) st1(5)
    by (auto simp: st'_def cluster_of_def st0_def set_cluster_def upd_file_def)
qed

section \<open>The root directory\<close>

text \<open>Entry \<open>k\<close> counted from the beginning of the root directory; the directory itself has 224.\<close>

lemma root_access:
  assumes "k < 45776"
  shows "\<exists>sector offset. fat_file_dir_access blk 65535 k st = (0, sector, offset, st) \<and> fat_sector_offset sector + offset = 9728 + 32 * k"
proof -
  have "k * 32 div 512 = k div 16" by (simp add: div_mult2_eq[of "k * 32" 32 16, simplified])
  then have "u16 (1 + 2 * 9 + u16 (k * 32 div 512)) = 19 + k div 16" using assms by (simp add: u16_def)
  moreover have "(19 + k div 16) * 512 + k * 32 mod 512 = 9728 + 32 * k"
    using mult_div_mod_eq[of 512 "k * 32"] \<open>k * 32 div 512 = k div 16\<close> by (simp add: algebra_simps)
  ultimately show ?thesis
    by (simp add: fat_file_dir_access_def DENTRY_SIZE_def fat_sector_round_down_def fat_sector_offset_def fat_consts Let_def)
qed

lemma root_read:
  assumes "ok (bdev st)" and "k < 45776"
  shows "\<exists>d. fat_file_dir_read blk 65535 k st = Some (0, dentry_of (root_bytes (img (bdev st)) k), st\<lparr>bdev := d\<rparr>) \<and> ok d \<and>
    (\<forall>x < BLK_SIZE. img d x = img (bdev st) x)"
proof -
  from root_access[OF assms(2)] obtain se o' where a: "fat_file_dir_access blk 65535 k st = (0, se, o', st)"
      "fat_sector_offset se + o' = 9728 + 32 * k" by blast
  from read_ok[OF assms(1), of "9728 + 32 * k" 32] assms(2) obtain d where d: "blk_read blk (9728 + 32 * k) 32 (bdev st) =
      Some (32, root_bytes (img (bdev st)) k, d)" "ok d" "\<forall>x < BLK_SIZE. img d x = img (bdev st) x"
    by (auto simp: BLK_SIZE_def root_bytes_def)
  have "length (root_bytes (img (bdev st)) k) = 32" by (simp add: root_bytes_def)
  then show ?thesis using a d by (intro exI[of _ d]) (simp add: fat_file_dir_read_def DENTRY_SIZE_def)
qed

lemma root_write:
  assumes "ok (bdev st)" and "k < 45776" and e: "dentry_ok e"
  shows "\<exists>d. fat_file_dir_write blk 65535 e k st = Some (0, st\<lparr>bdev := d\<rparr>) \<and> ok d \<and> root_bytes (img d) k = dentry_bytes e \<and>
    (\<forall>x < BLK_SIZE. \<not> (9728 + 32 * k \<le> x \<and> x < 9728 + 32 * k + 32) \<longrightarrow> img d x = img (bdev st) x)"
proof -
  from root_access[OF assms(2)] obtain se o' where a: "fat_file_dir_access blk 65535 k st = (0, se, o', st)"
      "fat_sector_offset se + o' = 9728 + 32 * k" by blast
  have l: "length (dentry_bytes e) = 32" using dentry_bytes_length[OF e] by (simp add: DENTRY_SIZE_def)
  from write_ok[OF assms(1), of "9728 + 32 * k" "dentry_bytes e"] assms(2) l obtain d where
      d: "blk_write blk (9728 + 32 * k) (dentry_bytes e) (bdev st) = Some (32, d)" "ok d"
      "\<forall>x < BLK_SIZE. img d x = (if 9728 + 32 * k \<le> x \<and> x < 9728 + 32 * k + 32 then dentry_bytes e ! (x - (9728 + 32 * k)) else img (bdev st) x)"
    by (auto simp: BLK_SIZE_def)
  have "root_bytes (img d) k = dentry_bytes e"
    by (rule nth_equalityI) (use l d(3) assms(2) in \<open>auto simp: root_bytes_def BLK_SIZE_def\<close>)
  then show ?thesis using a d by (intro exI[of _ d]) (simp add: fat_file_dir_write_def)
qed

lemma create_find_root:
  assumes "cluster_of st dir = 65535" and "ok (bdev st)" and "j \<le> k" and "k < 45776"
    and "\<And>i. j \<le> i \<Longrightarrow> i < k \<Longrightarrow> \<not> entry_free (dentry_of (root_bytes (img (bdev st)) i))" and "entry_free (dentry_of (root_bytes (img (bdev st)) k))"
  shows "\<exists>d. create_find blk junk (dir, j) st = Some (0, k, st\<lparr>bdev := d\<rparr>) \<and> ok d \<and> (\<forall>x < BLK_SIZE. img d x = img (bdev st) x)"
  using assms
proof (induction "k - j" arbitrary: j st)
  case 0
  then have "j = k" by simp
  moreover from root_read[OF 0(3) 0(5)] obtain d where
    "fat_file_dir_read blk 65535 k st = Some (0, dentry_of (root_bytes (img (bdev st)) k), st\<lparr>bdev := d\<rparr>)" "ok d"
    "\<forall>x < BLK_SIZE. img d x = img (bdev st) x" by blast
  ultimately show ?case using 0(2,7) by (intro exI[of _ d], subst create_find.simps) (simp add: ENOENT_def)
next
  case (Suc n)
  then have j: "j < k" "n = k - (j + 1)" "j < 45776" "j + 1 \<le> k" "u16 (j + 1) = j + 1" by auto
  from root_read[OF Suc.prems(2) j(3)] obtain d where
    d: "fat_file_dir_read blk 65535 j st = Some (0, dentry_of (root_bytes (img (bdev st)) j), st\<lparr>bdev := d\<rparr>)" "ok d"
    "\<forall>x < BLK_SIZE. img d x = img (bdev st) x" by blast
  have nf: "\<not> entry_free (dentry_of (root_bytes (img (bdev st)) j))" using Suc.prems(5)[of j] j(1) by simp
  define st1 where "st1 = st\<lparr>bdev := d\<rparr>"
  have rb: "root_bytes (img (bdev st1)) i = root_bytes (img (bdev st)) i" if "i \<le> k" for i
    using d(3) that Suc.prems(4) by (auto simp: root_bytes_def BLK_SIZE_def st1_def)
  have "cluster_of st1 dir = 65535" "ok (bdev st1)" using Suc.prems(1) d(2) by (simp_all add: st1_def cluster_of_def)
  moreover have "\<not> entry_free (dentry_of (root_bytes (img (bdev st1)) i))" if "j + 1 \<le> i" "i < k" for i
    using Suc.prems(5)[of i] that rb[of i] by simp
  moreover have "entry_free (dentry_of (root_bytes (img (bdev st1)) k))" using Suc.prems(6) rb by simp
  ultimately obtain d' where d': "create_find blk junk (dir, j + 1) st1 = Some (0, k, st1\<lparr>bdev := d'\<rparr>)" "ok d'"
      "\<forall>x < BLK_SIZE. img d' x = img (bdev st1) x" using Suc.hyps(1)[OF j(2), of st1] j(4) Suc.prems(4) by auto
  have "create_find blk junk (dir, j) st = create_find blk junk (dir, j + 1) st1"
    using Suc.prems(1) d(1) nf j(5) by (subst create_find.simps) (simp add: ENOENT_def st1_def)
  then show ?case using d' d(3) by (intro exI[of _ d']) (simp add: st1_def)
qed

lemma create_root:
  assumes "cluster_of st dir = 65535" and "ok (bdev st)" and "k < 45776" and "S_ISREG attr" and "name_83 base ext"
    and "\<And>i. i < k \<Longrightarrow> \<not> entry_free (dentry_of (root_bytes (img (bdev st)) i))" and "entry_free (dentry_of (root_bytes (img (bdev st)) k))"
  shows "\<exists>d. fat_op_create blk junk dir (dotted base ext) attr st = Some (0, k, st\<lparr>bdev := d\<rparr>) \<and> ok d \<and>
    root_bytes (img d) k = dentry_bytes (new_dentry base ext attr) \<and>
    (\<forall>x < BLK_SIZE. \<not> (9728 + 32 * k \<le> x \<and> x < 9728 + 32 * k + 32) \<longrightarrow> img d x = img (bdev st) x)"
proof -
  have "fat_attr2fat attr < 256" by (auto simp: fat_attr2fat_def push_bit_eq_mult)
  then have e: "dentry_ok (new_dentry base ext attr)"
    using assms(5) by (simp add: dentry_ok_def new_dentry_def empty_dentry_def pad_def name_83_def)
  from create_find_root[of st dir 0 k, OF assms(1,2) le0 assms(3,6,7)] obtain d1 where d1: "create_find blk junk (dir, 0) st = Some (0, k, st\<lparr>bdev := d1\<rparr>)"
      "ok d1" "\<forall>x < BLK_SIZE. img d1 x = img (bdev st) x" by blast
  from root_write[of "st\<lparr>bdev := d1\<rparr>" k, OF _ assms(3) e] d1(2) obtain d where
    d: "fat_file_dir_write blk 65535 (new_dentry base ext attr) k (st\<lparr>bdev := d1\<rparr>) = Some (0, st\<lparr>bdev := d\<rparr>)" "ok d"
      "root_bytes (img d) k = dentry_bytes (new_dentry base ext attr)"
      "\<forall>x < BLK_SIZE. \<not> (9728 + 32 * k \<le> x \<and> x < 9728 + 32 * k + 32) \<longrightarrow> img d x = img d1 x" by auto
  have "cluster_of (st\<lparr>bdev := d1\<rparr>) dir = 65535" using assms(1) by (simp add: cluster_of_def)
  then have "fat_op_create blk junk dir (dotted base ext) attr st = Some (0, k, st\<lparr>bdev := d\<rparr>)"
    using assms(4) split_name_ok[OF assms(5)] d1(1) d(1) by (simp add: fat_op_create_def new_dentry_def Let_def)
  then show ?thesis using d d1(3) by auto
qed

lemma create_readdir:
  assumes "cluster_of st dir = 65535" and "ok (bdev st)" and "k < 45776" and "S_ISREG attr" and "name_83 base ext"
    and "\<And>i. i < k \<Longrightarrow> \<not> entry_free (dentry_of (root_bytes (img (bdev st)) i))" and "entry_free (dentry_of (root_bytes (img (bdev st)) k))"
    and "length buf = FS_NAME_LENGTH_MAX" and "toupper (base ! 0) \<noteq> 229"
  shows "\<exists>st1 st2 de. fat_op_create blk junk dir (dotted base ext) attr st = Some (0, k, st1) \<and>
    fat_op_readdir blk dir buf k st1 = Some (0, Some (de, 0, k), st2) \<and>
    c_string (d_name de) = dotted (map toupper base) (map toupper ext) \<and> d_size de = 0 \<and>
    d_attr de = S_IX OR S_IR OR (attr AND S_IW) OR S_IFREG \<and>
    (\<forall>x < BLK_SIZE. \<not> (9728 + 32 * k \<le> x \<and> x < 9728 + 32 * k + 32) \<longrightarrow> img (bdev st1) x = img (bdev st) x)"
proof -
  have at: "fat_fat2attr (fat_attr2fat attr) = S_IX OR S_IR OR (attr AND S_IW) OR S_IFREG"
    by (rule reg_attr[OF assms(4)])
  from create_root[OF assms(1-7)] obtain d where d: "fat_op_create blk junk dir (dotted base ext) attr st = Some (0, k, st\<lparr>bdev := d\<rparr>)"
      "ok d" "root_bytes (img d) k = dentry_bytes (new_dentry base ext attr)"
      "\<forall>x < BLK_SIZE. \<not> (9728 + 32 * k \<le> x \<and> x < 9728 + 32 * k + 32) \<longrightarrow> img d x = img (bdev st) x" by blast
  have b: "base \<noteq> []" "length base \<le> 8" "length ext \<le> 3" "\<forall>x \<in> set base. x \<noteq> 0 \<and> x \<noteq> 46 \<and> x \<noteq> 32" "\<forall>x \<in> set ext. x \<noteq> 0 \<and> x \<noteq> 32"
    using assms(5) by (simp_all add: name_83_def)
  have "fat_attr2fat attr < 256" by (auto simp: fat_attr2fat_def push_bit_eq_mult)
  then have e: "dentry_ok (new_dentry base ext attr)"
    using b by (simp add: dentry_ok_def new_dentry_def empty_dentry_def pad_def)
  define s1 where "s1 = st\<lparr>bdev := d\<rparr>"
  have s1: "ok (bdev s1)" "root_bytes (img (bdev s1)) k = dentry_bytes (new_dentry base ext attr)" "cluster_of s1 dir = 65535"
    using d(2,3) assms(1) by (simp_all add: s1_def cluster_of_def)
  from root_read[OF s1(1) assms(3), unfolded s1(2) dentry_roundtrip[OF e]] obtain d2 where
    d2: "fat_file_dir_read blk 65535 k s1 = Some (0, new_dentry base ext attr, s1\<lparr>bdev := d2\<rparr>)" by blast
  have z: "toupper x \<noteq> 0 \<and> toupper x \<noteq> 32" if "x \<noteq> 0 \<and> x \<noteq> 32" for x using that by (auto simp: toupper_def)
  have B: "map toupper base \<noteq> []" "length (map toupper base) \<le> 8" "length (map toupper ext) \<le> 3" using b(1-3) by simp_all
  have zb: "\<forall>x \<in> set (map toupper base). x \<noteq> 0 \<and> x \<noteq> 32" using b(4) unfolding ball_simps(9) list.set_map by (intro ballI z) simp
  have ze: "\<forall>x \<in> set (map toupper ext). x \<noteq> 0 \<and> x \<noteq> 32" using b(5) unfolding ball_simps(9) list.set_map by (intro ballI z) simp
  from join_name_ok[OF B(1,2) zb B(3) ze assms(8)] obtain name where
    name: "fat_join_name buf (pad 8 (map toupper base)) (pad 3 (map toupper ext)) = Some name"
      "c_string name = dotted (map toupper base) (map toupper ext)" by blast
  have "pad 8 (map toupper base) ! 0 = toupper (base ! 0)" using b(1) by (cases base) (simp_all add: pad_def)
  moreover have "toupper (base ! 0) \<noteq> 0" using b(1,4) by (cases base) auto
  ultimately have "\<exists>de st2. fat_op_readdir blk dir buf k s1 = Some (0, Some (de, 0, k), st2) \<and> d_name de = name \<and> d_size de = 0 \<and>
      d_attr de = S_IX OR S_IR OR (attr AND S_IW) OR S_IFREG"
    using at d2 name(1) assms(9) s1(3) by (simp add: fat_op_readdir_def new_dentry_def empty_dentry_def)
  then obtain de st2 where "fat_op_readdir blk dir buf k s1 = Some (0, Some (de, 0, k), st2)" "d_name de = name" "d_size de = 0"
      "d_attr de = S_IX OR S_IR OR (attr AND S_IW) OR S_IFREG" by blast
  then show ?thesis using d(1,4) name(2) unfolding s1_def by (intro exI[of _ "st\<lparr>bdev := d\<rparr>"] exI[of _ st2] exI[of _ de]) simp
qed

end

end
