(* ===== verification/FatDisk.thy ===== *)
theory FatDisk
  imports Fat
begin

text \<open>
  The FAT12 file system of \<open>kernel/fs/fat.c\<close> mounted on the floppy driver: the laws of the block device
  that the operations need are those of \<open>driver/floppy.c\<close> and \<open>kernel/dev/floppy.c\<close>. Directories that
  are full, and the properties of the whole stack.
\<close>

section \<open>A subdirectory without a free entry\<close>

text \<open>The bytes of entry \<open>i\<close> of the directory whose clusters are \<open>cs\<close>.\<close>

definition sub_bytes :: "(nat \<Rightarrow> nat) \<Rightarrow> nat list \<Rightarrow> nat \<Rightarrow> nat list" where
  "sub_bytes g cs i = map g [file_pos cs (32 * i) ..< file_pos cs (32 * i) + 32]"

context fat_disk
begin

lemma sub_read:
  assumes wf: "fat_wf st" and "ok (bdev st)" and ch: "chain_of st c cs" and i: "i < 16 * length cs" and "c \<noteq> 65535"
  shows "\<exists>d. fat_file_dir_read blk c i st = Some (0, dentry_of (sub_bytes (img (bdev st)) cs i), st\<lparr>bdev := d\<rparr>) \<and> ok d \<and>
    (\<forall>x < BLK_SIZE. img d x = img (bdev st) x)"
proof -
  have q: "i * DENTRY_SIZE div FAT12_SECTOR_SIZE = i div 16" "i * DENTRY_SIZE mod FAT12_SECTOR_SIZE = i mod 16 * 32"
    using div_mult2_eq[of "i * 32" 32 16] mod_mult2_eq[of "i * 32" 32 16] by (simp_all add: DENTRY_SIZE_def FAT12_SECTOR_SIZE_def)
  have l: "i div 16 < length cs" using i by (simp add: less_mult_imp_div_less mult.commute)
  define x where "x = cs ! (i div 16)"
  have x: "2 \<le> x" "x < CLUSTERS" using chain_elems[OF ch, of x] l by (simp_all add: x_def)
  have sk: "fat_file_dir_access blk c i st = (0, CLUSTER2SECTOR x, i mod 16 * 32, st)"
    using seek_ok[OF wf size_ok ch, of "i * DENTRY_SIZE"] l assms(5) q by (simp add: fat_file_dir_access_def Let_def x_def)
  have b: "i mod 16 * 32 + 32 \<le> FAT12_SECTOR_SIZE" "i mod 16 * 32 < FAT12_SECTOR_SIZE"
    using mod_less_divisor[of 16 i] by (simp_all add: FAT12_SECTOR_SIZE_def)
  have fp: "file_pos cs (32 * i) = (x + 31) * FAT12_SECTOR_SIZE + i mod 16 * 32"
    using q by (simp add: file_pos_def x_def DENTRY_SIZE_def mult.commute)
  from chunk_read[OF assms(2) x(2) b] obtain d where d: "blk_read blk (fat_sector_offset (CLUSTER2SECTOR x) + i mod 16 * 32) 32 (bdev st) =
      Some (32, sub_bytes (img (bdev st)) cs i, d)" "ok d" "\<forall>x < BLK_SIZE. img d x = img (bdev st) x"
    by (auto simp: sub_bytes_def fp)
  have "length (sub_bytes (img (bdev st)) cs i) = 32" by (simp add: sub_bytes_def)
  then show ?thesis using sk d by (intro exI[of _ d]) (simp add: fat_file_dir_read_def DENTRY_SIZE_def)
qed

lemma sub_cong: "chain_of st c cs \<Longrightarrow> i < 16 * length cs \<Longrightarrow> \<forall>x < BLK_SIZE. img d x = img e x \<Longrightarrow> sub_bytes (img d) cs i = sub_bytes (img e) cs i"
proof -
  assume a: "chain_of st c cs" "i < 16 * length cs" "\<forall>x < BLK_SIZE. img d x = img e x"
  have "file_pos cs (32 * i) + k < BLK_SIZE" if "k < 32" for k
  proof -
    have "file_pos cs (32 * i + k) < BLK_SIZE"
      by (rule file_pos_less[OF a(1)]) (use a(2) that in \<open>simp add: FAT12_SECTOR_SIZE_def\<close>)
    moreover have "(32 * i + k) div 512 = i div 16" "(32 * i + k) mod 512 = 32 * (i mod 16) + k" "32 * i div 512 = i div 16" "32 * i mod 512 = 32 * (i mod 16)"
      using that div_mult2_eq[of "32 * i + k" 32 16] mod_mult2_eq[of "32 * i + k" 32 16] div_mult2_eq[of "32 * i" 32 16]
        mod_mult2_eq[of "32 * i" 32 16] by simp_all
    ultimately show ?thesis by (simp add: file_pos_def FAT12_SECTOR_SIZE_def)
  qed
  then have "img d y = img e y" if "y \<in> set [file_pos cs (32 * i) ..< file_pos cs (32 * i) + 32]" for y
    using a(3) that le_Suc_ex[of "file_pos cs (32 * i)" y] by auto
  then show ?thesis unfolding sub_bytes_def by (rule map_cong[OF refl])
qed

lemma trim_count_chain:
  assumes "fat_wf st" and "chain_of st c cs" and "length cs \<le> todo"
  shows "trim_count blk todo pos cur c st = (Some (pos + length cs - 1, last cs, CLUSTER_END), st)"
  using assms(2,3)
proof (induction cs arbitrary: todo pos cur c)
  case Nil
  then show ?case by simp
next
  case (Cons x ys)
  have x: "x = c" "c < CLUSTERS" using chain_head[OF Cons.prems(1)] by simp_all
  obtain t where t: "todo = Suc t" using Cons.prems(2) by (cases todo) auto
  note g = get_ok[OF assms(1) x(2) size_ok, of c]
  show ?case
  proof (cases ys)
    case Nil
    then show ?thesis using Cons.prems(1) g t x(1) by (simp add: fat_consts)
  next
    case (Cons y zs)
    then have y: "norm (fat_entry st c) = y" "chain_of st y ys" using Cons.prems(1) x(1) by simp_all
    have "2 \<le> y" "y < CLUSTERS" using chain_head[OF y(2)] by simp_all
    then have ne: "y \<noteq> CLUSTER_FREE" "y \<noteq> CLUSTER_RESERVED" "y \<noteq> CLUSTER_END" by (auto simp: fat_consts CLUSTERS_def)
    have "length ys \<le> t" using Cons.prems(2) t by simp
    from Cons.IH[OF y(2) this, of "pos + 1" c] show ?thesis using g t y(1) ne Cons by simp
  qed
qed

text \<open>Extending a directory dereferences the entry that it does not have.\<close>

lemma extend_dir_faults:
  assumes wf: "fat_wf st" and ch: "chain_of st (cluster_of st dir) cs" and l: "length cs < 127"
    and x: "last cs < x" "x < CLUSTERS" "fat_entry st x = 0" "\<And>y. last cs < y \<Longrightarrow> y < x \<Longrightarrow> fat_entry st y \<noteq> 0"
  shows "fat_file_trim_chain blk junk dir None (length cs + 1) st = None"
proof -
  have c: "cluster_of st dir \<noteq> 0" "last cs < CLUSTERS" using chain_head[OF ch] chain_elems[OF ch last_in_set] by auto
  have t: "trim_count blk (length cs + 1) 1 (cluster_of st dir) (cluster_of st dir) st = (Some (length cs, last cs, CLUSTER_END), st)"
    using trim_count_chain[OF wf ch, of "length cs + 1" 1] by simp
  have "trim_extend blk junk dir (length cs + 1 - length cs) (last cs) None st = None"
    using alloc_ok[OF wf size_ok c(2) x, of junk] by simp
  then show ?thesis using c(1) t by (simp add: fat_file_trim_chain_def Let_def del: trim_count.simps)
qed

lemma create_find_full:
  assumes "fat_wf st" and "ok (bdev st)" and "chain_of st (cluster_of st dir) cs" and "cluster_of st dir \<noteq> 65535" and "length cs < 127"
    and "j \<le> 16 * length cs"
    and "\<And>i. j \<le> i \<Longrightarrow> i < 16 * length cs \<Longrightarrow> \<not> entry_free (dentry_of (sub_bytes (img (bdev st)) cs i))"
    and "last cs < x" "x < CLUSTERS" "fat_entry st x = 0" "\<And>y. last cs < y \<Longrightarrow> y < x \<Longrightarrow> fat_entry st y \<noteq> 0"
  shows "create_find blk junk (dir, j) st = None"
  using assms
proof (induction "16 * length cs - j" arbitrary: j st)
  case 0
  then have j: "j = 16 * length cs" by simp
  have "fat_fat_seek blk (cluster_of st dir) (j * DENTRY_SIZE) st = (1, CLUSTER_END, st)"
    by (rule seek_eof[OF 0(2) size_ok 0(4)]) (simp add: j DENTRY_SIZE_def FAT12_SECTOR_SIZE_def)
  then have r: "fat_file_dir_read blk (cluster_of st dir) j st = Some (- ENOENT, dentry_of (replicate DENTRY_SIZE 0), st)"
    using 0(5) by (simp add: fat_file_dir_read_def fat_file_dir_access_def Let_def ENOENT_def)
  have "u16 ((j + 1) * DENTRY_SIZE) = length cs * 512 + 32" using j 0(6) by (simp add: u16_def DENTRY_SIZE_def)
  moreover have "(length cs * 512 + 32 + 512 - 1) div 512 = length cs + 1" by simp
  ultimately have "fat_sector_round_up (u16 ((j + 1) * DENTRY_SIZE)) = length cs + 1"
    using 0(6) by (simp add: fat_sector_round_up_def FAT12_SECTOR_SIZE_def u16_def)
  then show ?case using r 0(5) extend_dir_faults[OF 0(2,4,6,9-12), of junk]
    by (subst create_find.simps) simp
next
  case (Suc n)
  then have j: "j < 16 * length cs" "n = 16 * length cs - (j + 1)" "j + 1 \<le> 16 * length cs" "u16 (j + 1) = j + 1" by auto
  from sub_read[OF Suc.prems(1-3) j(1) Suc.prems(4)] obtain d where
    d: "fat_file_dir_read blk (cluster_of st dir) j st = Some (0, dentry_of (sub_bytes (img (bdev st)) cs j), st\<lparr>bdev := d\<rparr>)" "ok d"
    "\<forall>x < BLK_SIZE. img d x = img (bdev st) x" by blast
  define st1 where "st1 = st\<lparr>bdev := d\<rparr>"
  have s1: "fat_wf st1" "ok (bdev st1)" "cluster_of st1 dir = cluster_of st dir" "chain_of st1 (cluster_of st1 dir) cs" "fat_entry st1 = fat_entry st"
    using Suc.prems(1,3) d(2) by (simp_all add: st1_def cluster_of_def fun_eq_iff)
  have "\<not> entry_free (dentry_of (sub_bytes (img (bdev st1)) cs i))" if "j + 1 \<le> i" "i < 16 * length cs" for i
    using Suc.prems(7)[of i] that sub_cong[OF Suc.prems(3) that(2) d(3)] by (simp add: st1_def)
  with s1 Suc.prems have "create_find blk junk (dir, j + 1) st1 = None"
    by (intro Suc.hyps(1)[OF j(2)] j(3)) simp_all
  moreover have "\<not> entry_free (dentry_of (sub_bytes (img (bdev st)) cs j))" using Suc.prems(7)[of j] j(1) by simp
  ultimately show ?case using d(1) j(4) by (subst create_find.simps) (simp add: ENOENT_def st1_def)
qed

lemma create_full_faults:
  assumes "fat_wf st" and "ok (bdev st)" and "chain_of st (cluster_of st dir) cs" and "length cs < 127"
    and "\<And>i. i < 16 * length cs \<Longrightarrow> \<not> entry_free (dentry_of (sub_bytes (img (bdev st)) cs i))"
    and "last cs < x" "x < CLUSTERS" "fat_entry st x = 0" "\<And>y. last cs < y \<Longrightarrow> y < x \<Longrightarrow> fat_entry st y \<noteq> 0"
    and "S_ISREG attr" and "name_83 base ext"
  shows "fat_op_create blk junk dir (dotted base ext) attr st = None"
proof -
  have "cluster_of st dir \<noteq> 65535" using chain_head[OF assms(3)] by (simp add: CLUSTERS_def)
  then have "create_find blk junk (dir, 0) st = None"
    using assms(5) by (intro create_find_full[OF assms(1-3) _ assms(4) le0 _ assms(6-9)]) simp_all
  then show ?thesis using assms(10) split_name_ok[OF assms(11)] by (simp add: fat_op_create_def)
qed

end

section \<open>The floppy disk\<close>

abbreviation floppy_fs :: "'h ioports \<Rightarrow> 'h drive blk dev_blk" where
  "floppy_fs io \<equiv> blk_floppy (floppy_read_sector (fdc_of io)) (floppy_write_sector (fdc_of io))"

abbreviation disk_img :: "('h \<Rightarrow> nat \<Rightarrow> nat \<Rightarrow> nat \<Rightarrow> nat list) \<Rightarrow> 'h drive blk \<Rightarrow> nat \<Rightarrow> nat" where
  "disk_img medium \<equiv> blk_img (drive_sect medium)"

text \<open>The only hypothesis on the disk is \<open>controller_ok\<close>, at the ports of the controller.\<close>

abbreviation disk_ok :: "'h ioports \<Rightarrow> ('h \<Rightarrow> nat \<Rightarrow> nat \<Rightarrow> nat \<Rightarrow> nat list) \<Rightarrow> ('h \<Rightarrow> bool) \<Rightarrow> ('h \<Rightarrow> nat) \<Rightarrow> 'h drive blk \<Rightarrow> bool" where
  "disk_ok io medium live glitch \<equiv> cached (drive_sect medium) (drive_good io medium live glitch)"

interpretation ff: fat_disk "floppy_fs io" "disk_img medium" "disk_ok io medium live glitch"
  for io :: "'h ioports" and medium live glitch
proof -
  have "blk_dev (blk_floppy_read (floppy_read_sector (fdc_of io))) (blk_floppy_write (floppy_read_sector (fdc_of io)) (floppy_write_sector (fdc_of io)))
      (disk_img medium) (disk_ok io medium live glitch)"
    by (rule fl.blk.blk_dev_axioms)
  then show "fat_disk (floppy_fs io) (disk_img medium) (disk_ok io medium live glitch)"
    by (simp add: fat_disk_def fat_disk_axioms_def blk_floppy_def)
qed

text \<open>A disk with the contents \<open>g\<close>, and a file system on it: file 1, a child of the root directory 0, has clusters 2 and 3.\<close>

definition disk_of :: "(nat \<Rightarrow> nat) \<Rightarrow> chip drive blk" where
  "disk_of g = chip_blk (\<lambda>c h r. map g [((c * 2 + h) * 18 + (r - 1)) * SECTOR_SIZE ..< ((c * 2 + h) * 18 + (r - 1)) * SECTOR_SIZE + SECTOR_SIZE])"

lemma disk_of_ok [simp]: "disk_ok chip_io platter chip_live bad (disk_of g)"
  unfolding disk_of_def by (rule chip_cached) (simp add: SECTOR_SIZE_def)

lemma disk_of_img [simp]: "x < BLK_SIZE \<Longrightarrow> disk_img platter (disk_of g) x = g x"
proof -
  assume "x < BLK_SIZE"
  then have "x div SECTOR_SIZE < SECTORS" by (auto simp: BLK_SIZE_def SECTORS_def SECTOR_SIZE_def)
  note lba_geometry(5)[OF this]
  then have "drive_sect platter (dev (disk_of g)) (x div SECTOR_SIZE) =
      map g [x div SECTOR_SIZE * SECTOR_SIZE ..< x div SECTOR_SIZE * SECTOR_SIZE + SECTOR_SIZE]"
    by (simp add: drive_sect_def disk_of_def chip_blk_def)
  moreover have "x div SECTOR_SIZE * SECTOR_SIZE + x mod SECTOR_SIZE = x" by simp
  ultimately show ?thesis by (simp add: blk_img_def SECTOR_SIZE_def)
qed

definition demo_ram :: "nat \<Rightarrow> nat \<Rightarrow> nat" where
  "demo_ram p i = (if p = 1 \<and> i = 3 then 3 else if p = 1 \<and> i = 4 then 240 else if p = 1 \<and> i = 5 then 255 else 0)"

definition demo_file :: "nat \<Rightarrow> nat option \<Rightarrow> nat \<Rightarrow> nat \<Rightarrow> fs_file" where
  "demo_file cl par attr sz = \<lparr>f_file = \<lparr>fat_cluster = cl, fat_idx = 0, devfs_entry = None\<rparr>, f_parent = par, f_mountpoint = None,
     f_nrefs = 1, f_children = None, f_attr = attr, f_size = sz, f_ctx = 0, f_name = []\<rparr>"

definition demo_fs :: "(nat \<Rightarrow> nat) \<Rightarrow> chip drive blk fat_st" where
  "demo_fs g = \<lparr>ram = demo_ram, scratch = 0, fctx = \<lparr>fat_page0 = 1, fat_page1 = 2, fat_dirty = 0\<rparr>, bdev = disk_of g,
     files = (\<lambda>f. if f = 0 then demo_file 65535 None S_IFDIR 0 else demo_file 2 (Some 0) S_IFREG 700)\<rparr>"

lemma demo_fs [simp]:
  "fat_wf (demo_fs g)" "bdev (demo_fs g) = disk_of g" "cluster_of (demo_fs g) 0 = 65535" "cluster_of (demo_fs g) (Suc 0) = 2"
  "fat_entry (demo_fs g) 2 = 3" "fat_entry (demo_fs g) 3 = 4095" "f_size (files (demo_fs g) (Suc 0)) = 700" "fat_dirty (fctx (demo_fs g)) = 0"
  by (simp_all add: fat_wf_def fat_byte_def demo_fs_def demo_ram_def cluster_of_def demo_file_def fat_entry_def unpack_def PAGE_SIZE_def)

lemma demo_free: "n \<ge> 4 \<Longrightarrow> fat_entry (demo_fs g) n = 0"
proof -
  assume "n \<ge> 4"
  then have "6 \<le> 3 * n div 2" by (simp add: div_greater_zero_iff less_eq_div_iff_mult_less_eq)
  then show ?thesis by (simp add: fat_entry_def unpack_def fat_byte_def demo_fs_def demo_ram_def)
qed

lemma demo_chain: "chain_of (demo_fs g) (cluster_of (demo_fs g) 1) [2, 3]"
  by (simp add: CLUSTERS_def norm_def fat_consts)

section \<open>Properties\<close>

text \<open>C2. \<open>fat_op_read\<close> returns exactly the bytes of the file from the offset on, taken from the clusters
  of its chain in order, up to the end of the file, of the buffer and of the 32767 bytes one call may
  return; the rest of the buffer and the disk are left alone.\<close>

theorem fat_op_read_slice:
  assumes "fat_wf st" and "disk_ok io medium live glitch (bdev st)" and "chain_of st (cluster_of st x) cs"
    and "offs < f_size (files st x)" and "f_size (files st x) \<le> FAT12_SECTOR_SIZE * length cs" and "buff \<noteq> []" and "length buff < 65536"
  shows "\<exists>d. fat_op_read (floppy_fs io) x buff offs st = (let n = min (min (length buff) (f_size (files st x) - offs)) 32767 in
      Some (int n, map (\<lambda>i. disk_img medium (bdev st) (file_pos cs i)) [offs ..< offs + n] @ drop n buff, st\<lparr>bdev := d\<rparr>)) \<and>
    disk_ok io medium live glitch d \<and> (\<forall>y < BLK_SIZE. disk_img medium d y = disk_img medium (bdev st) y)"
  by (rule ff.fat_read_ok[OF assms])

theorem fat_op_read_slice_witness:
  "\<exists>d. fat_op_read (floppy_fs chip_io) 1 [9, 9, 9, 9] 698 (demo_fs (\<lambda>x. x mod 256)) =
      Some (2, [186, 187, 9, 9], (demo_fs (\<lambda>x. x mod 256))\<lparr>bdev := d\<rparr>)"
  using fat_op_read_slice[of "demo_fs (\<lambda>x. x mod 256)" platter chip_io chip_live bad 1 "[2, 3]" 698 "[9, 9, 9, 9]"] demo_chain
  by (auto simp: FAT12_SECTOR_SIZE_def file_pos_def BLK_SIZE_def)

text \<open>What \<open>fat_op_write\<close> writes inside a file, over any number of its clusters, \<open>fat_op_read\<close> reads back.\<close>

theorem fat_op_write_read:
  assumes "fat_wf st" and "disk_ok io medium live glitch (bdev st)" and "chain_of st (cluster_of st x) cs"
    and "offs + length buff \<le> f_size (files st x)" and "f_size (files st x) \<le> FAT12_SECTOR_SIZE * length cs" and "buff \<noteq> []"
    and "length buff < 32768" and "length old = length buff"
  shows "\<exists>st1 st2. fat_op_write (floppy_fs io) junk x buff offs st = Some (int (length buff), st1) \<and>
    fat_op_read (floppy_fs io) x old offs st1 = Some (int (length buff), buff, st2)"
  by (rule ff.fat_write_read[OF assms])

theorem fat_op_write_read_witness:
  "\<exists>st1 st2. fat_op_write (floppy_fs chip_io) 0 1 (replicate 200 7) 450 (demo_fs (\<lambda>x. 0)) = Some (200, st1) \<and>
    fat_op_read (floppy_fs chip_io) 1 (replicate 200 0) 450 st1 = Some (200, replicate 200 7, st2)"
  using fat_op_write_read[of "demo_fs (\<lambda>x. 0)" platter chip_io chip_live bad 1 "[2, 3]" 450 "replicate 200 7" "replicate 200 0" 0] demo_chain
  by (simp add: FAT12_SECTOR_SIZE_def)

text \<open>C3. A write inside a file, that does not extend it, changes the file exactly in its range, and no other byte of
  the disk: other files, directories and the allocation table keep their contents.\<close>

theorem fat_op_write_frame:
  assumes "fat_wf st" and "disk_ok io medium live glitch (bdev st)" and "chain_of st (cluster_of st x) cs"
    and "offs + length buff \<le> f_size (files st x)" and "f_size (files st x) \<le> FAT12_SECTOR_SIZE * length cs" and "buff \<noteq> []" and "length buff < 32768"
  shows "\<exists>d. fat_op_write (floppy_fs io) junk x buff offs st = Some (int (length buff), st\<lparr>bdev := d\<rparr>) \<and> disk_ok io medium live glitch d \<and>
    (\<forall>i < FAT12_SECTOR_SIZE * length cs. disk_img medium d (file_pos cs i) =
       (if offs \<le> i \<and> i < offs + length buff then buff ! (i - offs) else disk_img medium (bdev st) (file_pos cs i))) \<and>
    (\<forall>y < BLK_SIZE. y \<notin> file_pos cs ` {offs ..< offs + length buff} \<longrightarrow> disk_img medium d y = disk_img medium (bdev st) y)"
  by (rule ff.fat_write_ok[OF assms])

theorem fat_op_write_frame_witness:
  "\<exists>d. fat_op_write (floppy_fs chip_io) 0 1 (replicate 200 7) 450 (demo_fs (\<lambda>x. 0)) = Some (200, (demo_fs (\<lambda>x. 0))\<lparr>bdev := d\<rparr>) \<and>
    disk_img platter d (file_pos [2, 3] 600) = 7"
  using fat_op_write_frame[of "demo_fs (\<lambda>x. 0)" platter chip_io chip_live bad 1 "[2, 3]" 450 "replicate 200 7" 0] demo_chain
  by (auto simp: FAT12_SECTOR_SIZE_def)

text \<open>C23. Truncating a file to nothing with \<open>fat_file_trim_chain\<close> frees exactly its clusters. If both copies of the table
  on the disk agreed with the one in memory in the sectors not marked as dirty, then afterwards they agree with it
  everywhere, but for the second byte of a freed entry that lies across two sectors, which is not written; no byte of
  the disk outside the two copies is touched. Cluster 2731, whose entry the code writes elsewhere, is not among those freed.\<close>

theorem fat_trim_frees_chain:
  assumes "fat_wf st" and "disk_ok io medium live glitch (bdev st)" and "chain_of st (cluster_of st x) cs" and "2731 \<notin> set cs"
    and "table_on_disk (disk_img medium) {} st"
  shows "\<exists>st'. fat_file_trim_chain (floppy_fs io) junk x (Some d) 0 st = Some (0, Some (d\<lparr>fd_cluster := 0\<rparr>), st') \<and> fat_wf st' \<and>
    disk_ok io medium live glitch (bdev st') \<and> cluster_of st' x = 0 \<and> fat_dirty (fctx st') = 0 \<and>
    (\<forall>m < CLUSTERS. fat_entry st' m = (if m \<in> set cs then 0 else fat_entry st m)) \<and>
    (\<forall>k < 4608. k \<notin> straddles cs \<longrightarrow> disk_img medium (bdev st') (512 + k) = fat_byte st' k \<and>
       disk_img medium (bdev st') (5120 + k) = fat_byte st' k) \<and>
    (\<forall>y < BLK_SIZE. y < 512 \<or> 9728 \<le> y \<longrightarrow> disk_img medium (bdev st') y = disk_img medium (bdev st) y)"
  using ff.trim_to_zero[OF assms] by simp

text \<open>The table of the example on its disk.\<close>

definition table_img :: "nat \<Rightarrow> nat" where
  "table_img x = (let k = (x - 512) mod 4608 in if 512 \<le> x \<and> x < 9728 then (if k = 3 then 3 else if k = 4 then 240 else if k = 5 then 255 else 0) else 0)"

lemma demo_table: "table_on_disk (disk_img platter) {} (demo_fs table_img)"
proof -
  have "fat_byte (demo_fs g) k = (if k = 3 then 3 else if k = 4 then 240 else if k = 5 then 255 else 0)" for g k
    by (simp add: fat_byte_def demo_fs_def demo_ram_def PAGE_SIZE_def)
  moreover have "table_img (512 + k) = (if k = 3 then 3 else if k = 4 then 240 else if k = 5 then 255 else 0)"
    "table_img (5120 + k) = (if k = 3 then 3 else if k = 4 then 240 else if k = 5 then 255 else 0)" if "k < 4608" for k
    using that by (simp_all add: table_img_def mod_if)
  ultimately show ?thesis by (simp add: table_on_disk_def BLK_SIZE_def)
qed

theorem fat_trim_frees_chain_witness:
  "\<exists>st'. fat_file_trim_chain (floppy_fs chip_io) 0 1 (Some empty_dentry) 0 (demo_fs table_img) =
    Some (0, Some (empty_dentry\<lparr>fd_cluster := 0\<rparr>), st') \<and> fat_entry st' 2 = 0 \<and> fat_entry st' 3 = 0 \<and>
    disk_img platter (bdev st') 516 = fat_byte st' 4 \<and> disk_img platter (bdev st') 5124 = fat_byte st' 4"
proof -
  have "4 \<notin> straddles [2, 3]" by (simp add: straddles_def)
  moreover from fat_trim_frees_chain[of "demo_fs table_img" platter chip_io chip_live bad 1 "[2, 3]" 0 empty_dentry] demo_chain demo_table
  obtain st' where "fat_file_trim_chain (floppy_fs chip_io) 0 1 (Some empty_dentry) 0 (demo_fs table_img) =
      Some (0, Some (empty_dentry\<lparr>fd_cluster := 0\<rparr>), st')"
    "\<forall>m < CLUSTERS. fat_entry st' m = (if m \<in> set [2, 3] then 0 else fat_entry (demo_fs table_img) m)"
    "\<forall>k < 4608. k \<notin> straddles [2, 3] \<longrightarrow> disk_img platter (bdev st') (512 + k) = fat_byte st' k \<and>
       disk_img platter (bdev st') (5120 + k) = fat_byte st' k" by (auto simp del: One_nat_def)
  ultimately show ?thesis by (intro exI[of _ st']) (auto simp: CLUSTERS_def dest: spec[of _ "4 :: nat"])
qed

text \<open>After an entry of the table that lies across two sectors is set, \<open>fat_fat_sync\<close> reports success and a clean
  table, but the second of its sectors was not written to either copy on the disk.\<close>

theorem fat_sync_straddle_lost:
  assumes "fat_wf st" and "disk_ok io medium live glitch (bdev st)" and "fat_dirty (fctx st) = 0" and "c < 4096"
  shows "\<exists>st1 st2. fat_fat_set (floppy_fs io) 341 c st = (0, st1) \<and> fat_fat_sync (floppy_fs io) st1 = Some (0, st2) \<and>
    fat_dirty (fctx st2) = 0 \<and> fat_byte st2 512 = c div 16 \<and> disk_img medium (bdev st2) 1024 = disk_img medium (bdev st) 1024 \<and>
    disk_img medium (bdev st2) (1024 + 4608) = disk_img medium (bdev st) (1024 + 4608)"
  by (rule ff.sync_straddle[OF assms])

theorem fat_sync_straddle_lost_witness:
  "\<exists>st1 st2. fat_fat_set (floppy_fs chip_io) 341 4095 (demo_fs (\<lambda>x. 0)) = (0, st1) \<and> fat_fat_sync (floppy_fs chip_io) st1 = Some (0, st2) \<and>
    fat_byte st2 512 = 255 \<and> disk_img platter (bdev st2) 1024 = 0"
  using fat_sync_straddle_lost[of "demo_fs (\<lambda>x. 0)" platter chip_io chip_live bad 4095]
  by (auto simp: BLK_SIZE_def)

text \<open>C24. A file created in the root directory under an 8.3 name goes into the first free one of its 224 entries, no other
  byte of the disk changes, and \<open>fat_op_readdir\<close> finds it there: its name in upper case, size 0, a regular file that
  can be read and executed, and written if that was asked for.\<close>

theorem fat_create_readdir:
  assumes "cluster_of st dir = 65535" and "disk_ok io medium live glitch (bdev st)" and "k < 224" and "S_ISREG attr" and "name_83 base ext"
    and "\<And>i. i < k \<Longrightarrow> \<not> entry_free (dentry_of (root_bytes (disk_img medium (bdev st)) i))"
    and "entry_free (dentry_of (root_bytes (disk_img medium (bdev st)) k))"
    and "length buf = FS_NAME_LENGTH_MAX" and "toupper (base ! 0) \<noteq> 229"
  shows "\<exists>st1 st2 de. fat_op_create (floppy_fs io) junk dir (dotted base ext) attr st = Some (0, k, st1) \<and>
    fat_op_readdir (floppy_fs io) dir buf k st1 = Some (0, Some (de, 0, k), st2) \<and>
    c_string (d_name de) = dotted (map toupper base) (map toupper ext) \<and> d_size de = 0 \<and> d_attr de = S_IX OR S_IR OR (attr AND S_IW) OR S_IFREG \<and>
    (\<forall>y < BLK_SIZE. \<not> (9728 + 32 * k \<le> y \<and> y < 9728 + 32 * k + 32) \<longrightarrow> disk_img medium (bdev st1) y = disk_img medium (bdev st) y)"
  using ff.create_readdir[OF assms(1,2) _ assms(4-9)] assms(3) by simp

lemma root_bytes_demo: "k < 45776 \<Longrightarrow> root_bytes (disk_img platter (disk_of g)) k = root_bytes g k"
  by (auto simp: root_bytes_def BLK_SIZE_def)

lemma entry_free_first: "entry_free (dentry_of (root_bytes g k)) \<longleftrightarrow> g (9728 + 32 * k) = 0 \<or> g (9728 + 32 * k) = 229"
  by (simp add: entry_free_def dentry_of_def root_bytes_def)

theorem fat_create_readdir_witness:
  "\<exists>st1 st2 de. fat_op_create (floppy_fs chip_io) 0 0 [97, 46, 99] S_IFREG (demo_fs (\<lambda>x. 0)) = Some (0, 0, st1) \<and>
    fat_op_readdir (floppy_fs chip_io) 0 (replicate FS_NAME_LENGTH_MAX 0) 0 st1 = Some (0, Some (de, 0, 0), st2) \<and>
    c_string (d_name de) = [65, 46, 67]"
  using fat_create_readdir[of "demo_fs (\<lambda>x. 0)" 0 platter chip_io chip_live bad 0 S_IFREG "[97]" "[99]" "replicate FS_NAME_LENGTH_MAX 0" 0]
  by (auto simp: root_bytes_demo entry_free_first name_83_def dotted_def toupper_def S_ISREG_def S_IFREG_def S_IFMT_def)

text \<open>The root directory has room for 224 entries, but \<open>fat_op_create\<close> goes on behind it: with all of them in use
  it reports success and puts the new entry into a cluster of the data area.\<close>

theorem fat_create_root_overflow:
  assumes "cluster_of st dir = 65535" and "disk_ok io medium live glitch (bdev st)" and "224 \<le> k" and "k < 45776" and "S_ISREG attr" and "name_83 base ext"
    and "\<And>i. i < k \<Longrightarrow> \<not> entry_free (dentry_of (root_bytes (disk_img medium (bdev st)) i))"
    and "entry_free (dentry_of (root_bytes (disk_img medium (bdev st)) k))"
  shows "\<exists>d. fat_op_create (floppy_fs io) junk dir (dotted base ext) attr st = Some (0, k, st\<lparr>bdev := d\<rparr>) \<and>
    map (\<lambda>i. disk_img medium d (file_pos [2 + (k - 224) div 16] ((k - 224) mod 16 * 32 + i))) [0 ..< 32] = dentry_bytes (new_dentry base ext attr)"
proof -
  have p: "file_pos [2 + (k - 224) div 16] ((k - 224) mod 16 * 32 + i) = 9728 + 32 * k + i" if "i < 32" for i
  proof -
    define a b where "a = (k - 224) div 16" and "b = (k - 224) mod 16"
    have k: "k = 224 + a * 16 + b" "b < 16" using assms(3) by (simp_all add: a_def b_def)
    then have "b * 32 + i < 512" "(b * 32 + i) div 512 = 0" using that by simp_all
    then show ?thesis using k(1) by (simp add: file_pos_def FAT12_SECTOR_SIZE_def flip: a_def b_def)
  qed
  from ff.create_root[OF assms(1,2,4-8)] obtain d where d: "fat_op_create (floppy_fs io) junk dir (dotted base ext) attr st = Some (0, k, st\<lparr>bdev := d\<rparr>)"
    "root_bytes (disk_img medium d) k = dentry_bytes (new_dentry base ext attr)" by blast
  have "map (\<lambda>i. disk_img medium d (file_pos [2 + (k - 224) div 16] ((k - 224) mod 16 * 32 + i))) [0 ..< 32] = root_bytes (disk_img medium d) k"
    by (rule nth_equalityI) (simp_all add: p[simplified] root_bytes_def)
  then show ?thesis using d by auto
qed

theorem fat_create_root_overflow_witness:
  "\<exists>d. fat_op_create (floppy_fs chip_io) 0 0 [97] S_IFREG (demo_fs (\<lambda>x. if x < 16896 then 65 else 0)) =
      Some (0, 224, (demo_fs (\<lambda>x. if x < 16896 then 65 else 0))\<lparr>bdev := d\<rparr>) \<and>
    map (\<lambda>i. disk_img platter d (file_pos [2] i)) [0 ..< 32] = dentry_bytes (new_dentry [97] [] S_IFREG)"
  using fat_create_root_overflow[of "demo_fs (\<lambda>x. if x < 16896 then 65 else 0)" 0 platter chip_io chip_live bad 224 S_IFREG "[97]" "[]" 0]
  by (auto simp: root_bytes_demo entry_free_first name_83_def dotted_def S_ISREG_def S_IFREG_def S_IFMT_def)

text \<open>Creating a file in a subdirectory whose clusters are full, while there is a free cluster behind the last one,
  does not return: the chain is extended without a directory entry and the code dereferences NULL.\<close>

theorem fat_create_full_dir_faults:
  assumes "fat_wf st" and "disk_ok io medium live glitch (bdev st)" and "chain_of st (cluster_of st dir) cs" and "length cs < 127"
    and "\<And>i. i < 16 * length cs \<Longrightarrow> \<not> entry_free (dentry_of (sub_bytes (disk_img medium (bdev st)) cs i))"
    and "last cs < x" "x < CLUSTERS" "fat_entry st x = 0" "\<And>y. last cs < y \<Longrightarrow> y < x \<Longrightarrow> fat_entry st y \<noteq> 0"
    and "S_ISREG attr" and "name_83 base ext"
  shows "fat_op_create (floppy_fs io) junk dir (dotted base ext) attr st = None"
  by (rule ff.create_full_faults[OF assms])

lemma sub_bytes_const: "dentry_of (sub_bytes (disk_img platter (disk_of (\<lambda>x. 65))) [2, 3] i) = dentry_of (replicate 32 65)" if "i < 32"
proof -
  have "sub_bytes (disk_img platter (disk_of (\<lambda>x. 65))) [2, 3] i = replicate 32 65"
    by (rule nth_equalityI) (use that in \<open>auto simp: sub_bytes_def file_pos_def FAT12_SECTOR_SIZE_def BLK_SIZE_def nth_Cons'\<close>)
  then show ?thesis by simp
qed

theorem fat_create_full_dir_faults_witness:
  "fat_op_create (floppy_fs chip_io) 0 1 [97] S_IFREG (demo_fs (\<lambda>x. 65)) = None"
proof -
  have "\<not> entry_free (dentry_of (replicate 32 65))" by (simp add: entry_free_def dentry_of_def)
  then show ?thesis
    using fat_create_full_dir_faults[of "demo_fs (\<lambda>x. 65)" platter chip_io chip_live bad 1 "[2, 3]" 4 S_IFREG "[97]" "[]" 0] sub_bytes_const demo_chain demo_free
    by (auto simp: CLUSTERS_def name_83_def dotted_def S_ISREG_def S_IFREG_def S_IFMT_def)
qed

end
