(* ===== verification/Fs.thy ===== *)
theory Fs
  imports CList HeapUse FatDir
begin

text \<open>
  \<open>kernel/fs/fs.c\<close>: the tree of open files over the file systems, with reference counts, the cache of
  the children of a directory, path lookup, and the dispatch through \<open>struct fs_file_op\<close>.

  A file is its address in the kernel heap \<open>kh\<close>; \<open>vfile\<close> holds the objects, \<open>vlinks\<close> the linkage
  \<open>chnext\<close>/\<open>chprev\<close>, \<open>vlocks\<close> the locks (\<open>None\<close> the one of \<open>common\<close>), \<open>vdev\<close> whatever the file systems
  and devices keep. The tables of operations are the parameter \<open>ops\<close>, indexed by the \<open>op\<close> pointer of
  the context. A path is the rest of the string behind the pointer. Taking a lock that is held blocks,
  which is \<open>None\<close>.
\<close>

unbundle bit_operations_syntax

definition O_CREAT :: nat where "O_CREAT = 1"
definition O_TRUNC :: nat where "O_TRUNC = 2"
definition O_RDONLY :: nat where "O_RDONLY = 4"
definition O_WRONLY :: nat where "O_WRONLY = 8"
definition O_RDWR :: nat where "O_RDWR = 16"
definition O_APPEND :: nat where "O_APPEND = 32"

record fs_ctx =
  c_op :: nat
  c_cb :: nat

record 'x vfs =
  kh :: kheap
  vroot :: "nat option"
  vfile :: "nat \<Rightarrow> fs_file"
  vlinks :: "nat links"
  vctx :: "nat \<Rightarrow> fs_ctx"
  vlocks :: "nat option \<Rightarrow> bool"
  vdev :: 'x

text \<open>
  \<open>struct fs_file_op\<close>. \<open>readdir\<close> takes what was in the caller's buffers: the name of the entry, and the
  internal data unless the pointer to it is NULL.
\<close>

record 'x fs_file_op =
  op_read :: "nat \<Rightarrow> nat list \<Rightarrow> nat \<Rightarrow> 'x vfs \<Rightarrow> (int \<times> nat list \<times> 'x vfs) option"
  op_write :: "nat \<Rightarrow> nat list \<Rightarrow> nat \<Rightarrow> 'x vfs \<Rightarrow> (int \<times> 'x vfs) option"
  op_create :: "nat \<Rightarrow> nat list \<Rightarrow> nat \<Rightarrow> 'x vfs \<Rightarrow> (int \<times> nat \<times> 'x vfs) option"
  op_truncate :: "nat \<Rightarrow> nat \<Rightarrow> 'x vfs \<Rightarrow> (int \<times> 'x vfs) option"
  op_readdir :: "nat \<Rightarrow> nat list \<Rightarrow> fs_internal option \<Rightarrow> nat \<Rightarrow> 'x vfs \<Rightarrow> (int \<times> (fs_dentry \<times> fs_internal option) option \<times> 'x vfs) option"
  op_remove :: "nat \<Rightarrow> 'x vfs \<Rightarrow> (int \<times> 'x vfs) option"
  op_ioctl :: "(nat \<Rightarrow> int \<Rightarrow> nat list \<Rightarrow> 'x vfs \<Rightarrow> (int \<times> 'x vfs) option) option"
  op_mount :: "nat \<Rightarrow> nat option \<Rightarrow> nat \<Rightarrow> 'x vfs \<Rightarrow> (int \<times> 'x vfs) option"

type_synonym 'x optab = "nat \<Rightarrow> 'x fs_file_op"

definition upd_vfile :: "nat \<Rightarrow> (fs_file \<Rightarrow> fs_file) \<Rightarrow> 'x vfs \<Rightarrow> 'x vfs" where
  "upd_vfile f g v = v\<lparr>vfile := (vfile v)(f := g (vfile v f))\<rparr>"

definition vlock :: "nat option \<Rightarrow> 'x vfs \<Rightarrow> 'x vfs option" where
  "vlock l v = (if vlocks v l then None else Some (v\<lparr>vlocks := (vlocks v)(l := True)\<rparr>))"

definition vunlock :: "nat option \<Rightarrow> 'x vfs \<Rightarrow> 'x vfs" where
  "vunlock l v = v\<lparr>vlocks := (vlocks v)(l := False)\<rparr>"

text \<open>\<open>file->ctx->op\<close>\<close>

definition op_of :: "'x optab \<Rightarrow> 'x vfs \<Rightarrow> nat \<Rightarrow> 'x fs_file_op" where
  "op_of ops v f = ops (c_op (vctx v (f_ctx (vfile v f))))"

section \<open>References\<close>

definition fs_file_get :: "nat \<Rightarrow> 'x vfs \<Rightarrow> 'x vfs" where
  "fs_file_get f = upd_vfile f (\<lambda>x. x\<lparr>f_nrefs := s8 (f_nrefs x + 1)\<rparr>)"

partial_function (option) fs_file_put :: "nat \<Rightarrow> 'x vfs \<Rightarrow> 'x vfs option" where
  "fs_file_put f v0 = (let v = upd_vfile f (\<lambda>x. x\<lparr>f_nrefs := s8 (f_nrefs x - 1)\<rparr>) v0 in
     do {
       check (0 \<le> f_nrefs (vfile v f));
       (if f_nrefs (vfile v f) = 0 then do {
          check (f_mountpoint (vfile v f) = None);
          check (f_children (vfile v f) = None);
          v1 \<leftarrow> (case f_parent (vfile v f) of
             None \<Rightarrow> Some v
           | Some p \<Rightarrow> do {
               (c, l) \<leftarrow> list_remove (f_children (vfile v p)) f (vlinks v);
               fs_file_put p ((upd_vfile p (\<lambda>x. x\<lparr>f_children := c\<rparr>) v)\<lparr>vlinks := l\<rparr>) });
          h \<leftarrow> kfree (Some f) (kh v1);
          Some (v1\<lparr>kh := h\<rparr>) }
        else Some v) })"

declare fs_file_put.simps [code]

text \<open>\<open>sizeof(struct fs_file)\<close> without the name\<close>

definition FS_FILE_SIZE :: nat where "FS_FILE_SIZE = 25"

definition fs_file_spawn :: "nat list \<Rightarrow> nat \<Rightarrow> 'x vfs \<Rightarrow> (nat option \<times> 'x vfs) option" where
  "fs_file_spawn name attr v = do {
     (r, h) \<leftarrow> kmalloc (u16 (FS_FILE_SIZE + length name + 1)) (kh v);
     (case r of
        None \<Rightarrow> Some (None, v\<lparr>kh := h\<rparr>)
      | Some f \<Rightarrow> Some (Some f, v\<lparr>kh := h,
          vfile := (vfile v)(f := \<lparr>f_file = \<lparr>fat_cluster = 0, fat_idx = 0, devfs_entry = None\<rparr>, f_parent = None,
            f_mountpoint = None, f_nrefs = 0, f_children = None, f_attr = attr, f_size = 0, f_ctx = 0, f_name = name\<rparr>),
          vlinks := \<lparr>next_of = (next_of (vlinks v))(f := None), prev_of = (prev_of (vlinks v))(f := None)\<rparr>,
          vlocks := (vlocks v)(Some f := False)\<rparr>)) }"

section \<open>Paths\<close>

fun fs_namecmp :: "nat list \<Rightarrow> nat list \<Rightarrow> int" where
  "fs_namecmp path [] = (if path = [] \<or> hd path = 47 then 0 else -1)"
| "fs_namecmp path (c # cs) = (if path = [] \<or> hd path \<noteq> c then -1 else fs_namecmp (tl path) cs)"

primrec fs_is_tail :: "nat list \<Rightarrow> bool" where
  "fs_is_tail [] = True"
| "fs_is_tail (c # cs) = (if c = 47 then False else fs_is_tail cs)"

definition fs_path_next :: "nat list \<Rightarrow> nat list" where
  "fs_path_next path = dropWhile (\<lambda>c. c = 47) (dropWhile (\<lambda>c. c \<noteq> 47) path)"

text \<open>The loop of \<open>_fs_open_from_dir\<close>; \<open>junk\<close> is what the local variables hold before.\<close>

partial_function (option) fs_open_from_dir ::
  "'x optab \<Rightarrow> nat list \<times> fs_internal \<Rightarrow> nat list \<Rightarrow> nat \<Rightarrow> nat \<times> 'x vfs \<Rightarrow> (int \<times> nat option \<times> 'x vfs) option" where
  "fs_open_from_dir ops junk path dir sv = (let sidx = fst sv; v = snd sv in do {
     (err, res, v1) \<leftarrow> op_readdir (op_of ops v dir) dir (fst junk) (Some (snd junk)) sidx v;
     (if err = - EAGAIN then fs_open_from_dir ops junk path dir (u16 (sidx + 1), v1)
      else if err \<noteq> 0 then Some (err, None, v1)
      else do {
        (de, internal) \<leftarrow> res;
        (if fs_namecmp path (c_string (d_name de)) = 0 then do {
           (r, v2) \<leftarrow> fs_file_spawn (c_string (d_name de)) (d_attr de) v1;
           (case r of
              None \<Rightarrow> Some (- ENOMEM, None, v2)
            | Some f \<Rightarrow> do {
                int' \<leftarrow> internal;
                let v3 = upd_vfile f (\<lambda>x. x\<lparr>f_parent := Some dir, f_ctx := f_ctx (vfile v2 dir), f_size := d_size de, f_file := int'\<rparr>) v2;
                (c, l) \<leftarrow> list_add (f_children (vfile v3 dir)) f (vlinks v3);
                Some (0, Some f, fs_file_get dir ((upd_vfile dir (\<lambda>x. x\<lparr>f_children := c\<rparr>) v3)\<lparr>vlinks := l\<rparr>)) }) }
         else fs_open_from_dir ops junk path dir (u16 (sidx + 1), v1)) }) })"

declare fs_open_from_dir.simps [code]

text \<open>The search through the ring of the children.\<close>

partial_function (option) find_child :: "nat list \<Rightarrow> nat option \<Rightarrow> nat \<Rightarrow> 'x vfs \<Rightarrow> nat option option" where
  "find_child path head f v =
     (if fs_namecmp path (f_name (vfile v f)) = 0 then Some (Some f)
      else do { n \<leftarrow> next_of (vlinks v) f; (if Some n = head then Some None else find_child path head n v) })"

declare find_child.simps [code]

definition through_mount :: "'x vfs \<Rightarrow> nat \<Rightarrow> nat" where
  "through_mount v d = (case f_mountpoint (vfile v d) of None \<Rightarrow> d | Some m \<Rightarrow> m)"

text \<open>
  The loop of \<open>_fs_lookup\<close>: error, rest of the path, \<open>*file\<close> and \<open>*dir\<close>. Its condition compares the
  pointer with NULL, so it goes on at the end of the path.
\<close>

partial_function (option) fs_lookup_loop :: "nat list \<Rightarrow> nat option \<Rightarrow> nat \<Rightarrow> 'x vfs \<Rightarrow> (int \<times> nat list \<times> nat option \<times> nat) option" where
  "fs_lookup_loop path file' dir v =
     (if \<not> S_ISDIR (f_attr (vfile v dir)) then Some (- ENOTDIR, path, file', dir)
      else (let d = through_mount v dir in do {
        found \<leftarrow> (case f_children (vfile v d) of None \<Rightarrow> Some None | Some h \<Rightarrow> find_child path (Some h) h v);
        (case found of
           None \<Rightarrow> Some (- ENOENT, path, None, d)
         | Some f \<Rightarrow> fs_lookup_loop (fs_path_next path) (Some f) f v) }))"

declare fs_lookup_loop.simps [code]

definition fs_lookup :: "nat list \<Rightarrow> 'x vfs \<Rightarrow> (int \<times> nat list \<times> nat option \<times> nat option) option" where
  "fs_lookup path v =
     (if path = [] \<or> hd path \<noteq> 47 then Some (- EINVAL, path, None, None)
      else (let p = dropWhile (\<lambda>c. c = 47) path in
        if p = [] then Some (0, p, vroot v, vroot v)
        else do { r \<leftarrow> vroot v; (e, q, f, d) \<leftarrow> fs_lookup_loop p None r v; Some (e, q, f, Some d) }))"

section \<open>Open and close\<close>

lemma fs_path_next_less: "path \<noteq> [] \<Longrightarrow> length (fs_path_next path) < length path"
proof (cases path)
  case (Cons c cs)
  show ?thesis
  proof (cases "c = 47")
    case True
    then show ?thesis using Cons length_dropWhile_le[of "\<lambda>c. c = 47" cs] by (simp add: fs_path_next_def)
  next
    case False
    then show ?thesis using Cons length_dropWhile_le[of "\<lambda>c. c \<noteq> 47" cs]
        length_dropWhile_le[of "\<lambda>c. c = 47" "dropWhile (\<lambda>c. c \<noteq> 47) cs"] by (simp add: fs_path_next_def)
  qed
qed simp

text \<open>The loop over the components that are not in the cache: error and \<open>*file\<close>.\<close>

function fs_open_walk ::
  "'x optab \<Rightarrow> nat list \<times> fs_internal \<Rightarrow> nat list \<Rightarrow> nat \<Rightarrow> nat \<Rightarrow> nat option \<Rightarrow> nat \<Rightarrow> 'x vfs \<Rightarrow> (int \<times> nat option \<times> 'x vfs) option" where
  "fs_open_walk ops junk path mode attr file' dir v =
     (if path = [] then Some (0, file', v)
      else if \<not> S_ISDIR (f_attr (vfile v dir)) then Some (- ENOTDIR, file', v)
      else do {
        let d = through_mount v dir;
        v1 \<leftarrow> vlock (Some d) v;
        (e, fnew, v2) \<leftarrow> fs_open_from_dir ops junk path d (0, v1);
        (e2, fnew2, v3) \<leftarrow>
          (if e = - ENOENT \<and> mode AND O_CREAT \<noteq> 0 \<and> fs_is_tail path then do {
             (ec, idx, vc) \<leftarrow> op_create (op_of ops v2 d) d path attr v2;
             (if ec = 0 then fs_open_from_dir ops junk path d (idx, vc) else Some (ec, None, vc)) }
           else Some (e, fnew, v2));
        let v4 = vunlock (Some d) v3;
        let file2 = (if fnew2 = None then file' else fnew2);
        (if e2 \<noteq> 0 then Some (e2, file2, v4)
         else do { nd \<leftarrow> file2; fs_open_walk ops junk (fs_path_next path) mode attr file2 nd v4 }) })"
  by pat_completeness auto
termination
  by (relation "measure (\<lambda>(ops, junk, path, mode, attr, file', dir, v). length path)") (auto simp: fs_path_next_less)

declare fs_open_walk.simps [simp del]

text \<open>\<open>_fs_open\<close>; \<open>file'\<close> is the value of \<open>*file\<close> before.\<close>

definition fs_open_locked ::
  "'x optab \<Rightarrow> nat list \<times> fs_internal \<Rightarrow> nat list \<Rightarrow> nat option \<Rightarrow> nat \<Rightarrow> nat \<Rightarrow> 'x vfs \<Rightarrow> (int \<times> nat option \<times> 'x vfs) option" where
  "fs_open_locked ops junk path file' mode attr v = do {
     (err, p, file1, dir) \<leftarrow> fs_lookup path v;
     (if err = - EINVAL \<or> err \<noteq> 0 \<and> dir = None then Some (err, file', v)
      else do {
        (e, file2, v1) \<leftarrow> (if err \<noteq> 0 then do { d \<leftarrow> dir; fs_open_walk ops junk p mode attr file1 d v } else Some (0, file1, v));
        (case file2 of
           None \<Rightarrow> Some (- ENOENT, None, v1)
         | Some f \<Rightarrow>
             if e = 0 then Some (0, Some f, fs_file_get f v1)
             else do { v2 \<leftarrow> fs_file_put f (fs_file_get f v1); Some (e, Some f, v2) }) }) }"

definition fs_open :: "'x optab \<Rightarrow> nat list \<times> fs_internal \<Rightarrow> nat list \<Rightarrow> nat option \<Rightarrow> nat \<Rightarrow> nat \<Rightarrow> 'x vfs \<Rightarrow> (int \<times> nat option \<times> 'x vfs) option" where
  "fs_open ops junk path file' mode attr v = do {
     v1 \<leftarrow> vlock None v;
     (e, f, v2) \<leftarrow> fs_open_locked ops junk path file' mode attr v1;
     Some (e, f, vunlock None v2) }"

definition fs_reopen :: "nat \<Rightarrow> 'x vfs \<Rightarrow> 'x vfs option" where
  "fs_reopen f v = do { v1 \<leftarrow> vlock None v; Some (vunlock None (fs_file_get f v1)) }"

definition fs_close :: "nat \<Rightarrow> 'x vfs \<Rightarrow> (int \<times> 'x vfs) option" where
  "fs_close f v = do { v1 \<leftarrow> vlock None v; v2 \<leftarrow> fs_file_put f v1; Some (0, vunlock None v2) }"

section \<open>Operations on open files\<close>

definition fs_read :: "'x optab \<Rightarrow> nat \<Rightarrow> nat list \<Rightarrow> nat \<Rightarrow> 'x vfs \<Rightarrow> (int \<times> nat list \<times> 'x vfs) option" where
  "fs_read ops f buff offs v = do {
     v1 \<leftarrow> vlock (Some f) v;
     (r, b, v2) \<leftarrow> op_read (op_of ops v1 f) f buff offs v1;
     Some (r, b, vunlock (Some f) v2) }"

definition fs_write :: "'x optab \<Rightarrow> nat \<Rightarrow> nat list \<Rightarrow> nat \<Rightarrow> 'x vfs \<Rightarrow> (int \<times> 'x vfs) option" where
  "fs_write ops f buff offs v = do {
     v1 \<leftarrow> vlock (Some f) v;
     (r, v2) \<leftarrow> op_write (op_of ops v1 f) f buff offs v1;
     Some (r, vunlock (Some f) v2) }"

definition fs_truncate :: "'x optab \<Rightarrow> nat \<Rightarrow> nat \<Rightarrow> 'x vfs \<Rightarrow> (int \<times> 'x vfs) option" where
  "fs_truncate ops f sz v = do {
     v1 \<leftarrow> vlock (Some f) v;
     (r, v2) \<leftarrow> op_truncate (op_of ops v1 f) f sz v1;
     Some (r, vunlock (Some f) v2) }"

definition fs_readdir :: "'x optab \<Rightarrow> nat \<Rightarrow> nat list \<Rightarrow> nat \<Rightarrow> 'x vfs \<Rightarrow> (int \<times> fs_dentry option \<times> 'x vfs) option" where
  "fs_readdir ops dir buf idx v =
     (if \<not> S_ISDIR (f_attr (vfile v dir)) then Some (- ENOTDIR, None, v)
      else do {
        v1 \<leftarrow> vlock (Some dir) v;
        (r, res, v2) \<leftarrow> op_readdir (op_of ops v1 dir) dir buf None idx v1;
        Some (r, map_option fst res, vunlock (Some dir) v2) })"

definition fs_remove :: "'x optab \<Rightarrow> nat list \<times> fs_internal \<Rightarrow> nat list \<Rightarrow> 'x vfs \<Rightarrow> (int \<times> 'x vfs) option" where
  "fs_remove ops junk path v = do {
     v1 \<leftarrow> vlock None v;
     (e, f', v2) \<leftarrow> fs_open_locked ops junk path None O_RDWR 0 v1;
     (if e < 0 then Some (e, vunlock None v2)
      else do {
        f \<leftarrow> f';
        (if f_nrefs (vfile v2 f) \<noteq> 1 then do { v3 \<leftarrow> fs_file_put f v2; Some (- EBUSY, vunlock None v3) }
         else do {
           (e2, v3) \<leftarrow> op_remove (op_of ops v2 f) f v2;
           v4 \<leftarrow> fs_file_put f v3;
           Some (e2, vunlock None v4) }) }) }"

definition fs_ioctl :: "'x optab \<Rightarrow> nat \<Rightarrow> int \<Rightarrow> nat list \<Rightarrow> 'x vfs \<Rightarrow> (int \<times> 'x vfs) option" where
  "fs_ioctl ops f op args v = (case op_ioctl (op_of ops v f) of
     None \<Rightarrow> Some (- ENOSYS, v)
   | Some io \<Rightarrow> do { v1 \<leftarrow> vlock (Some f) v; (r, v2) \<leftarrow> io f op args v1; Some (r, vunlock (Some f) v2) })"

text \<open>\<open>ctx\<close>, \<open>op\<close> and \<open>cb\<close> are pointers; the context gets the two.\<close>

definition fs_mount :: "'x optab \<Rightarrow> nat \<Rightarrow> nat \<Rightarrow> nat \<Rightarrow> nat option \<Rightarrow> 'x vfs \<Rightarrow> (int \<times> 'x vfs) option" where
  "fs_mount ops ctx op cb dir v0 = do {
     v \<leftarrow> vlock None v0;
     (if dir = None \<and> vroot v \<noteq> None then Some (- EINVAL, vunlock None v)
      else do {
        (r, v1) \<leftarrow> fs_file_spawn [] (S_IFDIR OR S_IR OR S_IW) v;
        (case r of
           None \<Rightarrow> Some (- ENOMEM, vunlock None v1)
         | Some rootdir \<Rightarrow>
             let v2 = v1\<lparr>vctx := (vctx v1)(ctx := \<lparr>c_op = op, c_cb = cb\<rparr>)\<rparr> in
             if (case dir of None \<Rightarrow> False | Some d \<Rightarrow> f_mountpoint (vfile v2 d) \<noteq> None) then do {
               h \<leftarrow> kfree (Some rootdir) (kh v2); Some (- EINVAL, (vunlock None v2)\<lparr>kh := h\<rparr>) }
             else do {
               (e, v3) \<leftarrow> op_mount (ops op) ctx dir rootdir v2;
               (if e < 0 then do { h \<leftarrow> kfree (Some rootdir) (kh v3); Some (e, (vunlock None v3)\<lparr>kh := h\<rparr>) }
                else (let v4 = upd_vfile rootdir (\<lambda>x. x\<lparr>f_ctx := ctx\<rparr>) v3;
                          v5 = (case dir of
                            Some d \<Rightarrow> fs_file_get d (upd_vfile d (\<lambda>x. x\<lparr>f_mountpoint := Some rootdir\<rparr>) v4)
                          | None \<Rightarrow> v4\<lparr>vroot := Some rootdir\<rparr>)
                      in Some (0, vunlock None (fs_file_get rootdir v5)))) }) }) }"

text \<open>\<open>fs_unmount\<close> returns nothing in particular when there is something mounted: \<open>None\<close> is an indeterminate value.\<close>

definition fs_unmount :: "nat \<Rightarrow> 'x vfs \<Rightarrow> int option" where
  "fs_unmount f v = (if f_mountpoint (vfile v f) = None then Some (- EINVAL) else None)"

definition fs_init :: "'x vfs \<Rightarrow> 'x vfs" where
  "fs_init v = vunlock None v"

end
