(* ===== verification/FsTree.thy ===== *)
theory FsTree
  imports Fs
begin

text \<open>
  The tree of open files of \<open>kernel/fs/fs.c\<close>. \<open>vfs_wf v L K ext A\<close>: \<open>L\<close> are the live files, \<open>K f\<close> the
  children of \<open>f\<close> in the order of their ring, \<open>ext f\<close> the references from outside (open files); every
  reference count is the number of references there are, everything live is allocated in the kernel
  heap, next to the blocks \<open>A\<close> of others.
\<close>

section \<open>Names\<close>

lemma namecmp_iff: "47 \<notin> set name \<Longrightarrow> fs_namecmp path name = 0 \<longleftrightarrow> takeWhile (\<lambda>c. c \<noteq> 47) path = name"
proof (induction path name rule: fs_namecmp.induct)
  case (1 path)
  then show ?case by (cases path) auto
next
  case (2 path c cs)
  then show ?case by (cases path) auto
qed

lemma find_child_chain:
  assumes "chained (vlinks v) (ys @ [h])" and "ys \<noteq> []" and "h \<notin> set (tl ys)"
  shows "find_child path (Some h) (hd ys) v = Some (List.find (\<lambda>f. fs_namecmp path (f_name (vfile v f)) = 0) ys)"
  using assms
proof (induction ys)
  case Nil
  then show ?case by simp
next
  case (Cons y ys)
  show ?case
  proof (cases ys)
    case Nil
    then show ?thesis using Cons.prems by (subst find_child.simps) simp
  next
    case (Cons z zs)
    have "find_child path (Some h) (hd ys) v = Some (List.find (\<lambda>f. fs_namecmp path (f_name (vfile v f)) = 0) ys)"
      using Cons.IH Cons.prems Cons by simp
    moreover have "next_of (vlinks v) y = Some z" "z \<noteq> h" using Cons.prems Cons by auto
    ultimately show ?thesis using Cons by (subst find_child.simps) simp
  qed
qed

lemma find_child_ring:
  assumes "cyc (vlinks v) (Some h) xs"
  shows "find_child path (Some h) h v = Some (List.find (\<lambda>f. fs_namecmp path (f_name (vfile v f)) = 0) xs)"
proof -
  obtain t where xs: "xs = h # t" using cyc_Some[OF assms] by blast
  then have "chained (vlinks v) (xs @ [h])" "h \<notin> set (tl xs)" using assms by (auto simp: cyc_def)
  from find_child_chain[OF this(1) _ this(2)] show ?thesis using xs by simp
qed

section \<open>The invariant\<close>

definition held :: "'x vfs \<Rightarrow> nat set \<Rightarrow> nat \<Rightarrow> bool" where
  "held v L f \<longleftrightarrow> vroot v = Some f \<or> (\<exists>d \<in> L. f_mountpoint (vfile v d) = Some f)"

definition refs :: "'x vfs \<Rightarrow> nat set \<Rightarrow> (nat \<Rightarrow> nat list) \<Rightarrow> (nat \<Rightarrow> nat) \<Rightarrow> nat \<Rightarrow> nat" where
  "refs v L K ext f = length (K f) + ext f + of_bool (f_mountpoint (vfile v f) \<noteq> None) + of_bool (held v L f)"

definition file_ok :: "'x vfs \<Rightarrow> nat set \<Rightarrow> (nat \<Rightarrow> nat list) \<Rightarrow> (nat \<Rightarrow> nat) \<Rightarrow> (nat \<Rightarrow> nat) \<Rightarrow> nat \<Rightarrow> bool" where
  "file_ok v L K ext dp f \<longleftrightarrow> cyc (vlinks v) (f_children (vfile v f)) (K f) \<and>
     (\<forall>c \<in> set (K f). c \<in> L \<and> f_parent (vfile v c) = Some f) \<and>
     (\<forall>p. f_parent (vfile v f) = Some p \<longrightarrow> p \<in> L \<and> f \<in> set (K p) \<and> dp p < dp f) \<and>
     f_nrefs (vfile v f) = int (refs v L K ext f) \<and> refs v L K ext f \<le> 127 \<and>
     (\<forall>m. f_mountpoint (vfile v f) = Some m \<longrightarrow> m \<in> L)"

definition tree_ok :: "'x vfs \<Rightarrow> nat set \<Rightarrow> (nat \<Rightarrow> nat list) \<Rightarrow> (nat \<Rightarrow> nat) \<Rightarrow> (nat \<Rightarrow> nat) \<Rightarrow> bool" where
  "tree_ok v L K ext dp \<longleftrightarrow> (\<forall>f \<in> L. file_ok v L K ext dp f) \<and> (\<forall>r. vroot v = Some r \<longrightarrow> r \<in> L)"

definition vfs_wf :: "'x vfs \<Rightarrow> nat set \<Rightarrow> (nat \<Rightarrow> nat list) \<Rightarrow> (nat \<Rightarrow> nat) \<Rightarrow> nat set \<Rightarrow> bool" where
  "vfs_wf v L K ext A \<longleftrightarrow> owned (kh v) (L \<union> A) \<and> L \<inter> A = {} \<and> (\<forall>f. f \<notin> L \<longrightarrow> ext f = 0) \<and> (\<exists>dp. tree_ok v L K ext dp)"

text \<open>What releasing a reference leaves alone.\<close>

definition same_files :: "nat set \<Rightarrow> 'x vfs \<Rightarrow> 'x vfs \<Rightarrow> bool" where
  "same_files L v v' \<longleftrightarrow> vroot v' = vroot v \<and> vctx v' = vctx v \<and> vlocks v' = vlocks v \<and> vdev v' = vdev v \<and>
     (\<forall>f \<in> L. f_file (vfile v' f) = f_file (vfile v f) \<and> f_parent (vfile v' f) = f_parent (vfile v f) \<and>
       f_mountpoint (vfile v' f) = f_mountpoint (vfile v f) \<and> f_attr (vfile v' f) = f_attr (vfile v f) \<and>
       f_size (vfile v' f) = f_size (vfile v f) \<and> f_ctx (vfile v' f) = f_ctx (vfile v f) \<and> f_name (vfile v' f) = f_name (vfile v f))"

lemma same_files_refl [simp]: "same_files L v v"
  by (simp add: same_files_def)

lemma same_files_trans: "same_files L u v \<Longrightarrow> same_files M v w \<Longrightarrow> M \<subseteq> L \<Longrightarrow> same_files M u w"
  by (auto simp: same_files_def subset_iff)

lemma vfile_upd [simp]: "vfile (upd_vfile f g v) x = (if x = f then g (vfile v f) else vfile v x)"
  by (simp add: upd_vfile_def)

lemma upd_vfile_simps [simp]:
  "kh (upd_vfile f g v) = kh v" "vroot (upd_vfile f g v) = vroot v" "vlinks (upd_vfile f g v) = vlinks v"
  "vctx (upd_vfile f g v) = vctx v" "vlocks (upd_vfile f g v) = vlocks v" "vdev (upd_vfile f g v) = vdev v"
  by (simp_all add: upd_vfile_def)

lemma tree_okD:
  assumes "tree_ok v L K ext dp" and "f \<in> L"
  shows "cyc (vlinks v) (f_children (vfile v f)) (K f)" and "\<And>c. c \<in> set (K f) \<Longrightarrow> c \<in> L \<and> f_parent (vfile v c) = Some f"
    and "\<And>p. f_parent (vfile v f) = Some p \<Longrightarrow> p \<in> L \<and> f \<in> set (K p) \<and> dp p < dp f"
    and "f_nrefs (vfile v f) = int (refs v L K ext f)" and "refs v L K ext f \<le> 127"
    and "\<And>m. f_mountpoint (vfile v f) = Some m \<Longrightarrow> m \<in> L"
proof -
  have *: "file_ok v L K ext dp f" using assms by (simp add: tree_ok_def)
  show "cyc (vlinks v) (f_children (vfile v f)) (K f)" "f_nrefs (vfile v f) = int (refs v L K ext f)" "refs v L K ext f \<le> 127"
    using * by (simp_all add: file_ok_def)
  show "c \<in> L \<and> f_parent (vfile v c) = Some f" if "c \<in> set (K f)" for c using * that by (simp add: file_ok_def)
  show "p \<in> L \<and> f \<in> set (K p) \<and> dp p < dp f" if "f_parent (vfile v f) = Some p" for p using * that by (simp add: file_ok_def)
  show "m \<in> L" if "f_mountpoint (vfile v f) = Some m" for m using * that by (simp add: file_ok_def)
qed

lemma tree_okI:
  assumes "\<And>r. vroot v = Some r \<Longrightarrow> r \<in> L"
    and "\<And>f. f \<in> L \<Longrightarrow> cyc (vlinks v) (f_children (vfile v f)) (K f)"
    and "\<And>f c. f \<in> L \<Longrightarrow> c \<in> set (K f) \<Longrightarrow> c \<in> L \<and> f_parent (vfile v c) = Some f"
    and "\<And>f p. f \<in> L \<Longrightarrow> f_parent (vfile v f) = Some p \<Longrightarrow> p \<in> L \<and> f \<in> set (K p) \<and> dp p < dp f"
    and "\<And>f. f \<in> L \<Longrightarrow> f_nrefs (vfile v f) = int (refs v L K ext f) \<and> refs v L K ext f \<le> 127"
    and "\<And>f m. f \<in> L \<Longrightarrow> f_mountpoint (vfile v f) = Some m \<Longrightarrow> m \<in> L"
  shows "tree_ok v L K ext dp"
  unfolding tree_ok_def file_ok_def using assms by blast

lemma tree_ok_root: "tree_ok v L K ext dp \<Longrightarrow> vroot v = Some r \<Longrightarrow> r \<in> L"
  by (simp add: tree_ok_def)

text \<open>Changing the reference count of a file together with the references to it.\<close>

lemma tree_nrefs:
  assumes ok: "tree_ok v L K ext dp" and f: "f \<in> L" and n: "int (refs v L K (ext(f := e)) f) = n" "n \<le> 127"
  shows "tree_ok (upd_vfile f (\<lambda>x. x\<lparr>f_nrefs := n\<rparr>) v) L K (ext(f := e)) dp"
proof -
  define w where "w = upd_vfile f (\<lambda>x. x\<lparr>f_nrefs := n\<rparr>) v"
  have same: "f_children (vfile w g) = f_children (vfile v g)" "f_parent (vfile w g) = f_parent (vfile v g)"
    "f_mountpoint (vfile w g) = f_mountpoint (vfile v g)" "f_nrefs (vfile w g) = (if g = f then n else f_nrefs (vfile v g))" for g
    by (simp_all add: w_def)
  have w: "vlinks w = vlinks v" "vroot w = vroot v" by (simp_all add: w_def)
  have h: "held w L g = held v L g" for g by (simp add: held_def same w)
  have r: "refs w L K (ext(f := e)) g = (if g = f then nat n else refs v L K ext g)" for g
    using n(1) by (auto simp: refs_def same h)
  show ?thesis unfolding w_def[symmetric]
  proof (rule tree_okI, unfold same r w)
    show "(if g = f then n else f_nrefs (vfile v g)) = int (if g = f then nat n else refs v L K ext g) \<and>
        (if g = f then nat n else refs v L K ext g) \<le> 127" if "g \<in> L" for g
      using n tree_okD(4,5)[OF ok that] by auto
  qed (fact tree_ok_root[OF ok] tree_okD[OF ok])+
qed

lemma count_step: "s8 (int k - 1) = int (k - 1)" if "0 < k" "k \<le> 127" for k
  using that by (auto simp: s8_def)

lemma count_up: "s8 (int k + 1) = int (k + 1)" if "k < 127" for k
  using that by (auto simp: s8_def)

text \<open>Taking a file that nobody refers to out of the tree, before its memory is released.\<close>

lemma tree_unlink_root:
  assumes ok: "tree_ok v L K ext dp" and f: "f \<in> L" and K: "K f = []" and p: "f_parent (vfile v f) = None"
    and m: "f_mountpoint (vfile v f) = None" and h: "\<not> held v L f"
  shows "tree_ok v (L - {f}) K ext dp"
proof -
  have nc: "f \<notin> set (K g)" if "g \<in> L" for g using tree_okD(2)[OF ok that, of f] p by auto
  have hh: "held v (L - {f}) g = held v L g" for g using m by (auto simp: held_def)
  have np: "f_parent (vfile v g) \<noteq> Some f" if "g \<in> L" for g using tree_okD(3)[OF ok that, of f] K by auto
  have nm: "f_mountpoint (vfile v g) \<noteq> Some f" if "g \<in> L" for g using h that by (auto simp: held_def)
  have rt: "vroot v \<noteq> Some f" using h by (simp add: held_def)
  have rr: "refs v (L - {f}) K ext g = refs v L K ext g" for g by (simp add: refs_def hh)
  show ?thesis
  proof (rule tree_okI, unfold rr)
    show "r \<in> L - {f}" if "vroot v = Some r" for r using tree_ok_root[OF ok that] rt that by auto
    show "c \<in> L - {f} \<and> f_parent (vfile v c) = Some g" if "g \<in> L - {f}" "c \<in> set (K g)" for g c
      using tree_okD(2)[OF ok _ that(2)] nc[of g] that by auto
    show "q \<in> L - {f} \<and> g \<in> set (K q) \<and> dp q < dp g" if "g \<in> L - {f}" "f_parent (vfile v g) = Some q" for g q
      using tree_okD(3)[OF ok _ that(2)] np[of g] that by auto
    show "n \<in> L - {f}" if "g \<in> L - {f}" "f_mountpoint (vfile v g) = Some n" for g n
      using tree_okD(6)[OF ok _ that(2)] nm[of g] that by auto
  qed (use tree_okD(1,4,5)[OF ok] in \<open>blast+\<close>)
qed

lemma tree_unlink:
  assumes ok: "tree_ok v L K ext dp" and f: "f \<in> L" and K: "K f = []" and p: "f_parent (vfile v f) = Some p"
    and m: "f_mountpoint (vfile v f) = None" and h: "\<not> held v L f"
  shows "\<exists>c l. list_remove (f_children (vfile v p)) f (vlinks v) = Some (c, l) \<and>
    tree_ok ((upd_vfile p (\<lambda>x. x\<lparr>f_children := c\<rparr>) v)\<lparr>vlinks := l\<rparr>) (L - {f}) (K(p := remove1 f (K p))) (ext(p := ext p + 1)) dp"
proof -
  have pl: "p \<in> L" "f \<in> set (K p)" "dp p < dp f" using tree_okD(3)[OF ok f p] by simp_all
  then have ne: "p \<noteq> f" by auto
  from list_remove_cyc[OF tree_okD(1)[OF ok pl(1)] pl(2)] obtain c l where
    l: "list_remove (f_children (vfile v p)) f (vlinks v) = Some (c, l)" "cyc l c (remove1 f (K p))"
    "\<forall>x. x \<notin> set (K p) \<longrightarrow> next_of l x = next_of (vlinks v) x \<and> prev_of l x = prev_of (vlinks v) x" by blast
  define w where "w = (upd_vfile p (\<lambda>x. x\<lparr>f_children := c\<rparr>) v)\<lparr>vlinks := l\<rparr>"
  have w: "vlinks w = l" "vroot w = vroot v" "f_children (vfile w g) = (if g = p then c else f_children (vfile v g))"
    "f_parent (vfile w g) = f_parent (vfile v g)" "f_mountpoint (vfile w g) = f_mountpoint (vfile v g)"
    "f_nrefs (vfile w g) = f_nrefs (vfile v g)" for g by (simp_all add: w_def)
  have nc: "g = p" if "f \<in> set (K g)" "g \<in> L" for g using tree_okD(2)[OF ok that(2,1)] p by simp
  have dis: "set (K g) \<inter> set (K p) = {}" if "g \<in> L" "g \<noteq> p" for g
    using tree_okD(2)[OF ok that(1)] tree_okD(2)[OF ok pl(1)] that(2) by fastforce
  have cy: "cyc l (f_children (vfile v g)) (K g)" if "g \<in> L" "g \<noteq> p" for g
  proof -
    have "cyc l (f_children (vfile v g)) (K g) = cyc (vlinks v) (f_children (vfile v g)) (K g)"
      by (rule cyc_cong) (use l(3) dis[OF that] in blast)
    then show ?thesis using tree_okD(1)[OF ok that(1)] by simp
  qed
  have dist: "distinct (K p)" using cyc_distinct[OF tree_okD(1)[OF ok pl(1)]] .
  have hh: "held w (L - {f}) g = held v L g" for g using m by (auto simp: held_def w)
  have rr: "refs w (L - {f}) (K(p := remove1 f (K p))) (ext(p := ext p + 1)) g = refs v L K ext g" for g
    using pl(2) length_pos_if_in_set[OF pl(2)] by (auto simp: refs_def w hh length_remove1)
  have np: "f_parent (vfile v g) \<noteq> Some f" if "g \<in> L" for g using tree_okD(3)[OF ok that, of f] K by auto
  have nm: "f_mountpoint (vfile v g) \<noteq> Some f" if "g \<in> L" for g using h that by (auto simp: held_def)
  have rt: "vroot v \<noteq> Some f" using h by (simp add: held_def)
  have "tree_ok w (L - {f}) (K(p := remove1 f (K p))) (ext(p := ext p + 1)) dp"
  proof (rule tree_okI, unfold w rr)
    show "r \<in> L - {f}" if "vroot v = Some r" for r using tree_ok_root[OF ok that] rt that by auto
    show "cyc l (if g = p then c else f_children (vfile v g)) ((K(p := remove1 f (K p))) g)" if "g \<in> L - {f}" for g
      using l(2) cy[of g] that by simp
    show "c' \<in> L - {f} \<and> f_parent (vfile v c') = Some g" if "g \<in> L - {f}" "c' \<in> set ((K(p := remove1 f (K p))) g)" for g c'
    proof -
      have "c' \<in> set (K g)" "c' \<noteq> f" using that dist nc[of g] by (auto split: if_splits)
      then show ?thesis using tree_okD(2)[OF ok _ \<open>c' \<in> set (K g)\<close>] that(1) by auto
    qed
    show "q \<in> L - {f} \<and> g \<in> set ((K(p := remove1 f (K p))) q) \<and> dp q < dp g"
      if "g \<in> L - {f}" "f_parent (vfile v g) = Some q" for g q
      using tree_okD(3)[OF ok _ that(2)] np[of g] that by auto
    show "f_nrefs (vfile v g) = int (refs v L K ext g) \<and> refs v L K ext g \<le> 127" if "g \<in> L - {f}" for g
      using tree_okD(4,5)[OF ok, of g] that by simp
    show "n \<in> L - {f}" if "g \<in> L - {f}" "f_mountpoint (vfile v g) = Some n" for g n
      using tree_okD(6)[OF ok _ that(2)] nm[of g] that by auto
  qed
  then show ?thesis using l(1) by (auto simp: w_def)
qed

section \<open>Releasing a reference\<close>

lemma ext_step: "refs v L K (ext(f := ext f - 1)) f = refs v L K ext f - 1" if "0 < ext f"
  using that by (simp add: refs_def)

lemma tree_vdep:
  assumes ok: "tree_ok v L K ext dp" and eq: "vfile w = vfile v" "vlinks w = vlinks v" "vroot w = vroot v"
  shows "tree_ok w L K ext dp"
proof -
  have r: "refs w = refs v" by (simp add: fun_eq_iff refs_def held_def eq)
  show ?thesis using ok unfolding tree_ok_def file_ok_def eq r .
qed

lemma put_tree:
  assumes "tree_ok v L K ext dp" and "owned (kh v) (L \<union> A)" and "L \<inter> A = {}" and "f \<in> L" and "0 < ext f"
  shows "\<exists>v' L' K'. fs_file_put f v = Some v' \<and> tree_ok v' L' K' (ext(f := ext f - 1)) dp \<and> owned (kh v') (L' \<union> A) \<and> L' \<subseteq> L \<and>
    (\<forall>g \<in> L - L'. (ext(f := ext f - 1)) g = 0) \<and> same_files L' v v' \<and>
    (\<forall>g \<in> L'. 0 < f_nrefs (vfile v g) \<longrightarrow> 0 < f_nrefs (vfile v' g))"
  using assms
proof (induction "dp f" arbitrary: f v L K ext A rule: less_induct)
  case less
  note ok = less.prems(1) and f = less.prems(4) and e = less.prems(5)
  define n where "n = refs v L K ext f"
  have n: "f_nrefs (vfile v f) = int n" "n \<le> 127" "0 < n"
    unfolding n_def by (rule tree_okD(4)[OF ok f], rule tree_okD(5)[OF ok f]) (use e in \<open>simp add: refs_def\<close>)
  define ext1 where "ext1 = ext(f := ext f - 1)"
  have n1: "int (refs v L K ext1 f) = int (n - 1)" using ext_step[where ext = ext, OF e] by (simp add: n_def ext1_def)
  define v1 where "v1 = upd_vfile f (\<lambda>x. x\<lparr>f_nrefs := int (n - 1)\<rparr>) v"
  have s: "upd_vfile f (\<lambda>x. x\<lparr>f_nrefs := s8 (f_nrefs x - 1)\<rparr>) v = v1"
    using count_step[OF n(3,2)] n(1) by (simp add: v1_def upd_vfile_def)
  have ok1: "tree_ok v1 L K ext1 dp"
    using tree_nrefs[OF ok f, of "ext f - 1" "int (n - 1)"] n1 n(2) by (simp add: v1_def ext1_def)
  have v1: "kh v1 = kh v" "f_nrefs (vfile v1 f) = int (n - 1)" "f_parent (vfile v1 f) = f_parent (vfile v f)"
    "same_files M v v1" for M by (simp_all add: v1_def same_files_def)
  note put = fs_file_put.simps[of f v, unfolded s Let_def v1(2)]
  show ?case
  proof (cases "n = 1")
    case False
    then have "fs_file_put f v = Some v1" using n(3) by (simp add: put)
    moreover have "\<forall>g \<in> L. 0 < f_nrefs (vfile v g) \<longrightarrow> 0 < f_nrefs (vfile v1 g)" using False n(3) by (simp add: v1_def)
    ultimately show ?thesis using ok1 less.prems(2) v1(1,4) unfolding ext1_def
      by (intro exI[of _ v1] exI[of _ L] exI[of _ K]) simp
  next
    case True
    then have z: "refs v1 L K ext1 f = 0" using tree_okD(4)[OF ok1 f] v1(2) by simp
    then have lone: "K f = []" "ext1 f = 0" "f_mountpoint (vfile v1 f) = None" "\<not> held v1 L f" by (simp_all add: refs_def)
    have ch: "f_children (vfile v1 f) = None" using tree_okD(1)[OF ok1 f] lone(1) by simp
    show ?thesis
    proof (cases "f_parent (vfile v f)")
      case None
      have "f \<in> L \<union> A" using f by simp
      from owned_free[OF less.prems(2) this] obtain h where h: "kfree (Some f) (kh v) = Some h" "owned h (L \<union> A - {f})" by blast
      have "f \<notin> A" using f less.prems(3) by auto
      then have own: "owned h ((L - {f}) \<union> A)" using h(2) by (simp add: Un_Diff)
      have "fs_file_put f v = Some (v1\<lparr>kh := h\<rparr>)" using True None lone(3) ch h(1) v1(1,3) by (simp add: put)
      moreover have "tree_ok (v1\<lparr>kh := h\<rparr>) (L - {f}) K ext1 dp"
        by (rule tree_vdep[OF tree_unlink_root[OF ok1 f lone(1) _ lone(3,4)]]) (simp_all add: v1(3) None)
      moreover have "same_files (L - {f}) v (v1\<lparr>kh := h\<rparr>)" using v1(4)[of "L - {f}"] by (simp add: same_files_def)
      moreover have "\<forall>g \<in> L - (L - {f}). ext1 g = 0" using lone(2) by auto
      moreover have "\<forall>g \<in> L - {f}. 0 < f_nrefs (vfile v g) \<longrightarrow> 0 < f_nrefs (vfile (v1\<lparr>kh := h\<rparr>) g)" by (simp add: v1_def)
      ultimately show ?thesis using own unfolding ext1_def by (intro exI[of _ "v1\<lparr>kh := h\<rparr>"] exI[of _ "L - {f}"] exI[of _ K]) simp
    next
      case (Some p)
      then have p1: "f_parent (vfile v1 f) = Some p" by (simp add: v1(3))
      from tree_okD(3)[OF ok1 f p1] have p: "p \<in> L" "dp p < dp f" by simp_all
      then have ne: "p \<noteq> f" by auto
      from tree_unlink[OF ok1 f lone(1) p1 lone(3,4)] obtain c l where l: "list_remove (f_children (vfile v1 p)) f (vlinks v1) = Some (c, l)"
        and ok2: "tree_ok ((upd_vfile p (\<lambda>x. x\<lparr>f_children := c\<rparr>) v1)\<lparr>vlinks := l\<rparr>) (L - {f}) (K(p := remove1 f (K p))) (ext1(p := ext1 p + 1)) dp" by blast
      define v2 where "v2 = (upd_vfile p (\<lambda>x. x\<lparr>f_children := c\<rparr>) v1)\<lparr>vlinks := l\<rparr>"
      have v2: "kh v2 = kh v" "same_files M v1 v2" for M by (simp_all add: v2_def v1(1) same_files_def)
      have "L - {f} \<union> insert f A = L \<union> A" using f by auto
      moreover have "(L - {f}) \<inter> insert f A = {}" using less.prems(3) by auto
      moreover have "p \<in> L - {f}" "0 < (ext1(p := ext1 p + 1)) p" using p(1) ne by simp_all
      moreover have "ext1(p := ext1 p + 1, p := (ext1(p := ext1 p + 1)) p - 1) = ext1" by auto
      ultimately obtain v3 L' K' where v3: "fs_file_put p v2 = Some v3" "tree_ok v3 L' K' ext1 dp" "owned (kh v3) (L' \<union> insert f A)"
          "L' \<subseteq> L - {f}" "\<forall>g \<in> L - {f} - L'. ext1 g = 0" "same_files L' v2 v3"
          "\<forall>g \<in> L'. 0 < f_nrefs (vfile v2 g) \<longrightarrow> 0 < f_nrefs (vfile v3 g)"
        using less.hyps[OF p(2) ok2[folded v2_def], of "insert f A"] less.prems(2) unfolding v2(1) by metis
      have "f \<in> L' \<union> insert f A" by simp
      from owned_free[OF v3(3) this] obtain h where h: "kfree (Some f) (kh v3) = Some h" "owned h (L' \<union> insert f A - {f})" by blast
      have "L' \<union> insert f A - {f} = L' \<union> A" using v3(4) f less.prems(3) by auto
      then have own: "owned h (L' \<union> A)" using h(2) by simp
      have "fs_file_put f v = Some (v3\<lparr>kh := h\<rparr>)" using True p1 lone(3) ch l v3(1) h(1) by (simp add: put v2_def)
      moreover have "tree_ok (v3\<lparr>kh := h\<rparr>) L' K' ext1 dp" by (rule tree_vdep[OF v3(2)]) simp_all
      moreover have "same_files L' v (v3\<lparr>kh := h\<rparr>)"
        using same_files_trans[OF same_files_trans[OF v1(4) v2(2)[of L]] v3(6), of L] v3(4) by (auto simp: same_files_def)
      moreover have "\<forall>g \<in> L - L'. ext1 g = 0" using v3(5) lone(2) by auto
      moreover have "\<forall>g \<in> L'. 0 < f_nrefs (vfile v g) \<longrightarrow> 0 < f_nrefs (vfile (v3\<lparr>kh := h\<rparr>) g)"
      proof (intro ballI impI)
        fix g assume g: "g \<in> L'" "0 < f_nrefs (vfile v g)"
        then have "g \<noteq> f" using v3(4) by auto
        then have "f_nrefs (vfile v2 g) = f_nrefs (vfile v g)" by (simp add: v2_def v1_def)
        then show "0 < f_nrefs (vfile (v3\<lparr>kh := h\<rparr>) g)" using v3(7) g by simp
      qed
      ultimately show ?thesis using own v3(4) unfolding ext1_def
        by (intro exI[of _ "v3\<lparr>kh := h\<rparr>"] exI[of _ L'] exI[of _ K']) auto
    qed
  qed
qed

lemma put_wf:
  assumes wf: "vfs_wf v L K ext A" and e: "0 < ext f"
  shows "\<exists>v' L' K'. fs_file_put f v = Some v' \<and> vfs_wf v' L' K' (ext(f := ext f - 1)) A \<and> L' \<subseteq> L \<and> same_files L' v v' \<and>
    (\<forall>g \<in> L'. 0 < f_nrefs (vfile v g) \<longrightarrow> 0 < f_nrefs (vfile v' g))"
proof -
  obtain dp where ok: "tree_ok v L K ext dp" and o: "owned (kh v) (L \<union> A)" and d: "L \<inter> A = {}" and z: "\<forall>f. f \<notin> L \<longrightarrow> ext f = 0"
    using wf by (auto simp: vfs_wf_def)
  have f: "f \<in> L" using e z by (metis less_irrefl)
  from put_tree[OF ok o d f e] obtain v' L' K' where p: "fs_file_put f v = Some v'" "tree_ok v' L' K' (ext(f := ext f - 1)) dp"
    "owned (kh v') (L' \<union> A)" "L' \<subseteq> L" "\<forall>g \<in> L - L'. (ext(f := ext f - 1)) g = 0" "same_files L' v v'"
    "\<forall>g \<in> L'. 0 < f_nrefs (vfile v g) \<longrightarrow> 0 < f_nrefs (vfile v' g)" by blast
  have "(ext(f := ext f - 1)) g = 0" if "g \<notin> L'" for g using p(5) z f that by (cases "g \<in> L") auto
  then have "vfs_wf v' L' K' (ext(f := ext f - 1)) A" unfolding vfs_wf_def using p(2,3,4) d by blast
  then show ?thesis using p by blast
qed

lemma wfD:
  assumes "vfs_wf v L K ext A"
  shows "owned (kh v) (L \<union> A)" and "L \<inter> A = {}" and "f \<notin> L \<Longrightarrow> ext f = 0" and "\<exists>dp. tree_ok v L K ext dp"
  using assms by (simp_all add: vfs_wf_def)

lemma wf_vdep: "vfs_wf v L K ext A \<Longrightarrow> kh w = kh v \<Longrightarrow> vfile w = vfile v \<Longrightarrow> vlinks w = vlinks v \<Longrightarrow> vroot w = vroot v \<Longrightarrow> vfs_wf w L K ext A"
  unfolding vfs_wf_def using tree_vdep[of v L K ext _ w] by metis

lemma wf_lock [simp]: "vfs_wf (vunlock l v) L K ext A = vfs_wf v L K ext A"
  by (rule iffI; erule wf_vdep) (simp_all add: vunlock_def)

lemma wf_vlock: "vlock l v = Some v' \<Longrightarrow> vfs_wf v' L K ext A = vfs_wf v L K ext A"
  by (rule iffI; erule wf_vdep) (auto simp: vlock_def split: if_splits)

lemma get_wf:
  assumes wf: "vfs_wf v L K ext A" and f: "f \<in> L" and r: "refs v L K ext f < 127"
  shows "vfs_wf (fs_file_get f v) L K (ext(f := ext f + 1)) A"
proof -
  obtain dp where ok: "tree_ok v L K ext dp" using wfD(4)[OF wf] by blast
  have n: "refs v L K (ext(f := ext f + 1)) f = refs v L K ext f + 1" by (simp add: refs_def)
  have "s8 (f_nrefs (vfile v f) + 1) = int (refs v L K ext f + 1)" using count_up[OF r] tree_okD(4)[OF ok f] by simp
  then have "fs_file_get f v = upd_vfile f (\<lambda>x. x\<lparr>f_nrefs := int (refs v L K ext f + 1)\<rparr>) v"
    by (simp add: fs_file_get_def upd_vfile_def)
  then have "tree_ok (fs_file_get f v) L K (ext(f := ext f + 1)) dp"
    using tree_nrefs[OF ok f, of "ext f + 1" "int (refs v L K ext f + 1)"] n r by simp
  then show ?thesis using wfD[OF wf] f unfolding vfs_wf_def by (auto simp: fs_file_get_def)
qed

section \<open>The operations of the file systems\<close>

text \<open>What they may change: contents, sizes and their own state, not the tree.\<close>

definition same_tree :: "'x vfs \<Rightarrow> 'x vfs \<Rightarrow> bool" where
  "same_tree v v' \<longleftrightarrow> kh v' = kh v \<and> vroot v' = vroot v \<and> vlinks v' = vlinks v \<and> vctx v' = vctx v \<and> vlocks v' = vlocks v \<and>
     (\<forall>f. f_parent (vfile v' f) = f_parent (vfile v f) \<and> f_mountpoint (vfile v' f) = f_mountpoint (vfile v f) \<and>
       f_nrefs (vfile v' f) = f_nrefs (vfile v f) \<and> f_children (vfile v' f) = f_children (vfile v f) \<and>
       f_attr (vfile v' f) = f_attr (vfile v f) \<and> f_ctx (vfile v' f) = f_ctx (vfile v f) \<and> f_name (vfile v' f) = f_name (vfile v f))"

lemma same_tree_refl [simp]: "same_tree v v"
  by (simp add: same_tree_def)

lemma same_tree_trans: "same_tree u v \<Longrightarrow> same_tree v w \<Longrightarrow> same_tree u w"
  by (simp add: same_tree_def)

lemma same_tree_refs: "same_tree v w \<Longrightarrow> refs w = refs v"
  by (simp add: fun_eq_iff refs_def held_def same_tree_def)

lemma same_tree_wf:
  assumes "vfs_wf v L K ext A" and t: "same_tree v w"
  shows "vfs_wf w L K ext A"
proof -
  have eq: "kh w = kh v" "vroot w = vroot v" "vlinks w = vlinks v" "f_parent (vfile w f) = f_parent (vfile v f)"
    "f_mountpoint (vfile w f) = f_mountpoint (vfile v f)" "f_nrefs (vfile w f) = f_nrefs (vfile v f)"
    "f_children (vfile w f) = f_children (vfile v f)" for f using t by (simp_all add: same_tree_def)
  show ?thesis using assms(1) unfolding vfs_wf_def tree_ok_def file_ok_def same_tree_refs[OF t] eq .
qed

section \<open>A new file\<close>

lemma tree_link:
  assumes ok: "tree_ok v L K ext dp" and d: "dir \<in> L" and r: "refs v L K ext dir < 127" and f: "f \<notin> L" and e: "ext f = 0"
    and v: "f_parent (vfile v f) = Some dir" "f_children (vfile v f) = None" "f_nrefs (vfile v f) = 0" "f_mountpoint (vfile v f) = None"
  shows "\<exists>c l. list_add (f_children (vfile v dir)) f (vlinks v) = Some (c, l) \<and>
    tree_ok (fs_file_get dir ((upd_vfile dir (\<lambda>x. x\<lparr>f_children := c\<rparr>) v)\<lparr>vlinks := l\<rparr>)) (insert f L) (K(f := [], dir := K dir @ [f])) ext (dp(f := dp dir + 1)) \<and>
    refs (fs_file_get dir ((upd_vfile dir (\<lambda>x. x\<lparr>f_children := c\<rparr>) v)\<lparr>vlinks := l\<rparr>)) (insert f L) (K(f := [], dir := K dir @ [f])) ext f = 0"
proof -
  have ne: "f \<noteq> dir" using d f by auto
  have fK: "f \<notin> set (K g)" if "g \<in> L" for g using tree_okD(2)[OF ok that, of f] f by auto
  from list_add_cyc[OF tree_okD(1)[OF ok d] fK[OF d]] obtain c l where l: "list_add (f_children (vfile v dir)) f (vlinks v) = Some (c, l)"
    "cyc l c (K dir @ [f])" "\<forall>x. x \<notin> set (K dir) \<and> x \<noteq> f \<longrightarrow> next_of l x = next_of (vlinks v) x \<and> prev_of l x = prev_of (vlinks v) x" by blast
  define n where "n = refs v L K ext dir"
  define w where "w = fs_file_get dir ((upd_vfile dir (\<lambda>x. x\<lparr>f_children := c\<rparr>) v)\<lparr>vlinks := l\<rparr>)"
  define K' where "K' = K(f := [], dir := K dir @ [f])"
  have "s8 (f_nrefs (vfile v dir) + 1) = int (n + 1)" using count_up[of n] r tree_okD(4)[OF ok d] by (simp add: n_def)
  then have w: "vlinks w = l" "vroot w = vroot v" "f_children (vfile w g) = (if g = dir then c else f_children (vfile v g))"
    "f_parent (vfile w g) = f_parent (vfile v g)" "f_mountpoint (vfile w g) = f_mountpoint (vfile v g)"
    "f_nrefs (vfile w g) = (if g = dir then int (n + 1) else f_nrefs (vfile v g))" for g by (simp_all add: w_def fs_file_get_def)
  have hh: "held w (insert f L) g = held v L g" for g using v(4) by (auto simp: held_def w)
  have hf: "\<not> held v L f" using tree_ok_root[OF ok] tree_okD(6)[OF ok] f by (auto simp: held_def)
  have rr: "refs w (insert f L) K' ext g = (if g = dir then n + 1 else if g = f then 0 else refs v L K ext g)" for g
    using e v(4) hf ne unfolding refs_def hh w K'_def n_def by simp
  have dis: "set (K g) \<inter> set (K dir) = {}" if "g \<in> L" "g \<noteq> dir" for g
    using tree_okD(2)[OF ok that(1)] tree_okD(2)[OF ok d] that(2) by fastforce
  have cy: "cyc l (f_children (vfile v g)) (K g)" if "g \<in> L" "g \<noteq> dir" for g
  proof -
    have "cyc l (f_children (vfile v g)) (K g) = cyc (vlinks v) (f_children (vfile v g)) (K g)"
      by (rule cyc_cong) (use l(3) dis[OF that] fK[OF that(1)] in blast)
    then show ?thesis using tree_okD(1)[OF ok that(1)] by simp
  qed
  have "tree_ok w (insert f L) K' ext (dp(f := dp dir + 1))"
  proof (rule tree_okI, unfold w rr)
    show "r' \<in> insert f L" if "vroot v = Some r'" for r' using tree_ok_root[OF ok that] by simp
    show "cyc l (if g = dir then c else f_children (vfile v g)) (K' g)" if "g \<in> insert f L" for g
      using l(2) cy[of g] that v(2) ne by (auto simp: K'_def)
    show "c' \<in> insert f L \<and> f_parent (vfile v c') = Some g" if "g \<in> insert f L" "c' \<in> set (K' g)" for g c'
      using that tree_okD(2)[OF ok _, of g c'] v(1) d by (auto simp: K'_def split: if_splits)
    show "q \<in> insert f L \<and> g \<in> set (K' q) \<and> (dp(f := dp dir + 1)) q < (dp(f := dp dir + 1)) g"
      if "g \<in> insert f L" "f_parent (vfile v g) = Some q" for g q
    proof (cases "g = f")
      case True
      then show ?thesis using that(2) v(1) d ne by (auto simp: K'_def)
    next
      case False
      then have "q \<in> L \<and> g \<in> set (K q) \<and> dp q < dp g" using tree_okD(3)[OF ok _ that(2)] that(1) by auto
      then show ?thesis using False f by (auto simp: K'_def)
    qed
    show "(if g = dir then int (n + 1) else f_nrefs (vfile v g)) = int (if g = dir then n + 1 else if g = f then 0 else refs v L K ext g) \<and>
        (if g = dir then n + 1 else if g = f then 0 else refs v L K ext g) \<le> 127" if "g \<in> insert f L" for g
      using tree_okD(4,5)[OF ok, of g] that r v(3) by (auto simp: n_def)
    show "m \<in> insert f L" if "g \<in> insert f L" "f_mountpoint (vfile v g) = Some m" for g m
      using tree_okD(6)[OF ok _ that(2)] that v(4) by auto
  qed
  then show ?thesis using l(1) rr[of f] ne unfolding w_def K'_def by (intro exI[of _ c] exI[of _ l]) simp
qed

text \<open>\<open>blank v v'\<close>: nothing but the file at \<open>f\<close>, not live, and the heap changed.\<close>

lemma tree_frame:
  assumes ok: "tree_ok v L K ext dp" and f: "f \<notin> L" and g: "\<And>g. g \<in> L \<Longrightarrow> vfile w g = vfile v g"
    and l: "\<And>x. x \<noteq> f \<Longrightarrow> next_of (vlinks w) x = next_of (vlinks v) x \<and> prev_of (vlinks w) x = prev_of (vlinks v) x" and r: "vroot w = vroot v"
  shows "tree_ok w L K ext dp" and "h \<in> L \<Longrightarrow> refs w L K ext h = refs v L K ext h"
proof -
  have hh: "held w L x = held v L x" for x using g by (auto simp: held_def r)
  have rr: "refs w L K ext x = refs v L K ext x" if "x \<in> L" for x by (simp add: refs_def hh g[OF that])
  then show "h \<in> L \<Longrightarrow> refs w L K ext h = refs v L K ext h" .
  show "tree_ok w L K ext dp"
  proof (rule tree_okI)
    show "r' \<in> L" if "vroot w = Some r'" for r' using tree_ok_root[OF ok] that r by simp
    show "cyc (vlinks w) (f_children (vfile w x)) (K x)" if "x \<in> L" for x
    proof -
      have "c \<noteq> f" if "c \<in> set (K x)" for c using tree_okD(2)[OF ok \<open>x \<in> L\<close> that] f by auto
      then have "cyc (vlinks w) (f_children (vfile v x)) (K x) = cyc (vlinks v) (f_children (vfile v x)) (K x)"
        using l by (intro cyc_cong) blast
      then show ?thesis using tree_okD(1)[OF ok that] g[OF that] by simp
    qed
    show "c \<in> L \<and> f_parent (vfile w c) = Some x" if "x \<in> L" "c \<in> set (K x)" for x c
      using tree_okD(2)[OF ok that] g by simp
    show "p \<in> L \<and> x \<in> set (K p) \<and> dp p < dp x" if "x \<in> L" "f_parent (vfile w x) = Some p" for x p
      using tree_okD(3)[OF ok that(1)] that(2) g[OF that(1)] by simp
    show "f_nrefs (vfile w x) = int (refs w L K ext x) \<and> refs w L K ext x \<le> 127" if "x \<in> L" for x
      using tree_okD(4,5)[OF ok that] g[OF that] rr[OF that] by simp
    show "m \<in> L" if "x \<in> L" "f_mountpoint (vfile w x) = Some m" for x m
      using tree_okD(6)[OF ok that(1)] that(2) g[OF that(1)] by simp
  qed
qed

lemma spawn_tree:
  assumes sp: "fs_file_spawn name attr v = Some (r, w)" and ok: "tree_ok v L K ext dp" and o: "owned (kh v) (L \<union> A)" and n: "length name \<le> 1000"
  shows "tree_ok w L K ext dp \<and> (\<forall>x \<in> L. refs w L K ext x = refs v L K ext x) \<and> (case r of
     None \<Rightarrow> owned (kh w) (L \<union> A)
   | Some f \<Rightarrow> f \<notin> L \<union> A \<and> owned (kh w) (insert f L \<union> A) \<and> f_children (vfile w f) = None \<and> f_nrefs (vfile w f) = 0 \<and>
       f_mountpoint (vfile w f) = None \<and> f_attr (vfile w f) = attr \<and> f_name (vfile w f) = name)"
proof -
  have sz: "0 < u16 (FS_FILE_SIZE + length name + 1)" "u16 (FS_FILE_SIZE + length name + 1) \<le> 65528"
    using n by (simp_all add: u16_def FS_FILE_SIZE_def)
  from sp obtain r' h where k: "kmalloc (u16 (FS_FILE_SIZE + length name + 1)) (kh v) = Some (r', h)"
    by (auto simp: fs_file_spawn_def split: Option.bind_splits)
  note oa = owned_alloc[OF o k sz]
  show ?thesis
  proof (cases r')
    case None
    then have "r = None" "w = v\<lparr>kh := h\<rparr>" using sp k by (simp_all add: fs_file_spawn_def)
    moreover have "tree_ok (v\<lparr>kh := h\<rparr>) L K ext dp" by (rule tree_vdep[OF ok]) simp_all
    moreover have "refs (v\<lparr>kh := h\<rparr>) = refs v" by (simp add: fun_eq_iff refs_def held_def)
    ultimately show ?thesis using oa None by simp
  next
    case (Some f)
    then have w: "r = Some f" "kh w = h" "vroot w = vroot v" "\<And>g. g \<noteq> f \<Longrightarrow> vfile w g = vfile v g"
      "\<And>x. x \<noteq> f \<Longrightarrow> next_of (vlinks w) x = next_of (vlinks v) x \<and> prev_of (vlinks w) x = prev_of (vlinks v) x"
      "f_children (vfile w f) = None" "f_nrefs (vfile w f) = 0" "f_mountpoint (vfile w f) = None" "f_attr (vfile w f) = attr" "f_name (vfile w f) = name"
      using sp k by (auto simp: fs_file_spawn_def)
    have f: "f \<notin> L" using oa Some by simp
    then have g: "vfile w g = vfile v g" if "g \<in> L" for g using that w(4) by metis
    have "tree_ok w L K ext dp" by (rule tree_frame(1)[OF ok f g w(5,3)])
    moreover have "\<forall>x \<in> L. refs w L K ext x = refs v L K ext x" using tree_frame(2)[OF ok f g w(5,3)] by blast
    ultimately show ?thesis using oa Some w(1,2,6-) by simp
  qed
qed

text \<open>The outcome of \<open>_fs_open_from_dir\<close>: a new file without references, linked to its directory, or nothing in the tree changed.\<close>

definition from_dir_out :: "'x vfs \<Rightarrow> nat set \<Rightarrow> (nat \<Rightarrow> nat list) \<Rightarrow> (nat \<Rightarrow> nat) \<Rightarrow> nat set \<Rightarrow> int \<times> nat option \<times> 'x vfs \<Rightarrow> bool" where
  "from_dir_out v L K ext A y \<longleftrightarrow> (case y of (e, None, w) \<Rightarrow>
       e \<noteq> 0 \<and> vfs_wf w L K ext A \<and> (\<forall>x \<in> L. refs w L K ext x = refs v L K ext x)
     | (e, Some f, w) \<Rightarrow> e = 0 \<and> f_mountpoint (vfile w f) = None \<and> f \<notin> L \<and>
         (\<exists>K'. vfs_wf w (insert f L) K' ext A \<and> refs w (insert f L) K' ext f = 0))"

lemma found_wf:
  assumes wf: "vfs_wf v L K ext A" and d: "dir \<in> L" and r: "refs v L K ext dir < 127" and n: "length name \<le> 1000"
    and sp: "fs_file_spawn name attr v = Some (s, v2)"
    and out: "(case s of None \<Rightarrow> Some (- ENOMEM, None, v2)
      | Some f \<Rightarrow> do {
          int' \<leftarrow> internal;
          let v3 = upd_vfile f (\<lambda>x. x\<lparr>f_parent := Some dir, f_ctx := f_ctx (vfile v2 dir), f_size := sz, f_file := int'\<rparr>) v2;
          (c, l) \<leftarrow> list_add (f_children (vfile v3 dir)) f (vlinks v3);
          Some (0, Some f, fs_file_get dir ((upd_vfile dir (\<lambda>x. x\<lparr>f_children := c\<rparr>) v3)\<lparr>vlinks := l\<rparr>)) }) = Some y"
  shows "from_dir_out v L K ext A y"
proof -
  obtain dp where ok: "tree_ok v L K ext dp" using wfD(4)[OF wf] by blast
  note st = spawn_tree[OF sp ok wfD(1)[OF wf] n]
  show ?thesis
  proof (cases s)
    case None
    then have "y = (- ENOMEM, None, v2)" using out by simp
    moreover have "vfs_wf v2 L K ext A" using st None wfD(2,3)[OF wf] unfolding vfs_wf_def by auto
    ultimately show ?thesis using st by (simp add: from_dir_out_def ENOMEM_def)
  next
    case (Some f)
    then obtain i where i: "internal = Some i" using out by (cases internal) auto
    define v3 where "v3 = upd_vfile f (\<lambda>x. x\<lparr>f_parent := Some dir, f_ctx := f_ctx (vfile v2 dir), f_size := sz, f_file := i\<rparr>) v2"
    have f: "f \<notin> L" "f \<notin> A" "owned (kh v2) (insert f L \<union> A)" using st Some by auto
    have ok2: "tree_ok v2 L K ext dp" using st by simp
    have g3: "vfile v3 g = vfile v2 g" if "g \<in> L" for g using that f(1) by (auto simp: v3_def)
    have ok3: "tree_ok v3 L K ext dp" by (rule tree_frame(1)[OF ok2 f(1) g3]) (simp_all add: v3_def)
    have "refs v3 L K ext dir = refs v2 L K ext dir" by (rule tree_frame(2)[OF ok2 f(1) g3 _ _ d]) (simp_all add: v3_def)
    then have r3: "refs v3 L K ext dir < 127" using r st d by simp
    have e: "ext f = 0" by (rule wfD(3)[OF wf f(1)])
    from tree_link[OF ok3 d r3 f(1) e] obtain c l where l: "list_add (f_children (vfile v3 dir)) f (vlinks v3) = Some (c, l)"
      "tree_ok (fs_file_get dir ((upd_vfile dir (\<lambda>x. x\<lparr>f_children := c\<rparr>) v3)\<lparr>vlinks := l\<rparr>)) (insert f L) (K(f := [], dir := K dir @ [f])) ext (dp(f := dp dir + 1))"
      "refs (fs_file_get dir ((upd_vfile dir (\<lambda>x. x\<lparr>f_children := c\<rparr>) v3)\<lparr>vlinks := l\<rparr>)) (insert f L) (K(f := [], dir := K dir @ [f])) ext f = 0"
      using st Some by (auto simp: v3_def)
    define w where "w = fs_file_get dir ((upd_vfile dir (\<lambda>x. x\<lparr>f_children := c\<rparr>) v3)\<lparr>vlinks := l\<rparr>)"
    have y: "y = (0, Some f, w)" using out Some i l(1) by (simp add: v3_def w_def)
    have ne: "f \<noteq> dir" using d f(1) by auto
    have "kh w = kh v2" "f_mountpoint (vfile w f) = None" using st Some ne by (simp_all add: w_def v3_def fs_file_get_def)
    moreover have "insert f L \<inter> A = {}" "\<forall>g. g \<notin> insert f L \<longrightarrow> ext g = 0" using f wfD(2,3)[OF wf] by auto
    ultimately have "vfs_wf w (insert f L) (K(f := [], dir := K dir @ [f])) ext A"
      unfolding vfs_wf_def using f(3) l(2) unfolding w_def[symmetric] by auto
    then show ?thesis using y l(3) f(1) \<open>f_mountpoint (vfile w f) = None\<close> unfolding from_dir_out_def w_def[symmetric] by auto
  qed
qed

text \<open>The laws of a file system towards this layer.\<close>

locale vfs_backend =
  fixes ops :: "'x optab"
  assumes readdir_tree: "op_readdir (ops k) d buf io i v = Some (e, res, w) \<Longrightarrow>
      same_tree v w \<and> (\<forall>de i'. res = Some (de, i') \<longrightarrow> length (c_string (d_name de)) \<le> 1000)"
    and create_tree: "op_create (ops k) d name attr v = Some (e, idx, w) \<Longrightarrow> same_tree v w"
begin

lemma open_from_dir_wf:
  assumes "fs_open_from_dir ops junk path dir sv = Some y"
    and "vfs_wf (snd sv) L K ext A" and "dir \<in> L" and "refs (snd sv) L K ext dir < 127"
  shows "from_dir_out (snd sv) L K ext A y"
proof -
  have "ops' = ops \<longrightarrow> vfs_wf (snd sv) L K ext A \<longrightarrow> dir \<in> L \<longrightarrow> refs (snd sv) L K ext dir < 127 \<longrightarrow> from_dir_out (snd sv) L K ext A y"
    if "fs_open_from_dir ops' junk path dir sv = Some y" for ops'
  proof (rule fs_open_from_dir.raw_induct[where P = "\<lambda>ops' junk path dir sv y. ops' = ops \<longrightarrow> vfs_wf (snd sv) L K ext A \<longrightarrow> dir \<in> L \<longrightarrow>
      refs (snd sv) L K ext dir < 127 \<longrightarrow> from_dir_out (snd sv) L K ext A y", OF _ that], goal_cases)
    case step: (1 rec ops' junk path dir sv y)
    show ?case
    proof (intro impI)
      assume ops: "ops' = ops" and wf: "vfs_wf (snd sv) L K ext A" and d: "dir \<in> L" and r: "refs (snd sv) L K ext dir < 127"
      let ?v = "snd sv"
      from step(2) obtain err res v1 where rd: "op_readdir (op_of ops ?v dir) dir (fst junk) (Some (snd junk)) (fst sv) ?v = Some (err, res, v1)"
        unfolding ops Let_def by (auto split: Option.bind_splits)
      note body = step(2)[unfolded ops Let_def rd, simplified]
      have t: "same_tree ?v v1" "\<And>de i'. res = Some (de, i') \<Longrightarrow> length (c_string (d_name de)) \<le> 1000"
        using readdir_tree[OF rd[unfolded op_of_def]] by auto
      have wf1: "vfs_wf v1 L K ext A" by (rule same_tree_wf[OF wf t(1)])
      have rr: "refs v1 = refs ?v" by (rule same_tree_refs[OF t(1)])
      have cong: "from_dir_out v1 L K ext A y \<Longrightarrow> from_dir_out ?v L K ext A y"
        unfolding from_dir_out_def rr .
      have again: "from_dir_out ?v L K ext A y" if "rec ops junk path dir (u16 (fst sv + 1), v1) = Some y"
        using step(1)[OF that] wf1 d r rr cong by simp
      show "from_dir_out ?v L K ext A y"
      proof (cases "err = - EAGAIN")
        case True
        then show ?thesis using body again by simp
      next
        case False
        show ?thesis
        proof (cases "err = 0")
          case False
          then have "y = (err, None, v1)" using body \<open>err \<noteq> - EAGAIN\<close> by simp
          then show ?thesis using False wf1 rr by (simp add: from_dir_out_def)
        next
          case True
          then obtain de i' where res: "res = Some (de, i')" using body by (cases res) (auto simp: EAGAIN_def)
          show ?thesis
          proof (cases "fs_namecmp path (c_string (d_name de)) = 0")
            case False
            then show ?thesis using body again True res by (simp add: EAGAIN_def)
          next
            case same: True
            from body True res same obtain s v2 where sp: "fs_file_spawn (c_string (d_name de)) (d_attr de) v1 = Some (s, v2)"
              by (auto simp: EAGAIN_def split: Option.bind_splits)
            have "from_dir_out v1 L K ext A y"
              by (rule found_wf[OF wf1 d _ t(2)[OF res] sp, where internal = i' and sz = "d_size de"])
                (use body True res same sp r rr in \<open>simp_all add: EAGAIN_def Let_def cong: option.case_cong\<close>)
            then show ?thesis by (rule cong)
          qed
        qed
      qed
    qed
  qed
  then show ?thesis using assms by blast
qed

end

section \<open>Lookup\<close>

lemma through_mount_in: "tree_ok v L K ext dp \<Longrightarrow> d \<in> L \<Longrightarrow> through_mount v d \<in> L"
  using tree_okD(6) by (auto simp: through_mount_def split: option.splits)

text \<open>One step of the search: the first child whose name is the first component of the path.\<close>

lemma children_find:
  assumes "tree_ok v L K ext dp" and "d \<in> L"
  shows "(case f_children (vfile v d) of None \<Rightarrow> Some None | Some h \<Rightarrow> find_child path (Some h) h v) =
    Some (List.find (\<lambda>f. fs_namecmp path (f_name (vfile v f)) = 0) (K d))"
proof (cases "f_children (vfile v d)")
  case None
  then show ?thesis using tree_okD(1)[OF assms] by simp
next
  case (Some h)
  then show ?thesis using tree_okD(1)[OF assms] find_child_ring[of v h "K d" path] by simp
qed

lemma lookup_loop_in:
  assumes "fs_lookup_loop path file' dir v = Some y" and ok: "tree_ok v L K ext dp" and "dir \<in> L" and "\<forall>x. file' = Some x \<longrightarrow> x \<in> L"
  shows "case y of (e, p, f, d) \<Rightarrow> e \<noteq> 0 \<and> d \<in> L \<and> (\<forall>x. f = Some x \<longrightarrow> x \<in> L)"
proof -
  let ?P = "\<lambda>y. case y of (e, p, f, d) \<Rightarrow> e \<noteq> 0 \<and> d \<in> L \<and> (\<forall>x. f = Some x \<longrightarrow> x \<in> L)"
  have "v' = v \<longrightarrow> dir \<in> L \<longrightarrow> (\<forall>x. file' = Some x \<longrightarrow> x \<in> L) \<longrightarrow> ?P y" if "fs_lookup_loop path file' dir v' = Some y" for v'
  proof (rule fs_lookup_loop.raw_induct[where P = "\<lambda>path file' dir v' y. v' = v \<longrightarrow> dir \<in> L \<longrightarrow>
      (\<forall>x. file' = Some x \<longrightarrow> x \<in> L) \<longrightarrow> ?P y", OF _ that], goal_cases)
    case step: (1 rec path file' dir v' y)
    show ?case
    proof (intro impI)
      assume v: "v' = v" and d: "dir \<in> L" and f: "\<forall>x. file' = Some x \<longrightarrow> x \<in> L"
      note t = through_mount_in[OF ok d]
      show "?P y"
      proof (cases "S_ISDIR (f_attr (vfile v dir))")
        case False
        then show ?thesis using step(2) v d f by (auto simp: ENOTDIR_def)
      next
        case True
        show ?thesis
        proof (cases "List.find (\<lambda>f. fs_namecmp path (f_name (vfile v f)) = 0) (K (through_mount v dir))")
          case None
          then show ?thesis using step(2)[unfolded v Let_def children_find[OF ok t]] True t by (auto simp: ENOENT_def)
        next
          case (Some g)
          then have "g \<in> L" using tree_okD(2)[OF ok t, of g] by (auto simp: find_Some_iff)
          moreover have "rec (fs_path_next path) (Some g) g v = Some y"
            using step(2)[unfolded v Let_def children_find[OF ok t]] True Some by simp
          ultimately show ?thesis using step(1)[of "fs_path_next path" "Some g" g v y] by blast
        qed
      qed
    qed
  qed
  from mp[OF mp[OF mp[OF this[OF assms(1)] refl] assms(3)] assms(4)] show ?thesis .
qed

lemma lookup_in:
  assumes "fs_lookup path v = Some (e, p, f, d)" and ok: "tree_ok v L K ext dp"
  shows "(\<forall>x. f = Some x \<longrightarrow> x \<in> L) \<and> (\<forall>x. d = Some x \<longrightarrow> x \<in> L)"
proof (cases "path = [] \<or> hd path \<noteq> 47")
  case True
  then show ?thesis using assms(1) by (auto simp: fs_lookup_def)
next
  case False
  define q where "q = dropWhile (\<lambda>c. c = 47) path"
  have b: "(if q = [] then Some (0, q, vroot v, vroot v)
      else do { r \<leftarrow> vroot v; (e, q, f, d) \<leftarrow> fs_lookup_loop q None r v; Some (e, q, f, Some d) }) = Some (e, p, f, d)"
    using assms(1) False unfolding fs_lookup_def Let_def q_def[symmetric] by (simp split del: if_split)
  show ?thesis
  proof (cases "q = []")
    case True
    then show ?thesis using b tree_ok_root[OF ok] by auto
  next
    case False
    then obtain r d' where r: "vroot v = Some r" "fs_lookup_loop q None r v = Some (e, p, f, d')" "d = Some d'"
      using b by (auto split: Option.bind_splits)
    then show ?thesis using lookup_loop_in[OF r(2) ok tree_ok_root[OF ok r(1)]] by simp
  qed
qed

context vfs_backend
begin

text \<open>The file that \<open>*file\<close> points at is live and can take another reference.\<close>

definition walk_out :: "nat set \<Rightarrow> (nat \<Rightarrow> nat) \<Rightarrow> nat set \<Rightarrow> int \<times> nat option \<times> 'x vfs \<Rightarrow> bool" where
  "walk_out L ext A y \<longleftrightarrow> (case y of (e, f, w) \<Rightarrow> \<exists>L' K'. L \<subseteq> L' \<and> vfs_wf w L' K' ext A \<and> (\<forall>x. f = Some x \<longrightarrow> x \<in> L' \<and> refs w L' K' ext x < 127))"

lemma walk_outI: "vfs_wf w L K ext A \<Longrightarrow> (\<And>x. f = Some x \<Longrightarrow> x \<in> L \<and> refs w L K ext x < 127) \<Longrightarrow> walk_out L ext A (e, f, w)"
  by (auto simp: walk_out_def)

lemma walk_out_mono: "walk_out L ext A y \<Longrightarrow> M \<subseteq> L \<Longrightarrow> walk_out M ext A y"
  unfolding walk_out_def by (cases y) (simp, metis subset_trans)

text \<open>Looking a component up, and creating it if it is not there.\<close>

lemma step_wf:
  assumes "fs_open_from_dir ops junk path d (0, v) = Some (e, fnew, v2)" and wf: "vfs_wf v L K ext A" and d: "d \<in> L" and r: "refs v L K ext d < 127"
    and "(if e = - ENOENT \<and> cr then do {
             (ec, idx, vc) \<leftarrow> op_create (op_of ops v2 d) d path attr v2;
             (if ec = 0 then fs_open_from_dir ops junk path d (idx, vc) else Some (ec, None, vc)) }
           else Some (e, fnew, v2)) = Some y"
  shows "from_dir_out v L K ext A y"
proof -
  have o: "from_dir_out v L K ext A (e, fnew, v2)" using open_from_dir_wf[OF assms(1)] wf d r by simp
  show ?thesis
  proof (cases "e = - ENOENT \<and> cr")
    case False
    then have "y = (e, fnew, v2)" using assms(5) by auto
    then show ?thesis using o by simp
  next
    case True
    then have n: "fnew = None" using o by (auto simp: from_dir_out_def ENOENT_def split: option.splits)
    then have w2: "vfs_wf v2 L K ext A" "\<forall>x \<in> L. refs v2 L K ext x = refs v L K ext x" using o by (simp_all add: from_dir_out_def)
    from True assms(5) obtain ec idx vc where c: "op_create (op_of ops v2 d) d path attr v2 = Some (ec, idx, vc)"
      "(if ec = 0 then fs_open_from_dir ops junk path d (idx, vc) else Some (ec, None, vc)) = Some y"
      by (auto split: Option.bind_splits)
    have t: "same_tree v2 vc" by (rule create_tree[OF c(1)[unfolded op_of_def]])
    have wc: "vfs_wf vc L K ext A" "refs vc = refs v2" by (rule same_tree_wf[OF w2(1) t], rule same_tree_refs[OF t])
    show ?thesis
    proof (cases "ec = 0")
      case True
      then have "from_dir_out vc L K ext A y" using open_from_dir_wf[of junk path d "(idx, vc)" y L K ext A] c(2) wc d r w2(2) by simp
      then show ?thesis using wc(2) w2(2) by (cases y; cases "fst (snd y)") (simp_all add: from_dir_out_def)
    next
      case False
      then have "y = (ec, None, vc)" using c(2) by simp
      then show ?thesis using False wc w2(2) by (simp add: from_dir_out_def)
    qed
  qed
qed

lemma walk_wf:
  assumes "fs_open_walk ops junk path mode attr file' dir v = Some y"
    and "vfs_wf v L K ext A" and "dir \<in> L" and "\<forall>x \<in> L. refs v L K ext x < 127 \<or> x \<noteq> through_mount v dir \<and> file' \<noteq> Some x"
    and "\<forall>x. file' = Some x \<longrightarrow> x \<in> L"
  shows "walk_out L ext A y"
  using assms
proof (induction path arbitrary: dir v file' L K rule: measure_induct_rule[of length])
  case (less path)
  note wf = less.prems(2)
  obtain dp where ok: "tree_ok v L K ext dp" using wfD(4)[OF wf] by blast
  have fx: "x \<in> L \<and> refs v L K ext x < 127" if "file' = Some x" for x using less.prems(4,5) that by auto
  note body = less.prems(1)[unfolded fs_open_walk.simps[of ops junk path mode attr file' dir v]]
  show ?case
  proof (cases "path = [] \<or> \<not> S_ISDIR (f_attr (vfile v dir))")
    case True
    then have "\<exists>e. y = (e, file', v)" using body by (auto split: if_splits)
    then show ?thesis using walk_outI[OF wf fx] by auto
  next
    case False
    define d where "d = through_mount v dir"
    have d: "d \<in> L" "refs v L K ext d < 127" using through_mount_in[OF ok less.prems(3)] less.prems(4) by (auto simp: d_def)
    from body False obtain v1 where l: "vlock (Some d) v = Some v1" by (auto simp: d_def Let_def split: Option.bind_splits)
    have w1: "vfs_wf v1 L K ext A" using wf_vlock[OF l] wf by simp
    have r1: "refs v1 = refs v" using l by (auto simp: fun_eq_iff refs_def held_def vlock_def split: if_splits)
    from body False l obtain e fnew v2 where o: "fs_open_from_dir ops junk path d (0, v1) = Some (e, fnew, v2)"
      by (auto simp: d_def Let_def split: Option.bind_splits)
    let ?cr = "mode AND O_CREAT \<noteq> 0 \<and> fs_is_tail path"
    from body False l o obtain e2 fnew2 v3 where c: "(if e = - ENOENT \<and> ?cr then do {
             (ec, idx, vc) \<leftarrow> op_create (op_of ops v2 d) d path attr v2;
             (if ec = 0 then fs_open_from_dir ops junk path d (idx, vc) else Some (ec, None, vc)) }
           else Some (e, fnew, v2)) = Some (e2, fnew2, v3)"
      by (auto simp: d_def[symmetric] Let_def split: Option.bind_splits)
    have out: "from_dir_out v1 L K ext A (e2, fnew2, v3)" by (rule step_wf[OF o w1 d(1) _ c]) (simp add: r1 d(2))
    define v4 where "v4 = vunlock (Some d) v3"
    have r4: "refs v4 = refs v3" by (simp add: fun_eq_iff refs_def held_def v4_def vunlock_def)
    have rest: "(if e2 \<noteq> 0 then Some (e2, if fnew2 = None then file' else fnew2, v4)
        else do { nd \<leftarrow> (if fnew2 = None then file' else fnew2);
          fs_open_walk ops junk (fs_path_next path) mode attr (if fnew2 = None then file' else fnew2) nd v4 }) = Some y"
      unfolding v4_def using body False l o c by (simp add: d_def[symmetric] Let_def split del: if_split)
    show ?thesis
    proof (cases fnew2)
      case None
      then have n: "e2 \<noteq> 0" "vfs_wf v4 L K ext A" "\<forall>x \<in> L. refs v4 L K ext x = refs v L K ext x"
        using out r4 r1 by (simp_all add: from_dir_out_def v4_def)
      then have "y = (e2, file', v4)" using rest None by simp
      then show ?thesis using walk_outI[OF n(2)] fx n(3) by auto
    next
      case (Some f)
      then obtain K' where k: "e2 = 0" "f_mountpoint (vfile v4 f) = None" "vfs_wf v4 (insert f L) K' ext A" "refs v4 (insert f L) K' ext f = 0"
        using out r4 by (auto simp: from_dir_out_def v4_def) (simp add: vunlock_def)
      have w: "fs_open_walk ops junk (fs_path_next path) mode attr (Some f) f v4 = Some y" using rest Some k(1) by simp
      have "walk_out (insert f L) ext A y"
        by (rule less.IH[OF fs_path_next_less w k(3)]) (use False k(2,4) in \<open>auto simp: through_mount_def\<close>)
      then show ?thesis by (rule walk_out_mono) auto
    qed
  qed
qed

end

context vfs_backend
begin

lemma open_locked_wf:
  assumes op: "fs_open_locked ops junk path f0 mode attr v = Some (e, f, w)" and wf: "vfs_wf v L K ext A"
    and r: "\<forall>x \<in> L. refs v L K ext x < 127"
  shows "\<exists>L' K'. (e = 0 \<longrightarrow> (\<exists>x. f = Some x \<and> vfs_wf w L' K' (ext(x := ext x + 1)) A)) \<and> (e \<noteq> 0 \<longrightarrow> vfs_wf w L' K' ext A)"
proof -
  obtain dp where ok: "tree_ok v L K ext dp" using wfD(4)[OF wf] by blast
  from op obtain err p f1 dir where l: "fs_lookup path v = Some (err, p, f1, dir)"
    by (auto simp: fs_open_locked_def split: Option.bind_splits)
  note li = lookup_in[OF l ok]
  show ?thesis
  proof (cases "err = - EINVAL \<or> err \<noteq> 0 \<and> dir = None")
    case True
    then have "e = err" "w = v" "e \<noteq> 0" using op l by (auto simp: fs_open_locked_def EINVAL_def)
    then show ?thesis using wf by auto
  next
    case False
    define walk where "walk = (if err \<noteq> 0 then do { d \<leftarrow> dir; fs_open_walk ops junk p mode attr f1 d v } else Some (0, f1, v))"
    have b: "do { (e, file2, v1) \<leftarrow> walk; (case file2 of
           None \<Rightarrow> Some (- ENOENT, None, v1)
         | Some f \<Rightarrow>
             if e = 0 then Some (0, Some f, fs_file_get f v1)
             else do { v2 \<leftarrow> fs_file_put f (fs_file_get f v1); Some (e, Some f, v2) }) } = Some (e, f, w)"
      using op l False unfolding fs_open_locked_def walk_def by (simp split del: if_split)
    then obtain e1 f2 v1 where wk: "walk = Some (e1, f2, v1)" by (auto split: Option.bind_splits)
    have "walk_out L ext A (e1, f2, v1)"
    proof (cases "err = 0")
      case True
      then have "f2 = f1" "v1 = v" using wk by (simp_all add: walk_def)
      then show ?thesis using walk_outI[OF wf] li r by auto
    next
      case False
      then obtain d where d: "dir = Some d" "fs_open_walk ops junk p mode attr f1 d v = Some (e1, f2, v1)"
        using wk by (auto simp: walk_def split: Option.bind_splits)
      show ?thesis by (rule walk_wf[OF d(2) wf]) (use li d(1) r in auto)
    qed
    then obtain L' K' where o: "vfs_wf v1 L' K' ext A" "\<forall>x. f2 = Some x \<longrightarrow> x \<in> L' \<and> refs v1 L' K' ext x < 127"
      by (auto simp: walk_out_def)
    show ?thesis
    proof (cases f2)
      case None
      then have "e \<noteq> 0" "w = v1" using b wk by (auto simp: ENOENT_def)
      then show ?thesis using o(1) by blast
    next
      case (Some x)
      then have g: "vfs_wf (fs_file_get x v1) L' K' (ext(x := ext x + 1)) A" using get_wf[OF o(1)] o(2) by simp
      show ?thesis
      proof (cases "e1 = 0")
        case True
        then have "e = 0" "f = Some x" "w = fs_file_get x v1" using b wk Some by simp_all
        then show ?thesis using g by blast
      next
        case False
        have "ext(x := ext x + 1, x := (ext(x := ext x + 1)) x - 1) = ext" by auto
        with put_wf[OF g, of x] obtain v2 L2 K2 where p: "fs_file_put x (fs_file_get x v1) = Some v2" "vfs_wf v2 L2 K2 ext A" by auto
        then have "e \<noteq> 0" "w = v2" using b wk Some False by simp_all
        then show ?thesis using p(2) by blast
      qed
    qed
  qed
qed

lemma open_wf:
  assumes op: "fs_open ops junk path f0 mode attr v = Some (e, f, w)" and wf: "vfs_wf v L K ext A"
    and r: "\<forall>x \<in> L. refs v L K ext x < 127"
  shows "\<exists>L' K'. (e = 0 \<longrightarrow> (\<exists>x. f = Some x \<and> vfs_wf w L' K' (ext(x := ext x + 1)) A)) \<and> (e \<noteq> 0 \<longrightarrow> vfs_wf w L' K' ext A)"
proof -
  from op obtain v1 w1 where v1: "vlock None v = Some v1" "fs_open_locked ops junk path f0 mode attr v1 = Some (e, f, w1)" "w = vunlock None w1"
    by (auto simp: fs_open_def split: Option.bind_splits)
  have "refs v1 = refs v" using v1(1) by (auto simp: fun_eq_iff refs_def held_def vlock_def split: if_splits)
  then show ?thesis using open_locked_wf[OF v1(2), of L K ext A] wf_vlock[OF v1(1)] wf r v1(3) by simp
qed

end

lemma close_wf:
  assumes wf: "vfs_wf v L K ext A" and e: "0 < ext f" and l: "\<not> vlocks v None"
  shows "\<exists>v' L' K'. fs_close f v = Some (0, v') \<and> vfs_wf v' L' K' (ext(f := ext f - 1)) A \<and> L' \<subseteq> L \<and> same_files L' v v' \<and>
    (\<forall>g \<in> L'. 0 < f_nrefs (vfile v g) \<longrightarrow> 0 < f_nrefs (vfile v' g))"
proof -
  define v1 where "v1 = v\<lparr>vlocks := (vlocks v)(None := True)\<rparr>"
  have v1: "vlock None v = Some v1" using l by (simp add: vlock_def v1_def)
  have wf1: "vfs_wf v1 L K ext A" using wf_vlock[OF v1] wf by simp
  from put_wf[OF wf1 e] obtain v2 L' K' where p: "fs_file_put f v1 = Some v2" "vfs_wf v2 L' K' (ext(f := ext f - 1)) A" "L' \<subseteq> L" "same_files L' v1 v2"
    "\<forall>g \<in> L'. 0 < f_nrefs (vfile v1 g) \<longrightarrow> 0 < f_nrefs (vfile v2 g)" by blast
  have "same_files L' v (vunlock None v2)" using p(4) l by (auto simp: same_files_def v1_def vunlock_def fun_eq_iff)
  moreover have "fs_close f v = Some (0, vunlock None v2)" using v1 p(1) by (simp add: fs_close_def)
  moreover have "\<forall>g \<in> L'. 0 < f_nrefs (vfile v g) \<longrightarrow> 0 < f_nrefs (vfile (vunlock None v2) g)"
    using p(5) by (simp add: v1_def vunlock_def)
  moreover have "vfs_wf (vunlock None v2) L' K' (ext(f := ext f - 1)) A" using p(2) wf_lock by simp
  ultimately show ?thesis using p(3) by blast
qed

section \<open>Properties\<close>

text \<open>C4. Closing a file gives its reference back: in a well-formed tree \<open>fs_close\<close> always succeeds. A file that had
  references and has none afterwards is unlinked and its block of the heap is freed, up the chain of directories; the
  blocks in use are those of the remaining files and the blocks \<open>A\<close> of others, every file that stays is as it was, and
  all counts are right again.\<close>

theorem fs_close_releases:
  assumes "vfs_wf v L K ext A" and "0 < ext f" and "\<not> vlocks v None"
  shows "\<exists>v' L' K'. fs_close f v = Some (0, v') \<and> vfs_wf v' L' K' (ext(f := ext f - 1)) A \<and> L' \<subseteq> L \<and> same_files L' v v' \<and>
    owned (kh v') (L' \<union> A) \<and>
    (\<forall>g \<in> L'. 0 < refs v L K ext g \<longrightarrow> 0 < refs v' L' K' (ext(f := ext f - 1)) g)"
proof -
  from close_wf[OF assms] obtain v' L' K' where c: "fs_close f v = Some (0, v')" "vfs_wf v' L' K' (ext(f := ext f - 1)) A" "L' \<subseteq> L"
    "same_files L' v v'" "\<forall>g \<in> L'. 0 < f_nrefs (vfile v g) \<longrightarrow> 0 < f_nrefs (vfile v' g)" by blast
  have "0 < refs v' L' K' (ext(f := ext f - 1)) g" if g: "g \<in> L'" "0 < refs v L K ext g" for g
  proof -
    have "f_nrefs (vfile v g) = int (refs v L K ext g)" using wfD(4)[OF assms(1)] tree_okD(4) g(1) c(3) by blast
    moreover have "f_nrefs (vfile v' g) = int (refs v' L' K' (ext(f := ext f - 1)) g)" using wfD(4)[OF c(2)] tree_okD(4) g(1) by blast
    ultimately show ?thesis using c(5) g by (metis of_nat_0_less_iff)
  qed
  then show ?thesis using c wfD(1)[OF c(2)] by blast
qed

text \<open>A regular file in the cache of the root directory opens without asking the file system, and nothing changes but its
  reference count.\<close>

theorem fs_open_cached_file:
  assumes "\<not> vlocks v None" and "vroot v = Some r" and "S_ISDIR (f_attr (vfile v r))" and "f_mountpoint (vfile v r) = None"
    and "cyc (vlinks v) (f_children (vfile v r)) ks" and "p \<noteq> []" and "hd p \<noteq> 47" and "fs_path_next p = []"
    and "List.find (\<lambda>g. fs_namecmp p (f_name (vfile v g)) = 0) ks = Some f" and "\<not> S_ISDIR (f_attr (vfile v f))"
  shows "fs_open ops junk (47 # p) f0 mode attr v = Some (0, Some f, fs_file_get f v)"
proof -
  define v1 where "v1 = v\<lparr>vlocks := (vlocks v)(None := True)\<rparr>"
  have v1: "vfile v1 = vfile v" "vlinks v1 = vlinks v" "vroot v1 = vroot v" by (simp_all add: v1_def)
  have "ks \<noteq> []" using assms(9) by auto
  then obtain h where h: "f_children (vfile v r) = Some h" using assms(5) by (cases "f_children (vfile v r)") auto
  have "find_child p (Some h) h v1 = Some (Some f)"
    using find_child_ring[of v1 h ks p] assms(5,9) h by (simp add: v1)
  then have "fs_lookup_loop p None r v1 = fs_lookup_loop [] (Some f) f v1"
    using assms(3,4,8) h by (subst fs_lookup_loop.simps) (simp add: through_mount_def v1 Let_def)
  also have "\<dots> = Some (- ENOTDIR, [], Some f, f)" using assms(10) by (subst fs_lookup_loop.simps) (simp add: v1)
  finally have l: "fs_lookup (47 # p) v1 = Some (- ENOTDIR, [], Some f, Some f)"
    using assms(2,6,7) by (cases p) (auto simp: fs_lookup_def v1 Let_def)
  have "vunlock None (fs_file_get f v1) = fs_file_get f v"
    using assms(1) by (simp add: vunlock_def fs_file_get_def upd_vfile_def v1_def fun_upd_idem)
  then show ?thesis using l assms(1)
    by (simp add: fs_open_def vlock_def v1_def[symmetric] fs_open_locked_def fs_open_walk.simps ENOTDIR_def EINVAL_def)
qed

text \<open>C33. A directory in the cache cannot be opened while it is there: the lookup does not stop at the end of the path, looks for
  a child with an empty name, and \<open>fs_open\<close> returns \<open>-ENOENT\<close>.\<close>

theorem fs_open_cached_dir_fails:
  assumes "\<not> vlocks v None" and "vroot v = Some r" and "S_ISDIR (f_attr (vfile v r))" and "f_mountpoint (vfile v r) = None"
    and "cyc (vlinks v) (f_children (vfile v r)) ks" and "p \<noteq> []" and "hd p \<noteq> 47" and "fs_path_next p = []"
    and "List.find (\<lambda>g. fs_namecmp p (f_name (vfile v g)) = 0) ks = Some d" and "S_ISDIR (f_attr (vfile v d))"
    and "f_mountpoint (vfile v d) = None" and "cyc (vlinks v) (f_children (vfile v d)) ds" and "\<forall>c \<in> set ds. f_name (vfile v c) \<noteq> []"
  shows "fs_open ops junk (47 # p) f0 mode attr v = Some (- ENOENT, None, v)"
proof -
  define v1 where "v1 = v\<lparr>vlocks := (vlocks v)(None := True)\<rparr>"
  have v1: "vfile v1 = vfile v" "vlinks v1 = vlinks v" "vroot v1 = vroot v" by (simp_all add: v1_def)
  have "ks \<noteq> []" using assms(9) by auto
  then obtain h where h: "f_children (vfile v r) = Some h" using assms(5) by (cases "f_children (vfile v r)") auto
  have "find_child p (Some h) h v1 = Some (Some d)"
    using find_child_ring[of v1 h ks p] assms(5,9) h by (simp add: v1)
  then have "fs_lookup_loop p None r v1 = fs_lookup_loop [] (Some d) d v1"
    using assms(3,4,8) h by (subst fs_lookup_loop.simps) (simp add: through_mount_def v1 Let_def)
  also have "\<dots> = Some (- ENOENT, [], None, d)"
  proof -
    have "fs_namecmp [] (f_name (vfile v c)) \<noteq> 0" if "c \<in> set ds" for c
      using assms(13) that by (cases "f_name (vfile v c)") auto
    then have "List.find (\<lambda>g. fs_namecmp [] (f_name (vfile v g)) = 0) ds = None" by (auto simp: find_None_iff)
    then have "(case f_children (vfile v d) of None \<Rightarrow> Some None | Some h \<Rightarrow> find_child [] (Some h) h v1) = Some None"
      using assms(12) find_child_ring[of v1 _ ds "[]"] by (cases "f_children (vfile v d)") (auto simp: v1)
    then show ?thesis using assms(10,11) by (subst fs_lookup_loop.simps) (simp add: through_mount_def v1 Let_def)
  qed
  finally have l: "fs_lookup (47 # p) v1 = Some (- ENOENT, [], None, Some d)"
    using assms(2,6,7) by (cases p) (auto simp: fs_lookup_def v1 Let_def)
  have "vunlock None v1 = v" using assms(1) by (simp add: vunlock_def v1_def fun_upd_idem)
  then show ?thesis using l assms(1)
    by (simp add: fs_open_def vlock_def v1_def[symmetric] fs_open_locked_def fs_open_walk.simps ENOENT_def EINVAL_def)
qed

text \<open>Instances: a root directory at 1000 with a regular file at 1040 and a directory at 1080.\<close>

definition demo_node :: "nat option \<Rightarrow> nat option \<Rightarrow> int \<Rightarrow> nat \<Rightarrow> nat list \<Rightarrow> fs_file" where
  "demo_node par ch n attr name = \<lparr>f_file = \<lparr>fat_cluster = 0, fat_idx = 0, devfs_entry = None\<rparr>, f_parent = par, f_mountpoint = None,
     f_nrefs = n, f_children = ch, f_attr = attr, f_size = 0, f_ctx = 0, f_name = name\<rparr>"

definition demo_vfs :: "unit vfs" where
  "demo_vfs = \<lparr>kh = \<lparr>khdr = (\<lambda>a. if a = 996 then \<lparr>h_size = 33, h_next = Some 1032\<rparr> else if a = 1032 then \<lparr>h_size = 33, h_next = Some 1068\<rparr>
        else \<lparr>h_size = 33, h_next = None\<rparr>), kbytes = (\<lambda>_. 0), kheap = Some 996, khint = None, klocked = False\<rparr>,
     vroot = Some 1000, vfile = (\<lambda>f. if f = 1000 then demo_node None (Some 1036) 3 S_IFDIR []
        else if f = 1036 then demo_node (Some 1000) None 1 S_IFREG [65] else demo_node (Some 1000) None 1 S_IFDIR [66]),
     vlinks = \<lparr>next_of = (\<lambda>f. if f = 1036 then Some 1072 else Some 1036), prev_of = (\<lambda>f. if f = 1036 then Some 1072 else Some 1036)\<rparr>,
     vctx = (\<lambda>_. \<lparr>c_op = 0, c_cb = 0\<rparr>), vlocks = (\<lambda>_. False), vdev = ()\<rparr>"

lemma demo_cyc: "cyc (vlinks demo_vfs) (Some 1036) [1036, 1072]"
  by (simp add: cyc_def demo_vfs_def)

theorem fs_open_cached_file_witness:
  "\<forall>ops junk. fs_open ops junk [47, 65] None O_RDONLY 0 demo_vfs = Some (0, Some 1036, fs_file_get 1036 demo_vfs)"
  by (intro allI, rule fs_open_cached_file[where r = 1000 and ks = "[1036, 1072]"])
    (use demo_cyc in \<open>simp_all add: demo_vfs_def demo_node_def mode_defs fs_path_next_def\<close>)

theorem fs_open_cached_dir_fails_witness:
  "\<forall>ops junk. fs_open ops junk [47, 66] None O_RDONLY 0 demo_vfs = Some (- ENOENT, None, demo_vfs)"
  by (intro allI, rule fs_open_cached_dir_fails[where r = 1000 and ks = "[1036, 1072]" and d = 1072 and ds = "[]"])
    (use demo_cyc in \<open>simp_all add: demo_vfs_def demo_node_def mode_defs fs_path_next_def\<close>)

lemma demo_wf: "vfs_wf demo_vfs {1000, 1036, 1072} ((\<lambda>_. [])(1000 := [1036, 1072])) ((\<lambda>_. 0)(1036 := 1, 1072 := 1)) {}"
proof -
  have "heap_ok (kh demo_vfs) 996 1104 [(996, 32, True), (1032, 32, True), (1068, 32, True)]"
    by (simp add: heap_ok_def heap_rep_def demo_vfs_def blk_ok_def knext_def no_free_pair_def hint_ok_def HDR_def)
  then have o: "owned (kh demo_vfs) {1000, 1036, 1072}"
    by (rule ownedI) (auto simp: HDR_def)
  have h: "held demo_vfs {1000, 1036, 1072} f \<longleftrightarrow> f = 1000" for f by (auto simp: held_def demo_vfs_def demo_node_def)
  have "tree_ok demo_vfs {1000, 1036, 1072} ((\<lambda>_. [])(1000 := [1036, 1072])) ((\<lambda>_. 0)(1036 := 1, 1072 := 1)) ((\<lambda>_. 1)(1000 := 0))"
    using demo_cyc unfolding tree_ok_def file_ok_def refs_def h by (simp add: demo_vfs_def demo_node_def)
  then show ?thesis using o unfolding vfs_wf_def by auto
qed

text \<open>The file at 1036 has one reference: closing it frees its block.\<close>

theorem fs_close_releases_witness:
  "\<exists>v' L' K'. fs_close 1036 demo_vfs = Some (0, v') \<and> vfs_wf v' L' K' ((\<lambda>_. 0)(1072 := 1)) {} \<and> owned (kh v') L' \<and> 1036 \<notin> L'"
proof -
  let ?ext = "(\<lambda>_. 0)(1036 := 1, 1072 := (1 :: nat))"
  have x: "?ext(1036 := ?ext (1036 :: nat) - 1) = (\<lambda>_ :: nat. 0 :: nat)(1072 := 1)"
    by (simp add: fun_eq_iff)
  from fs_close_releases[OF demo_wf, of 1036] obtain v' L' K' where c: "fs_close 1036 demo_vfs = Some (0, v')"
    "vfs_wf v' L' K' ((\<lambda>_. 0)(1072 := 1)) {}" "L' \<subseteq> {1000, 1036, 1072}" "same_files L' demo_vfs v'"
    "\<forall>g \<in> L'. 0 < refs demo_vfs {1000, 1036, 1072} ((\<lambda>_. [])(1000 := [1036, 1072])) ?ext g \<longrightarrow> 0 < refs v' L' K' ((\<lambda>_. 0)(1072 := 1)) g"
    unfolding x by (auto simp: demo_vfs_def)
  have "f_mountpoint (vfile v' d) = None" if "d \<in> L'" for d using c(4) that by (simp add: same_files_def demo_vfs_def demo_node_def)
  moreover have "vroot v' = Some 1000" using c(4) by (simp add: same_files_def demo_vfs_def)
  moreover have "K' 1036 = []" if "1036 \<in> L'"
  proof -
    obtain dp where t: "tree_ok v' L' K' ((\<lambda>_. 0)(1072 := 1)) dp" using wfD(4)[OF c(2)] by blast
    have "f_parent (vfile v' g) \<noteq> Some 1036" if "g \<in> L'" for g
      using c(4) that by (auto simp: same_files_def demo_vfs_def demo_node_def)
    then show ?thesis using tree_okD(2)[OF t \<open>1036 \<in> L'\<close>, of "hd (K' 1036)"] by (cases "K' 1036") auto
  qed
  ultimately have "1036 \<notin> L'" using c(5) by (auto simp: refs_def held_def)
  then show ?thesis using c(1,2) wfD(1)[OF c(2)] by auto
qed

end
