(* ===== verification/File.thy ===== *)
theory File
  imports FsTree
begin

text \<open>
  File descriptors, \<open>kernel/proc/file.c\<close>, over the file system layer of \<open>Fs\<close>: open files with their
  offset and reference count at addresses in the kernel heap, and one table of 16 descriptors per
  process. The calling process is the parameter \<open>me\<close>. The locks of \<open>common\<close>, of the processes and of
  the open files are flags; taking one that is held blocks (\<open>None\<close>), as in \<open>Fs\<close>.
\<close>

record open_file =
  o_file :: nat
  o_offset :: nat
  o_refs :: nat
  o_lock :: bool

type_synonym fdtable = "(nat option \<times> nat) list"

record 'x fstate =
  fsys :: "'x vfs"
  ofile :: "nat \<Rightarrow> open_file"
  fdt :: "nat \<Rightarrow> fdtable"
  clock :: bool
  plock :: "nat \<Rightarrow> bool"

definition FDS :: nat where "FDS = 16"

text \<open>\<open>sizeof(struct file_open)\<close>\<close>

definition FILE_OPEN_SIZE :: nat where "FILE_OPEN_SIZE = 10"

definition upd_ofile :: "nat \<Rightarrow> (open_file \<Rightarrow> open_file) \<Rightarrow> 'x fstate \<Rightarrow> 'x fstate" where
  "upd_ofile a g s = s\<lparr>ofile := (ofile s)(a := g (ofile s a))\<rparr>"

definition set_fd :: "nat \<Rightarrow> nat \<Rightarrow> nat option \<times> nat \<Rightarrow> 'x fstate \<Rightarrow> 'x fstate" where
  "set_fd p i e s = s\<lparr>fdt := (fdt s)(p := (fdt s p)[i := e])\<rparr>"

text \<open>Reading the table out of its bounds is undefined.\<close>

definition get_fd :: "nat \<Rightarrow> nat \<Rightarrow> 'x fstate \<Rightarrow> (nat option \<times> nat) option" where
  "get_fd p i s = (if i < length (fdt s p) then Some (fdt s p ! i) else None)"

definition file_locks :: "nat \<Rightarrow> 'x fstate \<Rightarrow> 'x fstate option" where
  "file_locks p s = (if clock s \<or> plock s p then None else Some (s\<lparr>clock := True, plock := (plock s)(p := True)\<rparr>))"

definition file_unlocks :: "nat \<Rightarrow> 'x fstate \<Rightarrow> 'x fstate" where
  "file_unlocks p s = s\<lparr>clock := False, plock := (plock s)(p := False)\<rparr>"

text \<open>\<open>file_fd_resolve\<close>: the open file and the flags.\<close>

definition file_fd_resolve :: "nat \<Rightarrow> int \<Rightarrow> 'x fstate \<Rightarrow> ((nat \<times> nat) option \<times> 'x fstate) option" where
  "file_fd_resolve me fd s0 =
     (if fd < 0 \<or> fd > int FDS then Some (None, s0)
      else do {
        s \<leftarrow> file_locks me s0;
        (o', flags) \<leftarrow> get_fd me (nat fd) s;
        (case o' of
           None \<Rightarrow> Some (None, file_unlocks me s)
         | Some a \<Rightarrow> Some (Some (a, flags), file_unlocks me (upd_ofile a (\<lambda>x. x\<lparr>o_refs := u8 (o_refs x + 1)\<rparr>) s))) })"

text \<open>\<open>_file_file_put\<close>\<close>

definition file_put_locked :: "nat \<Rightarrow> 'x fstate \<Rightarrow> 'x fstate option" where
  "file_put_locked a s0 = (let s = upd_ofile a (\<lambda>x. x\<lparr>o_refs := sub8 (o_refs x) 1\<rparr>) s0 in
     if o_refs (ofile s a) = 0 then do {
       (_, v) \<leftarrow> fs_close (o_file (ofile s a)) (fsys s);
       h \<leftarrow> kfree (Some a) (kh v);
       Some (s\<lparr>fsys := v\<lparr>kh := h\<rparr>\<rparr>) }
     else Some s)"

definition file_file_put :: "nat \<Rightarrow> 'x fstate \<Rightarrow> 'x fstate option" where
  "file_file_put a s = do {
     check (\<not> clock s);
     s1 \<leftarrow> file_put_locked a (s\<lparr>clock := True\<rparr>);
     Some (s1\<lparr>clock := False\<rparr>) }"

section \<open>Tables\<close>

text \<open>The loop of \<open>file_fdtable_copy\<close> over the entries from \<open>fd\<close> on.\<close>

fun copy_refs :: "(nat option \<times> nat) list \<Rightarrow> 'x fstate \<Rightarrow> 'x fstate" where
  "copy_refs [] s = s"
| "copy_refs ((None, _) # es) s = copy_refs es s"
| "copy_refs ((Some a, _) # es) s = copy_refs es (upd_ofile a (\<lambda>x. x\<lparr>o_refs := u8 (o_refs x + 1)\<rparr>) s)"

definition file_fdtable_copy :: "nat \<Rightarrow> nat \<Rightarrow> 'x fstate \<Rightarrow> 'x fstate option" where
  "file_fdtable_copy parent child s0 = do {
     s \<leftarrow> file_locks parent s0;
     let s1 = s\<lparr>fdt := (fdt s)(child := fdt s parent)\<rparr>;
     Some (file_unlocks parent (copy_refs (fdt s1 child) s1)) }"

text \<open>The first free descriptor from \<open>i\<close> on.\<close>

fun free_fd :: "fdtable \<Rightarrow> nat \<Rightarrow> nat option" where
  "free_fd [] i = None"
| "free_fd ((None, _) # es) i = Some i"
| "free_fd ((Some _, _) # es) i = free_fd es (i + 1)"

text \<open>The end of \<open>file_open\<close>: the new open file \<open>a\<close> gets a descriptor or is given up again.\<close>

definition install_fd :: "nat \<Rightarrow> nat \<Rightarrow> nat \<Rightarrow> nat \<Rightarrow> 'x fstate \<Rightarrow> (int \<times> 'x fstate) option" where
  "install_fd me a f mode s = do {
     s6 \<leftarrow> file_locks me s;
     (case free_fd (fdt s6 me) 0 of
        Some fd \<Rightarrow> Some (int fd, file_unlocks me (set_fd me fd (Some a, mode) s6))
      | None \<Rightarrow> do {
          let s7 = file_unlocks me s6;
          (_, v4) \<leftarrow> fs_close f (fsys s7);
          h4 \<leftarrow> kfree (Some a) (kh v4);
          Some (- ENFILE, s7\<lparr>fsys := v4\<lparr>kh := h4\<rparr>\<rparr>) }) }"

text \<open>From the test for \<open>O_TRUNC\<close> on.\<close>

definition open_truncated :: "'x optab \<Rightarrow> nat \<Rightarrow> nat \<Rightarrow> nat \<Rightarrow> nat \<Rightarrow> 'x fstate \<Rightarrow> (int \<times> 'x fstate) option" where
  "open_truncated ops me a f mode s3 = do {
     (err2, v2) \<leftarrow> (if mode AND O_TRUNC \<noteq> 0 then fs_truncate ops f 0 (fsys s3) else Some (0, fsys s3));
     let s4 = s3\<lparr>fsys := v2\<rparr>;
     (if err2 \<noteq> 0 then do {
        (_, v3) \<leftarrow> fs_close f v2; h3 \<leftarrow> kfree (Some a) (kh v3); Some (err2, s4\<lparr>fsys := v3\<lparr>kh := h3\<rparr>\<rparr>) }
      else install_fd me a f mode
        (if mode AND O_APPEND \<noteq> 0 then upd_ofile a (\<lambda>x. x\<lparr>o_offset := f_size (vfile (fsys s4) f)\<rparr>) s4 else s4)) }"

definition file_open :: "'x optab \<Rightarrow> nat list \<times> fs_internal \<Rightarrow> nat \<Rightarrow> nat list \<Rightarrow> nat \<Rightarrow> nat \<Rightarrow> 'x fstate \<Rightarrow> (int \<times> 'x fstate) option" where
  "file_open ops junk me path mode attr s = do {
     (r, h) \<leftarrow> kmalloc FILE_OPEN_SIZE (kh (fsys s));
     let s1 = s\<lparr>fsys := (fsys s)\<lparr>kh := h\<rparr>\<rparr>;
     (case r of
        None \<Rightarrow> Some (- ENOMEM, s1)
      | Some a \<Rightarrow> do {
          let s2 = upd_ofile a (\<lambda>x. x\<lparr>o_refs := 1, o_offset := 0, o_lock := False\<rparr>) s1;
          (err, f', v) \<leftarrow> fs_open ops junk path (Some (o_file (ofile s2 a))) mode attr (fsys s2);
          (if err \<noteq> 0 then do { h2 \<leftarrow> kfree (Some a) (kh v); Some (err, s2\<lparr>fsys := v\<lparr>kh := h2\<rparr>\<rparr>) }
           else do { f \<leftarrow> f'; open_truncated ops me a f mode (upd_ofile a (\<lambda>x. x\<lparr>o_file := f\<rparr>) (s2\<lparr>fsys := v\<rparr>)) }) }) }"

text \<open>\<open>_file_close_one\<close>; the descriptor is not checked against the size of the table.\<close>

definition file_close_one :: "nat \<Rightarrow> int \<Rightarrow> 'x fstate \<Rightarrow> (int \<times> 'x fstate) option" where
  "file_close_one p fd s = do {
     check (0 \<le> fd);
     (o', flags) \<leftarrow> get_fd p (nat fd) s;
     (case o' of
        None \<Rightarrow> Some (- EBADF, s)
      | Some a \<Rightarrow> do { s1 \<leftarrow> file_put_locked a s; Some (0, set_fd p (nat fd) (None, flags) s1) }) }"

fun close_fds :: "nat \<Rightarrow> nat list \<Rightarrow> 'x fstate \<Rightarrow> 'x fstate option" where
  "close_fds p [] s = Some s"
| "close_fds p (i # is) s = do { (_, s1) \<leftarrow> file_close_one p (int i) s; close_fds p is s1 }"

definition file_close_all :: "nat \<Rightarrow> 'x fstate \<Rightarrow> 'x fstate option" where
  "file_close_all p s = do {
     s1 \<leftarrow> file_locks p s;
     s2 \<leftarrow> close_fds p [0 ..< FDS] s1;
     Some (file_unlocks p s2) }"

definition file_close :: "nat \<Rightarrow> int \<Rightarrow> 'x fstate \<Rightarrow> (int \<times> 'x fstate) option" where
  "file_close me fd s = do {
     s1 \<leftarrow> file_locks me s;
     (r, s2) \<leftarrow> file_close_one me fd s1;
     Some (r, file_unlocks me s2) }"

text \<open>The comparisons with \<open>sizeof\<close> are unsigned, on 16 bit.\<close>

definition unsigned16 :: "int \<Rightarrow> nat" where
  "unsigned16 x = nat (x mod 65536)"

definition file_dup2 :: "nat \<Rightarrow> int \<Rightarrow> int \<Rightarrow> 'x fstate \<Rightarrow> (int \<times> 'x fstate) option" where
  "file_dup2 me oldfd newfd s0 =
     (if oldfd < 0 \<or> unsigned16 oldfd \<ge> FDS \<or> unsigned16 newfd \<ge> FDS then Some (- EBADF, s0)
      else do {
        s \<leftarrow> file_locks me s0;
        let nfd = (if newfd < 0 then (case free_fd (fdt s me) 0 of None \<Rightarrow> - EMFILE | Some i \<Rightarrow> int i) else newfd);
        (if nfd \<ge> 0 \<and> nfd \<noteq> oldfd then do {
           (_, s1) \<leftarrow> file_close_one me nfd s;
           (o', flags) \<leftarrow> get_fd me (nat oldfd) s1;
           let s2 = set_fd me (nat nfd) (o', flags) s1;
           a \<leftarrow> o';
           Some (nfd, file_unlocks me (upd_ofile a (\<lambda>x. x\<lparr>o_refs := u8 (o_refs x + 1)\<rparr>) s2)) }
         else Some (nfd, file_unlocks me s)) })"

section \<open>Reading and writing\<close>

definition with_ofile :: "nat \<Rightarrow> int \<Rightarrow> (nat \<Rightarrow> nat \<Rightarrow> 'x fstate \<Rightarrow> (int \<times> 'r \<times> 'x fstate) option) \<Rightarrow> 'r \<Rightarrow> 'x fstate \<Rightarrow> (int \<times> 'r \<times> 'x fstate) option" where
  "with_ofile me fd body dflt s = do {
     (r, s1) \<leftarrow> file_fd_resolve me fd s;
     (case r of
        None \<Rightarrow> Some (- EBADF, dflt, s1)
      | Some (a, flags) \<Rightarrow> do {
          (ret, x, s2) \<leftarrow> body a flags s1;
          s3 \<leftarrow> file_file_put a s2;
          Some (ret, x, s3) }) }"

definition o_lock_take :: "nat \<Rightarrow> 'x fstate \<Rightarrow> 'x fstate option" where
  "o_lock_take a s = (if o_lock (ofile s a) then None else Some (upd_ofile a (\<lambda>x. x\<lparr>o_lock := True\<rparr>) s))"

definition o_advance :: "nat \<Rightarrow> int \<Rightarrow> 'x fstate \<Rightarrow> 'x fstate" where
  "o_advance a ret = upd_ofile a (\<lambda>x. x\<lparr>o_offset := (if ret > 0 then o_offset x + nat ret else o_offset x), o_lock := False\<rparr>)"

definition file_read :: "'x optab \<Rightarrow> nat \<Rightarrow> int \<Rightarrow> nat list \<Rightarrow> 'x fstate \<Rightarrow> (int \<times> nat list \<times> 'x fstate) option" where
  "file_read ops me fd buff = with_ofile me fd (\<lambda>a flags s.
     if flags AND O_WRONLY \<noteq> 0 \<or> S_ISDIR (f_attr (vfile (fsys s) (o_file (ofile s a)))) then Some (- EINVAL, buff, s)
     else do {
       s1 \<leftarrow> o_lock_take a s;
       (ret, b, v) \<leftarrow> fs_read ops (o_file (ofile s1 a)) buff (o_offset (ofile s1 a)) (fsys s1);
       Some (ret, b, o_advance a ret (s1\<lparr>fsys := v\<rparr>)) }) buff"

definition file_write :: "'x optab \<Rightarrow> nat \<Rightarrow> int \<Rightarrow> nat list \<Rightarrow> 'x fstate \<Rightarrow> (int \<times> unit \<times> 'x fstate) option" where
  "file_write ops me fd buff = with_ofile me fd (\<lambda>a flags s.
     if flags AND O_RDONLY \<noteq> 0 \<or> S_ISDIR (f_attr (vfile (fsys s) (o_file (ofile s a)))) then Some (- EINVAL, (), s)
     else do {
       s1 \<leftarrow> o_lock_take a s;
       (ret, v) \<leftarrow> fs_write ops (o_file (ofile s1 a)) buff (o_offset (ofile s1 a)) (fsys s1);
       Some (ret, (), o_advance a ret (s1\<lparr>fsys := v\<rparr>)) }) ()"

definition file_truncate :: "'x optab \<Rightarrow> nat list \<times> fs_internal \<Rightarrow> nat list \<Rightarrow> nat \<Rightarrow> 'x fstate \<Rightarrow> (int \<times> 'x fstate) option" where
  "file_truncate ops junk path sz s = do {
     (ret, f', v) \<leftarrow> fs_open ops junk path None O_WRONLY 0 (fsys s);
     (if ret < 0 then Some (ret, s\<lparr>fsys := v\<rparr>)
      else do { f \<leftarrow> f'; (r, v1) \<leftarrow> fs_truncate ops f sz v; (_, v2) \<leftarrow> fs_close f v1; Some (r, s\<lparr>fsys := v2\<rparr>) }) }"

text \<open>The offset is moved back only if the operation returned a positive number.\<close>

definition file_ftruncate :: "'x optab \<Rightarrow> nat \<Rightarrow> int \<Rightarrow> nat \<Rightarrow> 'x fstate \<Rightarrow> (int \<times> unit \<times> 'x fstate) option" where
  "file_ftruncate ops me fd sz = with_ofile me fd (\<lambda>a flags s.
     if flags AND O_RDONLY \<noteq> 0 \<or> \<not> S_ISREG (f_attr (vfile (fsys s) (o_file (ofile s a)))) then Some (- EINVAL, (), s)
     else do {
       s1 \<leftarrow> o_lock_take a s;
       (ret, v) \<leftarrow> fs_truncate ops (o_file (ofile s1 a)) sz (fsys s1);
       Some (ret, (), upd_ofile a (\<lambda>x. x\<lparr>o_offset := (if ret > 0 \<and> o_offset x > sz then sz else o_offset x), o_lock := False\<rparr>) (s1\<lparr>fsys := v\<rparr>)) }) ()"

definition file_readdir :: "'x optab \<Rightarrow> nat \<Rightarrow> int \<Rightarrow> nat list \<Rightarrow> nat \<Rightarrow> 'x fstate \<Rightarrow> (int \<times> fs_dentry option \<times> 'x fstate) option" where
  "file_readdir ops me fd buf idx = with_ofile me fd (\<lambda>a flags s.
     if flags AND O_WRONLY \<noteq> 0 \<or> \<not> S_ISDIR (f_attr (vfile (fsys s) (o_file (ofile s a)))) then Some (- EINVAL, None, s)
     else do {
       (ret, de, v) \<leftarrow> fs_readdir ops (o_file (ofile s a)) buf idx (fsys s);
       Some (ret, de, s\<lparr>fsys := v\<rparr>) }) None"

definition file_remove :: "'x optab \<Rightarrow> nat list \<times> fs_internal \<Rightarrow> nat list \<Rightarrow> 'x fstate \<Rightarrow> (int \<times> 'x fstate) option" where
  "file_remove ops junk path s = do { (r, v) \<leftarrow> fs_remove ops junk path (fsys s); Some (r, s\<lparr>fsys := v\<rparr>) }"

end
