(* ===== verification/FileRefs.thy ===== *)
theory FileRefs
  imports File
begin

text \<open>
  Reference counting in \<open>kernel/proc/file.c\<close>. \<open>file_wf s P R A B X\<close>: for the processes \<open>P\<close> the open files \<open>A\<close>
  are exactly those with a reference, the count of each is the number of descriptors that name it plus
  the references \<open>R\<close> in flight, and the tree of files below is well formed with the open files and the
  references \<open>X\<close> of others (the directories the kernel itself opened) as the references from outside.
  \<open>B\<close> are the other blocks of the heap in use.
\<close>

lemma count_list_update:
  "i < length xs \<Longrightarrow> count_list (xs[i := y]) z + of_bool (xs ! i = z) = count_list xs z + of_bool (y = z)"
proof (induction xs arbitrary: i)
  case (Cons x xs)
  then show ?case by (cases i) auto
qed simp

definition slots :: "nat list \<Rightarrow> 'x fstate \<Rightarrow> nat \<Rightarrow> nat" where
  "slots P s a = (\<Sum>p \<leftarrow> P. count_list (map fst (fdt s p)) (Some a))"

definition users :: "(nat \<Rightarrow> nat) \<Rightarrow> 'x fstate \<Rightarrow> nat set \<Rightarrow> nat \<Rightarrow> nat" where
  "users X s A f = X f + card {a \<in> A. o_file (ofile s a) = f}"

definition file_wf :: "'x fstate \<Rightarrow> nat list \<Rightarrow> (nat \<Rightarrow> nat) \<Rightarrow> nat set \<Rightarrow> nat set \<Rightarrow> (nat \<Rightarrow> nat) \<Rightarrow> bool" where
  "file_wf s P R A B X \<longleftrightarrow> distinct P \<and> finite A \<and> A \<inter> B = {} \<and> \<not> vlocks (fsys s) None \<and>
     (\<forall>p \<in> set P. length (fdt s p) = FDS) \<and>
     (\<forall>a. a \<notin> A \<longrightarrow> slots P s a + R a = 0) \<and>
     (\<forall>a \<in> A. o_refs (ofile s a) = slots P s a + R a \<and> 0 < o_refs (ofile s a) \<and> o_refs (ofile s a) \<le> 255) \<and>
     (\<exists>L K. vfs_wf (fsys s) L K (users X s A) (A \<union> B))"

lemma users_cong:
  assumes "\<And>b. b \<in> A \<Longrightarrow> o_file (ofile s' b) = o_file (ofile s b)"
  shows "users X s' A = users X s A"
proof -
  have "{a \<in> A. o_file (ofile s' a) = f} = {a \<in> A. o_file (ofile s a) = f}" for f using assms by auto
  then show ?thesis by (simp add: users_def fun_eq_iff)
qed

lemma file_wfD:
  assumes "file_wf s P R A B X"
  shows "distinct P" and "finite A" and "A \<inter> B = {}" and "\<not> vlocks (fsys s) None" and "p \<in> set P \<Longrightarrow> length (fdt s p) = FDS"
    and "a \<notin> A \<Longrightarrow> slots P s a = 0 \<and> R a = 0"
    and "a \<in> A \<Longrightarrow> o_refs (ofile s a) = slots P s a + R a \<and> 0 < o_refs (ofile s a) \<and> o_refs (ofile s a) \<le> 255"
    and "\<exists>L K. vfs_wf (fsys s) L K (users X s A) (A \<union> B)"
proof -
  note w = assms[unfolded file_wf_def]
  show "distinct P" "finite A" "A \<inter> B = {}" "\<not> vlocks (fsys s) None" using w by blast+
  show "p \<in> set P \<Longrightarrow> length (fdt s p) = FDS" using w by blast
  show "a \<notin> A \<Longrightarrow> slots P s a = 0 \<and> R a = 0" using w add_is_0[of "slots P s a" "R a"] by blast
  show "a \<in> A \<Longrightarrow> o_refs (ofile s a) = slots P s a + R a \<and> 0 < o_refs (ofile s a) \<and> o_refs (ofile s a) \<le> 255" using w by blast
  show "\<exists>L K. vfs_wf (fsys s) L K (users X s A) (A \<union> B)" using w by blast
qed

lemma file_wfI:
  assumes "distinct P" and "finite A" and "A \<inter> B = {}" and "\<not> vlocks (fsys s) None" and "\<And>p. p \<in> set P \<Longrightarrow> length (fdt s p) = FDS"
    and "\<And>a. a \<notin> A \<Longrightarrow> slots P s a + R a = 0"
    and "\<And>a. a \<in> A \<Longrightarrow> o_refs (ofile s a) = slots P s a + R a \<and> 0 < o_refs (ofile s a) \<and> o_refs (ofile s a) \<le> 255"
    and "vfs_wf (fsys s) L K (users X s A) (A \<union> B)"
  shows "file_wf s P R A B X"
  unfolding file_wf_def using assms by blast

text \<open>Only the tables, the open files and the file system matter.\<close>

lemma file_wf_cong:
  assumes wf: "file_wf s P R A B X" and eq: "fsys s' = fsys s" "ofile s' = ofile s" "fdt s' = fdt s"
  shows "file_wf s' P R A B X"
proof -
  have "slots P s' = slots P s" "users X s' = users X s" by (simp_all add: slots_def users_def fun_eq_iff eq)
  note e = this eq
  show ?thesis using wf unfolding file_wf_def e .
qed

lemma slots_upd:
  assumes "distinct P" and "p \<in> set P" and "i < length (fdt s p)"
  shows "slots P (set_fd p i e s) a + of_bool (fst (fdt s p ! i) = Some a) = slots P s a + of_bool (fst e = Some a)"
proof -
  have split: "(\<Sum>q \<leftarrow> P. g q) = g p + (\<Sum>q \<leftarrow> remove1 p P. g q)" for g :: "nat \<Rightarrow> nat"
    using assms(2) by (simp add: sum_list_map_remove1)
  have "map fst ((fdt s p)[i := e]) = (map fst (fdt s p))[i := fst e]" by (simp add: map_update)
  moreover have "(\<Sum>q \<leftarrow> remove1 p P. count_list (map fst (fdt (set_fd p i e s) q)) (Some a)) =
      (\<Sum>q \<leftarrow> remove1 p P. count_list (map fst (fdt s q)) (Some a))"
    using assms(1) by (intro arg_cong[of _ _ sum_list] map_cong) (auto simp: set_fd_def)
  ultimately show ?thesis
    using count_list_update[of i "map fst (fdt s p)" "fst e" "Some a"] assms(3)
    by (simp add: slots_def split set_fd_def)
qed

lemma set_fd_simps [simp]:
  "fsys (set_fd p i e s) = fsys s" "ofile (set_fd p i e s) = ofile s" "clock (set_fd p i e s) = clock s" "plock (set_fd p i e s) = plock s"
  "fdt (set_fd p i e s) q = (if q = p then (fdt s p)[i := e] else fdt s q)"
  by (simp_all add: set_fd_def)

lemma users_set_fd [simp]: "users X (set_fd p i e s) A = users X s A"
  by (simp add: users_def fun_eq_iff)

text \<open>Clearing a descriptor turns its reference into one in flight, and storing one the other way round.\<close>

lemma clear_fd:
  assumes wf: "file_wf s P R A B X" and p: "p \<in> set P" and i: "i < FDS" and a: "fdt s p ! i = (Some a, fl)"
  shows "file_wf (set_fd p i (None, fl) s) P (R(a := R a + 1)) A B X"
proof -
  have l: "i < length (fdt s p)" using file_wfD(5)[OF wf p] i by simp
  have s: "slots P (set_fd p i (None, fl) s) b + of_bool (a = b) = slots P s b" for b
    using slots_upd[OF file_wfD(1)[OF wf] p l, of "(None, fl)" b] a by simp
  have sum: "slots P (set_fd p i (None, fl) s) b + (R(a := R a + 1)) b = slots P s b + R b" for b
    using s[of b] by (cases "b = a") simp_all
  show ?thesis using wf unfolding file_wf_def sum by (auto simp: set_fd_simps)
qed

lemma store_fd:
  assumes wf: "file_wf s P R A B X" and p: "p \<in> set P" and i: "i < FDS" and e: "fst (fdt s p ! i) = None" and r: "0 < R a"
  shows "file_wf (set_fd p i (Some a, fl) s) P (R(a := R a - 1)) A B X"
proof -
  have l: "i < length (fdt s p)" using file_wfD(5)[OF wf p] i by simp
  have s: "slots P (set_fd p i (Some a, fl) s) b = slots P s b + of_bool (a = b)" for b
    using slots_upd[OF file_wfD(1)[OF wf] p l, of "(Some a, fl)" b] e by simp
  have sum: "slots P (set_fd p i (Some a, fl) s) b + (R(a := R a - 1)) b = slots P s b + R b" for b
    using s[of b] r by (cases "b = a") simp_all
  show ?thesis using wf unfolding file_wf_def sum by (auto simp: set_fd_simps)
qed

lemma upd_ofile_simps [simp]:
  "fsys (upd_ofile a g s) = fsys s" "fdt (upd_ofile a g s) = fdt s" "clock (upd_ofile a g s) = clock s" "plock (upd_ofile a g s) = plock s"
  "ofile (upd_ofile a g s) b = (if b = a then g (ofile s a) else ofile s b)"
  by (simp_all add: upd_ofile_def)

lemma slots_upd_ofile [simp]: "slots P (upd_ofile a g s) = slots P s"
  by (simp add: slots_def fun_eq_iff)

lemma take_ref:
  assumes wf: "file_wf s P R A B X" and a: "a \<in> A" and r: "o_refs (ofile s a) < 255"
  shows "file_wf (upd_ofile a (\<lambda>x. x\<lparr>o_refs := u8 (o_refs x + 1)\<rparr>) s) P (R(a := R a + 1)) A B X"
proof -
  have u: "u8 (o_refs (ofile s a) + 1) = o_refs (ofile s a) + 1" using r by simp
  have us: "users X (upd_ofile a (\<lambda>x. x\<lparr>o_refs := u8 (o_refs x + 1)\<rparr>) s) A = users X s A"
    by (rule users_cong) simp
  show ?thesis using wf a r unfolding file_wf_def us by (auto simp: u)
qed

section \<open>Dropping a reference\<close>

text \<open>The tree of files after a release: no file is added, its counts are exact again, and no file that had references
  is left without one.\<close>

definition tree_shrinks :: "'x fstate \<Rightarrow> nat set \<Rightarrow> 'x fstate \<Rightarrow> nat set \<Rightarrow> nat set \<Rightarrow> (nat \<Rightarrow> nat) \<Rightarrow> bool" where
  "tree_shrinks s A s' A' B X \<longleftrightarrow> (\<forall>L K. vfs_wf (fsys s) L K (users X s A) (A \<union> B) \<longrightarrow>
     (\<exists>L' K'. L' \<subseteq> L \<and> vfs_wf (fsys s') L' K' (users X s' A') (A' \<union> B) \<and>
       (\<forall>g \<in> L'. 0 < f_nrefs (vfile (fsys s) g) \<longrightarrow> 0 < f_nrefs (vfile (fsys s') g))))"

lemma tree_shrinksI:
  "fsys s' = fsys s \<Longrightarrow> users X s' A = users X s A \<Longrightarrow> tree_shrinks s A s' A B X"
  unfolding tree_shrinks_def by auto

lemma release_open:
  assumes wf: "vfs_wf v L K ext (insert a C)" and a: "a \<notin> C" and x: "0 < ext x" and l: "\<not> vlocks v None"
  shows "\<exists>v' h L' K'. fs_close x v = Some (0, v') \<and> kfree (Some a) (kh v') = Some h \<and>
    vfs_wf (v'\<lparr>kh := h\<rparr>) L' K' (ext(x := ext x - 1)) C \<and> L' \<subseteq> L \<and> \<not> vlocks v' None \<and>
    (\<forall>g \<in> L'. 0 < f_nrefs (vfile v g) \<longrightarrow> 0 < f_nrefs (vfile v' g))"
proof -
  from close_wf[OF wf x l] obtain v' L' K' where c: "fs_close x v = Some (0, v')" "vfs_wf v' L' K' (ext(x := ext x - 1)) (insert a C)"
    "L' \<subseteq> L" "same_files L' v v'" "\<forall>g \<in> L'. 0 < f_nrefs (vfile v g) \<longrightarrow> 0 < f_nrefs (vfile v' g)" by blast
  have "owned (kh v') (insert a (L' \<union> C))" using wfD(1)[OF c(2)] by simp
  from owned_free[OF this, of a] obtain h where h: "kfree (Some a) (kh v') = Some h" "owned h (insert a (L' \<union> C) - {a})" by auto
  have "a \<notin> L'" using wfD(2)[OF c(2)] by auto
  then have own: "owned h (L' \<union> C)" using h(2) a by (simp add: insert_Diff_if)
  obtain dp where "tree_ok v' L' K' (ext(x := ext x - 1)) dp" using wfD(4)[OF c(2)] by blast
  then have "tree_ok (v'\<lparr>kh := h\<rparr>) L' K' (ext(x := ext x - 1)) dp" by (rule tree_vdep) simp_all
  then have "vfs_wf (v'\<lparr>kh := h\<rparr>) L' K' (ext(x := ext x - 1)) C" using own wfD(2,3)[OF c(2)] unfolding vfs_wf_def by auto
  moreover have "\<not> vlocks v' None" using c(4) l by (simp add: same_files_def)
  ultimately show ?thesis using c(1,3,5) h(1) by blast
qed

lemma put_locked_ok:
  assumes wf: "file_wf s P R A B X" and r: "0 < R a"
  shows "\<exists>s' A'. file_put_locked a s = Some s' \<and> file_wf s' P (R(a := R a - 1)) A' B X \<and> A' \<subseteq> A \<and> fdt s' = fdt s \<and>
    clock s' = clock s \<and> plock s' = plock s \<and> (\<forall>b \<in> A'. ofile s' b = (ofile s b)\<lparr>o_refs := o_refs (ofile s' b)\<rparr>) \<and>
    (slots P s a + R a > 1 \<longrightarrow> A' = A \<and> fsys s' = fsys s) \<and> tree_shrinks s A s' A' B X"
proof -
  have a: "a \<in> A" using file_wfD(6)[OF wf, of a] r by auto
  note n = file_wfD(7)[OF wf a]
  define s1 where "s1 = upd_ofile a (\<lambda>x. x\<lparr>o_refs := sub8 (o_refs x) 1\<rparr>) s"
  have sub: "sub8 (o_refs (ofile s a)) 1 = o_refs (ofile s a) - 1" using n by (simp add: sub8_id)
  have us: "users X s1 A = users X s A"
    by (rule users_cong) (simp add: s1_def)
  have sl: "slots P s1 = slots P s" by (simp add: s1_def)
  show ?thesis
  proof (cases "o_refs (ofile s a) = 1")
    case False
    then have "file_put_locked a s = Some s1" using sub n by (simp add: file_put_locked_def s1_def)
    moreover have "file_wf s1 P (R(a := R a - 1)) A B X"
      using wf n r False unfolding file_wf_def us sl by (auto simp: s1_def sub)
    moreover have "tree_shrinks s A s1 A B X" by (rule tree_shrinksI[OF _ us]) (simp add: s1_def)
    ultimately show ?thesis by (intro exI[of _ s1] exI[of _ A]) (simp add: s1_def)
  next
    case True
    then have z: "slots P s a = 0" "R a = 1" using n r by auto
    define f where "f = o_file (ofile s a)"
    obtain L K where vw: "vfs_wf (fsys s) L K (users X s A) (A \<union> B)" using file_wfD(8)[OF wf] by blast
    have "a \<in> {b \<in> A. o_file (ofile s b) = f}" using a by (simp add: f_def)
    then have pos: "0 < users X s A f" using file_wfD(2)[OF wf] by (force simp: users_def card_gt_0_iff)
    have AB: "A \<union> B = insert a (A - {a} \<union> B)" "a \<notin> A - {a} \<union> B" using a file_wfD(3)[OF wf] by auto
    note rel = release_open[where v = "fsys s" and ext = "users X s A" and x = f, OF _ AB(2) pos file_wfD(4)[OF wf], folded AB(1)]
    from rel[OF vw] obtain v h where v: "fs_close f (fsys s) = Some (0, v)" "kfree (Some a) (kh v) = Some h" "\<not> vlocks v None" by blast
    define s' where "s' = s1\<lparr>fsys := v\<lparr>kh := h\<rparr>\<rparr>"
    have "o_refs (ofile s1 a) = 0" "o_file (ofile s1 a) = f" "fsys s1 = fsys s" using True sub by (simp_all add: s1_def f_def)
    then have put: "file_put_locked a s = Some s'"
      unfolding file_put_locked_def s1_def[symmetric] Let_def using v(1,2) by (simp add: s'_def)
    have same: "o_file (ofile s1 b) = o_file (ofile s b)" for b by (simp add: s1_def)
    have us': "users X s' (A - {a}) = (users X s A)(f := users X s A f - 1)"
    proof
      fix g
      have e: "{b \<in> A - {a}. o_file (ofile s' b) = g} = {b \<in> A. o_file (ofile s b) = g} - {a}" by (auto simp: s'_def same)
      have fin: "finite {b \<in> A. o_file (ofile s b) = g}" using file_wfD(2)[OF wf] by simp
      show "users X s' (A - {a}) g = ((users X s A)(f := users X s A f - 1)) g"
      proof (cases "g = f")
        case True
        then have m: "a \<in> {b \<in> A. o_file (ofile s b) = g}" using a by (simp add: f_def)
        then have "0 < card {b \<in> A. o_file (ofile s b) = g}" using fin card_gt_0_iff by blast
        then show ?thesis using True card_Diff_singleton[OF m] unfolding users_def e by simp
      next
        case False
        then have "a \<notin> {b \<in> A. o_file (ofile s b) = g}" by (simp add: f_def)
        then show ?thesis using False unfolding users_def e by simp
      qed
    qed
    have shrinks: "tree_shrinks s A s' (A - {a}) B X"
      unfolding tree_shrinks_def us'
    proof (intro allI impI)
      fix L K assume "vfs_wf (fsys s) L K (users X s A) (A \<union> B)"
      from rel[OF this] v(1,2) show "\<exists>L' K'. L' \<subseteq> L \<and> vfs_wf (fsys s') L' K' ((users X s A)(f := users X s A f - 1)) (A - {a} \<union> B) \<and>
          (\<forall>g \<in> L'. 0 < f_nrefs (vfile (fsys s) g) \<longrightarrow> 0 < f_nrefs (vfile (fsys s') g))"
        by (auto simp: s'_def)
    qed
    then obtain L' K' where wf': "vfs_wf (fsys s') L' K' (users X s' (A - {a})) (A - {a} \<union> B)"
      using vw unfolding tree_shrinks_def by blast
    have vl: "\<not> vlocks (fsys s') None" using v(3) by (simp add: s'_def)
    have sl': "slots P s' = slots P s" by (simp add: s'_def slots_def s1_def fun_eq_iff)
    have fdt': "fdt s' = fdt s" by (simp add: s'_def s1_def)
    have wf2: "file_wf s' P (R(a := R a - 1)) (A - {a}) B X"
    proof (rule file_wfI[OF _ _ _ vl _ _ _ wf'])
      show "distinct P" "finite (A - {a})" "(A - {a}) \<inter> B = {}" using file_wfD(1-3)[OF wf] by auto
      show "length (fdt s' p) = FDS" if "p \<in> set P" for p using file_wfD(5)[OF wf that] fdt' by simp
      show "slots P s' b + (R(a := R a - 1)) b = 0" if "b \<notin> A - {a}" for b
        using file_wfD(6)[OF wf, of b] that z by (cases "b = a") (simp_all add: sl')
      show "o_refs (ofile s' b) = slots P s' b + (R(a := R a - 1)) b \<and> 0 < o_refs (ofile s' b) \<and> o_refs (ofile s' b) \<le> 255"
        if "b \<in> A - {a}" for b
      proof -
        have "ofile s' b = ofile s b" using that by (simp add: s'_def s1_def)
        moreover have "(R(a := R a - 1)) b = R b" and "b \<in> A" using that by auto
        ultimately show ?thesis using file_wfD(7)[OF wf, of b] unfolding sl' by argo
      qed
    qed
    show ?thesis using put z wf2 shrinks by (intro exI[of _ s'] exI[of _ "A - {a}"]) (auto simp: s'_def s1_def)
  qed
qed

text \<open>Releasing the file commutes with changing a table.\<close>

lemma put_set_fd: "file_put_locked a (set_fd p i e s) = map_option (set_fd p i e) (file_put_locked a s)"
proof -
  have "upd_ofile a g (set_fd p i e s) = set_fd p i e (upd_ofile a g s)" for g by (simp add: upd_ofile_def set_fd_def)
  moreover have "(set_fd p i e t)\<lparr>fsys := v\<rparr> = set_fd p i e (t\<lparr>fsys := v\<rparr>)" for t v by (simp add: set_fd_def)
  ultimately show ?thesis by (auto simp: file_put_locked_def Let_def split: Option.bind_splits)
qed

lemma close_one_ok:
  assumes wf: "file_wf s P R A B X" and p: "p \<in> set P" and fd: "0 \<le> fd" "nat fd < FDS"
  shows "\<exists>s' A'. file_close_one p fd s = Some (if fst (fdt s p ! nat fd) = None then - EBADF else 0, s') \<and> file_wf s' P R A' B X \<and> A' \<subseteq> A \<and>
    fdt s' = (fdt s)(p := (fdt s p)[nat fd := (None, snd (fdt s p ! nat fd))]) \<and> clock s' = clock s \<and> plock s' = plock s \<and>
    (\<forall>b \<in> A'. ofile s' b = (ofile s b)\<lparr>o_refs := o_refs (ofile s' b)\<rparr>) \<and>
    (\<forall>b \<in> A. slots P s b + R b - of_bool (fst (fdt s p ! nat fd) = Some b) > 0 \<longrightarrow> b \<in> A') \<and> tree_shrinks s A s' A' B X"
proof -
  have l: "nat fd < length (fdt s p)" using file_wfD(5)[OF wf p] fd by simp
  obtain o' fl where e: "fdt s p ! nat fd = (o', fl)" by fastforce
  show ?thesis
  proof (cases o')
    case None
    have "(fdt s p)[nat fd := (None, fl)] = fdt s p" using e None by (simp add: list_update_same_conv[OF l])
    then show ?thesis using e None l fd wf tree_shrinksI[of s s X A B] by (intro exI[of _ s] exI[of _ A]) (simp add: file_close_one_def get_fd_def)
  next
    case (Some a)
    have c: "file_wf (set_fd p (nat fd) (None, fl) s) P (R(a := R a + 1)) A B X"
      by (rule clear_fd[OF wf p fd(2)]) (simp add: e Some)
    have r: "0 < (R(a := R a + 1)) a" by simp
    obtain s1 A' where s1: "file_put_locked a (set_fd p (nat fd) (None, fl) s) = Some s1"
      "file_wf s1 P (R(a := R a + 1, a := (R(a := R a + 1)) a - 1)) A' B X" "A' \<subseteq> A" "fdt s1 = fdt (set_fd p (nat fd) (None, fl) s)"
      "clock s1 = clock s" "plock s1 = plock s" "\<forall>b \<in> A'. ofile s1 b = (ofile s b)\<lparr>o_refs := o_refs (ofile s1 b)\<rparr>"
      "tree_shrinks (set_fd p (nat fd) (None, fl) s) A s1 A' B X"
      using put_locked_ok[OF c r] unfolding set_fd_simps by blast
    have tr: "tree_shrinks s A s1 A' B X"
      using s1(8) users_cong[of A "set_fd p (nat fd) (None, fl) s" s X] unfolding tree_shrinks_def set_fd_simps by simp
    have R: "R(a := R a + 1, a := (R(a := R a + 1)) a - 1) = R" by auto
    from s1(1) obtain t where t: "file_put_locked a s = Some t" "s1 = set_fd p (nat fd) (None, fl) t" by (auto simp: put_set_fd)
    have cl: "file_close_one p fd s = Some (0, s1)" using e Some l fd t by (simp add: file_close_one_def get_fd_def)
    have "slots P s1 b = slots P (set_fd p (nat fd) (None, fl) s) b" for b unfolding slots_def s1(4) ..
    then have sl: "slots P s1 b + of_bool (a = b) = slots P s b" for b
      using slots_upd[OF file_wfD(1)[OF wf] p l, of "(None, fl)" b] e Some by simp
    have wf1: "file_wf s1 P R A' B X" using s1(2) unfolding R .
    have keep: "b \<in> A'" if "b \<in> A" "slots P s b + R b - of_bool (Some a = Some b) > 0" for b
    proof (rule ccontr)
      assume "b \<notin> A'"
      then have "slots P s1 b + R b = 0" using file_wfD(6)[OF wf1] by simp
      then show False using that(2) sl[of b] by (auto split: if_splits)
    qed
    have fd': "fdt s1 = (fdt s)(p := (fdt s p)[nat fd := (None, fl)])" unfolding s1(4) by (simp add: fun_eq_iff)
    show ?thesis
      using cl wf1 s1(3,5,6,7) fd' keep e Some tr by (intro exI[of _ s1] exI[of _ A']) simp
  qed
qed

section \<open>The calls on descriptors\<close>

lemma put_locked_fields:
  assumes "file_put_locked a s = Some s'"
  shows "fdt s' = fdt s \<and> clock s' = clock s \<and> plock s' = plock s"
  using assms by (auto simp: file_put_locked_def Let_def split: if_splits Option.bind_splits)

lemma locked_ok:
  assumes "file_wf s P R A B X" and "\<not> clock s" and "\<not> plock s p"
  shows "\<exists>t. file_locks p s = Some t \<and> file_wf t P R A B X \<and> fdt t = fdt s \<and> ofile t = ofile s \<and> fsys t = fsys s \<and>
    clock t \<and> plock t = (plock s)(p := True)"
proof -
  let ?t = "s\<lparr>clock := True, plock := (plock s)(p := True)\<rparr>"
  have "file_wf ?t P R A B X" by (rule file_wf_cong[OF assms(1)]) simp_all
  then show ?thesis using assms(2,3) by (intro exI[of _ ?t]) (simp add: file_locks_def)
qed

lemma unlocked_ok: "file_wf s P R A B X \<Longrightarrow> file_wf (file_unlocks p s) P R A B X"
  by (rule file_wf_cong) (simp_all add: file_unlocks_def)

lemma unlocks_simps [simp]:
  "fdt (file_unlocks p s) = fdt s" "ofile (file_unlocks p s) = ofile s" "fsys (file_unlocks p s) = fsys s"
  "clock (file_unlocks p s) = False" "plock (file_unlocks p s) = (plock s)(p := False)"
  by (simp_all add: file_unlocks_def)

text \<open>C5. Closing a descriptor in the range of the table keeps every count exact: the open file survives exactly
  if another descriptor names it, and else its block and what nothing in the tree of files refers to any more are
  freed. \<open>owned\<close> names the blocks of the heap in use exactly: the files of the tree, the open files \<open>A\<close> and the blocks
  \<open>B\<close> of others, before and after.
\<close>

theorem file_close_releases:
  assumes "file_wf s P (\<lambda>_. 0) A B X" and "vfs_wf (fsys s) L K (users X s A) (A \<union> B)" and "me \<in> set P" and "0 \<le> fd" "nat fd < FDS"
    and "\<not> clock s" and "\<not> plock s me"
  shows "\<exists>s' A' L' K'. file_close me fd s = Some (if fst (fdt s me ! nat fd) = None then - EBADF else 0, s') \<and> file_wf s' P (\<lambda>_. 0) A' B X \<and>
    fdt s' = (fdt s)(me := (fdt s me)[nat fd := (None, snd (fdt s me ! nat fd))]) \<and>
    A' = {a \<in> A. 0 < slots P s' a} \<and> L' \<subseteq> L \<and> vfs_wf (fsys s') L' K' (users X s' A') (A' \<union> B) \<and>
    owned (kh (fsys s')) (L' \<union> A' \<union> B) \<and>
    (\<forall>g \<in> L'. 0 < f_nrefs (vfile (fsys s) g) \<longrightarrow> 0 < f_nrefs (vfile (fsys s') g)) \<and> \<not> clock s' \<and> plock s' = plock s"
proof -
  obtain t where t: "file_locks me s = Some t" "file_wf t P (\<lambda>_. 0) A B X" "fdt t = fdt s" "plock t = (plock s)(me := True)" "fsys t = fsys s" "ofile t = ofile s"
    using locked_ok[OF assms(1,6,7)] by blast
  from close_one_ok[OF t(2) assms(3-5)] obtain s1 A' where s1: "file_close_one me fd t = Some (if fst (fdt t me ! nat fd) = None then - EBADF else 0, s1)"
    "file_wf s1 P (\<lambda>_. 0) A' B X" "A' \<subseteq> A" "fdt s1 = (fdt t)(me := (fdt t me)[nat fd := (None, snd (fdt t me ! nat fd))])" "plock s1 = plock t"
    "tree_shrinks t A s1 A' B X" by blast
  let ?s' = "file_unlocks me s1"
  have pl: "plock ?s' = plock s" using s1(5) t(4) assms(7) by (auto simp: fun_eq_iff)
  have wf: "file_wf ?s' P (\<lambda>_. 0) A' B X" by (rule unlocked_ok[OF s1(2)])
  have A': "A' = {a \<in> A. 0 < slots P ?s' a}"
    using file_wfD(6,7)[OF wf] s1(3) by fastforce
  have "users X t A = users X s A" by (rule users_cong) (simp add: t(6))
  moreover have "users X ?s' A' = users X s1 A'" by (rule users_cong) simp
  ultimately obtain L' K' where L': "L' \<subseteq> L" "vfs_wf (fsys ?s') L' K' (users X ?s' A') (A' \<union> B)"
      "\<forall>g \<in> L'. 0 < f_nrefs (vfile (fsys s) g) \<longrightarrow> 0 < f_nrefs (vfile (fsys ?s') g)"
    using s1(6) assms(2) unfolding tree_shrinks_def t(5) by auto
  have "owned (kh (fsys ?s')) (L' \<union> A' \<union> B)" using wfD(1)[OF L'(2)] by (simp add: Un_assoc)
  then show ?thesis using t(1) s1(1,4) t(3) pl wf A' L'
    by (intro exI[of _ ?s'] exI[of _ A'] exI[of _ L'] exI[of _ K']) (simp add: file_close_def)
qed

lemma close_fds_ok:
  assumes "file_wf s P R A B X" and "p \<in> set P" and "set is \<subseteq> {..< FDS}"
  shows "\<exists>s' A' ts. close_fds p is s = Some s' \<and> file_wf s' P R A' B X \<and> A' \<subseteq> A \<and> fdt s' = (fdt s)(p := ts) \<and>
    length ts = FDS \<and> (\<forall>i < FDS. fst (ts ! i) = (if i \<in> set is then None else fst (fdt s p ! i))) \<and> clock s' = clock s \<and> plock s' = plock s"
  using assms
proof (induction "is" arbitrary: s A)
  case Nil
  then show ?case using file_wfD(5)[OF Nil.prems(1,2)] by (intro exI[of _ s] exI[of _ A] exI[of _ "fdt s p"]) simp
next
  case (Cons i "is")
  have i: "0 \<le> int i" "nat (int i) < FDS" using Cons.prems(3) by auto
  have l: "i < length (fdt s p)" using file_wfD(5)[OF Cons.prems(1,2)] i by simp
  obtain s1 A1 where s1: "file_close_one p (int i) s = Some (if fst (fdt s p ! i) = None then - EBADF else 0, s1)"
    "file_wf s1 P R A1 B X" "A1 \<subseteq> A" "fdt s1 = (fdt s)(p := (fdt s p)[i := (None, snd (fdt s p ! i))])" "clock s1 = clock s" "plock s1 = plock s"
    using close_one_ok[OF Cons.prems(1,2) i] unfolding nat_int by blast
  have "set is \<subseteq> {..< FDS}" using Cons.prems(3) by simp
  from Cons.IH[OF s1(2) Cons.prems(2) this] obtain s2 A2 ts where s2: "close_fds p is s1 = Some s2" "file_wf s2 P R A2 B X" "A2 \<subseteq> A1"
    "fdt s2 = (fdt s1)(p := ts)" "length ts = FDS" "\<forall>j < FDS. fst (ts ! j) = (if j \<in> set is then None else fst (fdt s1 p ! j))"
    "clock s2 = clock s1" "plock s2 = plock s1" by blast
  have "close_fds p (i # is) s = Some s2" using s1(1) s2(1) by simp
  moreover have "fst (ts ! j) = (if j \<in> set (i # is) then None else fst (fdt s p ! j))" if "j < FDS" for j
    using s2(6) that l by (simp add: s1(4) nth_list_update)
  moreover have "fdt s2 = (fdt s)(p := ts)" by (simp add: s2(4) s1(4))
  ultimately show ?case using s1 s2 by (intro exI[of _ s2] exI[of _ A2] exI[of _ ts]) auto
qed

text \<open>\<open>file_close_all\<close> leaves the process with no open descriptor, and releases what only it used.\<close>

theorem file_close_all_empties:
  assumes "file_wf s P (\<lambda>_. 0) A B X" and "p \<in> set P" and "\<not> clock s" and "\<not> plock s p"
  shows "\<exists>s' A' ts. file_close_all p s = Some s' \<and> file_wf s' P (\<lambda>_. 0) A' B X \<and> fdt s' = (fdt s)(p := ts) \<and> length ts = FDS \<and>
    (\<forall>e \<in> set ts. fst e = None) \<and> A' = {a \<in> A. 0 < slots P s' a}"
proof -
  obtain t where t: "file_locks p s = Some t" "file_wf t P (\<lambda>_. 0) A B X" "fdt t = fdt s" using locked_ok[OF assms(1,3,4)] by blast
  have "set [0 ..< FDS] \<subseteq> {..< FDS}" by auto
  from close_fds_ok[OF t(2) assms(2) this] obtain s1 A' ts where s1: "close_fds p [0 ..< FDS] t = Some s1" "file_wf s1 P (\<lambda>_. 0) A' B X" "A' \<subseteq> A"
    "fdt s1 = (fdt t)(p := ts)" "length ts = FDS" and e: "\<forall>i < FDS. fst (ts ! i) = (if i \<in> set [0 ..< FDS] then None else fst (fdt t p ! i))" by blast
  let ?s' = "file_unlocks p s1"
  have wf: "file_wf ?s' P (\<lambda>_. 0) A' B X" by (rule unlocked_ok[OF s1(2)])
  have "A' = {a \<in> A. 0 < slots P ?s' a}" using file_wfD(6,7)[OF wf] s1(3) by fastforce
  moreover have "fst x = None" if m: "x \<in> set ts" for x
  proof -
    obtain i where "i < FDS" "x = ts ! i" using m[unfolded in_set_conv_nth s1(5)] by blast
    then show ?thesis using e by simp
  qed
  ultimately show ?thesis using t(1,3) s1 wf
    by (intro exI[of _ ?s'] exI[of _ A'] exI[of _ ts]) (simp add: file_close_all_def)
qed

lemma slots_pos:
  assumes "p \<in> set P" and "i < length (fdt s p)" and "fst (fdt s p ! i) = Some a"
  shows "0 < slots P s a"
proof -
  have "Some a \<in> set (map fst (fdt s p))" using assms(2,3) by (metis length_map nth_map nth_mem)
  then have "0 < count_list (map fst (fdt s p)) (Some a)" by (metis count_list_0_iff gr0I)
  then show ?thesis using assms(1) unfolding slots_def by (metis (no_types, lifting) sum_list_map_remove1 add_gr_0)
qed

text \<open>\<open>dup2\<close> between two descriptors in range: whatever the new one named before is closed, both name the same
  open file afterwards, and its count is exact again.
\<close>

theorem file_dup2_shares:
  assumes wf: "file_wf s P (\<lambda>_. 0) A B X" and p: "me \<in> set P" and old: "0 \<le> oldfd" "nat oldfd < FDS" and new: "0 \<le> newfd" "nat newfd < FDS"
    and ne: "oldfd \<noteq> newfd" and e: "fdt s me ! nat oldfd = (Some a, flags)" and r: "slots P s a < 255" and free: "\<not> clock s" "\<not> plock s me"
  shows "\<exists>s' A'. file_dup2 me oldfd newfd s = Some (newfd, s') \<and> file_wf s' P (\<lambda>_. 0) A' B X \<and>
    fdt s' = (fdt s)(me := (fdt s me)[nat newfd := (Some a, flags)]) \<and> A' = {b \<in> A. 0 < slots P s' b}"
proof -
  obtain t where t: "file_locks me s = Some t" "file_wf t P (\<lambda>_. 0) A B X" "fdt t = fdt s" using locked_ok[OF wf free] by blast
  from close_one_ok[OF t(2) p new] obtain s1 A1 where s1: "file_close_one me newfd t = Some (if fst (fdt t me ! nat newfd) = None then - EBADF else 0, s1)"
    "file_wf s1 P (\<lambda>_. 0) A1 B X" "A1 \<subseteq> A" and f1: "fdt s1 = (fdt t)(me := (fdt t me)[nat newfd := (None, snd (fdt t me ! nat newfd))])" by blast
  have l: "nat oldfd < length (fdt s me)" "nat newfd < length (fdt s me)" using file_wfD(5)[OF wf p] old new by simp_all
  have n: "nat oldfd \<noteq> nat newfd" using ne old new by simp
  have e1: "fdt s1 me ! nat oldfd = (Some a, flags)" "fst (fdt s1 me ! nat newfd) = None" using e n l by (simp_all add: f1 t(3))
  have pos: "0 < slots P s1 a" by (rule slots_pos[OF p, of "nat oldfd"]) (use l e1 in \<open>simp_all add: f1 t(3)\<close>)
  then have a: "a \<in> A1" using file_wfD(6)[OF s1(2), of a] by auto
  have "slots P s1 a = slots P (set_fd me (nat newfd) (None, snd (fdt t me ! nat newfd)) s) a"
    unfolding slots_def f1 t(3) by (intro arg_cong[of _ _ sum_list] map_cong) simp_all
  then have "slots P s1 a \<le> slots P s a"
    using slots_upd[OF file_wfD(1)[OF wf] p l(2), of "(None, snd (fdt t me ! nat newfd))" a] by simp
  then have lt: "o_refs (ofile s1 a) < 255" using file_wfD(7)[OF s1(2) a] r by simp
  have r1: "0 < ((\<lambda>_. 0)(a := (0 :: nat) + 1)) a" by simp
  define inc where "inc = (\<lambda>x :: open_file. x\<lparr>o_refs := u8 (o_refs x + 1)\<rparr>)"
  have w: "file_wf (upd_ofile a inc s1) P ((\<lambda>_. 0)(a := 0 + 1)) A1 B X" unfolding inc_def by (rule take_ref[OF s1(2) a lt])
  have w2: "file_wf (set_fd me (nat newfd) (Some a, flags) (upd_ofile a inc s1)) P (\<lambda>_. 0) A1 B X"
  proof -
    have "file_wf (set_fd me (nat newfd) (Some a, flags) (upd_ofile a inc s1)) P (((\<lambda>_. 0)(a := 0 + 1))(a := ((\<lambda>_. 0)(a := 0 + 1)) a - 1)) A1 B X"
      by (rule store_fd[OF w p new(2) _ r1]) (simp add: e1)
    moreover have "((\<lambda>_. 0)(a := (0 :: nat) + 1))(a := ((\<lambda>_. 0)(a := 0 + 1)) a - 1) = (\<lambda>_. 0)" by auto
    ultimately show ?thesis by simp
  qed
  have comm: "upd_ofile a inc (set_fd me (nat newfd) (Some a, flags) s1) = set_fd me (nat newfd) (Some a, flags) (upd_ofile a inc s1)"
    by (simp add: upd_ofile_def set_fd_def)
  define s' where "s' = file_unlocks me (upd_ofile a inc (set_fd me (nat newfd) (Some a, flags) s1))"
  have w': "file_wf s' P (\<lambda>_. 0) A1 B X" unfolding s'_def comm by (rule unlocked_ok[OF w2])
  have "A1 = {b \<in> A. 0 < slots P s' b}" using file_wfD(6,7)[OF w'] s1(3) by fastforce
  moreover have "fdt s' = (fdt s)(me := (fdt s me)[nat newfd := (Some a, flags)])" by (simp add: s'_def f1 t(3) fun_eq_iff)
  moreover have "file_dup2 me oldfd newfd s = Some (newfd, s')"
  proof -
    have "unsigned16 oldfd = nat oldfd" "unsigned16 newfd = nat newfd" using old new by (simp_all add: unsigned16_def FDS_def)
    then show ?thesis using old new ne t(1) s1(1) e1(1) l
      by (simp add: file_dup2_def get_fd_def f1 t(3) s'_def inc_def)
  qed
  ultimately show ?thesis using w' by blast
qed

text \<open>A negative \<open>newfd\<close> is a huge unsigned number, so the branch that looks for a free descriptor is never reached.\<close>

theorem file_dup2_negative: "- 32768 \<le> newfd \<Longrightarrow> newfd < 0 \<Longrightarrow> file_dup2 me oldfd newfd s = Some (- EBADF, s)"
proof -
  assume "- 32768 \<le> newfd" "newfd < 0"
  then have "newfd mod 65536 = newfd + 65536"
    using mod_pos_pos_trivial[of "newfd + 65536" 65536] by simp
  then have "FDS \<le> unsigned16 newfd" using \<open>- 32768 \<le> newfd\<close> by (simp add: unsigned16_def FDS_def)
  then show ?thesis by (simp add: file_dup2_def)
qed

lemma copy_refs_ok:
  "fsys (copy_refs es s) = fsys s \<and> fdt (copy_refs es s) = fdt s \<and> clock (copy_refs es s) = clock s \<and> plock (copy_refs es s) = plock s \<and>
   o_file (ofile (copy_refs es s) a) = o_file (ofile s a) \<and>
   (o_refs (ofile s a) + count_list (map fst es) (Some a) \<le> 255 \<longrightarrow>
     o_refs (ofile (copy_refs es s) a) = o_refs (ofile s a) + count_list (map fst es) (Some a))"
  by (induction es s rule: copy_refs.induct) auto

text \<open>C6. \<open>fork\<close> copies the table: the child names the same open files, and each count grows by the descriptors copied.
  The count has 8 bits, which bounds how often the table can be copied.
\<close>

theorem file_fdtable_copy_shares:
  assumes wf: "file_wf s P (\<lambda>_. 0) A B X" and p: "parent \<in> set P" and c: "child \<notin> set P" and free: "\<not> clock s" "\<not> plock s parent"
    and r: "\<And>a. a \<in> A \<Longrightarrow> slots P s a + count_list (map fst (fdt s parent)) (Some a) \<le> 255"
  shows "\<exists>s'. file_fdtable_copy parent child s = Some s' \<and> file_wf s' (child # P) (\<lambda>_. 0) A B X \<and>
    fdt s' = (fdt s)(child := fdt s parent) \<and> fsys s' = fsys s"
proof -
  obtain t where t: "file_locks parent s = Some t" "file_wf t P (\<lambda>_. 0) A B X" "fdt t = fdt s" "ofile t = ofile s" "fsys t = fsys s"
    using locked_ok[OF wf free] by blast
  define s1 where "s1 = t\<lparr>fdt := (fdt t)(child := fdt t parent)\<rparr>"
  define s' where "s' = file_unlocks parent (copy_refs (fdt s parent) s1)"
  note cr = copy_refs_ok[of "fdt s parent" s1]
  have f: "fdt s' = (fdt s)(child := fdt s parent)" and fs: "fsys s' = fsys s" using cr by (simp_all add: s'_def s1_def t(3,5))
  have sl: "slots (child # P) s' a = count_list (map fst (fdt s parent)) (Some a) + slots P s a" for a
  proof -
    have "(\<Sum>q \<leftarrow> P. count_list (map fst (fdt s' q)) (Some a)) = (\<Sum>q \<leftarrow> P. count_list (map fst (fdt s q)) (Some a))"
      unfolding f using c by (intro arg_cong[of _ _ sum_list] map_cong) auto
    moreover have "fdt s' child = fdt s parent" by (simp add: f)
    ultimately show ?thesis by (simp add: slots_def)
  qed
  have us: "users X s' A = users X s A"
  proof -
    have "o_file (ofile s' a) = o_file (ofile s a)" for a using cr[of a] by (simp add: s'_def s1_def t(4))
    then show ?thesis by (simp add: users_def fun_eq_iff)
  qed
  obtain L K where L: "vfs_wf (fsys s') L K (users X s' A) (A \<union> B)" using file_wfD(8)[OF wf] unfolding fs us by blast
  have "file_wf s' (child # P) (\<lambda>_. 0) A B X"
  proof (rule file_wfI[OF _ _ _ _ _ _ _ L])
    show "distinct (child # P)" "finite A" "A \<inter> B = {}" "\<not> vlocks (fsys s') None" using file_wfD(1-4)[OF wf] c by (simp_all add: fs)
    show "length (fdt s' q) = FDS" if "q \<in> set (child # P)" for q using file_wfD(5)[OF wf, of q] file_wfD(5)[OF wf p] that by (auto simp: f)
    show "slots (child # P) s' a + 0 = 0" if "a \<notin> A" for a
    proof -
      have "slots P s a = 0" using file_wfD(6)[OF wf that] by simp
      moreover have "count_list (map fst (fdt s parent)) (Some a) = 0"
        using calculation slots_pos[OF p, of _ s a] by (fastforce simp: count_list_0_iff in_set_conv_nth)
      ultimately show ?thesis by (simp add: sl)
    qed
    show "o_refs (ofile s' a) = slots (child # P) s' a + 0 \<and> 0 < o_refs (ofile s' a) \<and> o_refs (ofile s' a) \<le> 255" if "a \<in> A" for a
      using file_wfD(7)[OF wf that] r[OF that] cr[of a] sl[of a] by (auto simp: s'_def s1_def t(4))
  qed
  moreover have "file_fdtable_copy parent child s = Some s'" by (simp add: file_fdtable_copy_def t(1,3) s'_def s1_def Let_def)
  ultimately show ?thesis using f fs by blast
qed

section \<open>Opening\<close>

lemma block_alloc:
  assumes wf: "vfs_wf v L K ext C" and k: "kmalloc n (kh v) = Some (r, h)" and n: "0 < n" "n \<le> 65528"
  shows "case r of None \<Rightarrow> vfs_wf (v\<lparr>kh := h\<rparr>) L K ext C | Some a \<Rightarrow> a \<notin> L \<union> C \<and> vfs_wf (v\<lparr>kh := h\<rparr>) L K ext (insert a C)"
proof -
  obtain dp where "tree_ok v L K ext dp" using wfD(4)[OF wf] by blast
  then have "tree_ok (v\<lparr>kh := h\<rparr>) L K ext dp" by (rule tree_vdep) simp_all
  then show ?thesis
    using owned_alloc[OF wfD(1)[OF wf] k n] wfD(2,3)[OF wf] unfolding vfs_wf_def by (auto split: option.splits)
qed

lemma block_free:
  assumes wf: "vfs_wf v L K ext (insert a C)" and a: "a \<notin> C"
  shows "\<exists>h. kfree (Some a) (kh v) = Some h \<and> vfs_wf (v\<lparr>kh := h\<rparr>) L K ext C"
proof -
  have "owned (kh v) (L \<union> insert a C)" by (rule wfD(1)[OF wf])
  from owned_free[OF this, of a] obtain h where h: "kfree (Some a) (kh v) = Some h" "owned h (L \<union> insert a C - {a})" by auto
  have "L \<union> insert a C - {a} = L \<union> C" using wfD(2)[OF wf] a by auto
  moreover obtain dp where "tree_ok v L K ext dp" using wfD(4)[OF wf] by blast
  then have "tree_ok (v\<lparr>kh := h\<rparr>) L K ext dp" by (rule tree_vdep) simp_all
  ultimately have "vfs_wf (v\<lparr>kh := h\<rparr>) L K ext C" using h(2) wfD(2,3)[OF wf] unfolding vfs_wf_def by auto
  then show ?thesis using h(1) by blast
qed

lemma undo_open:
  assumes wf: "vfs_wf v L K (ext(x := ext x + 1)) (insert a C)" and a: "a \<notin> C" and l: "\<not> vlocks v None"
  shows "\<exists>v' h L' K'. fs_close x v = Some (0, v') \<and> kfree (Some a) (kh v') = Some h \<and> vfs_wf (v'\<lparr>kh := h\<rparr>) L' K' ext C \<and> \<not> vlocks v' None"
proof -
  from close_wf[OF wf _ l, of x] obtain v' L' K' where c: "fs_close x v = Some (0, v')" "vfs_wf v' L' K' (ext(x := ext x + 1, x := (ext(x := ext x + 1)) x - 1)) (insert a C)"
    "same_files L' v v'" by auto
  have "ext(x := ext x + 1, x := (ext(x := ext x + 1)) x - 1) = ext" by auto
  then have wf': "vfs_wf v' L' K' ext (insert a C)" using c(2) by simp
  from block_free[OF wf' a] obtain h where "kfree (Some a) (kh v') = Some h" "vfs_wf (v'\<lparr>kh := h\<rparr>) L' K' ext C" by blast
  moreover have "\<not> vlocks v' None" using c(3) l by (simp add: same_files_def)
  ultimately show ?thesis using c(1) by blast
qed

lemma free_fd_ok: "free_fd ts i = (case List.find (\<lambda>j. fst (ts ! j) = None) [0 ..< length ts] of None \<Rightarrow> None | Some j \<Rightarrow> Some (i + j))"
proof (induction ts i rule: free_fd.induct)
  case (2 u es i)
  have "[0 ..< length ((None, u) # es)] = 0 # map Suc [0 ..< length es]" by (simp add: upt_conv_Cons map_Suc_upt del: upt_Suc)
  then show ?case by simp
next
  case (3 a u es i)
  have "[0 ..< length ((Some a, u) # es)] = 0 # map Suc [0 ..< length es]" by (simp add: upt_conv_Cons map_Suc_upt del: upt_Suc)
  moreover have "List.find P (map Suc xs) = map_option Suc (List.find (\<lambda>j. P (Suc j)) xs)" for P xs by (induction xs) auto
  ultimately show ?case using 3 by (simp split: option.splits)
qed simp

lemma free_fd_Some: "free_fd ts 0 = Some j \<Longrightarrow> j < length ts \<and> fst (ts ! j) = None"
  unfolding free_fd_ok by (auto simp: find_Some_iff split: option.splits)

lemma users_insert:
  assumes "finite A" and "a \<notin> A" and "\<And>b. b \<in> A \<Longrightarrow> o_file (ofile s' b) = o_file (ofile s b)"
  shows "users X s' (insert a A) = (users X s A)(o_file (ofile s' a) := users X s A (o_file (ofile s' a)) + 1)"
proof
  fix f
  have "{b \<in> insert a A. o_file (ofile s' b) = f} = (if o_file (ofile s' a) = f then {a} else {}) \<union> {b \<in> A. o_file (ofile s b) = f}"
    using assms(3) by auto
  then show "users X s' (insert a A) f = ((users X s A)(o_file (ofile s' a) := users X s A (o_file (ofile s' a)) + 1)) f"
    using assms(1,2) by (auto simp: users_def)
qed

lemma wf_refs_lt:
  assumes "vfs_wf v L K ext C" and "\<And>f. f_nrefs (vfile v f) < 127" and "f \<in> L"
  shows "refs v L K ext f < 127"
proof -
  obtain dp where "tree_ok v L K ext dp" using wfD(4)[OF assms(1)] by blast
  then have "f_nrefs (vfile v f) = int (refs v L K ext f)" using assms(3) unfolding tree_ok_def file_ok_def by blast
  then show ?thesis using assms(2)[of f] by simp
qed

lemma same_wf:
  assumes wf: "file_wf s P (\<lambda>_. 0) A B X" and eq: "fdt s' = fdt s" "\<And>b. b \<in> A \<Longrightarrow> ofile s' b = ofile s b"
    and v: "vfs_wf (fsys s') L K (users X s A) (A \<union> B)" "\<not> vlocks (fsys s') None"
  shows "file_wf s' P (\<lambda>_. 0) A B X"
proof -
  have sl: "slots P s' = slots P s" by (simp add: slots_def eq fun_eq_iff)
  have "users X s' A = users X s A" by (rule users_cong) (simp add: eq(2))
  then have w: "vfs_wf (fsys s') L K (users X s' A) (A \<union> B)" using v(1) by simp
  show ?thesis
  proof (rule file_wfI[OF _ _ _ v(2) _ _ _ w])
    show "distinct P" "finite A" "A \<inter> B = {}" using file_wfD(1-3)[OF wf] .
    show "length (fdt s' q) = FDS" if "q \<in> set P" for q using file_wfD(5)[OF wf that] by (simp add: eq)
    show "slots P s' b + 0 = 0" if "b \<notin> A" for b using file_wfD(6)[OF wf that] by (simp add: sl)
    show "o_refs (ofile s' b) = slots P s' b + 0 \<and> 0 < o_refs (ofile s' b) \<and> o_refs (ofile s' b) \<le> 255" if "b \<in> A" for b
      using file_wfD(7)[OF wf that] eq(2)[OF that] unfolding sl by presburger
  qed
qed

lemma install_ok:
  assumes wf: "file_wf s P (\<lambda>_. 0) A B X" and p: "me \<in> set P" and free: "\<not> clock s" "\<not> plock s me"
    and eq: "fdt s5 = fdt s" "clock s5 = clock s" "plock s5 = plock s" "\<And>b. b \<in> A \<Longrightarrow> ofile s5 b = ofile s b"
    and a: "a \<notin> A \<union> B" "o_refs (ofile s5 a) = 1" and x: "o_file (ofile s5 a) = x"
    and v: "vfs_wf (fsys s5) L K ((users X s A)(x := users X s A x + 1)) (insert a (A \<union> B))" "\<not> vlocks (fsys s5) None"
  shows "\<exists>r s'. install_fd me a x mode s5 = Some (r, s') \<and> (r = - ENFILE \<and> file_wf s' P (\<lambda>_. 0) A B X \<and> fdt s' = fdt s \<or>
    0 \<le> r \<and> nat r < FDS \<and> fst (fdt s me ! nat r) = None \<and> fdt s' = (fdt s)(me := (fdt s me)[nat r := (Some a, mode)]) \<and>
    file_wf s' P (\<lambda>_. 0) (insert a A) B X)"
proof -
  have sl: "slots P s5 = slots P s" by (simp add: slots_def eq fun_eq_iff)
  have us: "users X s5 (insert a A) = (users X s A)(x := users X s A x + 1)"
    using users_insert[OF file_wfD(2)[OF wf], of a s5 s] a(1) eq(4) x by auto
  have v': "vfs_wf (fsys s5) L K (users X s5 (insert a A)) (insert a A \<union> B)" using v(1) unfolding us by simp
  have wf5: "file_wf s5 P ((\<lambda>_. 0)(a := 1)) (insert a A) B X"
  proof (rule file_wfI[OF _ _ _ v(2) _ _ _ v'])
    show "distinct P" "finite (insert a A)" "insert a A \<inter> B = {}" using file_wfD(1-3)[OF wf] a(1) by auto
    show "length (fdt s5 q) = FDS" if "q \<in> set P" for q using file_wfD(5)[OF wf that] by (simp add: eq)
    show "slots P s5 b + ((\<lambda>_. 0)(a := 1)) b = 0" if "b \<notin> insert a A" for b using file_wfD(6)[OF wf, of b] that by (simp add: sl)
    show "o_refs (ofile s5 b) = slots P s5 b + ((\<lambda>_. 0)(a := 1)) b \<and> 0 < o_refs (ofile s5 b) \<and> o_refs (ofile s5 b) \<le> 255"
      if "b \<in> insert a A" for b
    proof (cases "b = a")
      case True
      then show ?thesis using file_wfD(6)[OF wf, of a] a by (simp add: sl)
    next
      case False
      then have b: "b \<in> A" using that by simp
      have "o_refs (ofile s5 b) = o_refs (ofile s b)" using eq(4)[OF b] by simp
      then show ?thesis using file_wfD(7)[OF wf b] False unfolding sl by simp
    qed
  qed
  have free5: "\<not> clock s5" "\<not> plock s5 me" using free eq by simp_all
  obtain t where t: "file_locks me s5 = Some t" "file_wf t P ((\<lambda>_. 0)(a := 1)) (insert a A) B X" "fdt t = fdt s5" "ofile t = ofile s5" "fsys t = fsys s5"
    "plock t = (plock s5)(me := True)" using locked_ok[OF wf5 free5] by blast
  show ?thesis
  proof (cases "free_fd (fdt t me) 0")
    case (Some j)
    have j: "j < FDS" "fst (fdt t me ! j) = None" using free_fd_Some[OF Some] file_wfD(5)[OF t(2) p] by simp_all
    have "file_wf (set_fd me j (Some a, mode) t) P (((\<lambda>_. 0)(a := 1))(a := ((\<lambda>_. 0)(a := 1)) a - 1)) (insert a A) B X"
      by (rule store_fd[OF t(2) p j]) simp
    moreover have "((\<lambda>_. 0)(a := 1 :: nat))(a := ((\<lambda>_. 0)(a := 1)) a - 1) = (\<lambda>_. 0)" by auto
    ultimately have "file_wf (file_unlocks me (set_fd me j (Some a, mode) t)) P (\<lambda>_. 0) (insert a A) B X" using unlocked_ok by metis
    then show ?thesis using t(1,3) Some j eq(1)
      by (intro exI[of _ "int j"] exI[of _ "file_unlocks me (set_fd me j (Some a, mode) t)"]) (simp add: install_fd_def fun_eq_iff)
  next
    case None
    have "a \<notin> A \<union> B" by (rule a(1))
    from undo_open[OF v(1) this v(2)] obtain v' h L' K' where u: "fs_close x (fsys s5) = Some (0, v')" "kfree (Some a) (kh v') = Some h"
      "vfs_wf (v'\<lparr>kh := h\<rparr>) L' K' (users X s A) (A \<union> B)" "\<not> vlocks v' None" by blast
    define s' where "s' = (file_unlocks me t)\<lparr>fsys := v'\<lparr>kh := h\<rparr>\<rparr>"
    have f: "fdt s' = fdt s" "fsys s' = v'\<lparr>kh := h\<rparr>" "ofile s' = ofile s5" by (simp_all add: s'_def t eq)
    have "file_wf s' P (\<lambda>_. 0) A B X"
      by (rule same_wf[OF wf f(1), of L' K']) (use eq(4) u(3,4) in \<open>simp_all add: f\<close>)
    moreover have "install_fd me a x mode s5 = Some (- ENFILE, s')"
      using t(1,3,5) None u(1,2) by (simp add: install_fd_def s'_def)
    ultimately show ?thesis using f(1) by blast
  qed
qed

text \<open>Whatever \<open>file_open\<close> returns, the counts are exact; on success the first free descriptor names a new open file.\<close>

definition opened :: "'x fstate \<Rightarrow> nat list \<Rightarrow> nat \<Rightarrow> nat \<Rightarrow> nat set \<Rightarrow> nat set \<Rightarrow> (nat \<Rightarrow> nat) \<Rightarrow> int \<Rightarrow> 'x fstate \<Rightarrow> bool" where
  "opened s P me mode A B X r s' \<longleftrightarrow> file_wf s' P (\<lambda>_. 0) A B X \<and> fdt s' = fdt s \<or>
    (\<exists>a. 0 \<le> r \<and> nat r < FDS \<and> a \<notin> A \<and> fst (fdt s me ! nat r) = None \<and> fdt s' = (fdt s)(me := (fdt s me)[nat r := (Some a, mode)]) \<and>
      file_wf s' P (\<lambda>_. 0) (insert a A) B X)"

locale file_backend = vfs_backend ops for ops :: "'x optab" +
  assumes truncate_tree: "op_truncate (ops k) f sz v = Some (e, w) \<Longrightarrow> same_tree v w"
begin

lemma truncate_wf:
  assumes "fs_truncate ops f sz v = Some (e, w)" and wf: "vfs_wf v L K ext C"
  shows "vfs_wf w L K ext C \<and> (\<not> vlocks v None \<longrightarrow> \<not> vlocks w None)"
proof -
  from assms(1) obtain v1 v2 where v: "vlock (Some f) v = Some v1" "op_truncate (op_of ops v1 f) f sz v1 = Some (e, v2)" "w = vunlock (Some f) v2"
    by (auto simp: fs_truncate_def split: Option.bind_splits)
  have t: "same_tree v1 v2" using truncate_tree v(2) unfolding op_of_def by blast
  have "vfs_wf v2 L K ext C" using same_tree_wf[OF _ t] wf_vlock[OF v(1)] wf by simp
  moreover have "vfs_wf w L K ext C" using calculation unfolding v(3) by (rule wf_vdep) (simp_all add: vunlock_def)
  moreover have "\<not> vlocks v None \<longrightarrow> \<not> vlocks w None" using t v(1,3) by (auto simp: same_tree_def vunlock_def vlock_def split: if_splits)
  ultimately show ?thesis by blast
qed

lemma truncated_ok:
  assumes op: "open_truncated ops me a x mode s3 = Some (r, s')" and wf: "file_wf s P (\<lambda>_. 0) A B X" and p: "me \<in> set P"
    and free: "\<not> clock s" "\<not> plock s me" and a: "a \<notin> A \<union> B"
    and s3: "fdt s3 = fdt s" "clock s3 = clock s" "plock s3 = plock s" "\<And>b. b \<noteq> a \<Longrightarrow> ofile s3 b = ofile s b" "o_refs (ofile s3 a) = 1" "o_file (ofile s3 a) = x"
    and v: "vfs_wf (fsys s3) L K ((users X s A)(x := users X s A x + 1)) (insert a (A \<union> B))" "\<not> vlocks (fsys s3) None"
  shows "opened s P me mode A B X r s'"
proof -
  from op obtain err2 v2 where tr: "(if mode AND O_TRUNC \<noteq> 0 then fs_truncate ops x 0 (fsys s3) else Some (0, fsys s3)) = Some (err2, v2)"
    unfolding open_truncated_def by (cases "if mode AND O_TRUNC \<noteq> 0 then fs_truncate ops x 0 (fsys s3) else Some (0, fsys s3)") auto
  have w2: "vfs_wf v2 L K ((users X s A)(x := users X s A x + 1)) (insert a (A \<union> B))" "\<not> vlocks v2 None"
    using tr truncate_wf[of x 0 "fsys s3" err2 v2] v by (auto split: if_splits)
  define s4 where "s4 = s3\<lparr>fsys := v2\<rparr>"
  have s4: "fdt s4 = fdt s" "clock s4 = clock s" "plock s4 = plock s" "\<And>b. b \<noteq> a \<Longrightarrow> ofile s4 b = ofile s b" "o_refs (ofile s4 a) = 1" "o_file (ofile s4 a) = x"
    using s3 by (simp_all add: s4_def)
  show ?thesis
  proof (cases "err2 = 0")
    case False
    from undo_open[OF w2(1) a w2(2)] obtain v3 h3 L3 K3 where u: "fs_close x v2 = Some (0, v3)" "kfree (Some a) (kh v3) = Some h3"
      "vfs_wf (v3\<lparr>kh := h3\<rparr>) L3 K3 (users X s A) (A \<union> B)" "\<not> vlocks v3 None" by blast
    have s': "s' = s4\<lparr>fsys := v3\<lparr>kh := h3\<rparr>\<rparr>"
      using op False u(1,2) unfolding open_truncated_def tr by (simp add: s4_def)
    have "file_wf s' P (\<lambda>_. 0) A B X"
    proof (rule same_wf[OF wf, of s' L3 K3])
      show "ofile s' b = ofile s b" if "b \<in> A" for b using s4(4)[of b] that a by (auto simp: s')
    qed (use s4 u(3,4) in \<open>simp_all add: s'\<close>)
    then show ?thesis using s4 by (simp add: s' opened_def)
  next
    case True
    define s5 where "s5 = (if mode AND O_APPEND \<noteq> 0 then upd_ofile a (\<lambda>y. y\<lparr>o_offset := f_size (vfile (fsys s4) x)\<rparr>) s4 else s4)"
    have s5: "fdt s5 = fdt s" "clock s5 = clock s" "plock s5 = plock s" "\<And>b. b \<in> A \<Longrightarrow> ofile s5 b = ofile s b" "o_refs (ofile s5 a) = 1"
      "o_file (ofile s5 a) = x" "fsys s5 = v2" using s4 a by (auto simp: s5_def s4_def)
    have "install_fd me a x mode s5 = Some (r, s')"
      using op True unfolding open_truncated_def tr by (simp add: s4_def[symmetric]) (simp add: s5_def)
    moreover from install_ok[OF wf p free s5(1-4) a s5(5,6), of L K mode] w2 obtain r1 t1 where
      "install_fd me a x mode s5 = Some (r1, t1)" "r1 = - ENFILE \<and> file_wf t1 P (\<lambda>_. 0) A B X \<and> fdt t1 = fdt s \<or>
        0 \<le> r1 \<and> nat r1 < FDS \<and> fst (fdt s me ! nat r1) = None \<and> fdt t1 = (fdt s)(me := (fdt s me)[nat r1 := (Some a, mode)]) \<and>
        file_wf t1 P (\<lambda>_. 0) (insert a A) B X" unfolding s5(7) by blast
    ultimately show ?thesis using a unfolding opened_def by auto
  qed
qed

lemma file_open_ok:
  assumes op: "file_open ops junk me path mode attr s = Some (r, s')" and wf: "file_wf s P (\<lambda>_. 0) A B X" and p: "me \<in> set P"
    and free: "\<not> clock s" "\<not> plock s me" and lt: "\<And>f. f_nrefs (vfile (fsys s) f) < 127"
  shows "opened s P me mode A B X r s'"
proof -
  obtain L K where vw: "vfs_wf (fsys s) L K (users X s A) (A \<union> B)" using file_wfD(8)[OF wf] by blast
  from op obtain k h where k: "kmalloc FILE_OPEN_SIZE (kh (fsys s)) = Some (k, h)"
    unfolding file_open_def by (cases "kmalloc FILE_OPEN_SIZE (kh (fsys s))") auto
  define s1 where "s1 = s\<lparr>fsys := (fsys s)\<lparr>kh := h\<rparr>\<rparr>"
  note al = block_alloc[OF vw k]
  show ?thesis
  proof (cases k)
    case None
    then have "s' = s1" using op unfolding file_open_def k by (simp add: s1_def)
    moreover have "file_wf s1 P (\<lambda>_. 0) A B X"
      by (rule same_wf[OF wf, of s1 L K]) (use al None file_wfD(4)[OF wf] in \<open>simp_all add: s1_def FILE_OPEN_SIZE_def\<close>)
    ultimately show ?thesis by (simp add: s1_def opened_def)
  next
    case (Some a)
    have a: "a \<notin> L \<union> (A \<union> B)" "vfs_wf (fsys s1) L K (users X s A) (insert a (A \<union> B))"
      using al Some by (simp_all add: s1_def FILE_OPEN_SIZE_def)
    define s2 where "s2 = upd_ofile a (\<lambda>x. x\<lparr>o_refs := 1, o_offset := 0, o_lock := False\<rparr>) s1"
    have s2: "fsys s2 = fsys s1" "fdt s2 = fdt s" "clock s2 = clock s" "plock s2 = plock s" "\<And>b. b \<noteq> a \<Longrightarrow> ofile s2 b = ofile s b" "o_refs (ofile s2 a) = 1"
      by (simp_all add: s2_def s1_def)
    have body: "do {
          (err, f', v) \<leftarrow> fs_open ops junk path (Some (o_file (ofile s2 a))) mode attr (fsys s2);
          (if err \<noteq> 0 then do { h2 \<leftarrow> kfree (Some a) (kh v); Some (err, s2\<lparr>fsys := v\<lparr>kh := h2\<rparr>\<rparr>) }
           else do { f \<leftarrow> f'; open_truncated ops me a f mode (upd_ofile a (\<lambda>x. x\<lparr>o_file := f\<rparr>) (s2\<lparr>fsys := v\<rparr>)) }) } = Some (r, s')"
      using op unfolding file_open_def k Some Let_def by (simp only: bind.bind_lunit prod.case option.case s1_def[symmetric] s2_def[symmetric])
    then obtain err f' v where o: "fs_open ops junk path (Some (o_file (ofile s2 a))) mode attr (fsys s2) = Some (err, f', v)"
      by (cases "fs_open ops junk path (Some (o_file (ofile s2 a))) mode attr (fsys s2)") auto
    have "refs (fsys s2) L K (users X s A) x < 127" if "x \<in> L" for x
      using wf_refs_lt[OF a(2) _ that] lt by (simp add: s2(1) s1_def)
    from open_wf[OF o, of L K "users X s A" "insert a (A \<union> B)"] a(2) this obtain L1 K1 where
      ok: "err = 0 \<Longrightarrow> \<exists>x. f' = Some x \<and> vfs_wf v L1 K1 ((users X s A)(x := users X s A x + 1)) (insert a (A \<union> B))"
        "err \<noteq> 0 \<Longrightarrow> vfs_wf v L1 K1 (users X s A) (insert a (A \<union> B))" by (auto simp: s2(1))
    have vl: "\<not> vlocks v None" using o by (auto simp: fs_open_def vunlock_def split: Option.bind_splits)
    have aAB: "a \<notin> A \<union> B" using a(1) by blast
    show ?thesis
    proof (cases "err = 0")
      case False
      from block_free[OF ok(2)[OF False] aAB] obtain h2 where h2: "kfree (Some a) (kh v) = Some h2" "vfs_wf (v\<lparr>kh := h2\<rparr>) L1 K1 (users X s A) (A \<union> B)" by blast
      have s': "s' = s2\<lparr>fsys := v\<lparr>kh := h2\<rparr>\<rparr>" using body False h2(1) unfolding o by simp
      have "file_wf s' P (\<lambda>_. 0) A B X"
      proof (rule same_wf[OF wf, of s' L1 K1])
        show "ofile s' b = ofile s b" if "b \<in> A" for b using s2(5)[of b] that aAB by (auto simp: s')
      qed (use s2 h2(2) vl in \<open>simp_all add: s'\<close>)
      then show ?thesis using s2 by (simp add: s' opened_def)
    next
      case True
      from ok(1)[OF True] obtain x where x: "f' = Some x" "vfs_wf v L1 K1 ((users X s A)(x := users X s A x + 1)) (insert a (A \<union> B))" by blast
      have "open_truncated ops me a x mode (upd_ofile a (\<lambda>y. y\<lparr>o_file := x\<rparr>) (s2\<lparr>fsys := v\<rparr>)) = Some (r, s')"
        using body True x(1) unfolding o by simp
      from truncated_ok[OF this wf p free aAB] show ?thesis using s2 x(2) vl by simp
    qed
  qed
qed

end

section \<open>A small instance\<close>

text \<open>Process 2 has the file \<open>/A\<close> open twice, as descriptors 0 and 1, and the directory \<open>/B\<close> as descriptor 2.\<close>

definition demo_fs :: "unit fstate" where
  "demo_fs = \<lparr>fsys = demo_vfs\<lparr>kh := \<lparr>khdr = (\<lambda>a. if a = 996 then \<lparr>h_size = 33, h_next = Some 1032\<rparr> else if a = 1032 then \<lparr>h_size = 33, h_next = Some 1068\<rparr>
        else if a = 1068 then \<lparr>h_size = 33, h_next = Some 1104\<rparr> else if a = 1104 then \<lparr>h_size = 13, h_next = Some 1120\<rparr> else \<lparr>h_size = 13, h_next = None\<rparr>),
        kbytes = (\<lambda>_. 0), kheap = Some 996, khint = None, klocked = False\<rparr>\<rparr>,
     ofile = (\<lambda>a. if a = 1108 then \<lparr>o_file = 1036, o_offset = 0, o_refs = 2, o_lock = False\<rparr> else \<lparr>o_file = 1072, o_offset = 0, o_refs = 1, o_lock = False\<rparr>),
     fdt = (\<lambda>_. [(Some 1108, O_RDONLY), (Some 1108, O_RDONLY), (Some 1124, O_RDONLY)] @ replicate 13 (None, 0)),
     clock = False, plock = (\<lambda>_. False)\<rparr>"

lemma demo_fdt: "fdt demo_fs p = [(Some 1108, O_RDONLY), (Some 1108, O_RDONLY), (Some 1124, O_RDONLY)] @ replicate 13 (None, 0)"
  by (simp add: demo_fs_def)

lemma demo_open: "o_refs (ofile demo_fs a) = (if a = 1108 then 2 else 1)" "vlocks (fsys demo_fs) l = False"
  by (simp_all add: demo_fs_def demo_vfs_def)

lemma demo_count: "count_list (map fst (fdt demo_fs p)) (Some a) = (if a = 1108 then 2 else if a = 1124 then 1 else 0)"
proof -
  have "count_list (replicate n None) (Some a) = 0" for n by (induction n) simp_all
  then show ?thesis by (simp add: demo_fdt)
qed

lemma demo_slots: "slots [2] demo_fs a = (if a = 1108 then 2 else if a = 1124 then 1 else 0)"
  by (simp add: slots_def demo_count)

lemma demo_fs_wf: "file_wf demo_fs [2] (\<lambda>_. 0) {1108, 1124} {} (\<lambda>_. 0)"
proof -
  have "heap_ok (kh (fsys demo_fs)) 996 1136 [(996, 32, True), (1032, 32, True), (1068, 32, True), (1104, 12, True), (1120, 12, True)]"
    by (simp add: heap_ok_def heap_rep_def demo_fs_def blk_ok_def knext_def no_free_pair_def hint_ok_def HDR_def)
  then have o: "owned (kh (fsys demo_fs)) ({1000, 1036, 1072} \<union> {1108, 1124})"
    by (rule ownedI) (auto simp: HDR_def)
  have u: "users (\<lambda>_. 0) demo_fs {1108, 1124} = (\<lambda>_. 0)(1036 := 1, 1072 := 1)"
  proof
    fix f
    have "{a \<in> {1108, 1124}. o_file (ofile demo_fs a) = f} = (if f = 1036 then {1108} else if f = 1072 then {1124} else {})"
      by (auto simp: demo_fs_def)
    then show "users (\<lambda>_. 0) demo_fs {1108, 1124} f = ((\<lambda>_. 0)(1036 := 1, 1072 := 1)) f" by (simp add: users_def)
  qed
  obtain dp where "tree_ok demo_vfs {1000, 1036, 1072} ((\<lambda>_. [])(1000 := [1036, 1072])) ((\<lambda>_. 0)(1036 := 1, 1072 := 1)) dp"
    using wfD(4)[OF demo_wf] by blast
  then have "tree_ok (fsys demo_fs) {1000, 1036, 1072} ((\<lambda>_. [])(1000 := [1036, 1072])) ((\<lambda>_. 0)(1036 := 1, 1072 := 1)) dp"
    by (rule tree_vdep) (simp_all add: demo_fs_def)
  then have w: "vfs_wf (fsys demo_fs) {1000, 1036, 1072} ((\<lambda>_. [])(1000 := [1036, 1072])) (users (\<lambda>_. 0) demo_fs {1108, 1124}) ({1108, 1124} \<union> {})"
    using o unfolding vfs_wf_def u by auto
  show ?thesis
    by (rule file_wfI[OF _ _ _ _ _ _ _ w]) (auto simp: demo_fdt demo_slots FDS_def demo_open)
qed

lemma demo_fs_free: "\<not> clock demo_fs" "\<not> plock demo_fs p"
  by (simp_all add: demo_fs_def)

theorem file_close_releases_witness:
  "\<exists>s' A' L'. file_close 2 2 demo_fs = Some (0, s') \<and> file_wf s' [2] (\<lambda>_. 0) A' {} (\<lambda>_. 0) \<and> A' = {a \<in> {1108, 1124}. 0 < slots [2] s' a} \<and>
    owned (kh (fsys s')) (L' \<union> A' \<union> {})"
proof -
  obtain L K where "vfs_wf (fsys demo_fs) L K (users (\<lambda>_. 0) demo_fs {1108, 1124}) ({1108, 1124} \<union> {})"
    using file_wfD(8)[OF demo_fs_wf] by blast
  from file_close_releases[OF demo_fs_wf this, of 2 2] show ?thesis
    using demo_fs_free by (simp add: demo_fdt FDS_def) blast
qed

theorem file_close_all_empties_witness: "\<exists>s' A'. file_close_all 2 demo_fs = Some s' \<and> file_wf s' [2] (\<lambda>_. 0) A' {} (\<lambda>_. 0)"
  using file_close_all_empties[OF demo_fs_wf, of 2] demo_fs_free by auto

theorem file_dup2_shares_witness: "\<exists>s' A'. file_dup2 2 0 2 demo_fs = Some (2, s') \<and> file_wf s' [2] (\<lambda>_. 0) A' {} (\<lambda>_. 0)"
  using file_dup2_shares[OF demo_fs_wf, of 2 0 2 1108 O_RDONLY] demo_fs_free by (auto simp: demo_fdt demo_slots FDS_def)

theorem file_dup2_negative_witness: "file_dup2 2 0 (- 1) demo_fs = Some (- EBADF, demo_fs)"
  by (rule file_dup2_negative) simp_all

theorem file_fdtable_copy_shares_witness: "\<exists>s'. file_fdtable_copy 2 3 demo_fs = Some s' \<and> file_wf s' [3, 2] (\<lambda>_. 0) {1108, 1124} {} (\<lambda>_. 0)"
proof -
  have "slots [2] demo_fs a + count_list (map fst (fdt demo_fs 2)) (Some a) \<le> 255" for a by (simp add: demo_count demo_slots)
  then show ?thesis using file_fdtable_copy_shares[OF demo_fs_wf, of 2 3] demo_fs_free by simp metis
qed

end
