(* ===== verification/Kprintf.thy ===== *)
theory Kprintf
  imports ZPrelude
begin

text \<open>
  Formatted output, \<open>kernel/lib/kprintf.c\<close> (without \<open>KPRINTF_LONG\<close>): \<open>format_string\<close> turns a format and
  its arguments into the characters it feeds, one by one, to the buffer or the console. An argument that
  is missing or of another kind than its conversion is undefined (\<open>None\<close>). Strings are lists of
  character codes without the NUL.
\<close>

datatype karg = CharArg nat | StrArg "nat list" | NumArg nat

definition digit_char :: "nat \<Rightarrow> nat" where
  "digit_char d = (if d < 10 then 48 + d else 55 + d)"

text \<open>\<open>__uitoa\<close> and \<open>__itoa\<close> of the C library take a 16 bit value.\<close>

fun digits :: "nat \<Rightarrow> nat \<Rightarrow> nat list" where
  "digits num base = (if base < 2 \<or> num < base then [digit_char num] else digits (num div base) base @ [digit_char (num mod base)])"

declare digits.simps [simp del]

definition uitoa :: "nat \<Rightarrow> nat \<Rightarrow> nat list" where
  "uitoa num base = digits (u16 num) base"

definition itoa :: "nat \<Rightarrow> nat \<Rightarrow> nat list" where
  "itoa num base = (if u16 num < 32768 then uitoa num base else 45 # uitoa (65536 - u16 num) base)"

fun format_string :: "nat list \<Rightarrow> karg list \<Rightarrow> nat list option" where
  "format_string [] args = Some []"
| "format_string (c # fmt) args =
     (if c \<noteq> 37 then map_option (\<lambda>out. c # out) (format_string fmt args)
      else case fmt of
        [] \<Rightarrow> Some []
      | f # rest \<Rightarrow>
          if f = 99 then (case args of CharArg ch # as \<Rightarrow> map_option (\<lambda>out. ch # out) (format_string rest as) | _ \<Rightarrow> None)
          else if f = 115 then (case args of StrArg s # as \<Rightarrow> map_option (\<lambda>out. s @ out) (format_string rest as) | _ \<Rightarrow> None)
          else if f = 37 then map_option (\<lambda>out. 37 # out) (format_string rest args)
          else if f = 100 \<or> f = 117 \<or> f = 120 then
            (case args of NumArg n # as \<Rightarrow>
               map_option (\<lambda>out. (if f = 100 then itoa n 10 else uitoa n (if f = 120 then 16 else 10)) @ out) (format_string rest as)
             | _ \<Rightarrow> None)
          else format_string rest args)"

text \<open>\<open>ksprintf\<close> writes the characters and a NUL to the start of the buffer; beyond its end is undefined.\<close>

definition ksprintf :: "nat list \<Rightarrow> nat list \<Rightarrow> karg list \<Rightarrow> nat list option" where
  "ksprintf buff fmt args = (case format_string fmt args of
     None \<Rightarrow> None
   | Some out \<Rightarrow> if length buff < length out + 1 then None else Some (out @ [0] @ drop (length out + 1) buff))"

text \<open>Reading digits back.\<close>

definition char_digit :: "nat \<Rightarrow> nat" where
  "char_digit c = (if c < 58 then c - 48 else c - 55)"

lemma char_digit [simp]: "char_digit (digit_char d) = d"
  by (simp add: char_digit_def digit_char_def)

definition read_number :: "nat \<Rightarrow> nat list \<Rightarrow> nat" where
  "read_number base cs = foldl (\<lambda>n c. n * base + char_digit c) 0 cs"

lemma read_digits: "2 \<le> base \<Longrightarrow> read_number base (digits num base) = num"
proof (induction num base rule: digits.induct)
  case (1 num base)
  then show ?case by (subst digits.simps) (auto simp: read_number_def)
qed

text \<open>The printed digits stand for the number.\<close>

lemma read_uitoa: "2 \<le> base \<Longrightarrow> read_number base (uitoa num base) = u16 num"
  by (simp add: uitoa_def read_digits)

lemma uitoa_nonempty [simp]: "uitoa num base \<noteq> []"
  unfolding uitoa_def by (subst digits.simps) simp

lemma digits_chars: "2 \<le> base \<Longrightarrow> base \<le> 16 \<Longrightarrow> c \<in> set (digits num base) \<Longrightarrow> 48 \<le> c \<and> c \<le> 70"
proof (induction num base rule: digits.induct)
  case (1 num base)
  have d: "num mod base < 16" using 1(2,3) mod_less_divisor[of base num] by linarith
  show ?case
  proof (cases "num < base")
    case True
    then have "c = digit_char num" using 1(4) 1(2) by (subst (asm) digits.simps) simp
    then show ?thesis using True 1(3) by (simp add: digit_char_def)
  next
    case False
    then have "c \<in> set (digits (num div base) base) \<or> c = digit_char (num mod base)"
      using 1(4) 1(2) by (subst (asm) digits.simps) auto
    then show ?thesis using 1(1)[OF _ 1(2,3)] False 1(2) d by (auto simp: digit_char_def)
  qed
qed

lemma uitoa_chars: "2 \<le> base \<Longrightarrow> base \<le> 16 \<Longrightarrow> c \<in> set (uitoa num base) \<Longrightarrow> 48 \<le> c \<and> c \<le> 70"
  unfolding uitoa_def by (rule digits_chars)

lemma uitoa_length: "num < 256 \<Longrightarrow> length (uitoa num 10) \<le> 3"
proof -
  assume "num < 256"
  then have n: "u16 num = num" "num div 10 div 10 < 10" by (simp_all add: u16_def)
  then have "length (digits (num div 10 div 10) 10) = 1" by (subst digits.simps) simp
  then have "length (digits (num div 10) 10) \<le> 2" by (subst digits.simps) simp
  then show ?thesis unfolding uitoa_def n(1) by (subst digits.simps) simp
qed

text \<open>Plain text is fed as it is; the conversions the kernel uses.\<close>

lemma format_plain: "37 \<notin> set fmt \<Longrightarrow> format_string fmt args = Some fmt"
  by (induction fmt args rule: format_string.induct) auto

lemma format_name_number: "format_string [37, 115, 37, 117] [StrArg s, NumArg n] = Some (s @ uitoa n 10)"
  by simp

end
