(* ===== verification/DevFs.thy ===== *)
theory DevFs
  imports Kprintf FsTree Fat
begin

text \<open>
  The device file system \<open>kernel/fs/devfs.c\<close> and the state of all file systems of the kernel: the union
  in \<open>struct fs_ctx\<close> is two stores, one of the contexts of each file system; the entries of \<open>devfs\<close> are
  objects in the kernel heap, linked by \<open>next\<close>. A table of operations of a device is an address into
  the parameter \<open>devs\<close>, the devices themselves are the state \<open>'d\<close>.
\<close>

record devfs_entry =
  e_next :: "nat option"
  e_ops :: nat
  e_minor :: nat
  e_size :: nat
  e_name :: "nat list"

record devfs_ctx =
  dc_entries :: "nat option"
  dc_parent :: "nat option"
  dc_lock :: bool

record 'd kdev =
  k_ram :: "nat \<Rightarrow> nat \<Rightarrow> nat"
  k_scratch :: nat
  k_fat :: "nat \<Rightarrow> fat_ctx"
  k_pages :: page_common
  k_devfs :: "nat \<Rightarrow> devfs_ctx"
  k_entry :: "nat \<Rightarrow> devfs_entry"
  k_hw :: 'd

record 'd dev_ops =
  dev_read :: "nat \<Rightarrow> nat list \<Rightarrow> nat \<Rightarrow> 'd \<Rightarrow> (int \<times> nat list \<times> 'd) option"
  dev_write :: "nat \<Rightarrow> nat list \<Rightarrow> nat \<Rightarrow> 'd \<Rightarrow> (int \<times> 'd) option"
  dev_sync :: "nat \<Rightarrow> nat \<Rightarrow> nat \<Rightarrow> 'd \<Rightarrow> (int \<times> 'd) option"
  dev_ioctl :: "(nat \<Rightarrow> int \<Rightarrow> nat list \<Rightarrow> 'd \<Rightarrow> (int \<times> 'd) option) option"

text \<open>The entry behind an open file, and access to its device.\<close>

definition entry_of :: "'d kdev vfs \<Rightarrow> nat \<Rightarrow> nat option" where
  "entry_of v f = devfs_entry (f_file (vfile v f))"

definition set_hw :: "'d kdev vfs \<Rightarrow> 'd \<Rightarrow> 'd kdev vfs" where
  "set_hw v d = v\<lparr>vdev := (vdev v)\<lparr>k_hw := d\<rparr>\<rparr>"

definition upd_dctx :: "nat \<Rightarrow> (devfs_ctx \<Rightarrow> devfs_ctx) \<Rightarrow> 'd kdev vfs \<Rightarrow> 'd kdev vfs" where
  "upd_dctx c g v = v\<lparr>vdev := (vdev v)\<lparr>k_devfs := (k_devfs (vdev v))(c := g (k_devfs (vdev v) c))\<rparr>\<rparr>"

definition upd_entry :: "nat \<Rightarrow> (devfs_entry \<Rightarrow> devfs_entry) \<Rightarrow> 'd kdev vfs \<Rightarrow> 'd kdev vfs" where
  "upd_entry e g v = v\<lparr>vdev := (vdev v)\<lparr>k_entry := (k_entry (vdev v))(e := g (k_entry (vdev v) e))\<rparr>\<rparr>"

definition devfs_read :: "(nat \<Rightarrow> 'd dev_ops) \<Rightarrow> nat \<Rightarrow> nat list \<Rightarrow> nat \<Rightarrow> 'd kdev vfs \<Rightarrow> (int \<times> nat list \<times> 'd kdev vfs) option" where
  "devfs_read devs f buff offs v = (case entry_of v f of
     None \<Rightarrow> Some (- ENOSYS, buff, v)
   | Some e \<Rightarrow> do {
       (r, b, d) \<leftarrow> dev_read (devs (e_ops (k_entry (vdev v) e))) (e_minor (k_entry (vdev v) e)) buff offs (k_hw (vdev v));
       Some (r, b, set_hw v d) })"

definition devfs_write :: "(nat \<Rightarrow> 'd dev_ops) \<Rightarrow> nat \<Rightarrow> nat list \<Rightarrow> nat \<Rightarrow> 'd kdev vfs \<Rightarrow> (int \<times> 'd kdev vfs) option" where
  "devfs_write devs f buff offs v = (case entry_of v f of
     None \<Rightarrow> Some (- ENOSYS, v)
   | Some e \<Rightarrow> do {
       (r, d) \<leftarrow> dev_write (devs (e_ops (k_entry (vdev v) e))) (e_minor (k_entry (vdev v) e)) buff offs (k_hw (vdev v));
       Some (r, set_hw v d) })"

definition devfs_create :: "nat \<Rightarrow> nat list \<Rightarrow> nat \<Rightarrow> 'd kdev vfs \<Rightarrow> (int \<times> nat \<times> 'd kdev vfs) option" where
  "devfs_create dir name attr v = Some (- ENOSYS, 0, v)"

definition devfs_truncate :: "nat \<Rightarrow> nat \<Rightarrow> 'd kdev vfs \<Rightarrow> (int \<times> 'd kdev vfs) option" where
  "devfs_truncate f sz v = Some (- ENOSYS, v)"

definition devfs_remove :: "nat \<Rightarrow> 'd kdev vfs \<Rightarrow> (int \<times> 'd kdev vfs) option" where
  "devfs_remove f v = Some (- ENOSYS, v)"

definition devfs_move :: "nat \<Rightarrow> nat \<Rightarrow> nat list \<Rightarrow> int" where
  "devfs_move f ndir name = - ENOSYS"

text \<open>The loop of \<open>devfs_readdir\<close>: \<open>idx\<close> steps along the list.\<close>

fun nth_entry :: "(nat \<Rightarrow> nat option) \<Rightarrow> nat \<Rightarrow> nat option \<Rightarrow> nat option" where
  "nth_entry nx idx None = None"
| "nth_entry nx 0 (Some e) = Some e"
| "nth_entry nx (Suc idx) (Some e) = nth_entry nx idx (nx e)"

definition zero_dentry :: "nat list \<Rightarrow> fs_dentry" where
  "zero_dentry name = \<lparr>d_attr = 0, d_ctime = 0, d_atime = 0, d_mtime = 0, d_size = 0, d_name = name\<rparr>"

text \<open>Storing through \<open>file\<close> when it is NULL is undefined.\<close>

definition devfs_readdir ::
  "nat \<Rightarrow> nat list \<Rightarrow> fs_internal option \<Rightarrow> nat \<Rightarrow> 'd kdev vfs \<Rightarrow> (int \<times> (fs_dentry \<times> fs_internal option) option \<times> 'd kdev vfs) option" where
  "devfs_readdir dir buf file' idx v =
     (if entry_of v dir \<noteq> None then Some (- EINVAL, None, v)
      else (let c = f_ctx (vfile v dir); dc = k_devfs (vdev v) c in
        if idx = 0 then do {
          _ \<leftarrow> file';
          Some (0, Some (zero_dentry (put (replicate FS_NAME_LENGTH_MAX 0) 0 [46, 0]), Some (f_file (vfile v dir))), v) }
        else if idx = 1 then do {
          _ \<leftarrow> file';
          par \<leftarrow> dc_parent dc;
          Some (0, Some (zero_dentry (put (replicate FS_NAME_LENGTH_MAX 0) 0 [46, 46, 0]), Some (f_file (vfile v par))), v) }
        else do {
          check (\<not> dc_lock dc);
          (case nth_entry (\<lambda>e. e_next (k_entry (vdev v) e)) (idx - 2) (dc_entries dc) of
             None \<Rightarrow> Some (- ENOENT, None, v)
           | Some e \<Rightarrow> do {
               name \<leftarrow> ksprintf (replicate FS_NAME_LENGTH_MAX 0) [37, 115, 37, 117] [StrArg (e_name (k_entry (vdev v) e)), NumArg (e_minor (k_entry (vdev v) e))];
               internal \<leftarrow> file';
               Some (0, Some (zero_dentry name, Some (internal\<lparr>devfs_entry := Some e\<rparr>)), v) }) }))"

definition devfs_ioctl :: "(nat \<Rightarrow> 'd dev_ops) \<Rightarrow> nat \<Rightarrow> int \<Rightarrow> nat list \<Rightarrow> 'd kdev vfs \<Rightarrow> (int \<times> 'd kdev vfs) option" where
  "devfs_ioctl devs f op args v = do {
     e \<leftarrow> entry_of v f;
     (case dev_ioctl (devs (e_ops (k_entry (vdev v) e))) of
        None \<Rightarrow> Some (- ENOSYS, v)
      | Some io \<Rightarrow> do { (r, d) \<leftarrow> io (e_minor (k_entry (vdev v) e)) op args (k_hw (vdev v)); Some (r, set_hw v d) }) }"

definition devfs_mount :: "nat \<Rightarrow> nat option \<Rightarrow> nat \<Rightarrow> 'd kdev vfs \<Rightarrow> (int \<times> 'd kdev vfs) option" where
  "devfs_mount ctx dir root v =
     Some (0, upd_vfile root (\<lambda>x. x\<lparr>f_file := (f_file x)\<lparr>devfs_entry := None\<rparr>\<rparr>)
       (upd_dctx ctx (\<lambda>c. c\<lparr>dc_entries := None, dc_parent := dir\<rparr>) v))"

partial_function (option) devfs_unmount :: "nat \<Rightarrow> 'd kdev vfs \<Rightarrow> (int \<times> 'd kdev vfs) option" where
  "devfs_unmount ctx v = (case dc_entries (k_devfs (vdev v) ctx) of
     None \<Rightarrow> Some (0, v)
   | Some e \<Rightarrow> do {
       let v1 = upd_dctx ctx (\<lambda>c. c\<lparr>dc_entries := e_next (k_entry (vdev v) e)\<rparr>) v;
       h \<leftarrow> kfree (Some e) (kh v1);
       devfs_unmount ctx (v1\<lparr>kh := h\<rparr>) })"

declare devfs_unmount.simps [code]

text \<open>The loop of \<open>devfs_register\<close>: the minor number and the last entry.\<close>

partial_function (option) devfs_scan :: "(nat \<Rightarrow> devfs_entry) \<Rightarrow> nat list \<Rightarrow> nat option \<Rightarrow> nat option \<Rightarrow> nat \<Rightarrow> (nat \<times> nat option) option" where
  "devfs_scan st name it last' minor = (case it of
     None \<Rightarrow> Some (minor, last')
   | Some e \<Rightarrow> devfs_scan st name (e_next (st e)) (Some e) (if name = e_name (st e) then u8 (minor + 1) else minor))"

declare devfs_scan.simps [code]

text \<open>\<open>sizeof(struct devfs_entry)\<close> without the name\<close>

definition DEVFS_ENTRY_SIZE :: nat where "DEVFS_ENTRY_SIZE = 9"

definition devfs_register :: "nat \<Rightarrow> nat list \<Rightarrow> nat \<Rightarrow> nat \<Rightarrow> 'd kdev vfs \<Rightarrow> (int \<times> nat \<times> 'd kdev vfs) option" where
  "devfs_register ctx name ops sz v = do {
     check (\<not> dc_lock (k_devfs (vdev v) ctx));
     let v1 = upd_dctx ctx (\<lambda>c. c\<lparr>dc_lock := True\<rparr>) v;
     (minor, last') \<leftarrow> devfs_scan (k_entry (vdev v1)) name (dc_entries (k_devfs (vdev v1) ctx)) None 0;
     (r, h) \<leftarrow> kmalloc (u16 (DEVFS_ENTRY_SIZE + length name + 1)) (kh v1);
     let v2 = v1\<lparr>kh := h\<rparr>;
     (case r of
        None \<Rightarrow> Some (- ENOMEM, minor, v2)
      | Some n \<Rightarrow>
          let v3 = upd_entry n (\<lambda>_. \<lparr>e_next = None, e_ops = ops, e_minor = minor, e_size = sz, e_name = name\<rparr>) v2;
              v4 = (case last' of
                None \<Rightarrow> upd_dctx ctx (\<lambda>c. c\<lparr>dc_entries := Some n\<rparr>) v3
              | Some l \<Rightarrow> upd_entry l (\<lambda>x. x\<lparr>e_next := Some n\<rparr>) v3)
          in Some (0, minor, upd_dctx ctx (\<lambda>c. c\<lparr>dc_lock := False\<rparr>) v4)) }"

section \<open>The list of devices\<close>

text \<open>\<open>dev_list v c es\<close>: the entries of the context \<open>c\<close>, in order.\<close>

definition dev_list :: "'d kdev vfs \<Rightarrow> nat \<Rightarrow> nat list \<Rightarrow> bool" where
  "dev_list v c es \<longleftrightarrow> slist (\<lambda>e. e_next (k_entry (vdev v) e)) (dc_entries (k_devfs (vdev v) c)) es"

text \<open>The name under which an entry is listed.\<close>

definition dev_name :: "devfs_entry \<Rightarrow> nat list" where
  "dev_name x = e_name x @ uitoa (e_minor x) 10"

lemma upd_dctx_simps [simp]:
  "kh (upd_dctx c g v) = kh v" "vfile (upd_dctx c g v) = vfile v" "k_entry (vdev (upd_dctx c g v)) = k_entry (vdev v)"
  "k_devfs (vdev (upd_dctx c g v)) = (k_devfs (vdev v))(c := g (k_devfs (vdev v) c))"
  by (simp_all add: upd_dctx_def)

lemma upd_entry_simps [simp]:
  "kh (upd_entry e g v) = kh v" "vfile (upd_entry e g v) = vfile v" "k_devfs (vdev (upd_entry e g v)) = k_devfs (vdev v)"
  "k_entry (vdev (upd_entry e g v)) = (k_entry (vdev v))(e := g (k_entry (vdev v) e))"
  by (simp_all add: upd_entry_def)

lemma nth_entry_slist: "slist nx p es \<Longrightarrow> nth_entry nx i p = (if i < length es then Some (es ! i) else None)"
proof (induction nx i p arbitrary: es rule: nth_entry.induct)
  case (3 nx idx e)
  then show ?case by (cases es) auto
qed (auto simp: slist_Some)

lemma devfs_scan_ok:
  "slist (\<lambda>e. e_next (st e)) it es \<Longrightarrow> m < 256 \<Longrightarrow>
    devfs_scan st name it l m = Some ((m + length (filter (\<lambda>e. e_name (st e) = name) es)) mod 256, if es = [] then l else Some (last es))"
proof (induction es arbitrary: it l m)
  case Nil
  then show ?case by (subst devfs_scan.simps) simp
next
  case (Cons e es)
  have u: "u8 (m + 1) < 256" by simp
  have "devfs_scan st name it l m = devfs_scan st name (e_next (st e)) (Some e) (if name = e_name (st e) then u8 (m + 1) else m)"
    using Cons.prems(1) by (subst devfs_scan.simps) simp
  also have "\<dots> = Some (((if name = e_name (st e) then u8 (m + 1) else m) + length (filter (\<lambda>e. e_name (st e) = name) es)) mod 256,
      if es = [] then Some e else Some (last es))"
    by (rule Cons.IH) (use Cons.prems u in \<open>auto split: if_splits\<close>)
  finally show ?case by (auto simp: u8_def mod_add_left_eq add.assoc)
qed

lemma slist_snoc:
  assumes "slist nx p es" and "n \<notin> set es" and "nx n = None"
  shows "slist (if es = [] then nx else nx(last es := Some n)) (if es = [] then Some n else p) (es @ [n])"
proof (cases es rule: rev_cases)
  case (snoc xs y)
  have d: "distinct es" by (rule slist_distinct[OF assms(1)])
  from assms(1) obtain q where q: "sseg nx p xs q" "slist nx q [y]" unfolding snoc slist_append by blast
  then have "sseg (nx(y := Some n)) p xs q" using d snoc by simp
  moreover have "n \<noteq> y" using assms(2) snoc by auto
  ultimately have "slist (nx(y := Some n)) p (xs @ [y] @ [n])" using q(2) assms(3) unfolding slist_append by auto
  then show ?thesis using snoc by auto
qed (use assms in auto)

text \<open>Registering a device: the entry goes to the end, with the number of the earlier ones of its name.\<close>

lemma devfs_register_ok:
  assumes l: "dev_list v c es" and k: "\<not> dc_lock (k_devfs (vdev v) c)" and o: "owned (kh v) (set es \<union> A)" and n: "length name \<le> 1000"
  shows "\<exists>e m w. devfs_register c name ops sz v = Some (e, m, w) \<and> vfile w = vfile v \<and> m = length (filter (\<lambda>x. e_name (k_entry (vdev v) x) = name) es) mod 256 \<and>
    (e = - ENOMEM \<and> (\<exists>h. kmalloc (u16 (DEVFS_ENTRY_SIZE + length name + 1)) (kh v) = Some (None, h)) \<and>
       owned (kh w) (set es \<union> A) \<and> dc_lock (k_devfs (vdev w) c) \<or>
     e = 0 \<and> \<not> dc_lock (k_devfs (vdev w) c) \<and> (\<exists>x h. kmalloc (u16 (DEVFS_ENTRY_SIZE + length name + 1)) (kh v) = Some (Some x, h) \<and>
       x \<notin> set es \<union> A \<and> dev_list w c (es @ [x]) \<and> owned (kh w) (insert x (set es \<union> A)) \<and>
       k_entry (vdev w) x = \<lparr>e_next = None, e_ops = ops, e_minor = m, e_size = sz, e_name = name\<rparr> \<and>
       (\<forall>y. y \<noteq> x \<longrightarrow> dev_name (k_entry (vdev w) y) = dev_name (k_entry (vdev v) y))))"
proof -
  define v1 where "v1 = upd_dctx c (\<lambda>c. c\<lparr>dc_lock := True\<rparr>) v"
  define m where "m = length (filter (\<lambda>x. e_name (k_entry (vdev v) x) = name) es) mod 256"
  have l1: "slist (\<lambda>e. e_next (k_entry (vdev v) e)) (dc_entries (k_devfs (vdev v) c)) es" using l by (simp add: dev_list_def)
  have sc: "devfs_scan (k_entry (vdev v1)) name (dc_entries (k_devfs (vdev v1) c)) None 0 = Some (m, if es = [] then None else Some (last es))"
    using devfs_scan_ok[OF l1, of 0 name None] by (simp add: v1_def m_def)
  have sz: "0 < u16 (DEVFS_ENTRY_SIZE + length name + 1)" "u16 (DEVFS_ENTRY_SIZE + length name + 1) \<le> 65528"
    using n by (simp_all add: u16_def DEVFS_ENTRY_SIZE_def)
  have "owned (kh v1) (set es \<union> A)" using o by (simp add: v1_def)
  from owned_kmalloc[OF this sz] obtain r h where r: "kmalloc (u16 (DEVFS_ENTRY_SIZE + length name + 1)) (kh v1) = Some (r, h)"
    "case r of None \<Rightarrow> owned h (set es \<union> A) | Some a \<Rightarrow> a \<notin> set es \<union> A \<and> owned h (insert a (set es \<union> A))" by blast
  have kr: "kmalloc (u16 (DEVFS_ENTRY_SIZE + length name + 1)) (kh v) = Some (r, h)" using r(1) by (simp add: v1_def)
  show ?thesis
  proof (cases r)
    case None
    have "devfs_register c name ops sz v = Some (- ENOMEM, m, v1\<lparr>kh := h\<rparr>)"
      unfolding devfs_register_def v1_def[symmetric] Let_def sc r(1) None using k by simp
    then show ?thesis using r(2) None kr unfolding m_def[symmetric]
      by (intro exI[of _ "- ENOMEM"] exI[of _ m] exI[of _ "v1\<lparr>kh := h\<rparr>"]) (auto simp: v1_def)
  next
    case (Some x)
    have x: "x \<notin> set es \<union> A" "owned h (insert x (set es \<union> A))" using r(2) Some by simp_all
    define v3 where "v3 = upd_entry x (\<lambda>_. \<lparr>e_next = None, e_ops = ops, e_minor = m, e_size = sz, e_name = name\<rparr>) (v1\<lparr>kh := h\<rparr>)"
    define v4 where "v4 = (if es = [] then upd_dctx c (\<lambda>c. c\<lparr>dc_entries := Some x\<rparr>) v3 else upd_entry (last es) (\<lambda>y. y\<lparr>e_next := Some x\<rparr>) v3)"
    define w where "w = upd_dctx c (\<lambda>c. c\<lparr>dc_lock := False\<rparr>) v4"
    have reg: "devfs_register c name ops sz v = Some (0, m, w)"
      unfolding devfs_register_def v1_def[symmetric] Let_def sc r(1) Some using k by (simp add: w_def v4_def v3_def)
    let ?nx = "(\<lambda>e. e_next (k_entry (vdev v) e))(x := None)"
    have ne: "es \<noteq> [] \<Longrightarrow> last es \<noteq> x" using x(1) last_in_set[of es] by auto
    have "slist ?nx (dc_entries (k_devfs (vdev v) c)) es" using l1 x(1) by simp
    from slist_snoc[OF this, of x] x(1)
    have "slist (if es = [] then ?nx else ?nx(last es := Some x)) (if es = [] then Some x else dc_entries (k_devfs (vdev v) c)) (es @ [x])" by simp
    moreover have "(\<lambda>e. e_next (k_entry (vdev w) e)) = (if es = [] then ?nx else ?nx(last es := Some x))"
      using ne by (auto simp: w_def v4_def v3_def v1_def fun_eq_iff)
    moreover have "dc_entries (k_devfs (vdev w) c) = (if es = [] then Some x else dc_entries (k_devfs (vdev v) c))"
      by (simp add: w_def v4_def v3_def v1_def)
    ultimately have "dev_list w c (es @ [x])" by (simp add: dev_list_def)
    moreover have "k_entry (vdev w) x = \<lparr>e_next = None, e_ops = ops, e_minor = m, e_size = sz, e_name = name\<rparr>"
      using ne by (auto simp: w_def v4_def v3_def v1_def)
    moreover have "dev_name (k_entry (vdev w) y) = dev_name (k_entry (vdev v) y)" if "y \<noteq> x" for y
      using that by (auto simp: w_def v4_def v3_def v1_def dev_name_def)
    moreover have "kh w = h" "vfile w = vfile v" "\<not> dc_lock (k_devfs (vdev w) c)" by (simp_all add: w_def v4_def v3_def v1_def)
    ultimately show ?thesis using reg x kr Some unfolding m_def[symmetric] by blast
  qed
qed

lemma ksprintf_dev:
  assumes "length (e_name x) \<le> 28" and "e_minor x < 256"
  shows "ksprintf (replicate FS_NAME_LENGTH_MAX 0) [37, 115, 37, 117] [StrArg (e_name x), NumArg (e_minor x)] =
    Some (dev_name x @ [0] @ replicate (FS_NAME_LENGTH_MAX - length (dev_name x) - 1) 0)"
  using assms uitoa_length[OF assms(2)] by (simp add: ksprintf_def dev_name_def FS_NAME_LENGTH_MAX_def)

text \<open>Listing the devices: the entry at \<open>i\<close> is found at the index \<open>i + 2\<close>, behind the two directories.\<close>

lemma devfs_readdir_ok:
  assumes l: "dev_list v c es" and d: "entry_of v dir = None" "f_ctx (vfile v dir) = c" and k: "\<not> dc_lock (k_devfs (vdev v) c)"
    and i: "i < length es" and n: "length (e_name (k_entry (vdev v) (es ! i))) \<le> 28" "e_minor (k_entry (vdev v) (es ! i)) < 256"
  shows "\<exists>name. devfs_readdir dir buf (Some io) (i + 2) v = Some (0, Some (zero_dentry name, Some (io\<lparr>devfs_entry := Some (es ! i)\<rparr>)), v) \<and>
    length name = FS_NAME_LENGTH_MAX \<and> take (length (dev_name (k_entry (vdev v) (es ! i))) + 1) name = dev_name (k_entry (vdev v) (es ! i)) @ [0]"
proof -
  let ?x = "k_entry (vdev v) (es ! i)"
  let ?name = "dev_name ?x @ [0] @ replicate (FS_NAME_LENGTH_MAX - length (dev_name ?x) - 1) 0"
  have "length (dev_name ?x) \<le> 31" using n uitoa_length[OF n(2)] by (simp add: dev_name_def)
  then have len: "length ?name = FS_NAME_LENGTH_MAX" by (simp add: FS_NAME_LENGTH_MAX_def)
  have "nth_entry (\<lambda>e. e_next (k_entry (vdev v) e)) i (dc_entries (k_devfs (vdev v) c)) = Some (es ! i)"
    using nth_entry_slist[OF l[unfolded dev_list_def], of i] i by simp
  then have "devfs_readdir dir buf (Some io) (i + 2) v = Some (0, Some (zero_dentry ?name, Some (io\<lparr>devfs_entry := Some (es ! i)\<rparr>)), v)"
    unfolding devfs_readdir_def Let_def using d k ksprintf_dev[OF n] by simp
  then show ?thesis using len by (intro exI[of _ ?name]) simp
qed

end
