(* ===== verification/FsOps.thy ===== *)
theory FsOps
  imports DevFs FileRefs
begin

text \<open>
  The tables of operations of the kernel's file systems: \<open>fat_op\<close> of \<open>kernel/fs/fat.c\<close> and \<open>devfs_ops\<close> of
  \<open>kernel/fs/devfs.c\<close>, over the state \<open>'d kdev\<close>. The operations of \<open>Fat\<close> see the part of the state that
  belongs to the context of the file (\<open>fat_view\<close>). \<open>blks\<close> are the block devices by the pointer \<open>cb\<close>,
  \<open>devs\<close> the device tables, \<open>junk\<close> the uninitialised variable of the cluster allocation. The tables are
  what the locale \<open>vfs_backend\<close> asks for, so opening keeps the tree of files well formed.
\<close>

definition fat_view :: "nat \<Rightarrow> 'd kdev vfs \<Rightarrow> 'd fat_st" where
  "fat_view c v = \<lparr>ram = k_ram (vdev v), scratch = k_scratch (vdev v), fctx = k_fat (vdev v) c, bdev = k_hw (vdev v), files = vfile v\<rparr>"

definition fat_back :: "nat \<Rightarrow> 'd fat_st \<Rightarrow> 'd kdev vfs \<Rightarrow> 'd kdev vfs" where
  "fat_back c st v = v\<lparr>vfile := files st, vdev := (vdev v)\<lparr>k_ram := ram st, k_scratch := scratch st,
     k_fat := (k_fat (vdev v))(c := fctx st), k_hw := bdev st\<rparr>\<rparr>"

text \<open>Running an operation of \<open>Fat\<close> in the context \<open>c\<close>.\<close>

definition in_fat :: "nat \<Rightarrow> (nat \<Rightarrow> 'd dev_blk) \<Rightarrow> ('d dev_blk \<Rightarrow> 'd fat_st \<Rightarrow> ('r \<times> 'd fat_st) option) \<Rightarrow> 'd kdev vfs \<Rightarrow> ('r \<times> 'd kdev vfs) option" where
  "in_fat c blks g v = do { (r, st) \<leftarrow> g (blks (c_cb (vctx v c))) (fat_view c v); Some (r, fat_back c st v) }"

definition ctx_of :: "'d kdev vfs \<Rightarrow> nat \<Rightarrow> nat" where
  "ctx_of v f = f_ctx (vfile v f)"

definition fat_optab :: "nat \<Rightarrow> (nat \<Rightarrow> 'd dev_blk) \<Rightarrow> 'd kdev fs_file_op" where
  "fat_optab junk blks = \<lparr>
     op_read = (\<lambda>f buff offs v. do {
       ((r, b), w) \<leftarrow> in_fat (ctx_of v f) blks (\<lambda>blk st. map_option (\<lambda>(r, b, s). ((r, b), s)) (fat_op_read blk f buff offs st)) v; Some (r, b, w) }),
     op_write = (\<lambda>f buff offs v. in_fat (ctx_of v f) blks (\<lambda>blk. fat_op_write blk junk f buff offs) v),
     op_create = (\<lambda>dir name attr v. do {
       ((r, i), w) \<leftarrow> in_fat (ctx_of v dir) blks (\<lambda>blk st. map_option (\<lambda>(r, i, s). ((r, i), s)) (fat_op_create blk junk dir name attr st)) v; Some (r, i, w) }),
     op_truncate = (\<lambda>f sz v. in_fat (ctx_of v f) blks (\<lambda>blk. fat_op_truncate blk junk f sz) v),
     op_readdir = (\<lambda>dir buf file' idx v. do {
       ((r, res), w) \<leftarrow> in_fat (ctx_of v dir) blks (\<lambda>blk st. map_option (\<lambda>(r, res, s). ((r, res), s)) (fat_op_readdir blk dir buf idx st)) v;
       Some (r, map_option (\<lambda>(de, cl, i). (de, map_option (\<lambda>x. x\<lparr>fat_cluster := cl, fat_idx := i\<rparr>) file')) res, w) }),
     op_remove = (\<lambda>f v. in_fat (ctx_of v f) blks (\<lambda>blk. fat_op_remove blk junk f) v),
     op_ioctl = None,
     op_mount = (\<lambda>ctx dir root v. do {
       (r, st, pc) \<leftarrow> fat_op_mount (blks (c_cb (vctx v ctx))) root (fat_view ctx v) (k_pages (vdev v));
       Some (r, let w = fat_back ctx st v in w\<lparr>vdev := (vdev w)\<lparr>k_pages := pc\<rparr>\<rparr>) })\<rparr>"

definition devfs_optab :: "(nat \<Rightarrow> 'd dev_ops) \<Rightarrow> 'd kdev fs_file_op" where
  "devfs_optab devs = \<lparr>op_read = devfs_read devs, op_write = devfs_write devs, op_create = devfs_create, op_truncate = devfs_truncate,
     op_readdir = devfs_readdir, op_remove = devfs_remove, op_ioctl = Some (devfs_ioctl devs), op_mount = devfs_mount\<rparr>"

text \<open>The two addresses of tables that contexts hold.\<close>

definition FAT_OP :: nat where "FAT_OP = 1"
definition DEVFS_OPS :: nat where "DEVFS_OPS = 2"

definition fs_ops :: "nat \<Rightarrow> (nat \<Rightarrow> 'd dev_blk) \<Rightarrow> (nat \<Rightarrow> 'd dev_ops) \<Rightarrow> 'd kdev optab" where
  "fs_ops junk blks devs k = (if k = DEVFS_OPS then devfs_optab devs else fat_optab junk blks)"

section \<open>What the operations of FAT leave alone\<close>

text \<open>Everything of the open files except their size and internal data.\<close>

definition fmeta :: "fs_file \<Rightarrow> nat option \<times> nat option \<times> int \<times> nat option \<times> nat \<times> nat \<times> nat list" where
  "fmeta x = (f_parent x, f_mountpoint x, f_nrefs x, f_children x, f_attr x, f_ctx x, f_name x)"

definition meta :: "'d fat_st \<Rightarrow> nat \<Rightarrow> nat option \<times> nat option \<times> int \<times> nat option \<times> nat \<times> nat \<times> nat list" where
  "meta st = (\<lambda>f. fmeta (files st f))"

text \<open>\<open>keeps st r\<close>: the state that comes last in the result has the same such files.\<close>

lemma meta_upd: "(\<And>x. fmeta (g x) = fmeta x) \<Longrightarrow> meta (upd_file f g st) = meta st"
  by (auto simp: meta_def upd_file_def fun_eq_iff)

lemma meta_set_cluster [simp]: "meta (set_cluster f c st) = meta st"
  unfolding set_cluster_def by (rule meta_upd) (simp add: fmeta_def)

lemma meta_size [simp]: "meta (upd_file f (\<lambda>x. x\<lparr>f_size := n\<rparr>) st) = meta st"
  by (rule meta_upd) (simp add: fmeta_def)

lemma meta_fields [simp]:
  "meta (st\<lparr>bdev := d\<rparr>) = meta st" "meta (st\<lparr>fctx := c\<rparr>) = meta st" "meta (st\<lparr>scratch := p\<rparr>) = meta st" "meta (st\<lparr>ram := r\<rparr>) = meta st"
  "meta (poke i b st) = meta st" "meta (poke_bytes bs st) = meta st" "meta (set_dirty k st) = meta st" "meta (snd (mmu_map_scratch p st)) = meta st"
  by (simp_all add: meta_def poke_def poke_bytes_def set_dirty_def mmu_map_scratch_def)

lemma meta_scratch: "mmu_map_scratch p st = (q, st') \<Longrightarrow> meta st' = meta st"
  by (auto simp: mmu_map_scratch_def)

lemmas meta_if = if_distrib[of fst] if_distrib[of snd] if_distrib[of meta]

lemma get_meta: "fat_fat_get blk n old st = (e, c, st') \<Longrightarrow> meta st' = meta st"
proof -
  have "meta (snd (snd (fat_fat_get blk n old st))) = meta st"
    by (simp add: fat_fat_get_def Let_def mmu_map_scratch_def split_def meta_if del: split_paired_All)
  then show "fat_fat_get blk n old st = (e, c, st') \<Longrightarrow> meta st' = meta st" by simp
qed

lemma set_meta: "fat_fat_set blk n c st = (e, st') \<Longrightarrow> meta st' = meta st"
proof -
  have "meta (snd (fat_fat_set blk n c st)) = meta st"
    by (simp add: fat_fat_set_def Let_def mmu_map_scratch_def split_def meta_if)
  then show "fat_fat_set blk n c st = (e, st') \<Longrightarrow> meta st' = meta st" by simp
qed

lemma next_meta: "fat_fat_next blk c st = (e, c', st') \<Longrightarrow> meta st' = meta st"
  by (auto simp: fat_fat_next_def dest!: get_meta split: prod.splits if_splits)

lemma seek_meta: "fat_fat_seek blk c offs st = (e, c', st') \<Longrightarrow> meta st' = meta st"
proof (induction blk c offs st rule: fat_fat_seek.induct)
  case (1 blk c offs st)
  obtain r c1 st1 where n: "fat_fat_next blk c st = (r, c1, st1)" by (metis prod_cases3)
  show ?case
    using 1(2) 1(1)[OF _ n[symmetric] refl, of] n next_meta[OF n] by (subst (asm) fat_fat_seek.simps) (auto split: if_splits)
qed

lemma alloc_meta: "alloc_loop blk start junk retry new st = (e, c, st') \<Longrightarrow> meta st' = meta st"
proof (induction blk start junk retry new st rule: alloc_loop.induct)
  case (1 blk start junk retry new st)
  obtain r c1 st1 where g: "fat_fat_get blk (u16 new) junk st = (r, c1, st1)" by (metis prod_cases3)
  show ?case
    using 1(3) 1(1,2)[OF _ g[symmetric] refl] g get_meta[OF g] by (subst (asm) alloc_loop.simps) (auto split: if_splits)
qed

lemma sync_sectors_meta: "sync_sectors blk is st = Some (r, st') \<Longrightarrow> meta st' = meta st"
proof (induction blk "is" st rule: sync_sectors.induct)
  case (2 blk i "is" st)
  then show ?case by (auto simp: Let_def split: if_splits Option.bind_splits)
qed simp

lemma sync_meta: "fat_fat_sync blk st = Some (r, st') \<Longrightarrow> meta st' = meta st"
  by (auto simp: fat_fat_sync_def Let_def dest!: sync_sectors_meta meta_scratch split: if_splits Option.bind_splits prod.splits)

lemma fetch_meta: "fat_fat_fetch blk st = Some (r, st') \<Longrightarrow> meta st' = meta st"
  by (auto simp: fat_fat_fetch_def Let_def dest!: meta_scratch split: if_splits Option.bind_splits prod.splits)

lemma access_meta: "fat_file_dir_access blk cl idx st = (e, s, o', st') \<Longrightarrow> meta st' = meta st"
  by (auto simp: fat_file_dir_access_def Let_def dest!: seek_meta split: if_splits prod.splits)

lemma dir_read_meta: "fat_file_dir_read blk cl idx st = Some (e, d, st') \<Longrightarrow> meta st' = meta st"
  by (auto simp: fat_file_dir_read_def Let_def dest!: access_meta split: if_splits prod.splits Option.bind_splits)

lemma dir_write_meta: "fat_file_dir_write blk cl d idx st = Some (e, st') \<Longrightarrow> meta st' = meta st"
  by (auto simp: fat_file_dir_write_def Let_def dest!: access_meta split: if_splits prod.splits Option.bind_splits)

lemma clear_meta: "fat_cluster_clear blk c offs n st = Some (e, st') \<Longrightarrow> meta st' = meta st"
  by (auto simp: fat_cluster_clear_def split: Option.bind_splits)

lemma count_meta: "trim_count blk n pos cur last' st = (r, st') \<Longrightarrow> meta st' = meta st"
proof (induction blk n pos cur last' st rule: trim_count.induct)
  case (2 blk n pos cur last' st)
  obtain e l st1 where g: "fat_fat_get blk last' last' st = (e, l, st1)" by (metis prod_cases3)
  show ?case using 2(2) 2(1)[OF refl g[symmetric] refl] g get_meta[OF g] by (auto simp: Let_def split: if_splits)
qed simp

lemma extend_meta: "trim_extend blk junk f n last' d st = Some (e, l, d', st') \<Longrightarrow> meta st' = meta st"
proof (induction n arbitrary: last' d st)
  case (Suc n)
  obtain err cur st1 where a: "fat_fat_allocate_cluster blk junk last' st = (err, cur, st1)" by (metis prod_cases3)
  have m1: "meta st1 = meta st" using a by (auto simp: fat_fat_allocate_cluster_def dest: alloc_meta)
  show ?case
  proof (cases "err < 0")
    case True
    then show ?thesis using Suc.prems a m1 by simp
  next
    case False
    then obtain dd where d: "d = Some dd" using Suc.prems a by (cases d) auto
    obtain e2 d2 st2 where b: "(if fd_cluster dd = 0 then (0, Some (dd\<lparr>fd_cluster := cur\<rparr>), set_cluster f cur st1)
          else (let (e, s) = fat_fat_set blk last' cur st1 in (e, Some dd, s))) = (e2, d2, st2)" by (metis prod_cases3)
    have m2: "meta st2 = meta st" using b m1 by (auto simp: Let_def split: if_splits prod.splits dest: set_meta)
    show ?thesis
    proof (cases "e2 < 0")
      case True
      then show ?thesis using Suc.prems a False d b m2 by simp
    next
      case e2: False
      then obtain e3 st3 where c: "fat_cluster_clear blk cur 0 FAT12_SECTOR_SIZE st2 = Some (e3, st3)"
        using Suc.prems a False d b by (cases "fat_cluster_clear blk cur 0 FAT12_SECTOR_SIZE st2") auto
      have m3: "meta st3 = meta st" using clear_meta[OF c] m2 by simp
      then show ?thesis using Suc.prems Suc.IH[of cur d2 st3] a False d b e2 c by (auto split: if_splits)
    qed
  qed
qed simp

lemma free_meta: "trim_free blk cur st = Some (e, st') \<Longrightarrow> meta st' = meta st"
proof -
  assume "trim_free blk cur st = Some (e, st')"
  moreover have "\<forall>e st'. y = (e, st') \<longrightarrow> meta st' = meta st" if "trim_free blk cur st = Some y" for y
  proof (rule trim_free.raw_induct[where P = "\<lambda>blk cur st y. \<forall>e st'. y = (e, st') \<longrightarrow> meta st' = meta st", OF _ that], goal_cases)
    case (1 rec blk cur st y)
    obtain e l st1 where g: "fat_fat_get blk cur cur st = (e, l, st1)" by (metis prod_cases3)
    obtain e2 st2 where s: "fat_fat_set blk cur CLUSTER_FREE st1 = (e2, st2)" by (metis surj_pair)
    have m: "meta st1 = meta st" "meta st2 = meta st" using get_meta[OF g] set_meta[OF s] by simp_all
    show ?case
    proof (intro allI impI)
      fix e' st' assume y: "y = (e', st')"
      show "meta st' = meta st"
        using 1(2)[unfolded y Let_def g s] 1(1)[of blk l st2 "(e', st')"] m by (auto simp: s split: if_splits)
    qed
  qed
  ultimately show ?thesis by blast
qed

lemma shrink_meta: "trim_shrink blk f last' n d st = Some (e, d', st') \<Longrightarrow> meta st' = meta st"
proof -
  assume t: "trim_shrink blk f last' n d st = Some (e, d', st')"
  obtain e1 cur d1 st1 where a: "(if n = 0 then (0, last', map_option (\<lambda>d. d\<lparr>fd_cluster := 0\<rparr>) d, set_cluster f 0 st)
         else (let (e1, c, s1) = fat_fat_get blk last' last' st in
           if e1 < 0 \<or> c = CLUSTER_FREE \<or> c = CLUSTER_RESERVED then (- EIO, c, d, s1)
           else (let (e2, s2) = fat_fat_set blk last' CLUSTER_END s1 in
             if e2 < 0 then (- EIO, c, d, s2) else (0, c, d, s2)))) = (e1, cur, d1, st1)" by (rule prod_cases4)
  have "meta st1 = meta st"
  proof (cases "n = 0")
    case False
    obtain e2 c s1 where g: "fat_fat_get blk last' last' st = (e2, c, s1)" by (metis prod_cases3)
    obtain e3 s2 where w: "fat_fat_set blk last' CLUSTER_END s1 = (e3, s2)" by (metis surj_pair)
    have "st1 = s1 \<or> st1 = s2" using a False by (auto simp: g w split: if_splits)
    then show ?thesis using get_meta[OF g] set_meta[OF w] by auto
  qed (use a in auto)
  moreover have "(if e1 < 0 then Some (e1, d1, st1) else do { (e3, st2) \<leftarrow> trim_free blk cur st1; Some (e3, d1, st2) }) = Some (e, d', st')"
    using t unfolding trim_shrink_def a by simp
  ultimately show ?thesis by (auto split: if_splits Option.bind_splits dest: free_meta)
qed

lemma trim_meta: "fat_file_trim_chain blk junk f d n st = Some (e, d', st') \<Longrightarrow> meta st' = meta st"
proof -
  assume t: "fat_file_trim_chain blk junk f d n st = Some (e, d', st')"
  obtain res st0 where r: "(if cluster_of st f \<noteq> 0 then trim_count blk n 1 (cluster_of st f) (cluster_of st f) st
      else (Some (0, cluster_of st f, cluster_of st f), st)) = (res, st0)" by (metis surj_pair)
  have m0: "meta st0 = meta st" using r by (auto split: if_splits dest: count_meta)
  show ?thesis
    using t r m0 unfolding fat_file_trim_chain_def Let_def
    by (auto split: if_splits option.splits Option.bind_splits prod.splits dest!: extend_meta shrink_meta sync_meta set_meta)
qed

lemma create_find_meta: "create_find blk junk df st = Some (e, i, st') \<Longrightarrow> meta st' = meta st"
proof -
  assume "create_find blk junk df st = Some (e, i, st')"
  moreover have "\<forall>e i st'. y = (e, i, st') \<longrightarrow> meta st' = meta st" if "create_find blk junk df st = Some y" for y
  proof (rule create_find.raw_induct[where P = "\<lambda>blk junk df st y. \<forall>e i st'. y = (e, i, st') \<longrightarrow> meta st' = meta st", OF _ that], goal_cases)
    case (1 rec blk junk df st y)
    show ?case
    proof (intro allI impI)
      fix e' i' st' assume y: "y = (e', i', st')"
      note h = 1(2)[unfolded y Let_def]
      from h obtain err t st1 where a: "fat_file_dir_read blk (cluster_of st (fst df)) (snd df) st = Some (err, t, st1)"
        by (auto split: Option.bind_splits)
      have m1: "meta st1 = meta st" by (rule dir_read_meta[OF a])
      from h a obtain e2 t2 st2 where b: "(if err = - ENOENT then
          (if cluster_of st1 (fst df) = 65535 then Some (- ENOSPC, t, st1)
           else do {
             (e, _, s) \<leftarrow> fat_file_trim_chain blk junk (fst df) None (fat_sector_round_up (u16 ((snd df + 1) * DENTRY_SIZE))) st1;
             (if e < 0 then Some (e, t, s) else fat_file_dir_read blk (cluster_of s (fst df)) (snd df) s) })
        else Some (err, t, st1)) = Some (e2, t2, st2)" by (auto split: Option.bind_splits)
      have m2: "meta st2 = meta st"
        using b m1 by (auto split: if_splits Option.bind_splits dest!: trim_meta dir_read_meta)
      show "meta st' = meta st"
        using h[unfolded a] b 1(1)[of blk junk "(fst df, u16 (snd df + 1))" st2 y] m2 y
        by (auto split: if_splits)
    qed
  qed
  ultimately show ?thesis by blast
qed

lemma create_meta: "fat_op_create blk junk dir name attr st = Some (e, i, st') \<Longrightarrow> meta st' = meta st"
  by (auto simp: fat_op_create_def Let_def split: if_splits option.splits Option.bind_splits prod.splits dest!: create_find_meta dir_write_meta)

lemma readdir_meta: "fat_op_readdir blk dir buf idx st = Some (e, r, st') \<Longrightarrow> meta st' = meta st"
  by (auto simp: fat_op_readdir_def split: if_splits option.splits Option.bind_splits dest!: dir_read_meta)

lemma fread_meta: "fread_loop blk c offs buff st = Some (e, b, n, st') \<Longrightarrow> meta st' = meta st"
proof (induction blk c offs buff st arbitrary: e b n st' rule: fread_loop.induct)
  case (1 blk c offs buff st)
  define chunk where "chunk = min (FAT12_SECTOR_SIZE - offs mod FAT12_SECTOR_SIZE) (length buff)"
  note t = 1(2)[unfolded fread_loop.simps[of blk c offs buff st], folded chunk_def]
  then obtain ret bytes d where r: "blk_read blk (fat_sector_offset (CLUSTER2SECTOR c) + offs mod FAT12_SECTOR_SIZE) chunk (bdev st) = Some (ret, bytes, d)"
    by (auto simp: Let_def split: Option.bind_splits)
  obtain en c2 st2 where x: "fat_fat_next blk c (st\<lparr>bdev := d\<rparr>) = (en, c2, st2)" by (metis prod_cases3)
  have m: "meta st2 = meta st" using next_meta[OF x] by simp
  show ?case
    using t 1(1)[OF chunk_def r[unfolded chunk_def[symmetric]] refl refl refl refl refl _ _ x[symmetric] refl refl] m r x
    by (auto simp: Let_def split: if_splits Option.bind_splits)
qed

lemma fwrite_meta: "fwrite_loop blk c offs buff st = Some (e, st') \<Longrightarrow> meta st' = meta st"
proof (induction "length buff" arbitrary: c offs buff st rule: less_induct)
  case less
  define chunk where "chunk = min (FAT12_SECTOR_SIZE - offs mod FAT12_SECTOR_SIZE) (length buff)"
  note t = less(2)[unfolded fwrite_loop.simps[of blk c offs buff st], folded chunk_def]
  then obtain err d where w: "blk_write blk (fat_sector_offset (CLUSTER2SECTOR c) + offs mod FAT12_SECTOR_SIZE) (take chunk buff) (bdev st) = Some (err, d)"
    by (auto simp: Let_def split: Option.bind_splits)
  obtain en c2 st2 where x: "fat_fat_next blk c (st\<lparr>bdev := d\<rparr>) = (en, c2, st2)" by (metis prod_cases3)
  have m: "meta st2 = meta st" using next_meta[OF x] by simp
  have "length (drop chunk buff) < length buff" if "length buff - chunk \<noteq> 0"
    using that by (auto simp: chunk_def FAT12_SECTOR_SIZE_def)
  then show ?case using t less(1)[of "drop chunk buff" c2 "offs + chunk" st2] m w x by (auto simp: Let_def split: if_splits)
qed

lemma read_meta: "fat_op_read blk f buff offs st = Some (e, b, st') \<Longrightarrow> meta st' = meta st"
  by (auto simp: fat_op_read_def Let_def split: if_splits prod.splits Option.bind_splits dest!: fread_meta seek_meta)

lemma truncate_meta: "fat_op_truncate blk junk f sz st = Some (e, st') \<Longrightarrow> meta st' = meta st"
proof -
  assume t: "fat_op_truncate blk junk f sz st = Some (e, st')"
  show ?thesis
  proof (cases "f_parent (files st f) = None \<or> \<not> S_ISREG (f_attr (files st f)) \<or> f_size (files st f) = sz")
    case True
    then show ?thesis using t by (auto simp: fat_op_truncate_def Let_def split: option.splits if_splits)
  next
    case False
    then obtain par where p: "f_parent (files st f) = Some par" by auto
    note t1 = t[unfolded fat_op_truncate_def Let_def p option.case]
    from t1 False obtain e1 de st1 where a: "fat_file_dir_read blk (cluster_of st par) (fat_idx (f_file (files st f))) st = Some (e1, de, st1)"
      by (auto split: Option.bind_splits if_splits)
    have m1: "meta st1 = meta st" by (rule dir_read_meta[OF a])
    show ?thesis
    proof (cases "e1 = 0")
      case False
      then show ?thesis using t1 \<open>\<not> (_ \<or> _)\<close> a m1 by auto
    next
      case e1: True
      let ?m = "f_size (files st f) mod FAT12_SECTOR_SIZE"
      define clr where "clr = (if f_size (files st f) \<noteq> 0 \<and> f_size (files st f) < sz \<and> ?m \<noteq> 0 then
                (case fat_fat_seek blk (cluster_of st1 f) (f_size (files st f) - 1) st1 of (es, cluster, s) \<Rightarrow>
                 if es \<noteq> 0 then Some (- EIO, s) else do { (ec, s2) \<leftarrow> fat_cluster_clear blk cluster ?m (min (FAT12_SECTOR_SIZE - ?m) (sz - f_size (files st f))) s; Some (if ec < 0 then - EIO else 0, s2) })
              else Some (0, st1))"
      define rest where "rest = (\<lambda>(e2, st2). (if e2 < 0 then Some (e2, st2)
            else do {
              (e3, d3, st3) \<leftarrow>
                (if fat_sector_round_up sz \<noteq> fat_sector_round_up (f_size (files st f)) then do {
                   (et, dt, s) \<leftarrow> fat_file_trim_chain blk junk f (Some de) (fat_sector_round_up sz) st2;
                   (if et < 0 then do { (_, s') \<leftarrow> fat_fat_fetch blk s; Some (et, dt, s') } else Some (0, dt, s)) }
                 else Some (0, Some de, st2));
              (if e3 < 0 then Some (e3, st3)
               else do {
                 dd \<leftarrow> d3;
                 let st4 = upd_file f (\<lambda>x. x\<lparr>f_size := sz\<rparr>) st3;
                 fat_file_dir_write blk (cluster_of st4 par) (dd\<lparr>fd_size := sz\<rparr>) (fat_idx (f_file (files st4 f))) st4 }) }))"
      have t2: "Option.bind clr rest = Some (e, st')"
        using t1 \<open>\<not> (_ \<or> _)\<close> a e1 unfolding clr_def rest_def Let_def by simp
      then obtain e2 st2 where c: "clr = Some (e2, st2)" "rest (e2, st2) = Some (e, st')" by (auto split: Option.bind_splits)
      have m2: "meta st2 = meta st"
        using c(1) m1 unfolding clr_def by (auto split: if_splits prod.splits Option.bind_splits dest!: seek_meta clear_meta)
      show ?thesis
        using c(2) m2 unfolding rest_def Let_def
        by (auto split: if_splits Option.bind_splits dest!: trim_meta fetch_meta dir_write_meta)
    qed
  qed
qed

lemma write_meta: "fat_op_write blk junk f buff offs st = Some (e, st') \<Longrightarrow> meta st' = meta st"
  by (auto simp: fat_op_write_def split: if_splits prod.splits Option.bind_splits dest!: truncate_meta seek_meta fwrite_meta)

lemma remove_meta: "fat_op_remove blk junk f st = Some (e, st') \<Longrightarrow> meta st' = meta st"
  by (auto simp: fat_op_remove_def split: if_splits prod.splits Option.bind_splits dest!: trim_meta dir_read_meta dir_write_meta)

section \<open>The tables keep the tree\<close>

lemma fat_back_tree:
  assumes "meta st = meta (fat_view c v)"
  shows "same_tree v (fat_back c st v)"
proof -
  have "fmeta (files st f) = fmeta (vfile v f)" for f using fun_cong[OF assms, of f] by (simp add: meta_def fat_view_def)
  then show ?thesis by (simp add: same_tree_def fat_back_def fmeta_def)
qed

lemma in_fat_tree:
  assumes "in_fat c blks g v = Some (r, w)" and "\<And>blk st' r. g blk (fat_view c v) = Some (r, st') \<Longrightarrow> meta st' = meta (fat_view c v)"
  shows "same_tree v w"
  using assms by (auto simp: in_fat_def split: Option.bind_splits intro: fat_back_tree)

lemma upd_dctx_tree [simp]: "same_tree v (upd_dctx c g v)"
  by (simp add: same_tree_def upd_dctx_def)

lemma set_hw_tree [simp]: "same_tree v (set_hw v d)"
  by (simp add: same_tree_def set_hw_def)

lemma c_string_le: "length (c_string bs) \<le> length bs"
  by (simp add: c_string_def length_takeWhile_le)

lemma devfs_readdir_tree:
  assumes "devfs_readdir dir buf io i v = Some (e, res, w)"
  shows "w = v \<and> (\<forall>de i'. res = Some (de, i') \<longrightarrow> length (d_name de) \<le> 32)"
  using assms
  by (auto simp: devfs_readdir_def Let_def zero_dentry_def ksprintf_def put_def FS_NAME_LENGTH_MAX_def split: if_splits Option.bind_splits option.splits)

lemma c_string_cut: "length (c_string (xs[i := 0])) \<le> i"
proof (rule ccontr)
  assume "\<not> ?thesis"
  then have l: "i < length (c_string (xs[i := 0]))" by simp
  then have "i < length xs" using c_string_le[of "xs[i := 0]"] by simp
  moreover have "c_string (xs[i := 0]) ! i = xs[i := 0] ! i" using l by (simp add: c_string_def takeWhile_nth)
  moreover have "c_string (xs[i := 0]) ! i \<noteq> 0"
    using nth_mem[OF l] set_takeWhileD[of "c_string (xs[i := 0]) ! i" "\<lambda>b. b \<noteq> 0" "xs[i := 0]"] unfolding c_string_def by blast
  ultimately show False by simp
qed

lemma skip_back_le: "skip_back name k = Some p \<Longrightarrow> p \<le> k"
  by (induction name k rule: skip_back.induct) (auto split: if_splits)

lemma join_name_le: "fat_join_name buf a b = Some name \<Longrightarrow> length (c_string name) \<le> 12"
proof -
  assume "fat_join_name buf a b = Some name"
  then obtain p pos ys where "p \<le> 7" "pos \<le> p + 1 + 3" "name = ys[pos + 1 := 0]"
    by (auto simp: fat_join_name_def Let_def split: option.splits dest!: skip_back_le)
  then show ?thesis using c_string_cut[of ys "pos + 1"] by simp
qed

lemma readdir_name_le: "fat_op_readdir blk dir buf idx st = Some (e, Some (de, x), st') \<Longrightarrow> length (c_string (d_name de)) \<le> 12"
  by (auto simp: fat_op_readdir_def split: if_splits option.splits Option.bind_splits dest!: join_name_le)

lemma fat_optab_tree:
  shows "op_readdir (fat_optab junk blks) d buf io i v = Some (e, res, w) \<Longrightarrow>
      same_tree v w \<and> (\<forall>de i'. res = Some (de, i') \<longrightarrow> length (c_string (d_name de)) \<le> 12)"
    and "op_create (fat_optab junk blks) d name attr v = Some (e, idx, w) \<Longrightarrow> same_tree v w"
    and "op_truncate (fat_optab junk blks) f sz v = Some (e, w) \<Longrightarrow> same_tree v w"
    and "op_read (fat_optab junk blks) f buff offs v = Some (e, b, w) \<Longrightarrow> same_tree v w"
    and "op_write (fat_optab junk blks) f buff offs v = Some (e, w) \<Longrightarrow> same_tree v w"
    and "op_remove (fat_optab junk blks) f v = Some (e, w) \<Longrightarrow> same_tree v w"
  by (auto simp: fat_optab_def split: Option.bind_splits
      elim!: in_fat_tree dest: readdir_meta create_meta truncate_meta read_meta write_meta remove_meta)
    (auto simp: in_fat_def split: Option.bind_splits dest!: readdir_name_le)

lemma devfs_optab_tree:
  shows "op_readdir (devfs_optab devs) d buf io i v = Some (e, res, w) \<Longrightarrow>
      same_tree v w \<and> (\<forall>de i'. res = Some (de, i') \<longrightarrow> length (c_string (d_name de)) \<le> 32)"
    and "op_create (devfs_optab devs) d name attr v = Some (e, idx, w) \<Longrightarrow> same_tree v w"
    and "op_truncate (devfs_optab devs) f sz v = Some (e, w) \<Longrightarrow> same_tree v w"
    and "op_read (devfs_optab devs) f buff offs v = Some (e, b, w) \<Longrightarrow> same_tree v w"
    and "op_write (devfs_optab devs) f buff offs v = Some (e, w) \<Longrightarrow> same_tree v w"
    and "op_remove (devfs_optab devs) f v = Some (e, w) \<Longrightarrow> same_tree v w"
  by (auto simp: devfs_optab_def devfs_create_def devfs_truncate_def devfs_read_def devfs_write_def devfs_remove_def
      split: Option.bind_splits option.splits dest!: devfs_readdir_tree)
    (use c_string_le order_trans in blast)+

interpretation kfs: vfs_backend "fs_ops junk blks devs" for junk blks devs
proof
  fix k d buf io i v e res w
  assume "op_readdir (fs_ops junk blks devs k) d buf io i v = Some (e, res, w)"
  then show "same_tree v w \<and> (\<forall>de i'. res = Some (de, i') \<longrightarrow> length (c_string (d_name de)) \<le> 1000)"
    using fat_optab_tree(1)[of junk blks d buf io i v e res w] devfs_optab_tree(1)[of devs d buf io i v e res w]
    by (force simp: fs_ops_def split: if_splits)
next
  fix k d name attr v e idx w
  assume "op_create (fs_ops junk blks devs k) d name attr v = Some (e, idx, w)"
  then show "same_tree v w" by (auto simp: fs_ops_def split: if_splits dest: fat_optab_tree(2) devfs_optab_tree(2))
qed

text \<open>Opening with the kernel's tables, whatever the medium holds: every count in the tree stays exact.\<close>

theorem fs_open_keeps_tree:
  assumes "fs_open (fs_ops junk blks devs) loc path f0 mode attr v = Some (e, f, w)" and "vfs_wf v L K ext A"
    and "\<And>x. x \<in> L \<Longrightarrow> refs v L K ext x < 127"
  shows "\<exists>L' K'. vfs_wf w L' K' (if e = 0 then ext(the f := ext (the f) + 1) else ext) A \<and> (e = 0 \<longrightarrow> f \<noteq> None)"
proof -
  from kfs.open_wf[OF assms(1,2)] assms(3) obtain L' K' where
    "e = 0 \<longrightarrow> (\<exists>x. f = Some x \<and> vfs_wf w L' K' (ext(x := ext x + 1)) A)" "e \<noteq> 0 \<longrightarrow> vfs_wf w L' K' ext A" by blast
  then show ?thesis by (intro exI[of _ L'] exI[of _ K']) auto
qed

interpretation kfb: file_backend "fs_ops junk blks devs" for junk blks devs
  by unfold_locales (auto simp: fs_ops_def split: if_splits dest: fat_optab_tree(3) devfs_optab_tree(3))

text \<open>C36. \<open>file_open\<close> of a process over the kernel's tables: whatever it returns, the counts of the open files and of the tree are exact.\<close>

theorem file_open_counts:
  assumes "file_open (fs_ops junk blks devs) loc me path mode attr s = Some (r, s')"
    and "file_wf s P (\<lambda>_. 0) A B X" and "me \<in> set P" and "\<not> clock s" and "\<not> plock s me"
    and "\<And>f. f_nrefs (vfile (fsys s) f) < 127"
  shows "file_wf s' P (\<lambda>_. 0) A B X \<and> fdt s' = fdt s \<or>
    (\<exists>a. 0 \<le> r \<and> nat r < FDS \<and> a \<notin> A \<and> fst (fdt s me ! nat r) = None \<and> fdt s' = (fdt s)(me := (fdt s me)[nat r := (Some a, mode)]) \<and>
      file_wf s' P (\<lambda>_. 0) (insert a A) B X)"
  using kfb.file_open_ok[OF assms] unfolding opened_def .

section \<open>Opening a device\<close>

lemma c_string_append: "0 \<notin> set xs \<Longrightarrow> c_string (xs @ 0 # ys) = xs"
  by (simp add: c_string_def takeWhile_append)

lemma c_string_prefix:
  assumes "take (length xs + 1) ys = xs @ [0]" and "0 \<notin> set xs"
  shows "c_string ys = xs"
proof -
  have "ys = take (length xs + 1) ys @ drop (length xs + 1) ys" by (rule append_take_drop_id[symmetric])
  then have "ys = xs @ 0 # drop (length xs + 1) ys" unfolding assms(1) by simp
  then show ?thesis using c_string_append[OF assms(2)] by metis
qed

text \<open>The search through a directory of \<open>devfs\<close>, from the index of the device \<open>k\<close> on.\<close>

definition dev_found :: "nat \<Rightarrow> nat list \<Rightarrow> nat \<Rightarrow> fs_internal \<Rightarrow> 'd kdev vfs \<Rightarrow> (int \<times> nat option \<times> 'd kdev vfs) option" where
  "dev_found dir name e io v = do {
     (r, v2) \<leftarrow> fs_file_spawn name 0 v;
     (case r of
        None \<Rightarrow> Some (- ENOMEM, None, v2)
      | Some f \<Rightarrow> do {
          let v3 = upd_vfile f (\<lambda>x. x\<lparr>f_parent := Some dir, f_ctx := f_ctx (vfile v2 dir), f_size := 0, f_file := io\<lparr>devfs_entry := Some e\<rparr>\<rparr>) v2;
          (c, l) \<leftarrow> list_add (f_children (vfile v3 dir)) f (vlinks v3);
          Some (0, Some f, fs_file_get dir ((upd_vfile dir (\<lambda>x. x\<lparr>f_children := c\<rparr>) v3)\<lparr>vlinks := l\<rparr>)) }) }"

lemma from_dir_devfs:
  assumes l: "dev_list v c es" and d: "entry_of v dir = None" "f_ctx (vfile v dir) = c" "c_op (vctx v c) = DEVFS_OPS" and k: "\<not> dc_lock (k_devfs (vdev v) c)"
    and n: "\<And>j. j \<le> i \<Longrightarrow> length (e_name (k_entry (vdev v) (es ! j))) \<le> 28 \<and> e_minor (k_entry (vdev v) (es ! j)) < 256 \<and>
        0 \<notin> set (dev_name (k_entry (vdev v) (es ! j))) \<and> 47 \<notin> set (dev_name (k_entry (vdev v) (es ! j)))"
    and i: "i < length es" "i < 60000" and name: "dev_name (k_entry (vdev v) (es ! i)) = name"
    and first: "\<And>j. j < i \<Longrightarrow> dev_name (k_entry (vdev v) (es ! j)) \<noteq> name" and j: "j \<le> i"
  shows "fs_open_from_dir (fs_ops junk blks devs) loc name dir (j + 2, v) = dev_found dir name (es ! i) (snd loc) v"
  using j
proof (induction "i - j" arbitrary: j)
  case 0
  then have j: "j = i" by simp
  from devfs_readdir_ok[OF l d(1,2) k i(1), of "fst loc" "snd loc"] n[of i] obtain nm where
    rd: "devfs_readdir dir (fst loc) (Some (snd loc)) (i + 2) v = Some (0, Some (zero_dentry nm, Some ((snd loc)\<lparr>devfs_entry := Some (es ! i)\<rparr>)), v)"
    "take (length name + 1) nm = name @ [0]" unfolding name by auto
  have c: "c_string nm = name" using c_string_prefix[OF rd(2)] n[of i] name by blast
  have "takeWhile (\<lambda>c. c \<noteq> 47) name = name" using n[of i] name by (simp add: takeWhile_eq_all_conv) metis
  then have cmp: "fs_namecmp name name = 0" using namecmp_iff[of name name] n[of i] name by simp
  show ?case unfolding j
    by (subst fs_open_from_dir.simps)
      (simp add: op_of_def d fs_ops_def devfs_optab_def rd(1)[unfolded add_2_eq_Suc'] zero_dentry_def c cmp EAGAIN_def dev_found_def cong: option.case_cong)
next
  case (Suc x)
  then have ji: "j < i" by simp
  from devfs_readdir_ok[OF l d(1,2) k, of j "fst loc" "snd loc"] n[of j] ji i obtain nm where
    rd: "devfs_readdir dir (fst loc) (Some (snd loc)) (j + 2) v = Some (0, Some (zero_dentry nm, Some ((snd loc)\<lparr>devfs_entry := Some (es ! j)\<rparr>)), v)"
    "take (length (dev_name (k_entry (vdev v) (es ! j))) + 1) nm = dev_name (k_entry (vdev v) (es ! j)) @ [0]" by auto
  let ?nm = "dev_name (k_entry (vdev v) (es ! j))"
  have c: "c_string nm = ?nm" using c_string_prefix[OF rd(2)] n[of j] ji by simp
  have tw: "takeWhile (\<lambda>c. c \<noteq> 47) name = name" using n[of i] name by (simp add: takeWhile_eq_all_conv) metis
  have cmp: "fs_namecmp name ?nm \<noteq> 0" using namecmp_iff[of ?nm name, unfolded tw] n[of j] ji first[OF ji] by auto
  have "fs_open_from_dir (fs_ops junk blks devs) loc name dir (j + 2, v) = fs_open_from_dir (fs_ops junk blks devs) loc name dir (j + 1 + 2, v)"
    by (subst fs_open_from_dir.simps)
      (use ji i in \<open>simp add: op_of_def d fs_ops_def devfs_optab_def rd(1)[unfolded add_2_eq_Suc'] zero_dentry_def c cmp EAGAIN_def\<close>)
  then show ?case using Suc(1)[of "j + 1"] Suc(2) ji by simp
qed

lemma dev_found_ok:
  assumes wf: "vfs_wf v L K ext A" and d: "dir \<in> L" and r: "refs v L K ext dir < 127" and n: "length name \<le> 1000"
    and res: "dev_found dir name e io v = Some (er, Some f, w)"
  shows "er = 0 \<and> f \<notin> L \<and> entry_of w f = Some e \<and> f_parent (vfile w f) = Some dir \<and> f_nrefs (vfile w f) = 0 \<and>
    f_ctx (vfile w f) = f_ctx (vfile v dir) \<and> vctx w = vctx v \<and> vdev w = vdev v \<and> vroot w = vroot v \<and> (\<forall>l. l \<noteq> Some f \<longrightarrow> vlocks w l = vlocks v l) \<and>
    \<not> vlocks w (Some f)"
proof -
  from res obtain s v2 where sp: "fs_file_spawn name 0 v = Some (s, v2)" by (auto simp: dev_found_def split: Option.bind_splits)
  from res sp have s: "s = Some f" by (auto simp: dev_found_def Let_def split: Option.bind_splits option.splits)
  have f: "f \<notin> L" using spawn_tree[OF sp _ wfD(1)[OF wf] n] wfD(4)[OF wf] s by fastforce
  then have ne: "f \<noteq> dir" using d by auto
  from sp s have v2: "vfile v2 dir = vfile v dir" "f_nrefs (vfile v2 f) = 0" "vctx v2 = vctx v" "vdev v2 = vdev v" "vroot v2 = vroot v"
    "vlocks v2 = (vlocks v)(Some f := False)" using ne by (auto simp: fs_file_spawn_def split: Option.bind_splits option.splits)
  show ?thesis using res sp s f ne v2
    by (auto simp: dev_found_def Let_def entry_of_def upd_vfile_def fs_file_get_def split: Option.bind_splits)
qed

text \<open>The lookup of a name in the root of a mounted file system that has no children in the cache yet.\<close>

lemma lookup_mount:
  assumes root: "vroot v = Some r" "S_ISDIR (f_attr (vfile v r))" "f_mountpoint (vfile v r) = None"
    and ks: "cyc (vlinks v) (f_children (vfile v r)) ks" "List.find (\<lambda>g. fs_namecmp (dir @ 47 # name) (f_name (vfile v g)) = 0) ks = Some m"
    and m: "S_ISDIR (f_attr (vfile v m))" "f_mountpoint (vfile v m) = Some d" and path: "dir \<noteq> []" "47 \<notin> set dir" "name \<noteq> []" "47 \<notin> set name"
    and d: "f_children (vfile v d) = None"
  shows "fs_lookup (47 # dir @ 47 # name) v = Some (- ENOENT, name, None, Some d)"
proof -
  obtain h where h: "f_children (vfile v r) = Some h" using ks by (cases "f_children (vfile v r)") auto
  have fc: "find_child (dir @ 47 # name) (Some h) h v = Some (Some m)" using find_child_ring[of v h ks] ks h by simp
  have "dropWhile (\<lambda>c. c \<noteq> 47) (dir @ 47 # name) = 47 # name" using path(2) by (induction dir) auto
  moreover have nm: "dropWhile (\<lambda>c. c = 47) name = name" using path(3,4) by (cases name) auto
  ultimately have pn: "fs_path_next (dir @ 47 # name) = name" by (simp add: fs_path_next_def)
  have "fs_lookup_loop (dir @ 47 # name) None r v = fs_lookup_loop name (Some m) m v"
    using root h fc pn by (subst fs_lookup_loop.simps) (simp add: through_mount_def Let_def)
  also have "\<dots> = Some (- ENOENT, name, None, d)"
    using m d by (subst fs_lookup_loop.simps) (simp add: through_mount_def Let_def)
  finally have l: "fs_lookup_loop (dir @ 47 # name) None r v = Some (- ENOENT, name, None, d)" .
  have "dropWhile (\<lambda>c. c = 47) (47 # dir @ 47 # name) = dir @ 47 # name" using path(1,2) by (cases dir) auto
  then show ?thesis using l root(1) path(1) unfolding fs_lookup_def by (simp add: Let_def)
qed

text \<open>Opening a registered device by its name in the mounted device file system: the lookup crosses the mount point, the
  search skips the two directories and the other devices, and the new file refers to the entry and counts one reference.
\<close>

theorem fs_open_device:
  assumes wf: "vfs_wf v L K ext A" and free: "\<And>l. \<not> vlocks v l" and root: "vroot v = Some r" "S_ISDIR (f_attr (vfile v r))" "f_mountpoint (vfile v r) = None"
    and ks: "cyc (vlinks v) (f_children (vfile v r)) ks" "List.find (\<lambda>g. fs_namecmp (dir @ 47 # name) (f_name (vfile v g)) = 0) ks = Some m"
    and m: "S_ISDIR (f_attr (vfile v m))" "f_mountpoint (vfile v m) = Some d" and path: "dir \<noteq> []" "47 \<notin> set dir" "name \<noteq> []" "47 \<notin> set name"
    and d: "d \<in> L" "S_ISDIR (f_attr (vfile v d))" "f_mountpoint (vfile v d) = None" "f_children (vfile v d) = None" "refs v L K ext d < 127"
    and dev: "dev_list v c es" "entry_of v d = None" "f_ctx (vfile v d) = c" "c_op (vctx v c) = DEVFS_OPS" "\<not> dc_lock (k_devfs (vdev v) c)" "dc_parent (k_devfs (vdev v) c) \<noteq> None"
    and names: "\<And>j. j \<le> i \<Longrightarrow> length (e_name (k_entry (vdev v) (es ! j))) \<le> 28 \<and> e_minor (k_entry (vdev v) (es ! j)) < 256 \<and>
        0 \<notin> set (dev_name (k_entry (vdev v) (es ! j))) \<and> 47 \<notin> set (dev_name (k_entry (vdev v) (es ! j)))"
    and i: "i < length es" "i < 60000" "dev_name (k_entry (vdev v) (es ! i)) = name"
    and first: "\<And>j. j < i \<Longrightarrow> dev_name (k_entry (vdev v) (es ! j)) \<noteq> name" "name \<noteq> [46]" "name \<noteq> [46, 46]"
    and mem: "\<exists>f h. kmalloc (u16 (FS_FILE_SIZE + length name + 1)) (kh v) = Some (Some f, h)"
  shows "\<exists>f w. fs_open (fs_ops junk blks devs) loc (47 # dir @ 47 # name) f0 mode attr v = Some (0, Some f, w) \<and> f \<notin> L \<and>
    entry_of w f = Some (es ! i) \<and> f_parent (vfile w f) = Some d \<and> f_nrefs (vfile w f) = 1 \<and> vdev w = vdev v"
proof -
  define v1 where "v1 = v\<lparr>vlocks := (vlocks v)(None := True)\<rparr>"
  define v2 where "v2 = v1\<lparr>vlocks := (vlocks v1)(Some d := True)\<rparr>"
  have v1: "vfile v1 = vfile v" "vlinks v1 = vlinks v" "vroot v1 = vroot v" "vctx v1 = vctx v" "vdev v1 = vdev v" "kh v1 = kh v"
    and v2: "vfile v2 = vfile v" "vlinks v2 = vlinks v" "vctx v2 = vctx v" "vdev v2 = vdev v" "kh v2 = kh v" "vroot v2 = vroot v"
    by (simp_all add: v1_def v2_def)
  have look: "fs_lookup (47 # dir @ 47 # name) v1 = Some (- ENOENT, name, None, Some d)"
    by (rule lookup_mount[of v1 r ks dir name m d]) (use root ks m path d(4) in \<open>simp_all add: v1\<close>)
  have rd: "\<exists>de io'. op_readdir (op_of (fs_ops junk blks devs) v2 d) d (fst loc) (Some (snd loc)) k v2 = Some (0, Some (de, io'), v2) \<and>
      fs_namecmp name (c_string (d_name de)) \<noteq> 0" if "k < 2" for k
  proof -
    have tw: "takeWhile (\<lambda>c. c \<noteq> 47) name = name" using path(4) by (simp add: takeWhile_eq_all_conv) metis
    have "k = 0 \<or> k = 1" using that by auto
    then show ?thesis
      using dev(2,3,4,6) first(2,3) namecmp_iff[of "[46]" name] namecmp_iff[of "[46, 46]" name] tw
      by (auto simp: op_of_def v2 fs_ops_def devfs_optab_def devfs_readdir_def entry_of_def Let_def zero_dentry_def put_def FS_NAME_LENGTH_MAX_def c_string_def)
  qed
  have "fs_open_from_dir (fs_ops junk blks devs) loc name d (0, v2) = fs_open_from_dir (fs_ops junk blks devs) loc name d (0 + 2, v2)"
  proof -
    have "fs_open_from_dir (fs_ops junk blks devs) loc name d (k, v2) = fs_open_from_dir (fs_ops junk blks devs) loc name d (k + 1, v2)" if "k < 2" for k
      using rd[OF that] that by (subst fs_open_from_dir.simps) (auto simp: EAGAIN_def)
    from this[of 0] this[of 1] show ?thesis by (simp add: numeral_2_eq_2)
  qed
  also have "\<dots> = dev_found d name (es ! i) (snd loc) v2"
    by (rule from_dir_devfs[of v2 c es d i name 0]) (use dev names i first in \<open>simp_all add: dev_list_def entry_of_def v2\<close>)
  finally have fd: "fs_open_from_dir (fs_ops junk blks devs) loc name d (0, v2) = dev_found d name (es ! i) (snd loc) v2" .
  have lk: "vlock None v = Some v1" "vlock (Some d) v1 = Some v2" using free by (simp_all add: vlock_def v1_def v2_def)
  have wf2: "vfs_wf v2 L K ext A" using wf_vlock[OF lk(1)] wf_vlock[OF lk(2)] wf by simp
  have n: "length name \<le> 1000" using names[of i] uitoa_length[of "e_minor (k_entry (vdev v) (es ! i))"] i(3) by (auto simp: dev_name_def)
  obtain f w2 where w2: "dev_found d name (es ! i) (snd loc) v2 = Some (0, Some f, w2)"
  proof -
    obtain f h where fh: "kmalloc (u16 (FS_FILE_SIZE + length name + 1)) (kh v) = Some (Some f, h)" using mem by blast
    have sz: "0 < u16 (FS_FILE_SIZE + length name + 1)" "u16 (FS_FILE_SIZE + length name + 1) \<le> 65528"
      using n by (simp_all add: u16_def FS_FILE_SIZE_def)
    have "f \<noteq> d" using owned_alloc[OF wfD(1)[OF wf] fh sz] d(1) by auto
    then show thesis
      using that[of f] fh d(4) by (simp add: dev_found_def fs_file_spawn_def v2 upd_vfile_def list_add_def)
  qed
  have rf: "refs v2 L K ext d < 127"
  proof -
    have "refs v2 = refs v" by (simp add: fun_eq_iff refs_def held_def v2)
    then show ?thesis using d(5) by simp
  qed
  note f = dev_found_ok[OF wf2 d(1) rf n w2]
  have dw: "dropWhile (\<lambda>c. c \<noteq> 47) name = []" using path(4) unfolding dropWhile_eq_Nil_conv by blast
  have pn: "fs_path_next name = []" unfolding fs_path_next_def dw by (rule dropWhile.simps(1))
  have "fs_open_walk (fs_ops junk blks devs) loc name mode attr None d v1 = Some (0, Some f, vunlock (Some d) w2)"
    using path(3) d(2,3) fd w2 fs_open_walk.simps[of "fs_ops junk blks devs" loc "[]"]
    by (subst fs_open_walk.simps) (simp add: v1 through_mount_def lk(2) ENOENT_def pn)
  then have "fs_open (fs_ops junk blks devs) loc (47 # dir @ 47 # name) f0 mode attr v = Some (0, Some f, vunlock None (fs_file_get f (vunlock (Some d) w2)))"
    using look free[of None] by (simp add: fs_open_def vlock_def v1_def[symmetric] fs_open_locked_def ENOENT_def EINVAL_def)
  then show ?thesis using f by (intro exI[of _ f] exI[of _ "vunlock None (fs_file_get f (vunlock (Some d) w2))"]) 
    (simp add: vunlock_def fs_file_get_def upd_vfile_def entry_of_def v2 s8_def)
qed

text \<open>C37. Registering a device and listing it: the new entry gets the number of the earlier entries of that name (modulo
  256), it goes to the end of the list, the names of the others stay, and the directory shows it at the next index. Exactly
  if \<open>kmalloc\<close> finds no memory for the entry the result is \<open>-ENOMEM\<close>, and the lock of the context stays taken.
\<close>

theorem devfs_register_listed:
  assumes l: "dev_list v c es" and k: "\<not> dc_lock (k_devfs (vdev v) c)" and o: "owned (kh v) (set es \<union> A)"
    and n: "length name \<le> 28" "0 \<notin> set name" and d: "entry_of v dir = None" "f_ctx (vfile v dir) = c"
  shows "\<exists>r h m w. kmalloc (u16 (DEVFS_ENTRY_SIZE + length name + 1)) (kh v) = Some (r, h) \<and>
    m = length (filter (\<lambda>x. e_name (k_entry (vdev v) x) = name) es) mod 256 \<and>
    (case r of
       None \<Rightarrow> devfs_register c name ops sz v = Some (- ENOMEM, m, w) \<and> dc_lock (k_devfs (vdev w) c)
     | Some x \<Rightarrow> devfs_register c name ops sz v = Some (0, m, w) \<and> \<not> dc_lock (k_devfs (vdev w) c) \<and>
         x \<notin> set es \<union> A \<and> dev_list w c (es @ [x]) \<and> owned (kh w) (insert x (set es \<union> A)) \<and>
         k_entry (vdev w) x = \<lparr>e_next = None, e_ops = ops, e_minor = m, e_size = sz, e_name = name\<rparr> \<and>
         map (\<lambda>y. dev_name (k_entry (vdev w) y)) es = map (\<lambda>y. dev_name (k_entry (vdev v) y)) es \<and>
         (\<exists>nm. devfs_readdir dir buf (Some io) (length es + 2) w = Some (0, Some (zero_dentry nm, Some (io\<lparr>devfs_entry := Some x\<rparr>)), w) \<and>
            c_string nm = name @ uitoa m 10))"
proof -
  have n': "length name \<le> 1000" using n(1) by simp
  let ?k = "kmalloc (u16 (DEVFS_ENTRY_SIZE + length name + 1)) (kh v)"
  from devfs_register_ok[OF l k o n', of ops sz] obtain e m w where r: "devfs_register c name ops sz v = Some (e, m, w)" "vfile w = vfile v"
    "m = length (filter (\<lambda>x. e_name (k_entry (vdev v) x) = name) es) mod 256"
    and out: "e = - ENOMEM \<and> (\<exists>h. ?k = Some (None, h)) \<and> owned (kh w) (set es \<union> A) \<and> dc_lock (k_devfs (vdev w) c) \<or>
     e = 0 \<and> \<not> dc_lock (k_devfs (vdev w) c) \<and> (\<exists>x h. ?k = Some (Some x, h) \<and> x \<notin> set es \<union> A \<and> dev_list w c (es @ [x]) \<and>
       owned (kh w) (insert x (set es \<union> A)) \<and>
       k_entry (vdev w) x = \<lparr>e_next = None, e_ops = ops, e_minor = m, e_size = sz, e_name = name\<rparr> \<and>
       (\<forall>y. y \<noteq> x \<longrightarrow> dev_name (k_entry (vdev w) y) = dev_name (k_entry (vdev v) y)))" by blast
  from out show ?thesis
  proof (elim disjE conjE exE)
    fix h assume "e = - ENOMEM" "?k = Some (None, h)" "dc_lock (k_devfs (vdev w) c)"
    then show ?thesis using r(1,3) by (intro exI[of _ None] exI[of _ h] exI[of _ m] exI[of _ w]) simp
  next
    fix x h assume x: "e = 0" "\<not> dc_lock (k_devfs (vdev w) c)" "?k = Some (Some x, h)" "x \<notin> set es \<union> A" "dev_list w c (es @ [x])"
      "owned (kh w) (insert x (set es \<union> A))" "k_entry (vdev w) x = \<lparr>e_next = None, e_ops = ops, e_minor = m, e_size = sz, e_name = name\<rparr>"
      and oth: "\<forall>y. y \<noteq> x \<longrightarrow> dev_name (k_entry (vdev w) y) = dev_name (k_entry (vdev v) y)"
    have dw: "entry_of w dir = None" "f_ctx (vfile w dir) = c" using d r(2) by (simp_all add: entry_of_def)
    have m: "m < 256" using r(3) by simp
    from devfs_readdir_ok[OF x(5) dw x(2), of "length es" buf io] x(7) n(1) m obtain nm where
      rd: "devfs_readdir dir buf (Some io) (length es + 2) w = Some (0, Some (zero_dentry nm, Some (io\<lparr>devfs_entry := Some x\<rparr>)), w)"
        "take (length (dev_name (k_entry (vdev w) x)) + 1) nm = dev_name (k_entry (vdev w) x) @ [0]" by auto
    have "0 \<notin> set (dev_name (k_entry (vdev w) x))" using x(7) n(2) uitoa_chars[of 10 0 m] by (auto simp: dev_name_def)
    from c_string_prefix[OF rd(2) this] have nm: "c_string nm = name @ uitoa m 10" using x(7) by (simp add: dev_name_def)
    have names: "map (\<lambda>y. dev_name (k_entry (vdev w) y)) es = map (\<lambda>y. dev_name (k_entry (vdev v) y)) es"
      using oth x(4) by (auto intro!: map_cong)
    show ?thesis using r(1,3) x rd(1) nm names
      by (intro exI[of _ "Some x"] exI[of _ h] exI[of _ m] exI[of _ w]) auto
  qed
qed

section \<open>A small instance\<close>

text \<open>A root at 1000 with the directory \<open>DEV\<close> at 1036, where the device file system with root 1072 and the device \<open>U0\<close> is mounted.\<close>

definition demo_file :: "nat option \<Rightarrow> nat option \<Rightarrow> nat option \<Rightarrow> int \<Rightarrow> nat \<Rightarrow> nat list \<Rightarrow> fs_file" where
  "demo_file par mp ch n c name = \<lparr>f_file = \<lparr>fat_cluster = 0, fat_idx = 0, devfs_entry = None\<rparr>, f_parent = par, f_mountpoint = mp,
     f_nrefs = n, f_children = ch, f_attr = S_IFDIR, f_size = 0, f_ctx = c, f_name = name\<rparr>"

definition demo_kdev :: "unit kdev" where
  "demo_kdev = \<lparr>k_ram = (\<lambda>_ _. 0), k_scratch = 0, k_fat = (\<lambda>_. \<lparr>fat_page0 = 0, fat_page1 = 0, fat_dirty = 0\<rparr>),
     k_pages = \<lparr>pc_pool = (\<lambda>_. \<lparr>pe_next = None, pe_owner = None, pe_callback = None, pe_start = 0, pe_length = 0\<rparr>), pc_used = 0, pc_free = None,
       pc_alloc = None, pc_cache = None, pc_locked = False\<rparr>,
     k_devfs = (\<lambda>_. \<lparr>dc_entries = Some 1108, dc_parent = Some 1036, dc_lock = False\<rparr>),
     k_entry = (\<lambda>_. \<lparr>e_next = None, e_ops = 0, e_minor = 0, e_size = 0, e_name = [85]\<rparr>), k_hw = ()\<rparr>"

definition demo_dev :: "unit kdev vfs" where
  "demo_dev = \<lparr>kh = \<lparr>khdr = (\<lambda>a. if a = 996 then \<lparr>h_size = 33, h_next = Some 1032\<rparr> else if a = 1032 then \<lparr>h_size = 33, h_next = Some 1068\<rparr>
        else if a = 1068 then \<lparr>h_size = 33, h_next = Some 1104\<rparr> else if a = 1104 then \<lparr>h_size = 17, h_next = Some 1124\<rparr> else \<lparr>h_size = 64, h_next = None\<rparr>),
        kbytes = (\<lambda>_. 0), kheap = Some 996, khint = None, klocked = False\<rparr>,
     vroot = Some 1000,
     vfile = (\<lambda>f. if f = 1000 then demo_file None None (Some 1036) 2 1 [] else if f = 1036 then demo_file (Some 1000) (Some 1072) None 2 1 [68, 69, 86]
        else demo_file None None None 1 2 []),
     vlinks = \<lparr>next_of = Some, prev_of = Some\<rparr>, vctx = (\<lambda>c. \<lparr>c_op = c, c_cb = 0\<rparr>), vlocks = (\<lambda>_. False), vdev = demo_kdev\<rparr>"

lemma demo_dev_heap: "heap_ok (kh demo_dev) 996 1192 [(996, 32, True), (1032, 32, True), (1068, 32, True), (1104, 16, True), (1124, 64, False)]"
  by (simp add: heap_ok_def heap_rep_def demo_dev_def blk_ok_def knext_def no_free_pair_def hint_ok_def HDR_def)

lemma demo_dev_wf: "vfs_wf demo_dev {1000, 1036, 1072} ((\<lambda>_. [])(1000 := [1036])) ((\<lambda>_. 0)(1036 := 1)) {1108}"
proof -
  have o: "owned (kh demo_dev) ({1000, 1036, 1072} \<union> {1108})"
    by (rule ownedI[OF demo_dev_heap]) (auto simp: HDR_def)
  have h: "held demo_dev {1000, 1036, 1072} f \<longleftrightarrow> f = 1000 \<or> f = 1072" for f by (auto simp: held_def demo_dev_def demo_file_def)
  have c: "cyc (vlinks demo_dev) (Some 1036) [1036]" by (simp add: cyc_def demo_dev_def)
  have "tree_ok demo_dev {1000, 1036, 1072} ((\<lambda>_. [])(1000 := [1036])) ((\<lambda>_. 0)(1036 := 1)) ((\<lambda>_. 1)(1000 := 0))"
    using c unfolding tree_ok_def file_ok_def refs_def h by (simp add: demo_dev_def demo_file_def)
  then show ?thesis using o unfolding vfs_wf_def by auto
qed

lemma demo_dev_list: "dev_list demo_dev c [1108]"
  by (simp add: dev_list_def demo_dev_def demo_kdev_def)

theorem devfs_register_listed_witness:
  "\<exists>m x w. devfs_register 2 [85] 0 0 demo_dev = Some (0, m, w) \<and> m = 1 \<and> dev_list w 2 [1108, x]"
proof -
  have "owned (kh demo_dev) (set [1108] \<union> {1000, 1036, 1072})" using wfD(1)[OF demo_dev_wf] by (simp add: insert_commute)
  moreover have "\<exists>x h. kmalloc (u16 (DEVFS_ENTRY_SIZE + length [85 :: nat] + 1)) (kh demo_dev) = Some (Some x, h)"
    using kmalloc_spec[OF demo_dev_heap, of 11] by (auto simp: DEVFS_ENTRY_SIZE_def u16_def ALIGN_def ANTIFRAG_def)
  ultimately show ?thesis
    using devfs_register_listed[OF demo_dev_list, of 2 "{1000, 1036, 1072}" "[85]" 1072 0 0 "[]" undefined]
    by (auto simp: demo_dev_def demo_kdev_def demo_file_def entry_of_def)
qed

theorem fs_open_device_witness:
  "\<forall>junk blks devs loc. \<exists>f w. fs_open (fs_ops junk blks devs) loc [47, 68, 69, 86, 47, 85, 48] None O_RDONLY 0 demo_dev = Some (0, Some f, w) \<and>
    entry_of w f = Some 1108 \<and> f_nrefs (vfile w f) = 1"
proof (intro allI)
  fix junk blks devs loc
  have u: "uitoa 0 10 = [48]" by (simp add: uitoa_def digits.simps digit_char_def)
  have mem: "\<exists>f h. kmalloc (u16 (FS_FILE_SIZE + length [85, 48 :: nat] + 1)) (kh demo_dev) = Some (Some f, h)"
    using kmalloc_spec[OF demo_dev_heap, of 28] by (auto simp: FS_FILE_SIZE_def u16_def ALIGN_def ANTIFRAG_def)
  have c: "cyc (vlinks demo_dev) (Some 1036) [1036]" by (simp add: cyc_def demo_dev_def)
  have h: "held demo_dev {1000, 1036, 1072} 1072" by (auto simp: held_def demo_dev_def demo_file_def)
  show "\<exists>f w. fs_open (fs_ops junk blks devs) loc [47, 68, 69, 86, 47, 85, 48] None O_RDONLY 0 demo_dev = Some (0, Some f, w) \<and>
      entry_of w f = Some 1108 \<and> f_nrefs (vfile w f) = 1"
    using fs_open_device[OF demo_dev_wf, of 1000 "[1036]" "[68, 69, 86]" "[85, 48]" 1036 1072 2 "[1108]" 0 junk blks devs loc None O_RDONLY 0] mem c h
    by (auto simp: demo_dev_def demo_kdev_def demo_file_def dev_list_def entry_of_def dev_name_def u S_ISDIR_def S_IFDIR_def S_IFMT_def DEVFS_OPS_def refs_def)
qed

theorem fs_open_keeps_tree_witness:
  "\<forall>junk blks devs loc. \<exists>w L' K'. fs_open (fs_ops junk blks devs) loc [47] None O_RDONLY 0 demo_dev = Some (0, Some 1000, w) \<and>
    vfs_wf w L' K' ((\<lambda>_. 0)(1036 := 1, 1000 := 1)) {1108}"
proof (intro allI)
  fix junk blks devs loc
  have "\<exists>w. fs_open (fs_ops junk blks devs) loc [47] None O_RDONLY 0 demo_dev = Some (0, Some 1000, w)"
    by (simp add: fs_open_def fs_open_locked_def fs_lookup_def vlock_def demo_dev_def EINVAL_def Let_def)
  then obtain w where w: "fs_open (fs_ops junk blks devs) loc [47] None O_RDONLY 0 demo_dev = Some (0, Some 1000, w)" by blast
  have r: "refs demo_dev {1000, 1036, 1072} ((\<lambda>_. [])(1000 := [1036])) ((\<lambda>_. 0)(1036 := 1)) x < 127" for x
    by (simp add: refs_def)
  from fs_open_keeps_tree[OF w demo_dev_wf r] show "\<exists>w L' K'. fs_open (fs_ops junk blks devs) loc [47] None O_RDONLY 0 demo_dev = Some (0, Some 1000, w) \<and>
    vfs_wf w L' K' ((\<lambda>_. 0)(1036 := 1, 1000 := 1)) {1108}" using w by auto
qed

text \<open>Process 2 opens the root directory.\<close>

definition demo_proc :: "unit kdev fstate" where
  "demo_proc = \<lparr>fsys = demo_dev, ofile = (\<lambda>_. \<lparr>o_file = 0, o_offset = 0, o_refs = 0, o_lock = False\<rparr>),
     fdt = (\<lambda>_. replicate FDS (None, 0)), clock = False, plock = (\<lambda>_. False)\<rparr>"

lemma demo_proc_wf: "file_wf demo_proc [2] (\<lambda>_. 0) {} {1108} ((\<lambda>_. 0)(1036 := 1))"
proof -
  have c: "count_list (replicate n None) (Some a) = 0" for n and a :: nat by (induction n) simp_all
  have sl: "slots [2] demo_proc a = 0" for a by (simp add: slots_def demo_proc_def c)
  have u: "users ((\<lambda>_. 0)(1036 := 1)) demo_proc {} = (\<lambda>_. 0)(1036 := 1)" by (simp add: users_def fun_eq_iff)
  have w: "vfs_wf (fsys demo_proc) {1000, 1036, 1072} ((\<lambda>_. [])(1000 := [1036])) (users ((\<lambda>_. 0)(1036 := 1)) demo_proc {}) ({} \<union> {1108})"
    using demo_dev_wf unfolding u by (simp add: demo_proc_def)
  show ?thesis by (rule file_wfI[OF _ _ _ _ _ _ _ w]) (simp_all add: sl, simp_all add: demo_proc_def demo_dev_def)
qed

lemma demo_proc_opens:
  "\<exists>s'. file_open (fs_ops junk blks devs) loc 2 [47] O_RDONLY 0 demo_proc = Some (0, s')"
proof -
  obtain a h where k: "kmalloc FILE_OPEN_SIZE (kh (fsys demo_proc)) = Some (Some a, h)"
    using kmalloc_spec[OF demo_dev_heap, of FILE_OPEN_SIZE] by (auto simp: FILE_OPEN_SIZE_def u16_def ALIGN_def ANTIFRAG_def demo_proc_def)
  have f: "free_fd (replicate FDS (None, 0)) 0 = Some 0" by (simp add: FDS_def numeral_eq_Suc)
  show ?thesis unfolding file_open_def k
    by (simp add: Let_def fs_open_def fs_open_locked_def fs_lookup_def vlock_def EINVAL_def fs_file_get_def upd_file_def vunlock_def
        open_truncated_def install_fd_def file_locks_def file_unlocks_def O_RDONLY_def O_TRUNC_def O_APPEND_def f
        demo_proc_def demo_dev_def upd_ofile_def set_fd_def)
qed

theorem file_open_counts_witness:
  "\<forall>junk blks devs loc. \<exists>r s' A'. file_open (fs_ops junk blks devs) loc 2 [47] O_RDONLY 0 demo_proc = Some (r, s') \<and>
    file_wf s' [2] (\<lambda>_. 0) A' {1108} ((\<lambda>_. 0)(1036 := 1))"
proof (intro allI)
  fix junk blks devs loc
  obtain s' where o: "file_open (fs_ops junk blks devs) loc 2 [47] O_RDONLY 0 demo_proc = Some (0, s')" using demo_proc_opens by blast
  have "\<not> clock demo_proc" "\<not> plock demo_proc 2" "f_nrefs (vfile (fsys demo_proc) f) < 127" for f
    by (simp_all add: demo_proc_def demo_dev_def demo_file_def)
  from file_open_counts[OF o demo_proc_wf _ this] o show "\<exists>r s' A'. file_open (fs_ops junk blks devs) loc 2 [47] O_RDONLY 0 demo_proc = Some (r, s') \<and>
    file_wf s' [2] (\<lambda>_. 0) A' {1108} ((\<lambda>_. 0)(1036 := 1))" by auto
qed

end
