(* ===== verification/Kernel.thy ===== *)
theory Kernel
  imports Sched IdStorage FileRefs DevFs
begin

text \<open>
  The state of the kernel as its threads and processes see it: the heap, physical memory, pages, file
  systems and open files (\<open>ksys\<close>), the scheduler (\<open>ksched\<close>), and what \<open>kernel/proc/process.c\<close> adds,
  the objects of the processes with their reference counts and the storage of process ids. Objects of
  processes and threads are addresses in the kernel heap. The locks of the processes are \<open>plock\<close> of the
  open files; \<open>k_plock\<close> is \<open>common.plock\<close>. Taking a lock that is held blocks (\<open>None\<close>).
\<close>

record proc_obj =
  po_path :: "nat option"
  po_mpage :: nat
  po_refs :: int
  po_pid :: int

record 'd kern =
  ksys :: "'d kdev fstate"
  ksched :: sched
  k_pobj :: "nat \<Rightarrow> proc_obj"
  k_pids :: "nat id_storage"
  k_plock :: bool

definition PROCESS_PAGES :: nat where "PROCESS_PAGES = 14"

definition kheap_of :: "'d kern \<Rightarrow> kheap" where
  "kheap_of k = kh (fsys (ksys k))"

definition set_kheap :: "kheap \<Rightarrow> 'd kern \<Rightarrow> 'd kern" where
  "set_kheap h k = k\<lparr>ksys := (ksys k)\<lparr>fsys := (fsys (ksys k))\<lparr>kh := h\<rparr>\<rparr>\<rparr>"

definition kdev_of :: "'d kern \<Rightarrow> 'd kdev" where
  "kdev_of k = vdev (fsys (ksys k))"

definition set_kdev :: "'d kdev \<Rightarrow> 'd kern \<Rightarrow> 'd kern" where
  "set_kdev d k = k\<lparr>ksys := (ksys k)\<lparr>fsys := (fsys (ksys k))\<lparr>vdev := d\<rparr>\<rparr>\<rparr>"

definition upd_pobj :: "nat \<Rightarrow> (proc_obj \<Rightarrow> proc_obj) \<Rightarrow> 'd kern \<Rightarrow> 'd kern" where
  "upd_pobj p g k = k\<lparr>k_pobj := (k_pobj k)(p := g (k_pobj k p))\<rparr>"

definition k_malloc :: "nat \<Rightarrow> 'd kern \<Rightarrow> (nat option \<times> 'd kern) option" where
  "k_malloc n k = do { (r, h) \<leftarrow> kmalloc n (kheap_of k); Some (r, set_kheap h k) }"

definition k_free :: "nat option \<Rightarrow> 'd kern \<Rightarrow> 'd kern option" where
  "k_free a k = do { h \<leftarrow> kfree a (kheap_of k); Some (set_kheap h k) }"

definition k_page_alloc :: "nat option \<Rightarrow> nat \<Rightarrow> 'd kern \<Rightarrow> (nat \<times> 'd kern) option" where
  "k_page_alloc owner n k = do {
     (pg, pc) \<leftarrow> page_alloc owner n (k_pages (kdev_of k));
     Some (pg, set_kdev ((kdev_of k)\<lparr>k_pages := pc\<rparr>) k) }"

definition k_page_free :: "nat \<Rightarrow> nat \<Rightarrow> 'd kern \<Rightarrow> 'd kern option" where
  "k_page_free pg n k = do {
     pc \<leftarrow> page_free pg n (k_pages (kdev_of k));
     Some (set_kdev ((kdev_of k)\<lparr>k_pages := pc\<rparr>) k) }"

definition k_map_scratch :: "nat \<Rightarrow> 'd kern \<Rightarrow> nat \<times> 'd kern" where
  "k_map_scratch pg k = (k_scratch (kdev_of k), set_kdev ((kdev_of k)\<lparr>k_scratch := pg\<rparr>) k)"

section \<open>Locks\<close>

definition pids_lock :: "'d kern \<Rightarrow> 'd kern option" where
  "pids_lock k = (if k_plock k then None else Some (k\<lparr>k_plock := True\<rparr>))"

definition pids_unlock :: "'d kern \<Rightarrow> 'd kern" where
  "pids_unlock k = k\<lparr>k_plock := False\<rparr>"

definition proc_lock :: "nat \<Rightarrow> 'd kern \<Rightarrow> 'd kern option" where
  "proc_lock p k = (if plock (ksys k) p then None else Some (k\<lparr>ksys := (ksys k)\<lparr>plock := (plock (ksys k))(p := True)\<rparr>\<rparr>))"

definition proc_unlock :: "nat \<Rightarrow> 'd kern \<Rightarrow> 'd kern" where
  "proc_unlock p k = k\<lparr>ksys := (ksys k)\<lparr>plock := (plock (ksys k))(p := False)\<rparr>\<rparr>"

definition on_sched :: "(sched \<Rightarrow> sched option) \<Rightarrow> 'd kern \<Rightarrow> 'd kern option" where
  "on_sched g k = do { s \<leftarrow> g (ksched k); Some (k\<lparr>ksched := s\<rparr>) }"

definition upd_sched :: "(sched \<Rightarrow> sched) \<Rightarrow> 'd kern \<Rightarrow> 'd kern" where
  "upd_sched g k = k\<lparr>ksched := g (ksched k)\<rparr>"

section \<open>References to processes\<close>

text \<open>\<open>_process_get\<close> and \<open>_process_put\<close>, and the two with the lock.\<close>

definition process_get_locked :: "int \<Rightarrow> 'd kern \<Rightarrow> (nat option \<times> 'd kern) option" where
  "process_get_locked pid k = do {
     check (0 \<le> pid);
     (case id_get (k_pids k) pid of
        None \<Rightarrow> Some (None, k)
      | Some p \<Rightarrow> do {
          check (po_refs (k_pobj k p) < 127);
          check (0 \<le> po_refs (k_pobj k p));
          Some (Some p, upd_pobj p (\<lambda>x. x\<lparr>po_refs := po_refs x + 1\<rparr>) k) }) }"

definition process_put_locked :: "nat \<Rightarrow> 'd kern \<Rightarrow> 'd kern option" where
  "process_put_locked p k0 = do {
     check (0 < po_refs (k_pobj k0 p));
     let k = upd_pobj p (\<lambda>x. x\<lparr>po_refs := po_refs x - 1\<rparr>) k0;
     (if po_refs (k_pobj k p) \<le> 0 then do {
        k1 \<leftarrow> k_free (po_path (k_pobj k p)) k;
        k2 \<leftarrow> k_page_free (po_mpage (k_pobj k p)) PROCESS_PAGES k1;
        k_free (Some p) k2 }
      else Some k) }"

definition process_get :: "int \<Rightarrow> 'd kern \<Rightarrow> (nat option \<times> 'd kern) option" where
  "process_get pid k = do {
     k1 \<leftarrow> pids_lock k;
     (p, k2) \<leftarrow> process_get_locked pid k1;
     Some (p, pids_unlock k2) }"

definition process_put :: "nat \<Rightarrow> 'd kern \<Rightarrow> 'd kern option" where
  "process_put p k = do {
     k1 \<leftarrow> pids_lock k;
     k2 \<leftarrow> process_put_locked p k1;
     Some (pids_unlock k2) }"

section \<open>Searching a ring\<close>

text \<open>The \<open>do ... while\<close> loop over a ring that starts at \<open>head\<close>.\<close>

partial_function (option) ring_search :: "(nat \<Rightarrow> bool) \<Rightarrow> nat links \<Rightarrow> nat \<Rightarrow> nat \<Rightarrow> nat option option" where
  "ring_search P l head x =
     (if P x then Some (Some x)
      else do { n \<leftarrow> next_of l x; (if n = head then Some None else ring_search P l head n) })"

declare ring_search.simps [code]

lemma ring_search_chain:
  assumes "chained l (ys @ [h])" and "ys \<noteq> []" and "h \<notin> set (tl ys)"
  shows "ring_search P l h (hd ys) = Some (List.find P ys)"
  using assms
proof (induction ys)
  case (Cons y ys)
  show ?case
  proof (cases ys)
    case Nil
    then show ?thesis using Cons.prems by (subst ring_search.simps) simp
  next
    case (Cons z zs)
    have "ring_search P l h (hd ys) = Some (List.find P ys)" using Cons.IH Cons.prems Cons by simp
    moreover have "next_of l y = Some z" "z \<noteq> h" using Cons.prems Cons by auto
    ultimately show ?thesis using Cons by (subst ring_search.simps) simp
  qed
qed simp

lemma ring_search_cyc:
  assumes "cyc l (Some h) xs"
  shows "ring_search P l h h = Some (List.find P xs)"
proof -
  obtain t where xs: "xs = h # t" using cyc_Some[OF assms] by blast
  then have "chained l (xs @ [h])" "h \<notin> set (tl xs)" using assms by (auto simp: cyc_def)
  from ring_search_chain[OF this(1) _ this(2)] show ?thesis using xs by simp
qed

end
