(* ===== verification/Threads.thy ===== *)
theory Threads
  imports Kernel
begin

text \<open>
  The rest of \<open>kernel/proc/thread.c\<close>: creating threads, joining them, and what \<open>thread_init\<close> does, over
  the kernel state of \<open>Kernel\<close>. A call that blocks is modelled up to the switch to another thread, with
  \<open>None\<close> as its result so far; what it does when it runs again is the same code with the code that the
  wait returned.
\<close>

text \<open>\<open>sizeof(struct cpu_context)\<close> is 26; the stack is mapped at 0xF000, the scratch window at 0xE000.\<close>

definition CONTEXT_SIZE :: nat where "CONTEXT_SIZE = 26"

definition thread_context_create :: "nat \<Rightarrow> nat \<Rightarrow> nat \<Rightarrow> 'd kern \<Rightarrow> 'd kern" where
  "thread_context_create t entry arg k0 =
     (let (prev, k) = k_map_scratch (th_stack_page (thr (ksched k0) t)) k0;
          context = 65536 - CONTEXT_SIZE;
          k1 = upd_sched (upd_thr t (\<lambda>x. x\<lparr>th_context := (th_context x)\<lparr>c_pc := entry, c_af := 0, c_bc := 0, c_de := 0,
                 c_hl := arg, c_ix := 0, c_iy := 0, c_layout := CONTEXT_LAYOUT_KERNEL,
                 c_mmu := push_bit 8 (u8 (th_stack_page x + 256 - CONTEXT_LAYOUT_KERNEL div 16)), c_sp := u16 (context + 12)\<rparr>\<rparr>)) k
      in snd (k_map_scratch prev k1))"

text \<open>The part of \<open>thread_create\<close> that enters the thread into its process.\<close>

definition thread_enter_process :: "nat \<Rightarrow> int \<Rightarrow> 'd kern \<Rightarrow> (int \<times> 'd kern) option" where
  "thread_enter_process t pid k = do {
     (p', k1) \<leftarrow> process_get pid k;
     (case p' of
        None \<Rightarrow> do { k2 \<leftarrow> k_page_free (th_stack_page (thr (ksched k1) t)) 1 k1; Some (- EINVAL, k2) }
      | Some p \<Rightarrow> do {
          k2 \<leftarrow> proc_lock p k1;
          let (err, ids) = id_insert (p_threads (proc (ksched k2) p)) t;
          let k3 = upd_sched (upd_proc p (\<lambda>x. x\<lparr>p_threads := ids\<rparr>)) k2;
          (if err \<noteq> 0 then do {
             k4 \<leftarrow> process_put p (proc_unlock p k3);
             k5 \<leftarrow> k_page_free (th_stack_page (thr (ksched k4) t)) 1 k4;
             Some (err, k5) }
           else do {
             let k4 = upd_sched (upd_proc p (\<lambda>x. x\<lparr>p_thread_no := u8 (p_thread_no x + 1)\<rparr>)) k3;
             let k5 = upd_sched (upd_thr t (\<lambda>x. x\<lparr>th_process := Some p\<rparr>)) k4;
             k6 \<leftarrow> process_put p (proc_unlock p k5);
             Some (0, k6) }) }) }"

definition thread_create :: "nat \<Rightarrow> int \<Rightarrow> nat \<Rightarrow> nat \<Rightarrow> nat \<Rightarrow> 'd kern \<Rightarrow> (int \<times> 'd kern) option" where
  "thread_create t pid priority entry arg k = do {
     let k1 = upd_sched (\<lambda>s. upd_thr t (\<lambda>x. x\<lparr>th_qwait := None, th_priority := priority mod 8, th_wakeup := 0\<rparr>)
       (s\<lparr>qlink := (qlink s)\<lparr>next_of := (next_of (qlink s))(t := None)\<rparr>\<rparr>)) k;
     (page, k2) \<leftarrow> k_page_alloc None 1 k1;
     let k3 = upd_sched (upd_thr t (\<lambda>x. x\<lparr>th_stack_page := page\<rparr>)) k2;
     (if page = 0 then Some (- ENOMEM, k3)
      else do {
        (err, k4) \<leftarrow> (if pid \<noteq> 0 then thread_enter_process t pid k3 else Some (0, k3));
        (if err \<noteq> 0 then Some (err, k4)
         else do {
           k5 \<leftarrow> on_sched thread_critical_start (thread_context_create t entry arg k4);
           k6 \<leftarrow> on_sched (threads_add_ready t) k5;
           k7 \<leftarrow> on_sched thread_critical_end k6;
           Some (0, k7) }) }) }"

section \<open>Joining\<close>

definition thread_join_reap :: "nat \<Rightarrow> nat \<Rightarrow> 'd kern \<Rightarrow> 'd kern option" where
  "thread_join_reap p ghost k = do {
     k1 \<leftarrow> proc_lock p k;
     let k2 = proc_unlock p (upd_sched (upd_proc p (\<lambda>x. x\<lparr>p_threads := id_remove (p_threads x) ghost\<rparr>)) k1);
     k3 \<leftarrow> k_page_free (th_stack_page (thr (ksched k2) ghost)) 1 k2;
     k_free (Some ghost) k3 }"

text \<open>The id that the linkage of a thread holds.\<close>

definition thread_id :: "sched \<Rightarrow> nat \<Rightarrow> nat \<Rightarrow> int" where
  "thread_id s p t = (case List.find (\<lambda>c. fst c = t) (id_list (p_threads (proc s p))) of Some c \<Rightarrow> snd c | None \<Rightarrow> 0)"

text \<open>The outer loop: without a hit it goes round again over the same ghosts.\<close>

partial_function (option) join_pick :: "nat \<Rightarrow> int \<Rightarrow> sched \<Rightarrow> nat option" where
  "join_pick p tid s = do {
     head \<leftarrow> qhead s (GhostsOf p);
     found \<leftarrow> ring_search (\<lambda>g. tid < 0 \<or> thread_id s p g = tid) (qlink s) head head;
     (case found of Some g \<Rightarrow> Some g | None \<Rightarrow> join_pick p tid s) }"

declare join_pick.simps [code]

text \<open>From the loop of \<open>thread_join\<close> on, with scheduling disabled; \<open>err\<close> is what the last wait returned.\<close>

definition thread_join_loop :: "nat \<Rightarrow> int \<Rightarrow> int \<Rightarrow> int \<Rightarrow> int \<Rightarrow> cpu_context \<Rightarrow> 'd kern \<Rightarrow> (int option \<times> cpu_context \<times> 'd kern) option" where
  "thread_join_loop p tid timeout now err ctx k =
     (if qhead (ksched k) (GhostsOf p) = None \<and> err = 0 then do {
        (ctx', s) \<leftarrow> thread_wait_relative (ReaperOf p) timeout now ctx (ksched k);
        Some (None, ctx', k\<lparr>ksched := s\<rparr>) }
      else if err < 0 then do { k1 \<leftarrow> on_sched thread_critical_end k; Some (Some err, ctx, k1) }
      else do {
        g \<leftarrow> join_pick p tid (ksched k);
        k1 \<leftarrow> on_sched (q_remove (GhostsOf p) g) k;
        k2 \<leftarrow> on_sched thread_critical_end k1;
        k3 \<leftarrow> thread_join_reap p g k2;
        Some (Some 0, ctx, k3) })"

definition thread_join :: "nat \<Rightarrow> int \<Rightarrow> int \<Rightarrow> int \<Rightarrow> cpu_context \<Rightarrow> 'd kern \<Rightarrow> (int option \<times> cpu_context \<times> 'd kern) option" where
  "thread_join p tid timeout now ctx k = do {
     k1 \<leftarrow> on_sched thread_critical_start k;
     thread_join_loop p tid timeout now 0 ctx k1 }"

partial_function (option) join_all_loop :: "nat \<Rightarrow> 'd kern \<Rightarrow> 'd kern option" where
  "join_all_loop p k = (case qhead (ksched k) (GhostsOf p) of
     None \<Rightarrow> Some k
   | Some g \<Rightarrow> do {
       k1 \<leftarrow> on_sched (q_remove (GhostsOf p) g) k;
       k2 \<leftarrow> on_sched thread_critical_end k1;
       k3 \<leftarrow> thread_join_reap p g k2;
       k4 \<leftarrow> on_sched thread_critical_start k3;
       join_all_loop p k4 })"

declare join_all_loop.simps [code]

definition thread_join_all :: "nat \<Rightarrow> 'd kern \<Rightarrow> 'd kern option" where
  "thread_join_all p k = do {
     k1 \<leftarrow> on_sched thread_critical_start k;
     k2 \<leftarrow> join_all_loop p k1;
     on_sched thread_critical_end k2 }"

text \<open>\<open>thread_init\<close>; \<open>idle\<close> is the static thread object, \<open>entry\<close> the address of \<open>thread_idle\<close>.\<close>

definition thread_init :: "nat \<Rightarrow> nat list \<Rightarrow> nat \<Rightarrow> 'd kern \<Rightarrow> 'd kern option" where
  "thread_init idle arr entry k = do {
     let k1 = upd_sched (\<lambda>s. s\<lparr>schedule := True, sleeping := bheap_init arr THREAD_COUNT_MAX (thread_wakeup_compare (\<lambda>t. th_wakeup (thr s t)))\<rparr>) k;
     (_, k2) \<leftarrow> thread_create idle 0 (THREAD_PRIORITY_NO - 1) entry 0 k1;
     Some k2 }"

end
