(* ===== verification/Process.thy ===== *)
theory Process
  imports Threads
begin

text \<open>
  Processes, \<open>kernel/proc/process.c\<close> and \<open>kernel/lib/strdup.c\<close>, over the kernel state of \<open>Kernel\<close>: loading a
  program, the stack that \<open>exec\<close> builds, creating, starting, ending and waiting for processes, and
  \<open>fork\<close> up to the hand-over between parent and child (which is \<open>Fork\<close>). The file operations are those
  of the parameter \<open>ops\<close>. The context switch at the end of \<open>process_do_exec\<close> is assembly; its result
  is the stack pointer it jumps with.
\<close>

section \<open>Memory\<close>

definition page_bytes :: "nat \<Rightarrow> 'd kern \<Rightarrow> nat list" where
  "page_bytes pg k = map (k_ram (kdev_of k) pg) [0 ..< PAGE_SIZE]"

definition set_page :: "nat \<Rightarrow> (nat \<Rightarrow> nat) \<Rightarrow> 'd kern \<Rightarrow> 'd kern" where
  "set_page pg m k = set_kdev ((kdev_of k)\<lparr>k_ram := (k_ram (kdev_of k))(pg := m)\<rparr>) k"

text \<open>\<open>dma_memcpy\<close> of whole pages\<close>

fun dma_pages :: "nat \<Rightarrow> nat \<Rightarrow> nat \<Rightarrow> 'd kern \<Rightarrow> 'd kern" where
  "dma_pages dpage spage 0 k = k"
| "dma_pages dpage spage (Suc n) k = dma_pages (dpage + 1) (spage + 1) n (set_page dpage (k_ram (kdev_of k) spage) k)"

text \<open>The string at an address of the heap, and \<open>strdup\<close>.\<close>

definition heap_str :: "kheap \<Rightarrow> nat \<Rightarrow> nat list" where
  "heap_str h a = c_string (map (\<lambda>i. kbytes h (a + i)) [0 ..< 65536])"

definition strdup :: "nat list \<Rightarrow> 'd kern \<Rightarrow> (nat option \<times> 'd kern) option" where
  "strdup str k = do {
     (r, k1) \<leftarrow> k_malloc (u16 (length str + 1)) k;
     (case r of
        None \<Rightarrow> Some (None, k1)
      | Some a \<Rightarrow> Some (Some a, set_kheap ((kheap_of k1)\<lparr>kbytes :=
          (\<lambda>i. if a \<le> i \<and> i < a + length str + 1 then (str @ [0]) ! (i - a) else kbytes (kheap_of k1) i)\<rparr>) k1)) }"

section \<open>Loading\<close>

text \<open>The inner loop of \<open>process_load\<close>: \<open>err\<close> and \<open>off\<close> after it. The page is mapped in the scratch window.\<close>

partial_function (option) load_chunk :: "'d kdev optab \<Rightarrow> nat \<Rightarrow> nat \<Rightarrow> nat \<Rightarrow> nat \<Rightarrow> 'd kern \<Rightarrow> (int \<times> nat \<times> 'd kern) option" where
  "load_chunk ops f page chunk off k =
     (if chunk = 0 then Some (0, off, k)
      else do {
        (len, b, v) \<leftarrow> fs_read ops f (page_bytes page k) off (fsys (ksys k));
        let k1 = set_page page (\<lambda>i. if i < length b then b ! i else k_ram (vdev v) page i) (k\<lparr>ksys := (ksys k)\<lparr>fsys := v\<rparr>\<rparr>);
        (if len \<le> 0 then Some (s8 len, off, k1)
         else load_chunk ops f page (u16 (chunk + 65536 - nat len)) (off + nat len) k1) })"

declare load_chunk.simps [code]

partial_function (option) load_pages :: "'d kdev optab \<Rightarrow> nat \<Rightarrow> nat \<Rightarrow> nat \<Rightarrow> 'd kern \<Rightarrow> (int \<times> 'd kern) option" where
  "load_pages ops f page off k = do {
     (err, off1, k1) \<leftarrow> load_chunk ops f page PAGE_SIZE off k;
     (if off1 = f_size (vfile (fsys (ksys k1)) f) \<or> err \<noteq> 0 then Some (err, k1)
      else load_pages ops f (u8 (page + 1)) off1 (snd (k_map_scratch (u8 (page + 1)) k1))) }"

declare load_pages.simps [code]

definition process_load :: "'d kdev optab \<Rightarrow> nat list \<times> fs_internal \<Rightarrow> nat \<Rightarrow> nat list \<Rightarrow> 'd kern \<Rightarrow> (int \<times> 'd kern) option" where
  "process_load ops loc mpage path k = do {
     (err, f', v) \<leftarrow> fs_open ops loc path None O_RDONLY 0 (fsys (ksys k));
     let k1 = k\<lparr>ksys := (ksys k)\<lparr>fsys := v\<rparr>\<rparr>;
     (if err \<noteq> 0 then Some (err, k1)
      else do {
        f \<leftarrow> f';
        (if f_attr (vfile v f) AND S_IX = 0 \<or> f_size (vfile v f) > PROCESS_PAGES * PAGE_SIZE then Some (- ENOEXEC, k1)
         else do {
           let (prev, k2) = k_map_scratch mpage k1;
           (e, k3) \<leftarrow> load_pages ops f mpage 0 k2;
           (_, w) \<leftarrow> fs_close f (fsys (ksys k3));
           Some (e, snd (k_map_scratch prev (k3\<lparr>ksys := (ksys k3)\<lparr>fsys := w\<rparr>\<rparr>))) }) }) }"

section \<open>The stack of a new program\<close>

text \<open>Writing bytes into the page of the stack; positions are offsets in it, the page is mapped at 0xF000 later.\<close>

definition put_bytes :: "nat \<Rightarrow> nat list \<Rightarrow> (nat \<Rightarrow> nat) \<Rightarrow> nat \<Rightarrow> nat" where
  "put_bytes at bs m = (\<lambda>i. if at \<le> i \<and> i < at + length bs then bs ! (i - at) else m i)"

fun push_args :: "nat list list \<Rightarrow> nat \<Rightarrow> nat \<Rightarrow> nat \<Rightarrow> (nat \<Rightarrow> nat) \<Rightarrow> (nat \<times> (nat \<Rightarrow> nat)) option" where
  "push_args [] i table pos m = Some (pos, m)"
| "push_args (a # as) i table pos m =
     (if pos < length a + 1 then None
      else let pos1 = pos - (length a + 1) in
        push_args as (i + 1) table pos1 (put_bytes (table + 2 * i) (le16 (61440 + pos1)) (put_bytes pos1 (a @ [0]) m)))"

text \<open>The stack pointer and the page: strings, table, the address of the table and \<open>argc\<close>. Below the page is undefined.\<close>

definition exec_stack :: "nat list list option \<Rightarrow> (nat \<Rightarrow> nat) \<Rightarrow> (nat \<times> (nat \<Rightarrow> nat)) option" where
  "exec_stack argv m0 = do {
     (argc, s_argv, pos, m) \<leftarrow> (case argv of
        None \<Rightarrow> Some (0, 0, PAGE_SIZE, m0)
      | Some args \<Rightarrow> let argc = length args in
          if PAGE_SIZE < 2 * (argc + 1) then None
          else (let table = PAGE_SIZE - 2 * (argc + 1) in do {
            (pos, m) \<leftarrow> push_args args 0 table table m0;
            Some (argc, 61440 + table, pos, put_bytes (table + 2 * argc) (le16 0) m) }));
     check (4 \<le> pos);
     Some (61440 + pos - 4, put_bytes (pos - 4) (le16 argc) (put_bytes (pos - 2) (le16 s_argv) m)) }"

text \<open>\<open>process_do_exec\<close>: an error, or the new stack page, the old one, the stack pointer, and the memory map it jumps to.\<close>

definition process_do_exec :: "nat \<Rightarrow> nat \<Rightarrow> nat list list option \<Rightarrow> 'd kern \<Rightarrow> ((int + nat \<times> nat \<times> nat \<times> nat) \<times> 'd kern) option" where
  "process_do_exec p mmap argv k = do {
     t \<leftarrow> current (ksched k);
     (nstack, k1) \<leftarrow> k_page_alloc (Some p) 1 k;
     let ostack = th_stack_page (thr (ksched k) t);
     (if nstack = 0 then Some (Inl (- ENOMEM), k1)
      else do {
        k2 \<leftarrow> (if po_mpage (k_pobj k1 p) \<noteq> mmap
                then k_page_free (po_mpage (k_pobj k1 p)) PROCESS_PAGES (upd_pobj p (\<lambda>x. x\<lparr>po_mpage := mmap\<rparr>) k1) else Some k1);
        let k3 = snd (k_map_scratch nstack k2);
        (sp, m) \<leftarrow> exec_stack argv (k_ram (kdev_of k3) nstack);
        Some (Inr (nstack, ostack, sp, mmap), upd_sched (upd_thr t (\<lambda>x. x\<lparr>th_stack_page := nstack\<rparr>)) (set_page nstack m k3)) }) }"

definition process_execv :: "'d kdev optab \<Rightarrow> nat list \<times> fs_internal \<Rightarrow> nat list \<Rightarrow> nat list list option \<Rightarrow> 'd kern \<Rightarrow>
  ((int + nat \<times> nat \<times> nat \<times> nat) \<times> 'd kern) option" where
  "process_execv ops loc path argv k = do {
     t \<leftarrow> current (ksched k);
     p \<leftarrow> th_process (thr (ksched k) t);
     (nmap, k1) \<leftarrow> k_page_alloc (Some p) PROCESS_PAGES k;
     (if nmap = 0 then Some (Inl (- ENOMEM), k1)
      else do {
        (err, k2) \<leftarrow> process_load ops loc nmap path k1;
        (if err \<noteq> 0 then do { k3 \<leftarrow> k_page_free nmap PROCESS_PAGES k2; Some (Inl err, k3) }
         else process_do_exec p nmap argv k2) }) }"

section \<open>Creating processes\<close>

text \<open>\<open>sizeof(struct process)\<close> and \<open>sizeof(struct thread)\<close>\<close>

definition PROCESS_SIZE :: nat where "PROCESS_SIZE = 82"
definition THREAD_SIZE :: nat where "THREAD_SIZE = 24"
definition FORK_DATA_SIZE :: nat where "FORK_DATA_SIZE = 6"

text \<open>\<open>memset(p, 0, sizeof(*p))\<close>\<close>

definition zero_process :: "nat \<Rightarrow> 'd kern \<Rightarrow> 'd kern" where
  "zero_process p k = (upd_pobj p (\<lambda>_. \<lparr>po_path = None, po_mpage = 0, po_refs = 0, po_pid = 0\<rparr>) k)\<lparr>
     ksched := (ksched k)\<lparr>
       proc := (proc (ksched k))(p := \<lparr>p_parent = None, p_children = None, p_zombies = None, p_thread_no = 0,
         p_threads = \<lparr>id_list = [], id_counter = 0\<rparr>, p_exit = 0\<rparr>),
       plink := \<lparr>next_of = (next_of (plink (ksched k)))(p := None), prev_of = (prev_of (plink (ksched k)))(p := None)\<rparr>,
       qhead := (qhead (ksched k))(GhostsOf p := None, ReaperOf p := None, WaitOf p := None)\<rparr>,
     ksys := (ksys k)\<lparr>fdt := (fdt (ksys k))(p := replicate FDS (None, 0)), plock := (plock (ksys k))(p := False)\<rparr>\<rparr>"

definition process_create :: "'d kern \<Rightarrow> (nat option \<times> 'd kern) option" where
  "process_create k = do {
     (r, k1) \<leftarrow> k_malloc PROCESS_SIZE k;
     (case r of
        None \<Rightarrow> Some (None, k1)
      | Some p \<Rightarrow> do {
          (pg, k2) \<leftarrow> k_page_alloc (Some p) PROCESS_PAGES (zero_process p k1);
          let k3 = upd_pobj p (\<lambda>x. x\<lparr>po_mpage := pg\<rparr>) k2;
          (if pg = 0 then do { k4 \<leftarrow> k_free (Some p) k3; Some (None, k4) }
           else Some (Some p, upd_pobj p (\<lambda>x. x\<lparr>po_refs := 1\<rparr>) k3)) }) }"

text \<open>Entering a process into the storage of ids; the id stays in its linkage.\<close>

definition linkage_id :: "nat id_storage \<Rightarrow> nat \<Rightarrow> int" where
  "linkage_id st p = (case List.find (\<lambda>c. fst c = p) (id_list st) of Some c \<Rightarrow> snd c | None \<Rightarrow> 0)"

definition pid_insert :: "nat \<Rightarrow> 'd kern \<Rightarrow> int \<times> 'd kern" where
  "pid_insert p k = (let (err, st) = id_insert (k_pids k) p in
     (err, if err < 0 then k\<lparr>k_pids := st\<rparr> else upd_pobj p (\<lambda>x. x\<lparr>po_pid := linkage_id st p\<rparr>) (k\<lparr>k_pids := st\<rparr>)))"

definition process_start :: "'d kdev optab \<Rightarrow> nat list \<times> fs_internal \<Rightarrow> nat list \<Rightarrow> nat \<Rightarrow> nat \<Rightarrow> 'd kern \<Rightarrow> (int \<times> 'd kern) option" where
  "process_start ops loc path argv entry k = do {
     (r, k1) \<leftarrow> process_create k;
     (case r of
        None \<Rightarrow> Some (- ENOMEM, k1)
      | Some p \<Rightarrow> do {
          (s, k2) \<leftarrow> strdup path k1;
          let k3 = upd_pobj p (\<lambda>x. x\<lparr>po_path := s\<rparr>) k2;
          (if s = None then do { k4 \<leftarrow> process_put p k3; Some (- ENOMEM, k4) }
           else do {
             (err, k4) \<leftarrow> process_load ops loc (po_mpage (k_pobj k3 p)) path k3;
             (if err < 0 then do { k5 \<leftarrow> process_put p k4; Some (err, k5) }
              else do {
                (t', k5) \<leftarrow> k_malloc THREAD_SIZE k4;
                (case t' of
                   None \<Rightarrow> do { k6 \<leftarrow> process_put p k5; Some (- ENOMEM, k6) }
                 | Some t \<Rightarrow> do {
                     k6 \<leftarrow> pids_lock k5;
                     let (e, k7) = pid_insert p k6;
                     (if e < 0 then do {
                        k8 \<leftarrow> process_put_locked p k7;
                        k9 \<leftarrow> k_free (Some t) (pids_unlock k8);
                        Some (e, k9) }
                      else do {
                        (e2, k8) \<leftarrow> thread_create t (po_pid (k_pobj k7 p)) 4 entry argv (pids_unlock k7);
                        (if e2 \<noteq> 0 then do {
                           k9 \<leftarrow> pids_lock k8;
                           k10 \<leftarrow> process_put_locked p (k9\<lparr>k_pids := id_remove (k_pids k9) p\<rparr>);
                           k11 \<leftarrow> k_free (Some t) (pids_unlock k10);
                           Some (e2, k11) }
                         else Some (po_pid (k_pobj k8 p), k8)) }) }) }) }) }) }"

section \<open>Forking\<close>

text \<open>The part of \<open>process_fork\<close> that makes the thread of the new process and enters the process.\<close>

definition fork_thread :: "nat \<Rightarrow> nat \<Rightarrow> nat \<Rightarrow> 'd kern \<Rightarrow> ((int + int) \<times> 'd kern) option" where
  "fork_thread spawn fdata entry k = do {
     (t', k1) \<leftarrow> k_malloc THREAD_SIZE k;
     (case t' of
        None \<Rightarrow> do {
          s \<leftarrow> file_close_all spawn (ksys k1);
          k2 \<leftarrow> process_put spawn (k1\<lparr>ksys := s\<rparr>);
          k3 \<leftarrow> k_free (Some fdata) k2;
          Some (Inl (- ENOMEM), k3) }
      | Some t \<Rightarrow> do {
          k2 \<leftarrow> pids_lock k1;
          let (e, k3) = pid_insert spawn k2;
          (if e < 0 then do {
             k4 \<leftarrow> process_put spawn (pids_unlock k3);
             s \<leftarrow> file_close_all spawn (ksys k4);
             k5 \<leftarrow> k_free (Some t) (k4\<lparr>ksys := s\<rparr>);
             k6 \<leftarrow> k_free (Some fdata) k5;
             Some (Inl e, k6) }
           else do {
             let pid = po_pid (k_pobj k3 spawn);
             (e2, k4) \<leftarrow> thread_create t pid 4 entry fdata (pids_unlock k3);
             (if e2 \<noteq> 0 then do {
                k5 \<leftarrow> pids_lock k4;
                let k6 = pids_unlock (k5\<lparr>k_pids := id_remove (k_pids k5) spawn\<rparr>);
                s \<leftarrow> file_close_all spawn (ksys k6);
                k7 \<leftarrow> process_put spawn (k6\<lparr>ksys := s\<rparr>);
                k8 \<leftarrow> k_free (Some t) k7;
                k9 \<leftarrow> k_free (Some fdata) k8;
                Some (Inl e2, k9) }
              else Some (Inr pid, k4)) }) }) }"

text \<open>\<open>parent->children\<close> gets the new process.\<close>

definition fork_family :: "nat \<Rightarrow> nat \<Rightarrow> sched \<Rightarrow> sched option" where
  "fork_family par spawn s = do {
     s1 \<leftarrow> thread_critical_start s;
     let s2 = upd_proc spawn (\<lambda>x. x\<lparr>p_parent := Some par\<rparr>) s1;
     (h, l) \<leftarrow> list_add (p_children (proc s2 par)) spawn (plink s2);
     thread_critical_end (upd_proc par (\<lambda>x. x\<lparr>p_children := h\<rparr>) (s2\<lparr>plink := l\<rparr>)) }"

text \<open>
  \<open>process_fork\<close> up to the hand-over, which \<open>Fork\<close> models: an error, or the fork data, the new process and its id.
\<close>

definition process_fork :: "nat \<Rightarrow> 'd kern \<Rightarrow> ((int + nat \<times> nat \<times> int) \<times> 'd kern) option" where
  "process_fork entry k = do {
     (r, k1) \<leftarrow> k_malloc FORK_DATA_SIZE k;
     (case r of
        None \<Rightarrow> Some (Inl (- ENOMEM), k1)
      | Some fdata \<Rightarrow> do {
          tparent \<leftarrow> current (ksched k1);
          par \<leftarrow> th_process (thr (ksched k1) tparent);
          (r2, k2) \<leftarrow> process_create k1;
          (case r2 of
             None \<Rightarrow> do { k3 \<leftarrow> k_free (Some fdata) k2; Some (Inl (- ENOMEM), k3) }
           | Some spawn \<Rightarrow> do {
               path \<leftarrow> po_path (k_pobj k2 par);
               (s, k3) \<leftarrow> strdup (heap_str (kheap_of k2) path) k2;
               let k4 = upd_pobj spawn (\<lambda>x. x\<lparr>po_path := s\<rparr>) k3;
               (if s = None then do {
                  k5 \<leftarrow> process_put spawn k4;
                  k6 \<leftarrow> k_free (Some fdata) k5;
                  Some (Inl (- ENOMEM), k6) }
                else do {
                  f \<leftarrow> file_fdtable_copy par spawn (ksys k4);
                  let k5 = dma_pages (po_mpage (k_pobj k4 spawn)) (po_mpage (k_pobj k4 par)) PROCESS_PAGES (k4\<lparr>ksys := f\<rparr>);
                  k6 \<leftarrow> on_sched (fork_family par spawn) k5;
                  (e, k7) \<leftarrow> fork_thread spawn fdata entry k6;
                  Some (map_sum id (\<lambda>pid. (fdata, spawn, pid)) e, k7) }) }) }) }"

section \<open>Ending and waiting\<close>

text \<open>\<open>process_start_thread\<close>: \<open>exec\<close> in the memory of the process itself; its return is a panic.\<close>

definition process_start_thread :: "nat list list option \<Rightarrow> 'd kern \<Rightarrow> ((nat \<times> nat \<times> nat \<times> nat) \<times> 'd kern) option" where
  "process_start_thread argv k = do {
     t \<leftarrow> current (ksched k);
     p \<leftarrow> th_process (thr (ksched k) t);
     (r, k1) \<leftarrow> process_do_exec p (po_mpage (k_pobj k p)) argv k;
     (case r of Inl _ \<Rightarrow> None | Inr x \<Rightarrow> Some (x, k1)) }"

text \<open>\<open>thread_end(it)\<close> of the other threads in the order of the storage\<close>

fun end_others :: "cpu_context \<Rightarrow> nat \<Rightarrow> nat list \<Rightarrow> sched \<Rightarrow> sched option" where
  "end_others ctx me [] s = Some s"
| "end_others ctx me (t # ts) s =
     (if t = me then end_others ctx me ts s
      else do {
        s1 \<leftarrow> thread_critical_start s;
        (_, s2) \<leftarrow> thread_end (Some t) ctx s1;
        s3 \<leftarrow> thread_critical_end s2;
        end_others ctx me ts s3 })"

definition process_end :: "nat option \<Rightarrow> int \<Rightarrow> cpu_context \<Rightarrow> 'd kern \<Rightarrow> (cpu_context \<times> 'd kern) option" where
  "process_end p' exit ctx k = do {
     me \<leftarrow> current (ksched k);
     p \<leftarrow> (case p' of None \<Rightarrow> th_process (thr (ksched k) me) | Some p \<Rightarrow> Some p);
     let k1 = upd_sched (upd_proc p (\<lambda>x. x\<lparr>p_exit := exit\<rparr>)) k;
     f \<leftarrow> file_close_all p (ksys k1);
     k2 \<leftarrow> proc_lock p (k1\<lparr>ksys := f\<rparr>);
     k3 \<leftarrow> on_sched (end_others ctx me (map fst (id_list (p_threads (proc (ksched k2) p))))) k2;
     let k4 = proc_unlock p k3;
     (if th_process (thr (ksched k4) me) = Some p then do {
        s1 \<leftarrow> thread_critical_start (ksched k4);
        (c, s2) \<leftarrow> thread_end None ctx s1;
        Some (c, k4\<lparr>ksched := s2\<rparr>) }
      else Some (ctx, k4)) }"

text \<open>The outer loop of \<open>process_wait\<close>: without a hit it goes round again over the same zombies.\<close>

partial_function (option) wait_pick :: "nat \<Rightarrow> int \<Rightarrow> 'd kern \<Rightarrow> nat option" where
  "wait_pick p pid k = do {
     head \<leftarrow> p_zombies (proc (ksched k) p);
     found \<leftarrow> ring_search (\<lambda>z. pid < 0 \<or> po_pid (k_pobj k z) = pid) (plink (ksched k)) head head;
     (case found of Some z \<Rightarrow> Some z | None \<Rightarrow> wait_pick p pid k) }"

declare wait_pick.simps [code]

text \<open>What follows the loop: the id of the zombie and its exit status.\<close>

definition wait_reap :: "nat \<Rightarrow> nat \<Rightarrow> 'd kern \<Rightarrow> (int \<times> int \<times> 'd kern) option" where
  "wait_reap p z k = do {
     (h, l) \<leftarrow> list_remove (p_zombies (proc (ksched k) p)) z (plink (ksched k));
     k1 \<leftarrow> on_sched thread_critical_end (upd_sched (\<lambda>s. upd_proc p (\<lambda>x. x\<lparr>p_zombies := h\<rparr>) (s\<lparr>plink := l\<rparr>)) k);
     let zpid = po_pid (k_pobj k1 z);
     k2 \<leftarrow> pids_lock k1;
     k3 \<leftarrow> thread_join_all z (pids_unlock (k2\<lparr>k_pids := id_remove (k_pids k2) z\<rparr>));
     let exit = p_exit (proc (ksched k3) z);
     k4 \<leftarrow> process_put z k3;
     Some (zpid, exit, k4) }"

text \<open>From the loop on, with scheduling disabled; \<open>err\<close> is what the last wait returned. A call that waits gives no result yet.\<close>

definition process_wait_loop :: "nat \<Rightarrow> int \<Rightarrow> int \<Rightarrow> int \<Rightarrow> cpu_context \<Rightarrow> 'd kern \<Rightarrow> ((int \<times> int option) option \<times> cpu_context \<times> 'd kern) option" where
  "process_wait_loop p pid now err ctx k =
     (if p_zombies (proc (ksched k) p) = None \<and> err = 0 then do {
        (ctx', s) \<leftarrow> thread_wait_relative (WaitOf p) 0 now ctx (ksched k);
        Some (None, ctx', k\<lparr>ksched := s\<rparr>) }
      else if err \<noteq> 0 then do { k1 \<leftarrow> on_sched thread_critical_end k; Some (Some (err, None), ctx, k1) }
      else do {
        z \<leftarrow> wait_pick p pid k;
        (zpid, exit, k1) \<leftarrow> wait_reap p z k;
        Some (Some (zpid, Some exit), ctx, k1) })"

definition process_wait :: "int \<Rightarrow> int \<Rightarrow> int \<Rightarrow> cpu_context \<Rightarrow> 'd kern \<Rightarrow> ((int \<times> int option) option \<times> cpu_context \<times> 'd kern) option" where
  "process_wait pid options now ctx k = do {
     t \<leftarrow> current (ksched k);
     p \<leftarrow> th_process (thr (ksched k) t);
     k1 \<leftarrow> on_sched thread_critical_start k;
     (if p_zombies (proc (ksched k1) p) = None \<and> p_children (proc (ksched k1) p) = None then do {
        k2 \<leftarrow> on_sched thread_critical_end k1; Some (Some (- ECHILD, None), ctx, k2) }
      else if p_zombies (proc (ksched k1) p) = None \<and> options \<noteq> 0 then do {
        k2 \<leftarrow> on_sched thread_critical_end k1; Some (Some (- EAGAIN, None), ctx, k2) }
      else process_wait_loop p pid now 0 ctx k1) }"

definition process_init :: "'d kern \<Rightarrow> 'd kern" where
  "process_init k = k\<lparr>k_pids := id_init, k_plock := False\<rparr>"

section \<open>What \<open>exec\<close> leaves on the stack\<close>

text \<open>Reading the stack page back: a 16 bit word, and \<open>n\<close> bytes.\<close>

definition word_at :: "(nat \<Rightarrow> nat) \<Rightarrow> nat \<Rightarrow> nat" where
  "word_at m a = m a + 256 * m (a + 1)"

definition bytes_at :: "(nat \<Rightarrow> nat) \<Rightarrow> nat \<Rightarrow> nat \<Rightarrow> nat list" where
  "bytes_at m a n = map m [a ..< a + n]"

lemma put_bytes_out: "x < a \<or> a + length bs \<le> x \<Longrightarrow> put_bytes a bs m x = m x"
  by (auto simp: put_bytes_def)

lemma length_le16 [simp]: "length (le16 v) = 2"
  by (simp add: le16_def)

lemma word_put [simp]: "v < 65536 \<Longrightarrow> word_at (put_bytes a (le16 v) m) a = v"
  by (simp add: word_at_def put_bytes_def le16_def)

lemma word_put_out: "a + 1 < b \<or> b + length bs \<le> a \<Longrightarrow> word_at (put_bytes b bs m) a = word_at m a"
  unfolding word_at_def using put_bytes_out[of a b bs m] put_bytes_out[of "a + 1" b bs m] by auto

lemma bytes_put [simp]: "bytes_at (put_bytes a bs m) a (length bs) = bs"
  by (rule nth_equalityI) (simp_all add: bytes_at_def put_bytes_def)

lemma bytes_cong: "(\<And>x. a \<le> x \<Longrightarrow> x < a + n \<Longrightarrow> m x = m' x) \<Longrightarrow> bytes_at m a n = bytes_at m' a n"
  by (simp add: bytes_at_def)

definition args_room :: "nat list list \<Rightarrow> nat" where
  "args_room as = (\<Sum>a \<leftarrow> as. length a + 1)"

lemma args_room_simps [simp]: "args_room [] = 0" "args_room (a # as) = length a + 1 + args_room as"
  by (simp_all add: args_room_def)

text \<open>Pushing the strings changes only the bytes below and the slots of the table, and each slot points at its string.\<close>

lemma args_room_take: "j < length as \<Longrightarrow> args_room (take (Suc j) as) = args_room (take j as) + length (as ! j) + 1"
  by (simp add: take_Suc_conv_app_nth args_room_def)

lemma args_room_take_le: "args_room (take j as) \<le> args_room as"
proof -
  have "args_room as = args_room (take j as) + args_room (drop j as)"
    by (metis append_take_drop_id args_room_def map_append sum_list_append)
  then show ?thesis by simp
qed

text \<open>Without the room for the strings a write below the page.\<close>

lemma push_args_overflow: "pos < args_room as \<Longrightarrow> push_args as i table pos m = None"
  by (induction as i table pos m rule: push_args.induct) (auto simp: Let_def)

lemma push_args_ok:
  assumes "args_room as \<le> pos" and "pos \<le> table" and "table \<le> PAGE_SIZE"
  shows "\<exists>m'. push_args as i table pos m = Some (pos - args_room as, m') \<and>
    (\<forall>x. \<not> (pos - args_room as \<le> x \<and> x < pos) \<longrightarrow> \<not> (table + 2 * i \<le> x \<and> x < table + 2 * (i + length as)) \<longrightarrow> m' x = m x) \<and>
    (\<forall>j < length as. word_at m' (table + 2 * (i + j)) = 61440 + (pos - args_room (take (Suc j) as)) \<and>
       bytes_at m' (pos - args_room (take (Suc j) as)) (length (as ! j) + 1) = as ! j @ [0])"
  using assms
proof (induction as arbitrary: i pos m)
  case Nil
  then show ?case by simp
next
  case (Cons a as)
  define p where "p = pos - (length a + 1)"
  define m1 where "m1 = put_bytes (table + 2 * i) (le16 (61440 + p)) (put_bytes p (a @ [0]) m)"
  have p: "args_room as \<le> p" "p \<le> table" "p + length a + 1 = pos" using Cons.prems by (simp_all add: p_def)
  from Cons.IH[OF p(1,2) Cons.prems(3), of "i + 1" m1] obtain m' where m':
    "push_args as (i + 1) table p m1 = Some (p - args_room as, m')"
    "\<And>x. \<not> (p - args_room as \<le> x \<and> x < p) \<Longrightarrow> \<not> (table + 2 * (i + 1) \<le> x \<and> x < table + 2 * (i + 1 + length as)) \<Longrightarrow> m' x = m1 x"
    "\<And>j. j < length as \<Longrightarrow> word_at m' (table + 2 * (i + 1 + j)) = 61440 + (p - args_room (take (Suc j) as)) \<and>
       bytes_at m' (p - args_room (take (Suc j) as)) (length (as ! j) + 1) = as ! j @ [0]"
    by blast
  have run: "push_args (a # as) i table pos m = Some (pos - args_room (a # as), m')"
    using Cons.prems(1) m'(1) by (simp add: p_def m1_def Let_def)
  have out: "m' x = m x" if "\<not> (pos - args_room (a # as) \<le> x \<and> x < pos)" "\<not> (table + 2 * i \<le> x \<and> x < table + 2 * (i + length (a # as)))" for x
  proof -
    have "m' x = m1 x" by (rule m'(2)) (use that p in auto)
    also have "m1 x = put_bytes p (a @ [0]) m x" unfolding m1_def by (rule put_bytes_out) (use that in \<open>auto simp: le16_def\<close>)
    also have "\<dots> = m x" by (rule put_bytes_out) (use that p in auto)
    finally show ?thesis .
  qed
  have head: "word_at m' (table + 2 * i) = 61440 + p" "bytes_at m' p (length a + 1) = a @ [0]"
  proof -
    have "m' x = m1 x" if "x = table + 2 * i \<or> x = table + 2 * i + 1" for x by (rule m'(2)) (use that p in auto)
    then have "word_at m' (table + 2 * i) = word_at m1 (table + 2 * i)" by (simp add: word_at_def)
    then show "word_at m' (table + 2 * i) = 61440 + p" using p Cons.prems by (simp add: m1_def PAGE_SIZE_def)
    have "bytes_at m' p (length a + 1) = bytes_at m1 p (length a + 1)" by (rule bytes_cong, rule m'(2)) (use p Cons.prems(2) in auto)
    also have "\<dots> = bytes_at (put_bytes p (a @ [0]) m) p (length a + 1)"
      by (rule bytes_cong) (use p Cons.prems(2) in \<open>auto simp: m1_def put_bytes_out\<close>)
    also have "\<dots> = a @ [0]" using bytes_put[of p "a @ [0]" m] by simp
    finally show "bytes_at m' p (length a + 1) = a @ [0]" .
  qed
  have "word_at m' (table + 2 * (i + j)) = 61440 + (pos - args_room (take (Suc j) (a # as))) \<and>
      bytes_at m' (pos - args_room (take (Suc j) (a # as))) (length ((a # as) ! j) + 1) = (a # as) ! j @ [0]"
    if j: "j < length (a # as)" for j
  proof (cases j)
    case 0
    then have "pos - args_room (take (Suc j) (a # as)) = p" using p by simp
    then show ?thesis using head 0 by simp
  next
    case (Suc j')
    then have "pos - args_room (take (Suc j) (a # as)) = p - args_room (take (Suc j') as)" using p by (simp add: p_def)
    then show ?thesis using m'(3)[of j'] j Suc by simp
  qed
  then show ?case using run out by blast
qed

lemma exec_stack_fits:
  assumes "args_room args + 2 * (length args + 1) + 4 \<le> PAGE_SIZE" and "table = PAGE_SIZE - 2 * (length args + 1)" and "sp = table - args_room args - 4"
  shows "\<exists>m. exec_stack (Some args) m0 = Some (61440 + sp, m) \<and> word_at m sp = length args \<and>
    word_at m (sp + 2) = 61440 + table \<and> word_at m (table + 2 * length args) = 0 \<and>
    (\<forall>j < length args. word_at m (table + 2 * j) = 61440 + (table - args_room (take (Suc j) args)) \<and>
       bytes_at m (table - args_room (take (Suc j) args)) (length (args ! j) + 1) = args ! j @ [0])"
proof -
  define n where "n = length args"
  define pos where "pos = table - args_room args"
  have t: "table + 2 * (n + 1) = PAGE_SIZE" "args_room args + 4 \<le> table" "table \<le> PAGE_SIZE" "n < 2048"
    using assms by (simp_all add: n_def PAGE_SIZE_def)
  have tb: "PAGE_SIZE - 2 * (n + 1) = table" using t(1) by simp
  have pos: "4 \<le> pos" "pos \<le> table" using t by (simp_all add: pos_def)
  have "args_room args \<le> table" using t by simp
  from push_args_ok[OF this order_refl t(3), of 0 m0] obtain m1 where m1: "push_args args 0 table table m0 = Some (pos, m1)"
    "\<And>j. j < n \<Longrightarrow> word_at m1 (table + 2 * j) = 61440 + (table - args_room (take (Suc j) args)) \<and>
       bytes_at m1 (table - args_room (take (Suc j) args)) (length (args ! j) + 1) = args ! j @ [0]" by (auto simp: pos_def n_def)
  define m where "m = put_bytes (pos - 4) (le16 n) (put_bytes (pos - 2) (le16 (61440 + table)) (put_bytes (table + 2 * n) (le16 0) m1))"
  have es: "exec_stack (Some args) m0 = Some (61440 + (pos - 4), m)"
    unfolding exec_stack_def option.case Let_def n_def[symmetric] tb m_def
    using t(1) pos(1) m1(1) by (simp del: mult_Suc_right)
  have keep: "m x = m1 x" if "pos \<le> x" "x < table + 2 * n" for x
  proof -
    have "m x = put_bytes (pos - 2) (le16 (61440 + table)) (put_bytes (table + 2 * n) (le16 0) m1) x"
      unfolding m_def by (rule put_bytes_out) (use that pos in auto)
    also have "\<dots> = put_bytes (table + 2 * n) (le16 0) m1 x" by (rule put_bytes_out) (use that pos in auto)
    also have "\<dots> = m1 x" by (rule put_bytes_out) (use that in auto)
    finally show ?thesis .
  qed
  note es
  moreover have "word_at m (pos - 4) = n" using t(4) by (simp add: m_def)
  moreover have "word_at m (pos - 4 + 2) = 61440 + table"
  proof -
    have e: "pos - 4 + 2 = pos - 2" using pos(1) by simp
    have "word_at m (pos - 2) = word_at (put_bytes (pos - 2) (le16 (61440 + table)) (put_bytes (table + 2 * n) (le16 0) m1)) (pos - 2)"
      unfolding m_def using pos(1) by (intro word_put_out) auto
    also have "\<dots> = 61440 + table" using t by (intro word_put) (simp add: PAGE_SIZE_def)
    finally show ?thesis unfolding e .
  qed
  moreover have "word_at m (table + 2 * n) = 0"
  proof -
    have "word_at m (table + 2 * n) = word_at (put_bytes (table + 2 * n) (le16 0) m1) (table + 2 * n)"
    proof -
      have "word_at m (table + 2 * n) = word_at (put_bytes (pos - 2) (le16 (61440 + table)) (put_bytes (table + 2 * n) (le16 0) m1)) (table + 2 * n)"
        unfolding m_def using pos by (intro word_put_out) auto
      also have "\<dots> = word_at (put_bytes (table + 2 * n) (le16 0) m1) (table + 2 * n)" using pos by (intro word_put_out) auto
      finally show ?thesis .
    qed
    then show ?thesis by simp
  qed
  moreover have "word_at m (table + 2 * j) = 61440 + (table - args_room (take (Suc j) args)) \<and>
      bytes_at m (table - args_room (take (Suc j) args)) (length (args ! j) + 1) = args ! j @ [0]" if j: "j < n" for j
  proof -
    define q where "q = table - args_room (take (Suc j) args)"
    have r: "args_room (take (Suc j) args) \<le> args_room args" "length (args ! j) + 1 \<le> args_room (take (Suc j) args)"
      using args_room_take_le[of "Suc j" args] args_room_take[of j args] j by (simp_all add: n_def)
    then have q: "pos \<le> q" "q + length (args ! j) < table" using t(2) by (simp_all add: q_def pos_def)
    have "word_at m (table + 2 * j) = word_at m1 (table + 2 * j)" using j pos(2) by (simp add: word_at_def keep)
    moreover have "bytes_at m q (length (args ! j) + 1) = bytes_at m1 q (length (args ! j) + 1)"
      using q by (intro bytes_cong keep) simp_all
    ultimately show ?thesis using m1(2)[OF j] by (simp add: q_def)
  qed
  moreover have "sp = pos - 4" using assms(3) by (simp add: pos_def)
  ultimately show ?thesis unfolding n_def[symmetric] by (intro exI[of _ m]) simp
qed

lemma exec_stack_overflow:
  assumes "PAGE_SIZE < args_room args + 2 * (length args + 1) + 4"
  shows "exec_stack (Some args) m0 = None"
proof (cases "PAGE_SIZE < 2 * (length args + 1)")
  case True
  then show ?thesis by (simp add: exec_stack_def Let_def)
next
  case False
  define table where "table = PAGE_SIZE - 2 * (length args + 1)"
  have es: "exec_stack (Some args) m0 = do {
      (pos, m) \<leftarrow> push_args args 0 table table m0;
      check (4 \<le> pos);
      Some (61440 + pos - 4, put_bytes (pos - 4) (le16 (length args)) (put_bytes (pos - 2) (le16 (61440 + table))
        (put_bytes (table + 2 * length args) (le16 0) m))) }"
    using False unfolding exec_stack_def option.case Let_def table_def[symmetric]
    by (cases "push_args args 0 table table m0") auto
  show ?thesis
  proof (cases "args_room args \<le> table")
    case True
    from push_args_ok[OF True order_refl, of 0 m0] obtain m1 where "push_args args 0 table table m0 = Some (table - args_room args, m1)"
      by (auto simp: table_def)
    moreover have "\<not> 4 \<le> table - args_room args" using assms False True by (simp add: table_def)
    ultimately show ?thesis by (simp add: es)
  next
    case no: False
    then have "push_args args 0 table table m0 = None" by (intro push_args_overflow) simp
    then show ?thesis by (simp add: es)
  qed
qed

text \<open>C17. The stack of a new program. If the arguments fit in its page: at the stack pointer their number and the
  address of their table; in the table the addresses of the strings, in their order, and a NULL; the strings, each with
  its NUL, one below the other from the table down, so that they overlap neither each other nor the table nor the two words
  at the stack pointer. The stack is mapped at 0xF000. Otherwise \<open>process_do_exec\<close>, which has no check, writes
  below the page.
\<close>

theorem exec_stack_arguments:
  "let n = length args; table = PAGE_SIZE - 2 * (n + 1); sp = table - args_room args - 4; str = (\<lambda>j. table - args_room (take (Suc j) args)) in
   if args_room args + 2 * (n + 1) + 4 \<le> PAGE_SIZE then
     \<exists>m. exec_stack (Some args) m0 = Some (61440 + sp, m) \<and> word_at m sp = n \<and> word_at m (sp + 2) = 61440 + table \<and>
       word_at m (table + 2 * n) = 0 \<and> (\<forall>j < n. sp + 4 \<le> str j \<and> str j + length (args ! j) + 1 \<le> (if j = 0 then table else str (j - 1)) \<and>
         word_at m (table + 2 * j) = 61440 + str j \<and> bytes_at m (str j) (length (args ! j) + 1) = args ! j @ [0])
   else exec_stack (Some args) m0 = None"
proof (cases "args_room args + 2 * (length args + 1) + 4 \<le> PAGE_SIZE")
  case True
  define table where "table = PAGE_SIZE - 2 * (length args + 1)"
  define str where "str j = table - args_room (take (Suc j) args)" for j
  have lay: "table - args_room args - 4 + 4 \<le> str j \<and> str j + length (args ! j) + 1 \<le> (if j = 0 then table else str (j - 1))" if j: "j < length args" for j
  proof -
    have "args_room args + 4 \<le> table" using True by (simp add: table_def)
    then show ?thesis using args_room_take[of j args] args_room_take_le[of "Suc j" args] j by (cases j) (auto simp: str_def)
  qed
  from exec_stack_fits[OF True table_def refl, of m0] lay True show ?thesis
    unfolding Let_def table_def[symmetric] str_def by (simp only: if_True) blast
next
  case False
  then show ?thesis using exec_stack_overflow[of args m0] by (simp add: Let_def)
qed

theorem exec_stack_arguments_witness:
  "\<exists>m. exec_stack (Some [[108, 115], [47]]) (\<lambda>_. 0) = Some (65521, m) \<and> word_at m 4081 = 2 \<and> word_at m 4083 = 65530"
  using exec_stack_arguments[of "[[108, 115], [47]]" "\<lambda>_. 0"] by (auto simp: PAGE_SIZE_def Let_def)

end
