(* ===== verification/Fork.thy ===== *)
theory Fork
  imports ZPrelude
begin

text \<open>
  The hand-over of \<open>process_fork\<close> and \<open>process_fork_thread\<close> in \<open>kernel/proc/process.c\<close>: the parent and the
  thread of the child share the \<open>fork_data\<close> in the heap. A critical section of the scheduler is one step,
  and so is each piece of code outside of one; between two steps either thread may run. \<open>at_parent\<close> and
  \<open>at_child\<close> say where the two threads are. The \<open>fork_data\<close> is \<open>None\<close> from the \<open>kfree\<close> of the parent on; an access
  to it then is undefined: it sets \<open>fault\<close>, after which there is no step.
\<close>

datatype fork_state = fork_not_ready | fork_forking | fork_fail | fork_done

datatype party = Parent | Child

text \<open>
  The parent is before its critical section, suspended in \<open>_thread_wait\<close>, woken but not yet running, behind
  the loop, or has returned.
\<close>

datatype parent_at = P_Start | P_Suspended | P_Woken | P_Out | P_Returned int

text \<open>
  The child starts, is suspended in \<open>_thread_wait\<close>, woken, behind its loop, has the new stack page (0 when
  there was none), has jumped into the copy of the parent's stack (where it is inside the parent's wait), is
  behind the loop, has freed the old stack, has returned 0, or has ended.
\<close>

datatype child_at = C_Start | C_Suspended | C_Woken | C_Alloc | C_Page nat | C_Jumped | C_Out | C_Freed | C_Returned | C_Ended

record fork_data =
  fd_queue :: "party list"
  fd_state :: fork_state
  fd_old_stack :: nat

record handover =
  fdata :: "fork_data option"
  fault :: bool
  at_parent :: parent_at
  at_child :: child_at
  child_stack :: nat
  copied_from :: "parent_at option"
  freed_pages :: "nat list"

text \<open>Reading and writing the members of the \<open>fork_data\<close>\<close>

definition with_fdata :: "(fork_data \<Rightarrow> handover) \<Rightarrow> handover \<Rightarrow> handover" where
  "with_fdata g s = (case fdata s of None \<Rightarrow> s\<lparr>fault := True\<rparr> | Some d \<Rightarrow> g d)"

text \<open>\<open>_thread_signal(&fdata->queue)\<close>, and the queueing of \<open>_thread_wait\<close>\<close>

definition fork_signal :: "handover \<Rightarrow> handover" where
  "fork_signal s = with_fdata (\<lambda>d. case fd_queue d of
     [] \<Rightarrow> s
   | Parent # q \<Rightarrow> s\<lparr>fdata := Some (d\<lparr>fd_queue := q\<rparr>), at_parent := P_Woken\<rparr>
   | Child # q \<Rightarrow> s\<lparr>fdata := Some (d\<lparr>fd_queue := q\<rparr>), at_child := C_Woken\<rparr>) s"

definition parent_loop :: "handover \<Rightarrow> handover" where
  "parent_loop s = with_fdata (\<lambda>d. if fd_state d = fork_forking
     then s\<lparr>fdata := Some (d\<lparr>fd_queue := fd_queue d @ [Parent]\<rparr>), at_parent := P_Suspended\<rparr>
     else s\<lparr>at_parent := P_Out\<rparr>) s"

text \<open>The parent, with \<open>pid\<close> the id of the new process.\<close>

definition parent_step :: "int \<Rightarrow> handover \<Rightarrow> handover option" where
  "parent_step pid s = (if fault s then None else case at_parent s of
     P_Start \<Rightarrow> Some (with_fdata (\<lambda>d. parent_loop (fork_signal (s\<lparr>fdata := Some (d\<lparr>fd_state := fork_forking\<rparr>)\<rparr>))) s)
   | P_Woken \<Rightarrow> Some (parent_loop s)
   | P_Out \<Rightarrow> Some (with_fdata (\<lambda>d. s\<lparr>at_parent := P_Returned (if fd_state d = fork_done then pid else - ENOMEM), fdata := None\<rparr>) s)
   | _ \<Rightarrow> None)"

definition child_loop :: "handover \<Rightarrow> handover" where
  "child_loop s = with_fdata (\<lambda>d. if fd_state d = fork_not_ready
     then s\<lparr>fdata := Some (d\<lparr>fd_queue := fd_queue d @ [Child]\<rparr>), at_child := C_Suspended\<rparr>
     else s\<lparr>at_child := C_Alloc\<rparr>) s"

text \<open>
  The child, with \<open>pg\<close> the page that \<open>page_alloc\<close> returns. In the copy of the stack it is in the loop of the
  parent, with \<open>ischild\<close> set by \<open>_thread_longjmp\<close>.
\<close>

definition child_step :: "nat \<Rightarrow> handover \<Rightarrow> handover option" where
  "child_step pg s = (if fault s then None else case at_child s of
     C_Start \<Rightarrow> Some (child_loop s)
   | C_Woken \<Rightarrow> Some (child_loop s)
   | C_Alloc \<Rightarrow> Some (s\<lparr>at_child := C_Page pg\<rparr>)
   | C_Page nstack \<Rightarrow> Some (with_fdata (\<lambda>d.
       if nstack = 0 then (fork_signal (s\<lparr>fdata := Some (d\<lparr>fd_state := fork_fail\<rparr>)\<rparr>))\<lparr>at_child := C_Ended\<rparr>
       else let s1 = fork_signal (s\<lparr>copied_from := Some (at_parent s), fdata := Some (d\<lparr>fd_state := fork_done\<rparr>)\<rparr>)
            in with_fdata (\<lambda>e. s1\<lparr>fdata := Some (e\<lparr>fd_old_stack := child_stack s1\<rparr>), child_stack := nstack, at_child := C_Jumped\<rparr>) s1) s)
   | C_Jumped \<Rightarrow> Some (with_fdata (\<lambda>d.
       if fd_state d = fork_forking
       then s\<lparr>fdata := Some (d\<lparr>fd_queue := fd_queue d @ [Child]\<rparr>), at_child := C_Suspended\<rparr>
       else s\<lparr>at_child := C_Out\<rparr>) s)
   | C_Out \<Rightarrow> Some (with_fdata (\<lambda>d. s\<lparr>freed_pages := fd_old_stack d # freed_pages s, at_child := C_Freed\<rparr>) s)
   | C_Freed \<Rightarrow> Some (with_fdata (\<lambda>_. (fork_signal s)\<lparr>at_child := C_Returned\<rparr>) s)
   | _ \<Rightarrow> None)"

inductive step :: "int \<Rightarrow> handover \<Rightarrow> handover \<Rightarrow> bool" for pid :: int where
  parent: "parent_step pid s = Some s' \<Longrightarrow> step pid s s'"
| child: "child_step pg s = Some s' \<Longrightarrow> step pid s s'"

text \<open>What \<open>process_fork\<close> sets up; the new thread runs on the stack page \<open>stack\<close>.\<close>

definition fork_start :: "nat \<Rightarrow> handover" where
  "fork_start stack = \<lparr>fdata = Some \<lparr>fd_queue = [], fd_state = fork_not_ready, fd_old_stack = 0\<rparr>, fault = False, at_parent = P_Start,
     at_child = C_Start, child_stack = stack, copied_from = None, freed_pages = []\<rparr>"

inductive reachable :: "int \<Rightarrow> nat \<Rightarrow> handover \<Rightarrow> bool" for pid :: int and stack :: nat where
  start: "reachable pid stack (fork_start stack)"
| next_step: "reachable pid stack s \<Longrightarrow> step pid s s' \<Longrightarrow> reachable pid stack s'"

section \<open>The invariant\<close>

text \<open>
  What the state of the \<open>fork_data\<close> says of the two threads. Before the parent is ready the child starts or
  is the only one in the queue; while the state is \<open>fork_forking\<close> the parent is suspended in its wait and
  the only one in the queue.
\<close>

fun phase_ok :: "nat \<Rightarrow> int \<Rightarrow> handover \<Rightarrow> fork_data \<Rightarrow> fork_state \<Rightarrow> bool" where
  "phase_ok stack pid s d fork_not_ready \<longleftrightarrow> at_parent s = P_Start \<and> child_stack s = stack \<and> copied_from s = None \<and> freed_pages s = [] \<and>
     (at_child s = C_Start \<and> fd_queue d = [] \<or> at_child s = C_Suspended \<and> fd_queue d = [Child])"
| "phase_ok stack pid s d fork_forking \<longleftrightarrow> at_parent s = P_Suspended \<and> fd_queue d = [Parent] \<and> child_stack s = stack \<and>
     copied_from s = None \<and> freed_pages s = [] \<and>
     (at_child s = C_Start \<or> at_child s = C_Woken \<or> at_child s = C_Alloc \<or> (\<exists>pg. at_child s = C_Page pg))"
| "phase_ok stack pid s d fork_fail \<longleftrightarrow> fd_queue d = [] \<and> at_child s = C_Ended \<and> copied_from s = None \<and> freed_pages s = [] \<and>
     (at_parent s = P_Woken \<or> at_parent s = P_Out)"
| "phase_ok stack pid s d fork_done \<longleftrightarrow> fd_queue d = [] \<and> copied_from s = Some P_Suspended \<and> fd_old_stack d = stack \<and> child_stack s \<noteq> 0 \<and>
     (at_parent s = P_Woken \<or> at_parent s = P_Out) \<and>
     (at_child s = C_Jumped \<and> freed_pages s = [] \<or> at_child s = C_Out \<and> freed_pages s = [] \<or>
      (at_child s = C_Freed \<or> at_child s = C_Returned) \<and> freed_pages s = [stack])"

text \<open>After the \<open>kfree\<close> of the parent: a child with its copy that still goes on runs into the fault.\<close>

definition gone_ok :: "nat \<Rightarrow> int \<Rightarrow> handover \<Rightarrow> bool" where
  "gone_ok stack pid s \<longleftrightarrow>
     at_parent s = P_Returned (- ENOMEM) \<and> at_child s = C_Ended \<and> copied_from s = None \<and> freed_pages s = [] \<and> \<not> fault s \<or>
     at_parent s = P_Returned pid \<and> copied_from s = Some P_Suspended \<and> child_stack s \<noteq> 0 \<and>
       (at_child s = C_Jumped \<and> freed_pages s = [] \<or> at_child s = C_Out \<and> freed_pages s = [] \<or>
        at_child s = C_Freed \<and> freed_pages s = [stack] \<or> at_child s = C_Returned \<and> freed_pages s = [stack] \<and> \<not> fault s)"

definition handover_ok :: "nat \<Rightarrow> int \<Rightarrow> handover \<Rightarrow> bool" where
  "handover_ok stack pid s = (case fdata s of None \<Rightarrow> gone_ok stack pid s | Some d \<Rightarrow> \<not> fault s \<and> phase_ok stack pid s d (fd_state d))"

lemmas step_defs = parent_step_def child_step_def fork_signal_def parent_loop_def child_loop_def with_fdata_def Let_def

text \<open>The phases, one by one\<close>

lemma handover_cases:
  assumes "handover_ok stack pid s"
  obtains (gone) "fdata s = None" "gone_ok stack pid s"
    | (not_ready) d where "fdata s = Some d" "fd_state d = fork_not_ready" "\<not> fault s" "phase_ok stack pid s d fork_not_ready"
    | (forking) d where "fdata s = Some d" "fd_state d = fork_forking" "\<not> fault s" "phase_ok stack pid s d fork_forking"
    | (failed) d where "fdata s = Some d" "fd_state d = fork_fail" "\<not> fault s" "phase_ok stack pid s d fork_fail"
    | (copied) d where "fdata s = Some d" "fd_state d = fork_done" "\<not> fault s" "phase_ok stack pid s d fork_done"
  using assms unfolding handover_ok_def
  by (cases "fdata s"; cases "fd_state (the (fdata s))") auto

lemma parent_step_ok: "parent_step pid s = Some s' \<Longrightarrow> handover_ok stack pid s \<Longrightarrow> handover_ok stack pid s'"
  by (erule handover_cases; auto simp: handover_ok_def gone_ok_def step_defs split: if_splits)

lemma child_step_ok: "child_step pg s = Some s' \<Longrightarrow> handover_ok stack pid s \<Longrightarrow> handover_ok stack pid s'"
  by (erule handover_cases; auto simp: handover_ok_def gone_ok_def step_defs split: if_splits)

lemma reachable_ok: "reachable pid stack s \<Longrightarrow> handover_ok stack pid s"
proof (induction rule: reachable.induct)
  case start
  then show ?case by (simp add: handover_ok_def fork_start_def)
next
  case (next_step s s')
  then show ?case using parent_step_ok child_step_ok by (auto elim: step.cases)
qed

section \<open>Progress\<close>

text \<open>Every step brings the two threads closer to their returns.\<close>

fun parent_left :: "parent_at \<Rightarrow> nat" where
  "parent_left P_Start = 6"
| "parent_left P_Suspended = 3"
| "parent_left P_Woken = 2"
| "parent_left P_Out = 1"
| "parent_left (P_Returned _) = 0"

fun child_left :: "child_at \<Rightarrow> nat" where
  "child_left C_Start = 8"
| "child_left C_Suspended = 6"
| "child_left C_Woken = 7"
| "child_left C_Alloc = 6"
| "child_left (C_Page _) = 5"
| "child_left C_Jumped = 3"
| "child_left C_Out = 2"
| "child_left C_Freed = 1"
| "child_left C_Returned = 0"
| "child_left C_Ended = 0"

definition steps_left :: "handover \<Rightarrow> nat" where
  "steps_left s = (if fault s then 0 else parent_left (at_parent s) + child_left (at_child s))"

lemma parent_decreases: "parent_step pid s = Some s' \<Longrightarrow> handover_ok stack pid s \<Longrightarrow> steps_left s' < steps_left s"
  by (erule handover_cases; auto simp: gone_ok_def step_defs steps_left_def split: if_splits)

lemma child_decreases: "child_step pg s = Some s' \<Longrightarrow> handover_ok stack pid s \<Longrightarrow> steps_left s' < steps_left s"
  by (erule handover_cases; auto simp: gone_ok_def step_defs steps_left_def split: if_splits)

lemma step_decreases: "step pid s s' \<Longrightarrow> handover_ok stack pid s \<Longrightarrow> steps_left s' < steps_left s"
  using parent_decreases child_decreases by (auto elim: step.cases)

definition both_returned :: "handover \<Rightarrow> bool" where
  "both_returned s \<longleftrightarrow> \<not> fault s \<and> (\<exists>r. at_parent s = P_Returned r) \<and> (at_child s = C_Returned \<or> at_child s = C_Ended)"

lemma step_enabled:
  assumes ok: "handover_ok stack pid s" and n: "\<not> both_returned s" "\<not> fault s"
  shows "\<exists>s'. step pid s s'"
proof -
  have "parent_step pid s \<noteq> None \<or> child_step 0 s \<noteq> None"
    using ok n by (elim handover_cases) (auto simp: gone_ok_def parent_step_def child_step_def both_returned_def)
  then show ?thesis using step.parent step.child by blast
qed

section \<open>Properties\<close>

text \<open>C34. The stack is copied while the parent is suspended in its wait. When the parent has returned the id of
  the child, the child has its copy and a stack of its own; otherwise the child has ended. A child that
  returned has freed the stack it started with, and no other page. An access to the \<open>fork_data\<close> after its release
  can only be one of the child's, between its jump and its return, when the parent has returned the id.
\<close>

theorem fork_handover_safe:
  assumes "reachable pid stack s"
  shows "copied_from s \<in> {None, Some P_Suspended} \<and>
    (\<forall>r. at_parent s = P_Returned r \<longrightarrow>
      r = pid \<and> copied_from s = Some P_Suspended \<and> child_stack s \<noteq> 0 \<or> r = - ENOMEM \<and> copied_from s = None \<and> at_child s = C_Ended) \<and>
    (at_child s = C_Returned \<longrightarrow> copied_from s = Some P_Suspended \<and> freed_pages s = [stack]) \<and>
    (fault s \<longrightarrow> at_parent s = P_Returned pid \<and> at_child s \<in> {C_Jumped, C_Out, C_Freed})"
  using reachable_ok[OF assms] by (elim handover_cases) (auto simp: gone_ok_def)

text \<open>C35. Every run of the two threads is over after at most 14 steps, and it is over only when both have returned
  or when the child has accessed the \<open>fork_data\<close> the parent has freed.
\<close>

theorem fork_handover_ends:
  assumes "(step pid ^^ n) (fork_start stack) s"
  shows "n \<le> 14 \<and> ((\<exists>s'. step pid s s') \<or> both_returned s \<or> fault s)"
proof -
  have "reachable pid stack s \<and> steps_left s + n \<le> 14" using assms
  proof (induction n arbitrary: s)
    case 0
    then have "s = fork_start stack" by simp
    then show ?case using reachable.start[of pid stack] by (simp add: steps_left_def) (simp add: fork_start_def)
  next
    case (Suc n)
    then obtain s1 where s1: "(step pid ^^ n) (fork_start stack) s1" "step pid s1 s" by auto
    with Suc.IH[OF s1(1)] show ?case
      using step_decreases[OF s1(2) reachable_ok, of stack] reachable.next_step[of pid stack s1 s] by auto
  qed
  then show ?thesis using step_enabled[OF reachable_ok, of pid stack s] by auto
qed

text \<open>Runs, with \<open>True\<close> for a step of the parent and the page 7 for the child.\<close>

definition run :: "int \<Rightarrow> bool list \<Rightarrow> handover \<Rightarrow> handover option" where
  "run pid acts s0 = foldl (\<lambda>s a. Option.bind s (if a then parent_step pid else child_step 7)) (Some s0) acts"

lemma run_reachable: "run pid acts (fork_start stack) = Some s \<Longrightarrow> reachable pid stack s"
proof (induction acts arbitrary: s rule: rev_induct)
  case Nil
  then show ?case using reachable.start[of pid stack] by (simp add: run_def)
next
  case (snoc a acts)
  then obtain s1 where "run pid acts (fork_start stack) = Some s1" "(if a then parent_step pid else child_step 7) s1 = Some s"
    by (auto simp: run_def bind_eq_Some_conv)
  then show ?case using snoc.IH reachable.next_step step.parent step.child by (cases a) auto
qed

text \<open>Three runs: the parent frees the \<open>fork_data\<close> before the child, which runs with the scheduler enabled again, has
  read the page of its old stack from it; the child is first; there is no page for the child.
\<close>

lemma run_parent_first: "\<exists>s. run pid [False, True, False, False, False, True, True, False] (fork_start stack) = Some s \<and>
    fault s \<and> at_parent s = P_Returned pid \<and> at_child s = C_Jumped \<and> freed_pages s = []"
  by (simp add: run_def step_defs fork_start_def)

lemma run_child_first: "\<exists>s. run pid [False, True, False, False, False, False, False, False, True, True] (fork_start stack) = Some s \<and>
    both_returned s \<and> at_parent s = P_Returned pid \<and> at_child s = C_Returned"
  by (simp add: run_def step_defs fork_start_def both_returned_def)

text \<open>C38. The order of the last steps decides: there is a run in which both return, and one in which the parent has freed the
  \<open>fork_data\<close> when the child, inside the loop it has jumped into, reads its state.
\<close>

theorem fork_data_used_after_free:
  "(\<exists>s. reachable pid stack s \<and> both_returned s \<and> at_parent s = P_Returned pid) \<and>
   (\<exists>s. reachable pid stack s \<and> fault s \<and> at_parent s = P_Returned pid \<and> at_child s = C_Jumped)"
  using run_parent_first[of pid stack] run_child_first[of pid stack] run_reachable by metis

theorem fork_handover_safe_witness:
  "\<exists>s. reachable 5 3 s \<and> at_parent s = P_Returned 5 \<and> at_child s = C_Returned \<and> freed_pages s = [3]"
proof -
  from run_child_first[of 5 3] obtain s where s: "run 5 [False, True, False, False, False, False, False, False, True, True] (fork_start 3) = Some s"
    "at_parent s = P_Returned 5" "at_child s = C_Returned" by blast
  then show ?thesis using fork_handover_safe[OF run_reachable[OF s(1)]] run_reachable[OF s(1)] by blast
qed

theorem fork_handover_ends_witness: "\<exists>s'. step 5 (fork_start 3) s'"
proof -
  have "(step 5 ^^ 0) (fork_start 3) (fork_start 3)" by simp
  from fork_handover_ends[OF this] show ?thesis by (auto simp: both_returned_def fork_start_def)
qed

end
