(* ===== verification/Reap.thy ===== *)
theory Reap
  imports Process PageUse HeapUse FsOps
begin

text \<open>
  The end of a process: \<open>process_wait\<close>, \<open>thread_join_all\<close> and the last \<open>process_put\<close> over the clients' view
  of the heap (\<open>HeapUse\<close>) and of the pages (\<open>PageUse\<close>). \<open>holds k A M\<close> says that the addresses \<open>A\<close> are
  allocated blocks and the runs \<open>M\<close> allocated elements; what is released leaves these sets.
\<close>

definition holds :: "'d kern \<Rightarrow> nat set \<Rightarrow> (nat \<times> nat) set \<Rightarrow> bool" where
  "holds k A M \<longleftrightarrow> owned (kheap_of k) A \<and> owned_pages (k_pages (kdev_of k)) M"

text \<open>What releasing memory does not touch.\<close>

definition same_objects :: "'d kern \<Rightarrow> 'd kern \<Rightarrow> bool" where
  "same_objects k k' \<longleftrightarrow> ksched k' = ksched k \<and> k_pobj k' = k_pobj k \<and> k_pids k' = k_pids k \<and> k_plock k' = k_plock k \<and>
     plock (ksys k') = plock (ksys k)"

lemma kern_parts [simp]:
  "kheap_of (set_kheap h k) = h" "kdev_of (set_kheap h k) = kdev_of k"
  "kheap_of (set_kdev d k) = kheap_of k" "kdev_of (set_kdev d k) = d"
  by (simp_all add: kheap_of_def set_kheap_def kdev_of_def set_kdev_def)

lemma k_free_ok:
  assumes "holds k A M" and "a \<in> A"
  shows "\<exists>k'. k_free (Some a) k = Some k' \<and> holds k' (A - {a}) M \<and> same_objects k k'"
  using owned_free[of "kheap_of k" A a] assms
  by (auto simp: holds_def k_free_def same_objects_def) (auto simp: set_kheap_def)

lemma k_page_free_ok:
  assumes "holds k A M" and "(pg, n) \<in> M"
  shows "\<exists>k'. k_page_free pg n k = Some k' \<and> holds k' A (M - {(pg, n)}) \<and> same_objects k k'"
  using owned_pages_free[of "k_pages (kdev_of k)" M pg n] assms
  by (auto simp: holds_def k_page_free_def same_objects_def) (auto simp: set_kdev_def)

lemma holds_cong: "kheap_of k' = kheap_of k \<Longrightarrow> kdev_of k' = kdev_of k \<Longrightarrow> holds k' A M = holds k A M"
  by (simp add: holds_def)

lemma kern_upd [simp]:
  "kheap_of (k\<lparr>ksched := s\<rparr>) = kheap_of k" "kdev_of (k\<lparr>ksched := s\<rparr>) = kdev_of k"
  "kheap_of (k\<lparr>k_plock := b\<rparr>) = kheap_of k" "kdev_of (k\<lparr>k_plock := b\<rparr>) = kdev_of k"
  "kheap_of (k\<lparr>k_pids := st\<rparr>) = kheap_of k" "kdev_of (k\<lparr>k_pids := st\<rparr>) = kdev_of k"
  "kheap_of (k\<lparr>k_pobj := po\<rparr>) = kheap_of k" "kdev_of (k\<lparr>k_pobj := po\<rparr>) = kdev_of k"
  "kheap_of (k\<lparr>ksys := (ksys k)\<lparr>plock := pl\<rparr>\<rparr>) = kheap_of k" "kdev_of (k\<lparr>ksys := (ksys k)\<lparr>plock := pl\<rparr>\<rparr>) = kdev_of k"
  by (simp_all add: kheap_of_def kdev_of_def)

section \<open>The last reference\<close>

lemma process_put_last:
  assumes "holds k A M" and "po_refs (k_pobj k p) = 1" and "\<not> k_plock k"
    and "po_path (k_pobj k p) = Some s" and "s \<in> A" and "p \<in> A" and "s \<noteq> p" and "(po_mpage (k_pobj k p), PROCESS_PAGES) \<in> M"
  shows "\<exists>k'. process_put p k = Some k' \<and> holds k' (A - {s, p}) (M - {(po_mpage (k_pobj k p), PROCESS_PAGES)}) \<and>
    ksched k' = ksched k \<and> k_pids k' = k_pids k \<and> \<not> k_plock k'"
proof -
  define k1 where "k1 = upd_pobj p (\<lambda>x. x\<lparr>po_refs := po_refs x - 1\<rparr>) (k\<lparr>k_plock := True\<rparr>)"
  have h1: "holds k1 A M" using assms(1) by (simp add: k1_def upd_pobj_def holds_def)
  have o1: "po_path (k_pobj k1 p) = Some s" "po_mpage (k_pobj k1 p) = po_mpage (k_pobj k p)" "po_refs (k_pobj k1 p) = 0"
    "ksched k1 = ksched k" "k_pids k1 = k_pids k"
    using assms(2,4) by (simp_all add: k1_def upd_pobj_def)
  obtain k2 where k2: "k_free (Some s) k1 = Some k2" "holds k2 (A - {s}) M" "same_objects k1 k2" using k_free_ok[OF h1 assms(5)] by blast
  obtain k3 where k3: "k_page_free (po_mpage (k_pobj k p)) PROCESS_PAGES k2 = Some k3"
    "holds k3 (A - {s}) (M - {(po_mpage (k_pobj k p), PROCESS_PAGES)})" "same_objects k2 k3"
    using k_page_free_ok[OF k2(2) assms(8)] by blast
  have "p \<in> A - {s}" using assms(6,7) by simp
  from k_free_ok[OF k3(2) this] obtain k4 where k4: "k_free (Some p) k3 = Some k4"
    "holds k4 (A - {s} - {p}) (M - {(po_mpage (k_pobj k p), PROCESS_PAGES)})" "same_objects k3 k4" by blast
  have mp: "po_mpage (k_pobj k2 p) = po_mpage (k_pobj k p)" using k2(3) o1(2) by (simp add: same_objects_def)
  have "process_put_locked p (k\<lparr>k_plock := True\<rparr>) = Some k4"
    using assms(2) o1 k2(1) k3(1) k4(1) by (simp add: process_put_locked_def Let_def k1_def[symmetric])
  then have "process_put p k = Some (pids_unlock k4)" using assms(3) by (simp add: process_put_def pids_lock_def)
  moreover have "A - {s} - {p} = A - {s, p}" by blast
  ultimately show ?thesis using k4(2) o1 k2(3) k3(3) k4(3) by (simp add: pids_unlock_def holds_def same_objects_def)
qed

section \<open>The threads of a dead process\<close>

definition stack_of :: "sched \<Rightarrow> nat \<Rightarrow> nat \<times> nat" where
  "stack_of s t = (th_stack_page (thr s t), 1)"

lemma join_reap_ok:
  assumes "holds k A M" and "g \<in> A" and "stack_of (ksched k) g \<in> M" and "\<not> plock (ksys k) p"
  shows "\<exists>k'. thread_join_reap p g k = Some k' \<and> holds k' (A - {g}) (M - {stack_of (ksched k) g}) \<and> \<not> plock (ksys k') p \<and>
    k_pobj k' = k_pobj k \<and> k_pids k' = k_pids k \<and> k_plock k' = k_plock k \<and>
    ksched k' = upd_proc p (\<lambda>x. x\<lparr>p_threads := id_remove (p_threads x) g\<rparr>) (ksched k)"
proof -
  define k1 where "k1 = proc_unlock p (upd_sched (upd_proc p (\<lambda>x. x\<lparr>p_threads := id_remove (p_threads x) g\<rparr>))
    (k\<lparr>ksys := (ksys k)\<lparr>plock := (plock (ksys k))(p := True)\<rparr>\<rparr>))"
  have h1: "holds k1 A M" using assms(1)
    by (simp add: k1_def proc_unlock_def upd_sched_def holds_def kheap_of_def kdev_of_def)
  have s1: "ksched k1 = upd_proc p (\<lambda>x. x\<lparr>p_threads := id_remove (p_threads x) g\<rparr>) (ksched k)" "\<not> plock (ksys k1) p"
    "k_pobj k1 = k_pobj k" "k_pids k1 = k_pids k" "k_plock k1 = k_plock k"
    by (simp_all add: k1_def proc_unlock_def upd_sched_def)
  have st: "th_stack_page (thr (ksched k1) g) = th_stack_page (thr (ksched k) g)" by (simp add: s1 upd_proc_def)
  obtain k2 where k2: "k_page_free (th_stack_page (thr (ksched k) g)) 1 k1 = Some k2" "holds k2 A (M - {stack_of (ksched k) g})" "same_objects k1 k2"
    using k_page_free_ok[OF h1] assms(3) unfolding stack_of_def by blast
  obtain k3 where k3: "k_free (Some g) k2 = Some k3" "holds k3 (A - {g}) (M - {stack_of (ksched k) g})" "same_objects k2 k3"
    using k_free_ok[OF k2(2) assms(2)] by blast
  have "thread_join_reap p g k = Some k3"
    using assms(4) k2(1) k3(1) st by (simp add: thread_join_reap_def proc_lock_def Let_def k1_def[symmetric])
  then show ?thesis using k3(2) k2(3) k3(3) s1 by (simp add: same_objects_def)
qed

lemma q_rep_sched: "q_rep s Q \<Longrightarrow> q_rep (s\<lparr>schedule := b\<rparr>) Q" "q_rep s Q \<Longrightarrow> q_rep (upd_proc p f s) Q"
  by (simp_all add: q_rep_def upd_proc_def)

lemma join_all_loop_ok:
  assumes "holds k A M" and "\<not> plock (ksys k) p" and "\<not> schedule (ksched k)" and "q_rep (ksched k) Q"
    and "Q (GhostsOf p) = gs" and "set gs \<subseteq> A" and "stack_of (ksched k) ` set gs \<subseteq> M" and "distinct gs" and "inj_on (stack_of (ksched k)) (set gs)"
  shows "\<exists>k' ids. join_all_loop p k = Some k' \<and> holds k' (A - set gs) (M - stack_of (ksched k) ` set gs) \<and>
    k_pobj k' = k_pobj k \<and> k_pids k' = k_pids k \<and> k_plock k' = k_plock k \<and> \<not> schedule (ksched k') \<and>
    plink (ksched k') = plink (ksched k) \<and> proc (ksched k') = (proc (ksched k))(p := (proc (ksched k) p)\<lparr>p_threads := ids\<rparr>)"
  using assms
proof (induction gs arbitrary: k A M Q)
  case Nil
  have "qhead (ksched k) (GhostsOf p) = None" using q_rep_head[OF Nil.prems(4), of "GhostsOf p"] Nil.prems(5) by simp
  then have "join_all_loop p k = Some k" by (simp add: join_all_loop.simps)
  then show ?case using Nil.prems(1,3) by (intro exI[of _ k] exI[of _ "p_threads (proc (ksched k) p)"]) simp
next
  case (Cons g gs)
  let ?s = "ksched k"
  have hd: "qhead ?s (GhostsOf p) = Some g" using q_rep_head[OF Cons.prems(4), of "GhostsOf p"] Cons.prems(5) by simp
  obtain h l where q: "q_remove (GhostsOf p) g ?s = Some (?s\<lparr>qhead := h, qlink := l\<rparr>)"
    "q_rep (?s\<lparr>qhead := h, qlink := l\<rparr>) (Q(GhostsOf p := remove1 g (Q (GhostsOf p))))"
    using q_remove_rep[OF Cons.prems(4), of g "GhostsOf p"] Cons.prems(5) by auto
  define s2 where "s2 = ?s\<lparr>qhead := h, qlink := l, schedule := True\<rparr>"
  define k2 where "k2 = k\<lparr>ksched := s2\<rparr>"
  have st: "stack_of s2 = stack_of ?s" by (simp add: fun_eq_iff stack_of_def s2_def)
  have h2: "holds k2 A M" using Cons.prems(1) by (simp add: k2_def holds_def)
  have "\<exists>k3. thread_join_reap p g k2 = Some k3 \<and> holds k3 (A - {g}) (M - {stack_of (ksched k2) g}) \<and> \<not> plock (ksys k3) p \<and>
    k_pobj k3 = k_pobj k2 \<and> k_pids k3 = k_pids k2 \<and> k_plock k3 = k_plock k2 \<and>
    ksched k3 = upd_proc p (\<lambda>x. x\<lparr>p_threads := id_remove (p_threads x) g\<rparr>) (ksched k2)"
    by (rule join_reap_ok[OF h2]) (use Cons.prems(2,6,7) st in \<open>auto simp: k2_def\<close>)
  then obtain k3 where k3: "thread_join_reap p g k2 = Some k3" "holds k3 (A - {g}) (M - {stack_of ?s g})" "\<not> plock (ksys k3) p"
    "k_pobj k3 = k_pobj k" "k_pids k3 = k_pids k" "k_plock k3 = k_plock k"
    "ksched k3 = upd_proc p (\<lambda>x. x\<lparr>p_threads := id_remove (p_threads x) g\<rparr>) s2"
    by (auto simp: k2_def st)
  define k4 where "k4 = k3\<lparr>ksched := (ksched k3)\<lparr>schedule := False\<rparr>\<rparr>"
  have st4: "stack_of (ksched k4) = stack_of ?s" by (simp add: fun_eq_iff stack_of_def k4_def k3(7) upd_proc_def s2_def)
  have q4: "q_rep (ksched k4) (Q(GhostsOf p := gs))"
    using q(2) Cons.prems(5) by (simp add: k4_def k3(7) s2_def q_rep_def upd_proc_def)
  have p4: "\<not> plock (ksys k4) p" "\<not> schedule (ksched k4)" "holds k4 (A - {g}) (M - {stack_of ?s g})"
    using k3 by (simp_all add: k4_def holds_def)
  have "\<exists>k' ids. join_all_loop p k4 = Some k' \<and> holds k' (A - {g} - set gs) (M - {stack_of ?s g} - stack_of (ksched k4) ` set gs) \<and>
    k_pobj k' = k_pobj k4 \<and> k_pids k' = k_pids k4 \<and> k_plock k' = k_plock k4 \<and> \<not> schedule (ksched k') \<and>
    plink (ksched k') = plink (ksched k4) \<and> proc (ksched k') = (proc (ksched k4))(p := (proc (ksched k4) p)\<lparr>p_threads := ids\<rparr>)"
  proof (rule Cons.IH[OF p4(3,1,2) q4])
    show "stack_of (ksched k4) ` set gs \<subseteq> M - {stack_of ?s g}"
      unfolding st4 using Cons.prems(7,8,9) by (auto simp: inj_on_def)
  qed (use Cons.prems(6,8,9) in \<open>auto simp: st4\<close>)
  then obtain k' ids where k': "join_all_loop p k4 = Some k'" "holds k' (A - {g} - set gs) (M - {stack_of ?s g} - stack_of ?s ` set gs)"
    "k_pobj k' = k_pobj k" "k_pids k' = k_pids k" "k_plock k' = k_plock k" "\<not> schedule (ksched k')" "plink (ksched k') = plink ?s"
    "proc (ksched k') = (proc ?s)(p := (proc ?s p)\<lparr>p_threads := ids\<rparr>)"
    unfolding st4 by (auto simp: k4_def k3(4-7) s2_def upd_proc_def)
  have "on_sched (q_remove (GhostsOf p) g) k = Some (k\<lparr>ksched := ?s\<lparr>qhead := h, qlink := l\<rparr>\<rparr>)" by (simp add: on_sched_def q(1))
  moreover have "on_sched thread_critical_end (k\<lparr>ksched := ?s\<lparr>qhead := h, qlink := l\<rparr>\<rparr>) = Some k2"
    using Cons.prems(3) by (simp add: on_sched_def thread_critical_end_def k2_def s2_def)
  moreover have "on_sched thread_critical_start k3 = Some k4"
    by (simp add: on_sched_def thread_critical_start_def k4_def k3(7) s2_def upd_proc_def)
  ultimately have "join_all_loop p k = Some k'" using hd k3(1) k'(1) by (subst join_all_loop.simps) simp
  moreover have "A - {g} - set gs = A - set (g # gs)" "M - {stack_of ?s g} - stack_of ?s ` set gs = M - stack_of ?s ` set (g # gs)" by auto
  ultimately show ?case using k' by (intro exI[of _ k'] exI[of _ ids]) simp
qed

section \<open>Choosing the zombie\<close>

lemma wait_pick_find:
  assumes "cyc (plink (ksched k)) (p_zombies (proc (ksched k) p)) zs"
    and "List.find (\<lambda>z. pid < 0 \<or> po_pid (k_pobj k z) = pid) zs = Some z"
  shows "wait_pick p pid k = Some z"
proof -
  have "zs \<noteq> []" using assms(2) by auto
  with assms(1) have h: "p_zombies (proc (ksched k) p) = Some (hd zs)" by (simp add: cyc_def)
  from ring_search_cyc[OF assms(1)[unfolded h]] show ?thesis using assms(2) h by (subst wait_pick.simps) simp
qed

lemma wait_pick_spins:
  assumes "cyc (plink (ksched k)) (p_zombies (proc (ksched k) p)) zs"
    and "List.find (\<lambda>z. pid < 0 \<or> po_pid (k_pobj k z) = pid) zs = None" and "zs \<noteq> []"
  shows "wait_pick p pid k = None"
proof (rule ccontr)
  assume "wait_pick p pid k \<noteq> None"
  then obtain z where "wait_pick p pid k = Some z" by blast
  have h: "p_zombies (proc (ksched k) p) = Some (hd zs)" using assms(1,3) by (simp add: cyc_def)
  note rs = ring_search_cyc[OF assms(1)[unfolded h]]
  have "wait_pick p' pid' k' = Some z \<Longrightarrow> p' = p \<longrightarrow> pid' = pid \<longrightarrow> k' = k \<longrightarrow> False" for p' pid' k'
    by (erule wait_pick.raw_induct[rotated], intro impI) (use rs assms(2) h in \<open>auto split: Option.bind_splits option.splits\<close>)
  then show False using \<open>wait_pick p pid k = Some z\<close> by blast
qed

section \<open>Properties\<close>

text \<open>C11. \<open>process_wait\<close> with a child that has ended: it takes the oldest zombie that matches off the list of the parent
  and out of the storage of ids, returns its id and its exit status, and with its last reference gives back
  the objects and the stacks of all its threads, its path, its memory and its object, and nothing else.
\<close>

theorem process_wait_reaps:
  assumes cur: "current (ksched k) = Some t" "th_process (thr (ksched k) t) = Some p" "schedule (ksched k)"
    and zs: "cyc (plink (ksched k)) (p_zombies (proc (ksched k) p)) zs" "List.find (\<lambda>z. pid < 0 \<or> po_pid (k_pobj k z) = pid) zs = Some z"
    and free: "\<not> k_plock k" "\<not> plock (ksys k) z"
    and ghosts: "q_rep (ksched k) Q" "Q (GhostsOf z) = gs" "distinct gs" "inj_on (stack_of (ksched k)) (set gs)"
    and mem: "holds k A M" "set gs \<subseteq> A" "stack_of (ksched k) ` set gs \<subseteq> M" "po_refs (k_pobj k z) = 1" "po_path (k_pobj k z) = Some s"
      "s \<in> A - set gs" "z \<in> A - set gs" "s \<noteq> z" "(po_mpage (k_pobj k z), PROCESS_PAGES) \<in> M"
  shows "\<exists>k'. process_wait pid options now ctx k = Some (Some (po_pid (k_pobj k z), Some (p_exit (proc (ksched k) z))), ctx, k') \<and>
    holds k' (A - set gs - {s, z}) (M - stack_of (ksched k) ` set gs - {(po_mpage (k_pobj k z), PROCESS_PAGES)}) \<and>
    cyc (plink (ksched k')) (p_zombies (proc (ksched k') p)) (remove1 z zs) \<and> k_pids k' = id_remove (k_pids k) z \<and> \<not> k_plock k' \<and> schedule (ksched k')"
proof -
  let ?s = "ksched k"
  define k1 where "k1 = k\<lparr>ksched := ?s\<lparr>schedule := False\<rparr>\<rparr>"
  obtain zh where ne: "p_zombies (proc ?s p) = Some zh" using zs by (cases zs) (auto simp: cyc_def)
  have zin: "z \<in> set zs" using zs(2) by (auto simp: find_Some_iff)
  have pick: "wait_pick p pid k1 = Some z" by (rule wait_pick_find[of _ _ zs]) (use zs in \<open>simp_all add: k1_def\<close>)
  obtain h l where rm: "list_remove (p_zombies (proc ?s p)) z (plink ?s) = Some (h, l)" "cyc l h (remove1 z zs)"
    using list_remove_cyc[OF zs(1) zin] by blast
  define s2 where "s2 = (upd_proc p (\<lambda>x. x\<lparr>p_zombies := h\<rparr>) (?s\<lparr>plink := l\<rparr>))\<lparr>schedule := True\<rparr>"
  define k3 where "k3 = k\<lparr>k_pids := id_remove (k_pids k) z, k_plock := False, ksched := s2\<lparr>schedule := False\<rparr>\<rparr>"
  have st: "stack_of (ksched k3) = stack_of ?s" by (simp add: fun_eq_iff stack_of_def k3_def s2_def upd_proc_def)
  have "\<exists>k' ids. join_all_loop z k3 = Some k' \<and> holds k' (A - set gs) (M - stack_of (ksched k3) ` set gs) \<and>
    k_pobj k' = k_pobj k3 \<and> k_pids k' = k_pids k3 \<and> k_plock k' = k_plock k3 \<and> \<not> schedule (ksched k') \<and>
    plink (ksched k') = plink (ksched k3) \<and> proc (ksched k') = (proc (ksched k3))(z := (proc (ksched k3) z)\<lparr>p_threads := ids\<rparr>)"
    by (rule join_all_loop_ok[where Q = Q])
      (use mem(1-3) free(2) ghosts st in \<open>simp_all add: k3_def holds_def s2_def upd_proc_def q_rep_def\<close>)
  then obtain k4 ids where k4: "join_all_loop z k3 = Some k4" "holds k4 (A - set gs) (M - stack_of ?s ` set gs)"
    "k_pobj k4 = k_pobj k" "k_pids k4 = id_remove (k_pids k) z" "\<not> k_plock k4" "\<not> schedule (ksched k4)" "plink (ksched k4) = l"
    "proc (ksched k4) = (proc s2)(z := (proc s2 z)\<lparr>p_threads := ids\<rparr>)"
    unfolding st by (auto simp: k3_def s2_def upd_proc_def)
  define k5 where "k5 = k4\<lparr>ksched := (ksched k4)\<lparr>schedule := True\<rparr>\<rparr>"
  have image: "(po_mpage (k_pobj k z), PROCESS_PAGES) \<in> M - stack_of ?s ` set gs" using mem(9) by (auto simp: stack_of_def PROCESS_PAGES_def)
  have "\<exists>k'. process_put z k5 = Some k' \<and> holds k' (A - set gs - {s, z}) (M - stack_of ?s ` set gs - {(po_mpage (k_pobj k5 z), PROCESS_PAGES)}) \<and>
    ksched k' = ksched k5 \<and> k_pids k' = k_pids k5 \<and> \<not> k_plock k'"
    by (rule process_put_last) (use k4 mem image in \<open>simp_all add: k5_def holds_def\<close>)
  then obtain k6 where k6: "process_put z k5 = Some k6"
    "holds k6 (A - set gs - {s, z}) (M - stack_of ?s ` set gs - {(po_mpage (k_pobj k z), PROCESS_PAGES)})"
    "ksched k6 = ksched k5" "k_pids k6 = id_remove (k_pids k) z" "\<not> k_plock k6"
    using k4 by (auto simp: k5_def)
  have ex: "p_exit (proc (ksched k5) z) = p_exit (proc ?s z)" using k4(8) by (simp add: k5_def s2_def upd_proc_def)
  have zo: "p_zombies (proc (ksched k5) p) = h" using k4(8) by (simp add: k5_def s2_def upd_proc_def)
  have jt: "thread_join_all z (k\<lparr>ksched := s2, k_pids := id_remove (k_pids k) z, k_plock := False\<rparr>) = Some k5"
    using k4(1,6) by (simp add: thread_join_all_def on_sched_def thread_critical_start_def thread_critical_end_def k3_def k5_def s2_def)
  have "wait_reap p z k1 = Some (po_pid (k_pobj k z), p_exit (proc ?s z), k6)"
    using rm(1) free(1) jt k6(1) ex
    by (simp add: wait_reap_def k1_def on_sched_def upd_sched_def thread_critical_end_def pids_lock_def pids_unlock_def Let_def s2_def upd_proc_def)
  then have "process_wait pid options now ctx k = Some (Some (po_pid (k_pobj k z), Some (p_exit (proc ?s z))), ctx, k6)"
    using cur ne pick by (simp add: process_wait_def process_wait_loop_def on_sched_def thread_critical_start_def k1_def)
  then show ?thesis using k6 zo rm(2) k4(7) by (intro exI[of _ k6]) (simp add: k5_def)
qed

text \<open>C39. Waiting for a process that is not among the zombies while there is one: every round over the zombies ends
  without a hit, nothing lets another thread run, and the call never returns.
\<close>

theorem process_wait_other_pid_hangs:
  assumes cur: "current (ksched k) = Some t" "th_process (thr (ksched k) t) = Some p" "schedule (ksched k)"
    and zs: "cyc (plink (ksched k)) (p_zombies (proc (ksched k) p)) zs" "zs \<noteq> []" and pid: "0 \<le> pid" "\<forall>z \<in> set zs. po_pid (k_pobj k z) \<noteq> pid"
  shows "ring_search (\<lambda>z. pid < 0 \<or> po_pid (k_pobj k z) = pid) (plink (ksched k)) (hd zs) (hd zs) = Some None \<and>
    wait_pick p pid k = None \<and> process_wait pid options now ctx k = None"
proof -
  have none: "List.find (\<lambda>z. pid < 0 \<or> po_pid (k_pobj k z) = pid) zs = None" using pid by (auto simp: find_None_iff)
  have h: "p_zombies (proc (ksched k) p) = Some (hd zs)" using zs by (simp add: cyc_def)
  define k1 where "k1 = k\<lparr>ksched := (ksched k)\<lparr>schedule := False\<rparr>\<rparr>"
  have "wait_pick p pid k1 = None" by (rule wait_pick_spins[of _ _ zs]) (use zs none in \<open>simp_all add: k1_def\<close>)
  then have "process_wait pid options now ctx k = None"
    using cur h by (simp add: process_wait_def process_wait_loop_def on_sched_def thread_critical_start_def k1_def)
  then show ?thesis using ring_search_cyc[OF zs(1)[unfolded h]] none wait_pick_spins[OF zs(1) none zs(2)] by simp
qed

section \<open>Witnesses\<close>

text \<open>Process 1108 with thread 7 running; its child 1000 has ended, with the path at 1036 and one ghost at 1072.\<close>

definition demo_pages :: page_common where
  "demo_pages = page_zero\<lparr>pc_used := 3, pc_alloc := Some 0, pc_pool := (pc_pool page_zero)(
     0 := \<lparr>pe_next = Some 1, pe_owner = None, pe_callback = None, pe_start = 20, pe_length = 14\<rparr>,
     1 := \<lparr>pe_next = None, pe_owner = None, pe_callback = None, pe_start = 40, pe_length = 1\<rparr>)\<rparr>"

lemma demo_pages_owned: "owned_pages demo_pages {(20, 14), (40, 1)}"
proof -
  let ?X = "(\<lambda>_. [])(AllocL := [0, 1])"
  have l: "linked demo_pages (list_head L demo_pages) (?X L)" for L
    by (cases L) (simp_all add: linked_def demo_pages_def page_zero_def)
  have b: "bit (pc_used demo_pages) i \<longleftrightarrow> i \<in> set (?X FreeL @ ?X AllocL)" for i
  proof -
    have m: "pc_used demo_pages = mask 2" by (simp add: demo_pages_def mask_eq_exp_minus_1)
    show ?thesis unfolding m bit_mask_iff by (simp add: less_2_cases_iff) (auto simp: numeral_2_eq_2)
  qed
  have e: "elems_ok demo_pages (?X FreeL @ ?X AllocL)"
  proof -
    have u: "bit (pc_used demo_pages) 0" "bit (pc_used demo_pages) 1" using b by simp_all
    show ?thesis by (simp add: elems_ok_Cons[of _ 0] elems_ok_single u, simp add: rng_def demo_pages_def)
  qed
  have "page_ok demo_pages ?X"
    unfolding page_ok_def pool_rep_def using l b e by (simp add: demo_pages_def page_zero_def)
  then show ?thesis unfolding owned_pages_def by (intro exI[of _ ?X]) (simp add: demo_pages_def)
qed

definition demo_kern :: "unit kern" where
  "demo_kern = \<lparr>ksys = demo_proc\<lparr>fsys := demo_dev\<lparr>vdev := demo_kdev\<lparr>k_pages := demo_pages\<rparr>\<rparr>\<rparr>,
     ksched = sched_demo\<lparr>thr := (\<lambda>_. thread0)(7 := thread0\<lparr>th_process := Some 1108\<rparr>, 1072 := thread0\<lparr>th_stack_page := 40\<rparr>),
       qlink := \<lparr>next_of = Some, prev_of = Some\<rparr>, qhead := (\<lambda>_. None)(GhostsOf 1000 := Some 1072), current := Some 7,
       proc := (\<lambda>_. proc0)(1108 := proc0\<lparr>p_zombies := Some 1000\<rparr>, 1000 := proc0\<lparr>p_exit := 3\<rparr>), plink := \<lparr>next_of = Some, prev_of = Some\<rparr>\<rparr>,
     k_pobj = (\<lambda>_. \<lparr>po_path = Some 1036, po_mpage = 20, po_refs = 1, po_pid = 2\<rparr>), k_pids = id_init, k_plock = False\<rparr>"

lemma demo_kern_simps:
  "current (ksched demo_kern) = Some 7" "th_process (thr (ksched demo_kern) 7) = Some 1108" "schedule (ksched demo_kern)"
  "cyc (plink (ksched demo_kern)) (p_zombies (proc (ksched demo_kern) 1108)) [1000]" "\<not> k_plock demo_kern" "\<not> plock (ksys demo_kern) 1000"
  "k_pobj demo_kern = (\<lambda>_. \<lparr>po_path = Some 1036, po_mpage = 20, po_refs = 1, po_pid = 2\<rparr>)" "stack_of (ksched demo_kern) 1072 = (40, 1)"
  "p_exit (proc (ksched demo_kern) 1000) = 3" "q_rep (ksched demo_kern) ((\<lambda>_. [])(GhostsOf 1000 := [1072]))"
  by (simp_all add: demo_kern_def sched_demo_def cyc_def demo_proc_def stack_of_def proc0_def q_rep_def) auto

lemma demo_kern_holds: "holds demo_kern {1000, 1036, 1072, 1108} {(20, 14), (40, 1)}"
proof -
  have "owned (kh demo_dev) {1000, 1036, 1072, 1108}"
    by (rule ownedI[OF demo_dev_heap]) (auto simp: HDR_def)
  then show ?thesis using demo_pages_owned by (simp add: holds_def kheap_of_def kdev_of_def demo_kern_def)
qed

theorem process_wait_reaps_witness:
  "\<exists>k'. process_wait (- 1) 0 50 ctx0 demo_kern = Some (Some (2, Some 3), ctx0, k') \<and> holds k' {1108} {}"
proof -
  have s: "{1000, 1036, 1072, 1108} - set [1072] - {1036, 1000} = {1108 :: nat}" by auto
  have m: "{(20, 14), (40, 1)} - stack_of (ksched demo_kern) ` set [1072] - {(20 :: nat, PROCESS_PAGES)} = {}"
    by (auto simp: demo_kern_simps PROCESS_PAGES_def)
  have "\<exists>k'. process_wait (- 1) 0 50 ctx0 demo_kern = Some (Some (po_pid (k_pobj demo_kern 1000), Some (p_exit (proc (ksched demo_kern) 1000))), ctx0, k') \<and>
    holds k' ({1000, 1036, 1072, 1108} - set [1072] - {1036, 1000})
      ({(20, 14), (40, 1)} - stack_of (ksched demo_kern) ` set [1072] - {(po_mpage (k_pobj demo_kern 1000), PROCESS_PAGES)}) \<and>
    cyc (plink (ksched k')) (p_zombies (proc (ksched k') 1108)) (remove1 1000 [1000]) \<and> k_pids k' = id_remove (k_pids demo_kern) 1000 \<and> \<not> k_plock k' \<and>
    schedule (ksched k')"
    by (rule process_wait_reaps[OF demo_kern_simps(1-4) _ demo_kern_simps(5,6,10) _ _ _ demo_kern_holds]) (simp_all add: demo_kern_simps PROCESS_PAGES_def)
  then obtain k' where k': "process_wait (- 1) 0 50 ctx0 demo_kern = Some (Some (po_pid (k_pobj demo_kern 1000), Some (p_exit (proc (ksched demo_kern) 1000))), ctx0, k')"
    "holds k' {1108} ({(20, 14), (40, 1)} - stack_of (ksched demo_kern) ` set [1072] - {(po_mpage (k_pobj demo_kern 1000), PROCESS_PAGES)})"
    unfolding s by blast
  have e: "po_mpage (k_pobj demo_kern 1000) = 20" by (simp add: demo_kern_simps)
  have "holds k' {1108} {}" using k'(2) unfolding e m .
  then show ?thesis using k'(1) by (simp add: demo_kern_simps)
qed

theorem process_wait_other_pid_hangs_witness: "process_wait 5 0 50 ctx0 demo_kern = None"
  using process_wait_other_pid_hangs[OF demo_kern_simps(1-4), of 5 0 50 ctx0] by (simp add: demo_kern_simps)

end
