(* ===== verification/Uart.thy ===== *)
theory Uart
  imports DevFs Sched
begin

text \<open>
  The serial ports, \<open>kernel/dev/uart.c\<close>: two rings of bytes per port between the interrupt handler and the
  threads that read and write. The ASCI of the Z180 is hardware: \<open>ain\<close> and \<open>aout\<close> are what an access to one
  of its registers does. The wait queues of port \<open>u\<close> are the queues \<open>rxqueue u\<close> and \<open>txqueue u\<close> of the
  scheduler. A call that has to wait is modelled up to the switch to another thread; when it runs again it
  goes on with the same loop and the bytes that are left.
\<close>

unbundle bit_operations_syntax

section \<open>The ring of bytes\<close>

definition FIFO_SIZE :: nat where "FIFO_SIZE = 64"

record fifo =
  q_buff :: "nat list"
  q_rd :: nat
  q_wr :: nat

text \<open>\<open>_fifo_push\<close> and \<open>_fifo_pop\<close>; with the interrupts off in \<open>fifo_push\<close> and \<open>fifo_pop\<close> nothing comes between.\<close>

definition fifo_push :: "nat \<Rightarrow> bool \<Rightarrow> fifo \<Rightarrow> int \<times> fifo" where
  "fifo_push c overwrite f =
     (let nwr = u8 ((q_wr f + 1) mod FIFO_SIZE);
          store = (\<lambda>g. g\<lparr>q_buff := (q_buff g)[q_wr g := c], q_wr := nwr\<rparr>)
      in if nwr = q_rd f
         then (if overwrite then (0, store (f\<lparr>q_rd := u8 ((q_rd f + 1) mod FIFO_SIZE)\<rparr>)) else (- 1, f))
         else (0, store f))"

definition fifo_pop :: "fifo \<Rightarrow> nat option \<times> fifo" where
  "fifo_pop f = (if q_wr f = q_rd f then (None, f)
     else (Some (q_buff f ! q_rd f), f\<lparr>q_rd := u8 ((q_rd f + 1) mod FIFO_SIZE)\<rparr>))"

section \<open>The ports\<close>

datatype asci = CNTLA nat | CNTLB nat | STAT nat | TDR nat | RDR nat

record 'h asci_ports =
  ain :: "asci \<Rightarrow> 'h \<Rightarrow> nat \<times> 'h"
  aout :: "asci \<Rightarrow> nat \<Rightarrow> 'h \<Rightarrow> 'h"

record uart_ctx =
  u_tx :: fifo
  u_rx :: fifo
  u_minor :: nat

record 'h uart_st =
  uartctx :: "nat \<Rightarrow> uart_ctx"
  asci :: 'h
  usched :: sched

definition rxqueue :: "nat \<Rightarrow> queue" where "rxqueue u = CondQ (2 * u)"
definition txqueue :: "nat \<Rightarrow> queue" where "txqueue u = CondQ (2 * u + 1)"

definition upd_uart :: "nat \<Rightarrow> (uart_ctx \<Rightarrow> uart_ctx) \<Rightarrow> 'h uart_st \<Rightarrow> 'h uart_st" where
  "upd_uart u g st = st\<lparr>uartctx := (uartctx st)(u := g (uartctx st u))\<rparr>"

definition reg_in :: "'h asci_ports \<Rightarrow> asci \<Rightarrow> 'h uart_st \<Rightarrow> nat \<times> 'h uart_st" where
  "reg_in io r st = (let (v, h) = ain io r (asci st) in (v, st\<lparr>asci := h\<rparr>))"

definition reg_out :: "'h asci_ports \<Rightarrow> asci \<Rightarrow> nat \<Rightarrow> 'h uart_st \<Rightarrow> 'h uart_st" where
  "reg_out io r v st = st\<lparr>asci := aout io r v (asci st)\<rparr>"

definition dev_uart_minor_to_uart :: "nat \<Rightarrow> 'h uart_st \<Rightarrow> nat" where
  "dev_uart_minor_to_uart minor st = (if u_minor (uartctx st 0) = minor then 0 else 1)"

text \<open>The register of port 0 for 0, of port 1 otherwise.\<close>

definition port :: "nat \<Rightarrow> nat" where
  "port u = (if u = 0 then 0 else 1)"

definition dev_uart_data_send :: "'h asci_ports \<Rightarrow> nat \<Rightarrow> nat \<Rightarrow> 'h uart_st \<Rightarrow> 'h uart_st" where
  "dev_uart_data_send io u data st = reg_out io (TDR (port u)) data st"

definition dev_uart_data_recv :: "'h asci_ports \<Rightarrow> nat \<Rightarrow> 'h uart_st \<Rightarrow> nat \<times> 'h uart_st" where
  "dev_uart_data_recv io u st = reg_in io (RDR (port u)) st"

definition dev_uart_error_clear :: "'h asci_ports \<Rightarrow> nat \<Rightarrow> 'h uart_st \<Rightarrow> 'h uart_st" where
  "dev_uart_error_clear io u st = (let (v, st1) = reg_in io (CNTLA (port u)) st in reg_out io (CNTLA (port u)) (v AND 247) st1)"

definition dev_uart_txready :: "'h asci_ports \<Rightarrow> nat \<Rightarrow> 'h uart_st \<Rightarrow> bool \<times> 'h uart_st" where
  "dev_uart_txready io u st = (let (v, st1) = reg_in io (STAT (port u)) st in (bit v 1, st1))"

definition dev_uart_rxready :: "'h asci_ports \<Rightarrow> nat \<Rightarrow> 'h uart_st \<Rightarrow> bool \<times> 'h uart_st" where
  "dev_uart_rxready io u st = (let (v, st1) = reg_in io (STAT (port u)) st in (bit v 7, st1))"

definition dev_uart_txirq_set :: "'h asci_ports \<Rightarrow> nat \<Rightarrow> bool \<Rightarrow> 'h uart_st \<Rightarrow> 'h uart_st" where
  "dev_uart_txirq_set io u on st = reg_out io (STAT (port u)) (if on then 9 else 8) st"

section \<open>The interrupt handler\<close>

text \<open>The loop over the received bytes; hardware that is always ready keeps it there.\<close>

partial_function (option) irq_receive :: "'h asci_ports \<Rightarrow> nat \<Rightarrow> bool \<Rightarrow> 'h uart_st \<Rightarrow> (bool \<times> 'h uart_st) option" where
  "irq_receive io u rx st = (let (ready, st1) = dev_uart_rxready io u st in
     if \<not> ready then Some (rx, st1)
     else let (c, st2) = dev_uart_data_recv io u st1;
              (e, f) = fifo_push c True (u_rx (uartctx st2 u))
          in irq_receive io u (rx \<or> e = 0) (upd_uart u (\<lambda>x. x\<lparr>u_rx := f\<rparr>) st2))"

declare irq_receive.simps [code]

definition irq_transmit :: "'h asci_ports \<Rightarrow> nat \<Rightarrow> 'h uart_st \<Rightarrow> bool \<times> 'h uart_st" where
  "irq_transmit io u st = (let (ready, st1) = dev_uart_txready io u st in
     if \<not> ready then (False, st1)
     else case fifo_pop (u_tx (uartctx st1 u)) of
       (None, _) \<Rightarrow> (False, dev_uart_txirq_set io u False st1)
     | (Some c, f) \<Rightarrow> (True, dev_uart_data_send io u c (upd_uart u (\<lambda>x. x\<lparr>u_tx := f\<rparr>) st1)))"

definition dev_uart_irq_handler :: "'h asci_ports \<Rightarrow> nat \<Rightarrow> 'h uart_st \<Rightarrow> 'h uart_st option" where
  "dev_uart_irq_handler io u st = do {
     (rx, st1) \<leftarrow> irq_receive io u False st;
     let (tx, st2) = irq_transmit io u (dev_uart_error_clear io u st1);
     s1 \<leftarrow> (if rx then thread_signal_irq (rxqueue u) (usched st2) else Some (usched st2));
     s2 \<leftarrow> (if tx then thread_signal_irq (txqueue u) s1 else Some s1);
     Some (st2\<lparr>usched := s2\<rparr>) }"

section \<open>Reading and writing\<close>

text \<open>Interrupts are off inside \<open>fifo_pop\<close> and \<open>fifo_push\<close> only. \<open>irqs\<close> says what they do at the points in between, one entry
  after each of these calls; at the end of the list no more come.
\<close>

type_synonym 'h irqs = "('h uart_st \<Rightarrow> 'h uart_st option) list"

definition irq_point :: "'h irqs \<Rightarrow> 'h uart_st \<Rightarrow> ('h irqs \<times> 'h uart_st) option" where
  "irq_point irqs st = (case irqs of [] \<Rightarrow> Some ([], st) | g # gs \<Rightarrow> do { st1 \<leftarrow> g st; Some (gs, st1) })"

text \<open>The bytes read so far, and whether all were read or the thread has been put to sleep.\<close>

fun uart_read_loop :: "'h irqs \<Rightarrow> nat \<Rightarrow> nat \<Rightarrow> cpu_context \<Rightarrow> 'h uart_st \<Rightarrow> (nat list \<times> bool \<times> cpu_context \<times> 'h uart_st) option" where
  "uart_read_loop irqs u 0 ctx st = Some ([], True, ctx, st)"
| "uart_read_loop irqs u (Suc n) ctx st = (case fifo_pop (u_rx (uartctx st u)) of
     (None, _) \<Rightarrow> do {
       (_, st1) \<leftarrow> irq_point irqs st;
       (ctx', s) \<leftarrow> thread_wait (rxqueue u) 0 ctx (usched st1);
       Some ([], False, ctx', st1\<lparr>usched := s\<rparr>) }
   | (Some c, f) \<Rightarrow> do {
       (irqs', st1) \<leftarrow> irq_point irqs (upd_uart u (\<lambda>x. x\<lparr>u_rx := f\<rparr>) st);
       (cs, fin, ctx', st') \<leftarrow> uart_read_loop irqs' u n ctx st1;
       Some (c # cs, fin, ctx', st') })"

definition on_usched :: "(sched \<Rightarrow> sched option) \<Rightarrow> 'h uart_st \<Rightarrow> 'h uart_st option" where
  "on_usched g st = do { s \<leftarrow> g (usched st); Some (st\<lparr>usched := s\<rparr>) }"

definition dev_uart_read :: "'h irqs \<Rightarrow> nat \<Rightarrow> nat \<Rightarrow> cpu_context \<Rightarrow> 'h uart_st \<Rightarrow> (nat list \<times> bool \<times> cpu_context \<times> 'h uart_st) option" where
  "dev_uart_read irqs minor bufflen ctx st = do {
     st1 \<leftarrow> on_usched thread_critical_start st;
     (cs, fin, ctx', st2) \<leftarrow> uart_read_loop irqs (dev_uart_minor_to_uart minor st) bufflen ctx st1;
     (if fin then do { st3 \<leftarrow> on_usched thread_critical_end st2; Some (cs, True, ctx', st3) } else Some (cs, False, ctx', st2)) }"

text \<open>The bytes not written yet.\<close>

fun uart_write_loop :: "'h irqs \<Rightarrow> 'h asci_ports \<Rightarrow> nat \<Rightarrow> nat list \<Rightarrow> cpu_context \<Rightarrow> 'h uart_st \<Rightarrow> (nat list \<times> cpu_context \<times> 'h uart_st) option" where
  "uart_write_loop irqs io u [] ctx st = Some ([], ctx, st)"
| "uart_write_loop irqs io u (c # cs) ctx st = (let (e, f) = fifo_push c False (u_tx (uartctx st u)) in do {
     (irqs', st1) \<leftarrow> irq_point irqs (if e \<noteq> 0 then st else upd_uart u (\<lambda>x. x\<lparr>u_tx := f\<rparr>) st);
     (if e \<noteq> 0 then do { (ctx', s) \<leftarrow> thread_wait (txqueue u) 0 ctx (usched st1); Some (c # cs, ctx', st1\<lparr>usched := s\<rparr>) }
      else uart_write_loop irqs' io u cs ctx (dev_uart_txirq_set io u True st1)) })"

definition dev_uart_write :: "'h irqs \<Rightarrow> 'h asci_ports \<Rightarrow> nat \<Rightarrow> nat list \<Rightarrow> cpu_context \<Rightarrow> 'h uart_st \<Rightarrow> (nat list \<times> cpu_context \<times> 'h uart_st) option" where
  "dev_uart_write irqs io minor buff ctx st = do {
     st1 \<leftarrow> on_usched thread_critical_start st;
     (cs, ctx', st2) \<leftarrow> uart_write_loop irqs io (dev_uart_minor_to_uart minor st) buff ctx st1;
     (if cs = [] then do { st3 \<leftarrow> on_usched thread_critical_end st2; Some (cs, ctx', st3) } else Some (cs, ctx', st2)) }"

definition dev_uart_sync :: "nat \<Rightarrow> nat \<Rightarrow> nat \<Rightarrow> int" where "dev_uart_sync minor offs len = 0"

definition dev_uart_ioctl :: "nat \<Rightarrow> int \<Rightarrow> int" where "dev_uart_ioctl minor op = - ENOSYS"

section \<open>Setting up\<close>

definition uart_cntlb :: "nat \<Rightarrow> nat option" where
  "uart_cntlb baud =
     (if baud = 38400 then Some 0 else if baud = 19200 then Some 1 else if baud = 9600 then Some 2 else if baud = 4800 then Some 3
      else if baud = 2400 then Some 4 else if baud = 1200 then Some 5 else if baud = 600 then Some 6
      else if baud = 300 then Some 13 else if baud = 150 then Some 14 else None)"

definition dev_uart_init :: "'h asci_ports \<Rightarrow> nat \<Rightarrow> nat \<Rightarrow> nat \<Rightarrow> nat \<Rightarrow> nat \<Rightarrow> nat \<Rightarrow> 'h uart_st \<Rightarrow> 'd kdev vfs \<Rightarrow>
  (int \<times> 'h uart_st \<times> 'd kdev vfs) option" where
  "dev_uart_init io devfs ops u baud parity stop st v = (case uart_cntlb baud of
     None \<Rightarrow> Some (- EINVAL, st, v)
   | Some b \<Rightarrow> do {
       let cntla = 100 OR (if parity \<noteq> 0 then 2 else 0) OR (if stop \<noteq> 0 then 1 else 0);
       let cntlb = b OR (if parity \<noteq> 0 \<and> odd parity then 16 else 0);
       let st1 = reg_out io (STAT (port u)) 8 (reg_out io (CNTLA (port u)) cntla (reg_out io (CNTLB (port u)) cntlb st));
       (e, minor, w) \<leftarrow> devfs_register devfs [85, 65, 82, 84] ops 0 v;
       (if e < 0 then Some (e, st1, w) else Some (0, upd_uart u (\<lambda>x. x\<lparr>u_minor := minor\<rparr>) st1, w)) })"

text \<open>The polling driver \<open>driver/uart.c\<close>, which the kernel prints with; hardware that is never ready keeps it waiting.\<close>

partial_function (option) wait_txready :: "'h asci_ports \<Rightarrow> nat \<Rightarrow> 'h \<Rightarrow> 'h option" where
  "wait_txready io u h = (let (v, h1) = ain io (STAT u) h in if bit v 1 then Some h1 else wait_txready io u h1)"

declare wait_txready.simps [code]

fun uart_write_poll :: "'h asci_ports \<Rightarrow> nat \<Rightarrow> nat list \<Rightarrow> 'h \<Rightarrow> 'h option" where
  "uart_write_poll io u [] h = Some h"
| "uart_write_poll io u (c # cs) h = do { h1 \<leftarrow> wait_txready io u h; uart_write_poll io u cs (aout io (TDR u) c h1) }"

definition uart0_write_poll :: "'h asci_ports \<Rightarrow> nat list \<Rightarrow> 'h \<Rightarrow> (int \<times> 'h) option" where
  "uart0_write_poll io buff h = do { h1 \<leftarrow> uart_write_poll io 0 buff h; Some (s16 (int (length buff)), h1) }"

definition uart1_write_poll :: "'h asci_ports \<Rightarrow> nat list \<Rightarrow> 'h \<Rightarrow> (int \<times> 'h) option" where
  "uart1_write_poll io buff h = do { h1 \<leftarrow> uart_write_poll io 1 buff h; Some (s16 (int (length buff)), h1) }"

definition uart_init :: "'h asci_ports \<Rightarrow> 'h \<Rightarrow> 'h" where
  "uart_init io h = aout io (CNTLA 1) 100 (aout io (CNTLA 0) 100 (aout io (CNTLB 1) 1 (aout io (CNTLB 0) 1 h)))"

section \<open>The ring as a bounded queue\<close>

definition fifo_ok :: "fifo \<Rightarrow> bool" where
  "fifo_ok f \<longleftrightarrow> length (q_buff f) = FIFO_SIZE \<and> q_rd f < FIFO_SIZE \<and> q_wr f < FIFO_SIZE"

definition fifo_len :: "fifo \<Rightarrow> nat" where
  "fifo_len f = (q_wr f + FIFO_SIZE - q_rd f) mod FIFO_SIZE"

definition fifo_list :: "fifo \<Rightarrow> nat list" where
  "fifo_list f = map (\<lambda>i. q_buff f ! ((q_rd f + i) mod FIFO_SIZE)) [0 ..< fifo_len f]"

lemma fifo_list_length [simp]: "length (fifo_list f) = fifo_len f"
  by (simp add: fifo_list_def)

lemma fifo_len_less: "fifo_len f < FIFO_SIZE"
  by (simp add: fifo_len_def FIFO_SIZE_def)

lemma fifo_end: "fifo_ok f \<Longrightarrow> (q_rd f + fifo_len f) mod FIFO_SIZE = q_wr f"
  by (simp add: fifo_ok_def fifo_len_def mod_add_right_eq)

lemma fifo_len_cases: "fifo_ok f \<Longrightarrow> fifo_len f = (if q_rd f \<le> q_wr f then q_wr f - q_rd f else q_wr f + FIFO_SIZE - q_rd f)"
proof (cases "q_rd f \<le> q_wr f")
  case True
  assume "fifo_ok f"
  then have "q_wr f - q_rd f < FIFO_SIZE" by (auto simp: fifo_ok_def)
  then have "(q_wr f - q_rd f + FIFO_SIZE) mod FIFO_SIZE = q_wr f - q_rd f" by simp
  then show ?thesis using True by (simp add: fifo_len_def)
qed (auto simp: fifo_ok_def fifo_len_def)

lemma ring_suc: "i < 64 \<Longrightarrow> Suc i mod 64 = (if i = 63 then 0 else Suc i)"
  by simp

lemma ring_inj:
  assumes "i < FIFO_SIZE" and "j < FIFO_SIZE" and "(r + i) mod FIFO_SIZE = (r + j) mod FIFO_SIZE"
  shows "i = j"
proof -
  have d: "a = b" if "a \<le> b" "b < FIFO_SIZE" "(r + a) mod FIFO_SIZE = (r + b) mod FIFO_SIZE" for a b
  proof -
    have "FIFO_SIZE dvd b - a" using that mod_eq_dvd_iff_nat[of "r + a" "r + b" FIFO_SIZE] by simp
    moreover have "b - a < FIFO_SIZE" using that by simp
    ultimately show ?thesis using that(1) nat_dvd_not_less[of "b - a" FIFO_SIZE] by force
  qed
  show ?thesis using d[of i j] d[of j i] assms by (cases "i \<le> j") simp_all
qed

text \<open>Storing at the end of the ring appends; it is full with one slot left over.\<close>

lemma fifo_store:
  assumes ok: "fifo_ok f" and room: "fifo_len f < FIFO_SIZE - 1"
  shows "fifo_list (f\<lparr>q_buff := (q_buff f)[q_wr f := c], q_wr := (q_wr f + 1) mod FIFO_SIZE\<rparr>) = fifo_list f @ [c]" (is "fifo_list ?f = _")
proof -
  have len: "fifo_len ?f = fifo_len f + 1"
  proof -
    have ok': "fifo_ok ?f" using ok by (simp add: fifo_ok_def FIFO_SIZE_def)
    have "q_wr f < FIFO_SIZE" "q_rd f < FIFO_SIZE" using ok by (simp_all add: fifo_ok_def)
    then show ?thesis using room unfolding fifo_len_cases[OF ok] fifo_len_cases[OF ok'] by (auto simp: ring_suc FIFO_SIZE_def split: if_splits)
  qed
  have w: "(q_rd f + fifo_len f) mod FIFO_SIZE = q_wr f" by (rule fifo_end[OF ok])
  have old: "(q_buff f)[q_wr f := c] ! ((q_rd f + i) mod FIFO_SIZE) = q_buff f ! ((q_rd f + i) mod FIFO_SIZE)" if "i < fifo_len f" for i
  proof -
    have "(q_rd f + i) mod FIFO_SIZE \<noteq> q_wr f" using ring_inj[of i "fifo_len f" "q_rd f"] that fifo_len_less[of f] w by auto
    then show ?thesis by simp
  qed
  show ?thesis unfolding fifo_list_def len using ok w by (simp add: old fifo_ok_def)
qed

lemma fifo_full_iff: "fifo_ok f \<Longrightarrow> (q_wr f + 1) mod FIFO_SIZE = q_rd f \<longleftrightarrow> fifo_len f = FIFO_SIZE - 1"
  by (auto simp: fifo_ok_def fifo_len_cases ring_suc FIFO_SIZE_def)

lemma fifo_drop:
  assumes ok: "fifo_ok f" and ne: "fifo_len f \<noteq> 0"
  shows "fifo_list f = q_buff f ! q_rd f # fifo_list (f\<lparr>q_rd := (q_rd f + 1) mod FIFO_SIZE\<rparr>)"
proof -
  let ?f = "f\<lparr>q_rd := (q_rd f + 1) mod FIFO_SIZE\<rparr>"
  have ok': "fifo_ok ?f" using ok by (simp add: fifo_ok_def FIFO_SIZE_def)
  have "q_wr f < FIFO_SIZE" "q_rd f < FIFO_SIZE" using ok by (simp_all add: fifo_ok_def)
  then have len: "fifo_len f = Suc (fifo_len ?f)"
    using ne unfolding fifo_len_cases[OF ok] fifo_len_cases[OF ok'] by (auto simp: ring_suc FIFO_SIZE_def split: if_splits)
  have "q_rd f < FIFO_SIZE" using ok by (simp add: fifo_ok_def)
  then show ?thesis unfolding fifo_list_def len
    by (simp add: upt_conv_Cons map_Suc_upt[symmetric] mod_add_left_eq del: upt_Suc)
qed

lemma fifo_push_ok:
  assumes ok: "fifo_ok f" and p: "fifo_push c overwrite f = (e, g)"
  shows "fifo_ok g \<and> (if fifo_len f < FIFO_SIZE - 1 then e = 0 \<and> fifo_list g = fifo_list f @ [c]
    else if overwrite then e = 0 \<and> fifo_list g = tl (fifo_list f) @ [c] else e = - 1 \<and> g = f)"
proof (cases "fifo_len f < FIFO_SIZE - 1")
  case True
  then have "(q_wr f + 1) mod FIFO_SIZE \<noteq> q_rd f" using fifo_full_iff[OF ok] by simp
  then have "e = 0" "g = f\<lparr>q_buff := (q_buff f)[q_wr f := c], q_wr := (q_wr f + 1) mod FIFO_SIZE\<rparr>"
    using p by (auto simp: fifo_push_def Let_def FIFO_SIZE_def)
  then show ?thesis using fifo_store[OF ok True] ok True by (simp add: fifo_ok_def FIFO_SIZE_def)
next
  case False
  then have full: "fifo_len f = FIFO_SIZE - 1" using fifo_len_less[of f] by simp
  then have eq: "(q_wr f + 1) mod FIFO_SIZE = q_rd f" using fifo_full_iff[OF ok] by simp
  show ?thesis
  proof (cases overwrite)
    case True
    let ?f = "f\<lparr>q_rd := (q_rd f + 1) mod FIFO_SIZE\<rparr>"
    have e: "e = 0" "g = ?f\<lparr>q_buff := (q_buff ?f)[q_wr ?f := c], q_wr := (q_wr ?f + 1) mod FIFO_SIZE\<rparr>"
      using p eq True by (auto simp: fifo_push_def Let_def FIFO_SIZE_def)
    have ok': "fifo_ok ?f" using ok by (simp add: fifo_ok_def FIFO_SIZE_def)
    have tl: "fifo_list ?f = tl (fifo_list f)" using fifo_drop[OF ok] full by (simp add: FIFO_SIZE_def)
    then have "fifo_len ?f < FIFO_SIZE - 1" using fifo_list_length[of ?f] full by (simp add: FIFO_SIZE_def)
    from fifo_store[OF ok' this] have "fifo_list g = tl (fifo_list f) @ [c]" unfolding e(2) tl by simp
    then show ?thesis using False True e ok by (simp add: fifo_ok_def FIFO_SIZE_def)
  next
    case False
    then show ?thesis using p eq ok full by (auto simp: fifo_push_def Let_def FIFO_SIZE_def)
  qed
qed

lemma fifo_pop_ok:
  assumes ok: "fifo_ok f" and p: "fifo_pop f = (r, g)"
  shows "fifo_ok g \<and> (case fifo_list f of [] \<Rightarrow> r = None \<and> g = f | c # cs \<Rightarrow> r = Some c \<and> fifo_list g = cs)"
proof (cases "fifo_len f = 0")
  case True
  then have "q_wr f = q_rd f" using fifo_end[OF ok] ok by (simp add: fifo_ok_def)
  then show ?thesis using p ok True by (simp add: fifo_pop_def fifo_list_def)
next
  case False
  then have "q_wr f \<noteq> q_rd f" using ok by (auto simp: fifo_len_def)
  then have "r = Some (q_buff f ! q_rd f)" "g = f\<lparr>q_rd := (q_rd f + 1) mod FIFO_SIZE\<rparr>"
    using p by (auto simp: fifo_pop_def FIFO_SIZE_def)
  then show ?thesis using fifo_drop[OF ok False] ok by (simp add: fifo_ok_def FIFO_SIZE_def)
qed

section \<open>Signals from the interrupt handler\<close>

lemma signal_irq_step:
  assumes ok: "sched_ok T s Q" and q: "wait_queue q" "q \<noteq> IrqSignaled" and Qq: "Q q = t # ts" and w: "th_wakeup (thr s t) = 0"
  shows "\<exists>s1. thread_signal_irq q s = thread_signal_irq q s1 \<and> sched_ok T s1 (Q(q := ts, IrqSignaled := Q IrqSignaled @ [t])) \<and>
    thr s1 = (thr s)(t := (thr s t)\<lparr>th_qwait := Some IrqSignaled\<rparr>) \<and> same_rest s s1"
proof -
  have b: "finite T" "q_rep s Q" "heap_holds s (timed T s)" "\<And>q. set (Q q) \<subseteq> T" using ok by (auto simp: sched_ok_def base_ok_def)
  have tin: "t \<in> set (Q q)" using Qq by simp
  note t = sched_ok_queue[OF ok q(1) tin]
  have dist: "distinct (t # ts)" using b(2) Qq cyc_distinct unfolding q_rep_def by metis
  have only: "t \<notin> set (Q r)" if "r \<noteq> q" for r using b(2) tin that unfolding q_rep_def by blast
  from q_remove_rep[OF b(2) tin] obtain h l where r1: "q_remove q t s = Some (s\<lparr>qhead := h, qlink := l\<rparr>)"
    "q_rep (s\<lparr>qhead := h, qlink := l\<rparr>) (Q(q := ts))" using Qq by auto
  have "t \<notin> set ((Q(q := ts)) r)" for r using only dist by simp
  from q_add_rep[OF r1(2) this, of IrqSignaled] obtain h' l' where
    r2: "q_add IrqSignaled t (s\<lparr>qhead := h, qlink := l\<rparr>) = Some (s\<lparr>qhead := h', qlink := l'\<rparr>)"
    "q_rep (s\<lparr>qhead := h', qlink := l'\<rparr>) (Q(q := ts, IrqSignaled := (Q(q := ts)) IrqSignaled @ [t]))"
    by (auto simp del: fun_upd_apply)
  have r3: "q_rep (s\<lparr>qhead := h', qlink := l'\<rparr>) (Q(q := ts, IrqSignaled := Q IrqSignaled @ [t]))"
    using r2(2) q(2) fun_upd_other[of IrqSignaled q Q ts] by simp
  define Q1 where "Q1 = Q(q := ts, IrqSignaled := Q IrqSignaled @ [t])"
  define s1 where "s1 = upd_thr t (\<lambda>x. x\<lparr>th_qwait := Some IrqSignaled\<rparr>) (s\<lparr>qhead := h', qlink := l'\<rparr>)"
  have th: "thr s1 = (thr s)(t := (thr s t)\<lparr>th_qwait := Some IrqSignaled\<rparr>)" by (simp add: s1_def)
  have tm: "timed T s1 = timed T s" by (auto simp: timed_def th)
  have "heap_holds s1 (timed T s)" by (rule heap_holds_cong[OF b(3)]) (auto simp: th, simp_all add: s1_def)
  moreover have "q_rep s1 Q1" using r3 q_rep_cong[of s1 "s\<lparr>qhead := h', qlink := l'\<rparr>"] by (simp add: Q1_def s1_def)
  moreover have "set (Q1 r) \<subseteq> T" for r using b(4)[of r] b(4)[of q] b(4)[of IrqSignaled] Qq by (auto simp: Q1_def)
  ultimately have base: "base_ok T s1 Q1" using b(1) tm by (simp add: base_ok_def)
  have "thread_ok s1 Q1 x" if x: "x \<in> T" for x
  proof (cases "x = t")
    case False
    have "thread_ok s1 Q1 x = thread_ok s Q x"
      by (rule thread_ok_cong) (use False Qq in \<open>auto simp: th Q1_def s1_def\<close>)
    then show ?thesis using ok x by (simp add: sched_ok_def)
  next
    case True
    have "thread_ok s Q t" using ok t(1) by (simp add: sched_ok_def)
    moreover have "t \<in> set (Q1 r) \<longleftrightarrow> r = IrqSignaled" for r using only dist by (auto simp: Q1_def)
    ultimately show ?thesis using True t w unfolding thread_ok_def
      by (auto simp: th s1_def thread_consts THREAD_STATE_SLEEP_def THREAD_STATE_READY_def)
  qed
  then have "sched_ok T s1 Q1" using base by (simp add: sched_ok_def)
  moreover have "qhead s q = Some t" using sched_ok_head[OF ok, of q] Qq by simp
  then have "thread_signal_irq q s = thread_signal_irq q s1"
    using w t(2) r1(1) r2(1) by (subst thread_signal_irq.simps) (simp add: s1_def)
  ultimately show ?thesis using th unfolding Q1_def by (intro exI[of _ s1]) (simp add: s1_def same_rest_def)
qed

text \<open>All threads of the queue go to the list that the next tick moves to the ready lists.\<close>

lemma signal_irq_ok:
  assumes "sched_ok T s Q" and "wait_queue q" "q \<noteq> IrqSignaled" and "\<And>t. t \<in> set (Q q) \<Longrightarrow> th_wakeup (thr s t) = 0"
  shows "\<exists>s'. thread_signal_irq q s = Some s' \<and> sched_ok T s' (Q(q := [], IrqSignaled := Q IrqSignaled @ Q q)) \<and> same_rest s s' \<and>
    (\<forall>t. thr s' t = (if t \<in> set (Q q) then (thr s t)\<lparr>th_qwait := Some IrqSignaled\<rparr> else thr s t))"
  using assms
proof (induction "Q q" arbitrary: s Q)
  case Nil
  then have "qhead s q = None" using sched_ok_head[OF Nil(2), of q] by simp
  then have "thread_signal_irq q s = Some s" by (subst thread_signal_irq.simps) simp
  moreover have "Q(q := [], IrqSignaled := Q IrqSignaled @ Q q) = Q" using Nil(1) by auto
  moreover have "\<forall>t. thr s t = (if t \<in> set (Q q) then (thr s t)\<lparr>th_qwait := Some IrqSignaled\<rparr> else thr s t)" using Nil(1)[symmetric] by simp
  ultimately show ?case using Nil(2) by (simp del: fun_upd_apply)
next
  case (Cons t ts)
  have Qq: "Q q = t # ts" using Cons(2) by simp
  have "th_wakeup (thr s t) = 0" using Cons(6) Qq by simp
  from signal_irq_step[OF Cons(3-5) Qq this] obtain s1 where s1: "thread_signal_irq q s = thread_signal_irq q s1"
    "sched_ok T s1 (Q(q := ts, IrqSignaled := Q IrqSignaled @ [t]))" "thr s1 = (thr s)(t := (thr s t)\<lparr>th_qwait := Some IrqSignaled\<rparr>)"
    "same_rest s s1" by blast
  let ?Q = "Q(q := ts, IrqSignaled := Q IrqSignaled @ [t])"
  have tq: "ts = ?Q q" using Cons(5) by simp
  have "th_wakeup (thr s1 x) = 0" if "x \<in> set (?Q q)" for x using Cons(6)[of x] that Cons(5) Qq by (auto simp: s1(3))
  from Cons.hyps(1)[OF tq s1(2) Cons(4,5) this] obtain s' where s': "thread_signal_irq q s1 = Some s'"
    "sched_ok T s' (?Q(q := [], IrqSignaled := ?Q IrqSignaled @ ?Q q))" "same_rest s1 s'"
    "\<forall>t. thr s' t = (if t \<in> set (?Q q) then (thr s1 t)\<lparr>th_qwait := Some IrqSignaled\<rparr> else thr s1 t)" by blast
  have "?Q(q := [], IrqSignaled := ?Q IrqSignaled @ ?Q q) = Q(q := [], IrqSignaled := Q IrqSignaled @ Q q)"
    using Cons(5) Qq by (auto simp: fun_eq_iff)
  moreover have "thr s' x = (if x \<in> set (Q q) then (thr s x)\<lparr>th_qwait := Some IrqSignaled\<rparr> else thr s x)" for x
    using s'(4) Qq tq by (simp add: s1(3))
  ultimately show ?case using s1(1,4) s'(1-3) same_rest_trans by (auto simp del: fun_upd_apply)
qed

section \<open>Receiving and reading\<close>

text \<open>The hardware that hands over the bytes \<open>bs\<close>, one per pair of accesses, and then reports that there is none.\<close>

fun delivers :: "'h asci_ports \<Rightarrow> nat \<Rightarrow> 'h \<Rightarrow> nat list \<Rightarrow> 'h \<Rightarrow> bool" where
  "delivers io u h [] h' \<longleftrightarrow> (\<exists>v. ain io (STAT u) h = (v, h') \<and> \<not> bit v 7)"
| "delivers io u h (b # bs) h' \<longleftrightarrow> (\<exists>v h1 h2. ain io (STAT u) h = (v, h1) \<and> bit v 7 \<and> ain io (RDR u) h1 = (b, h2) \<and> delivers io u h2 bs h')"

text \<open>What a ring keeps of a sequence of bytes: the newest 63.\<close>

definition newest :: "nat list \<Rightarrow> nat list" where
  "newest xs = drop (length xs - (FIFO_SIZE - 1)) xs"

lemma newest_append [simp]: "newest (newest xs @ ys) = newest (xs @ ys)"
  by (cases "length xs \<le> FIFO_SIZE - 1") (simp_all add: newest_def drop_drop add.commute)

lemma newest_short: "length xs < FIFO_SIZE \<Longrightarrow> newest xs = xs"
  by (simp add: newest_def)

lemma push_newest:
  assumes ok: "fifo_ok f" and p: "fifo_push c True f = (e, g)"
  shows "e = 0 \<and> fifo_ok g \<and> fifo_list g = newest (fifo_list f @ [c])"
proof -
  have "newest (fifo_list f @ [c]) = (if fifo_len f < FIFO_SIZE - 1 then fifo_list f @ [c] else tl (fifo_list f) @ [c])"
  proof (cases "fifo_len f < FIFO_SIZE - 1")
    case False
    then have l: "fifo_len f = 63" using fifo_len_less[of f] by (simp add: FIFO_SIZE_def)
    then obtain x xs where "fifo_list f = x # xs" using fifo_list_length[of f] by (cases "fifo_list f") auto
    then show ?thesis using l fifo_list_length[of f] by (simp add: newest_def FIFO_SIZE_def)
  qed (simp add: newest_def FIFO_SIZE_def)
  then show ?thesis using fifo_push_ok[OF ok p] by (auto split: if_splits)
qed

lemma upd_uart_simps [simp]:
  "asci (upd_uart u g st) = asci st" "usched (upd_uart u g st) = usched st"
  "uartctx (upd_uart u g st) w = (if w = u then g (uartctx st u) else uartctx st w)"
  by (simp_all add: upd_uart_def)

lemma irq_receive_ok:
  assumes "fifo_ok (u_rx (uartctx st u))" and "delivers io (port u) (asci st) bs h'"
  shows "\<exists>f st'. irq_receive io u rx st = Some (rx \<or> bs \<noteq> [], st') \<and> asci st' = h' \<and> usched st' = usched st \<and>
    uartctx st' = (uartctx st)(u := (uartctx st u)\<lparr>u_rx := f\<rparr>) \<and> fifo_ok f \<and> fifo_list f = newest (fifo_list (u_rx (uartctx st u)) @ bs)"
  using assms
proof (induction bs arbitrary: st rx)
  case Nil
  then obtain v where v: "ain io (STAT (port u)) (asci st) = (v, h')" "\<not> bit v 7" by auto
  then have "irq_receive io u rx st = Some (rx, st\<lparr>asci := h'\<rparr>)"
    by (subst irq_receive.simps) (simp add: dev_uart_rxready_def reg_in_def)
  moreover have "uartctx st = (uartctx st)(u := (uartctx st u)\<lparr>u_rx := u_rx (uartctx st u)\<rparr>)" by simp
  ultimately show ?case using Nil(1) newest_short[of "fifo_list (u_rx (uartctx st u))"] fifo_len_less
    by (intro exI[of _ "u_rx (uartctx st u)"] exI[of _ "st\<lparr>asci := h'\<rparr>"]) simp
next
  case (Cons b bs)
  from Cons.prems(2) obtain v h1 h2 where v: "ain io (STAT (port u)) (asci st) = (v, h1)" "bit v 7" "ain io (RDR (port u)) h1 = (b, h2)"
    "delivers io (port u) h2 bs h'" by auto
  obtain e f where p: "fifo_push b True (u_rx (uartctx st u)) = (e, f)" by fastforce
  note f = push_newest[OF Cons.prems(1) p]
  let ?s = "upd_uart u (\<lambda>x. x\<lparr>u_rx := f\<rparr>) (st\<lparr>asci := h2\<rparr>)"
  have "irq_receive io u rx st = irq_receive io u True ?s"
    using v p f by (subst irq_receive.simps) (simp add: dev_uart_rxready_def dev_uart_data_recv_def reg_in_def)
  moreover have "fifo_ok (u_rx (uartctx ?s u))" "delivers io (port u) (asci ?s) bs h'" using f v(4) by simp_all
  from Cons.IH[OF this, of True] obtain g st' where "irq_receive io u True ?s = Some (True \<or> bs \<noteq> [], st')" "asci st' = h'" "usched st' = usched ?s"
    "uartctx st' = (uartctx ?s)(u := (uartctx ?s u)\<lparr>u_rx := g\<rparr>)" "fifo_ok g" "fifo_list g = newest (fifo_list (u_rx (uartctx ?s u)) @ bs)" by blast
  ultimately show ?case using f by (intro exI[of _ g] exI[of _ st']) (simp add: fun_eq_iff)
qed

lemma irq_transmit_keeps:
  "irq_transmit io u st = (tx, st') \<Longrightarrow> u_rx (uartctx st' w) = u_rx (uartctx st w) \<and> u_minor (uartctx st' w) = u_minor (uartctx st w) \<and> usched st' = usched st"
  by (auto simp: irq_transmit_def dev_uart_txready_def reg_in_def dev_uart_txirq_set_def dev_uart_data_send_def reg_out_def Let_def
      split: prod.splits if_splits option.splits)

lemma error_clear_keeps [simp]:
  "uartctx (dev_uart_error_clear io u st) = uartctx st" "usched (dev_uart_error_clear io u st) = usched st"
  by (simp_all add: dev_uart_error_clear_def reg_in_def reg_out_def split_def Let_def)

lemma queues_ne: "rxqueue u \<noteq> IrqSignaled" "txqueue u \<noteq> IrqSignaled" "wait_queue (rxqueue u)" "wait_queue (txqueue u)" "rxqueue u \<noteq> txqueue w" "txqueue w \<noteq> rxqueue u"
  by (auto simp: rxqueue_def txqueue_def) presburger+

text \<open>The handler keeps the newest bytes in order and hands the threads that wait for them to the next tick.\<close>

lemma irq_handler_ok:
  assumes f: "fifo_ok (u_rx (uartctx st u))" and d: "delivers io (port u) (asci st) bs h'" and ok: "sched_ok T (usched st) Q"
    and w: "\<And>t. t \<in> set (Q (rxqueue u)) \<union> set (Q (txqueue u)) \<Longrightarrow> th_wakeup (thr (usched st) t) = 0"
  shows "\<exists>st' Q'. dev_uart_irq_handler io u st = Some st' \<and> fifo_ok (u_rx (uartctx st' u)) \<and>
    fifo_list (u_rx (uartctx st' u)) = newest (fifo_list (u_rx (uartctx st u)) @ bs) \<and>
    sched_ok T (usched st') Q' \<and> Q' (rxqueue u) = (if bs = [] then Q (rxqueue u) else []) \<and> same_rest (usched st) (usched st') \<and>
    (bs \<noteq> [] \<longrightarrow> set (Q (rxqueue u)) \<subseteq> set (Q' IrqSignaled)) \<and>
    (\<forall>w. u_minor (uartctx st' w) = u_minor (uartctx st w)) \<and>
    (\<forall>t. t \<notin> set (Q (rxqueue u)) \<union> set (Q (txqueue u)) \<longrightarrow> thr (usched st') t = thr (usched st) t)"
proof -
  from irq_receive_ok[OF f d, of False] obtain g st1 where st1: "irq_receive io u False st = Some (bs \<noteq> [], st1)" "usched st1 = usched st"
    "uartctx st1 = (uartctx st)(u := (uartctx st u)\<lparr>u_rx := g\<rparr>)" "fifo_ok g" "fifo_list g = newest (fifo_list (u_rx (uartctx st u)) @ bs)" by auto
  obtain tx st2 where t: "irq_transmit io u (dev_uart_error_clear io u st1) = (tx, st2)" by fastforce
  note k = irq_transmit_keeps[OF t]
  note q = queues_ne[of u]
  define Q1 where "Q1 = (if bs = [] then Q else Q(rxqueue u := [], IrqSignaled := Q IrqSignaled @ Q (rxqueue u)))"
  obtain s1 where s1: "(if bs \<noteq> [] then thread_signal_irq (rxqueue u) (usched st) else Some (usched st)) = Some s1" "sched_ok T s1 Q1"
    "same_rest (usched st) s1" "\<forall>t. thr s1 t = (if bs \<noteq> [] \<and> t \<in> set (Q (rxqueue u)) then (thr (usched st) t)\<lparr>th_qwait := Some IrqSignaled\<rparr> else thr (usched st) t)"
    using signal_irq_ok[OF ok q(3,1)] ok w by (cases "bs = []") (auto simp: Q1_def simp del: fun_upd_apply)
  have wk: "th_wakeup (thr s1 t) = th_wakeup (thr (usched st) t)" for t by (simp add: s1(4))
  have Qt: "Q1 (txqueue u) = Q (txqueue u)" using q q(6)[of u] by (simp add: Q1_def)
  obtain s2 where s2: "(if tx then thread_signal_irq (txqueue u) s1 else Some s1) = Some s2"
    "sched_ok T s2 (if tx then Q1(txqueue u := [], IrqSignaled := Q1 IrqSignaled @ Q1 (txqueue u)) else Q1)" "same_rest s1 s2"
    "\<And>t. t \<notin> set (Q (txqueue u)) \<Longrightarrow> thr s2 t = thr s1 t"
    using signal_irq_ok[OF s1(2) q(4,2)] s1(2) wk w Qt by (cases tx) (auto simp del: fun_upd_apply)
  define Q' where "Q' = (if tx then Q1(txqueue u := [], IrqSignaled := Q1 IrqSignaled @ Q1 (txqueue u)) else Q1)"
  have "dev_uart_irq_handler io u st = Some (st2\<lparr>usched := s2\<rparr>)"
    using st1(1,2) t s1(1) s2(1) k by (cases tx; cases "bs = []"; simp add: dev_uart_irq_handler_def Let_def)
  moreover have "Q' (rxqueue u) = (if bs = [] then Q (rxqueue u) else [])" "bs \<noteq> [] \<longrightarrow> set (Q (rxqueue u)) \<subseteq> set (Q' IrqSignaled)"
    using q(1,2) queues_ne(5)[of u u] queues_ne(6)[of u u] by (auto simp: Q'_def Q1_def)
  moreover have "u_minor (uartctx st2 w) = u_minor (uartctx st w)" for w using k[of w] st1(3) by simp
  moreover have "thr s2 t = thr (usched st) t" if "t \<notin> set (Q (rxqueue u)) \<union> set (Q (txqueue u))" for t using that s2(4) by (simp add: s1(4))
  ultimately show ?thesis using k st1(3-5) s2(2) same_rest_trans[OF s1(3) s2(3)] unfolding Q'_def[symmetric]
    by (intro exI[of _ "st2\<lparr>usched := s2\<rparr>"] exI[of _ Q']) simp
qed

text \<open>A read of no more bytes than there are takes the oldest and does not wait.\<close>

lemma read_loop_ok:
  assumes "fifo_ok (u_rx (uartctx st u))" and "n \<le> fifo_len (u_rx (uartctx st u))"
  shows "\<exists>f. uart_read_loop [] u n ctx st = Some (take n (fifo_list (u_rx (uartctx st u))), True, ctx, upd_uart u (\<lambda>x. x\<lparr>u_rx := f\<rparr>) st) \<and>
    fifo_ok f \<and> fifo_list f = drop n (fifo_list (u_rx (uartctx st u)))"
  using assms
proof (induction n arbitrary: st)
  case 0
  have "upd_uart u (\<lambda>x. x\<lparr>u_rx := u_rx (uartctx st u)\<rparr>) st = st" by (simp add: upd_uart_def)
  then show ?case using 0 by (intro exI[of _ "u_rx (uartctx st u)"]) simp
next
  case (Suc n)
  obtain r g where p: "fifo_pop (u_rx (uartctx st u)) = (r, g)" by fastforce
  obtain c cs where l: "fifo_list (u_rx (uartctx st u)) = c # cs" using Suc.prems(2) fifo_list_length[of "u_rx (uartctx st u)"]
    by (cases "fifo_list (u_rx (uartctx st u))") simp_all
  have g: "fifo_ok g" "r = Some c" "fifo_list g = cs" using fifo_pop_ok[OF Suc.prems(1) p] l by simp_all
  have "n \<le> fifo_len g" using Suc.prems(2) l g(3) fifo_list_length[of g] fifo_list_length[of "u_rx (uartctx st u)"] by simp
  then obtain f where "uart_read_loop [] u n ctx (upd_uart u (\<lambda>x. x\<lparr>u_rx := g\<rparr>) st) =
      Some (take n cs, True, ctx, upd_uart u (\<lambda>x. x\<lparr>u_rx := f\<rparr>) (upd_uart u (\<lambda>x. x\<lparr>u_rx := g\<rparr>) st))" "fifo_ok f" "fifo_list f = drop n cs"
    using Suc.IH[of "upd_uart u (\<lambda>x. x\<lparr>u_rx := g\<rparr>) st"] g by auto
  moreover have "upd_uart u (\<lambda>x. x\<lparr>u_rx := f\<rparr>) (upd_uart u (\<lambda>x. x\<lparr>u_rx := g\<rparr>) st) = upd_uart u (\<lambda>x. x\<lparr>u_rx := f\<rparr>) st" for f
    by (simp add: upd_uart_def)
  ultimately show ?case using p g(2) l by (intro exI[of _ f]) (simp add: irq_point_def)
qed

section \<open>Properties\<close>

text \<open>C18. The two indices and the array are a queue of at most 63 bytes: pushing appends, overwriting drops the
  oldest byte of a full queue, otherwise pushing on a full one fails and changes nothing; popping takes the
  oldest byte.
\<close>

theorem fifo_bounded_queue:
  assumes "fifo_ok f"
  shows "fifo_ok (snd (fifo_push c overwrite f)) \<and> fifo_ok (snd (fifo_pop f)) \<and> length (fifo_list f) \<le> 63 \<and>
    (fst (fifo_push c overwrite f), fifo_list (snd (fifo_push c overwrite f))) =
      (if length (fifo_list f) < 63 then (0, fifo_list f @ [c]) else if overwrite then (0, tl (fifo_list f) @ [c]) else (- 1, fifo_list f)) \<and>
    (fst (fifo_pop f), fifo_list (snd (fifo_pop f))) =
      (case fifo_list f of [] \<Rightarrow> (None, []) | x # xs \<Rightarrow> (Some x, xs))"
proof -
  obtain e g r h where p: "fifo_push c overwrite f = (e, g)" "fifo_pop f = (r, h)" by fastforce
  show ?thesis using fifo_push_ok[OF assms p(1)] fifo_pop_ok[OF assms p(2)] fifo_len_less[of f]
    by (auto simp: p FIFO_SIZE_def split: list.splits if_splits)
qed

text \<open>C19. An interrupt that finds the bytes \<open>bs\<close> at the port, and then a read: the reader gets the bytes that were
  there and the new ones in their order, of which the ring keeps the newest 63. Threads that waited for the
  port are handed to the next tick.
\<close>

theorem uart_receive_read:
  assumes f: "fifo_ok (u_rx (uartctx st u))" and d: "delivers io (port u) (asci st) bs h'" and ok: "sched_ok T (usched st) Q"
    and w: "\<And>t. t \<in> set (Q (rxqueue u)) \<union> set (Q (txqueue u)) \<Longrightarrow> th_wakeup (thr (usched st) t) = 0"
    and s: "schedule (usched st)" and m: "dev_uart_minor_to_uart minor st = u"
    and n: "n \<le> length (newest (fifo_list (u_rx (uartctx st u)) @ bs))"
  shows "\<exists>st1 st2 Q'. dev_uart_irq_handler io u st = Some st1 \<and>
    dev_uart_read [] minor n ctx st1 = Some (take n (newest (fifo_list (u_rx (uartctx st u)) @ bs)), True, ctx, st2) \<and>
    fifo_list (u_rx (uartctx st2 u)) = drop n (newest (fifo_list (u_rx (uartctx st u)) @ bs)) \<and>
    sched_ok T (usched st2) Q' \<and> (bs \<noteq> [] \<longrightarrow> set (Q (rxqueue u)) \<subseteq> set (Q' IrqSignaled))"
proof -
  from irq_handler_ok[OF f d ok w] obtain st1 Q' where st1: "dev_uart_irq_handler io u st = Some st1" "fifo_ok (u_rx (uartctx st1 u))"
    "fifo_list (u_rx (uartctx st1 u)) = newest (fifo_list (u_rx (uartctx st u)) @ bs)" "sched_ok T (usched st1) Q'"
    "same_rest (usched st) (usched st1)" "bs \<noteq> [] \<longrightarrow> set (Q (rxqueue u)) \<subseteq> set (Q' IrqSignaled)"
    "\<forall>w. u_minor (uartctx st1 w) = u_minor (uartctx st w)" by blast
  define st0 where "st0 = st1\<lparr>usched := (usched st1)\<lparr>schedule := False\<rparr>\<rparr>"
  have c: "on_usched thread_critical_start st1 = Some st0" using s st1(5)
    by (simp add: on_usched_def thread_critical_start_def same_rest_def st0_def)
  have m1: "dev_uart_minor_to_uart minor st1 = u" using m st1(7) by (simp add: dev_uart_minor_to_uart_def)
  have "n \<le> fifo_len (u_rx (uartctx st0 u))" using n st1(3) fifo_list_length[of "u_rx (uartctx st1 u)"] by (simp add: st0_def)
  from read_loop_ok[of st0 u n ctx] this st1(2) obtain g where
    g: "uart_read_loop [] u n ctx st0 = Some (take n (fifo_list (u_rx (uartctx st0 u))), True, ctx, upd_uart u (\<lambda>x. x\<lparr>u_rx := g\<rparr>) st0)"
    "fifo_list g = drop n (fifo_list (u_rx (uartctx st0 u)))" by (auto simp: st0_def)
  define st2 where "st2 = (upd_uart u (\<lambda>x. x\<lparr>u_rx := g\<rparr>) st0)\<lparr>usched := (usched st0)\<lparr>schedule := True\<rparr>\<rparr>"
  have "dev_uart_read [] minor n ctx st1 = Some (take n (newest (fifo_list (u_rx (uartctx st u)) @ bs)), True, ctx, st2)"
    using g(1) st1(3) by (simp add: dev_uart_read_def c m1) (simp add: on_usched_def thread_critical_end_def st2_def st0_def upd_uart_def)
  moreover have "sched_ok T (usched st2) Q'" using st1(4) by (subst sched_ok_procs[of _ "usched st1"]) (simp_all add: st2_def st0_def)
  moreover have "fifo_list (u_rx (uartctx st2 u)) = drop n (newest (fifo_list (u_rx (uartctx st u)) @ bs))"
    using g(2) st1(3) by (simp add: st2_def st0_def)
  ultimately show ?thesis using st1(1,6) by blast
qed

text \<open>C40. A lost wake-up: interrupts are on between the failed \<open>fifo_pop\<close> of \<open>dev_uart_read\<close> and the queueing of the
  thread in \<open>_thread_wait\<close>. When the bytes \<open>bs\<close> reach an empty port there, the handler finds no thread to signal, and
  the call ends with the processor given away and the reader asleep in the queue of the port, without a time to wake up,
  although the bytes are in the ring.
\<close>

theorem uart_lost_wakeup:
  assumes e: "fifo_ok (u_rx (uartctx st u))" "fifo_list (u_rx (uartctx st u)) = []" and d: "delivers io (port u) h bs h'" "bs \<noteq> []"
    and ok: "sched_ok T (usched st) Q" "Q (rxqueue u) = []" "Q (txqueue u) = []" "schedule (usched st)"
    and c: "current (usched st) = Some c" "c \<in> T" "th_state (thr (usched st) c) = THREAD_STATE_ACTIVE"
    and r: "r \<in> T" "th_state (thr (usched st) r) = THREAD_STATE_READY" and x: "\<forall>t \<in> T. \<not> th_exit (thr (usched st) t)"
    and m: "dev_uart_minor_to_uart minor st = u" and n: "0 < n"
  shows "\<exists>ctx' st' Q'. dev_uart_read [\<lambda>s. dev_uart_irq_handler io u (s\<lparr>asci := h\<rparr>)] minor n ctx st = Some ([], False, ctx', st') \<and>
    fifo_list (u_rx (uartctx st' u)) = newest bs \<and> newest bs \<noteq> [] \<and> sched_ok T (usched st') Q' \<and>
    current (usched st') \<noteq> Some c \<and> Q' (rxqueue u) = [c] \<and> c \<notin> set (Q' IrqSignaled) \<and>
    th_state (thr (usched st') c) = THREAD_STATE_SLEEP \<and> th_wakeup (thr (usched st') c) = 0"
proof -
  define s0 where "s0 = (usched st)\<lparr>schedule := False\<rparr>"
  define st0 where "st0 = st\<lparr>usched := s0\<rparr>"
  have cs: "on_usched thread_critical_start st = Some st0" using ok(4) by (simp add: on_usched_def thread_critical_start_def st0_def s0_def)
  have ok0: "sched_ok T s0 Q" using ok(1) by (subst sched_ok_procs[of _ "usched st"]) (simp_all add: s0_def)
  obtain r0 g where p: "fifo_pop (u_rx (uartctx st u)) = (r0, g)" by fastforce
  have r0: "r0 = None" using fifo_pop_ok[OF e(1) p] e(2) by simp
  let ?st = "st0\<lparr>asci := h\<rparr>"
  have q: "fifo_ok (u_rx (uartctx ?st u))" "delivers io (port u) (asci ?st) bs h'" "sched_ok T (usched ?st) Q" "fifo_list (u_rx (uartctx ?st u)) = []"
    using e d(1) ok0 by (simp_all add: st0_def)
  have w: "th_wakeup (thr (usched ?st) t) = 0" if "t \<in> set (Q (rxqueue u)) \<union> set (Q (txqueue u))" for t using that ok by simp
  from irq_handler_ok[OF q(1-3) w] obtain st1 Q1 where st1: "dev_uart_irq_handler io u ?st = Some st1"
    "fifo_list (u_rx (uartctx st1 u)) = newest bs" "sched_ok T (usched st1) Q1" "Q1 (rxqueue u) = []"
    "same_rest s0 (usched st1)" "\<forall>t. thr (usched st1) t = thr (usched st) t"
    using q(4) d(2) ok by (auto simp: st0_def s0_def)
  have c1: "current (usched st1) = Some c" "th_state (thr (usched st1) c) = THREAD_STATE_ACTIVE" using c st1(5,6) by (simp_all add: same_rest_def s0_def)
  from thread_wait_enqueue_ok[OF st1(3) c1(1) c(2) c1(2) queues_ne(3)[of u], of 0] obtain s2 where
    s2: "thread_wait_enqueue (rxqueue u) 0 (usched st1) = Some s2" "sched_ok T s2 (Q1(rxqueue u := Q1 (rxqueue u) @ [c]))"
    "thr s2 = (thr (usched st1))(c := (thr (usched st1) c)\<lparr>th_wakeup := 0, th_state := THREAD_STATE_SLEEP, th_qwait := Some (rxqueue u)\<rparr>)"
    "same_rest (usched st1) s2" by auto
  have c2: "current s2 = Some c" using s2(4) c1(1) by (simp add: same_rest_def)
  have rc: "r \<noteq> c" using r(2) c(3) by (auto simp: thread_consts)
  then have "th_state (thr s2 r) = THREAD_STATE_READY" using r(2) st1(6) s2(3) by simp
  then have some: "th_state (thr s2 c) = THREAD_STATE_ACTIVE \<or> (\<exists>x \<in> T. th_state (thr s2 x) = THREAD_STATE_READY)" using r(1) by blast
  have ex2: "\<forall>t \<in> T. \<not> th_exit (thr s2 t)" using x st1(6) s2(3) by simp
  then have live: "\<forall>t \<in> T. t \<noteq> c \<longrightarrow> \<not> killable s2 t"
    "\<not> (th_exit (thr s2 c) \<and> c_layout (ctx\<lparr>c_af := c_af ctx mod 256\<rparr>) \<noteq> CONTEXT_LAYOUT_KERNEL)" using c(2) by (auto simp: killable_def)
  from thread_schedule_ok[OF s2(2) c2 c(2) live some] obtain ctx' s3 Q3 t where s3: "thread_schedule (ctx\<lparr>c_af := c_af ctx mod 256\<rparr>) s2 = Some (ctx', s3)"
    "sched_ok T s3 Q3" "current s3 = Some t" "th_state (thr s3 t) = THREAD_STATE_ACTIVE"
    "\<forall>q. (\<forall>p. q \<noteq> Ready p) \<longrightarrow> Q3 q = (Q1(rxqueue u := Q1 (rxqueue u) @ [c])) q" "\<forall>x. th_wakeup (thr s3 x) = th_wakeup (thr s2 x)" by blast
  have Q3: "Q3 (rxqueue u) = [c]" using s3(5) st1(4) by (simp add: rxqueue_def)
  have qw: "th_qwait (thr s3 c) = Some (rxqueue u)" "th_state (thr s3 c) = THREAD_STATE_SLEEP"
    using thread_okD(3)[OF s3(2) c(2) queues_ne(3)[of u]] Q3 s3(2) c(2) by (auto simp: sched_ok_def thread_ok_def)
  have "c \<notin> set (Q3 IrqSignaled)" using thread_okD(3)[OF s3(2) c(2), of IrqSignaled] qw(1) queues_ne(1)[of u] by auto
  moreover have "current s3 \<noteq> Some c" using s3(3,4) qw(2) by (auto simp: thread_consts)
  moreover have "th_wakeup (thr s3 c) = 0" using s3(6) s2(3) by simp
  moreover have "newest bs \<noteq> []" using d(2) by (cases bs) (simp_all add: newest_def FIFO_SIZE_def)
  moreover have "dev_uart_read [\<lambda>s. dev_uart_irq_handler io u (s\<lparr>asci := h\<rparr>)] minor n ctx st = Some ([], False, ctx', st1\<lparr>usched := s3\<rparr>)"
  proof -
    have tw: "thread_wait (rxqueue u) 0 ctx (usched st1) = Some (ctx', s3)" using s2(1) s3(1) by (simp add: thread_wait_def thread_yield_def)
    have "fifo_pop (u_rx (uartctx st0 u)) = (None, g)" using p r0 by (simp add: st0_def)
    then have "uart_read_loop [\<lambda>s. dev_uart_irq_handler io u (s\<lparr>asci := h\<rparr>)] u n ctx st0 = Some ([], False, ctx', st1\<lparr>usched := s3\<rparr>)"
      using n tw st1(1) by (cases n) (simp_all add: irq_point_def)
    then show ?thesis by (simp add: dev_uart_read_def cs m)
  qed
  ultimately show ?thesis using st1(2) s3(2) Q3 qw(2)
    by (intro exI[of _ ctx'] exI[of _ "st1\<lparr>usched := s3\<rparr>"] exI[of _ Q3]) simp
qed

section \<open>A small instance\<close>

text \<open>Hardware whose state is the list of bytes that have arrived; both rings are empty.\<close>

definition demo_asci :: "nat list asci_ports" where
  "demo_asci = \<lparr>ain = (\<lambda>r h. case r of STAT _ \<Rightarrow> (if h = [] then 0 else 128, h) | RDR _ \<Rightarrow> (hd h, tl h) | _ \<Rightarrow> (0, h)), aout = (\<lambda>r v h. h)\<rparr>"

definition demo_fifo :: fifo where
  "demo_fifo = \<lparr>q_buff = replicate 64 0, q_rd = 0, q_wr = 0\<rparr>"

definition demo_uart :: "nat list uart_st" where
  "demo_uart = \<lparr>uartctx = (\<lambda>u. \<lparr>u_tx = demo_fifo, u_rx = demo_fifo, u_minor = u\<rparr>), asci = [104, 105], usched = sched_demo\<rparr>"

lemma demo_fifo_ok: "fifo_ok demo_fifo" "fifo_list demo_fifo = []"
  by (simp_all add: fifo_ok_def fifo_list_def fifo_len_def demo_fifo_def FIFO_SIZE_def)

lemma demo_delivers: "delivers demo_asci u bs bs []"
  by (induction bs) (simp_all add: demo_asci_def bit_iff_odd)

theorem fifo_bounded_queue_witness: "fifo_list (snd (fifo_push 7 False demo_fifo)) = [7]"
  using fifo_bounded_queue[OF demo_fifo_ok(1), of 7 False] by (simp add: demo_fifo_ok)

lemma demo_uart_simps: "u_rx (uartctx demo_uart u) = demo_fifo" "asci demo_uart = [104, 105]" "usched demo_uart = sched_demo"
  "dev_uart_minor_to_uart 0 demo_uart = 0"
  by (simp_all add: demo_uart_def dev_uart_minor_to_uart_def)

lemma demo_uart_queues: "demo_queues (rxqueue 0) = []" "demo_queues (txqueue 0) = []"
  by (simp_all add: rxqueue_def txqueue_def)

lemma demo_uart_ready: "fifo_ok (u_rx (uartctx demo_uart 0))" "fifo_list (u_rx (uartctx demo_uart 0)) = []"
  "delivers demo_asci (port 0) (asci demo_uart) [104, 105] []" "sched_ok {1, 2, 3} (usched demo_uart) demo_queues"
  unfolding demo_uart_simps using demo_fifo_ok demo_delivers[of "port 0" "[104, 105]"] sched_demo_ok by blast+

lemma demo_newest: "newest [104, 105] = [104, 105]"
  by (simp add: newest_def FIFO_SIZE_def)

theorem uart_receive_read_witness:
  "\<forall>ctx. \<exists>st1 st2. dev_uart_irq_handler demo_asci 0 demo_uart = Some st1 \<and> dev_uart_read [] 0 2 ctx st1 = Some ([104, 105], True, ctx, st2)"
proof
  fix ctx
  have "schedule (usched demo_uart)" using sched_demo_live(3) by (simp add: demo_uart_simps)
  moreover have "th_wakeup (thr (usched demo_uart) t) = 0" if "t \<in> set (demo_queues (rxqueue 0)) \<union> set (demo_queues (txqueue 0))" for t
    using that unfolding demo_uart_queues by simp
  ultimately show "\<exists>st1 st2. dev_uart_irq_handler demo_asci 0 demo_uart = Some st1 \<and> dev_uart_read [] 0 2 ctx st1 = Some ([104, 105], True, ctx, st2)"
    using uart_receive_read[OF demo_uart_ready(1,3,4), of 0 2 ctx] by (simp add: demo_uart_ready(2) demo_newest demo_uart_simps(4)) blast
qed

theorem uart_lost_wakeup_witness:
  "\<exists>ctx' st'. dev_uart_read [\<lambda>s. dev_uart_irq_handler demo_asci 0 (s\<lparr>asci := [104, 105]\<rparr>)] 0 1 ctx0 (demo_uart\<lparr>asci := []\<rparr>) = Some ([], False, ctx', st') \<and>
     fifo_list (u_rx (uartctx st' 0)) = [104, 105] \<and> th_state (thr (usched st') 1) = THREAD_STATE_SLEEP"
proof -
  let ?st = "demo_uart\<lparr>asci := []\<rparr>"
  have c: "current (usched ?st) = Some 1" "1 \<in> {1, 2, 3 :: nat}" "th_state (thr (usched ?st) 1) = THREAD_STATE_ACTIVE"
    "3 \<in> {1, 2, 3 :: nat}" "th_state (thr (usched ?st) 3) = THREAD_STATE_READY" "\<forall>t \<in> {1, 2, 3 :: nat}. \<not> th_exit (thr (usched ?st) t)"
    "dev_uart_minor_to_uart 0 ?st = 0" "schedule (usched ?st)"
    using sched_demo_live by (simp_all add: demo_uart_simps dev_uart_minor_to_uart_def) (simp_all add: demo_uart_def sched_demo_def)
  have q: "fifo_ok (u_rx (uartctx ?st 0))" "fifo_list (u_rx (uartctx ?st 0)) = []" "sched_ok {1, 2, 3} (usched ?st) demo_queues"
    using demo_uart_ready by simp_all
  from uart_lost_wakeup[OF q(1,2) demo_delivers[of "port 0" "[104, 105]"] _ q(3) demo_uart_queues c(8) c(1,2,3) c(4,5,6) c(7), of 1 ctx0] demo_newest
  show ?thesis by auto
qed

end
