(* ===== verification/BootFat.thy ===== *)
theory BootFat
  imports FatDisk
begin

text \<open>
  The read-only FAT12 driver of the boot loader, \<open>bootloader/fat12ro.c\<close>. The callback \<open>read_sector\<close> is the
  parameter \<open>rs\<close>: its code, and the contents of the buffer after it, over a state of the medium. The
  allocation table is read once into a static array; reading outside of it or of the sector buffer is
  undefined (\<open>None\<close>). Directory entries are those of \<open>FatDir\<close>, strings lists without their NUL.
\<close>

unbundle bit_operations_syntax

type_synonym 'm sector_reader = "nat \<Rightarrow> 'm \<Rightarrow> int \<times> nat list \<times> 'm"

text \<open>\<open>struct fat12_fs\<close> with the table, and \<open>struct fat12_file\<close>\<close>

record 'm fat12_fs =
  fat_table :: "nat list"
  bt_sbuff :: "nat list"
  bt_sno :: nat
  bt_size :: nat
  bt_media :: 'm

record fat12_file =
  bf_dentry :: fat_dentry
  recent_cluster :: nat
  recent_offs :: nat
  dentry_sector :: nat
  dentry_offs :: nat

definition FAT12_ATTR_DIR :: nat where "FAT12_ATTR_DIR = 16"

definition fat12_read_sector :: "'m sector_reader \<Rightarrow> nat \<Rightarrow> 'm fat12_fs \<Rightarrow> int \<times> 'm fat12_fs" where
  "fat12_read_sector rs n fs =
     (if n \<noteq> bt_sno fs then let (ret, buf, m) = rs n (bt_media fs) in (ret, fs\<lparr>bt_sbuff := buf, bt_media := m, bt_sno := n\<rparr>)
      else (0, fs))"

definition table_at :: "'m fat12_fs \<Rightarrow> nat \<Rightarrow> nat option" where
  "table_at fs i = (if i < length (fat_table fs) then Some (fat_table fs ! i) else None)"

definition fat12_fat_get :: "'m fat12_fs \<Rightarrow> nat \<Rightarrow> (int \<times> nat) option" where
  "fat12_fat_get fs n =
     (if CLUSTER2SECTOR n > bt_size fs then Some (- EIO, 0)
      else do {
        let idx = u16 (3 * n) div 2;
        b0 \<leftarrow> table_at fs idx;
        b1 \<leftarrow> table_at fs (idx + 1);
        let c = (if odd n then drop_bit 4 b0 OR push_bit 4 b1 else b0 OR push_bit 8 (b1 AND 15));
        Some (0, if c \<ge> 4088 then CLUSTER_END else if c \<ge> 4080 then CLUSTER_RESERVED else c) })"

text \<open>\<open>while (new > last)\<close>, with the number of rounds.\<close>

fun seek_steps :: "'m fat12_fs \<Rightarrow> nat \<Rightarrow> fat12_file \<Rightarrow> (int \<times> fat12_file) option" where
  "seek_steps fs 0 file = Some (0, file)"
| "seek_steps fs (Suc k) file = do {
     (ret, c) \<leftarrow> fat12_fat_get fs (recent_cluster file);
     (if ret < 0 then Some (ret, file)
      else if c = CLUSTER_FREE \<or> c = CLUSTER_RESERVED then Some (- EIO, file)
      else if c = CLUSTER_END then Some (1, file)
      else seek_steps fs k (file\<lparr>recent_cluster := c\<rparr>)) }"

definition fat12_file_seek :: "'m fat12_fs \<Rightarrow> nat \<Rightarrow> fat12_file \<Rightarrow> (int \<times> fat12_file) option" where
  "fat12_file_seek fs offs file =
     (let last0 = u16 (recent_offs file div FAT12_SECTOR_SIZE);
          new = u16 (offs div FAT12_SECTOR_SIZE);
          (last1, file1) = (if new < last0 then (0, file\<lparr>recent_cluster := fd_cluster (bf_dentry file)\<rparr>) else (last0, file))
      in do {
        (ret, file2) \<leftarrow> seek_steps fs (new - last1) file1;
        Some (if ret \<noteq> 0 then (ret, file2) else (0, file2\<lparr>recent_offs := offs\<rparr>)) })"

section \<open>Reading\<close>

text \<open>The entry \<open>idx\<close> of the directory, \<open>None\<close> being the root: code, entry, directory, file system.\<close>

definition fat12_file_read_dir :: "'m sector_reader \<Rightarrow> fat12_file option \<Rightarrow> nat \<Rightarrow> 'm fat12_fs \<Rightarrow>
  (int \<times> fat_dentry option \<times> fat12_file option \<times> 'm fat12_fs) option" where
  "fat12_file_read_dir rs dir idx fs =
     (let offs = idx * DENTRY_SIZE;
          finish = (\<lambda>sector dir'. let (err, fs') = fat12_read_sector rs sector fs; pos = offs mod FAT12_SECTOR_SIZE in
            if err < 0 then Some (err, None, dir', fs')
            else if length (bt_sbuff fs') < pos + DENTRY_SIZE then None
            else Some (int DENTRY_SIZE, Some (dentry_of (take DENTRY_SIZE (drop pos (bt_sbuff fs')))), dir', fs'))
      in case dir of
        None \<Rightarrow> finish (u16 (1 + FAT12_FAT_COPIES * FAT12_FAT_SIZE + offs div FAT12_SECTOR_SIZE)) None
      | Some d \<Rightarrow>
          if fd_attr (bf_dentry d) AND FAT12_ATTR_DIR = 0 then Some (- ENOTDIR, None, dir, fs)
          else do {
            (err, d1) \<leftarrow> fat12_file_seek fs offs d;
            (if err < 0 then Some (err, None, Some d1, fs)
             else if err > 0 then Some (- ENOENT, None, Some d1, fs)
             else finish (CLUSTER2SECTOR (recent_cluster d1)) (Some d1)) })"

text \<open>The loop of \<open>fat12_file_read\<close>: the bytes so far are \<open>acc\<close>, \<open>want\<close> are still wanted.\<close>

function fat12_read_loop :: "'m sector_reader \<Rightarrow> nat \<Rightarrow> nat \<Rightarrow> nat list \<Rightarrow> fat12_file \<Rightarrow> 'm fat12_fs \<Rightarrow>
  (int \<times> nat list \<times> fat12_file \<times> 'm fat12_fs) option" where
  "fat12_read_loop rs want offs acc file fs =
     (if want = 0 then Some (int (length acc), acc, file, fs)
      else do {
        (err, file1) \<leftarrow> fat12_file_seek fs offs file;
        (if err < 0 then Some (- 1, acc, file1, fs)
         else if err > 0 then Some (int (length acc), acc, file1, fs)
         else let (e, fs1) = fat12_read_sector rs (CLUSTER2SECTOR (recent_cluster file1)) fs in
           if e < 0 then Some (- 1, acc, file1, fs1)
           else let pos = offs mod FAT12_SECTOR_SIZE; chunk = min (FAT12_SECTOR_SIZE - pos) want in
             if length (bt_sbuff fs1) < pos + chunk then None
             else fat12_read_loop rs (want - chunk) (offs + chunk) (acc @ take chunk (drop pos (bt_sbuff fs1))) file1 fs1) })"
  by pat_completeness auto
termination by (relation "measure (\<lambda>(_, want, _). want)") (auto simp: FAT12_SECTOR_SIZE_def)

declare fat12_read_loop.simps [simp del]

definition fat12_file_read :: "'m sector_reader \<Rightarrow> fat12_file option \<Rightarrow> nat \<Rightarrow> nat \<Rightarrow> 'm fat12_fs \<Rightarrow>
  (int \<times> nat list \<times> fat12_file option \<times> 'm fat12_fs) option" where
  "fat12_file_read rs file' bufflen offs fs = (case file' of
     None \<Rightarrow> Some (- EISDIR, [], None, fs)
   | Some file \<Rightarrow>
       if fd_attr (bf_dentry file) AND FAT12_ATTR_DIR \<noteq> 0 then Some (- EISDIR, [], Some file, fs)
       else if offs \<ge> fd_size (bf_dentry file) then Some (0, [], Some file, fs)
       else let n = (if (offs + bufflen) mod 2 ^ 32 > fd_size (bf_dentry file) then u16 (fd_size (bf_dentry file) - offs) else bufflen) in do {
         (ret, bs, f, fs1) \<leftarrow> fat12_read_loop rs (min n 32767) offs [] file fs;
         Some (ret, bs, Some f, fs1) })"

section \<open>Names and paths\<close>

text \<open>\<open>while (pos != 0 && str[pos] == ' ') --pos\<close>\<close>

fun back_over_spaces :: "nat list \<Rightarrow> nat \<Rightarrow> nat" where
  "back_over_spaces str 0 = 0"
| "back_over_spaces str (Suc pos) = (if str ! Suc pos = 32 then back_over_spaces str pos else Suc pos)"

definition fat12_file_namelen :: "nat list \<Rightarrow> nat \<Rightarrow> nat" where
  "fat12_file_namelen str mx = (let pos = back_over_spaces str (mx - 1) in if str ! pos = 32 then 0 else pos + 1)"

text \<open>One of the two comparing loops: whether the \<open>len\<close> characters agree.\<close>

fun name_agrees :: "nat list \<Rightarrow> nat list \<Rightarrow> nat \<Rightarrow> nat \<Rightarrow> nat \<Rightarrow> bool" where
  "name_agrees field path pos i 0 = True"
| "name_agrees field path pos i (Suc n) = (let c = toupper (chr_at path (pos + i)) in
     c \<noteq> 47 \<and> c \<noteq> 0 \<and> field ! i = c \<and> name_agrees field path pos (i + 1) n)"

definition fat12_file_name_cmp :: "fat_dentry \<Rightarrow> nat list \<Rightarrow> int" where
  "fat12_file_name_cmp entry path =
     (let len = fat12_file_namelen (fd_fname entry) 8; xlen = fat12_file_namelen (fd_extension entry) 3 in
      if \<not> name_agrees (fd_fname entry) path 0 0 len then 1
      else if chr_at path len = 46 then
        (if \<not> name_agrees (fd_extension entry) path (len + 1) 0 xlen then 1
         else if chr_at path (len + 1 + xlen) \<noteq> 47 \<and> chr_at path (len + 1 + xlen) \<noteq> 0 then 1 else 0)
      else if chr_at path len \<noteq> 47 \<and> chr_at path len \<noteq> 0 \<or> xlen \<noteq> 0 then 1 else 0)"

text \<open>The positions are 8 bit numbers: a path of 256 characters or more makes the loops go round.\<close>

partial_function (option) skip_slashes :: "nat list \<Rightarrow> nat \<Rightarrow> nat option" where
  "skip_slashes path pos = (if chr_at path pos = 47 then skip_slashes path (u8 (pos + 1)) else Some pos)"

partial_function (option) skip_name :: "nat list \<Rightarrow> nat \<Rightarrow> nat option" where
  "skip_name path pos = (if chr_at path pos \<noteq> 47 \<and> chr_at path pos \<noteq> 0 then skip_name path (u8 (pos + 1)) else Some pos)"

declare skip_slashes.simps [code] skip_name.simps [code]

text \<open>The search in a directory: an error, or the index and the entry.\<close>

partial_function (option) dir_search :: "'m sector_reader \<Rightarrow> nat list \<Rightarrow> fat12_file option \<Rightarrow> nat \<Rightarrow> 'm fat12_fs \<Rightarrow>
  ((int + nat \<times> fat_dentry) \<times> fat12_file option \<times> 'm fat12_fs) option" where
  "dir_search rs name fp index fs = do {
     (ret, e', fp1, fs1) \<leftarrow> fat12_file_read_dir rs fp index fs;
     (if ret < 0 then Some (Inl ret, fp1, fs1)
      else do {
        e \<leftarrow> e';
        (if fd_fname e ! 0 = 0 then Some (Inl (- ENOENT), fp1, fs1)
         else if fd_fname e ! 0 \<noteq> 229 \<and> fat12_file_name_cmp e name = 0 then Some (Inr (index, e), fp1, fs1)
         else dir_search rs name fp1 (u16 (index + 1)) fs1) }) }"

declare dir_search.simps [code]

text \<open>What \<open>fat12_file_open\<close> stores in \<open>*file\<close>\<close>

definition opened_file :: "fat12_file option \<Rightarrow> nat \<Rightarrow> fat_dentry \<Rightarrow> fat12_file" where
  "opened_file fp index e = \<lparr>bf_dentry = e, recent_cluster = fd_cluster e, recent_offs = 0,
     dentry_sector = (if fp = None then u16 (1 + FAT12_FAT_COPIES * FAT12_FAT_SIZE + index div (FAT12_SECTOR_SIZE div DENTRY_SIZE))
       else CLUSTER2SECTOR (fd_cluster e)),
     dentry_offs = index mod (FAT12_SECTOR_SIZE div DENTRY_SIZE)\<rparr>"

partial_function (option) open_walk :: "'m sector_reader \<Rightarrow> nat list \<Rightarrow> nat \<Rightarrow> fat12_file option \<Rightarrow> 'm fat12_fs \<Rightarrow>
  (int \<times> fat12_file option \<times> 'm fat12_fs) option" where
  "open_walk rs path pos fp fs = do {
     (found, fp1, fs1) \<leftarrow> dir_search rs (drop pos path) fp 0 fs;
     (case found of
        Inl err \<Rightarrow> Some (err, None, fs1)
      | Inr (index, e) \<Rightarrow> do {
          pos1 \<leftarrow> skip_name path pos;
          (if chr_at path pos1 = 0 \<or> chr_at path (pos1 + 1) = 0 then Some (0, Some (opened_file fp1 index e), fs1)
           else if fd_attr e AND FAT12_ATTR_DIR = 0 then Some (- ENOTDIR, None, fs1)
           else open_walk rs path (u8 (pos1 + 1)) (Some \<lparr>bf_dentry = e, recent_cluster = fd_cluster e, recent_offs = 0, dentry_sector = 0, dentry_offs = 0\<rparr>) fs1) }) }"

declare open_walk.simps [code]

definition fat12_file_open :: "'m sector_reader \<Rightarrow> nat list \<Rightarrow> 'm fat12_fs \<Rightarrow> (int \<times> fat12_file option \<times> 'm fat12_fs) option" where
  "fat12_file_open rs path fs = do {
     pos \<leftarrow> skip_slashes path 0;
     (if chr_at path pos = 0 then Some (1, None, fs) else open_walk rs path pos None fs) }"

section \<open>Mounting\<close>

fun load_fat :: "'m sector_reader \<Rightarrow> nat list \<Rightarrow> 'm fat12_fs \<Rightarrow> int \<times> 'm fat12_fs" where
  "load_fat rs [] fs = (0, fs)"
| "load_fat rs (i # is) fs = (let (err, buf, m) = rs (i + 1) (bt_media fs);
       fs1 = fs\<lparr>fat_table := take (i * FAT12_SECTOR_SIZE) (fat_table fs) @ buf @ drop (i * FAT12_SECTOR_SIZE + length buf) (fat_table fs), bt_media := m\<rparr>
     in if err < 0 then (err, fs1) else load_fat rs is fs1)"

text \<open>The boot sector that is accepted.\<close>

definition boot_sector_ok :: "nat list \<Rightarrow> bool" where
  "boot_sector_ok b \<longleftrightarrow> get16 b 11 = FAT12_SECTOR_SIZE \<and> b ! 13 = 1 \<and> get16 b 14 = 1 \<and> b ! 16 = 2 \<and> get16 b 17 = 224 \<and>
     get16 b 22 = 9 \<and> get16 b 24 = 18 \<and> get16 b 26 = 2"

text \<open>The size is stored between the tests for the root entries and for the size of the table, which a failing later test does not undo.\<close>

definition fat12_mount :: "'m sector_reader \<Rightarrow> 'm fat12_fs \<Rightarrow> int \<times> 'm fat12_fs" where
  "fat12_mount rs fs = (let (err, b, m) = rs 0 (bt_media fs); fs1 = fs\<lparr>bt_sbuff := b, bt_media := m\<rparr> in
     if err < 0 then (err, fs1)
     else let fs2 = fs1\<lparr>bt_sno := 0\<rparr> in
       if get16 b 11 \<noteq> FAT12_SECTOR_SIZE \<or> b ! 13 \<noteq> 1 \<or> get16 b 14 \<noteq> 1 \<or> b ! 16 \<noteq> 2 \<or> get16 b 17 \<noteq> 224 then (- EIO, fs2)
       else let fs3 = fs2\<lparr>bt_size := get16 b 18\<rparr> in
         if \<not> boot_sector_ok b then (- EIO, fs3) else load_fat rs [0 ..< FAT12_FAT_SIZE] fs3)"

section \<open>The allocation table\<close>

text \<open>The loader has loaded the table that the kernel caches in the two pages of \<open>st\<close>.\<close>

definition same_table :: "'m fat12_fs \<Rightarrow> 'd fat_st \<Rightarrow> bool" where
  "same_table fs st \<longleftrightarrow> fat_table fs = map (fat_byte st) [0 ..< FAT12_FAT_SIZE * FAT12_SECTOR_SIZE] \<and> 2880 \<le> bt_size fs"

lemma boot_get_ok:
  assumes tab: "same_table fs st" and wf: "fat_wf st" and n: "n < CLUSTERS"
  shows "fat12_fat_get fs n = Some (0, norm (fat_entry st n))"
proof -
  note ix = fat_index[OF n]
  define k where "k = 3 * n div 2"
  have k: "k < 4273" using ix(2) by (simp add: k_def)
  have bt: "fat_byte st k < 256" using wf k by (auto simp: fat_wf_def PAGE_SIZE_def)
  have at: "table_at fs i = Some (fat_byte st i)" if "i < 4608" for i
    using tab that by (simp add: table_at_def same_table_def fat_consts)
  have "\<not> CLUSTER2SECTOR n > bt_size fs" using tab n ix(3) by (simp add: same_table_def CLUSTERS_def)
  then show ?thesis unfolding fat12_fat_get_def ix(1) k_def[symmetric] Let_def
    using at[of k] at[of "k + 1"] k by (simp add: fat_entry_def k_def[symmetric] unpack_or[OF bt] norm_def)
qed

lemma same_table_cong: "fat_table fs' = fat_table fs \<Longrightarrow> bt_size fs' = bt_size fs \<Longrightarrow> same_table fs' st = same_table fs st"
  by (simp add: same_table_def)

lemma chain_step:
  assumes "chain_of st c cs" and "Suc r < length cs"
  shows "norm (fat_entry st (cs ! r)) = cs ! Suc r" and "cs ! r < CLUSTERS" and "2 \<le> cs ! Suc r" and "cs ! Suc r < CLUSTERS"
proof -
  have d: "drop r cs = cs ! r # cs ! Suc r # drop (Suc (Suc r)) cs" using assms(2) by (simp add: Cons_nth_drop_Suc)
  have "chain_of st (cs ! r) (drop r cs)" using chain_drop[OF assms(1)] assms(2) by simp
  then show "norm (fat_entry st (cs ! r)) = cs ! Suc r" unfolding d by simp
  show "cs ! r < CLUSTERS" "2 \<le> cs ! Suc r" "cs ! Suc r < CLUSTERS"
    using chain_elems[OF assms(1)] assms(2) by (simp_all add: Suc_lessD)
qed

lemma seek_steps_ok:
  assumes tab: "same_table fs st" and wf: "fat_wf st" and ch: "chain_of st c cs" and "r + k < length cs"
  shows "seek_steps fs k (fl\<lparr>recent_cluster := cs ! r\<rparr>) = Some (0, fl\<lparr>recent_cluster := cs ! (r + k)\<rparr>)"
  using assms(4)
proof (induction k arbitrary: r)
  case (Suc k)
  have r: "Suc r < length cs" using Suc.prems by simp
  note c = chain_step[OF ch r]
  have "fat12_fat_get fs (cs ! r) = Some (0, cs ! Suc r)" using boot_get_ok[OF tab wf c(2)] c(1) by simp
  moreover have "cs ! Suc r \<noteq> CLUSTER_FREE" "cs ! Suc r \<noteq> CLUSTER_RESERVED" "cs ! Suc r \<noteq> CLUSTER_END"
    using c(3,4) by (simp_all add: fat_consts CLUSTERS_def)
  moreover have "seek_steps fs k (fl\<lparr>recent_cluster := cs ! Suc r\<rparr>) = Some (0, fl\<lparr>recent_cluster := cs ! (Suc r + k)\<rparr>)"
    using Suc by simp
  ultimately show ?case by simp
qed simp

text \<open>What a file keeps between two seeks: the cluster of its recent offset.\<close>

definition recent_ok :: "nat list \<Rightarrow> fat12_file \<Rightarrow> bool" where
  "recent_ok cs fl \<longleftrightarrow> recent_offs fl div FAT12_SECTOR_SIZE < length cs \<and>
     recent_cluster fl = cs ! (recent_offs fl div FAT12_SECTOR_SIZE) \<and> fd_cluster (bf_dentry fl) = cs ! 0"

lemma boot_seek_ok:
  assumes tab: "same_table fs st" and wf: "fat_wf st" and ch: "chain_of st c cs" and len: "length cs < 65536"
    and rc: "recent_ok cs fl" and q: "offs div FAT12_SECTOR_SIZE < length cs"
  shows "fat12_file_seek fs offs fl = Some (0, fl\<lparr>recent_cluster := cs ! (offs div FAT12_SECTOR_SIZE), recent_offs := offs\<rparr>)"
proof -
  define r where "r = recent_offs fl div FAT12_SECTOR_SIZE"
  define q where "q = offs div FAT12_SECTOR_SIZE"
  have r: "r < length cs" "recent_cluster fl = cs ! r" "fd_cluster (bf_dentry fl) = cs ! 0" using rc by (simp_all add: recent_ok_def r_def)
  have u: "u16 r = r" "u16 q = q" using r(1) assms(6) len by (simp_all add: q_def)
  have bk: "fl\<lparr>recent_cluster := cs ! r\<rparr> = fl" using r(2) by (cases fl) simp
  show ?thesis
  proof (cases "q < r")
    case True
    then show ?thesis using seek_steps_ok[OF tab wf ch, of 0 q fl] assms(6) r(3)
      unfolding fat12_file_seek_def r_def[symmetric] q_def[symmetric] u by simp
  next
    case False
    then have "seek_steps fs (q - r) fl = Some (0, fl\<lparr>recent_cluster := cs ! q\<rparr>)"
      using seek_steps_ok[OF tab wf ch, of r "q - r" fl] assms(6) bk unfolding q_def[symmetric] by simp
    then show ?thesis using False unfolding fat12_file_seek_def r_def[symmetric] q_def[symmetric] u by simp
  qed
qed

section \<open>Reading a file\<close>

text \<open>The callback delivers the sectors of the image \<open>g\<close>, and the sector buffer holds one of them or none.\<close>

definition sector_of :: "(nat \<Rightarrow> nat) \<Rightarrow> nat \<Rightarrow> nat list" where
  "sector_of g n = map g [n * FAT12_SECTOR_SIZE ..< n * FAT12_SECTOR_SIZE + FAT12_SECTOR_SIZE]"

definition sector_reader_ok :: "'m sector_reader \<Rightarrow> (nat \<Rightarrow> nat) \<Rightarrow> bool" where
  "sector_reader_ok rs g \<longleftrightarrow> (\<forall>n < 2880. \<forall>m. fst (rs n m) = 0 \<and> fst (snd (rs n m)) = sector_of g n)"

definition sbuff_ok :: "(nat \<Rightarrow> nat) \<Rightarrow> 'm fat12_fs \<Rightarrow> bool" where
  "sbuff_ok g fs \<longleftrightarrow> (bt_sno fs < 2880 \<longrightarrow> bt_sbuff fs = sector_of g (bt_sno fs))"

lemma boot_sector_read:
  assumes "sector_reader_ok rs g" and "sbuff_ok g fs" and "n < 2880"
  shows "\<exists>fs'. fat12_read_sector rs n fs = (0, fs') \<and> bt_sbuff fs' = sector_of g n \<and> sbuff_ok g fs' \<and> fat_table fs' = fat_table fs \<and>
    bt_size fs' = bt_size fs"
  using assms by (cases "rs n (bt_media fs)") (auto simp: fat12_read_sector_def sector_reader_ok_def sbuff_ok_def dest!: spec[of _ n] spec[of _ "bt_media fs"])

lemma boot_read_loop_ok:
  assumes rd: "sector_reader_ok rs g" and wf: "fat_wf st" and ch: "chain_of st c cs" and len: "length cs < 65536"
    and "same_table fs st" and "sbuff_ok g fs" and "recent_ok cs fl" and "offs + want \<le> FAT12_SECTOR_SIZE * length cs"
  shows "\<exists>file' fs'. fat12_read_loop rs want offs acc fl fs =
      Some (int (length acc + want), acc @ map (\<lambda>i. g (file_pos cs i)) [offs ..< offs + want], file', fs') \<and> recent_ok cs file' \<and>
      bf_dentry file' = bf_dentry fl \<and> same_table fs' st \<and> sbuff_ok g fs'"
  using assms(5-)
proof (induction want arbitrary: offs acc fl fs rule: less_induct)
  case (less want)
  show ?case
  proof (cases "want = 0")
    case True
    then show ?thesis using less.prems by (subst fat12_read_loop.simps) simp
  next
    case False
    define q where "q = offs div FAT12_SECTOR_SIZE"
    define pos where "pos = offs mod FAT12_SECTOR_SIZE"
    define chunk where "chunk = min (FAT12_SECTOR_SIZE - pos) want"
    have pos: "pos < FAT12_SECTOR_SIZE" "offs = q * FAT12_SECTOR_SIZE + pos" by (simp_all add: pos_def q_def FAT12_SECTOR_SIZE_def)
    have ck: "0 < chunk" "chunk \<le> want" "pos + chunk \<le> FAT12_SECTOR_SIZE" using pos False by (auto simp: chunk_def)
    have q: "q < length cs" using less.prems(4) False unfolding q_def by (simp add: FAT12_SECTOR_SIZE_def)
    define file1 where "file1 = fl\<lparr>recent_cluster := cs ! q, recent_offs := offs\<rparr>"
    have sk: "fat12_file_seek fs offs fl = Some (0, file1)"
      using boot_seek_ok[OF less.prems(1) wf ch len less.prems(3)] q by (simp add: file1_def q_def)
    have cq: "cs ! q < CLUSTERS" "2 \<le> cs ! q" using chain_elems[OF ch] q by simp_all
    then have c2s: "CLUSTER2SECTOR (cs ! q) = cs ! q + 31" "cs ! q + 31 < 2880" using fat_index(3)[OF cq(1)] by (simp_all add: CLUSTERS_def)
    from boot_sector_read[OF rd less.prems(2) c2s(2)] obtain fs1 where fs1: "fat12_read_sector rs (cs ! q + 31) fs = (0, fs1)"
      "bt_sbuff fs1 = sector_of g (cs ! q + 31)" "sbuff_ok g fs1" "fat_table fs1 = fat_table fs" "bt_size fs1 = bt_size fs" by blast
    define part where "part = take chunk (drop pos (bt_sbuff fs1))"
    have part: "part = map (\<lambda>i. g (file_pos cs i)) [offs ..< offs + chunk]"
    proof (rule nth_equalityI)
      show "length part = length (map (\<lambda>i. g (file_pos cs i)) [offs ..< offs + chunk])" using ck by (simp add: part_def fs1(2) sector_of_def)
      fix i assume "i < length part"
      then have i: "i < chunk" using ck by (simp add: part_def fs1(2) sector_of_def)
      have "(offs + i) div FAT12_SECTOR_SIZE = q" "(offs + i) mod FAT12_SECTOR_SIZE = pos + i"
        using pos(2) ck(3) i unfolding FAT12_SECTOR_SIZE_def by (simp_all add: add.assoc)
      then show "part ! i = map (\<lambda>i. g (file_pos cs i)) [offs ..< offs + chunk] ! i"
        using i ck by (simp add: part_def fs1(2) sector_of_def file_pos_def add.assoc)
    qed
    have "fat12_read_loop rs want offs acc fl fs = fat12_read_loop rs (want - chunk) (offs + chunk) (acc @ part) file1 fs1"
      using False sk fs1(1,2) ck(3) c2s(1)
      by (subst fat12_read_loop.simps) (simp add: file1_def pos_def[symmetric] chunk_def[symmetric] part_def sector_of_def Let_def)
    moreover have "same_table fs1 st" using less.prems(1) fs1(4,5) same_table_cong by blast
    moreover have "recent_ok cs file1" using less.prems(3) q by (simp add: file1_def recent_ok_def q_def)
    moreover have "offs + chunk + (want - chunk) \<le> FAT12_SECTOR_SIZE * length cs" using less.prems(4) ck(2) by simp
    moreover have "want - chunk < want" using ck(1) False by simp
    ultimately obtain file' fs' where "fat12_read_loop rs want offs acc fl fs = Some (int (length (acc @ part) + (want - chunk)),
        (acc @ part) @ map (\<lambda>i. g (file_pos cs i)) [offs + chunk ..< offs + chunk + (want - chunk)], file', fs')" "recent_ok cs file'"
      "bf_dentry file' = bf_dentry fl" "same_table fs' st" "sbuff_ok g fs'" using less.IH[of "want - chunk" fs1 file1 "offs + chunk" "acc @ part"] fs1(3) by (auto simp: file1_def)
    moreover have "[offs ..< offs + chunk] @ [offs + chunk ..< offs + want] = [offs ..< offs + want]"
      using ck(2) upt_add_eq_append[of offs "offs + chunk" "want - chunk"] by simp
    then have "part @ map (\<lambda>i. g (file_pos cs i)) [offs + chunk ..< offs + want] = map (\<lambda>i. g (file_pos cs i)) [offs ..< offs + want]"
      unfolding part by (metis map_append)
    ultimately show ?thesis using ck(2) part by (intro exI[of _ file'] exI[of _ fs']) (simp add: append_assoc)
  qed
qed

section \<open>Properties\<close>

text \<open>The loader and the kernel decode every entry of the table alike.\<close>

theorem boot_fat_get_like_kernel:
  assumes "same_table fs st" and "fat_wf st" and "n < CLUSTERS" and "blk_size blk = BLK_SIZE"
  shows "fat12_fat_get fs n = (let (err, c, st') = fat_fat_get blk n 0 st in Some (err, c))"
  using boot_get_ok[OF assms(1-3)] get_ok[OF assms(2-4), of 0] by simp

text \<open>C12. The loader reads a file like the kernel: over the same disk and table, \<open>fat12_file_read\<close> and \<open>fat_op_read\<close>
  return the same number and the same bytes, from wherever the last read of the loader has left its file.
\<close>

theorem boot_reads_like_kernel:
  assumes "fat_wf st" and "disk_ok io medium live glitch (bdev st)" and "chain_of st (cluster_of st x) cs"
    and "offs < f_size (files st x)" and "f_size (files st x) \<le> FAT12_SECTOR_SIZE * length cs" and "buff \<noteq> []" and "length buff < 65536"
    and "same_table fs st" and "sector_reader_ok rs (disk_img medium (bdev st))" and "sbuff_ok (disk_img medium (bdev st)) fs"
    and "fd_size (bf_dentry bf) = f_size (files st x)" and "fd_attr (bf_dentry bf) AND FAT12_ATTR_DIR = 0" and "recent_ok cs bf"
  shows "\<exists>bytes bf' fs' d. fat12_file_read rs (Some bf) (length buff) offs fs = Some (int (length bytes), bytes, Some bf', fs') \<and>
    fat_op_read (floppy_fs io) x buff offs st = Some (int (length bytes), bytes @ drop (length bytes) buff, st\<lparr>bdev := d\<rparr>) \<and> recent_ok cs bf'"
proof -
  define sz where "sz = f_size (files st x)"
  define n where "n = min (min (length buff) (sz - offs)) 32767"
  define bytes where "bytes = map (\<lambda>i. disk_img medium (bdev st) (file_pos cs i)) [offs ..< offs + n]"
  have "set cs \<subseteq> {..< CLUSTERS}" using chain_elems[OF assms(3)] by auto
  then have len: "length cs \<le> CLUSTERS" using card_mono[of "{..< CLUSTERS}" "set cs"] distinct_card[OF chain_distinct[OF assms(3)]] by simp
  then have sm: "sz < 1500000" using assms(5) by (simp add: sz_def FAT12_SECTOR_SIZE_def CLUSTERS_def)
  have w: "min (if (offs + length buff) mod 2 ^ 32 > sz then u16 (sz - offs) else length buff) 32767 = n"
  proof -
    have m: "(offs + length buff) mod 2 ^ 32 = offs + length buff" using sm assms(4,7) by (simp add: sz_def)
    show ?thesis
    proof (cases "sz < offs + length buff")
      case True
      then have "sz - offs < 65536" "min (length buff) (sz - offs) = sz - offs" using assms(4,7) by (auto simp: sz_def)
      then show ?thesis using True unfolding m by (simp add: n_def)
    next
      case False
      then have "min (length buff) (sz - offs) = length buff" using assms(4) by (simp add: sz_def)
      then show ?thesis using False unfolding m by (simp add: n_def)
    qed
  qed
  from ff.fat_read_ok[OF assms(1-7)] obtain d where k: "fat_op_read (floppy_fs io) x buff offs st = Some (int n, bytes @ drop n buff, st\<lparr>bdev := d\<rparr>)"
    unfolding Let_def sz_def[symmetric] n_def[symmetric] bytes_def[symmetric] by blast
  have "offs + n \<le> FAT12_SECTOR_SIZE * length cs" using assms(4,5) by (simp add: n_def sz_def)
  from boot_read_loop_ok[OF assms(9,1,3) _ assms(8,10,13) this, of "[]"] len obtain bf' fs' where
    l: "fat12_read_loop rs n offs [] bf fs = Some (int n, bytes, bf', fs')" "recent_ok cs bf'" by (auto simp: CLUSTERS_def bytes_def)
  have szd: "fd_size (bf_dentry bf) = sz" "\<not> sz \<le> offs" using assms(4,11) by (simp_all add: sz_def)
  have "fat12_file_read rs (Some bf) (length buff) offs fs = Some (int n, bytes, Some bf', fs')"
    unfolding fat12_file_read_def szd(1) Let_def w option.case l(1) using szd(2) assms(12) by simp
  moreover have "length bytes = n" by (simp add: bytes_def)
  ultimately show ?thesis using k l(2) by auto
qed

text \<open>\<open>fat12_mount\<close> takes the number of sectors from offset 18 of the boot sector instead of 19. For a floppy of
  2880 sectors it is 16384, so that the range check of \<open>fat12_fat_get\<close> lets through entries that are not in
  the table: entry 3072 is read outside of the array, where the kernel reports an error.
\<close>

theorem boot_mount_size:
  assumes "rs 0 (bt_media fs) = (0, b, m)" and "boot_sector_ok b" and "get16 b 19 = 2880" and "b ! 18 = 0"
    and "\<And>i m. fst (rs (Suc i) m) = 0 \<and> length (fst (snd (rs (Suc i) m))) = FAT12_SECTOR_SIZE" and "length (fat_table fs) = FAT12_FAT_SIZE * FAT12_SECTOR_SIZE"
    and "b ! 19 < 256"
  shows "\<exists>fs'. fat12_mount rs fs = (0, fs') \<and> bt_size fs' = 16384 \<and> fat12_fat_get fs' 3072 = None"
proof -
  have load: "fst (load_fat rs is g) = 0 \<and> length (fat_table (snd (load_fat rs is g))) = length (fat_table g) \<and> bt_size (snd (load_fat rs is g)) = bt_size g"
    if "\<And>i. i \<in> set is \<Longrightarrow> i * 512 + 512 \<le> length (fat_table g)" for "is" and g
    using that
  proof (induction "is" arbitrary: g)
    case (Cons i "is")
    obtain e buf m' where r: "rs (Suc i) (bt_media g) = (e, buf, m')" using prod_cases3 by blast
    then have e: "e = 0" "length buf = 512" using assms(5)[of i "bt_media g"] by (simp_all add: FAT12_SECTOR_SIZE_def)
    define t where "t = take (i * 512) (fat_table g) @ buf @ drop (i * 512 + 512) (fat_table g)"
    have t: "length t = length (fat_table g)" using Cons.prems[of i] e(2) by (simp add: t_def)
    have "load_fat rs (i # is) g = load_fat rs is (g\<lparr>fat_table := t, bt_media := m'\<rparr>)"
      using r e by (simp add: FAT12_SECTOR_SIZE_def t_def)
    moreover have "j * 512 + 512 \<le> length (fat_table (g\<lparr>fat_table := t, bt_media := m'\<rparr>))" if j: "j \<in> set is" for j
      using Cons.prems[of j] j t by simp
    note Cons.IH[OF this]
    ultimately show ?case using t by simp
  qed simp
  have b: "b ! 19 = 64" "get16 b 18 = 16384"
  proof -
    have "b ! 19 + 256 * b ! 20 = 2880" using assms(3) by (simp add: get16_def)
    then show "b ! 19 = 64" using assms(7) by presburger
    then show "get16 b 18 = 16384" using assms(4) by (simp add: get16_def)
  qed
  define g where "g = fs\<lparr>bt_sbuff := b, bt_media := m, bt_sno := 0, bt_size := 16384\<rparr>"
  have mt: "fat12_mount rs fs = load_fat rs [0 ..< FAT12_FAT_SIZE] g"
    using assms(1,2) b(2) unfolding fat12_mount_def by (simp add: g_def boot_sector_ok_def del: upt.simps)
  have "i * 512 + 512 \<le> length (fat_table g)" if "i \<in> set [0 ..< FAT12_FAT_SIZE]" for i
    using that assms(6) by (simp add: g_def fat_consts)
  from load[of "[0 ..< FAT12_FAT_SIZE]" g, OF this] obtain fs' where fs': "load_fat rs [0 ..< FAT12_FAT_SIZE] g = (0, fs')" "length (fat_table fs') = 4608" "bt_size fs' = 16384"
    using assms(6) by (cases "load_fat rs [0 ..< FAT12_FAT_SIZE] g") (auto simp: g_def fat_consts)
  have "fat12_fat_get fs' 3072 = None"
    using fs'(2,3) by (simp add: fat12_fat_get_def CLUSTER2SECTOR_def table_at_def u16_def fat_consts)
  then show ?thesis using mt fs' by simp
qed

section \<open>Small instances\<close>

text \<open>The disk and the table of the file system \<open>demo_fs\<close>, with the file of 700 bytes in the clusters 2 and 3.\<close>

definition demo_boot :: "unit fat12_fs" where
  "demo_boot = \<lparr>fat_table = map (fat_byte (demo_fs (\<lambda>x. x mod 256))) [0 ..< FAT12_FAT_SIZE * FAT12_SECTOR_SIZE], bt_sbuff = [], bt_sno = 65535,
     bt_size = 2880, bt_media = ()\<rparr>"

definition demo_boot_file :: fat12_file where
  "demo_boot_file = \<lparr>bf_dentry = \<lparr>fd_fname = [], fd_extension = [], fd_attr = 0, fd_res0 = 0, fd_ctime = 0, fd_cdate = 0, fd_adate = 0, fd_res1 = 0,
     fd_mtime = 0, fd_mdate = 0, fd_cluster = 2, fd_size = 700\<rparr>, recent_cluster = 2, recent_offs = 0, dentry_sector = 0, dentry_offs = 0\<rparr>"

definition demo_rs :: "(nat \<Rightarrow> nat) \<Rightarrow> unit sector_reader" where
  "demo_rs g = (\<lambda>n m. (0, sector_of g n, m))"

lemma demo_boot_ok: "same_table demo_boot (demo_fs (\<lambda>x. x mod 256))" "sbuff_ok g demo_boot" "sector_reader_ok (demo_rs g) g"
  "recent_ok [2, 3] demo_boot_file"
  by (simp_all add: same_table_def demo_boot_def sbuff_ok_def sector_reader_ok_def demo_rs_def recent_ok_def demo_boot_file_def FAT12_SECTOR_SIZE_def)

lemma floppy_size: "blk_size (floppy_fs io) = BLK_SIZE"
  by (simp add: blk_floppy_def)

theorem boot_fat_get_like_kernel_witness: "fat12_fat_get demo_boot 2 = Some (0, 3)"
proof -
  have "fat_fat_get (floppy_fs chip_io) 2 0 (demo_fs (\<lambda>x. x mod 256)) = (0, 3, demo_fs (\<lambda>x. x mod 256))"
    using get_ok[of "demo_fs (\<lambda>x. x mod 256)" 2 "floppy_fs chip_io" 0] by (simp add: CLUSTERS_def norm_def fat_consts floppy_size)
  then show ?thesis
    using boot_fat_get_like_kernel[OF demo_boot_ok(1), of 2 "floppy_fs chip_io"] by (simp add: CLUSTERS_def floppy_size)
qed

theorem boot_reads_like_kernel_witness:
  "\<exists>bytes bf' fs' d. fat12_file_read (demo_rs (disk_img platter (disk_of (\<lambda>x. x mod 256)))) (Some demo_boot_file) (length [9, 9, 9, 9 :: nat]) 698 demo_boot =
      Some (int (length bytes), bytes, Some bf', fs') \<and>
    fat_op_read (floppy_fs chip_io) 1 [9, 9, 9, 9] 698 (demo_fs (\<lambda>x. x mod 256)) =
      Some (int (length bytes), bytes @ drop (length bytes) [9, 9, 9, 9], (demo_fs (\<lambda>x. x mod 256))\<lparr>bdev := d\<rparr>)"
proof -
  let ?g = "disk_img platter (disk_of (\<lambda>x. x mod 256))"
  have f: "fd_size (bf_dentry demo_boot_file) = 700" "fd_attr (bf_dentry demo_boot_file) AND FAT12_ATTR_DIR = 0"
    by (simp_all add: demo_boot_file_def)
  have d: "disk_ok chip_io platter chip_live bad (bdev (demo_fs (\<lambda>x. x mod 256)))" by simp
  show ?thesis
    using boot_reads_like_kernel[OF demo_fs(1) d demo_chain, of 698 "[9, 9, 9, 9]" demo_boot "demo_rs ?g" demo_boot_file]
      demo_boot_ok(1,2,4) demo_boot_ok(3)[of ?g] f
    by (simp add: FAT12_SECTOR_SIZE_def) blast
qed

text \<open>The boot sector of a floppy of 2880 sectors\<close>

definition demo_bpb :: "nat list" where
  "demo_bpb = (replicate 512 0)[12 := 2, 13 := 1, 14 := 1, 16 := 2, 17 := 224, 19 := 64, 20 := 11, 22 := 9, 24 := 18, 26 := 2]"

theorem boot_mount_size_witness:
  "\<exists>fs'. fat12_mount (\<lambda>n m. (0, if n = 0 then demo_bpb else replicate 512 0, m)) demo_boot = (0, fs') \<and> bt_size fs' = 16384"
proof -
  have b: "boot_sector_ok demo_bpb" "get16 demo_bpb 19 = 2880" "demo_bpb ! 18 = 0" "demo_bpb ! 19 < 256"
    by (simp_all add: boot_sector_ok_def demo_bpb_def get16_def FAT12_SECTOR_SIZE_def)
  have "length (fat_table demo_boot) = FAT12_FAT_SIZE * FAT12_SECTOR_SIZE" by (simp add: demo_boot_def)
  from boot_mount_size[of "\<lambda>n m. (0, if n = 0 then demo_bpb else replicate 512 0, m)" demo_boot demo_bpb "()", OF _ b(1-3) _ this b(4)]
  show ?thesis by (auto simp: FAT12_SECTOR_SIZE_def)
qed

end
