(* ===== verification/Mmu.thy ===== *)
theory Mmu
  imports ZPrelude
begin

text \<open>
  The memory of the machine: \<open>driver/mmu.c\<close> over the registers CBAR, CBR and BBR of the Z180, and the
  transfer that \<open>_dma_memcpy\<close> of \<open>driver/dma.c\<close> programs. The bus has 20 address bits; \<open>phys\<close> is its
  memory. The registers hold 8 bits; the pages are 4 KB.
\<close>

unbundle bit_operations_syntax

section \<open>Mapping\<close>

record mmu_regs =
  CBAR :: nat
  CBR :: nat
  BBR :: nat

text \<open>\<open>mmu_map_scratch\<close>: the page that was mapped before (\<open>*old\<close>), the address of the window, the registers.\<close>

definition map_scratch_regs :: "nat \<Rightarrow> mmu_regs \<Rightarrow> nat \<times> nat \<times> mmu_regs" where
  "map_scratch_regs page r =
     (let base = CBAR r AND 15
      in (u8 (BBR r + base), base * 4096 mod 65536, r\<lparr>BBR := sub8 page base\<rparr>))"

definition mmu_map_user :: "nat \<Rightarrow> mmu_regs \<Rightarrow> mmu_regs" where
  "mmu_map_user page r = r\<lparr>BBR := sub8 page 1\<rparr>"

definition mmu_get_page :: "nat \<Rightarrow> mmu_regs \<Rightarrow> nat" where
  "mmu_get_page vaddr r =
     (let vpage = vaddr mod 65536 div 4096;
          base = CBAR r;
          ppage = (if vpage \<ge> base div 16 then CBR r
                   else if vpage \<ge> base AND 15 then BBR r
                   else 0)
      in u8 (ppage + vpage))"

text \<open>The address on the bus of a virtual address: the page the registers select, and the offset.\<close>

definition bus :: "nat \<Rightarrow> mmu_regs \<Rightarrow> nat" where
  "bus vaddr r = mmu_get_page vaddr r * 4096 + vaddr mod 4096"

text \<open>The layout of the kernel: the window is page 14, the stack page 15, everything below is common area 0.\<close>

definition kernel_layout :: "mmu_regs \<Rightarrow> bool" where
  "kernel_layout r \<longleftrightarrow> CBAR r = 254 \<and> BBR r < 256 \<and> CBR r < 256"

section \<open>The transfer\<close>

text \<open>The six address registers and the two length registers \<open>_dma_memcpy\<close> writes.\<close>

record dma_regs =
  SAR :: "nat \<times> nat \<times> nat"
  DAR :: "nat \<times> nat \<times> nat"
  BCR :: "nat \<times> nat"

definition dma_regs_of :: "nat \<Rightarrow> nat \<Rightarrow> nat \<Rightarrow> nat \<Rightarrow> nat \<Rightarrow> dma_regs" where
  "dma_regs_of dpage doffs spage soffs len =
     \<lparr>SAR = (u8 soffs, u8 (spage * 16 + soffs div 256), spage div 16),
      DAR = (u8 doffs, u8 (dpage * 16 + doffs div 256), dpage div 16),
      BCR = (u8 len, u8 (len div 256))\<rparr>"

definition addr20 :: "nat \<times> nat \<times> nat \<Rightarrow> nat" where
  "addr20 a = (case a of (l, h, b) \<Rightarrow> l + 256 * h + 65536 * (b mod 16))"

text \<open>Mode 2: both addresses count up, one byte at a time, until the length is used up.\<close>

fun dma_burst :: "nat \<Rightarrow> nat \<Rightarrow> nat \<Rightarrow> (nat \<Rightarrow> 'b) \<Rightarrow> (nat \<Rightarrow> 'b)" where
  "dma_burst 0 src dst phys = phys"
| "dma_burst (Suc n) src dst phys = dma_burst n (src + 1) (dst + 1) (phys(dst := phys src))"

definition dma_memcpy_raw :: "nat \<Rightarrow> nat \<Rightarrow> nat \<Rightarrow> nat \<Rightarrow> nat \<Rightarrow> (nat \<Rightarrow> 'b) \<Rightarrow> (nat \<Rightarrow> 'b)" where
  "dma_memcpy_raw dpage doffs spage soffs len phys =
     (let r = dma_regs_of dpage doffs spage soffs len
      in dma_burst (fst (BCR r) + 256 * snd (BCR r)) (addr20 (SAR r)) (addr20 (DAR r)) phys)"

section \<open>Lemmas\<close>

lemma and_mask_15: "(x :: nat) AND 15 = x mod 16"
proof -
  have "x AND 15 = take_bit 4 x" by (simp add: take_bit_eq_mask mask_eq_exp_minus_1)
  then show ?thesis by (simp add: take_bit_eq_mod)
qed

lemma page_offset: "offs < 4096 \<Longrightarrow> (p * 4096 + offs) div 4096 = p" "offs < 4096 \<Longrightarrow> (p * 4096 + offs) mod 4096 = (offs :: nat)"
  by (simp_all add: div_mult_self3 add.commute)

lemma map_scratch_kernel:
  assumes "kernel_layout r" and "page < 256"
  shows "map_scratch_regs page r = ((BBR r + 14) mod 256, 57344, r\<lparr>BBR := (page mod 256 + 242) mod 256\<rparr>)"
  using assms by (simp add: add.commute[of page] map_scratch_regs_def kernel_layout_def and_mask_15 Let_def u8_def sub8_def)

lemma bus_window:
  assumes "CBAR r = 254" and "offs < 4096"
  shows "bus (57344 + offs) r = u8 (BBR r + 14) * 4096 + offs"
proof -
  have d: "(57344 + offs) div 4096 = 14" "(57344 + offs) mod 4096 = offs" using page_offset[OF assms(2), of 14] by simp_all
  have "57344 + offs < 65536" using assms(2) by simp
  then have "(57344 + offs) mod 65536 = 57344 + offs" by (rule mod_less)
  then show ?thesis unfolding bus_def mmu_get_page_def assms(1) d by (simp add: d and_mask_15)
qed

lemma scratch_window:
  assumes "kernel_layout r" and "page < 256" and "offs < 4096"
  shows "case map_scratch_regs page r of (old, w, r') \<Rightarrow> w = 57344 \<and> kernel_layout r' \<and> bus (w + offs) r' = page * 4096 + offs"
proof -
  have e: "u8 ((page + 242) mod 256 + 14) = page" using assms(2) by (simp add: u8_def mod_simps)
  show ?thesis using assms(1,2) bus_window[OF _ assms(3), of "r\<lparr>BBR := (page + 242) mod 256\<rparr>"] e
    unfolding map_scratch_kernel[OF assms(1,2)] by (simp add: kernel_layout_def)
qed

text \<open>Below the window the kernel's addresses are the addresses on the bus, whatever the window shows.\<close>

lemma bus_low:
  assumes "kernel_layout r" and "v < 57344"
  shows "bus v r = v" and "mmu_get_page v r = v div 4096"
proof -
  have d: "v div 4096 < 14" using assms(2) by (simp add: div_less_iff_less_mult)
  show g: "mmu_get_page v r = v div 4096" using assms d by (simp add: mmu_get_page_def kernel_layout_def Let_def and_mask_15)
  show "bus v r = v" unfolding bus_def g by simp
qed

lemma dma_burst_apply:
  assumes "src + n \<le> dst \<or> dst + n \<le> src"
  shows "dma_burst n src dst phys a = (if dst \<le> a \<and> a < dst + n then phys (src + (a - dst)) else phys a)"
  using assms
proof (induction n src dst phys rule: dma_burst.induct)
  case (2 n src dst phys)
  have "src + 1 + n \<le> dst + 1 \<or> dst + 1 + n \<le> src + 1" using 2(2) by auto
  note ih = 2(1)[OF this]
  show ?case
  proof (cases "dst + 1 \<le> a \<and> a < dst + 1 + n")
    case True
    then have "src + 1 + (a - (dst + 1)) \<noteq> dst" "src + 1 + (a - (dst + 1)) = src + (a - dst)" using 2(2) by auto
    then show ?thesis using True unfolding dma_burst.simps ih by auto
  next
    case False
    then show ?thesis unfolding dma_burst.simps ih by (cases "a = dst") auto
  qed
qed auto

lemma addr20_regs:
  assumes "page < 256" and "page mod 16 * 4096 + offs < 65536"
  shows "addr20 (u8 offs, u8 (page * 16 + offs div 256), page div 16) = page * 4096 + offs"
proof -
  define q where "q = page div 16"
  define b where "b = page mod 16"
  define h where "h = offs div 256"
  have p: "page = 16 * q + b" by (simp add: q_def b_def)
  have "h * 256 \<le> offs" by (simp add: h_def)
  then have "16 * b + h < 256" using assms(2) by (simp add: b_def)
  then have "(16 * b + h + q * 256) mod 256 = 16 * b + h" unfolding mod_mult_self1 by simp
  moreover have "page * 16 + h = 16 * b + h + q * 256" using p by simp
  ultimately have u: "u8 (page * 16 + h) = 16 * b + h" unfolding u8_def by metis
  have "q < 16" using assms(1) p by simp
  moreover have "offs = 256 * h + u8 offs" by (simp add: h_def u8_def)
  ultimately show ?thesis unfolding addr20_def prod.case h_def[symmetric] q_def[symmetric] u using p by simp
qed

lemma map_scratch_undo:
  assumes "kernel_layout r" and "page < 256" and "map_scratch_regs page r = (old, w, r')"
  shows "old < 256" and "map_scratch_regs old r' = (page, w, r)"
proof -
  have r': "old = (BBR r + 14) mod 256" "w = 57344" "r' = r\<lparr>BBR := (page + 242) mod 256\<rparr>"
    using assms(3) map_scratch_kernel[OF assms(1,2)] assms(2) by simp_all
  then show "old < 256" by simp
  moreover have "kernel_layout r'" using assms(1) by (simp add: r' kernel_layout_def)
  ultimately have "map_scratch_regs old r' = ((BBR r' + 14) mod 256, 57344, r'\<lparr>BBR := (old mod 256 + 242) mod 256\<rparr>)"
    using map_scratch_kernel by blast
  moreover have "((page + 242) mod 256 + 14) mod 256 = page" "(old mod 256 + 242) mod 256 = BBR r"
    using assms(1,2) by (simp_all add: r'(1) kernel_layout_def mod_simps)
  ultimately show "map_scratch_regs old r' = (page, w, r)" by (simp add: r'(2,3))
qed

text \<open>C20. With the layout of the kernel \<open>mmu_map_scratch\<close> shows exactly the page asked for in the
  window at 0xE000 and returns the page that was there; mapping that one again undoes it. Addresses below
  the window are not affected.
\<close>

theorem mmu_scratch_window:
  assumes "kernel_layout r" and "page < 256" and "map_scratch_regs page r = (old, w, r')"
  shows "w = 57344 \<and> kernel_layout r' \<and> (\<forall>offs < 4096. bus (w + offs) r' = page * 4096 + offs \<and> bus (w + offs) r = old * 4096 + offs) \<and>
    (\<forall>v < 57344. bus v r' = bus v r) \<and> map_scratch_regs old r' = (page, w, r)"
proof -
  have r': "w = 57344" "r' = r\<lparr>BBR := (page + 242) mod 256\<rparr>"
    using assms(3) map_scratch_kernel[OF assms(1,2)] assms(2) by simp_all
  have w: "w = 57344 \<and> kernel_layout r'" using assms(1) by (simp add: r' kernel_layout_def)
  have undo: "old < 256" "map_scratch_regs old r' = (page, w, r)" by (rule map_scratch_undo[OF assms])+
  have "bus (w + offs) r' = page * 4096 + offs \<and> bus (w + offs) r = old * 4096 + offs" if "offs < 4096" for offs
    using scratch_window[OF assms(1,2) that] scratch_window[OF conjunct2[OF w] undo(1) that] unfolding assms(3) undo(2) prod.case by blast
  then show ?thesis using w undo bus_low(1)[OF assms(1)] bus_low(1)[OF conjunct2[OF w]] by simp
qed

theorem mmu_scratch_window_witness: "bus 57351 \<lparr>CBAR = 254, CBR = 0, BBR = 26\<rparr> = 163847"
proof -
  have "\<forall>offs < 4096. bus (57344 + offs) \<lparr>CBAR = 254, CBR = 0, BBR = 26\<rparr> = 163840 + offs"
    using mmu_scratch_window[of "\<lparr>CBAR = 254, CBR = 0, BBR = 2\<rparr>" 40 16 57344 "\<lparr>CBAR = 254, CBR = 0, BBR = 26\<rparr>"]
    by (simp add: kernel_layout_def map_scratch_regs_def and_mask_15 sub8_def u8_def)
  from spec[OF this, of 7] show ?thesis by simp
qed

end
