(* ===== verification/BootLoad.thy ===== *)
theory BootLoad
  imports BootFat Mmu
begin

text \<open>
  The loop of \<open>bootloader/main.c\<close> that brings the kernel into memory: \<open>fat12_file_read\<close> into the window at
  0x6000, 8 KB at a time, with the window moved on by two pages. Everything around it (initialising the drive,
  mounting, opening the file, printing, waiting for a key and starting over after an error, the jump to
  address 0) is not in this theory. Memory is that of the bus, as in \<open>Mmu\<close>.
\<close>

definition SCRATCH_SIZE :: nat where "SCRATCH_SIZE = 8 * 1024"

record 'm loader =
  ld_fs :: "'m fat12_fs"
  ld_file :: fat12_file
  ld_regs :: mmu_regs
  ld_mem :: "nat \<Rightarrow> nat"

text \<open>Storing bytes through the mapping, from a virtual address on.\<close>

fun store_bytes :: "nat \<Rightarrow> nat list \<Rightarrow> mmu_regs \<Rightarrow> (nat \<Rightarrow> nat) \<Rightarrow> (nat \<Rightarrow> nat)" where
  "store_bytes v [] r mem = mem"
| "store_bytes v (b # bs) r mem = store_bytes (v + 1) bs r (mem(bus v r := b))"

text \<open>\<open>while (left)\<close>: the code of a failed read, or whether the file has ended and the new offset.\<close>

partial_function (option) fill_window :: "'m sector_reader \<Rightarrow> nat \<Rightarrow> nat \<Rightarrow> nat \<Rightarrow> nat \<Rightarrow> 'm loader \<Rightarrow> ((int + bool \<times> nat) \<times> 'm loader) option" where
  "fill_window rs dest left pos offs st =
     (if left = 0 then Some (Inr (False, offs), st)
      else do {
        (got, bs, f, fs) \<leftarrow> fat12_file_read rs (Some (ld_file st)) SCRATCH_SIZE offs (ld_fs st);
        f1 \<leftarrow> f;
        let st1 = st\<lparr>ld_file := f1, ld_fs := fs, ld_mem := store_bytes (dest + pos) bs (ld_regs st) (ld_mem st)\<rparr>;
        (if got < 0 then Some (Inl got, st1)
         else if got = 0 then Some (Inr (True, offs), st1)
         else fill_window rs dest (sub16 left (nat got)) (u16 (pos + nat got)) (offs + nat got) st1) })"

text \<open>\<open>do ... while (!done)\<close>: the code of a failed read, or the number of bytes loaded.\<close>

partial_function (option) load_image :: "'m sector_reader \<Rightarrow> nat \<Rightarrow> nat \<Rightarrow> 'm loader \<Rightarrow> ((int + nat) \<times> 'm loader) option" where
  "load_image rs page offs st = do {
     let (_, dest, r) = map_scratch_regs page (ld_regs st);
     (res, st1) \<leftarrow> fill_window rs dest SCRATCH_SIZE 0 offs (st\<lparr>ld_regs := r\<rparr>);
     (case res of
        Inl err \<Rightarrow> Some (Inl err, st1)
      | Inr (fin, offs1) \<Rightarrow> (if fin then Some (Inr offs1, st1) else load_image rs (u8 (page + SCRATCH_SIZE div 4096)) offs1 st1)) }"

declare fill_window.simps [code] load_image.simps [code]

section \<open>The window\<close>

text \<open>The layout \<open>crt0.s\<close> of the loader sets up: the window is the pages 6 and 7, the loader itself is above.\<close>

definition boot_layout :: "mmu_regs \<Rightarrow> bool" where
  "boot_layout r \<longleftrightarrow> CBAR r = 134"

lemma boot_map:
  assumes "boot_layout r"
  shows "map_scratch_regs page r = (u8 (BBR r + 6), 24576, r\<lparr>BBR := sub8 page 6\<rparr>)"
  using assms by (simp add: map_scratch_regs_def boot_layout_def and_mask_15)

lemma boot_window:
  assumes "CBAR r = 134" and "BBR r = sub8 page 6" and "page + 2 \<le> 256" and "k < 8192"
  shows "bus (24576 + k) r = page * 4096 + k"
proof -
  define j where "j = k div 4096"
  define o' where "o' = k mod 4096"
  have k: "k = j * 4096 + o'" "o' < 4096" "j < 2" using assms(4) by (simp_all add: j_def o'_def div_less_iff_less_mult)
  have v: "24576 + k = (6 + j) * 4096 + o'" using k(1) by simp
  have d: "(24576 + k) div 4096 = 6 + j" "(24576 + k) mod 4096 = o'" unfolding v using page_offset[OF k(2)] by blast+
  have m: "(24576 + k) mod 65536 = 24576 + k" using assms(4) by (intro mod_less) simp
  have u: "u8 (sub8 page 6 + (6 + j)) = page + j"
  proof -
    have "u8 (sub8 page 6 + (6 + j)) = (page + 250 + (6 + j)) mod 256" by (simp add: u8_def sub8_def mod_simps)
    also have "page + 250 + (6 + j) = page + j + 256" by simp
    also have "(page + j + 256) mod 256 = page + j" using assms(3) k(3) by simp
    finally show ?thesis .
  qed
  have "mmu_get_page (24576 + k) r = page + j"
    unfolding mmu_get_page_def m d assms(1,2) using k(3) u by (simp add: and_mask_15)
  then show ?thesis unfolding bus_def d using k(1) by simp
qed

lemma store_bytes_window:
  assumes "CBAR r = 134" and "BBR r = sub8 page 6" and "page + 2 \<le> 256" and "k + length bs \<le> 8192"
  shows "store_bytes (24576 + k) bs r mem = (\<lambda>a. if page * 4096 + k \<le> a \<and> a < page * 4096 + k + length bs then bs ! (a - (page * 4096 + k)) else mem a)"
  using assms(4)
proof (induction bs arbitrary: k mem)
  case (Cons b bs)
  have "bus (24576 + k) r = page * 4096 + k" by (rule boot_window[OF assms(1-3)]) (use Cons.prems in simp)
  moreover have "store_bytes (24576 + (k + 1)) bs r mem' = (\<lambda>a. if page * 4096 + (k + 1) \<le> a \<and> a < page * 4096 + (k + 1) + length bs
      then bs ! (a - (page * 4096 + (k + 1))) else mem' a)" for mem'
    by (rule Cons.IH) (use Cons.prems in simp)
  ultimately show ?case by (auto simp: fun_eq_iff nth_Cons split: nat.splits) (rule arg_cong[where f = "(!) bs"], arith)
qed (simp add: fun_eq_iff)

section \<open>One read\<close>

definition load_ok :: "'m sector_reader \<Rightarrow> (nat \<Rightarrow> nat) \<Rightarrow> 'd fat_st \<Rightarrow> nat list \<Rightarrow> nat \<Rightarrow> 'm fat12_fs \<Rightarrow> fat12_file \<Rightarrow> bool" where
  "load_ok rs g st cs sz fs fl \<longleftrightarrow> fat_wf st \<and> (\<exists>c. chain_of st c cs) \<and> same_table fs st \<and> sector_reader_ok rs g \<and> sbuff_ok g fs \<and> recent_ok cs fl \<and>
     fd_size (bf_dentry fl) = sz \<and> sz \<le> FAT12_SECTOR_SIZE * length cs \<and> fd_attr (bf_dentry fl) AND FAT12_ATTR_DIR = 0"

lemma load_read_ok:
  assumes ok: "load_ok rs g st cs sz fs fl" and offs: "offs \<le> sz" and n: "n = min SCRATCH_SIZE (sz - offs)"
  shows "\<exists>fl' fs'. fat12_file_read rs (Some fl) SCRATCH_SIZE offs fs = Some (int n, map (\<lambda>i. g (file_pos cs i)) [offs ..< offs + n], Some fl', fs') \<and>
    load_ok rs g st cs sz fs' fl'"
proof -
  obtain c where wf: "fat_wf st" and ch: "chain_of st c cs" and rest: "same_table fs st" "sector_reader_ok rs g" "sbuff_ok g fs" "recent_ok cs fl"
    "fd_size (bf_dentry fl) = sz" "sz \<le> FAT12_SECTOR_SIZE * length cs" "fd_attr (bf_dentry fl) AND FAT12_ATTR_DIR = 0"
    using ok unfolding load_ok_def by blast
  show ?thesis
  proof (cases "offs = sz")
    case True
    then show ?thesis using rest(5,7) ok n by (intro exI[of _ fl] exI[of _ fs]) (simp add: fat12_file_read_def)
  next
    case False
    have "set cs \<subseteq> {..< CLUSTERS}" using chain_elems[OF ch] by auto
    then have len: "length cs \<le> CLUSTERS" using card_mono[of "{..< CLUSTERS}" "set cs"] distinct_card[OF chain_distinct[OF ch]] by simp
    then have sm: "sz < 1500000" using rest(6) by (simp add: FAT12_SECTOR_SIZE_def CLUSTERS_def)
    have w: "min (if (offs + SCRATCH_SIZE) mod 2 ^ 32 > sz then u16 (sz - offs) else SCRATCH_SIZE) 32767 = n"
    proof -
      have "(offs + SCRATCH_SIZE) mod 2 ^ 32 = offs + SCRATCH_SIZE" using sm offs by (simp add: SCRATCH_SIZE_def)
      then show ?thesis using offs by (cases "sz < offs + SCRATCH_SIZE") (auto simp: n SCRATCH_SIZE_def)
    qed
    have "offs + n \<le> FAT12_SECTOR_SIZE * length cs" using rest(6) offs by (simp add: n)
    from boot_read_loop_ok[OF rest(2) wf ch _ rest(1,3,4) this, of "[]"] len obtain fl' fs' where
      l: "fat12_read_loop rs n offs [] fl fs = Some (int n, map (\<lambda>i. g (file_pos cs i)) [offs ..< offs + n], fl', fs')" "recent_ok cs fl'"
        "bf_dentry fl' = bf_dentry fl" "same_table fs' st" "sbuff_ok g fs'" by (auto simp: CLUSTERS_def)
    have "fat12_file_read rs (Some fl) SCRATCH_SIZE offs fs = Some (int n, map (\<lambda>i. g (file_pos cs i)) [offs ..< offs + n], Some fl', fs')"
      unfolding fat12_file_read_def rest(5) Let_def w option.case l(1) using offs False rest(7) by simp
    moreover have "load_ok rs g st cs sz fs' fl'" using wf ch rest l by (auto simp: load_ok_def)
    ultimately show ?thesis by blast
  qed
qed

section \<open>The loops\<close>

text \<open>Memory with the first \<open>n\<close> bytes of the file at address 0.\<close>

definition loaded :: "(nat \<Rightarrow> nat) \<Rightarrow> nat list \<Rightarrow> nat \<Rightarrow> (nat \<Rightarrow> nat) \<Rightarrow> (nat \<Rightarrow> nat)" where
  "loaded g cs n mem = (\<lambda>a. if a < n then g (file_pos cs a) else mem a)"

lemma store_loaded:
  assumes "CBAR r = 134" and "BBR r = sub8 page 6" and "page + 2 \<le> 256" and "n \<le> 8192" and "offs = page * 4096"
  shows "store_bytes 24576 (map (\<lambda>i. g (file_pos cs i)) [offs ..< offs + n]) r (loaded g cs offs mem) = loaded g cs (offs + n) mem"
proof -
  have "store_bytes (24576 + 0) (map (\<lambda>i. g (file_pos cs i)) [offs ..< offs + n]) r (loaded g cs offs mem) =
    (\<lambda>a. if page * 4096 + 0 \<le> a \<and> a < page * 4096 + 0 + n then map (\<lambda>i. g (file_pos cs i)) [offs ..< offs + n] ! (a - (page * 4096 + 0)) else loaded g cs offs mem a)"
    using store_bytes_window[OF assms(1-3), of 0 "map (\<lambda>i. g (file_pos cs i)) [offs ..< offs + n]"] assms(4) by simp
  also have "\<dots> = loaded g cs (offs + n) mem" unfolding fun_eq_iff
    by (auto simp: loaded_def assms(5))
  finally show ?thesis by simp
qed

lemma fill_window_ok:
  assumes ok: "load_ok rs g st cs sz (ld_fs ld) (ld_file ld)" and r: "CBAR (ld_regs ld) = 134" "BBR (ld_regs ld) = sub8 page 6" and p: "page + 2 \<le> 256"
    and offs: "offs = page * 4096" "offs \<le> sz" and mem: "ld_mem ld = loaded g cs offs mem"
  shows "\<exists>ld'. fill_window rs 24576 SCRATCH_SIZE 0 offs ld = Some (Inr (sz < offs + SCRATCH_SIZE, min sz (offs + SCRATCH_SIZE)), ld') \<and>
    load_ok rs g st cs sz (ld_fs ld') (ld_file ld') \<and> ld_regs ld' = ld_regs ld \<and> ld_mem ld' = loaded g cs (min sz (offs + SCRATCH_SIZE)) mem"
proof -
  define n where "n = min SCRATCH_SIZE (sz - offs)"
  from load_read_ok[OF ok offs(2) n_def] obtain fl1 fs1 where
    r1: "fat12_file_read rs (Some (ld_file ld)) SCRATCH_SIZE offs (ld_fs ld) = Some (int n, map (\<lambda>i. g (file_pos cs i)) [offs ..< offs + n], Some fl1, fs1)"
    and ok1: "load_ok rs g st cs sz fs1 fl1" by blast
  define ld1 where "ld1 = ld\<lparr>ld_file := fl1, ld_fs := fs1, ld_mem := loaded g cs (offs + n) mem\<rparr>"
  have n: "n \<le> 8192" by (simp add: n_def SCRATCH_SIZE_def)
  note st = store_loaded[OF r p n offs(1), of g cs mem]
  have step: "fill_window rs 24576 SCRATCH_SIZE 0 offs ld = (if n = 0 then Some (Inr (True, offs), ld1)
      else fill_window rs 24576 (SCRATCH_SIZE - n) n (offs + n) ld1)"
    using n r1 st by (subst fill_window.simps) (simp add: mem ld1_def SCRATCH_SIZE_def)
  consider (full) "n = SCRATCH_SIZE" "offs + SCRATCH_SIZE \<le> sz" | (fin) "n = 0" "offs = sz" | (short) "0 < n" "n < SCRATCH_SIZE" "offs + n = sz"
  proof -
    have a: "offs + SCRATCH_SIZE \<le> sz \<Longrightarrow> n = SCRATCH_SIZE" "offs = sz \<Longrightarrow> n = 0" "offs < sz \<Longrightarrow> sz < offs + SCRATCH_SIZE \<Longrightarrow> n = sz - offs"
      by (simp_all add: n_def)
    show thesis
    proof (cases "offs + SCRATCH_SIZE \<le> sz")
      case True
      then show thesis using a(1) full by blast
    next
      case False
      then show thesis using a(2,3) offs(2) fin short by (cases "offs = sz") auto
    qed
  qed
  then show ?thesis
  proof cases
    case full
    have "fill_window rs 24576 0 n (offs + n) ld1 = Some (Inr (False, offs + n), ld1)" by (subst fill_window.simps) simp
    then show ?thesis using full step ok1 by (intro exI[of _ ld1]) (simp add: SCRATCH_SIZE_def ld1_def)
  next
    case fin
    then show ?thesis using step ok1 by (intro exI[of _ ld1]) (simp add: SCRATCH_SIZE_def ld1_def)
  next
    case short
    from load_read_ok[OF ok1 order_refl, of 0] obtain fl2 fs2 where
      r2: "fat12_file_read rs (Some fl1) SCRATCH_SIZE sz fs1 = Some (0, [], Some fl2, fs2)" and ok2: "load_ok rs g st cs sz fs2 fl2" by auto
    define ld2 where "ld2 = ld1\<lparr>ld_file := fl2, ld_fs := fs2\<rparr>"
    have "fill_window rs 24576 (SCRATCH_SIZE - n) n (offs + n) ld1 = Some (Inr (True, sz), ld2)"
      using short r2 by (subst fill_window.simps) (simp add: ld1_def ld2_def)
    then show ?thesis using short step ok2 by (intro exI[of _ ld2]) (simp add: ld2_def ld1_def SCRATCH_SIZE_def)
  qed
qed

lemma load_image_ok:
  assumes "load_ok rs g st cs sz (ld_fs ld) (ld_file ld)" and "boot_layout (ld_regs ld)" and "sz \<le> 950272"
    and "page = 2 * k" and "page * 4096 \<le> sz" and "ld_mem ld = loaded g cs (page * 4096) mem"
  shows "\<exists>ld'. load_image rs page (page * 4096) ld = Some (Inr sz, ld') \<and> ld_mem ld' = loaded g cs sz mem"
  using assms(1,2,4-)
proof (induction "sz - page * 4096" arbitrary: page k ld rule: less_induct)
  case less
  have pg: "page + 2 \<le> 256" using less.prems(4) assms(3) by simp
  define r where "r = (ld_regs ld)\<lparr>BBR := sub8 page 6\<rparr>"
  have r: "CBAR r = 134" "BBR r = sub8 page 6" "boot_layout r" using less.prems(2) by (simp_all add: r_def boot_layout_def)
  define ld0 where "ld0 = ld\<lparr>ld_regs := r\<rparr>"
  have "\<exists>ld'. fill_window rs 24576 SCRATCH_SIZE 0 (page * 4096) ld0 = Some (Inr (sz < page * 4096 + SCRATCH_SIZE, min sz (page * 4096 + SCRATCH_SIZE)), ld') \<and>
      load_ok rs g st cs sz (ld_fs ld') (ld_file ld') \<and> ld_regs ld' = ld_regs ld0 \<and> ld_mem ld' = loaded g cs (min sz (page * 4096 + SCRATCH_SIZE)) mem"
    by (rule fill_window_ok) (use less.prems pg r in \<open>simp_all add: ld0_def\<close>)
  then obtain ld1 where ld1: "fill_window rs 24576 SCRATCH_SIZE 0 (page * 4096) ld0 = Some (Inr (sz < page * 4096 + SCRATCH_SIZE, min sz (page * 4096 + SCRATCH_SIZE)), ld1)"
    "load_ok rs g st cs sz (ld_fs ld1) (ld_file ld1)" "ld_regs ld1 = r" "ld_mem ld1 = loaded g cs (min sz (page * 4096 + SCRATCH_SIZE)) mem" by (auto simp: ld0_def)
  have run: "load_image rs page (page * 4096) ld = (if sz < page * 4096 + SCRATCH_SIZE then Some (Inr sz, ld1) else load_image rs (u8 (page + 2)) (page * 4096 + SCRATCH_SIZE) ld1)"
    using ld1(1) by (subst load_image.simps) (simp add: boot_map[OF less.prems(2)] r_def[symmetric] ld0_def[symmetric], simp add: SCRATCH_SIZE_def min_def)
  show ?case
  proof (cases "sz < page * 4096 + SCRATCH_SIZE")
    case True
    then show ?thesis using run ld1(4) by simp
  next
    case False
    define page' where "page' = page + 2"
    have p': "page' * 4096 = page * 4096 + SCRATCH_SIZE" "page' = 2 * (k + 1)" using less.prems(3) by (simp_all add: page'_def SCRATCH_SIZE_def)
    have le: "page' * 4096 \<le> sz" using False p'(1) by simp
    then have u: "u8 (page + 2) = page'" using assms(3) by (simp add: page'_def)
    have dec: "sz - page' * 4096 < sz - page * 4096" using False p'(1) by (simp add: SCRATCH_SIZE_def)
    have m: "ld_mem ld1 = loaded g cs (page' * 4096) mem" using ld1(4) le p'(1) by (simp add: min_def)
    from less.hyps[OF dec ld1(2) _ p'(2) le m] ld1(3) r(3) show ?thesis using False run u p'(1) by simp
  qed
qed

text \<open>C13. The boot loader brings the kernel into memory: over a disk and table as for \<open>boot_reads_like_kernel\<close>, and for
  a file that ends below the loader itself (0xE8000), the loop ends, has counted the size of the file, and the
  bytes of the file lie from address 0 of the bus on; no other byte has changed.
\<close>

theorem boot_loads_image:
  assumes "fat_wf st" and "chain_of st c cs" and "same_table (ld_fs ld) st" and "sector_reader_ok rs g" and "sbuff_ok g (ld_fs ld)"
    and "recent_ok cs (ld_file ld)" and "fd_size (bf_dentry (ld_file ld)) \<le> FAT12_SECTOR_SIZE * length cs"
    and "fd_attr (bf_dentry (ld_file ld)) AND FAT12_ATTR_DIR = 0" and "boot_layout (ld_regs ld)" and "fd_size (bf_dentry (ld_file ld)) \<le> 950272"
  shows "\<exists>ld'. load_image rs 0 0 ld = Some (Inr (fd_size (bf_dentry (ld_file ld))), ld') \<and>
    ld_mem ld' = (\<lambda>a. if a < fd_size (bf_dentry (ld_file ld)) then g (file_pos cs a) else ld_mem ld a)"
proof -
  have "load_ok rs g st cs (fd_size (bf_dentry (ld_file ld))) (ld_fs ld) (ld_file ld)" using assms(1-8) by (auto simp: load_ok_def)
  from load_image_ok[OF this assms(9,10), of 0 0 "ld_mem ld"] show ?thesis by (simp add: loaded_def)
qed

theorem boot_loads_image_witness:
  "\<exists>ld'. load_image (demo_rs (disk_img platter (disk_of (\<lambda>x. x mod 256)))) 0 0
      \<lparr>ld_fs = demo_boot, ld_file = demo_boot_file, ld_regs = \<lparr>CBAR = 134, CBR = 224, BBR = 248\<rparr>, ld_mem = (\<lambda>_. 0)\<rparr> = Some (Inr 700, ld') \<and>
    ld_mem ld' 700 = 0"
proof -
  have f: "fd_size (bf_dentry demo_boot_file) = 700" "fd_attr (bf_dentry demo_boot_file) AND FAT12_ATTR_DIR = 0"
    by (simp_all add: demo_boot_file_def)
  let ?g = "disk_img platter (disk_of (\<lambda>x. x mod 256))"
  let ?ld = "\<lparr>ld_fs = demo_boot, ld_file = demo_boot_file, ld_regs = \<lparr>CBAR = 134, CBR = 224, BBR = 248\<rparr>, ld_mem = (\<lambda>_. 0)\<rparr>"
  have "\<exists>ld'. load_image (demo_rs ?g) 0 0 ?ld = Some (Inr (fd_size (bf_dentry (ld_file ?ld))), ld') \<and>
    ld_mem ld' = (\<lambda>a. if a < fd_size (bf_dentry (ld_file ?ld)) then ?g (file_pos [2, 3] a) else ld_mem ?ld a)"
    by (rule boot_loads_image[OF demo_fs(1) demo_chain])
      (use demo_boot_ok(1,2,4) demo_boot_ok(3)[of ?g] f in \<open>simp_all add: boot_layout_def FAT12_SECTOR_SIZE_def\<close>)
  then show ?thesis using f(1) by auto
qed

end
