(* ===== verification/Vga.thy ===== *)
theory Vga
  imports Mmu "HOL-Library.Word" "HOL-Library.Monad_Syntax"
begin

text \<open>
  The screen, \<open>driver/vga.c\<close>: a buffer of 64 rows of 80 characters of which 60 are shown, a bit per row that
  says it has to be copied, the interrupt of the vertical blank that copies up to four rows to the video
  memory, and the cursor it blinks. The variable \<open>common\<close> lies at address \<open>va\<close> of the kernel; its rows and
  bits are bytes of the memory on the bus, where the transfer of \<open>Mmu\<close> finds them, and the video memory is
  page 254. The other members are fields of the record. An access past the 5128 bytes of the rows and bits
  is \<open>None\<close>: there the cursor itself would be overwritten.
\<close>

unbundle bit_operations_syntax

definition VGA_PAGE :: nat where "VGA_PAGE = 254"
definition VGA_ROWS :: nat where "VGA_ROWS = 60"
definition VGA_COLS :: nat where "VGA_COLS = 80"
definition CURSOR :: "8 word" where "CURSOR = 219"
definition TAB_SIZE :: nat where "TAB_SIZE = 4"

text \<open>The offset of \<open>vdirty\<close> in \<open>common\<close> and the end of it.\<close>

definition VDIRTY :: nat where "VDIRTY = 64 * 80"
definition VEND :: nat where "VEND = VDIRTY + 64 div 8"

lemmas vga_consts = VGA_PAGE_def VGA_ROWS_def VGA_COLS_def VDIRTY_def VEND_def TAB_SIZE_def

record vmem =
  phys :: "nat \<Rightarrow> 8 word"
  mregs :: mmu_regs
  va :: nat

record vga_st =
  vm :: vmem
  cursor_x :: nat
  cursor_y :: nat
  cursor_state :: nat
  cursor_prev :: "8 word"
  cursor_counter :: nat
  cursor_enable :: nat
  vga_rom :: nat
  scroll :: nat
  late_irq :: nat
  ioa :: nat

text \<open>The byte at offset \<open>i\<close> of \<open>common\<close>.\<close>

definition cell :: "nat \<Rightarrow> vmem \<Rightarrow> 8 word" where
  "cell i m = phys m (bus (va m + i) (mregs m))"

definition put_cell :: "nat \<Rightarrow> 8 word \<Rightarrow> vmem \<Rightarrow> vmem" where
  "put_cell i c m = m\<lparr>phys := (phys m)(bus (va m + i) (mregs m) := c)\<rparr>"

fun fill :: "nat \<Rightarrow> 8 word \<Rightarrow> nat \<Rightarrow> vmem \<Rightarrow> vmem" where
  "fill i c 0 m = m"
| "fill i c (Suc n) m = fill (i + 1) c n (put_cell i c m)"

section \<open>Rows\<close>

definition vga_mark_dirty :: "nat \<Rightarrow> vmem \<Rightarrow> vmem" where
  "vga_mark_dirty line m = (let i = VDIRTY + line div 8 in put_cell i (cell i m OR push_bit (line mod 8) 1) m)"

text \<open>The row of the buffer for row \<open>r\<close> of the screen.\<close>

definition ring_row :: "nat \<Rightarrow> vga_st \<Rightarrow> nat" where
  "ring_row r s = (r + scroll s) AND 63"

definition vga_set :: "8 word \<Rightarrow> vga_st \<Rightarrow> vga_st option" where
  "vga_set c s = (let y = ring_row (cursor_y s) s; i = y * 80 + cursor_x s in do {
     check (i < VEND);
     Some (s\<lparr>vm := vga_mark_dirty y (put_cell i c (vm s))\<rparr>) })"

definition vga_get :: "vga_st \<Rightarrow> 8 word option" where
  "vga_get s = (let i = ring_row (cursor_y s) s * 80 + cursor_x s in do { check (i < VEND); Some (cell i (vm s)) })"

definition vga_sync_line :: "nat \<Rightarrow> vmem \<Rightarrow> vmem" where
  "vga_sync_line line m =
     (let bpos = va m + line * 80;
          bpage = mmu_get_page bpos (mregs m);
          offs = bpos mod 4096;
          doffs = u16 (line * 128)
      in m\<lparr>phys := dma_memcpy_raw VGA_PAGE doffs bpage offs 80 (phys m)\<rparr>)"

section \<open>The interrupt\<close>

text \<open>The loop over the bits of a byte, and the one over the bytes; \<open>limit\<close> is the number of rows left to copy.\<close>

fun sync_bits :: "nat \<Rightarrow> nat list \<Rightarrow> nat \<Rightarrow> vmem \<Rightarrow> nat \<times> vmem" where
  "sync_bits i [] limit m = (limit, m)"
| "sync_bits i (j # js) limit m =
     (if limit = 0 then (limit, m)
      else if cell (VDIRTY + i) m AND push_bit j 1 \<noteq> 0
        then let m1 = vga_sync_line (8 * i + j) m
             in sync_bits i js (limit - 1) (put_cell (VDIRTY + i) (cell (VDIRTY + i) m1 AND NOT (push_bit j 1)) m1)
      else sync_bits i js limit m)"

fun sync_bytes :: "nat list \<Rightarrow> nat \<Rightarrow> vmem \<Rightarrow> nat \<times> vmem" where
  "sync_bytes [] limit m = (limit, m)"
| "sync_bytes (i # is) limit m =
     (if limit = 0 then (limit, m)
      else if cell (VDIRTY + i) m \<noteq> 0
        then (case sync_bits i [0..<8] limit m of (limit1, m1) \<Rightarrow> sync_bytes is limit1 m1)
      else sync_bytes is limit m)"

definition port_byte :: "vga_st \<Rightarrow> nat" where
  "port_byte s = u8 (vga_rom s * 64 OR (scroll s AND 63))"

definition cursor_blink :: "vga_st \<Rightarrow> vga_st option" where
  "cursor_blink s =
     (let s1 = s\<lparr>cursor_counter := u8 (cursor_counter s + 1)\<rparr> in
      if cursor_counter s1 > 28 then
        (let s2 = s1\<lparr>cursor_counter := 0\<rparr> in
         if cursor_state s2 \<noteq> 0 then do {
           s3 \<leftarrow> vga_set (cursor_prev s2) s2;
           Some (s3\<lparr>cursor_state := 0\<rparr>) }
         else if cursor_enable s2 \<noteq> 0 then do {
           c \<leftarrow> vga_get s2;
           s3 \<leftarrow> vga_set CURSOR (s2\<lparr>cursor_prev := c\<rparr>);
           Some (s3\<lparr>cursor_state := 1\<rparr>) }
         else Some s2)
      else Some s1)"

definition vga_vblank_handler :: "vga_st \<Rightarrow> vga_st option" where
  "vga_vblank_handler s =
     (if late_irq s \<noteq> 0 then Some (s\<lparr>late_irq := 0\<rparr>)
      else let s1 = s\<lparr>vm := snd (sync_bytes [0..<8] 4 (vm s))\<rparr>
           in cursor_blink (s1\<lparr>ioa := port_byte s1\<rparr>))"

definition vga_late_irq :: "vga_st \<Rightarrow> vga_st" where
  "vga_late_irq s = s\<lparr>late_irq := 1\<rparr>"

text \<open>\<open>dma_memcpy\<close> of \<open>driver/dma.c\<close>, which holds the interrupt up and says so.\<close>

definition dma_memcpy :: "nat \<Rightarrow> nat \<Rightarrow> nat \<Rightarrow> nat \<Rightarrow> nat \<Rightarrow> vga_st \<Rightarrow> vga_st" where
  "dma_memcpy dpage doffs spage soffs len s =
     vga_late_irq (s\<lparr>vm := (vm s)\<lparr>phys := dma_memcpy_raw dpage doffs spage soffs len (phys (vm s))\<rparr>\<rparr>)"

section \<open>Writing\<close>

text \<open>
  Interrupts are off in the two critical sections of the driver, that of \<open>vga_set\<close> and the one at the start of
  \<open>vga_putchar\<close>, and on everywhere else. \<open>w\<close> gives the number of vertical blank interrupts that come after each
  of the steps outside of them: every assignment to \<open>common\<close>, every byte of \<open>memset\<close>, and between reading and writing
  the byte of a dirty bit. \<open>enable\<close> is 0 meanwhile.
\<close>

primrec vblanks :: "nat \<Rightarrow> vga_st \<Rightarrow> vga_st option" where
  "vblanks 0 s = Some s"
| "vblanks (Suc n) s = vga_vblank_handler s \<bind> vblanks n"

fun memset_irqs :: "(nat \<Rightarrow> nat) \<Rightarrow> nat \<Rightarrow> 8 word \<Rightarrow> nat \<Rightarrow> vga_st \<Rightarrow> vga_st option" where
  "memset_irqs w i c 0 s = Some s"
| "memset_irqs w i c (Suc n) s = do {
     s1 \<leftarrow> vblanks (w n) (s\<lparr>vm := put_cell i c (vm s)\<rparr>);
     memset_irqs w (i + 1) c n s1 }"

definition mark_dirty_irqs :: "nat \<Rightarrow> nat \<Rightarrow> vga_st \<Rightarrow> vga_st option" where
  "mark_dirty_irqs n line s =
     (let i = VDIRTY + line div 8;
          b = cell i (vm s) OR push_bit (line mod 8) 1
      in do {
        s1 \<leftarrow> vblanks n s;
        Some (s1\<lparr>vm := put_cell i b (vm s1)\<rparr>) })"

definition vga_new_line :: "(nat \<Rightarrow> nat) \<Rightarrow> vga_st \<Rightarrow> vga_st option" where
  "vga_new_line w s = do {
     s1 \<leftarrow> vblanks (w 0) (s\<lparr>cursor_y := u8 (cursor_y s + 1)\<rparr>);
     (if cursor_y s1 \<ge> VGA_ROWS then do {
        s2 \<leftarrow> vblanks (w 1) (s1\<lparr>cursor_y := VGA_ROWS - 1\<rparr>);
        let y = ring_row VGA_ROWS s2;
        s3 \<leftarrow> memset_irqs (\<lambda>k. w (k + 5)) (y * 80) 32 VGA_COLS s2;
        s4 \<leftarrow> mark_dirty_irqs (w 2) y s3;
        s5 \<leftarrow> vblanks (w 3) s4;
        vblanks (w 4) (s5\<lparr>scroll := u8 (scroll s5 + 1)\<rparr>) }
      else Some s1) }"

text \<open>
  \<open>vga_putchar\<close>: the critical section that takes the cursor off the screen, the switch over the character,
  and the cursor again.
\<close>

definition vga_putchar_begin :: "vga_st \<Rightarrow> (nat \<times> vga_st) option" where
  "vga_putchar_begin s = do {
     s1 \<leftarrow> (if cursor_state s \<noteq> 0 then do { s1 \<leftarrow> vga_set (cursor_prev s) s; Some (s1\<lparr>cursor_state := 0\<rparr>) } else Some s);
     Some (cursor_enable s1, s1\<lparr>cursor_counter := 0, cursor_enable := 0\<rparr>) }"

definition vga_putchar_switch :: "(nat \<Rightarrow> nat) \<Rightarrow> 8 word \<Rightarrow> vga_st \<Rightarrow> vga_st option" where
  "vga_putchar_switch w c s =
     (if c = 9 then do {
        s1 \<leftarrow> vblanks (w 0) (s\<lparr>cursor_x := u8 (cursor_x s + TAB_SIZE)\<rparr>);
        vblanks (w 1) (s1\<lparr>cursor_x := cursor_x s1 - cursor_x s1 mod TAB_SIZE\<rparr>) }
      else if c = 13 then vblanks (w 0) (s\<lparr>cursor_x := 0\<rparr>)
      else if c = 10 then vga_new_line w s
      else do {
        s1 \<leftarrow> vga_set c s;
        s2 \<leftarrow> vblanks (w 0) s1;
        s3 \<leftarrow> vblanks (w 1) (s2\<lparr>cursor_x := u8 (cursor_x s2 + 1)\<rparr>);
        (if cursor_x s3 \<ge> VGA_COLS then do {
           s4 \<leftarrow> vblanks (w 2) (s3\<lparr>cursor_x := 0\<rparr>);
           vga_new_line (\<lambda>k. w (k + 3)) s4 }
         else Some s3) })"

definition vga_putchar :: "(nat \<Rightarrow> nat) \<Rightarrow> 8 word \<Rightarrow> vga_st \<Rightarrow> vga_st option" where
  "vga_putchar w c s = do {
     (en, s1) \<leftarrow> vga_putchar_begin s;
     s2 \<leftarrow> vblanks (w 0) s1;
     s3 \<leftarrow> vga_putchar_switch (\<lambda>k. w (k + 1)) c s2;
     Some (s3\<lparr>cursor_enable := en\<rparr>) }"

definition vga_clear :: "vga_st \<Rightarrow> vga_st" where
  "vga_clear s = s\<lparr>cursor_counter := 0, cursor_prev := 32, cursor_state := 0,
     vm := fill VDIRTY 255 8 (fill 0 32 VDIRTY (vm s)), cursor_x := 0, cursor_y := 0\<rparr>"

definition vga_select_rom :: "nat \<Rightarrow> vga_st \<Rightarrow> vga_st" where
  "vga_select_rom rom s = (let s1 = s\<lparr>vga_rom := rom\<rparr> in s1\<lparr>ioa := port_byte s1\<rparr>)"

definition vga_set_cursor :: "nat \<Rightarrow> vga_st \<Rightarrow> vga_st" where
  "vga_set_cursor en s = s\<lparr>cursor_enable := en\<rparr>"

definition vga_init :: "vga_st \<Rightarrow> vga_st" where
  "vga_init s = vga_set_cursor 1 (vga_clear (vga_select_rom 0 s))"

section \<open>The memory\<close>

definition vm_ok :: "vmem \<Rightarrow> bool" where
  "vm_ok m \<longleftrightarrow> kernel_layout (mregs m) \<and> va m + VEND \<le> 57344"

lemma bus_ok: "vm_ok m \<Longrightarrow> i < VEND \<Longrightarrow> bus (va m + i) (mregs m) = va m + i"
  by (rule bus_low) (simp_all add: vm_ok_def)

lemma cell_at: "vm_ok m \<Longrightarrow> i < VEND \<Longrightarrow> cell i m = phys m (va m + i)"
  by (simp add: cell_def bus_ok)

text \<open>The byte of the video memory for column \<open>x\<close> of ring row \<open>k\<close>, and the bit of a row.\<close>

definition vram :: "nat \<Rightarrow> nat \<Rightarrow> vmem \<Rightarrow> 8 word" where
  "vram k x m = phys m (VGA_PAGE * 4096 + k * 128 + x)"

definition dirty :: "nat \<Rightarrow> vmem \<Rightarrow> bool" where
  "dirty k m \<longleftrightarrow> bit (cell (VDIRTY + k div 8) m) (k mod 8)"

definition clean_rows :: "vmem \<Rightarrow> bool" where
  "clean_rows m \<longleftrightarrow> (\<forall>k < 64. \<not> dirty k m \<longrightarrow> (\<forall>x < 80. vram k x m = cell (k * 80 + x) m))"

lemma put_cell_ok [simp]: "vm_ok (put_cell i c m) = vm_ok m"
  by (simp add: vm_ok_def put_cell_def)

lemma cell_put: "vm_ok m \<Longrightarrow> i < VEND \<Longrightarrow> j < VEND \<Longrightarrow> cell i (put_cell j c m) = (if i = j then c else cell i m)"
  by (simp add: cell_def put_cell_def bus_ok)

lemma vram_put: "vm_ok m \<Longrightarrow> j < VEND \<Longrightarrow> vram k x (put_cell j c m) = vram k x m"
  by (auto simp: vram_def put_cell_def bus_ok vm_ok_def vga_consts)

lemma fill_ok [simp]: "vm_ok (fill i c n m) = vm_ok m"
  by (induction i c n m rule: fill.induct) simp_all

lemma cell_fill: "vm_ok m \<Longrightarrow> i + n \<le> VEND \<Longrightarrow> j < VEND \<Longrightarrow> cell j (fill i c n m) = (if i \<le> j \<and> j < i + n then c else cell j m)"
  by (induction i c n m rule: fill.induct) (auto simp: cell_put)

lemma vram_fill: "vm_ok m \<Longrightarrow> i + n \<le> VEND \<Longrightarrow> vram k x (fill i c n m) = vram k x m"
  by (induction i c n m rule: fill.induct) (auto simp: vram_put)

lemma row_end: "k < 64 \<Longrightarrow> x < 80 \<Longrightarrow> k * 80 + x < VDIRTY"
  by (simp add: VDIRTY_def)

lemma byte_end: "k < 64 \<Longrightarrow> VDIRTY + k div 8 < VEND"
  by (simp add: VEND_def div_less_iff_less_mult)

lemma VDIRTY_end: "i < VDIRTY \<Longrightarrow> i < VEND"
  by (simp add: VEND_def)

lemma row_inj: "x < 80 \<Longrightarrow> x' < 80 \<Longrightarrow> k * 80 + x = k' * 80 + x' \<longleftrightarrow> k = k' \<and> x = (x' :: nat)"
  by (metis div_mult_self3 add.commute add_left_cancel add_0 div_less zero_neq_numeral)

lemma same_row: "k div 8 = l div 8 \<Longrightarrow> k mod 8 = l mod 8 \<longleftrightarrow> k = (l :: nat)"
  by (metis div_mult_mod_eq)

section \<open>Rows\<close>

lemma mark_ok [simp]: "vm_ok (vga_mark_dirty l m) = vm_ok m"
  by (simp add: vga_mark_dirty_def Let_def)

lemma cell_mark: "vm_ok m \<Longrightarrow> l < 64 \<Longrightarrow> i < VDIRTY \<Longrightarrow> cell i (vga_mark_dirty l m) = cell i m"
  by (simp add: vga_mark_dirty_def Let_def cell_put byte_end VDIRTY_end)

lemma vram_mark: "vm_ok m \<Longrightarrow> l < 64 \<Longrightarrow> vram k x (vga_mark_dirty l m) = vram k x m"
  by (simp add: vga_mark_dirty_def Let_def vram_put byte_end)

lemma dirty_mark: "vm_ok m \<Longrightarrow> l < 64 \<Longrightarrow> k < 64 \<Longrightarrow> dirty k (vga_mark_dirty l m) \<longleftrightarrow> k = l \<or> dirty k m"
  by (auto simp: dirty_def vga_mark_dirty_def Let_def cell_put byte_end bit_or_iff bit_exp_iff same_row)

lemma dirty_put: "vm_ok m \<Longrightarrow> i < VDIRTY \<Longrightarrow> k < 64 \<Longrightarrow> dirty k (put_cell i c m) \<longleftrightarrow> dirty k m"
  by (simp add: dirty_def cell_put byte_end VDIRTY_end)

lemma dirty_fill: "vm_ok m \<Longrightarrow> i + n \<le> VDIRTY \<Longrightarrow> k < 64 \<Longrightarrow> dirty k (fill i c n m) \<longleftrightarrow> dirty k m"
  by (induction i c n m rule: fill.induct) (auto simp: dirty_put)

lemma sync_line_phys:
  assumes "vm_ok m" and "l < 64"
  shows "vga_sync_line l m = m\<lparr>phys := dma_burst 80 (va m + l * 80) (VGA_PAGE * 4096 + l * 128) (phys m)\<rparr>"
proof -
  have low: "va m + l * 80 < 57344" using assms by (simp add: vm_ok_def vga_consts)
  define v where "v = va m + l * 80"
  have p: "mmu_get_page v (mregs m) = v div 4096" using low bus_low(2) assms(1) by (simp add: vm_ok_def v_def)
  have v: "v < 57344" using low by (simp add: v_def)
  have q: "v div 4096 < 14" using v by (simp add: div_less_iff_less_mult)
  have s: "addr20 (u8 (v mod 4096), u8 (v div 4096 * 16 + v mod 4096 div 256), v div 4096 div 16) = v div 4096 * 4096 + v mod 4096"
  proof (rule addr20_regs)
    have "v div 4096 mod 16 * 4096 \<le> 13 * 4096" using q by simp
    then show "v div 4096 mod 16 * 4096 + v mod 4096 < 65536" using mod_less_divisor[of 4096 v] by linarith
  qed (use q in simp)
  have d: "addr20 (u8 (l * 128), u8 (VGA_PAGE * 16 + l * 128 div 256), VGA_PAGE div 16) = VGA_PAGE * 4096 + l * 128"
    by (rule addr20_regs) (use assms(2) in \<open>simp_all add: VGA_PAGE_def\<close>)
  show ?thesis using assms(2) d s unfolding vga_sync_line_def Let_def v_def[symmetric] p dma_memcpy_raw_def dma_regs_of_def by (simp add: Let_def)
qed

lemma sync_line_mem:
  assumes "vm_ok m" and "l < 64"
  shows "vm_ok (vga_sync_line l m)" and "i < VEND \<Longrightarrow> cell i (vga_sync_line l m) = cell i m"
    and "x < 80 \<Longrightarrow> vram k x (vga_sync_line l m) = (if k = l then cell (l * 80 + x) m else vram k x m)"
proof -
  show ok: "vm_ok (vga_sync_line l m)" using assms(1) unfolding sync_line_phys[OF assms] by (simp add: vm_ok_def)
  have dis: "va m + l * 80 + 80 \<le> VGA_PAGE * 4096 + l * 128" using assms by (simp add: vm_ok_def vga_consts)
  show "cell i (vga_sync_line l m) = cell i m" if "i < VEND"
  proof -
    have "va m + i < VGA_PAGE * 4096 + l * 128" using assms(1) that by (simp add: vm_ok_def vga_consts)
    moreover have "va (vga_sync_line l m) = va m" unfolding sync_line_phys[OF assms] by simp
    ultimately show ?thesis unfolding cell_at[OF ok that] cell_at[OF assms(1) that] unfolding sync_line_phys[OF assms]
      by (simp add: dma_burst_apply[OF disjI1, OF dis])
  qed
  show "vram k x (vga_sync_line l m) = (if k = l then cell (l * 80 + x) m else vram k x m)" if x: "x < 80"
  proof (cases "k = l")
    case True
    then show ?thesis using x cell_at[OF assms(1) VDIRTY_end[OF row_end[OF assms(2) x]]]
      by (simp add: vram_def sync_line_phys[OF assms] dma_burst_apply[OF disjI1, OF dis] add.assoc)
  next
    case False
    then have "k * 128 + x < l * 128 \<or> l * 128 + 80 \<le> k * 128 + x" using x by linarith
    then show ?thesis using False by (auto simp: vram_def sync_line_phys[OF assms] dma_burst_apply[OF disjI1, OF dis])
  qed
qed

section \<open>The copying\<close>

text \<open>The two loops of the interrupt go over the rows in order and copy the first ones that are dirty.\<close>

definition sync_one :: "nat \<Rightarrow> vmem \<Rightarrow> vmem" where
  "sync_one l m = (let m1 = vga_sync_line l m in put_cell (VDIRTY + l div 8) (cell (VDIRTY + l div 8) m1 AND NOT (push_bit (l mod 8) 1)) m1)"

fun sync_rows :: "nat list \<Rightarrow> nat \<Rightarrow> vmem \<Rightarrow> nat \<times> vmem" where
  "sync_rows [] limit m = (limit, m)"
| "sync_rows (l # ls) limit m = (if limit = 0 then (limit, m)
     else if dirty l m then sync_rows ls (limit - 1) (sync_one l m) else sync_rows ls limit m)"

lemma sync_rows_0 [simp]: "sync_rows ls 0 m = (0, m)"
  by (cases ls) simp_all

lemma sync_rows_clean: "\<forall>l \<in> set ls. \<not> dirty l m \<Longrightarrow> sync_rows ls limit m = (limit, m)"
  by (induction ls) auto

lemma sync_rows_append: "sync_rows (ks @ ls) limit m = (case sync_rows ks limit m of (limit1, m1) \<Rightarrow> sync_rows ls limit1 m1)"
  by (induction ks arbitrary: limit m) auto

lemma row_of: "j < 8 \<Longrightarrow> (8 * i + j) div 8 = i" "j < 8 \<Longrightarrow> (8 * i + j) mod 8 = (j :: nat)"
  by simp_all

lemma sync_bits_rows: "\<forall>j \<in> set js. j < 8 \<Longrightarrow> sync_bits i js limit m = sync_rows (map (\<lambda>j. 8 * i + j) js) limit m"
proof (induction js arbitrary: limit m)
  case (Cons j js)
  then have j: "j < 8" by simp
  have "cell (VDIRTY + i) m AND push_bit j 1 \<noteq> 0 \<longleftrightarrow> dirty (8 * i + j) m"
    unfolding dirty_def row_of[OF j] by (rule bit_iff_and_push_bit_not_eq_0[symmetric])
  then show ?case using Cons unfolding sync_bits.simps list.map sync_rows.simps sync_one_def row_of[OF j] Let_def by simp
qed simp

lemma sync_bytes_rows: "sync_bytes is limit m = sync_rows (concat (map (\<lambda>i. map (\<lambda>j. 8 * i + j) [0..<8]) is)) limit m"
proof (induction "is" arbitrary: limit m)
  case (Cons i "is")
  have z: "sync_rows (map (\<lambda>j. 8 * i + j) [0..<8]) limit m = (limit, m)" if "cell (VDIRTY + i) m = 0"
  proof (rule sync_rows_clean, intro ballI)
    fix l assume "l \<in> set (map (\<lambda>j. 8 * i + j) [0..<8])"
    then obtain j where "j < 8" "l = 8 * i + j" unfolding set_map set_upt image_iff using atLeastLessThan_iff by blast
    then show "\<not> dirty l m" using that by (simp add: dirty_def)
  qed
  show ?case
    by (cases "cell (VDIRTY + i) m = 0")
      (auto simp: Cons.IH sync_bits_rows[of "[0..<8]"] sync_rows_append z simp del: upt.simps split: prod.splits)
qed simp

declare sync_bytes.simps [simp del] sync_bits.simps [simp del]

lemma all_rows: "concat (map (\<lambda>i. map (\<lambda>j. 8 * i + j) [0..<8]) [0..<8]) = [0..<64]"
  by (simp add: upt_rec)

lemma sync_one_mem:
  assumes "vm_ok m" and "l < 64"
  shows "vm_ok (sync_one l m)" and "i < VDIRTY \<Longrightarrow> cell i (sync_one l m) = cell i m"
    and "x < 80 \<Longrightarrow> vram k x (sync_one l m) = (if k = l then cell (l * 80 + x) m else vram k x m)"
    and "k < 64 \<Longrightarrow> dirty k (sync_one l m) \<longleftrightarrow> k \<noteq> l \<and> dirty k m"
  using sync_line_mem[OF assms] byte_end[OF assms(2)] assms(2)
  by (auto simp: sync_one_def Let_def cell_put vram_put VDIRTY_end dirty_def byte_end bit_and_iff bit_not_iff bit_exp_iff same_row)

lemma sync_one_clean: "vm_ok m \<Longrightarrow> l < 64 \<Longrightarrow> clean_rows m \<Longrightarrow> clean_rows (sync_one l m)"
  unfolding clean_rows_def by (simp add: sync_one_mem row_end)

definition ndirty :: "vmem \<Rightarrow> nat" where
  "ndirty m = card {k. k < 64 \<and> dirty k m}"

lemma ndirty_sync_one:
  assumes "vm_ok m" and "l < 64" and "dirty l m"
  shows "ndirty (sync_one l m) = ndirty m - 1" and "ndirty m > 0"
proof -
  have "{k. k < 64 \<and> dirty k (sync_one l m)} = {k. k < 64 \<and> dirty k m} - {l}" using sync_one_mem(4)[OF assms(1,2)] by auto
  then show "ndirty (sync_one l m) = ndirty m - 1" using assms by (simp add: ndirty_def)
  show "ndirty m > 0" using assms(2,3) unfolding ndirty_def by (subst card_gt_0_iff) auto
qed

lemma sync_rows_mem:
  assumes "vm_ok m" and "set ls \<subseteq> {..<64}" and "sync_rows ls limit m = (limit', m')"
  shows "vm_ok m' \<and> (\<forall>i < VDIRTY. cell i m' = cell i m) \<and> (clean_rows m \<longrightarrow> clean_rows m') \<and> ndirty m' + limit = ndirty m + limit' \<and>
    limit' \<le> limit \<and> (limit' \<noteq> 0 \<longrightarrow> (\<forall>k \<in> set ls. \<not> dirty k m')) \<and> (\<forall>k < 64. dirty k m' \<longrightarrow> dirty k m)"
  using assms
proof (induction ls arbitrary: limit m)
  case (Cons l ls)
  have l: "l < 64" using Cons.prems(2) by simp
  show ?case
  proof (cases "limit = 0 \<or> \<not> dirty l m")
    case True
    then show ?thesis using Cons by (auto split: if_splits)
  next
    case False
    then have run: "sync_rows ls (limit - 1) (sync_one l m) = (limit', m')" using Cons.prems(3) by simp
    note one = sync_one_mem[OF Cons.prems(1) l]
    note ih = Cons.IH[OF one(1) _ run]
    have "\<forall>k < 64. dirty k m' \<longrightarrow> dirty k m \<and> k \<noteq> l" using ih one(4) Cons.prems(2) by auto
    then show ?thesis using ih Cons.prems(2) ndirty_sync_one[OF Cons.prems(1) l] False one(2) sync_one_clean[OF Cons.prems(1) l] l
      by auto
  qed
qed auto

section \<open>The terminal\<close>

text \<open>
  What the driver promises: 60 rows of 80 characters and a position. A character goes to the position and
  moves it; past the last row the rows move up. The blinking cursor is not part of it.
\<close>

record vterm =
  t_char :: "nat \<Rightarrow> nat \<Rightarrow> 8 word"
  t_x :: nat
  t_y :: nat

definition term_newline :: "vterm \<Rightarrow> vterm" where
  "term_newline t = (if t_y t + 1 < 60 then t\<lparr>t_y := t_y t + 1\<rparr>
     else t\<lparr>t_char := (\<lambda>r c. if r < 59 then t_char t (r + 1) c else if r = 59 \<and> c < 80 then 32 else 0)\<rparr>)"

definition term_put :: "8 word \<Rightarrow> vterm \<Rightarrow> vterm" where
  "term_put c t = (if c = 9 then t\<lparr>t_x := (t_x t + 4) div 4 * 4\<rparr>
     else if c = 13 then t\<lparr>t_x := 0\<rparr>
     else if c = 10 then term_newline t
     else (let t1 = t\<lparr>t_char := (t_char t)(t_y t := (t_char t (t_y t))(t_x t := c))\<rparr>
           in if t_x t + 1 < 80 then t1\<lparr>t_x := t_x t + 1\<rparr> else term_newline (t1\<lparr>t_x := 0\<rparr>)))"

definition shown :: "vga_st \<Rightarrow> vterm" where
  "shown s = \<lparr>t_char = (\<lambda>r c. if r < 60 \<and> c < 80
       then (if cursor_state s \<noteq> 0 \<and> r = cursor_y s \<and> c = cursor_x s then cursor_prev s
             else cell ((r + scroll s) mod 64 * 80 + c) (vm s)) else 0),
     t_x = cursor_x s, t_y = cursor_y s\<rparr>"

definition vga_ok :: "vga_st \<Rightarrow> bool" where
  "vga_ok s \<longleftrightarrow> vm_ok (vm s) \<and> clean_rows (vm s) \<and> cursor_x s < 80 \<and> cursor_y s < 60"

lemma and_63: "(x :: nat) AND 63 = x mod 64"
proof -
  have "x AND 63 = take_bit 6 x" by (simp add: take_bit_eq_mask mask_eq_exp_minus_1)
  then show ?thesis by (simp add: take_bit_eq_mod)
qed

lemma ring_row_mod: "ring_row r s = (r + scroll s) mod 64"
  by (simp add: ring_row_def and_63)

lemma ring_row_less [simp]: "ring_row r s < 64"
  by (simp add: ring_row_mod)

lemma ring_row_inj: "r < 64 \<Longrightarrow> r' < 64 \<Longrightarrow> (r + k) mod 64 = (r' + k) mod 64 \<longleftrightarrow> r = (r' :: nat)"
proof
  assume r: "r < 64" "r' < 64" and e: "(r + k) mod 64 = (r' + k) mod 64"
  have "r mod 64 = r' mod 64" using e by (simp add: nat_mod_eq_iff)
  then show "r = r'" using r by simp
qed simp

text \<open>Writing at the position.\<close>

lemma vga_set_ok:
  assumes "vga_ok s"
  shows "\<exists>m. vga_set c s = Some (s\<lparr>vm := m\<rparr>) \<and> vm_ok m \<and> clean_rows m \<and> ndirty m \<le> ndirty (vm s) + 1 \<and>
    (\<forall>r < 60. \<forall>x < 80. cell ((r + scroll s) mod 64 * 80 + x) m = (if r = cursor_y s \<and> x = cursor_x s then c else cell ((r + scroll s) mod 64 * 80 + x) (vm s)))"
proof -
  define y where "y = ring_row (cursor_y s) s"
  define i where "i = y * 80 + cursor_x s"
  define m where "m = vga_mark_dirty y (put_cell i c (vm s))"
  have ok: "vm_ok (vm s)" "cursor_x s < 80" "cursor_y s < 60" "clean_rows (vm s)" using assms by (simp_all add: vga_ok_def)
  have y: "y < 64" by (simp add: y_def)
  have i: "i < VDIRTY" unfolding i_def by (rule row_end[OF y ok(2)])
  have run: "vga_set c s = Some (s\<lparr>vm := m\<rparr>)"
    using VDIRTY_end[OF i] by (simp add: vga_set_def Let_def y_def[symmetric] i_def[symmetric] m_def)
  have pk: "vm_ok (put_cell i c (vm s))" using ok by simp
  have cellm: "cell (k * 80 + x) m = (if k = y \<and> x = cursor_x s then c else cell (k * 80 + x) (vm s))" if "k < 64" "x < 80" for k x
  proof -
    have "cell (k * 80 + x) m = cell (k * 80 + x) (put_cell i c (vm s))"
      unfolding m_def by (rule cell_mark[OF pk y row_end[OF that]])
    also have "\<dots> = (if k * 80 + x = i then c else cell (k * 80 + x) (vm s))"
      by (rule cell_put[OF ok(1) VDIRTY_end[OF row_end[OF that]] VDIRTY_end[OF i]])
    finally show ?thesis using row_inj[OF that(2) ok(2)] by (simp add: i_def)
  qed
  have dm: "dirty k m \<longleftrightarrow> k = y \<or> dirty k (vm s)" if "k < 64" for k
    using that ok i by (simp add: m_def dirty_mark[OF pk y] dirty_put)
  have "clean_rows m" unfolding clean_rows_def
  proof (intro allI impI)
    fix k x assume k: "k < 64" "\<not> dirty k m" "x < (80 :: nat)"
    have "vram k x m = vram k x (vm s)" using ok(1) i by (simp add: m_def vram_mark[OF pk y] vram_put VDIRTY_end)
    then show "vram k x m = cell (k * 80 + x) m" using k ok(4) dm cellm by (simp add: clean_rows_def)
  qed
  moreover have "ndirty m \<le> ndirty (vm s) + 1"
  proof -
    have "{k. k < 64 \<and> dirty k m} \<subseteq> insert y {k. k < 64 \<and> dirty k (vm s)}" using dm by auto
    then have "ndirty m \<le> card (insert y {k. k < 64 \<and> dirty k (vm s)})" unfolding ndirty_def by (intro card_mono) auto
    also have "\<dots> \<le> ndirty (vm s) + 1" by (simp add: ndirty_def card_insert_if)
    finally show ?thesis .
  qed
  moreover have "cell ((r + scroll s) mod 64 * 80 + x) m = (if r = cursor_y s \<and> x = cursor_x s then c else cell ((r + scroll s) mod 64 * 80 + x) (vm s))"
    if "r < 60" "x < 80" for r x
    using that ok(3) by (simp add: cellm y_def ring_row_mod ring_row_inj)
  ultimately show ?thesis using run pk by (intro exI[of _ m]) (simp add: m_def)
qed

lemma shown_set:
  assumes "vga_ok s" and "cursor_state s = 0" and "vga_set c s = Some s1"
  shows "vga_ok s1" and "shown s1 = (shown s)\<lparr>t_char := (t_char (shown s))(cursor_y s := (t_char (shown s) (cursor_y s))(cursor_x s := c))\<rparr>"
    and "cursor_x s1 = cursor_x s" and "cursor_y s1 = cursor_y s" and "cursor_state s1 = 0" and "cursor_enable s1 = cursor_enable s"
proof -
  obtain m where m: "s1 = s\<lparr>vm := m\<rparr>" "vm_ok m" "clean_rows m"
    "\<forall>r < 60. \<forall>x < 80. cell ((r + scroll s) mod 64 * 80 + x) m = (if r = cursor_y s \<and> x = cursor_x s then c else cell ((r + scroll s) mod 64 * 80 + x) (vm s))"
    using vga_set_ok[OF assms(1), of c] assms(3) by auto
  show "vga_ok s1" "cursor_x s1 = cursor_x s" "cursor_y s1 = cursor_y s" "cursor_state s1 = 0" "cursor_enable s1 = cursor_enable s"
    using m(2,3) assms(1,2) by (simp_all add: m(1) vga_ok_def)
  show "shown s1 = (shown s)\<lparr>t_char := (t_char (shown s))(cursor_y s := (t_char (shown s) (cursor_y s))(cursor_x s := c))\<rparr>"
    using m(4) assms(1,2) by (auto simp: m(1) shown_def fun_eq_iff vga_ok_def)
qed

lemma putchar_begin_ok:
  assumes "vga_ok s"
  shows "\<exists>s1. vga_putchar_begin s = Some (cursor_enable s, s1) \<and> vga_ok s1 \<and> shown s1 = shown s \<and> cursor_state s1 = 0 \<and> cursor_enable s1 = 0"
proof (cases "cursor_state s = 0")
  case True
  then show ?thesis using assms by (simp add: vga_putchar_begin_def vga_ok_def shown_def fun_eq_iff)
next
  case False
  obtain m where m: "vga_set (cursor_prev s) s = Some (s\<lparr>vm := m\<rparr>)" "vm_ok m" "clean_rows m"
    "\<forall>r < 60. \<forall>x < 80. cell ((r + scroll s) mod 64 * 80 + x) m = (if r = cursor_y s \<and> x = cursor_x s then cursor_prev s else cell ((r + scroll s) mod 64 * 80 + x) (vm s))"
    using vga_set_ok[OF assms, of "cursor_prev s"] by auto
  show ?thesis using False m assms by (simp add: vga_putchar_begin_def vga_ok_def shown_def fun_eq_iff)
qed

lemma tab_stop:
  assumes "x < 252"
  shows "u8 (x + 4) - u8 (x + 4) mod 4 = (x + 4) div 4 * 4"
proof -
  have "u8 (x + 4) = x + 4" using assms by simp
  then show ?thesis by (simp only: minus_mod_eq_div_mult)
qed

section \<open>The interrupt leaves the screen as it is\<close>

lemma vblank_sync_ok:
  assumes "vga_ok s"
  shows "vga_ok (s\<lparr>vm := snd (sync_bytes [0..<8] 4 (vm s)), ioa := b\<rparr>)"
    and "shown (s\<lparr>vm := snd (sync_bytes [0..<8] 4 (vm s)), ioa := b\<rparr>) = shown s"
    and "ndirty (snd (sync_bytes [0..<8] 4 (vm s))) \<le> ndirty (vm s) - 4"
proof -
  obtain l m where r: "sync_rows [0..<64] 4 (vm s) = (l, m)" by (cases "sync_rows [0..<64] 4 (vm s)")
  have e: "sync_bytes [0..<8] 4 (vm s) = (l, m)" unfolding sync_bytes_rows all_rows by (rule r)
  have sub: "set [0..<64] \<subseteq> {..<64::nat}" unfolding set_upt by auto
  from sync_rows_mem[OF _ sub r] assms
  have m: "vm_ok m" "\<forall>i < VDIRTY. cell i m = cell i (vm s)" "clean_rows m" "ndirty m + 4 = ndirty (vm s) + l" "l \<noteq> 0 \<longrightarrow> (\<forall>k \<in> {0..<64}. \<not> dirty k m)"
    unfolding vga_ok_def set_upt by blast+
  have "l \<noteq> 0 \<Longrightarrow> ndirty m = 0" using m(5) by (simp add: ndirty_def)
  then have "ndirty m \<le> ndirty (vm s) - 4" using m(4) by (cases "l = 0") auto
  then show "ndirty (snd (sync_bytes [0..<8] 4 (vm s))) \<le> ndirty (vm s) - 4" unfolding e snd_conv .
  show "vga_ok (s\<lparr>vm := snd (sync_bytes [0..<8] 4 (vm s)), ioa := b\<rparr>)" using assms m unfolding e by (simp add: vga_ok_def)
  show "shown (s\<lparr>vm := snd (sync_bytes [0..<8] 4 (vm s)), ioa := b\<rparr>) = shown s"
    using m(2) unfolding e by (simp add: shown_def fun_eq_iff row_end)
qed

lemma blink_ok:
  assumes "vga_ok s"
  shows "\<exists>s'. cursor_blink s = Some s' \<and> vga_ok s' \<and> shown s' = shown s \<and> ndirty (vm s') \<le> ndirty (vm s) + 1 \<and>
    cursor_enable s' = cursor_enable s \<and> late_irq s' = late_irq s \<and> cursor_x s' = cursor_x s \<and>
    (cursor_state s = 0 \<and> cursor_enable s = 0 \<longrightarrow> cursor_state s' = 0)"
proof -
  define n where "n = u8 (cursor_counter s + 1)"
  have g: "vga_get (s\<lparr>cursor_counter := 0\<rparr>) = Some (cell (ring_row (cursor_y s) s * 80 + cursor_x s) (vm s))"
    using assms VDIRTY_end[OF row_end[of "ring_row (cursor_y s) s" "cursor_x s"]] by (simp add: vga_get_def Let_def ring_row_mod vga_ok_def)
  show ?thesis
  proof (cases "n > 28")
    case False
    then show ?thesis using assms by (simp add: cursor_blink_def n_def Let_def vga_ok_def shown_def fun_eq_iff)
  next
    case n: True
    define s2 where "s2 = s\<lparr>cursor_counter := 0\<rparr>"
    define c where "c = cell (ring_row (cursor_y s) s * 80 + cursor_x s) (vm s)"
    have ok2: "vga_ok s2" "vga_ok (s2\<lparr>cursor_prev := c\<rparr>)" using assms by (simp_all add: s2_def vga_ok_def)
    consider (on) "cursor_state s \<noteq> 0" | (off) "cursor_state s = 0" "cursor_enable s \<noteq> 0" | (none) "cursor_state s = 0" "cursor_enable s = 0" by blast
    then show ?thesis
    proof cases
      case on
      then show ?thesis using n vga_set_ok[OF ok2(1), of "cursor_prev s"] assms
        by (auto simp: cursor_blink_def n_def[symmetric] Let_def s2_def vga_ok_def shown_def fun_eq_iff)
    next
      case off
      then show ?thesis using n g vga_set_ok[OF ok2(2), of CURSOR] assms
        by (auto simp: cursor_blink_def n_def[symmetric] Let_def s2_def c_def vga_ok_def shown_def fun_eq_iff ring_row_mod)
    next
      case none
      then show ?thesis using n assms by (simp add: cursor_blink_def n_def[symmetric] Let_def vga_ok_def shown_def fun_eq_iff)
    qed
  qed
qed

lemma vblank_ok:
  assumes "vga_ok s"
  shows "\<exists>s'. vga_vblank_handler s = Some s' \<and> vga_ok s' \<and> shown s' = shown s \<and> late_irq s' = 0 \<and>
    cursor_enable s' = cursor_enable s \<and> (cursor_state s = 0 \<and> cursor_enable s = 0 \<longrightarrow> cursor_state s' = 0) \<and>
    (late_irq s = 0 \<longrightarrow> ndirty (vm s') \<le> ndirty (vm s) - 4 + 1)"
proof (cases "late_irq s = 0")
  case True
  define s1 where "s1 = s\<lparr>vm := snd (sync_bytes [0..<8] 4 (vm s)), ioa := port_byte (s\<lparr>vm := snd (sync_bytes [0..<8] 4 (vm s))\<rparr>)\<rparr>"
  note y = vblank_sync_ok(1,2)[OF assms, of "port_byte (s\<lparr>vm := snd (sync_bytes [0..<8] 4 (vm s))\<rparr>)", folded s1_def]
  have run: "vga_vblank_handler s = cursor_blink s1" using True by (simp add: vga_vblank_handler_def Let_def s1_def)
  have f: "vm s1 = snd (sync_bytes [0..<8] 4 (vm s))" "cursor_state s1 = cursor_state s" "cursor_enable s1 = cursor_enable s" "late_irq s1 = late_irq s"
    by (simp_all add: s1_def)
  obtain s' where s': "cursor_blink s1 = Some s'" "vga_ok s'" "shown s' = shown s1" "ndirty (vm s') \<le> ndirty (vm s1) + 1"
    "cursor_enable s' = cursor_enable s1" "late_irq s' = late_irq s1" "cursor_state s1 = 0 \<and> cursor_enable s1 = 0 \<longrightarrow> cursor_state s' = 0"
    using blink_ok[OF y(1)] by blast
  have "ndirty (vm s') \<le> ndirty (vm s) - 4 + 1" using s'(4) vblank_sync_ok(3)[OF assms] unfolding f(1) by linarith
  then show ?thesis using s' y(2) f True by (intro exI[of _ s']) (simp add: run)
next
  case False
  then show ?thesis using assms by (simp add: vga_vblank_handler_def vga_ok_def shown_def fun_eq_iff)
qed

lemma vblanks_ok:
  assumes "vga_ok s"
  shows "\<exists>s'. vblanks n s = Some s' \<and> vga_ok s' \<and> shown s' = shown s \<and> cursor_enable s' = cursor_enable s \<and>
    (cursor_state s = 0 \<and> cursor_enable s = 0 \<longrightarrow> cursor_state s' = 0) \<and> (late_irq s = 0 \<longrightarrow> ndirty (vm s') \<le> 1 \<or> ndirty (vm s') + 3 * n \<le> ndirty (vm s))"
  using assms
proof (induction n arbitrary: s)
  case (Suc n)
  obtain s1 where s1: "vga_vblank_handler s = Some s1" "vga_ok s1" "shown s1 = shown s" "late_irq s1 = 0" "cursor_enable s1 = cursor_enable s"
    "cursor_state s = 0 \<and> cursor_enable s = 0 \<longrightarrow> cursor_state s1 = 0" "late_irq s = 0 \<longrightarrow> ndirty (vm s1) \<le> ndirty (vm s) - 4 + 1"
    using vblank_ok[OF Suc.prems] by (elim exE conjE) (rule that; assumption)
  obtain s' where s': "vblanks n s1 = Some s'" "vga_ok s'" "shown s' = shown s1" "cursor_enable s' = cursor_enable s1"
    "cursor_state s1 = 0 \<and> cursor_enable s1 = 0 \<longrightarrow> cursor_state s' = 0" "late_irq s1 = 0 \<longrightarrow> ndirty (vm s') \<le> 1 \<or> ndirty (vm s') + 3 * n \<le> ndirty (vm s1)"
    using Suc.IH[OF s1(2)] by (elim exE conjE) (rule that; assumption)
  have "ndirty (vm s') \<le> 1 \<or> ndirty (vm s') + 3 * Suc n \<le> ndirty (vm s)" if "late_irq s = 0"
  proof -
    have "ndirty (vm s1) \<le> ndirty (vm s) - 4 + 1" "ndirty (vm s') \<le> 1 \<or> ndirty (vm s') + 3 * n \<le> ndirty (vm s1)" using s1(4,7) s'(6) that by blast+
    then show ?thesis by (cases "ndirty (vm s) \<le> 4") auto
  qed
  then show ?case using s1(1,3,5,6) s'(1-5) by (intro exI[of _ s'] conjI impI) simp_all
qed simp

lemma ndirty_bound: "ndirty m \<le> 64"
proof -
  have "ndirty m \<le> card {..<64::nat}" unfolding ndirty_def by (intro card_mono) auto
  then show ?thesis by simp
qed

section \<open>Interrupts while the cursor is off\<close>

text \<open>A row is up to date or will be copied; the interrupt never takes that from it.\<close>

definition row_ok :: "nat \<Rightarrow> vmem \<Rightarrow> bool" where
  "row_ok k m \<longleftrightarrow> dirty k m \<or> (\<forall>x < 80. vram k x m = cell (k * 80 + x) m)"

lemma clean_rows_row: "clean_rows m \<longleftrightarrow> (\<forall>k < 64. row_ok k m)"
  by (auto simp: clean_rows_def row_ok_def)

lemma sync_one_row:
  assumes "vm_ok m" and "l < 64" and "k < 64" and "row_ok k m"
  shows "row_ok k (sync_one l m)"
  using assms(3,4) sync_one_mem[OF assms(1,2)] row_end[OF assms(3)] by (cases "k = l") (auto simp: row_ok_def)

lemma sync_rows_row:
  assumes "vm_ok m" and "set ls \<subseteq> {..<64}" and "sync_rows ls limit m = (limit', m')" and "k < 64" and "row_ok k m"
  shows "row_ok k m'"
  using assms
proof (induction ls arbitrary: limit m)
  case (Cons l ls)
  have l: "l < 64" using Cons.prems(2) by simp
  show ?case
  proof (cases "limit = 0 \<or> \<not> dirty l m")
    case True
    then show ?thesis using Cons by (auto split: if_splits)
  next
    case False
    then have "sync_rows ls (limit - 1) (sync_one l m) = (limit', m')" using Cons.prems(3) by simp
    then show ?thesis using Cons.IH[of "sync_one l m"] sync_one_mem(1)[OF Cons.prems(1) l]
      sync_one_row[OF Cons.prems(1) l Cons.prems(4,5)] Cons.prems(2,4) by simp
  qed
qed simp

definition cursor_off :: "vga_st \<Rightarrow> bool" where
  "cursor_off s \<longleftrightarrow> vm_ok (vm s) \<and> cursor_state s = 0 \<and> cursor_enable s = 0"

text \<open>What the interrupt may do then: copy rows and clear their bits.\<close>

definition irq_keeps :: "vga_st \<Rightarrow> vga_st \<Rightarrow> bool" where
  "irq_keeps s s' \<longleftrightarrow> cursor_off s' \<and> (\<forall>i < VDIRTY. cell i (vm s') = cell i (vm s)) \<and>
     (\<forall>k < 64. (dirty k (vm s') \<longrightarrow> dirty k (vm s)) \<and> (row_ok k (vm s) \<longrightarrow> row_ok k (vm s'))) \<and>
     cursor_x s' = cursor_x s \<and> cursor_y s' = cursor_y s \<and> scroll s' = scroll s"

lemma irq_keepsD:
  assumes "irq_keeps s s'"
  shows "cursor_off s'" and "i < VDIRTY \<Longrightarrow> cell i (vm s') = cell i (vm s)" and "k < 64 \<Longrightarrow> dirty k (vm s') \<Longrightarrow> dirty k (vm s)"
    and "k < 64 \<Longrightarrow> row_ok k (vm s) \<Longrightarrow> row_ok k (vm s')"
    and "cursor_x s' = cursor_x s" and "cursor_y s' = cursor_y s" and "scroll s' = scroll s"
  using assms by (simp_all add: irq_keeps_def)

lemma irq_keeps_trans: "irq_keeps s t \<Longrightarrow> irq_keeps t u \<Longrightarrow> irq_keeps s u"
  by (simp add: irq_keeps_def)

lemma irq_keeps_refl: "cursor_off s \<Longrightarrow> irq_keeps s s"
  by (simp add: irq_keeps_def)

lemma irq_keeps_shown: "irq_keeps s s' \<Longrightarrow> cursor_off s \<Longrightarrow> shown s' = shown s"
  by (simp add: irq_keeps_def cursor_off_def shown_def fun_eq_iff row_end)

lemma irq_keeps_clean: "irq_keeps s s' \<Longrightarrow> clean_rows (vm s) \<Longrightarrow> clean_rows (vm s')"
  by (simp add: irq_keeps_def clean_rows_row)

lemma vblank_off:
  assumes "cursor_off s"
  shows "\<exists>s'. vga_vblank_handler s = Some s' \<and> irq_keeps s s'"
proof (cases "late_irq s = 0")
  case True
  obtain l m where r: "sync_rows [0..<64] 4 (vm s) = (l, m)" by (cases "sync_rows [0..<64] 4 (vm s)")
  have e: "sync_bytes [0..<8] 4 (vm s) = (l, m)" unfolding sync_bytes_rows all_rows by (rule r)
  have sub: "set [0..<64] \<subseteq> {..<64::nat}" unfolding set_upt by auto
  have ok: "vm_ok (vm s)" using assms by (simp add: cursor_off_def)
  have m: "vm_ok m" "\<forall>i < VDIRTY. cell i m = cell i (vm s)" "\<forall>k < 64. dirty k m \<longrightarrow> dirty k (vm s)"
    using sync_rows_mem[OF ok sub r] by blast+
  have "\<forall>k < 64. row_ok k (vm s) \<longrightarrow> row_ok k m" using sync_rows_row[OF ok sub r] by blast
  then show ?thesis using True assms m
    by (simp add: vga_vblank_handler_def Let_def e cursor_blink_def irq_keeps_def cursor_off_def)
next
  case False
  then show ?thesis using assms by (simp add: vga_vblank_handler_def irq_keeps_def cursor_off_def)
qed

lemma vblanks_off: "cursor_off s \<Longrightarrow> \<exists>s'. vblanks n s = Some s' \<and> irq_keeps s s'"
proof (induction n arbitrary: s)
  case (Suc n)
  obtain s1 where s1: "vga_vblank_handler s = Some s1" "irq_keeps s s1" using vblank_off[OF Suc.prems] by blast
  obtain s' where "vblanks n s1 = Some s'" "irq_keeps s1 s'" using Suc.IH[OF irq_keepsD(1)[OF s1(2)]] by blast
  then show ?case using s1 irq_keeps_trans by auto
qed (simp add: irq_keeps_refl)

section \<open>A new line between interrupts\<close>

lemma put_cell_row:
  assumes "vm_ok m" and "i < VDIRTY" and "k < 64" and "\<not> (k * 80 \<le> i \<and> i < k * 80 + 80)" and "row_ok k m"
  shows "row_ok k (put_cell i c m)"
  using assms by (auto simp: row_ok_def dirty_put vram_put VDIRTY_end cell_put row_end)

lemma memset_irqs_ok:
  assumes "cursor_off s" and "y < 64" and "y * 80 \<le> i" and "i + n \<le> y * 80 + 80"
  shows "\<exists>s'. memset_irqs w i c n s = Some s' \<and> cursor_off s' \<and> cursor_x s' = cursor_x s \<and> cursor_y s' = cursor_y s \<and> scroll s' = scroll s \<and>
    (\<forall>j < VDIRTY. cell j (vm s') = (if i \<le> j \<and> j < i + n then c else cell j (vm s))) \<and>
    (\<forall>k < 64. k \<noteq> y \<longrightarrow> row_ok k (vm s) \<longrightarrow> row_ok k (vm s'))"
  using assms(1,3,4)
proof (induction n arbitrary: i s)
  case (Suc n)
  have i: "i < VDIRTY" using Suc.prems(3) assms(2) by (simp add: VDIRTY_def)
  have ok: "vm_ok (vm s)" using Suc.prems(1) by (simp add: cursor_off_def)
  define s0 where "s0 = s\<lparr>vm := put_cell i c (vm s)\<rparr>"
  have off0: "cursor_off s0" using Suc.prems(1) by (simp add: s0_def cursor_off_def)
  have cell0: "cell j (vm s0) = (if j = i then c else cell j (vm s))" if "j < VDIRTY" for j
    using ok i that by (simp add: s0_def cell_put VDIRTY_end)
  have row0: "row_ok k (vm s0)" if "k < 64" "k \<noteq> y" "row_ok k (vm s)" for k
    unfolding s0_def using put_cell_row[OF ok i that(1) _ that(3)] that(2) Suc.prems(2,3) by simp
  obtain s1 where s1: "vblanks (w n) s0 = Some s1" "irq_keeps s0 s1" using vblanks_off[OF off0] by blast
  note k = irq_keepsD[OF s1(2)]
  obtain s' where s': "memset_irqs w (i + 1) c n s1 = Some s'" "cursor_off s'" "cursor_x s' = cursor_x s1" "cursor_y s' = cursor_y s1" "scroll s' = scroll s1"
    "\<forall>j < VDIRTY. cell j (vm s') = (if i + 1 \<le> j \<and> j < i + 1 + n then c else cell j (vm s1))"
    "\<forall>k < 64. k \<noteq> y \<longrightarrow> row_ok k (vm s1) \<longrightarrow> row_ok k (vm s')"
    using Suc.IH[OF k(1), of "i + 1"] Suc.prems(2,3) by auto
  have "cell j (vm s') = (if i \<le> j \<and> j < i + Suc n then c else cell j (vm s))" if "j < VDIRTY" for j
    using s'(6) k(2)[OF that] cell0[OF that] that by auto
  moreover have "row_ok k (vm s')" if "k < 64" "k \<noteq> y" "row_ok k (vm s)" for k
    using s'(7) k(4)[OF that(1) row0[OF that]] that by blast
  ultimately show ?case using s1(1) s'(1-5) k(5-7) by (simp add: s0_def)
qed auto

lemma mark_dirty_irqs_ok:
  assumes off: "cursor_off s" and y: "y < 64" and rows: "\<And>k. k < 64 \<Longrightarrow> k \<noteq> y \<Longrightarrow> row_ok k (vm s)"
  shows "\<exists>s'. mark_dirty_irqs n y s = Some s' \<and> cursor_off s' \<and> clean_rows (vm s') \<and>
    cursor_x s' = cursor_x s \<and> cursor_y s' = cursor_y s \<and> scroll s' = scroll s \<and> (\<forall>j < VDIRTY. cell j (vm s') = cell j (vm s))"
proof -
  define i where "i = VDIRTY + y div 8"
  define b where "b = cell i (vm s) OR push_bit (y mod 8) 1"
  have i: "i < VEND" unfolding i_def by (rule byte_end[OF y])
  obtain s1 where s1: "vblanks n s = Some s1" "irq_keeps s s1" using vblanks_off[OF off] by blast
  note k = irq_keepsD[OF s1(2)]
  have ok1: "vm_ok (vm s1)" using k(1) by (simp add: cursor_off_def)
  define m where "m = put_cell i b (vm s1)"
  have cellm: "cell j m = cell j (vm s1)" if "j < VDIRTY" for j
    using that ok1 i by (simp add: m_def cell_put VDIRTY_end) (simp add: i_def)
  have dm: "dirty l m \<longleftrightarrow> (if l div 8 = y div 8 then dirty l (vm s) \<or> l = y else dirty l (vm s1))" if l: "l < 64" for l
  proof -
    have "cell (VDIRTY + l div 8) m = (if l div 8 = y div 8 then b else cell (VDIRTY + l div 8) (vm s1))"
      using ok1 i byte_end[OF l] by (simp add: m_def cell_put) (auto simp: i_def)
    then show ?thesis by (auto simp: dirty_def b_def i_def bit_or_iff bit_exp_iff same_row)
  qed
  have "row_ok l m" if l: "l < 64" for l
  proof (cases "l = y")
    case True
    then show ?thesis using dm[OF l] by (simp add: row_ok_def)
  next
    case False
    have v: "vram l x m = vram l x (vm s1)" for x using ok1 i by (simp add: m_def vram_put)
    have "row_ok l (vm s1)" by (rule k(4)[OF l rows[OF l False]])
    moreover have "dirty l (vm s1) \<longrightarrow> dirty l m" using dm[OF l] k(3)[OF l] by auto
    ultimately show ?thesis unfolding row_ok_def v using cellm row_end[OF l] by auto
  qed
  then have "clean_rows m" by (simp add: clean_rows_row)
  moreover have "cursor_off (s1\<lparr>vm := m\<rparr>)" using k(1) by (simp add: cursor_off_def m_def)
  moreover have "mark_dirty_irqs n y s = Some (s1\<lparr>vm := m\<rparr>)"
    using s1(1) unfolding mark_dirty_irqs_def Let_def i_def[symmetric] b_def[symmetric] m_def by simp
  ultimately show ?thesis using k(2,5-7) cellm by simp
qed

lemma scroll_step: "(r + u8 (Suc sc)) mod 64 = Suc (r + sc) mod 64"
proof -
  have "(r + (sc + 1) mod 256) mod 64 = (r + ((sc + 1) mod 256) mod 64) mod 64" by (simp add: mod_simps)
  also have "((sc + 1) mod 256) mod 64 = (sc + 1) mod 64" by (rule mod_mod_cancel) simp
  finally show ?thesis by (simp add: u8_def mod_simps)
qed

lemma vga_new_line_ok:
  assumes off: "cursor_off s" and cl: "clean_rows (vm s)" and yy: "cursor_y s < 60"
  shows "\<exists>s'. vga_new_line w s = Some s' \<and> cursor_off s' \<and> clean_rows (vm s') \<and> cursor_y s' < 60 \<and> cursor_x s' = cursor_x s \<and>
    shown s' = term_newline (shown s)"
proof -
  define s0 where "s0 = s\<lparr>cursor_y := u8 (cursor_y s + 1)\<rparr>"
  have s0: "cursor_off s0" "vm s0 = vm s" "cursor_x s0 = cursor_x s" "scroll s0 = scroll s" "cursor_y s0 = cursor_y s + 1"
    using off yy by (simp_all add: s0_def cursor_off_def)
  obtain s1 where s1: "vblanks (w 0) s0 = Some s1" "irq_keeps s0 s1" using vblanks_off[OF s0(1)] by blast
  note k1 = irq_keepsD[OF s1(2)]
  have cl1: "clean_rows (vm s1)" using irq_keeps_clean[OF s1(2)] cl s0(2) by simp
  have st: "cursor_state s = 0" using off by (simp add: cursor_off_def)
  show ?thesis
  proof (cases "cursor_y s + 1 < 60")
    case True
    then have "vga_new_line w s = Some s1" using s1(1) k1(6) s0(5) by (simp add: vga_new_line_def s0_def VGA_ROWS_def)
    moreover have "shown s1 = term_newline (shown s)"
      using irq_keeps_shown[OF s1(2) s0(1)] s0 st True by (simp add: s0_def shown_def term_newline_def fun_eq_iff)
    ultimately show ?thesis using k1 cl1 s0 True by simp
  next
    case False
    then have y59: "cursor_y s = 59" using yy by simp
    define t1 where "t1 = s1\<lparr>cursor_y := VGA_ROWS - 1\<rparr>"
    have "cursor_off t1" using k1(1) by (simp add: t1_def cursor_off_def)
    then obtain s2 where s2: "vblanks (w 1) t1 = Some s2" "irq_keeps t1 s2" using vblanks_off by blast
    note k2 = irq_keepsD[OF s2(2)]
    have f2: "cursor_x s2 = cursor_x s" "scroll s2 = scroll s" "cursor_y s2 = 59" "clean_rows (vm s2)"
      using k2(5-7) k1(5,7) s0 irq_keeps_clean[OF s2(2)] cl1 by (simp_all add: t1_def VGA_ROWS_def)
    have c2: "cell j (vm s2) = cell j (vm s)" if "j < VDIRTY" for j
      using k2(2)[OF that] k1(2)[OF that] s0(2) by (simp add: t1_def)
    define y where "y = ring_row VGA_ROWS s2"
    have y: "y < 64" "y = (60 + scroll s) mod 64" using f2(2) by (simp_all add: y_def ring_row_mod VGA_ROWS_def)
    obtain s3 where s3: "memset_irqs (\<lambda>k. w (k + 5)) (y * 80) 32 80 s2 = Some s3" "cursor_off s3" "cursor_x s3 = cursor_x s2"
      "cursor_y s3 = cursor_y s2" "scroll s3 = scroll s2" "\<forall>j < VDIRTY. cell j (vm s3) = (if y * 80 \<le> j \<and> j < y * 80 + 80 then 32 else cell j (vm s2))"
      "\<forall>k < 64. k \<noteq> y \<longrightarrow> row_ok k (vm s2) \<longrightarrow> row_ok k (vm s3)"
      using memset_irqs_ok[OF k2(1) y(1) order_refl, of 80 "\<lambda>k. w (k + 5)" 32] by auto
    have "row_ok k (vm s3)" if "k < 64" "k \<noteq> y" for k using s3(7) f2(4) that by (simp add: clean_rows_row)
    from mark_dirty_irqs_ok[OF s3(2) y(1) this, of "w 2"] obtain s4 where s4: "mark_dirty_irqs (w 2) y s3 = Some s4" "cursor_off s4" "clean_rows (vm s4)"
      "cursor_x s4 = cursor_x s3" "cursor_y s4 = cursor_y s3" "scroll s4 = scroll s3" "\<forall>j < VDIRTY. cell j (vm s4) = cell j (vm s3)" by blast
    obtain s5 where s5: "vblanks (w 3) s4 = Some s5" "irq_keeps s4 s5" using vblanks_off[OF s4(2)] by blast
    note k5 = irq_keepsD[OF s5(2)]
    define t5 where "t5 = s5\<lparr>scroll := u8 (scroll s5 + 1)\<rparr>"
    have t5: "cursor_off t5" "clean_rows (vm t5)" using k5(1) irq_keeps_clean[OF s5(2) s4(3)] by (simp_all add: t5_def cursor_off_def)
    obtain s' where s': "vblanks (w 4) t5 = Some s'" "irq_keeps t5 s'" using vblanks_off[OF t5(1)] by blast
    note k' = irq_keepsD[OF s'(2)]
    have f5: "cursor_x t5 = cursor_x s" "cursor_y t5 = 59" "scroll t5 = u8 (Suc (scroll s))"
      using k5(5-7) s4(4-6) s3(3-5) f2 by (simp_all add: t5_def)
    have run: "vga_new_line w s = Some s'"
      using s1(1) s2(1) s3(1) s4(1) s5(1) s'(1) k1(6) s0(5) y59
      by (simp add: vga_new_line_def s0_def t1_def t5_def VGA_ROWS_def VGA_COLS_def y_def Let_def)
    have ct: "cell (k * 80 + x) (vm t5) = (if k = y then 32 else cell (k * 80 + x) (vm s))" if "k < 64" "x < 80" for k x
    proof -
      have "y * 80 \<le> k * 80 + x \<and> k * 80 + x < y * 80 + 80 \<longleftrightarrow> k = y" using that(2) by linarith
      then show ?thesis using k5(2) s4(7) s3(6) c2 row_end[OF that] by (simp add: t5_def)
    qed
    have up: "cell (Suc (r + scroll s) mod 64 * 80 + x) (vm t5) = (if r < 59 then cell ((Suc r + scroll s) mod 64 * 80 + x) (vm s) else 32)" if "r < 60" "x < 80" for r x
      using that ring_row_inj[of "Suc r" 60 "scroll s"] by (auto simp: ct y(2))
    have last: "cell ((60 + scroll s) mod 64 * 80 + x) (vm t5) = 32" if "x < 80" for x using that y by (simp add: ct)
    have "shown t5 = term_newline (shown s)"
      using y59 st t5(1) f5 by (auto simp: shown_def term_newline_def scroll_step up last fun_eq_iff less_Suc_eq cursor_off_def)
    then have "shown s' = term_newline (shown s)" using irq_keeps_shown[OF s'(2) t5(1)] by simp
    then show ?thesis using run k' irq_keeps_clean[OF s'(2) t5(2)] f5 by simp
  qed
qed

lemma vblanks_plain:
  assumes "cursor_off s" and "clean_rows (vm s)" and "cursor_x s < 80" and "cursor_y s < 60"
  shows "\<exists>s'. vblanks n s = Some s' \<and> cursor_off s' \<and> clean_rows (vm s') \<and> cursor_x s' = cursor_x s \<and> cursor_y s' = cursor_y s \<and> shown s' = shown s"
proof -
  obtain s' where "vblanks n s = Some s'" "irq_keeps s s'" using vblanks_off[OF assms(1)] by blast
  then show ?thesis using irq_keepsD[of s s'] irq_keeps_clean[of s s'] irq_keeps_shown[of s s'] assms by auto
qed

lemma putchar_switch_ok:
  assumes ok: "vga_ok s" and off: "cursor_off s" and tab: "c = 9 \<longrightarrow> cursor_x s < 76"
  shows "\<exists>s'. vga_putchar_switch w c s = Some s' \<and> vga_ok s' \<and> shown s' = term_put c (shown s) \<and> cursor_off s'"
proof -
  have s: "vm_ok (vm s)" "clean_rows (vm s)" "cursor_x s < 80" "cursor_y s < 60" "cursor_state s = 0" "cursor_enable s = 0"
    using ok off by (simp_all add: vga_ok_def cursor_off_def)
  have offx: "cursor_off (t\<lparr>cursor_x := x\<rparr>) = cursor_off t" for t x by (simp add: cursor_off_def)
  have shx: "shown (t\<lparr>cursor_x := x\<rparr>) = (shown t)\<lparr>t_x := x\<rparr>" if "cursor_off t" for t x
    using that by (simp add: shown_def fun_eq_iff cursor_off_def)
  have vok: "vga_ok t \<longleftrightarrow> clean_rows (vm t) \<and> cursor_x t < 80 \<and> cursor_y t < 60" if "cursor_off t" for t
    using that by (auto simp: vga_ok_def cursor_off_def)
  consider "c = 9" | "c = 13" | "c = 10" | "c \<noteq> 9" "c \<noteq> 13" "c \<noteq> 10" by blast
  then show ?thesis
  proof cases
    case 1
    then have x: "cursor_x s < 76" using tab by simp
    define t where "t = s\<lparr>cursor_x := u8 (cursor_x s + TAB_SIZE)\<rparr>"
    have t: "cursor_off t" "clean_rows (vm t)" "cursor_x t = cursor_x s + 4" "cursor_y t < 60"
      using off s x by (simp_all add: t_def offx TAB_SIZE_def)
    obtain s1 where s1: "vblanks (w 0) t = Some s1" "cursor_off s1" "clean_rows (vm s1)" "cursor_x s1 = cursor_x t" "cursor_y s1 = cursor_y t" "shown s1 = shown t"
      using vblanks_plain[OF t(1,2) _ t(4)] t(3) x by auto
    define t1 where "t1 = s1\<lparr>cursor_x := cursor_x s1 - cursor_x s1 mod TAB_SIZE\<rparr>"
    have tx: "cursor_x t1 = (cursor_x s + 4) div 4 * 4" using s1(4) t(3) unfolding t1_def TAB_SIZE_def
      by (simp only: minus_mod_eq_div_mult) simp
    have l: "(cursor_x s + 4) div 4 * 4 < 80" using x by (simp add: div_less_iff_less_mult)
    have t1: "cursor_off t1" "clean_rows (vm t1)" "cursor_x t1 < 80" "cursor_y t1 < 60"
      using s1 t tx l by (simp_all add: t1_def offx)
    obtain s' where s': "vblanks (w 1) t1 = Some s'" "cursor_off s'" "clean_rows (vm s')" "cursor_x s' = cursor_x t1" "cursor_y s' = cursor_y t1" "shown s' = shown t1"
      using vblanks_plain[OF t1] by auto
    have "shown t1 = (shown s)\<lparr>t_x := cursor_x t1\<rparr>" using s1(2,6) off by (simp add: t1_def shx t_def)
    then have "shown s' = term_put c (shown s)" using 1 s'(6) tx by (simp add: term_put_def shown_def)
    moreover have "vga_putchar_switch w c s = Some s'" using 1 s1(1) s'(1) by (simp add: vga_putchar_switch_def t_def t1_def)
    ultimately show ?thesis using s' t1 vok[OF s'(2)] by auto
  next
    case 2
    define t where "t = s\<lparr>cursor_x := 0\<rparr>"
    have t: "cursor_off t" "clean_rows (vm t)" "cursor_x t < 80" "cursor_y t < 60" using off s by (simp_all add: t_def offx)
    obtain s' where s': "vblanks (w 0) t = Some s'" "cursor_off s'" "clean_rows (vm s')" "cursor_x s' = cursor_x t" "cursor_y s' = cursor_y t" "shown s' = shown t"
      using vblanks_plain[OF t] by auto
    then show ?thesis using 2 t vok[OF s'(2)] off by (simp add: vga_putchar_switch_def t_def term_put_def shx)
  next
    case 3
    obtain s' where "vga_new_line w s = Some s'" "cursor_off s'" "clean_rows (vm s')" "cursor_y s' < 60" "cursor_x s' = cursor_x s"
      "shown s' = term_newline (shown s)" using vga_new_line_ok[OF off s(2,4)] by blast
    then show ?thesis using 3 s vok[of s'] by (simp add: vga_putchar_switch_def term_put_def)
  next
    case 4
    obtain s1 where s1: "vga_set c s = Some s1" using vga_set_ok[OF ok, of c] by blast
    note st = shown_set[OF ok s(5) s1]
    have off1: "cursor_off s1" using st(1,5,6) s(6) by (simp add: cursor_off_def vga_ok_def)
    obtain s2 where s2: "vblanks (w 0) s1 = Some s2" "cursor_off s2" "clean_rows (vm s2)" "cursor_x s2 = cursor_x s1" "cursor_y s2 = cursor_y s1" "shown s2 = shown s1"
      using vblanks_plain[OF off1] st(1,3,4) s by (auto simp: vga_ok_def)
    define t where "t = s2\<lparr>cursor_x := u8 (cursor_x s2 + 1)\<rparr>"
    have t: "cursor_off t" "cursor_x t = cursor_x s + 1" using s2 st(3) s(3) by (simp_all add: t_def offx)
    obtain s3 where s3: "vblanks (w 1) t = Some s3" "irq_keeps t s3" using vblanks_off[OF t(1)] by blast
    note k3 = irq_keepsD[OF s3(2)]
    have f3: "clean_rows (vm s3)" "cursor_x s3 = cursor_x s + 1" "cursor_y s3 = cursor_y s" "shown s3 = (shown s1)\<lparr>t_x := cursor_x s + 1\<rparr>"
      using irq_keeps_clean[OF s3(2)] s2 k3(5,6) t st(4) irq_keeps_shown[OF s3(2) t(1)] by (simp_all add: t_def shx)
    have tx: "t_x (shown s) = cursor_x s" "t_y (shown s) = cursor_y s" by (simp_all add: shown_def)
    show ?thesis
    proof (cases "cursor_x s + 1 < 80")
      case True
      have "vga_putchar_switch w c s = Some s3" using 4 s1 s2(1) s3(1) f3(2) True by (simp add: vga_putchar_switch_def t_def VGA_COLS_def)
      then show ?thesis using True 4 f3 k3(1) vok[OF k3(1)] s st(2) by (simp add: term_put_def tx Let_def)
    next
      case False
      define t3 where "t3 = s3\<lparr>cursor_x := 0\<rparr>"
      have t3: "cursor_off t3" "clean_rows (vm t3)" "cursor_x t3 < 80" "cursor_y t3 < 60" using k3(1) f3 s by (simp_all add: t3_def offx)
      obtain s4 where s4: "vblanks (w 2) t3 = Some s4" "cursor_off s4" "clean_rows (vm s4)" "cursor_x s4 = cursor_x t3" "cursor_y s4 = cursor_y t3" "shown s4 = shown t3"
        using vblanks_plain[OF t3] by auto
      have "cursor_y s4 < 60" using s4(5) t3(4) by simp
      from vga_new_line_ok[OF s4(2,3) this, of "\<lambda>k. w (k + 3)"] obtain s' where s': "vga_new_line (\<lambda>k. w (k + 3)) s4 = Some s'" "cursor_off s'" "clean_rows (vm s')"
        "cursor_y s' < 60" "cursor_x s' = cursor_x s4" "shown s' = term_newline (shown s4)" by blast
      have "vga_putchar_switch w c s = Some s'"
        using 4 s1 s2(1) s3(1) f3(2) False s4(1) s'(1) by (simp add: vga_putchar_switch_def t_def t3_def VGA_COLS_def)
      moreover have "shown s4 = (shown s1)\<lparr>t_x := 0\<rparr>" using s4(6) f3(4) k3(1) by (simp add: t3_def shx)
      ultimately show ?thesis using False 4 s' s4(4) vok[OF s'(2)] st(2) by (simp add: term_put_def tx Let_def t3_def)
    qed
  qed
qed

lemma vga_putchar_ok:
  assumes "vga_ok s" and "c = 9 \<longrightarrow> cursor_x s < 76"
  shows "\<exists>s'. vga_putchar w c s = Some s' \<and> vga_ok s' \<and> shown s' = term_put c (shown s) \<and> cursor_enable s' = cursor_enable s"
proof -
  obtain s1 where s1: "vga_putchar_begin s = Some (cursor_enable s, s1)" "vga_ok s1" "shown s1 = shown s" "cursor_state s1 = 0" "cursor_enable s1 = 0"
    using putchar_begin_ok[OF assms(1)] by (elim exE conjE) (rule that; assumption)
  have off1: "cursor_off s1" "clean_rows (vm s1)" "cursor_x s1 < 80" "cursor_y s1 < 60" using s1 by (simp_all add: cursor_off_def vga_ok_def)
  obtain s2 where s2: "vblanks (w 0) s1 = Some s2" "cursor_off s2" "clean_rows (vm s2)" "cursor_x s2 = cursor_x s1" "cursor_y s2 = cursor_y s1" "shown s2 = shown s1"
    using vblanks_plain[OF off1, of "w 0"] by (elim exE conjE) (rule that; assumption)
  have ok2: "vga_ok s2" using s2 off1 by (simp add: vga_ok_def cursor_off_def)
  have "t_x (shown s1) = t_x (shown s)" using s1(3) by simp
  then have "c = 9 \<longrightarrow> cursor_x s2 < 76" using assms(2) s2(4) by (simp add: shown_def)
  from putchar_switch_ok[OF ok2 s2(2) this, of "\<lambda>k. w (k + 1)"] obtain s3 where s3: "vga_putchar_switch (\<lambda>k. w (k + 1)) c s2 = Some s3" "vga_ok s3"
    "shown s3 = term_put c (shown s2)" by (elim exE conjE) (rule that; assumption)
  have "vga_putchar w c s = Some (s3\<lparr>cursor_enable := cursor_enable s\<rparr>)" using s1(1) s2(1) s3(1) by (simp add: vga_putchar_def)
  moreover have "vga_ok (s3\<lparr>cursor_enable := e\<rparr>)" "shown (s3\<lparr>cursor_enable := e\<rparr>) = shown s3" for e
    using s3(2) by (simp_all add: vga_ok_def shown_def fun_eq_iff)
  ultimately show ?thesis using s3(3) s2(6) s1(3) by simp
qed

text \<open>C14. A character other than a tab past column 75 is printed on the screen the way a terminal does, with any
  number of interrupts after each of the steps of \<open>vga_putchar\<close> and \<open>vga_new_line\<close> outside of their critical sections:
  the rows, the position, the scrolling at the last row, and the blinking cursor never stays in the text. Every row is
  then in the video memory or marked to be copied (part of \<open>vga_ok\<close>).
\<close>

theorem vga_putchar_terminal:
  assumes "vga_ok s" and "c = 9 \<longrightarrow> cursor_x s < 76"
  shows "\<exists>s'. vga_putchar w c s = Some s' \<and> vga_ok s' \<and> shown s' = term_put c (shown s) \<and> cursor_enable s' = cursor_enable s"
  by (rule vga_putchar_ok[OF assms])

text \<open>C16. The screen catches up: 21 interrupts after the last write all rows but at most one, that of the cursor, are in
  the video memory as they are in the buffer.
\<close>

theorem vga_catches_up:
  assumes "vga_ok s" and "late_irq s = 0" and "n \<ge> 21"
  shows "\<exists>s'. vblanks n s = Some s' \<and> shown s' = shown s \<and> (\<exists>d. \<forall>k < 64. k \<noteq> d \<longrightarrow> (\<forall>x < 80. vram k x (vm s') = cell (k * 80 + x) (vm s')))"
proof -
  obtain s' where s': "vblanks n s = Some s'" "vga_ok s'" "shown s' = shown s" "ndirty (vm s') \<le> 1 \<or> ndirty (vm s') + 3 * n \<le> ndirty (vm s)"
    using vblanks_ok[OF assms(1), of n] assms(2) by (elim exE conjE) (rule that; simp)
  then have "ndirty (vm s') \<le> 1" using ndirty_bound[of "vm s"] assms(3) by linarith
  then have one: "\<forall>a \<in> {k. k < 64 \<and> dirty k (vm s')}. \<forall>b \<in> {k. k < 64 \<and> dirty k (vm s')}. a = b"
    unfolding ndirty_def by (subst (asm) One_nat_def, subst (asm) card_le_Suc0_iff_eq) auto
  define d where "d = (if \<exists>k < 64. dirty k (vm s') then LEAST k. k < 64 \<and> dirty k (vm s') else 0)"
  have "k = d" if "k < 64" "dirty k (vm s')" for k
  proof -
    have "d < 64 \<and> dirty d (vm s')" using that LeastI[of "\<lambda>k. k < 64 \<and> dirty k (vm s')" k] by (auto simp: d_def)
    then show ?thesis using one that by simp
  qed
  then have "\<forall>k < 64. k \<noteq> d \<longrightarrow> (\<forall>x < 80. vram k x (vm s') = cell (k * 80 + x) (vm s'))"
    using s'(2) unfolding vga_ok_def clean_rows_def by blast
  then show ?thesis using s'(1,3) by (intro exI[of _ s'] exI[of _ d] conjI)
qed

text \<open>A tab past column 75 moves the position to column 80, and the next character is written past its row: into
  the first column of the next row of the ring, or, from the last row of the ring, into the bits of the rows
  0 to 7, which are then copied or forgotten as the bits of the character say.
\<close>

theorem vga_tab_overruns_row:
  assumes "vga_ok s" and "cursor_x s \<ge> 76"
  shows "\<exists>s1 m. vga_putchar_switch (\<lambda>_. 0) 9 s = Some s1 \<and> cursor_x s1 = 80 \<and> vga_set c s1 = Some (s1\<lparr>vm := m\<rparr>) \<and>
    (if ring_row (cursor_y s) s < 63 then cell ((ring_row (cursor_y s) s + 1) * 80) m = c else (\<forall>k < 8. dirty k m = bit c k))"
proof -
  have ok: "vm_ok (vm s)" "cursor_x s < 80" using assms(1) by (simp_all add: vga_ok_def)
  define y where "y = ring_row (cursor_y s) s"
  have y: "y < 64" by (simp add: y_def)
  define m where "m = vga_mark_dirty y (put_cell (y * 80 + 80) c (vm s))"
  have "(cursor_x s + 4) div 4 * 4 = 80"
  proof -
    have "(cursor_x s + 4) div 4 = 20" using assms(2) ok(2) by (intro div_nat_eqI) simp_all
    then show ?thesis by simp
  qed
  then have s1: "vga_putchar_switch (\<lambda>_. 0) 9 s = Some (s\<lparr>cursor_x := 80\<rparr>)"
    using tab_stop[of "cursor_x s"] ok(2) by (simp add: vga_putchar_switch_def Let_def TAB_SIZE_def del: u8_id)
  have e: "y * 80 + 80 < VEND" using y by (simp add: VEND_def VDIRTY_def)
  have set: "vga_set c (s\<lparr>cursor_x := 80\<rparr>) = Some (s\<lparr>cursor_x := 80, vm := m\<rparr>)"
    using e by (simp add: vga_set_def Let_def ring_row_def y_def m_def)
  have pk: "vm_ok (put_cell (y * 80 + 80) c (vm s))" using ok(1) by simp
  have "cell ((y + 1) * 80) m = c" if "y < 63"
  proof -
    have "(y + 1) * 80 < VDIRTY" using that by (simp add: VDIRTY_def)
    then have "cell ((y + 1) * 80) m = cell ((y + 1) * 80) (put_cell (y * 80 + 80) c (vm s))" unfolding m_def by (rule cell_mark[OF pk y])
    then show ?thesis using cell_put[OF ok(1) e e] by (simp add: add.commute)
  qed
  moreover have "dirty k m = bit c k" if "\<not> y < 63" "k < 8" for k
  proof -
    have y63: "y = 63" using that y by simp
    have "dirty k m \<longleftrightarrow> k = y \<or> dirty k (put_cell (y * 80 + 80) c (vm s))" unfolding m_def by (rule dirty_mark[OF pk y]) (use that in simp)
    then show ?thesis using that(2) ok(1) e by (simp add: y63 dirty_def cell_put VDIRTY_def)
  qed
  ultimately show ?thesis using s1 set by (intro exI[of _ "s\<lparr>cursor_x := 80\<rparr>"] exI[of _ m]) (simp add: y_def)
qed

section \<open>Witnesses\<close>

definition demo_screen :: "nat \<Rightarrow> vga_st" where
  "demo_screen x = \<lparr>vm = \<lparr>phys = (\<lambda>_. 0), mregs = \<lparr>CBAR = 254, CBR = 0, BBR = 2\<rparr>, va = 4096\<rparr>, cursor_x = x, cursor_y = 59, cursor_state = 0,
     cursor_prev = 0, cursor_counter = 0, cursor_enable = 1, vga_rom = 0, scroll = 4, late_irq = 0, ioa = 0\<rparr>"

lemma demo_screen_ok: "x < 80 \<Longrightarrow> vga_ok (demo_screen x)"
  by (simp add: vga_ok_def demo_screen_def vm_ok_def kernel_layout_def clean_rows_def vram_def cell_def vga_consts)

theorem vga_putchar_terminal_witness:
  "\<exists>s'. vga_putchar (\<lambda>k. k mod 3) 65 (demo_screen 7) = Some s' \<and> t_char (shown s') 59 7 = 65 \<and> t_x (shown s') = 8"
proof -
  have d: "t_x (shown (demo_screen 7)) = 7" "t_y (shown (demo_screen 7)) = 59" by (simp_all add: shown_def demo_screen_def)
  obtain s' where "vga_putchar (\<lambda>k. k mod 3) 65 (demo_screen 7) = Some s'" "shown s' = term_put 65 (shown (demo_screen 7))"
    using vga_putchar_terminal[OF demo_screen_ok, of 7 65 "\<lambda>k. k mod 3"] by auto
  moreover have "t_char (term_put 65 (shown (demo_screen 7))) 59 7 = 65" "t_x (term_put 65 (shown (demo_screen 7))) = 8"
    by (simp_all add: term_put_def d)
  ultimately show ?thesis by metis
qed

theorem vga_catches_up_witness: "\<exists>s'. vblanks 30 (demo_screen 7) = Some s' \<and> shown s' = shown (demo_screen 7)"
  using vga_catches_up[OF demo_screen_ok, of 7 30] by (auto simp: demo_screen_def)

theorem vga_tab_overruns_row_witness:
  "\<exists>s1 m. vga_putchar_switch (\<lambda>_. 0) 9 (demo_screen 76) = Some s1 \<and> vga_set 8 s1 = Some (s1\<lparr>vm := m\<rparr>) \<and> dirty 3 m \<and> \<not> dirty 4 m"
proof -
  have r: "ring_row (cursor_y (demo_screen 76)) (demo_screen 76) = 63" by (simp add: ring_row_mod demo_screen_def)
  have b: "bit (8 :: 8 word) 3" "\<not> bit (8 :: 8 word) 4" by (simp_all add: bit_iff_odd)
  have "cursor_x (demo_screen 76) \<ge> 76" by (simp add: demo_screen_def)
  then obtain s1 m where s1: "vga_putchar_switch (\<lambda>_. 0) 9 (demo_screen 76) = Some s1" "vga_set 8 s1 = Some (s1\<lparr>vm := m\<rparr>)" "\<forall>k < 8. dirty k m = bit (8 :: 8 word) k"
    using vga_tab_overruns_row[OF demo_screen_ok, of 76 8] unfolding r by auto
  then have "dirty 3 m" "\<not> dirty 4 m" using b by simp_all
  then show ?thesis using s1(1,2) by blast
qed

end
