(* ===== verification/Console.thy ===== *)
theory Console
  imports Kprintf Uart Vga Lock
begin

text \<open>
  The console of the kernel: what \<open>kprintf.c\<close> feeds goes, character by character, to the second serial port
  (\<open>driver/uart.c\<close>, by polling) and to the screen. \<open>irq i\<close> gives for character \<open>i\<close> how many vertical blank
  interrupts come after each step of \<open>vga_putchar\<close>; the formatting of \<open>Kprintf\<close> is done before the feeding,
  which makes no difference to what is fed.
\<close>

record 'h console =
  con_port :: 'h
  con_screen :: vga_st

definition feed :: "'h asci_ports \<Rightarrow> (nat \<Rightarrow> nat) \<Rightarrow> nat \<Rightarrow> 'h console \<Rightarrow> 'h console option" where
  "feed io w c st = do {
     (_, h) \<leftarrow> uart1_write_poll io [c] (con_port st);
     s \<leftarrow> vga_putchar w (word_of_nat c) (con_screen st);
     Some \<lparr>con_port = h, con_screen = s\<rparr> }"

fun feeds :: "'h asci_ports \<Rightarrow> (nat \<Rightarrow> nat \<Rightarrow> nat) \<Rightarrow> nat list \<Rightarrow> 'h console \<Rightarrow> 'h console option" where
  "feeds io irq [] st = Some st"
| "feeds io irq (c # cs) st = do { st1 \<leftarrow> feed io (irq 0) c st; feeds io (\<lambda>i. irq (i + 1)) cs st1 }"

text \<open>\<open>_kprintf\<close>, and \<open>kprintf\<close> with its lock, which may put the caller to sleep (\<open>None\<close> for the console).\<close>

definition kprintf_raw :: "'h asci_ports \<Rightarrow> (nat \<Rightarrow> nat \<Rightarrow> nat) \<Rightarrow> nat list \<Rightarrow> karg list \<Rightarrow> 'h console \<Rightarrow> 'h console option" where
  "kprintf_raw io irq fmt args st = do { out \<leftarrow> format_string fmt args; feeds io irq out st }"

definition kprintf :: "'h asci_ports \<Rightarrow> (nat \<Rightarrow> nat \<Rightarrow> nat) \<Rightarrow> nat \<Rightarrow> nat list \<Rightarrow> karg list \<Rightarrow> cpu_context \<Rightarrow> lsys \<Rightarrow> 'h console \<Rightarrow>
  ('h console option \<times> cpu_context \<times> lsys) option" where
  "kprintf io irq l fmt args ctx ls st = do {
     (got, ctx1, ls1) \<leftarrow> lock_lock l ctx ls;
     (if \<not> got then Some (None, ctx1, ls1)
      else do {
        st1 \<leftarrow> kprintf_raw io irq fmt args st;
        (ctx2, ls2) \<leftarrow> lock_unlock l ctx1 ls1;
        Some (Some st1, ctx2, ls2) }) }"

section \<open>What appears\<close>

text \<open>A port that becomes ready to send after any byte.\<close>

definition port_drains :: "'h asci_ports \<Rightarrow> bool" where
  "port_drains io \<longleftrightarrow> (\<forall>h. \<exists>h1. wait_txready io 1 h = Some h1)"

text \<open>The terminal never gets a tab past column 75, where the driver leaves the row (theorem \<open>vga_tab_overruns_row\<close>).\<close>

fun tabs_fit :: "nat list \<Rightarrow> vterm \<Rightarrow> bool" where
  "tabs_fit [] t = True"
| "tabs_fit (c # cs) t = ((word_of_nat c = (9 :: 8 word) \<longrightarrow> t_x t < 76) \<and> tabs_fit cs (term_put (word_of_nat c) t))"

lemma no_tabs_fit: "\<forall>c \<in> set cs. word_of_nat c \<noteq> (9 :: 8 word) \<Longrightarrow> tabs_fit cs t"
  by (induction cs arbitrary: t) auto

lemma feeds_ok:
  assumes "port_drains io" and "vga_ok (con_screen st)" and "tabs_fit out (shown (con_screen st))"
  shows "\<exists>st'. feeds io irq out st = Some st' \<and> vga_ok (con_screen st') \<and> uart_write_poll io 1 out (con_port st) = Some (con_port st') \<and>
    shown (con_screen st') = fold (\<lambda>c. term_put (word_of_nat c)) out (shown (con_screen st))"
  using assms(2,3)
proof (induction out arbitrary: st irq)
  case (Cons c out)
  obtain h1 where h1: "wait_txready io 1 (con_port st) = Some h1" using assms(1) unfolding port_drains_def by blast
  have "word_of_nat c = (9 :: 8 word) \<longrightarrow> cursor_x (con_screen st) < 76" using Cons.prems(2) by (simp add: shown_def)
  from vga_putchar_ok[OF Cons.prems(1) this, of "irq 0"] obtain s where s: "vga_putchar (irq 0) (word_of_nat c) (con_screen st) = Some s"
    "vga_ok s" "shown s = term_put (word_of_nat c) (shown (con_screen st))" by (elim exE conjE) (rule that; assumption)
  define st1 where "st1 = \<lparr>con_port = aout io (TDR 1) c h1, con_screen = s\<rparr>"
  have f: "feed io (irq 0) c st = Some st1" using h1 s(1) by (simp add: feed_def uart1_write_poll_def st1_def)
  have ok: "vga_ok (con_screen st1)" "tabs_fit out (shown (con_screen st1))" using s(2,3) Cons.prems(2) by (simp_all add: st1_def)
  from Cons.IH[OF ok, of "\<lambda>i. irq (i + 1)"] obtain st' where st': "feeds io (\<lambda>i. irq (i + 1)) out st1 = Some st'" "vga_ok (con_screen st')"
    "uart_write_poll io 1 out (con_port st1) = Some (con_port st')"
    "shown (con_screen st') = fold (\<lambda>c. term_put (word_of_nat c)) out (shown (con_screen st1))" by (elim exE conjE) (rule that; assumption)
  have "feeds io irq (c # out) st = Some st'" using f st'(1) by simp
  moreover have "uart_write_poll io 1 (c # out) (con_port st) = Some (con_port st')" using h1 st'(3) by (simp add: st1_def)
  moreover have "shown (con_screen st') = fold (\<lambda>c. term_put (word_of_nat c)) (c # out) (shown (con_screen st))" using st'(4) s(3) by (simp add: st1_def)
  ultimately show ?case using st'(2) by (intro exI[of _ st'] conjI)
qed simp

text \<open>C15. What is printed appears: unless a tab comes when the position is past column 75, \<open>_kprintf\<close> ends, with the
  characters on the screen as a terminal shows them, whatever the interrupts, and the same characters sent to the
  serial port.
\<close>

theorem kprintf_on_screen:
  assumes "format_string fmt args = Some out" and "port_drains io" and "vga_ok (con_screen st)" and "tabs_fit out (shown (con_screen st))"
  shows "\<exists>st'. kprintf_raw io irq fmt args st = Some st' \<and> vga_ok (con_screen st') \<and>
    shown (con_screen st') = fold (\<lambda>c. term_put (word_of_nat c)) out (shown (con_screen st)) \<and>
    uart_write_poll io 1 out (con_port st) = Some (con_port st')"
proof -
  obtain st' where "feeds io irq out st = Some st'" "vga_ok (con_screen st')" "uart_write_poll io 1 out (con_port st) = Some (con_port st')"
    "shown (con_screen st') = fold (\<lambda>c. term_put (word_of_nat c)) out (shown (con_screen st))"
    using feeds_ok[OF assms(2-4), of irq] by (elim exE conjE) (rule that; assumption)
  then show ?thesis using assms(1) by (intro exI[of _ st']) (simp add: kprintf_raw_def)
qed

text \<open>A port that keeps the bytes sent; printing \<open>"n=%d"\<close> with 42.\<close>

definition demo_port :: "nat list asci_ports" where
  "demo_port = \<lparr>ain = (\<lambda>r h. (2, h)), aout = (\<lambda>r v h. h @ [v])\<rparr>"

theorem kprintf_on_screen_witness:
  "\<exists>st'. kprintf_raw demo_port (\<lambda>_ _. 1) [9, 110, 61, 37, 100] [NumArg 42] \<lparr>con_port = [], con_screen = demo_screen 0\<rparr> = Some st' \<and>
    con_port st' = [9, 110, 61, 52, 50]"
proof -
  have f: "format_string [9, 110, 61, 37, 100] [NumArg 42] = Some [9, 110, 61, 52, 50]"
    by (simp add: itoa_def uitoa_def digits.simps digit_char_def u16_def)
  have d: "port_drains demo_port" unfolding port_drains_def
    by (intro allI, subst wait_txready.simps) (simp add: demo_port_def bit_iff_odd)
  have w: "wait_txready demo_port 1 h = Some h" for h by (subst wait_txready.simps) (simp add: demo_port_def bit_iff_odd)
  have u: "uart_write_poll demo_port 1 [9, 110, 61, 52, 50] [] = Some [9, 110, 61, 52, 50]" using w by (simp add: demo_port_def)
  have "t_x (shown (demo_screen 0)) = 0" by (simp add: shown_def demo_screen_def)
  then have t: "tabs_fit [9, 110, 61, 52, 50] (shown (demo_screen 0))" by simp
  show ?thesis using kprintf_on_screen[OF f d, of "\<lparr>con_port = [], con_screen = demo_screen 0\<rparr>" "\<lambda>_ _. 1"] demo_screen_ok[of 0] u t
    by simp metis
qed

end
