(* ===== verification/Timer.thy ===== *)
theory Timer
  imports Lock
begin

text \<open>
  The hardware timers of \<open>driver/prt.c\<close> below \<open>kernel/proc/timer.c\<close>: the 16 bit down counters of the Z180 with
  their reload registers. \<open>Lock\<close> holds the time the kernel computes from them and the tick.
\<close>

unbundle bit_operations_syntax

record prt =
  TCR :: nat
  TMDR0 :: "nat \<times> nat"
  TMDR1 :: "nat \<times> nat"
  RLDR0 :: "nat \<times> nat"
  RLDR1 :: "nat \<times> nat"

text \<open>Low byte first; reading it latches the high byte.\<close>

definition prt0_timer_get :: "prt \<Rightarrow> nat" where
  "prt0_timer_get p = fst (TMDR0 p) OR push_bit 8 (snd (TMDR0 p))"

definition prt1_timer_get :: "prt \<Rightarrow> nat" where
  "prt1_timer_get p = fst (TMDR1 p) OR push_bit 8 (snd (TMDR1 p))"

definition prt_reload :: "nat \<Rightarrow> nat" where
  "prt_reload interval = u16 ((CPU_FREQ div 20 * interval) mod 2 ^ 32 div 1000)"

definition prt0_init :: "nat \<Rightarrow> prt \<Rightarrow> prt" where
  "prt0_init interval p =
     (let p1 = p\<lparr>TCR := TCR p AND (255 - 17)\<rparr>;
          reload = prt_reload interval;
          p2 = p1\<lparr>RLDR0 := (reload AND 255, reload div 256)\<rparr>
      in p2\<lparr>TCR := TCR p2 OR 17\<rparr>)"

definition prt1_init :: "nat \<Rightarrow> prt \<Rightarrow> prt" where
  "prt1_init interval p =
     (let p1 = p\<lparr>TCR := TCR p AND (255 - 34)\<rparr>;
          reload = prt_reload interval;
          p2 = p1\<lparr>RLDR1 := (reload AND 255, reload div 256)\<rparr>
      in p2\<lparr>TCR := TCR p2 OR 34\<rparr>)"

definition timer_init :: "prt \<Rightarrow> prt" where
  "timer_init p = prt0_init (nat SYSTICK_INTERVAL) p"

section \<open>The period and the time within it\<close>

lemma prt_period: "prt_reload (nat SYSTICK_INTERVAL) = 3072" "prt_val_to_ms 3072 = 10"
  by (simp_all add: prt_reload_def CPU_FREQ_def SYSTICK_INTERVAL_def prt_val_to_ms_def u16_def)

lemma prt_val_mono: "v \<le> w \<Longrightarrow> w < 65536 \<Longrightarrow> prt_val_to_ms v \<le> prt_val_to_ms w"
  by (simp add: prt_val_to_ms_def CPU_FREQ_def div_le_mono)

text \<open>
  The time the kernel reads lies in the tick it belongs to, but the counter runs down: a later reading in the
  same tick is never the greater one, and over a whole period the time goes back by the length of the tick.
\<close>

lemma timer_get_in_tick: "v \<le> prt_reload (nat SYSTICK_INTERVAL) \<Longrightarrow> j \<le> timer_get j v \<and> timer_get j v \<le> j + SYSTICK_INTERVAL"
  using prt_val_mono[of v 3072] unfolding prt_period by (simp add: timer_get_def prt_period SYSTICK_INTERVAL_def)

lemma timer_runs_back:
  assumes "later \<le> earlier" and "earlier \<le> prt_reload (nat SYSTICK_INTERVAL)"
  shows "timer_get j later \<le> timer_get j earlier \<and> timer_get j 0 = timer_get j (prt_reload (nat SYSTICK_INTERVAL)) - SYSTICK_INTERVAL"
  using prt_val_mono[OF assms(1)] assms(2) unfolding prt_period
  by (simp add: timer_get_def prt_period SYSTICK_INTERVAL_def) (simp add: prt_val_to_ms_def)

end
