(* ===== verification/Spec2Isabelle.thy ===== *)
theory Spec2Isabelle
  imports CList IdStorage BHeap PageAlloc PageUse KMalloc HeapUse Sched Lock FloppyCmd Floppy FatTable FatDir Fat FatDisk Fs FsTree File FileRefs Kprintf DevFs FsOps Kernel Threads Process Fork Reap Uart BootFat Mmu BootLoad Vga Console Timer
begin

text \<open>
  ZAKOS: the operating system of the ZAK180 computer (a Z180 with banked memory), written in C.

  \<^bold>\<open>The program and its parts.\<close> The kernel starts the drivers, mounts a FAT12 floppy as its root and
  a device file system, and runs processes that call it through system calls. Every part below is a
  theory (or several); the theories follow the layers of the program from the bottom up.

  \<^item> \<open>kernel/lib\<close>: cyclic lists \<open>list.c\<close> (\<open>CList\<close>), identifiers \<open>id.c\<close> (\<open>IdStorage\<close>), the binary heap
    \<open>bheap.c\<close> (\<open>BHeap\<close>), formatted output \<open>kprintf.c\<close> (\<open>Kprintf\<close>, and on
    the serial port and the screen together \<open>Console\<close>), \<open>strdup.c\<close> (\<open>Process\<close>), error codes
    (\<open>ZPrelude\<close>).
  \<^item> \<open>kernel/mem\<close>: physical pages \<open>page.c\<close> (\<open>PageAlloc\<close>), the kernel heap \<open>kmalloc.c\<close> (\<open>KMalloc\<close>, and its view
    for the clients, a set of allocated addresses, in \<open>HeapUse\<close>; that of the pages in \<open>PageUse\<close>).
  \<^item> \<open>kernel/proc\<close>: threads and the scheduler \<open>thread.c\<close> (\<open>Sched\<close>), locks, condition queues and the time
    \<open>lock.c\<close>, \<open>cond.c\<close>, \<open>timer.c\<close> (\<open>Lock\<close>, with the counters of \<open>driver/prt.c\<close> in \<open>Timer\<close>), open files and descriptors \<open>file.c\<close> (\<open>File\<close>, \<open>FileRefs\<close>).
    \<open>Kernel\<close> joins these, the file systems and the objects of the processes to one state; over it \<open>Threads\<close>
    creates and joins threads, \<open>Process\<close> is \<open>process.c\<close> (loading, exec, starting, forking, ending, waiting),
    \<open>Fork\<close> the hand-over between parent and child in \<open>process_fork\<close>, step by step, and \<open>Reap\<close> what ending and
    waiting give back.
  \<^item> \<open>driver\<close> and \<open>kernel/dev\<close>: the floppy controller \<open>floppy_cmd.c\<close> (\<open>FloppyCmd\<close>), the drive \<open>driver/floppy.c\<close>
    and the block device \<open>kernel/dev/floppy.c\<close> (\<open>Floppy\<close>), the serial ports \<open>kernel/dev/uart.c\<close> and
    \<open>driver/uart.c\<close> (\<open>Uart\<close>), the mapping registers \<open>mmu.c\<close> and the transfer of \<open>dma.c\<close> (\<open>Mmu\<close>), the screen
    \<open>vga.c\<close> (\<open>Vga\<close>).
  \<^item> \<open>kernel/fs\<close>: the FAT12 file system \<open>fat.c\<close> (\<open>FatTable\<close>, \<open>FatDir\<close>, \<open>Fat\<close>, and over the floppy \<open>FatDisk\<close>),
    the layer of files above the file systems \<open>fs.c\<close> (\<open>Fs\<close>, \<open>FsTree\<close>), the device file system \<open>devfs.c\<close>
    (\<open>DevFs\<close>), and the two tables of operations together below the layer of files (\<open>FsOps\<close>).
  \<^item> \<open>bootloader\<close>: the reader \<open>fat12ro.c\<close> the boot loader finds the kernel with (\<open>BootFat\<close>), and the loop of
    \<open>main.c\<close> that brings it into memory (\<open>BootLoad\<close>).

  \<^bold>\<open>How the code is modelled.\<close> A C structure is a record, or a store (a function from addresses) where the
  code keeps several of them and links them by pointers; a pointer is an option, NULL being \<open>None\<close>; a
  function of the source is a definition of the same name over the state it touches. A function that can
  leave the defined behaviour of C (NULL, a failed \<open>assert\<close>, a read out of bounds, an undefined shift), or
  block, returns an option, \<open>None\<close> for each of these. Error codes are the negative integers of the source.
  Unsigned 8 and 16 bit arithmetic is written out with \<open>u8\<close>, \<open>u16\<close>, \<open>sub8\<close>, \<open>s8\<close>, \<open>s16\<close>; file offsets
  (\<open>off_t\<close>, a \<open>long\<close>) and the time are not cut off.
  Hardware is a parameter: the I/O ports of \<open>FloppyCmd\<close>, the registers of the serial ports in \<open>Uart\<close>, the sectors
  in \<open>BootFat\<close>. What the floppy controller and its drive do is the named hypothesis \<open>controller_ok\<close> at the
  ports; everything above them, from \<open>floppy_cmd.c\<close> to \<open>fat.c\<close>, is the code. The witnesses run on \<open>chip_io\<close>, a
  controller with its drive written out, that lets two transfers fail. The mapping and the transfer of the Z180
  are written out in \<open>Mmu\<close> from the registers the code sets.
  A call that blocks is modelled up to the switch to another thread; what runs when the thread goes on is a
  definition of its own (\<open>process_wait_loop\<close>, \<open>thread_join_loop\<close>, \<open>thread_return\<close>).

  \<^bold>\<open>Loops.\<close> A loop over a finite object is a \<open>fun\<close> or a \<open>function\<close> with a measure (\<open>alloc_loop\<close>: what is left
  of the table; \<open>fread_loop\<close>, \<open>fwrite_loop\<close>: what is left of the buffer; \<open>fs_open_walk\<close>: the length of the
  path). A loop that need not end (following pointers, polling the controller, a corrupt chain of clusters)
  is a \<open>partial_function\<close>, and the properties about it state that it returns, or that it does not
  (\<open>process_wait_other_pid_hangs\<close>). There is no fuel.

  \<^bold>\<open>Interfaces.\<close> \<open>cyclic_queue\<close> (\<open>CList\<close>) is the contract of the rings for the scheduler, the process lists
  and the cache of children; \<open>heap_order\<close> (\<open>BHeap\<close>) what the heap relies on in its comparison;
  \<open>sector_dev\<close> and \<open>blk_dev\<close> (\<open>Floppy\<close>) the layers of the floppy; \<open>fat_disk\<close> (\<open>Fat\<close>) what the file system
  needs of a block device; \<open>vfs_backend\<close> (\<open>FsTree\<close>) what the file layer needs of a file system, and
  \<open>file_backend\<close> (\<open>FileRefs\<close>) what the descriptors need of the layer of files. Each is
  interpreted on the definitions of the component that provides it.

  \<^bold>\<open>What is shown.\<close> Each component has an invariant that every operation preserves, and the effect of each
  operation on what the state stands for: the lists of a ring (\<open>cyc\<close>), the multiset of a heap, sorted
  identifiers (\<open>ids_ok\<close>), the sets of free and allocated pages (\<open>page_ok\<close>), the blocks that tile the heap
  (\<open>heap_ok\<close>), the queues of the scheduler (\<open>sched_ok\<close>), the linear image of the disk, the chains of
  clusters (\<open>chain_of\<close>), the tree of files with exact reference counts (\<open>vfs_wf\<close>), and the open files with
  exact reference counts over it (\<open>file_wf\<close>), the blocks and pages a process owns (\<open>holds\<close>), and the
  screen as a terminal (\<open>shown\<close>, \<open>term_put\<close>). \<open>Lock\<close> interleaves threads: mutual exclusion and no lost
  wake-up for every schedule; \<open>Fork\<close> interleaves parent and child, up to an access to memory that was freed; \<open>Vga\<close> puts any number
  of interrupts between the steps of printing, and \<open>Uart\<close> an interrupt wherever the code leaves them on. \<open>BootFat\<close> reads what the file system of the kernel reads,
  and \<open>BootLoad\<close> puts it where the kernel starts. Some theorems show what the code does in a corner where it goes wrong.

  \<^bold>\<open>Bounds.\<close> Reference counts of open files have 8 bits and those of nodes 7: the theorems assume room for
  the reference they add. The heap of sleepers has 32 slots, the pool of page elements 32 of which 15 are
  usable, a table 16 descriptors, a ring of a serial port 63 bytes. The hand-over of a fork takes at most 14
  steps. The driver repeats a failed transfer twice before it resets the controller; the theorems about the disk
  allow two failures. The vertical blank copies 4 rows and the cursor dirties at most one, so that 21 interrupts leave at
  most one of the 64 rows to copy.

  \<^bold>\<open>Not modelled.\<close> Assembly (\<open>crt0.s\<close>: interrupt entry, context switch, system call entry); \<open>kernel/main.c\<close>,
  \<open>kernel/syscall.c\<close> and the rest of \<open>bootloader/main.c\<close>, which call the modelled functions in order, print,
  and wait for a key; the drivers of the sound chip, the parallel ports and the keyboard and the switching of interrupts,
  single accesses to registers without state of their own; \<open>assert\<close> and \<open>panic\<close>, which stop the machine; the
  tests in \<open>kernel/test\<close>; and the user programs and their library \<open>usr\<close>, except the constants shared with
  the kernel.
\<close>

end
